(* ===== verification/Prelude.thy ===== *)
theory Prelude
  imports Main "HOL-Library.Word"
begin

text \<open>
  What the component theories share: the names of Rust's machine integers, the reading of
  a 64-bit double limb as a natural number, facts on lists that are updated by index, and
  the result type of fallible operations.

  A \<open>u32\<close> is a \<open>32 word\<close>, a \<open>u64\<close> a \<open>64 word\<close>; an \<open>i64\<close> is a \<open>64 word\<close> read with
  \<open>sint\<close>. The cast \<open>x as u32\<close> is \<open>ucast x\<close>. A \<open>usize\<close> is a \<open>nat\<close>: it counts elements of
  a vector that exists in memory, so it stays far below \<open>2 ^ 64\<close>.
\<close>

unbundle bit_operations_syntax

type_synonym u8 = "8 word"
type_synonym u16 = "16 word"
type_synonym u32 = "32 word"
type_synonym u64 = "64 word"
type_synonym i64 = "64 word"

named_theorems limb_simps \<open>reading words of a double limb as natural numbers\<close>
named_theorems limb_bounds \<open>upper bounds of words read as natural numbers\<close>

section \<open>Ordering\<close>

text \<open>Rust's \<open>core::cmp::Ordering\<close>, and \<open>Ord::cmp\<close> on a linear order.\<close>

datatype ordering = Less | Equal | Greater

fun ord_reverse :: "ordering \<Rightarrow> ordering" where
  "ord_reverse Less = Greater"
| "ord_reverse Equal = Equal"
| "ord_reverse Greater = Less"

definition ord_cmp :: "'a::linorder \<Rightarrow> 'a \<Rightarrow> ordering" where
  "ord_cmp a b = (if a < b then Less else if a = b then Equal else Greater)"

lemma ord_cmp_Equal [simp]: "ord_cmp a b = Equal \<longleftrightarrow> a = b"
  by (auto simp: ord_cmp_def)

lemma ord_cmp_Less [simp]: "ord_cmp a b = Less \<longleftrightarrow> a < b"
  by (auto simp: ord_cmp_def)

lemma ord_cmp_Greater [simp]: "ord_cmp a b = Greater \<longleftrightarrow> b < a"
  by (auto simp: ord_cmp_def)

lemma ord_cmp_refl [simp]: "ord_cmp a a = Equal"
  by simp

lemma ord_reverse_cmp: "ord_reverse (ord_cmp a b) = ord_cmp b a"
  by (auto simp: ord_cmp_def)

lemma ord_cmp_nat_of_int: "ord_cmp (int a) (int b) = ord_cmp a b"
  by (auto simp: ord_cmp_def)

lemma ord_cmp_uminus: "ord_cmp (- a) (- b) = ord_cmp b (a :: int)"
  by (auto simp: ord_cmp_def)

section \<open>Limbs and double limbs\<close>

text \<open>The base of the 32-bit limbs, kept folded so that arithmetic stays symbolic.\<close>

definition B32 :: nat where "B32 = 2 ^ 32"

lemma B32_pos [simp]: "0 < B32"
  by (simp add: B32_def)

lemma B32_gt1 [simp]: "1 < B32" "Suc 0 < B32"
  by (simp_all add: B32_def)

lemma B32_ge1 [simp]: "1 \<le> B32" "Suc 0 \<le> B32"
  by (simp_all add: B32_def)

lemma B32_neq_0 [simp]: "B32 \<noteq> 0"
  by (simp add: B32_def)

lemma B32_sq: "B32 * B32 = 2 ^ 64"
  by (simp add: B32_def)

lemma B32_power: "B32 ^ k = 2 ^ (32 * k)"
  by (simp add: B32_def power_mult)

lemma unat_u32_lt [limb_bounds]: "unat (x :: u32) < B32"
  unfolding B32_def using unsigned_less [of x, where ?'a = nat] by simp

lemma unat_u32_le: "unat (x :: u32) \<le> B32 - 1"
  using unat_u32_lt [of x] by linarith

lemma unat_u64_lt: "unat (x :: u64) < B32 * B32"
  unfolding B32_sq using unsigned_less [of x, where ?'a = nat] by simp

lemma unat_ucast_up [limb_simps]: "unat (ucast (x :: u32) :: u64) = unat x"
  by (simp add: unsigned_ucast_eq take_bit_nat_eq_self_iff unat_u32_lt [unfolded B32_def, simplified] less_trans [OF unat_u32_lt [unfolded B32_def]])

lemma unat_ucast_down [limb_simps]: "unat (ucast (x :: u64) :: u32) = unat x mod B32"
  by (simp add: B32_def unsigned_ucast_eq take_bit_eq_mod)

lemma unat_hi [limb_simps]: "unat (drop_bit 32 (x :: u64)) = unat x div B32"
  unfolding B32_def unat_drop_bit_eq by (rule drop_bit_eq_div)

lemma unat_hi_lt [limb_bounds]: "unat x div B32 < B32" for x :: u64
  using unat_u64_lt [of x] by (simp add: less_mult_imp_div_less)

lemma unat_add_u64: "unat a + unat b < B32 * B32 \<Longrightarrow> unat (a + b) = unat a + unat b"
  for a b :: u64
  by (simp add: B32_sq unat_word_ariths)

lemma unat_mul_u64: "unat a * unat b < B32 * B32 \<Longrightarrow> unat (a * b) = unat a * unat b"
  for a b :: u64
  by (simp add: B32_sq unat_word_ariths)

lemma limb_split: "unat x mod B32 + B32 * (unat x div B32) = unat x" for x :: u64
  by (metis add.commute mult_div_mod_eq)

text \<open>\<open>(hi << 32) | lo\<close> joins two limbs into a double limb.\<close>

lemma unat_join:
  assumes "unat (hi :: u64) < B32"
  shows "unat (push_bit 32 hi OR ucast (lo :: u32)) = unat hi * B32 + unat lo"
proof -
  have "push_bit 32 hi AND ucast lo = (0 :: u64)"
    by (rule bit_word_eqI) (auto simp: bit_simps dest: bit_imp_le_length)
  then have "push_bit 32 hi OR ucast lo = push_bit 32 hi + (ucast lo :: u64)"
    by (simp add: disjunctive_add_eq_or)
  moreover have p: "unat (push_bit 32 hi) = unat hi * B32"
    using assms by (simp add: push_bit_eq_mult unat_word_ariths B32_def)
  moreover have "unat hi * B32 + unat lo < B32 * B32"
  proof -
    have "unat hi * B32 + unat lo < unat hi * B32 + B32"
      using unat_u32_lt [of lo] by simp
    also have "\<dots> = Suc (unat hi) * B32" by simp
    also have "\<dots> \<le> B32 * B32" using assms by (intro mult_right_mono) auto
    finally show ?thesis .
  qed
  ultimately show ?thesis
    by (simp add: unat_add_u64 unat_ucast_up)
qed

section \<open>Leading zeros\<close>

text \<open>\<open>u32::leading_zeros\<close>: how many of the top \<open>i\<close> bits are clear before the first set one.\<close>

fun lz_from :: "u32 \<Rightarrow> nat \<Rightarrow> nat" where
  "lz_from x 0 = 0"
| "lz_from x (Suc i) = (if bit x i then 0 else Suc (lz_from x i))"

definition leading_zeros :: "u32 \<Rightarrow> nat" where
  "leading_zeros x = lz_from x 32"

lemma bit_unat: "bit (x :: u32) i \<longleftrightarrow> odd (unat x div 2 ^ i)"
  using bit_unsigned_iff [of x i, where ?'a = nat]
  by (auto simp: bit_iff_odd [where ?'a = nat, of "unat x"] possible_bit_def)

lemma top_bit_cases:
  assumes "unat (x :: u32) < 2 ^ Suc i"
  shows "if bit x i then 2 ^ i \<le> unat x else unat x < 2 ^ i"
proof -
  have "unat x div 2 ^ i < 2" using assms by (simp add: less_mult_imp_div_less)
  then have "unat x div 2 ^ i = (if bit x i then 1 else 0)"
    by (auto simp: bit_unat less_2_cases_iff)
  then show ?thesis
    using div_greater_zero_iff [of "unat x" "2 ^ i"]
    by (cases "bit x i") (simp_all add: div_eq_0_iff)
qed

lemma lz_from_bounds:
  "0 < unat x \<Longrightarrow> unat x < 2 ^ i \<Longrightarrow>
    lz_from x i < i \<and> 2 ^ (i - 1) \<le> unat x * 2 ^ lz_from x i \<and> unat x * 2 ^ lz_from x i < 2 ^ i"
proof (induction i)
  case (Suc i)
  show ?case
  proof (cases "bit x i")
    case True
    with top_bit_cases [OF Suc.prems(2)] Suc.prems show ?thesis by simp
  next
    case False
    with top_bit_cases [OF Suc.prems(2)] have "unat x < 2 ^ i" by simp
    with Suc have ih: "lz_from x i < i" "2 ^ (i - 1) \<le> unat x * 2 ^ lz_from x i"
      "unat x * 2 ^ lz_from x i < 2 ^ i" by auto
    then obtain k where "i = Suc k" by (cases i) auto
    with False ih show ?thesis by simp
  qed
qed simp

lemma leading_zeros_bounds:
  assumes "x \<noteq> 0"
  shows "leading_zeros x < 32" "2 ^ 31 \<le> unat x * 2 ^ leading_zeros x"
    "unat x * 2 ^ leading_zeros x < B32"
proof -
  have "0 < unat x" using assms by (simp add: unat_gt_0)
  moreover have "unat x < 2 ^ 32" using unat_u32_lt [of x] unfolding B32_def .
  ultimately have "lz_from x 32 < 32 \<and> 2 ^ (32 - 1) \<le> unat x * 2 ^ lz_from x 32 \<and>
      unat x * 2 ^ lz_from x 32 < 2 ^ 32" by (rule lz_from_bounds)
  then show "leading_zeros x < 32" "2 ^ 31 \<le> unat x * 2 ^ leading_zeros x"
    "unat x * 2 ^ leading_zeros x < B32"
    unfolding leading_zeros_def B32_def by simp_all
qed

lemma take_bit_small: "unat c < 2 ^ n \<Longrightarrow> take_bit n c = (c :: u32)"
  by (simp add: word_unat_eq_iff unsigned_take_bit_eq take_bit_nat_eq_self_iff del: word_unat_eq_iff [symmetric])

section \<open>Lists updated by index\<close>

lemma list_update_append_at:
  "k = length xs \<Longrightarrow> (xs @ y # zs)[k := v] = xs @ v # zs"
  by simp

lemma nth_append_at: "k = length xs \<Longrightarrow> (xs @ y # zs) ! k = y"
  by simp

lemma split_at_nth: "k < length xs \<Longrightarrow> xs = take k xs @ xs ! k # drop (Suc k) xs"
  by (simp add: id_take_nth_drop)

end
