(* ===== verification/BigMag.thy ===== *)
theory BigMag
  imports Prelude
begin

text \<open>
  The magnitude helpers of \<open>src/bigint.rs\<close>: \<open>trim\<close>, \<open>ucmp\<close>, \<open>uadd\<close>, \<open>usub\<close>, \<open>umul\<close>,
  \<open>umul_small\<close>, \<open>udiv_small\<close>, \<open>ushl\<close>, \<open>ushr\<close>. A magnitude is a list of 32-bit limbs, least
  significant first (\<open>Vec<u32>\<close>); intermediate sums and products are 64-bit words, as in the
  code, so that a carry the code lost to wrap-around would be lost here too.
  \<open>lval\<close> is the number a magnitude stands for; each helper is characterised by it.
\<close>

section \<open>The value of a magnitude\<close>

type_synonym limb = u32
type_synonym mag = "limb list"

fun lval :: "mag \<Rightarrow> nat" where
  "lval [] = 0"
| "lval (x # xs) = unat x + B32 * lval xs"

definition trimmed :: "mag \<Rightarrow> bool" where
  "trimmed v \<longleftrightarrow> (v = [] \<or> last v \<noteq> 0)"

lemma lval_append: "lval (xs @ ys) = lval xs + B32 ^ length xs * lval ys"
  by (induction xs) (simp_all add: algebra_simps)

lemma lval_bound: "lval xs < B32 ^ length xs"
proof (induction xs)
  case (Cons x xs)
  have "lval (x # xs) < B32 + B32 * lval xs"
    using unat_u32_lt [of x] by simp
  also have "\<dots> = B32 * Suc (lval xs)" by simp
  also have "\<dots> \<le> B32 * B32 ^ length xs"
    using Cons by (intro mult_le_mono2) auto
  finally show ?case by simp
qed simp

lemma lval_replicate_0 [simp]: "lval (replicate n 0) = 0"
  by (induction n) auto

lemma lval_snoc_0 [simp]: "lval (xs @ [0]) = lval xs"
  by (simp add: lval_append)

lemma lval_update:
  "k < length xs \<Longrightarrow>
    lval (xs[k := v]) + B32 ^ k * unat (xs ! k) = lval xs + B32 ^ k * unat v"
proof (induction xs arbitrary: k)
  case (Cons x xs)
  show ?case
  proof (cases k)
    case (Suc n)
    with Cons have "B32 * (lval (xs[n := v]) + B32 ^ n * unat (xs ! n)) =
        B32 * (lval xs + B32 ^ n * unat v)" by simp
    with Suc show ?thesis by (simp add: distrib_left mult.assoc)
  qed (simp add: algebra_simps)
qed simp

lemma lval_lower: "xs \<noteq> [] \<Longrightarrow> trimmed xs \<Longrightarrow> B32 ^ (length xs - 1) \<le> lval xs"
proof -
  assume "xs \<noteq> []" "trimmed xs"
  then obtain ys y where xs: "xs = ys @ [y]" and "y \<noteq> 0"
    by (cases xs rule: rev_cases) (auto simp: trimmed_def)
  then have "1 \<le> unat y" by (simp add: Suc_le_eq unat_gt_0)
  then have "B32 ^ length ys * 1 \<le> B32 ^ length ys * unat y"
    by (intro mult_le_mono2)
  then show ?thesis by (simp add: xs lval_append trans_le_add2)
qed

lemma lval_eq_0: "trimmed xs \<Longrightarrow> lval xs = 0 \<longleftrightarrow> xs = []"
  by (metis B32_pos lval.simps(1) lval_lower not_le zero_less_power)

section \<open>trim\<close>

function trim :: "mag \<Rightarrow> mag" where
  "trim v = (if v \<noteq> [] \<and> last v = 0 then trim (butlast v) else v)"
  by pat_completeness auto
termination
  by (relation "measure length") auto

declare trim.simps [simp del]

lemma trim_trimmed [simp]: "trimmed (trim v)"
proof (induction v rule: trim.induct)
  case (1 v)
  then show ?case by (subst trim.simps) (auto simp: trimmed_def)
qed

lemma lval_trim [simp]: "lval (trim v) = lval v"
proof (induction v rule: trim.induct)
  case (1 v)
  show ?case
  proof (cases "v \<noteq> [] \<and> last v = 0")
    case True
    then have "v = butlast v @ [0]" by (metis append_butlast_last_id)
    then have "lval v = lval (butlast v)" by (metis lval_snoc_0)
    with True 1 show ?thesis by (subst trim.simps) simp
  next
    case False
    then have "trim v = v" by (subst trim.simps) auto
    then show ?thesis by simp
  qed
qed

lemma trim_id [simp]: "trimmed v \<Longrightarrow> trim v = v"
  by (subst trim.simps) (auto simp: trimmed_def)

lemma length_trim: "length (trim v) \<le> length v"
proof (induction v rule: trim.induct)
  case (1 v)
  then show ?case by (subst trim.simps) (auto simp: le_diff_conv)
qed

lemma trim_eq_Nil: "trim v = [] \<longleftrightarrow> lval v = 0"
  by (metis lval_eq_0 lval_trim trim_trimmed)

text \<open>A trimmed magnitude is the only one of its value.\<close>

lemma lval_inj:
  assumes "length xs = length ys" and "lval xs = lval ys"
  shows "xs = ys"
  using assms
proof (induction xs ys rule: list_induct2)
  case (Cons x xs y ys)
  have low: "lval (z # zs) mod B32 = unat z" for z zs
    by (simp add: unat_u32_lt)
  have xy: "unat x = unat y" using Cons.prems low [of x xs] low [of y ys] by metis
  with Cons.prems have "lval xs = lval ys" by simp
  with xy Cons.IH show ?case by (simp add: word_unat_eq_iff)
qed simp

lemma trimmed_length_le:
  assumes "trimmed xs" "lval xs \<le> lval ys"
  shows "length xs \<le> length ys"
proof (cases "xs = []")
  case False
  then have "B32 ^ (length xs - 1) < B32 ^ length ys"
    using assms lval_lower [of xs] lval_bound [of ys] by linarith
  then have "length xs - 1 < length ys" by (simp add: power_strict_increasing_iff)
  then show ?thesis by simp
qed simp

lemma trimmed_inj: "trimmed xs \<Longrightarrow> trimmed ys \<Longrightarrow> lval xs = lval ys \<Longrightarrow> xs = ys"
  by (intro lval_inj le_antisym) (auto intro: trimmed_length_le)

section \<open>ucmp\<close>

fun ucmp_loop :: "mag \<Rightarrow> mag \<Rightarrow> nat \<Rightarrow> ordering" where
  "ucmp_loop a b 0 = Equal"
| "ucmp_loop a b (Suc i) =
     (if a ! i \<noteq> b ! i then ord_cmp (a ! i) (b ! i) else ucmp_loop a b i)"

definition ucmp :: "mag \<Rightarrow> mag \<Rightarrow> ordering" where
  "ucmp a b = (if length a \<noteq> length b then ord_cmp (length a) (length b)
     else ucmp_loop a b (length a))"

lemma lval_take_Suc: "i < length a \<Longrightarrow> lval (take (Suc i) a) = lval (take i a) + B32 ^ i * unat (a ! i)"
  by (simp add: take_Suc_conv_app_nth lval_append)

lemma top_limb_less:
  assumes "x < y" "l < B" "l' < (B::nat)"
  shows "l + B * x < l' + B * y"
proof -
  have "l + B * x < B * Suc x" using assms by simp
  also have "\<dots> \<le> B * y" using assms by (intro mult_le_mono2) auto
  finally show ?thesis by simp
qed

lemma ucmp_loop_lval:
  "i \<le> length a \<Longrightarrow> i \<le> length b \<Longrightarrow>
    ucmp_loop a b i = ord_cmp (lval (take i a)) (lval (take i b))"
proof (induction i)
  case (Suc i)
  have l: "lval (take i a) < B32 ^ i" "lval (take i b) < B32 ^ i"
    using Suc.prems lval_bound [of "take i a"] lval_bound [of "take i b"] by simp_all
  from Suc.prems have t: "lval (take (Suc i) a) = lval (take i a) + B32 ^ i * unat (a ! i)"
    "lval (take (Suc i) b) = lval (take i b) + B32 ^ i * unat (b ! i)"
    by (simp_all add: lval_take_Suc)
  consider "a ! i = b ! i" | "a ! i < b ! i" | "b ! i < a ! i" by (metis linorder_less_linear)
  then show ?case
  proof cases
    case 1
    then show ?thesis using Suc by (simp add: t ord_cmp_def)
  next
    case 2
    then have "lval (take (Suc i) a) < lval (take (Suc i) b)"
      unfolding t using l by (intro top_limb_less) (simp_all add: word_less_nat_alt)
    with 2 show ?thesis by (auto simp: ord_cmp_def)
  next
    case 3
    then have "lval (take (Suc i) b) < lval (take (Suc i) a)"
      unfolding t using l by (intro top_limb_less) (simp_all add: word_less_nat_alt)
    with 3 show ?thesis by (auto simp: ord_cmp_def)
  qed
qed simp

lemma ucmp_lval:
  assumes "trimmed a" "trimmed b"
  shows "ucmp a b = ord_cmp (lval a) (lval b)"
proof (cases "length a = length b")
  case True
  then show ?thesis using ucmp_loop_lval [of "length a" a b] by (simp add: ucmp_def)
next
  case False
  then consider "length a < length b" | "length b < length a" by linarith
  then show ?thesis
  proof cases
    case 1
    then have "lval a < lval b" using assms trimmed_length_le [of b a] by (meson not_le)
    with 1 show ?thesis by (simp add: ucmp_def ord_cmp_def)
  next
    case 2
    then have "lval b < lval a" using assms trimmed_length_le [of a b] by (meson not_le)
    with 2 show ?thesis by (simp add: ucmp_def ord_cmp_def)
  qed
qed

section \<open>uadd and usub\<close>

fun uadd_loop :: "mag \<Rightarrow> mag \<Rightarrow> u64 \<Rightarrow> mag" where
  "uadd_loop [] short carry = (if carry \<noteq> 0 then [ucast carry] else [])"
| "uadd_loop (x # long) short carry =
     (let s = ucast x + (case short of [] \<Rightarrow> 0 | y # _ \<Rightarrow> ucast y) + carry
      in ucast s # uadd_loop long (tl short) (drop_bit 32 s))"

definition uadd :: "mag \<Rightarrow> mag \<Rightarrow> mag" where
  "uadd a b = (let (long, short) = (if length b \<le> length a then (a, b) else (b, a))
     in uadd_loop long short 0)"

lemma lval_carry_limb: "unat c < B32 \<Longrightarrow> lval (if c \<noteq> 0 then [ucast c] else []) = unat (c :: u64)"
  by (simp add: unat_ucast_down)

lemma B32_ge4: "4 \<le> B32"
  by (simp add: B32_def)

lemma B32_sq_ge: "k \<le> 4 \<Longrightarrow> k * B32 \<le> B32 * B32"
  using B32_ge4 by (intro mult_le_mono1) simp

lemma unat_sum3:
  assumes "unat c \<le> 1"
  shows "unat (ucast (x :: u32) + ucast (y :: u32) + (c :: u64)) = unat x + unat y + unat c"
proof -
  have b: "unat x < B32" "unat y < B32" by (rule unat_u32_lt)+
  have "3 * B32 \<le> B32 * B32" by (rule B32_sq_ge) simp
  with b assms have s: "unat x + unat y + unat c < B32 * B32" by linarith
  then have "unat (ucast x + ucast y :: u64) = unat x + unat y"
    by (subst unat_add_u64) (simp_all add: unat_ucast_up)
  with s show ?thesis by (subst unat_add_u64) simp_all
qed

lemma hi_le1: "s < 2 * B32 \<Longrightarrow> s div B32 \<le> 1"
  by (metis One_nat_def less_Suc_eq_le less_mult_imp_div_less numeral_2_eq_2)

lemma uadd_loop_lval:
  assumes "length ys \<le> length xs" "unat c \<le> 1"
  shows "lval (uadd_loop xs ys c) = lval xs + lval ys + unat c"
  using assms
proof (induction xs ys c rule: uadd_loop.induct)
  case (1 ys c)
  have "unat c < B32" using "1.prems"(2) by (rule le_less_trans) simp
  then show ?case using "1.prems"(1) by (simp add: lval_carry_limb)
next
  case (2 x xs ys c)
  define y where "y = (case ys of [] \<Rightarrow> 0 | y # _ \<Rightarrow> y)"
  define s where "s = ucast x + ucast y + c"
  have y: "(case ys of [] \<Rightarrow> 0 | y # _ \<Rightarrow> ucast y) = (ucast y :: u64)"
    by (simp add: y_def split: list.split)
  have ly: "lval ys = unat y + B32 * lval (tl ys)"
    by (cases ys) (simp_all add: y_def)
  have us: "unat s = unat x + unat y + unat c"
    unfolding s_def using "2.prems"(2) by (rule unat_sum3)
  have "unat s < 2 * B32"
    using us "2.prems"(2) unat_u32_le [of x] unat_u32_le [of y] B32_gt1 by linarith
  then have "unat (drop_bit 32 s) \<le> 1" unfolding unat_hi by (rule hi_le1)
  then have "lval (uadd_loop xs (tl ys) (drop_bit 32 s)) =
      lval xs + lval (tl ys) + unat (drop_bit 32 s)"
    using "2.prems"(1) by (intro "2.IH" [OF s_def [folded y]]) auto
  then have "lval (uadd_loop (x # xs) ys c) =
      unat s mod B32 + B32 * (lval xs + lval (tl ys) + unat s div B32)"
    by (simp add: y s_def [symmetric] limb_simps)
  also have "\<dots> = unat s + B32 * lval xs + B32 * lval (tl ys)"
    using limb_split [of s] by (simp add: algebra_simps)
  finally show ?case by (simp add: us ly)
qed

lemma lval_uadd [simp]: "lval (uadd a b) = lval a + lval b"
  by (simp add: uadd_def uadd_loop_lval)

text \<open>The borrow of a signed 64-bit difference of limbs: \<open>t as u32\<close> and \<open>t < 0\<close>.\<close>

fun usub_loop :: "mag \<Rightarrow> mag \<Rightarrow> i64 \<Rightarrow> mag" where
  "usub_loop [] b borrow = []"
| "usub_loop (x # a) b borrow =
     (let t = ucast x - (case b of [] \<Rightarrow> 0 | y # _ \<Rightarrow> ucast y) - borrow
      in ucast t # usub_loop a (tl b) (if sint t < 0 then 1 else 0))"

definition usub :: "mag \<Rightarrow> mag \<Rightarrow> mag" where
  "usub a b = trim (usub_loop a b 0)"

lemma sint_of_int_small:
  assumes "- (2 ^ 63) \<le> k" "k < 2 ^ 63"
  shows "sint (word_of_int k :: i64) = k"
  using assms by (simp add: signed_of_int signed_take_bit_int_eq_self)

lemma diff_limbs:
  fixes x p :: u64 and bw :: i64
  assumes "unat x < B32" "unat p < B32" "unat bw \<le> 1"
  defines "t \<equiv> x - p - bw"
  shows "sint t = int (unat x) - int (unat p) - int (unat bw)"
    and "int (unat (ucast t :: u32)) = int (unat x) - int (unat p) - int (unat bw)
      + (if sint t < 0 then int B32 else 0)"
proof -
  let ?d = "int (unat x) - int (unat p) - int (unat bw)"
  have t: "t = word_of_int ?d"
    by (simp add: t_def word_of_int_minus [symmetric] del: of_int_diff) (simp add: of_int_diff)
  have r: "- int B32 \<le> ?d" "?d < int B32" using assms by linarith+
  then have "- (2 ^ 63) \<le> ?d" "?d < 2 ^ 63" by (simp_all add: B32_def)
  then show s: "sint t = ?d" unfolding t by (rule sint_of_int_small)
  have "uint (ucast t :: u32) = uint t mod 2 ^ 32"
    by (simp add: unsigned_ucast_eq take_bit_eq_mod)
  also have "uint t = ?d mod 2 ^ 64"
    unfolding t by (simp only: uint_word_of_int len_num1 len_bit0 mult_1_right)  simp
  also have "?d mod 2 ^ 64 mod 2 ^ 32 = ?d mod int B32"
    by (simp add: mod_mod_cancel B32_def)
  finally have "uint (ucast t :: u32) = ?d mod int B32" .
  moreover have "?d mod int B32 = ?d + (if ?d < 0 then int B32 else 0)"
  proof (cases "?d < 0")
    case True
    then have "(?d + int B32) mod int B32 = ?d + int B32"
      using r by (intro mod_pos_pos_trivial) simp_all
    with True show ?thesis by simp
  qed (use r in \<open>simp add: mod_pos_pos_trivial\<close>)
  ultimately show "int (unat (ucast t :: u32)) = ?d + (if sint t < 0 then int B32 else 0)"
    by (simp add: s)
qed

lemma usub_loop_lval:
  assumes "length b \<le> length a" "unat bw \<le> 1"
  shows "\<exists>f \<in> {0, 1}. int (lval (usub_loop a b bw)) =
    int (lval a) - int (lval b) - int (unat bw) + int (B32 ^ length a) * f"
  using assms
proof (induction a b bw rule: usub_loop.induct)
  case (1 b bw)
  then have "bw = 0 \<or> bw = 1" by (auto simp: word_unat_eq_iff)
  with 1 show ?case by auto
next
  case (2 x a b bw)
  define y where "y = (case b of [] \<Rightarrow> 0 | y # _ \<Rightarrow> y)"
  define t :: u64 where "t = ucast x - ucast y - bw"
  let ?d = "int (unat x) - int (unat y) - int (unat bw)"
  let ?bw = "if sint t < 0 then 1 else 0 :: u64"
  have y: "(case b of [] \<Rightarrow> 0 | y # _ \<Rightarrow> ucast y) = (ucast y :: u64)"
    by (simp add: y_def split: list.split)
  have lb: "int (lval b) = int (unat y) + int B32 * int (lval (tl b))"
    by (cases b) (simp_all add: y_def)
  have t: "int (unat (ucast t :: u32)) = ?d + (if sint t < 0 then int B32 else 0)"
    unfolding t_def using "2.prems"(2) diff_limbs [of "ucast x" "ucast y" bw]
    by (simp add: unat_ucast_up unat_u32_lt)
  have "\<exists>f \<in> {0, 1}. int (lval (usub_loop a (tl b) ?bw)) =
      int (lval a) - int (lval (tl b)) - int (unat ?bw) + int (B32 ^ length a) * f"
    using "2.prems" by (intro "2.IH" [OF t_def [folded y]]) auto
  then obtain f where f: "f \<in> {0, 1}" and ih: "int (lval (usub_loop a (tl b) ?bw)) =
      int (lval a) - int (lval (tl b)) - int (unat ?bw) + int (B32 ^ length a) * f" by blast
  have "int (lval (usub_loop (x # a) b bw)) =
      int (unat (ucast t :: u32)) + int B32 * int (lval (usub_loop a (tl b) ?bw))"
    by (simp add: y t_def [symmetric] Let_def)
  also have "\<dots> = int (lval (x # a)) - int (lval b) - int (unat bw)
      + int (B32 ^ length (x # a)) * f"
    unfolding ih t lb by (simp add: algebra_simps)
  finally show ?case using f by blast
qed

lemma length_usub_loop [simp]: "length (usub_loop a b bw) = length a"
  by (induction a b bw rule: usub_loop.induct) (simp_all add: Let_def)

lemma lval_usub:
  assumes "lval b \<le> lval a" "trimmed b"
  shows "lval (usub a b) = lval a - lval b"
proof -
  have len: "length b \<le> length a" using assms by (intro trimmed_length_le)
  obtain f where f: "f \<in> {0, 1 :: int}" and r: "int (lval (usub_loop a b 0)) =
      int (lval a) - int (lval b) + int (B32 ^ length a) * f"
    using usub_loop_lval [OF len, of 0] by auto
  have "lval (usub_loop a b 0) < B32 ^ length a"
    using lval_bound [of "usub_loop a b 0"] by simp
  then have "int (lval (usub_loop a b 0)) < int (B32 ^ length a)" by linarith
  then have "f \<noteq> 1" using r assms(1) by auto
  with f have "f = 0" by blast
  with r assms(1) show ?thesis by (simp add: usub_def)
qed

lemma usub_trimmed [simp]: "trimmed (usub a b)"
  by (simp add: usub_def)

section \<open>umul\<close>

fun mul_inner :: "limb \<Rightarrow> mag \<Rightarrow> nat \<Rightarrow> mag \<Rightarrow> u64 \<Rightarrow> mag \<times> u64" where
  "mul_inner x [] k out carry = (out, carry)"
| "mul_inner x (y # ys) k out carry =
     (let t = ucast x * ucast y + ucast (out ! k) + carry
      in mul_inner x ys (Suc k) (out[k := ucast t]) (drop_bit 32 t))"

text \<open>
  The carry loop indexes \<open>out[k]\<close>; a \<open>k\<close> past the end would panic. The model stops there
  and would lose the carry, which \<open>lval_umul\<close> shows never happens.
\<close>

function mul_carry :: "nat \<Rightarrow> mag \<Rightarrow> u64 \<Rightarrow> mag" where
  "mul_carry k out carry =
     (if carry \<noteq> 0 \<and> k < length out
      then let t = ucast (out ! k) + carry
           in mul_carry (Suc k) (out[k := ucast t]) (drop_bit 32 t)
      else out)"
  by pat_completeness auto
termination
  by (relation "measure (\<lambda>(k, out, carry). length out - k)") auto

declare mul_carry.simps [simp del]

fun mul_outer :: "mag \<Rightarrow> mag \<Rightarrow> nat \<Rightarrow> mag \<Rightarrow> mag" where
  "mul_outer [] b i out = out"
| "mul_outer (x # a) b i out =
     (if x = 0 then mul_outer a b (Suc i) out
      else let (out', carry) = mul_inner x b i out 0
           in mul_outer a b (Suc i) (mul_carry (i + length b) out' carry))"

definition umul :: "mag \<Rightarrow> mag \<Rightarrow> mag" where
  "umul a b = (if a = [] \<or> b = [] then []
     else trim (mul_outer a b 0 (replicate (length a + length b) 0)))"

lemma unat_muladd:
  assumes "unat c < B32"
  shows "unat (ucast (x :: u32) * ucast (y :: u32) + ucast (z :: u32) + (c :: u64)) =
    unat x * unat y + unat z + unat c"
proof -
  have "unat x * unat y \<le> (B32 - 1) * (B32 - 1)" by (intro mult_le_mono unat_u32_le)
  moreover have "(B32 - 1) * (B32 - 1) + 2 * (B32 - 1) < B32 * B32" by (simp add: B32_def)
  ultimately have s: "unat x * unat y + unat z + unat c < B32 * B32"
    using unat_u32_le [of z] assms by linarith
  have "unat (ucast x * ucast y :: u64) = unat x * unat y"
    using s by (subst unat_mul_u64) (simp_all add: unat_ucast_up)
  with s have "unat (ucast x * ucast y + ucast z :: u64) = unat x * unat y + unat z"
    by (subst unat_add_u64) (simp_all add: unat_ucast_up)
  with s show ?thesis by (subst unat_add_u64) simp_all
qed

lemma length_mul_inner [simp]: "length (fst (mul_inner x ys k out c)) = length out"
  by (induction x ys k out c rule: mul_inner.induct) (simp_all add: Let_def)

lemma length_mul_carry [simp]: "length (mul_carry k out c) = length out"
  by (induction k out c rule: mul_carry.induct) (subst mul_carry.simps, simp add: Let_def)

lemma length_mul_outer [simp]: "length (mul_outer a b i out) = length out"
  by (induction a b i out rule: mul_outer.induct) (simp_all add: Let_def split: prod.split,
      metis length_mul_inner fst_conv)

text \<open>Storing \<open>t as u32\<close> at \<open>k\<close> and carrying \<open>t >> 32\<close> adds \<open>t - out[k]\<close> at \<open>k\<close>.\<close>

lemma lval_store:
  assumes "k < length out"
  shows "lval (out[k := ucast t]) + B32 ^ Suc k * unat (drop_bit 32 (t :: u64)) + B32 ^ k * unat (out ! k)
    = lval out + B32 ^ k * unat t"
proof -
  have "lval (out[k := ucast t]) + B32 ^ k * unat (out ! k) =
      lval out + B32 ^ k * (unat t mod B32)"
    using lval_update [OF assms, of "ucast t"] by (simp add: unat_ucast_down)
  moreover have "B32 ^ k * unat t = B32 ^ k * (unat t mod B32) + B32 ^ Suc k * (unat t div B32)"
    using limb_split [of t] by (metis distrib_left mult.assoc power_Suc2)
  ultimately show ?thesis by (simp add: unat_hi)
qed

lemma mul_inner_lval:
  assumes "k + length ys \<le> length out" "unat c < B32"
  shows "mul_inner x ys k out c = (out', c') \<Longrightarrow> unat c' < B32 \<and>
    lval out' + B32 ^ (k + length ys) * unat c' = lval out + B32 ^ k * (unat x * lval ys + unat c)"
  using assms
proof (induction x ys k out c rule: mul_inner.induct)
  case (2 x y ys k out c)
  define t where "t = ucast x * ucast y + ucast (out ! k) + c"
  have t: "unat t = unat x * unat y + unat (out ! k) + unat c"
    unfolding t_def using "2.prems"(3) by (rule unat_muladd)
  have st: "lval (out[k := ucast t]) + B32 ^ Suc k * unat (drop_bit 32 t) =
      lval out + B32 ^ k * (unat x * unat y + unat c)"
    using lval_store [of k out t] "2.prems"(2) unfolding t by (simp add: distrib_left)
  have "mul_inner x ys (Suc k) (out[k := ucast t]) (drop_bit 32 t) = (out', c')"
    using "2.prems"(1) by (simp add: t_def Let_def)
  then have "unat c' < B32 \<and> lval out' + B32 ^ (Suc k + length ys) * unat c' =
      lval (out[k := ucast t]) + B32 ^ Suc k * (unat x * lval ys + unat (drop_bit 32 t))"
    using "2.prems"(2) by (intro "2.IH" [OF t_def]) (simp_all add: unat_hi unat_hi_lt)
  with st show ?case by (simp add: algebra_simps)
qed simp

lemma mul_carry_lval:
  assumes "lval out + B32 ^ k * unat c < B32 ^ length out" "k \<le> length out" "unat c < B32"
  shows "lval (mul_carry k out c) = lval out + B32 ^ k * unat c"
  using assms
proof (induction k out c rule: mul_carry.induct)
  case (1 k out c)
  show ?case
  proof (cases "c \<noteq> 0 \<and> k < length out")
    case True
    define t where "t = ucast (out ! k) + c"
    have "unat (out ! k) + unat c < B32 * B32"
      using unat_u32_lt [of "out ! k"] "1.prems"(3) B32_sq_ge [of 2] by linarith
    then have t: "unat t = unat (out ! k) + unat c"
      unfolding t_def by (subst unat_add_u64) (simp_all add: unat_ucast_up)
    have st: "lval (out[k := ucast t]) + B32 ^ Suc k * unat (drop_bit 32 t) =
        lval out + B32 ^ k * unat c"
      using lval_store [of k out t] True unfolding t by (simp add: distrib_left)
    have "lval (mul_carry (Suc k) (out[k := ucast t]) (drop_bit 32 t)) =
        lval (out[k := ucast t]) + B32 ^ Suc k * unat (drop_bit 32 t)"
      using "1.prems" st True by (intro "1.IH" [OF True t_def]) (auto simp: unat_hi unat_hi_lt)
    with True show ?thesis unfolding st
      by (subst mul_carry.simps) (simp add: Let_def t_def [symmetric])
  next
    case False
    have "c = 0"
    proof (rule ccontr)
      assume "c \<noteq> 0"
      with False "1.prems"(2) have k: "k = length out" by simp
      from \<open>c \<noteq> 0\<close> have "1 \<le> unat c" by (simp add: Suc_le_eq unat_gt_0)
      then have "B32 ^ k * 1 \<le> B32 ^ k * unat c" by (intro mult_le_mono2)
      with "1.prems"(1) show False unfolding k by linarith
    qed
    then show ?thesis by (subst mul_carry.simps) simp
  qed
qed

lemma mul_outer_lval:
  assumes "length out = i + length a + length b"
    and "lval out + B32 ^ i * (lval a * lval b) < B32 ^ length out"
  shows "lval (mul_outer a b i out) = lval out + B32 ^ i * (lval a * lval b)"
  using assms
proof (induction a b i out rule: mul_outer.induct)
  case (2 x a b i out)
  have split: "B32 ^ i * (lval (x # a) * lval b) =
      B32 ^ i * (unat x * lval b) + B32 ^ Suc i * (lval a * lval b)"
    by (simp add: algebra_simps)
  show ?case
  proof (cases "x = 0")
    case True
    then show ?thesis using "2.IH"(1) "2.prems" by (simp add: algebra_simps)
  next
    case False
    obtain out' c where m: "mul_inner x b i out 0 = (out', c)" by fastforce
    have mi: "unat c < B32"
      "lval out' + B32 ^ (i + length b) * unat c = lval out + B32 ^ i * (unat x * lval b)"
      using mul_inner_lval [OF _ _ m] "2.prems"(1) by simp_all
    have len: "length out' = length out"
      using length_mul_inner [of x b i out 0] by (simp add: m)
    let ?out = "mul_carry (i + length b) out' c"
    have c: "lval ?out = lval out + B32 ^ i * (unat x * lval b)"
      using mi "2.prems" unfolding split
      by (subst mul_carry_lval) (simp_all add: len)
    have "lval (mul_outer a b (Suc i) ?out) = lval ?out + B32 ^ Suc i * (lval a * lval b)"
      using "2.prems" unfolding split
      by (intro "2.IH"(2) [OF False m [symmetric] refl]) (simp_all add: len c)
    then show ?thesis using False by (simp only: c split) (simp add: m)
  qed
qed simp

lemma lval_umul [simp]: "lval (umul a b) = lval a * lval b"
proof (cases "a = [] \<or> b = []")
  case False
  have "lval a * lval b < B32 ^ length a * B32 ^ length b"
    by (intro mult_strict_mono lval_bound) simp_all
  then show ?thesis using False
    by (simp add: umul_def mul_outer_lval power_add)
qed (auto simp: umul_def)

lemma umul_trimmed [simp]: "trimmed (umul a b)"
  by (auto simp: umul_def trimmed_def [of "[]"])

section \<open>umul_small and udiv_small\<close>

text \<open>\<open>while carry != 0 { a.push(carry as u32); carry >>= 32 }\<close>\<close>

function push_carry :: "u64 \<Rightarrow> mag" where
  "push_carry carry = (if carry \<noteq> 0 then ucast carry # push_carry (drop_bit 32 carry) else [])"
  by pat_completeness auto
termination
proof (relation "measure unat")
  fix carry :: u64
  assume "carry \<noteq> 0"
  then have "0 < unat carry" by (simp add: unat_gt_0)
  then have "unat carry div B32 < unat carry" by (intro div_less_dividend) simp_all
  then show "(drop_bit 32 carry, carry) \<in> measure unat" by (simp add: unat_hi)
qed simp

declare push_carry.simps [simp del]

fun umul_small_loop :: "mag \<Rightarrow> limb \<Rightarrow> u64 \<Rightarrow> mag" where
  "umul_small_loop [] d carry = push_carry carry"
| "umul_small_loop (x # a) d carry =
     (let t = ucast x * ucast d + carry in ucast t # umul_small_loop a d (drop_bit 32 t))"

definition umul_small :: "mag \<Rightarrow> limb \<Rightarrow> limb \<Rightarrow> mag" where
  "umul_small a d add = trim (umul_small_loop a d (ucast add))"

fun udiv_small_loop :: "mag \<Rightarrow> limb \<Rightarrow> mag \<times> u64" where
  "udiv_small_loop [] d = ([], 0)"
| "udiv_small_loop (x # a) d =
     (let (q, r) = udiv_small_loop a d; cur = push_bit 32 r OR ucast x
      in (ucast (cur div ucast d) # q, cur mod ucast d))"

text \<open>The code's division panics on \<open>d = 0\<close>; both callers pass a divisor of at least 2 or a
  limb that is not 0.\<close>

definition udiv_small :: "mag \<Rightarrow> limb \<Rightarrow> mag \<times> limb" where
  "udiv_small a d = (let (q, r) = udiv_small_loop a d in (trim q, ucast r))"

lemma lval_push_carry [simp]: "lval (push_carry c) = unat c"
proof (induction c rule: push_carry.induct)
  case (1 c)
  then show ?case
    using limb_split [of c] by (subst push_carry.simps) (simp add: limb_simps)
qed

lemma umul_small_loop_lval:
  "unat c < B32 \<Longrightarrow> lval (umul_small_loop a d c) = lval a * unat d + unat c"
proof (induction a d c rule: umul_small_loop.induct)
  case (2 x a d c)
  define t where "t = ucast x * ucast d + c"
  have t: "unat t = unat x * unat d + unat c"
    unfolding t_def using unat_muladd [OF "2.prems", of x d 0] by simp
  have "lval (umul_small_loop a d (drop_bit 32 t)) = lval a * unat d + unat t div B32"
    using "2.IH" [OF t_def] by (simp add: unat_hi unat_hi_lt)
  then have "lval (umul_small_loop (x # a) d c) =
      unat t mod B32 + B32 * (unat t div B32) + B32 * (lval a * unat d)"
    by (simp add: t_def [symmetric] Let_def unat_ucast_down distrib_left)
  then show ?case by (simp only: limb_split t) (simp add: algebra_simps)
qed simp

lemma lval_umul_small [simp]: "lval (umul_small a d c) = lval a * unat d + unat c"
  by (simp add: umul_small_def umul_small_loop_lval unat_ucast_up unat_u32_lt)

lemma umul_small_trimmed [simp]: "trimmed (umul_small a d c)"
  by (simp add: umul_small_def)

lemma udiv_small_loop_lval:
  assumes "d \<noteq> 0" "udiv_small_loop a d = (q, r)"
  shows "unat r < unat d \<and> lval a = lval q * unat d + unat r \<and> length q = length a"
  using assms(2)
proof (induction a arbitrary: q r)
  case Nil
  with assms(1) show ?case by (auto simp: unat_gt_0)
next
  case (Cons x a)
  obtain q' r' where qr: "udiv_small_loop a d = (q', r')" by fastforce
  define cur where "cur = push_bit 32 r' OR ucast x"
  from Cons.IH [OF qr] have ih: "unat r' < unat d" "lval a = lval q' * unat d + unat r'"
    and len: "length q' = length a" by auto
  have r'B: "unat r' < B32" using ih(1) unat_u32_lt [of d] by linarith
  have cur: "unat cur = unat r' * B32 + unat x"
    unfolding cur_def using r'B by (rule unat_join)
  have res: "q = ucast (cur div ucast d) # q'" "r = cur mod ucast d"
    using Cons.prems by (simp_all add: qr cur_def Let_def)
  have ud: "unat (cur div ucast d) = unat cur div unat d" "unat r = unat cur mod unat d"
    by (simp_all add: res unat_div_distrib unat_mod_distrib unat_ucast_up)
  have "unat cur < unat d * B32"
  proof -
    have "unat cur < Suc (unat r') * B32" using unat_u32_lt [of x] by (simp add: cur)
    also have "\<dots> \<le> unat d * B32" using ih(1) by (intro mult_le_mono1) simp
    finally show ?thesis .
  qed
  then have "unat cur div unat d < B32" by (intro less_mult_imp_div_less) (simp add: mult.commute)
  then have lq: "lval q = unat cur div unat d + B32 * lval q'"
    by (simp add: res ud unat_ucast_down)
  have "lval q * unat d + unat r = unat cur div unat d * unat d + unat cur mod unat d + B32 * lval q' * unat d"
    by (simp add: lq ud distrib_right)
  also have "\<dots> = unat x + B32 * lval a"
    by (simp add: cur ih(2) algebra_simps)
  finally have "lval (x # a) = lval q * unat d + unat r" by simp
  moreover have "unat r < unat d" using assms(1) by (simp add: ud unat_gt_0)
  ultimately show ?case by (simp add: res len)
qed

lemma udiv_small_lval:
  assumes "d \<noteq> 0"
  shows "lval (fst (udiv_small a d)) = lval a div unat d"
    and "unat (snd (udiv_small a d)) = lval a mod unat d"
proof -
  obtain q r where qr: "udiv_small_loop a d = (q, r)" by fastforce
  from udiv_small_loop_lval [OF assms qr]
  have r: "unat r < unat d" and v: "lval a = lval q * unat d + unat r" by auto
  have "unat r < B32" using r unat_u32_lt [of d] by linarith
  then have "unat (ucast r :: u32) = unat r" by (simp add: unat_ucast_down)
  then show "lval (fst (udiv_small a d)) = lval a div unat d"
    and "unat (snd (udiv_small a d)) = lval a mod unat d"
    using r by (simp_all add: udiv_small_def qr v)
qed

lemma udiv_small_trimmed [simp]: "trimmed (fst (udiv_small a d))"
  by (simp add: udiv_small_def split: prod.split)

section \<open>ushl and ushr\<close>

text \<open>
  \<open>(x << bits) | carry\<close> with \<open>carry = x >> (32 - bits)\<close>: the loop that \<open>ushl\<close> and the two
  normalising shifts of \<open>udivmod\<close> have in common. It returns the shifted limbs and the last
  carry.
\<close>

fun shl_bits :: "nat \<Rightarrow> limb \<Rightarrow> mag \<Rightarrow> mag \<times> limb" where
  "shl_bits bits carry [] = ([], carry)"
| "shl_bits bits carry (x # a) =
     (let (out, c) = shl_bits bits (drop_bit (32 - bits) x) a
      in ((push_bit bits x OR carry) # out, c))"

definition ushl :: "mag \<Rightarrow> nat \<Rightarrow> nat \<Rightarrow> mag" where
  "ushl a limbs bits = (if a = [] then []
     else if bits = 0 then trim (replicate limbs 0 @ a)
     else let (out, carry) = shl_bits bits 0 a
          in trim (replicate limbs 0 @ out @ (if carry \<noteq> 0 then [carry] else [])))"

fun ushr_loop :: "nat \<Rightarrow> mag \<Rightarrow> mag" where
  "ushr_loop bits [] = []"
| "ushr_loop bits (x # src) =
     (let hi = (case src of [] \<Rightarrow> 0 | y # _ \<Rightarrow> push_bit (32 - bits) y)
      in (drop_bit bits x OR hi) # ushr_loop bits src)"

definition ushr :: "mag \<Rightarrow> nat \<Rightarrow> nat \<Rightarrow> mag" where
  "ushr a limbs bits = (if length a \<le> limbs then []
     else if bits = 0 then trim (drop limbs a)
     else trim (ushr_loop bits (drop limbs a)))"

lemma B32_split: "bits \<le> 32 \<Longrightarrow> 2 ^ bits * 2 ^ (32 - bits) = B32"
  by (simp add: B32_def power_add [symmetric])

lemma unat_push_u32: "unat (push_bit n (x :: u32)) = unat x * 2 ^ n mod B32"
  unfolding unsigned_push_bit_eq by (simp add: take_bit_eq_mod push_bit_eq_mult B32_def)

lemma unat_drop_u32: "unat (drop_bit n (x :: u32)) = unat x div 2 ^ n"
  unfolding unat_drop_bit_eq by (rule drop_bit_eq_div)

text \<open>A shifted-up limb and what fits below it do not overlap: \<open>|\<close> adds.\<close>

lemma unat_or_disjoint: "a AND b = 0 \<Longrightarrow> unat (a OR b) = unat a + unat (b :: 'a::len word)"
  by (metis disjunctive_add_eq_or unsigned_and_eq unsigned_or_eq unsigned_0)

lemma unat_or_low:
  assumes "unat c < 2 ^ n"
  shows "unat (push_bit n x OR c) = unat x * 2 ^ n mod B32 + unat (c :: u32)"
proof -
  have c: "take_bit n c = c" using assms by (rule take_bit_small)
  have "push_bit n x AND c = 0"
    by (subst c [symmetric], rule bit_word_eqI) (auto simp: bit_simps)
  then show ?thesis by (simp add: unat_or_disjoint unat_push_u32)
qed

lemma mul_pow_mod_B32: "n \<le> 32 \<Longrightarrow> x * 2 ^ n mod B32 = 2 ^ n * (x mod 2 ^ (32 - n))"
  by (metis B32_split mult.commute mult_mod_right)

lemma scale_split:
  assumes "bits \<le> 32"
  shows "2 ^ bits * L = 2 ^ bits * (L mod 2 ^ (32 - bits)) + B32 * (L div 2 ^ (32 - bits))"
proof -
  have "2 ^ bits * L = 2 ^ bits * (L mod 2 ^ (32 - bits) + 2 ^ (32 - bits) * (L div 2 ^ (32 - bits)))"
    by simp
  also have "\<dots> = 2 ^ bits * (L mod 2 ^ (32 - bits)) + B32 * (L div 2 ^ (32 - bits))"
    by (simp only: distrib_left mult.assoc [symmetric] B32_split [OF assms])
  finally show ?thesis .
qed

lemma shl_limb:
  assumes "bits \<le> 32"
  shows "unat x * 2 ^ bits mod B32 + B32 * unat (drop_bit (32 - bits) x) = unat (x :: u32) * 2 ^ bits"
  using scale_split [OF assms, of "unat x", symmetric]
  unfolding unat_drop_u32 mul_pow_mod_B32 [OF assms]
  by (simp only: mult.commute [of "unat x" "2 ^ bits"])

lemma unat_drop_top: "bits \<le> 32 \<Longrightarrow> unat (drop_bit (32 - bits) (x :: u32)) < 2 ^ bits"
  unfolding unat_drop_u32
  by (rule less_mult_imp_div_less) (metis B32_split unat_u32_lt)

lemma shl_bits_lval:
  assumes "bits \<le> 32" "unat c < 2 ^ bits" "shl_bits bits c a = (out, c')"
  shows "unat c' < 2 ^ bits \<and> length out = length a \<and>
    lval out + B32 ^ length a * unat c' = lval a * 2 ^ bits + unat c"
  using assms(2,3)
proof (induction a arbitrary: c out)
  case (Cons x a)
  obtain out' where o: "shl_bits bits (drop_bit (32 - bits) x) a = (out', c')"
    and out: "out = (push_bit bits x OR c) # out'"
    using Cons.prems(2) by (auto split: prod.splits)
  have ih: "unat c' < 2 ^ bits" "length out' = length a"
    "lval out' + B32 ^ length a * unat c' = lval a * 2 ^ bits + unat (drop_bit (32 - bits) x)"
    using Cons.IH [OF unat_drop_top [OF assms(1)] o] by auto
  have "lval out + B32 ^ length (x # a) * unat c' =
      unat x * 2 ^ bits mod B32 + unat c + B32 * (lval out' + B32 ^ length a * unat c')"
    using unat_or_low [OF Cons.prems(1), of x] by (simp add: out distrib_left mult.assoc)
  also have "\<dots> = unat x * 2 ^ bits + unat c + B32 * (lval a * 2 ^ bits)"
    unfolding ih(3) using shl_limb [OF assms(1), of x] by (simp add: distrib_left)
  finally show ?case using ih by (simp add: out algebra_simps)
qed simp

lemma lval_ushl [simp]:
  assumes "bits < 32"
  shows "lval (ushl a limbs bits) = lval a * 2 ^ (32 * limbs + bits)"
proof -
  obtain out c where oc: "shl_bits bits 0 a = (out, c)" by fastforce
  have "lval out + B32 ^ length a * unat c = lval a * 2 ^ bits" "length out = length a"
    using shl_bits_lval [OF _ _ oc] assms by auto
  then show ?thesis
    by (auto simp: ushl_def oc lval_append B32_power power_add)
qed

lemma ushl_trimmed [simp]: "trimmed (ushl a limbs bits)"
  by (auto simp: ushl_def trimmed_def [of "[]"] split: prod.split)

lemma ushr_step:
  assumes "0 < bits" "bits < 32"
  shows "(unat x + B32 * L) div 2 ^ bits = unat (x :: u32) div 2 ^ bits + 2 ^ (32 - bits) * L"
proof -
  have eq: "B32 * L = 2 ^ bits * (2 ^ (32 - bits) * L)"
    using B32_split [of bits] assms by (simp only: mult.assoc [symmetric])
  show ?thesis unfolding eq by simp
qed

lemma unat_shr_or:
  assumes "0 < bits" "bits < 32"
  shows "unat (drop_bit bits x OR push_bit (32 - bits) (y :: u32)) =
    unat x div 2 ^ bits + 2 ^ (32 - bits) * (unat y mod 2 ^ bits)"
proof -
  have "unat (drop_bit bits x) < 2 ^ (32 - bits)"
    using unat_drop_top [of "32 - bits" x] assms by simp
  then have "unat (push_bit (32 - bits) y OR drop_bit bits x) =
      unat y * 2 ^ (32 - bits) mod B32 + unat (drop_bit bits x)" by (rule unat_or_low)
  then show ?thesis
    using assms mul_pow_mod_B32 [of "32 - bits" "unat y"]
    by (simp add: or.commute unat_drop_u32)
qed

lemma ushr_loop_lval:
  assumes "0 < bits" "bits < 32"
  shows "lval (ushr_loop bits src) = lval src div 2 ^ bits"
proof (induction src)
  case (Cons x src)
  show ?case
  proof (cases src)
    case Nil
    then show ?thesis by (simp add: unat_drop_u32)
  next
    case (Cons y ys)
    let ?L = "lval src"
    have "?L mod 2 ^ bits = unat y mod 2 ^ bits"
    proof -
      have eq: "?L = unat y + 2 ^ bits * (2 ^ (32 - bits) * lval ys)"
        using B32_split [of bits] assms by (simp only: Cons mult.assoc [symmetric]) simp
      show ?thesis unfolding eq by simp
    qed
    then have "2 ^ (32 - bits) * ?L = 2 ^ (32 - bits) * (unat y mod 2 ^ bits) + B32 * (?L div 2 ^ bits)"
      using scale_split [of "32 - bits" ?L] assms by simp
    then show ?thesis
      using Cons.IH ushr_step [OF assms, of x ?L] unat_shr_or [OF assms, of x y]
      by (simp add: Cons)
  qed
qed simp

lemma lval_drop: "lval (drop n a) = lval a div B32 ^ n"
proof (induction n arbitrary: a)
  case (Suc n)
  show ?case
  proof (cases a)
    case (Cons x xs)
    have "(unat x + B32 * lval xs) div B32 = lval xs" by (simp add: unat_u32_lt)
    then show ?thesis using Suc [of xs] by (simp add: Cons div_mult2_eq)
  qed simp
qed simp

lemma lval_ushr [simp]:
  assumes "bits < 32"
  shows "lval (ushr a limbs bits) = lval a div 2 ^ (32 * limbs + bits)"
proof (cases "length a \<le> limbs")
  case True
  have "lval a < B32 ^ limbs"
    using less_le_trans [OF lval_bound [of a] power_increasing [OF True, of B32]] by simp
  then have "lval a div (B32 ^ limbs * 2 ^ bits) = 0" by (simp add: div_mult2_eq)
  with True show ?thesis by (simp add: ushr_def power_add B32_power)
next
  case False
  have "lval a div 2 ^ (32 * limbs + bits) = lval (drop limbs a) div 2 ^ bits"
    by (simp add: lval_drop power_add B32_power div_mult2_eq)
  with False assms show ?thesis by (auto simp: ushr_def ushr_loop_lval)
qed

lemma ushr_trimmed [simp]: "trimmed (ushr a limbs bits)"
  by (auto simp: ushr_def trimmed_def [of "[]"])

end
