(* ===== verification/BigDiv.thy ===== *)
theory BigDiv
  imports BigMag
begin

text \<open>
  Knuth's algorithm D, \<open>udivmod\<close> of \<open>src/bigint.rs\<close>: the truncated quotient and remainder of
  two magnitudes. The loop body is split into the steps the code's comments name: the
  estimate of a quotient digit and its correction (\<open>qhat_fix\<close>), the multiply-and-subtract
  (\<open>div_sub\<close>), the add-back (\<open>div_addback\<close>). \<open>udivmod_correct\<close> is the result: quotient and
  remainder of the values, for every divisor that is not zero.
\<close>

section \<open>The algorithm\<close>

text \<open>\<open>loop { if qhat >= BASE || qhat * b2 > ((rhat << 32) | a2) { ... } break; }\<close>\<close>

function qhat_fix :: "u64 \<Rightarrow> u64 \<Rightarrow> limb \<Rightarrow> limb \<Rightarrow> limb \<Rightarrow> u64" where
  "qhat_fix qhat rhat b1 b2 a2 =
     (if qhat \<ge> 2 ^ 32 \<or> qhat * ucast b2 > (push_bit 32 rhat OR ucast a2)
      then let qhat' = qhat - 1; rhat' = rhat + ucast b1
           in if rhat' < 2 ^ 32 then qhat_fix qhat' rhat' b1 b2 a2 else qhat'
      else qhat)"
  by pat_completeness auto
termination
proof (relation "measure (\<lambda>(qhat, _). unat qhat)")
  fix qhat rhat :: u64 and b1 b2 a2 :: limb and qhat' rhat'
  assume c: "qhat \<ge> 2 ^ 32 \<or> qhat * ucast b2 > (push_bit 32 rhat OR ucast a2)"
    and q: "qhat' = qhat - 1"
  from c have "qhat \<noteq> 0" by auto
  then show "((qhat', rhat', b1, b2, a2), (qhat, rhat, b1, b2, a2)) \<in> measure (\<lambda>(qhat, _). unat qhat)"
    by (simp add: q measure_unat)
qed simp

declare qhat_fix.simps [simp del]

text \<open>\<open>an[j..j+n] -= qhat * bn\<close>, limb by limb; the borrow and the carry are left over.\<close>

fun div_sub :: "u64 \<Rightarrow> mag \<Rightarrow> nat \<Rightarrow> mag \<Rightarrow> i64 \<Rightarrow> u64 \<Rightarrow> mag \<times> i64 \<times> u64" where
  "div_sub qhat [] k an borrow carry = (an, borrow, carry)"
| "div_sub qhat (b # bn) k an borrow carry =
     (let p = qhat * ucast b + carry;
          t = ucast (an ! k) - (p AND 0xFFFFFFFF) - borrow
      in div_sub qhat bn (Suc k) (an[k := ucast t]) (if sint t < 0 then 1 else 0) (drop_bit 32 p))"

text \<open>\<open>an[j..j+n] += bn\<close>: the divisor added back.\<close>

fun div_addback :: "mag \<Rightarrow> nat \<Rightarrow> mag \<Rightarrow> u64 \<Rightarrow> mag \<times> u64" where
  "div_addback [] k an carry = (an, carry)"
| "div_addback (b # bn) k an carry =
     (let s = ucast (an ! k) + ucast b + carry
      in div_addback bn (Suc k) (an[k := ucast s]) (drop_bit 32 s))"

text \<open>The body of \<open>for j in (0..=m).rev()\<close>: the new dividend and the digit \<open>q[j]\<close>.\<close>

definition div_step :: "mag \<Rightarrow> nat \<Rightarrow> mag \<Rightarrow> mag \<times> limb" where
  "div_step bn j an =
     (let n = length bn;
          tp = push_bit 32 (ucast (an ! (j + n))) OR ucast (an ! (j + n - 1));
          b1 = bn ! (n - 1);
          qhat = qhat_fix (tp div ucast b1) (tp mod ucast b1) b1 (bn ! (n - 2)) (an ! (j + n - 2));
          (an1, borrow, carry) = div_sub qhat bn j an 0 0;
          t = ucast (an1 ! (j + n)) - carry - borrow :: i64;
          an2 = an1[j + n := ucast t]
      in if sint t < 0
         then let (an3, carry2) = div_addback bn j an2 0
              in (an3[j + n := ucast ((ucast (an3 ! (j + n)) :: u64) + carry2)], ucast (qhat - 1))
         else (an2, ucast qhat))"

fun div_loop :: "mag \<Rightarrow> nat \<Rightarrow> mag \<Rightarrow> mag \<Rightarrow> mag \<times> mag" where
  "div_loop bn 0 an q = (an, q)"
| "div_loop bn (Suc j) an q = (let (an', d) = div_step bn j an in div_loop bn j an' (q[j := d]))"

definition udivmod :: "mag \<Rightarrow> mag \<Rightarrow> mag \<times> mag" where
  "udivmod a b =
     (if ucmp a b = Less then ([], a)
      else if length b = 1 then (let (q, r) = udiv_small a (b ! 0) in (q, trim [r]))
      else
        let s = leading_zeros (last b);
            n = length b;
            bn = (if s = 0 then b else fst (shl_bits s 0 b));
            an = (if s = 0 then a @ [0] else (let (out, carry) = shl_bits s 0 a in out @ [carry]));
            m = length a - n;
            (an', q) = div_loop bn (Suc m) an (replicate (Suc m) 0);
            r = take n an';
            r' = (if s > 0 then ushr r 0 s else r)
        in (trim q, trim r'))"

section \<open>The quotient digit\<close>

text \<open>
  Numbers only: \<open>W\<close> is the window of the dividend, \<open>V\<close> the divisor, both split into their top
  limbs and a part below \<open>P\<close>; \<open>B\<close> is the base.
\<close>

lemma digit_le_estimate:
  fixes W V P :: nat
  assumes W: "W = wl + P * U3" "wl < P" and V: "V = vl + P * V2" "0 < V"
  shows "W div V * V2 \<le> U3"
proof -
  have "P * (W div V * V2) \<le> W div V * V" by (simp add: V algebra_simps)
  also have "\<dots> \<le> W" by (simp add: div_times_less_eq_dividend)
  also have "\<dots> < P * Suc U3" using W by simp
  finally show ?thesis by (metis less_Suc_eq_le mult_less_cancel1)
qed

lemma estimate_le_digit:
  fixes W V P :: nat
  assumes W: "W = wl + P * U3" and V: "V = vl + P * V2" "vl < P"
    and q: "qhat * V2 \<le> U3" "qhat \<le> V2" "0 < V2"
  shows "qhat \<le> Suc (W div V)"
proof (cases qhat)
  case (Suc k)
  have "k * V \<le> k * (P * Suc V2)" using V by (intro mult_le_mono2) simp
  also have "\<dots> = P * (k * V2 + k)" by (simp add: algebra_simps)
  also have "\<dots> \<le> P * (qhat * V2)" using q Suc by (intro mult_le_mono2) simp
  also have "\<dots> \<le> W" using W q(1) by (simp add: trans_le_add2)
  finally have "k * V \<le> W" .
  moreover have "0 < V" using V q by (cases "P = 0") auto
  ultimately have "k \<le> W div V" by (simp add: less_eq_div_iff_mult_less_eq)
  with Suc show ?thesis by simp
qed simp

lemma qhat_fix_correct:
  assumes "q < B32" "q * (B32 * unat b1 + unat b2) \<le> (u2 * B32 + u1) * B32 + unat a2"
    and "u2 \<le> unat b1" "u1 < B32" "unat b1 \<noteq> 0"
    and "unat qhat * unat b1 + unat rhat = u2 * B32 + u1" "unat rhat < B32" "q \<le> unat qhat"
  shows "q \<le> unat (qhat_fix qhat rhat b1 b2 a2) \<and> unat (qhat_fix qhat rhat b1 b2 a2) < B32 \<and>
    unat (qhat_fix qhat rhat b1 b2 a2) * (B32 * unat b1 + unat b2) \<le> (u2 * B32 + u1) * B32 + unat a2"
  using assms
proof (induction qhat rhat b1 b2 a2 rule: qhat_fix.induct)
  case (1 qhat rhat b1 b2 a2)
  note pre = "1.prems"(1-5) and inv = "1.prems"(6-8)
  let ?V = "B32 * unat b1 + unat b2" and ?U = "(u2 * B32 + u1) * B32 + unat a2"
  have join: "unat (push_bit 32 rhat OR ucast a2) = unat rhat * B32 + unat a2"
    using inv(2) by (rule unat_join)
  have prod: "unat qhat < B32 \<Longrightarrow> unat (qhat * ucast b2) = unat qhat * unat b2"
    by (subst unat_mul_u64) (auto simp: unat_ucast_up intro: mult_strict_mono unat_u32_lt)
  have scaled: "k * ?V + r * B32 = ?U - unat a2 + k * unat b2"
    if "k * unat b1 + r = u2 * B32 + u1" for k r
  proof -
    have "(k * unat b1 + r) * B32 = (u2 * B32 + u1) * B32" using that by simp
    then show ?thesis by (simp add: algebra_simps)
  qed
  show ?case
  proof (cases "qhat \<ge> 2 ^ 32 \<or> qhat * ucast b2 > (push_bit 32 rhat OR ucast a2)")
    case True
    have "q < unat qhat"
    proof (cases "B32 \<le> unat qhat")
      case True
      with pre(1) show ?thesis by simp
    next
      case False
      with \<open>_ \<or> _\<close> have "unat rhat * B32 + unat a2 < unat qhat * unat b2"
        using join prod by (auto simp: word_less_nat_alt word_le_nat_alt B32_def)
      with scaled [OF inv(1)] have "?U < unat qhat * ?V" by linarith
      with pre(2) have "q * ?V < unat qhat * ?V" by (rule le_less_trans)
      then show ?thesis by simp
    qed
    then have "qhat \<noteq> 0" by auto
    then have q': "unat (qhat - 1) = unat qhat - 1" by (rule unat_minus_one)
    have r': "unat (rhat + ucast b1) = unat rhat + unat b1"
    proof -
      have "unat rhat + unat b1 < 2 * B32" using inv(2) unat_u32_lt [of b1] by linarith
      also have "2 * B32 \<le> B32 * B32" by (rule B32_sq_ge) simp
      finally show ?thesis by (subst unat_add_u64) (simp_all add: unat_ucast_up)
    qed
    obtain k where k: "unat qhat = Suc k" using \<open>q < unat qhat\<close> by (cases "unat qhat") auto
    have inv': "unat (qhat - 1) * unat b1 + unat (rhat + ucast b1) = u2 * B32 + u1"
      using inv(1) by (simp add: q' r' k)
    have step: "qhat_fix qhat rhat b1 b2 a2 =
        (if rhat + ucast b1 < 2 ^ 32 then qhat_fix (qhat - 1) (rhat + ucast b1) b1 b2 a2 else qhat - 1)"
      using True by (subst qhat_fix.simps) (simp add: Let_def)
    show ?thesis
    proof (cases "rhat + ucast b1 < 2 ^ 32")
      case less: True
      then have "unat (rhat + ucast b1) < B32" by (simp add: word_less_nat_alt B32_def)
      then show ?thesis
        using "1.IH" [OF True refl refl less pre inv'] \<open>q < unat qhat\<close> less
        by (simp add: step q')
    next
      case False
      then have ge: "B32 \<le> unat (rhat + ucast b1)" by (simp add: word_less_nat_alt B32_def)
      have "u2 * B32 \<le> unat b1 * B32" using pre(3) by (rule mult_le_mono1)
      then have "unat (qhat - 1) * unat b1 < unat b1 * B32" using inv' ge pre(4) by linarith
      then have lt: "unat (qhat - 1) < B32" by (metis mult.commute mult_less_cancel2)
      then have "unat (qhat - 1) * unat b2 \<le> B32 * B32"
        by (intro mult_le_mono less_imp_le unat_u32_lt)
      also have "\<dots> \<le> unat (rhat + ucast b1) * B32" using ge by simp
      finally have "unat (qhat - 1) * ?V \<le> ?U"
        using scaled [OF inv'] by linarith
      then show ?thesis using lt \<open>q < unat qhat\<close> False by (simp add: step q')
    qed
  next
    case False
    then have lt: "unat qhat < B32" by (simp add: word_le_nat_alt B32_def not_le)
    with False have "unat qhat * unat b2 \<le> unat rhat * B32 + unat a2"
      using join prod by (simp add: word_less_nat_alt not_less)
    with scaled [OF inv(1)] have "unat qhat * ?V \<le> ?U" by linarith
    then show ?thesis using False lt inv(3) by (subst qhat_fix.simps) (auto simp: qhat_fix.simps)
  qed
qed

section \<open>Multiply-and-subtract and add-back\<close>

lemma length_div_sub [simp]: "length (fst (div_sub qhat bs k an bw c)) = length an"
  by (induction qhat bs k an bw c rule: div_sub.induct) (simp_all add: Let_def)

lemma drop_div_sub:
  "k + length bs \<le> m \<Longrightarrow> drop m (fst (div_sub qhat bs k an bw c)) = drop m an"
  by (induction qhat bs k an bw c rule: div_sub.induct) (simp_all add: Let_def)

lemma length_div_addback [simp]: "length (fst (div_addback bs k an c)) = length an"
  by (induction bs k an c rule: div_addback.induct) (simp_all add: Let_def)

lemma drop_div_addback:
  "k + length bs \<le> m \<Longrightarrow> drop m (fst (div_addback bs k an c)) = drop m an"
  by (induction bs k an c rule: div_addback.induct) (simp_all add: Let_def)

lemma nth_eq_of_drop: "drop m xs = drop m ys \<Longrightarrow> m < length xs \<Longrightarrow> length xs = length ys \<Longrightarrow> xs ! m = ys ! m"
  by (metis hd_drop_conv_nth)

lemma unat_low_part: "unat (p AND 0xFFFFFFFF) = unat (p :: u64) mod B32"
proof -
  have "(0xFFFFFFFF :: u64) = mask 32" by (simp add: mask_eq_exp_minus_1)
  then have "p AND 0xFFFFFFFF = take_bit 32 p" by (simp only: take_bit_eq_mask)
  then have "unat (p AND 0xFFFFFFFF) = take_bit 32 (unat p)" by (simp only: unsigned_take_bit_eq)
  then show ?thesis by (simp add: take_bit_eq_mod B32_def)
qed

lemma int_lval_update:
  assumes "k < length xs"
  shows "int (lval (xs[k := v])) = int (lval xs) + int (B32 ^ k) * (int (unat v) - int (unat (xs ! k)))"
proof -
  have "int (lval (xs[k := v]) + B32 ^ k * unat (xs ! k)) = int (lval xs + B32 ^ k * unat v)"
    using lval_update [OF assms, of v] by simp
  then show ?thesis by (simp add: algebra_simps)
qed

lemma div_sub_lval:
  assumes "k + length bs \<le> length an" "unat bw \<le> 1" "unat c < B32" "unat qhat < B32"
    and "div_sub qhat bs k an bw c = (an', bw', c')"
  shows "unat bw' \<le> 1 \<and> unat c' < B32 \<and>
    int (lval an') = int (lval an)
      - int (B32 ^ k) * (int (unat qhat) * int (lval bs) + int (unat c) + int (unat bw))
      + int (B32 ^ (k + length bs)) * (int (unat c') + int (unat bw'))"
  using assms
proof (induction qhat bs k an bw c rule: div_sub.induct)
  case (2 qhat b bs k an bw c)
  define p where "p = qhat * ucast b + c"
  define t :: i64 where "t = ucast (an ! k) - (p AND 0xFFFFFFFF) - bw"
  let ?bw = "if sint t < 0 then 1 else 0 :: u64"
  have k: "k < length an" using "2.prems"(1) by simp
  have q: "qhat = ucast (ucast qhat :: u32)"
    using "2.prems"(4) by (simp add: word_unat_eq_iff unat_ucast_up unat_ucast_down)
  have p: "unat p = unat qhat * unat b + unat c"
    using unat_muladd [OF "2.prems"(3), of "ucast qhat" b 0] q "2.prems"(4)
    by (simp add: p_def unat_ucast_down)
  have t: "int (unat (ucast t :: u32)) = int (unat (an ! k)) - int (unat p mod B32) - int (unat bw)
      + (if sint t < 0 then int B32 else 0)"
    unfolding t_def using diff_limbs [of "ucast (an ! k)" "p AND 0xFFFFFFFF" bw] "2.prems"(2)
    by (simp add: unat_low_part unat_ucast_up unat_u32_lt)
  have upd: "int (lval (an[k := ucast t])) = int (lval an)
      + int (B32 ^ k) * ((if sint t < 0 then int B32 else 0) - int (unat p mod B32) - int (unat bw))"
    unfolding int_lval_update [OF k] t by simp
  have "div_sub qhat bs (Suc k) (an[k := ucast t]) ?bw (drop_bit 32 p) = (an', bw', c')"
    using "2.prems"(5) by (simp add: p_def t_def Let_def)
  then have ih: "unat bw' \<le> 1" "unat c' < B32" "int (lval an') = int (lval (an[k := ucast t]))
      - int (B32 ^ Suc k) * (int (unat qhat) * int (lval bs) + int (unat p div B32) + int (unat ?bw))
      + int (B32 ^ (Suc k + length bs)) * (int (unat c') + int (unat bw'))"
    using "2.IH" [OF p_def t_def] "2.prems" by (auto simp: unat_hi unat_hi_lt)
  have ps: "int (unat p mod B32) + int B32 * int (unat p div B32) =
      int (unat qhat) * int (unat b) + int (unat c)"
    using limb_split [of p] unfolding p by (metis of_nat_add of_nat_mult)
  have bwi: "int (unat ?bw) * int B32 = (if sint t < 0 then int B32 else 0)" by simp
  have "int (lval an') = int (lval an)
      - int (B32 ^ k) * (int (unat qhat) * (int B32 * int (lval bs))
          + (int (unat p mod B32) + int B32 * int (unat p div B32)) + int (unat bw))
      + int (B32 ^ k) * ((if sint t < 0 then int B32 else 0) - int (unat ?bw) * int B32)
      + int (B32 ^ (k + length (b # bs))) * (int (unat c') + int (unat bw'))"
    unfolding ih(3) upd by (simp add: algebra_simps)
  also have "\<dots> = int (lval an)
      - int (B32 ^ k) * (int (unat qhat) * int (lval (b # bs)) + int (unat c) + int (unat bw))
      + int (B32 ^ (k + length (b # bs))) * (int (unat c') + int (unat bw'))"
    unfolding ps bwi by (simp add: algebra_simps)
  finally show ?case using ih(1,2) by blast
qed simp

lemma div_addback_lval:
  assumes "k + length bs \<le> length an" "unat c \<le> 1" "div_addback bs k an c = (an', c')"
  shows "unat c' \<le> 1 \<and> lval an' + B32 ^ (k + length bs) * unat c' =
    lval an + B32 ^ k * (lval bs + unat c)"
  using assms
proof (induction bs k an c rule: div_addback.induct)
  case (2 b bs k an c)
  define s where "s = ucast (an ! k) + ucast b + c"
  have s: "unat s = unat (an ! k) + unat b + unat c"
    unfolding s_def using "2.prems"(2) by (rule unat_sum3)
  have "unat s < 2 * B32"
    using s "2.prems"(2) unat_u32_le [of "an ! k"] unat_u32_le [of b] B32_gt1 by linarith
  then have hi: "unat (drop_bit 32 s) \<le> 1" unfolding unat_hi by (rule hi_le1)
  have st: "lval (an[k := ucast s]) + B32 ^ Suc k * unat (drop_bit 32 s) =
      lval an + B32 ^ k * (unat b + unat c)"
    using lval_store [of k an s] "2.prems"(1) unfolding s by (simp add: distrib_left)
  have "div_addback bs (Suc k) (an[k := ucast s]) (drop_bit 32 s) = (an', c')"
    using "2.prems"(3) by (simp add: s_def Let_def)
  then have "unat c' \<le> 1 \<and> lval an' + B32 ^ (Suc k + length bs) * unat c' =
      lval (an[k := ucast s]) + B32 ^ Suc k * (lval bs + unat (drop_bit 32 s))"
    using "2.IH" [OF s_def] hi "2.prems"(1) by simp
  with st show ?case by (simp add: algebra_simps)
qed simp

section \<open>One step\<close>

lemma lval_split_at: "k \<le> length an \<Longrightarrow> lval an = lval (take k an) + B32 ^ k * lval (drop k an)"
  by (metis append_take_drop_id length_take lval_append min.absorb2)

lemma lval_drop_Cons: "k < length an \<Longrightarrow> lval (drop k an) = unat (an ! k) + B32 * lval (drop (Suc k) an)"
  by (simp add: Cons_nth_drop_Suc [symmetric])

lemma lval_above:
  assumes "lval an < B32 ^ k" shows "lval (drop k an) = 0"
  using assms by (simp add: lval_drop)

lemma lval_take_full: "lval (drop k an) = 0 \<Longrightarrow> lval an < B32 ^ k"
  by (metis lval_split_at add.right_neutral length_take lval_bound min.absorb2 mult_0_right
      nat_le_linear power_increasing B32_ge1(1) order_less_le_trans)

lemma top_limbs_window:
  fixes an bn j
  defines "n \<equiv> length bn" and "k \<equiv> j + length bn - 2"
  assumes n: "2 \<le> n" and len: "j + n < length an" and lt: "lval an < B32 ^ Suc j * lval bn"
  shows "\<exists>wl < B32 ^ (n - 2). lval an div B32 ^ j = wl + B32 ^ (n - 2) *
      ((unat (an ! (j + n)) * B32 + unat (an ! (j + n - 1))) * B32 + unat (an ! k))"
    and "\<exists>vl < B32 ^ (n - 2). lval bn = vl + B32 ^ (n - 2) *
      (B32 * unat (bn ! (n - 1)) + unat (bn ! (n - 2)))"
    and "unat (an ! (j + n)) \<le> unat (bn ! (n - 1))"
proof -
  let ?U3 = "(unat (an ! (j + n)) * B32 + unat (an ! (j + n - 1))) * B32 + unat (an ! k)"
  let ?V2 = "B32 * unat (bn ! (n - 1)) + unat (bn ! (n - 2))"
  have ix: "Suc k = j + n - 1" "Suc (Suc k) = j + n" "k = j + (n - 2)"
    using n by (simp_all add: k_def n_def)
  have "lval an < B32 ^ Suc j * B32 ^ n"
    using lt lval_bound [of bn] less_le_trans [OF lt mult_le_mono2 [of "lval bn" "B32 ^ n" "B32 ^ Suc j"]]
    by (simp add: n_def)
  then have "lval an < B32 ^ Suc (j + n)" by (simp add: power_add)
  then have z: "lval (drop (Suc (j + n)) an) = 0" by (rule lval_above)
  have "lval (drop k an) = ?U3"
    using len z by (simp add: lval_drop_Cons ix [symmetric] algebra_simps)
  then have "lval an = lval (take k an) + B32 ^ k * ?U3"
    using lval_split_at [of k an] len ix by simp
  then have "lval an = lval (take k an) + B32 ^ j * (B32 ^ (n - 2) * ?U3)"
    unfolding ix(3) by (simp add: power_add)
  then have W: "lval an div B32 ^ j = lval (take k an) div B32 ^ j + B32 ^ (n - 2) * ?U3" by simp
  have "lval (take k an) < B32 ^ k" using lval_bound [of "take k an"] len ix by simp
  then have wl: "lval (take k an) div B32 ^ j < B32 ^ (n - 2)"
    unfolding ix(3) by (intro less_mult_imp_div_less) (simp add: power_add mult.commute)
  with W show "\<exists>wl < B32 ^ (n - 2). lval an div B32 ^ j = wl + B32 ^ (n - 2) * ?U3" by blast
  have "Suc (n - 2) = n - 1" "Suc (n - 1) = n" using n by simp_all
  then have "lval (drop (n - 2) bn) = ?V2"
    using n lval_drop_Cons [of "n - 2" bn] lval_drop_Cons [of "n - 1" bn] by (simp add: n_def)
  then have V: "lval bn = lval (take (n - 2) bn) + B32 ^ (n - 2) * ?V2"
    using lval_split_at [of "n - 2" bn] by (simp add: n_def)
  have vl: "lval (take (n - 2) bn) < B32 ^ (n - 2)"
    using lval_bound [of "take (n - 2) bn"] by (metis diff_le_self length_take min.absorb2 n_def)
  with V show "\<exists>vl < B32 ^ (n - 2). lval bn = vl + B32 ^ (n - 2) * ?V2" by blast
  show "unat (an ! (j + n)) \<le> unat (bn ! (n - 1))"
  proof (rule ccontr)
    assume "\<not> ?thesis"
    then have "Suc (unat (bn ! (n - 1))) * B32 * B32 \<le> unat (an ! (j + n)) * B32 * B32"
      by (intro mult_le_mono1) simp
    then have "Suc (unat (bn ! (n - 1))) * B32 * B32 \<le> ?U3" by (simp add: add_mult_distrib)
    moreover have "Suc ?V2 \<le> Suc (unat (bn ! (n - 1))) * B32"
      using unat_u32_lt [of "bn ! (n - 2)"] by (simp add: algebra_simps)
    ultimately have "Suc ?V2 * B32 \<le> ?U3" by (meson le_trans mult_le_mono1)
    then have "B32 ^ (n - 2) * (Suc ?V2 * B32) \<le> lval an div B32 ^ j"
      unfolding W by (simp add: trans_le_add2)
    moreover have "lval bn * B32 < B32 ^ (n - 2) * (Suc ?V2 * B32)"
      using vl V by (simp add: algebra_simps)
    moreover have "lval an div B32 ^ j < lval bn * B32"
      using lt by (intro less_mult_imp_div_less) (simp add: algebra_simps)
    ultimately show False by linarith
  qed
qed

lemma qhat_of_window:
  fixes an bn j
  defines "n \<equiv> length bn"
  defines "tp \<equiv> push_bit 32 (ucast (an ! (j + n))) OR ucast (an ! (j + n - 1)) :: u64"
    and "b1 \<equiv> bn ! (n - 1)"
  defines "qhat \<equiv> qhat_fix (tp div ucast b1) (tp mod ucast b1) b1 (bn ! (n - 2)) (an ! (j + n - 2))"
    and "q \<equiv> lval an div B32 ^ j div lval bn"
  assumes n: "2 \<le> n" and len: "j + n < length an" and lt: "lval an < B32 ^ Suc j * lval bn"
    and norm: "B32 \<le> 2 * unat b1"
  shows "q \<le> unat qhat" "unat qhat \<le> Suc q" "unat qhat < B32"
proof -
  let ?u2 = "unat (an ! (j + n))" and ?u1 = "unat (an ! (j + n - 1))"
  let ?U3 = "(?u2 * B32 + ?u1) * B32 + unat (an ! (j + n - 2))"
  let ?V2 = "B32 * unat b1 + unat (bn ! (n - 2))"
  obtain wl where wl: "wl < B32 ^ (n - 2)" and W: "lval an div B32 ^ j = wl + B32 ^ (n - 2) * ?U3"
    using top_limbs_window(1) [of bn j an] n len lt unfolding n_def by auto
  obtain vl where vl: "vl < B32 ^ (n - 2)" and V: "lval bn = vl + B32 ^ (n - 2) * ?V2"
    using top_limbs_window(2) [of bn j an] n len lt unfolding n_def b1_def by auto
  have u2: "?u2 \<le> unat b1"
    using top_limbs_window(3) [of bn j an] n len lt unfolding n_def b1_def by auto
  have b1: "unat b1 \<noteq> 0" using norm B32_pos by linarith
  then have "0 < ?V2" by simp
  then have Vpos: "0 < lval bn" unfolding V by simp
  have "lval an div B32 ^ j < lval bn * B32"
    using lt by (intro less_mult_imp_div_less) (simp add: algebra_simps)
  then have qB: "q < B32"
    unfolding q_def by (metis less_mult_imp_div_less mult.commute)
  have qV: "q * ?V2 \<le> ?U3"
    unfolding q_def by (rule digit_le_estimate [OF W wl V Vpos])
  have tp: "unat tp = ?u2 * B32 + ?u1"
    unfolding tp_def by (subst unat_join) (simp_all add: unat_ucast_up unat_u32_lt)
  have d: "unat (tp div ucast b1) = unat tp div unat b1" "unat (tp mod ucast b1) = unat tp mod unat b1"
    by (simp_all add: unat_div_distrib unat_mod_distrib unat_ucast_up)
  have "q * (B32 * unat b1) \<le> (?u2 * B32 + ?u1) * B32 + unat (an ! (j + n - 2))"
    using qV by (simp add: distrib_left)
  also have "\<dots> < Suc (?u2 * B32 + ?u1) * B32" by (simp add: unat_u32_lt)
  finally have "B32 * (q * unat b1) < B32 * Suc (unat tp)"
    unfolding tp by (simp add: algebra_simps)
  then have "q * unat b1 \<le> unat tp" by (metis less_Suc_eq_le mult_less_cancel1)
  then have qtop: "q \<le> unat tp div unat b1" using b1 by (simp add: less_eq_div_iff_mult_less_eq)
  have fx: "q \<le> unat qhat \<and> unat qhat < B32 \<and> unat qhat * ?V2 \<le> ?U3"
    unfolding qhat_def
  proof (rule qhat_fix_correct [OF qB qV u2 _ b1])
    show "unat (tp div ucast b1) * unat b1 + unat (tp mod ucast b1) = ?u2 * B32 + ?u1"
      by (simp add: d tp)
    show "unat (tp mod ucast b1) < B32"
      unfolding d using b1 unat_u32_lt [of b1] by (meson less_trans mod_less_divisor neq0_conv)
    show "q \<le> unat (tp div ucast b1)" using qtop by (simp add: d)
  qed (rule unat_u32_lt)
  have "B32 * 1 \<le> B32 * unat b1" using b1 by (intro mult_le_mono2) simp
  with fx have "unat qhat \<le> ?V2" by linarith
  with fx \<open>0 < ?V2\<close> have "unat qhat \<le> Suc (lval an div B32 ^ j div lval bn)"
    by (intro estimate_le_digit [OF W V vl]) auto
  with fx show "q \<le> unat qhat" "unat qhat \<le> Suc q" "unat qhat < B32" by (auto simp: q_def)
qed

text \<open>The top limb of the window after the subtraction: \<open>an[j + n] = t as u32\<close>.\<close>

lemma sub_top_limb:
  fixes an1 :: mag and c bw :: u64 and k :: nat
  defines "t \<equiv> ucast (an1 ! k) - c - bw"
  assumes "k < length an1" "unat bw \<le> 1" "unat c < B32"
  shows "int (lval (an1[k := ucast t])) = int (lval an1)
    - int (B32 ^ k) * (int (unat c) + int (unat bw)) + (if sint t < 0 then int (B32 ^ Suc k) else 0)"
proof -
  have t: "int (unat (ucast t :: u32)) = int (unat (an1 ! k)) - int (unat c) - int (unat bw)
      + (if sint t < 0 then int B32 else 0)"
    using diff_limbs(2) [of "ucast (an1 ! k)" c bw] assms(3,4)
    by (simp add: t_def unat_ucast_up unat_u32_lt)
  show ?thesis
    unfolding int_lval_update [OF assms(2)] t by (simp add: algebra_simps)
qed

text \<open>The add-back: one divisor more in the window, its carry falling off the top limb.\<close>

lemma addback_top:
  assumes ab: "div_addback bn j an2 0 = (an3, c2)" and m: "m = j + length bn" "m < length an2"
    and z: "lval (drop (Suc m) an2) = 0"
  defines "an' \<equiv> an3[m := ucast ((ucast (an3 ! m) :: u64) + c2)]"
  shows "length an' = length an2 \<and> lval an' < B32 ^ Suc m \<and> (\<exists>f \<le> 1.
    int (lval an') = int (lval an2) + int (B32 ^ j) * int (lval bn) - int (B32 ^ Suc m) * int f)"
proof -
  define x where "x = an3 ! m"
  have len: "length an3 = length an2" using length_div_addback [of bn j an2 0] by (simp add: ab)
  have a: "unat c2 \<le> 1" "lval an3 + B32 ^ m * unat c2 = lval an2 + B32 ^ j * lval bn"
    using div_addback_lval [OF _ _ ab] m by auto
  have "drop (Suc m) an3 = drop (Suc m) an2"
    using drop_div_addback [of j bn "Suc m" an2 0] by (simp add: ab m)
  then have "lval (drop (Suc m) an') = 0" using z by (simp add: an'_def)
  then have bound: "lval an' < B32 ^ Suc m" by (rule lval_take_full)
  define f where "f = (unat x + unat c2) div B32"
  have "unat (ucast x + c2 :: u64) = unat x + unat c2"
    using unat_sum3 [OF a(1), of x 0] by simp
  moreover have "unat x + unat c2 = (unat x + unat c2) mod B32 + B32 * f"
    unfolding f_def by simp
  then have "int (unat x) + int (unat c2) = int ((unat x + unat c2) mod B32) + int B32 * int f"
    by (metis of_nat_add of_nat_mult)
  ultimately have v: "int (unat (ucast (ucast x + c2 :: u64) :: u32)) =
      int (unat x) + int (unat c2) - int B32 * int f"
    unfolding unat_ucast_down by simp
  have "m < length an3" using m len by simp
  then have "int (lval an') = int (lval an3 + B32 ^ m * unat c2) - int (B32 ^ Suc m) * int f"
    unfolding an'_def int_lval_update [OF \<open>m < length an3\<close>] x_def [symmetric] v
    by (simp add: algebra_simps)
  then have "int (lval an') = int (lval an2) + int (B32 ^ j) * int (lval bn) - int (B32 ^ Suc m) * int f"
    unfolding a(2) by simp
  moreover have "unat x + unat c2 < 2 * B32" using a(1) unat_u32_lt [of x] B32_gt1 by linarith
  then have "f \<le> 1" unfolding f_def by (rule hi_le1)
  ultimately show ?thesis using bound len by (auto simp: an'_def)
qed

lemma div_step_correct:
  fixes an bn j
  defines "n \<equiv> length bn" and "V \<equiv> lval bn"
  assumes n: "2 \<le> n" and len: "j + n < length an" and lt: "lval an < B32 ^ Suc j * V"
    and norm: "B32 \<le> 2 * unat (bn ! (n - 1))"
    and step: "div_step bn j an = (an', d)"
  shows "length an' = length an" "lval an = lval an' + B32 ^ j * (unat d * V)" "lval an' < B32 ^ j * V"
proof -
  define q where "q = lval an div B32 ^ j div V"
  define m where "m = j + n"
  define tp :: u64 where "tp = push_bit 32 (ucast (an ! m)) OR ucast (an ! (m - 1))"
  define b1 where "b1 = bn ! (n - 1)"
  define qhat where "qhat = qhat_fix (tp div ucast b1) (tp mod ucast b1) b1 (bn ! (n - 2)) (an ! (m - 2))"
  have qh: "q \<le> unat qhat" "unat qhat \<le> Suc q" "unat qhat < B32"
    using qhat_of_window [of bn j an] n len lt norm
    unfolding q_def qhat_def tp_def b1_def m_def n_def V_def by auto
  obtain an1 bw c where ds: "div_sub qhat bn j an 0 0 = (an1, bw, c)" by (metis prod_cases3)
  have len1: "length an1 = length an" using length_div_sub [of qhat bn j an 0 0] by (simp add: ds)
  have dr1: "drop m an1 = drop m an"
    using drop_div_sub [of j bn m qhat an 0 0] by (simp add: ds m_def n_def)
  have s1: "unat bw \<le> 1" "unat c < B32" "int (lval an1) = int (lval an)
      - int (B32 ^ j) * (int (unat qhat) * int V) + int (B32 ^ m) * (int (unat c) + int (unat bw))"
    using div_sub_lval [OF _ _ _ qh(3) ds] len by (auto simp: m_def n_def V_def)
  define t where "t = ucast (an1 ! m) - c - bw"
  define an2 where "an2 = an1[m := ucast t]"
  have m: "m < length an1" using len by (simp add: m_def len1)
  have s2: "int (lval an2) = int (lval an) - int (B32 ^ j) * (int (unat qhat) * int V)
      + (if sint t < 0 then int (B32 ^ Suc m) else 0)"
    using sub_top_limb [OF m s1(1,2)] s1(3) unfolding an2_def t_def by (simp add: algebra_simps)
  have "lval bn < B32 ^ n" unfolding n_def by (rule lval_bound)
  then have "B32 ^ Suc j * V \<le> B32 ^ Suc j * B32 ^ n" unfolding V_def by (intro mult_le_mono2) simp
  with lt have "lval an < B32 ^ Suc j * B32 ^ n" by (rule less_le_trans)
  then have "lval an < B32 ^ Suc m" by (simp add: m_def power_add mult.assoc)
  then have z: "lval (drop (Suc m) an) = 0" by (rule lval_above)
  have "drop (Suc m) an1 = drop (Suc m) an" using dr1 by (metis drop_Suc drop_tl)
  then have z2: "lval (drop (Suc m) an2) = 0" using z by (simp add: an2_def)
  have low: "lval an = B32 ^ j * (lval an div B32 ^ j) + lval an mod B32 ^ j" by simp
  have Vpos: "0 < V" using lt by (cases V) auto
  have qV: "q * V \<le> lval an div B32 ^ j" "lval an div B32 ^ j < Suc q * V"
    using Vpos by (simp_all add: q_def div_times_less_eq_dividend) (metis Vpos dividend_less_div_times mult_Suc)
  have ge: "B32 ^ j * (q * V) \<le> lval an"
    using mult_le_mono2 [OF qV(1), of "B32 ^ j"] low by linarith
  have "lval an mod B32 ^ j < B32 ^ j" by simp
  then have "lval an < B32 ^ j * Suc (lval an div B32 ^ j)"
    using low unfolding mult_Suc_right by linarith
  also have "\<dots> \<le> B32 ^ j * (Suc q * V)" using qV(2) by (intro mult_le_mono2) simp
  finally have less: "lval an < B32 ^ j * (Suc q * V)" .
  have digit: "lval an' < B32 ^ j * V" if "lval an = lval an' + B32 ^ j * (unat d * V)" "unat d = q"
    using less that by (simp add: algebra_simps)
  have eq: "div_step bn j an = (if sint t < 0
      then let (an3, c2) = div_addback bn j an2 0
           in (an3[m := ucast ((ucast (an3 ! m) :: u64) + c2)], ucast (qhat - 1))
      else (an2, ucast qhat))"
    using ds by (simp add: div_step_def Let_def an2_def t_def qhat_def tp_def b1_def m_def n_def)
  have "length an' = length an \<and> unat d = q \<and> lval an = lval an' + B32 ^ j * (unat d * V)"
  proof (cases "sint t < 0")
    case False
    then have an': "an' = an2" "d = ucast qhat" using step by (simp_all add: eq)
    have "int (lval an) = int (lval an2 + B32 ^ j * (unat qhat * V))"
      using s2 False by simp
    then have v: "lval an = lval an2 + B32 ^ j * (unat qhat * V)" by (simp only: of_nat_eq_iff)
    then have "B32 ^ j * (unat qhat * V) < B32 ^ j * (Suc q * V)" using less by linarith
    then have "unat qhat < Suc q" by (metis mult_less_cancel1 mult_less_cancel2)
    with qh(1) have "unat qhat = q" by simp
    with v qh(3) show ?thesis by (simp add: an' an2_def len1 unat_ucast_down)
  next
    case True
    obtain an3 c2 where ab: "div_addback bn j an2 0 = (an3, c2)" by fastforce
    have an': "an' = an3[m := ucast ((ucast (an3 ! m) :: u64) + c2)]" "d = ucast (qhat - 1)"
      using step True by (simp_all add: eq ab)
    have len2: "length an2 = length an" by (simp add: an2_def len1)
    obtain f where len': "length an' = length an" and bound: "lval an' < B32 ^ Suc m" and f: "f \<le> 1"
      and v: "int (lval an') = int (lval an2) + int (B32 ^ j) * int V - int (B32 ^ Suc m) * int f"
      using addback_top [OF ab _ _ z2] m len1 len2 unfolding m_def n_def an' V_def by auto
    have bound2: "lval an2 < B32 ^ Suc m" using z2 by (rule lval_take_full)
    have "int (lval an2) < int (B32 ^ Suc m)" using bound2 by (simp only: of_nat_less_iff)
    then have "int (lval an) < int (B32 ^ j) * (int (unat qhat) * int V)"
      using s2 unfolding if_P [OF True] by linarith
    then have "lval an < B32 ^ j * (unat qhat * V)" by (simp only: of_nat_mult [symmetric] of_nat_less_iff)
    with ge have "unat qhat \<noteq> q" by auto
    with qh have qhat: "unat qhat = Suc q" by simp
    have v4: "int (lval an') = int (lval an) - int (B32 ^ j) * (int q * int V) + int (B32 ^ Suc m) * (1 - int f)"
      unfolding v s2 qhat using True by (simp add: algebra_simps)
    have nn: "0 \<le> int (lval an) - int (B32 ^ j) * (int q * int V)"
      using ge by (simp only: of_nat_mult [symmetric])
    have "int (lval an') < int (B32 ^ Suc m)" using bound by (simp only: of_nat_less_iff)
    then have "f \<noteq> 0" using v4 nn by (cases "f = 0") (simp_all del: power_Suc of_nat_power)
    with f have "f = 1" by simp
    then have "int (lval an) = int (lval an' + B32 ^ j * (q * V))" using v4 by simp
    then have "lval an = lval an' + B32 ^ j * (q * V)" by (simp only: of_nat_eq_iff)
    moreover have "unat d = q"
    proof -
      have "qhat \<noteq> 0" using qhat by auto
      then have "unat (qhat - 1) = q" using qhat by (simp add: unat_minus_one)
      then show ?thesis using qh by (simp add: an' unat_ucast_down qhat)
    qed
    ultimately show ?thesis using len' by simp
  qed
  with digit show "length an' = length an" "lval an = lval an' + B32 ^ j * (unat d * V)"
    "lval an' < B32 ^ j * V" by auto
qed

section \<open>The loop\<close>

text \<open>Every digit that is written is accounted for in the quotient.\<close>

lemma div_loop_correct:
  fixes bn :: mag
  defines "n \<equiv> length bn" and "V \<equiv> lval bn"
  assumes n: "2 \<le> n" and norm: "B32 \<le> 2 * unat (bn ! (n - 1))"
    and "j + n \<le> length an" "lval an < B32 ^ j * V" "j \<le> length q" "\<forall>i < j. q ! i = 0"
    and "div_loop bn j an q = (an', q')"
  shows "length an' = length an \<and> length q' = length q \<and> lval an' < V \<and>
    lval q' * V + lval an' = lval q * V + lval an"
  using assms(5-)
proof (induction j arbitrary: an q)
  case (Suc j)
  obtain an1 d where st: "div_step bn j an = (an1, d)" by fastforce
  have s: "length an1 = length an" "lval an = lval an1 + B32 ^ j * (unat d * V)"
    "lval an1 < B32 ^ j * V"
    using div_step_correct [OF _ _ _ _ st] n norm Suc.prems(1,2) by (auto simp: n_def V_def)
  have "div_loop bn j an1 (q[j := d]) = (an', q')" using Suc.prems(5) by (simp add: st)
  then have ih: "length an' = length an1 \<and> length q' = length (q[j := d]) \<and> lval an' < V \<and>
      lval q' * V + lval an' = lval (q[j := d]) * V + lval an1"
    using Suc.prems s by (intro Suc.IH) auto
  have "lval (q[j := d]) = lval q + B32 ^ j * unat d"
    using lval_update [of j q d] Suc.prems(3,4) by simp
  then have "lval (q[j := d]) * V + lval an1 = lval q * V + lval an"
    using s(2) by (simp add: algebra_simps)
  with ih s(1) show ?case by simp
qed simp

section \<open>Normalisation\<close>

lemma lval_last: "b \<noteq> [] \<Longrightarrow> lval b = lval (butlast b) + B32 ^ (length b - 1) * unat (last b)"
  using lval_append [of "butlast b" "[last b]"] by simp

lemma lval_top: "length b = Suc n \<Longrightarrow> unat (b ! n) = lval b div B32 ^ n"
proof -
  assume n: "length b = Suc n"
  have "drop n b = [b ! n]" using n Cons_nth_drop_Suc [of n b] by simp
  then show ?thesis using lval_drop [of n b] by simp
qed

lemma scaled_top_fits:
  assumes b: "b \<noteq> []" "last b \<noteq> 0" and s: "s = leading_zeros (last b)"
  shows "lval b * 2 ^ s < B32 ^ length b"
proof -
  note lz = leading_zeros_bounds [OF b(2), folded s]
  have B: "B32 = 2 ^ (32 - s) * 2 ^ s" using B32_split [of s] lz(1) by (simp add: mult.commute)
  have "unat (last b) < 2 ^ (32 - s)" using lz(3) unfolding B by simp
  then have top: "Suc (unat (last b)) * 2 ^ s \<le> B32" unfolding B by (intro mult_le_mono1) simp
  have "lval b < B32 ^ (length b - 1) * Suc (unat (last b))"
    using lval_bound [of "butlast b"] by (simp add: lval_last [OF b(1)])
  then have "lval b * 2 ^ s < B32 ^ (length b - 1) * (Suc (unat (last b)) * 2 ^ s)"
    by (simp only: mult.assoc [symmetric] mult_less_cancel2) simp
  also have "\<dots> \<le> B32 ^ (length b - 1) * B32" using top by (intro mult_le_mono2)
  also have "\<dots> = B32 ^ length b" using b(1) by (cases b) (simp_all add: mult.commute)
  finally show ?thesis .
qed

lemma knuth_norm:
  assumes b: "b \<noteq> []" "last b \<noteq> 0" and s: "s = leading_zeros (last b)"
    and bn: "bn = (if s = 0 then b else fst (shl_bits s 0 b))"
  shows "length bn = length b" "lval bn = lval b * 2 ^ s" "B32 \<le> 2 * unat (bn ! (length b - 1))"
proof -
  note lz = leading_zeros_bounds [OF b(2), folded s]
  obtain out c where oc: "shl_bits s 0 b = (out, c)" by fastforce
  have sh: "length out = length b" "lval out + B32 ^ length b * unat c = lval b * 2 ^ s"
    using shl_bits_lval [OF _ _ oc] lz(1) by auto
  have "B32 ^ length b * unat c < B32 ^ length b * 1"
    using sh(2) scaled_top_fits [OF b s] by linarith
  then have "unat c = 0" by (simp only: mult_less_cancel1) simp
  with sh have "lval out = lval b * 2 ^ s" by simp
  then show len: "length bn = length b" and v: "lval bn = lval b * 2 ^ s"
    using sh(1) by (auto simp: bn oc)
  obtain n where n: "length b = Suc n" using b(1) by (cases b) auto
  have "B32 ^ n * unat (last b) \<le> lval b" using lval_last [OF b(1)] n by simp
  then have "B32 ^ n * (unat (last b) * 2 ^ s) \<le> lval bn" unfolding v by (simp add: mult.assoc [symmetric])
  with mult_le_mono2 [OF lz(2), of "B32 ^ n"] have "B32 ^ n * 2 ^ 31 \<le> lval bn" by (rule le_trans)
  then have "2 ^ 31 * B32 ^ n \<le> lval bn" by (simp only: mult.commute)
  then have "2 ^ 31 \<le> lval bn div B32 ^ n" by (simp add: less_eq_div_iff_mult_less_eq)
  then have "2 ^ 31 \<le> unat (bn ! n)" using lval_top [of bn n] len n by simp
  then show "B32 \<le> 2 * unat (bn ! (length b - 1))" by (simp add: n B32_def)
qed

lemma knuth_dividend:
  assumes "s < 32" "an = (if s = 0 then a @ [0] else (case shl_bits s 0 a of (out, carry) \<Rightarrow> out @ [carry]))"
  shows "length an = Suc (length a)" "lval an = lval a * 2 ^ s"
proof -
  obtain out c where oc: "shl_bits s 0 a = (out, c)" by fastforce
  have "length out = length a" "lval out + B32 ^ length a * unat c = lval a * 2 ^ s"
    using shl_bits_lval [OF _ _ oc] assms(1) by auto
  then show "length an = Suc (length a)" "lval an = lval a * 2 ^ s"
    using assms(2) by (auto simp: oc lval_append)
qed

section \<open>The result\<close>

lemma trimmed_Nil: "trimmed []"
  by (simp add: trimmed_def)

text \<open>The remainder comes out of the scaled division by the shift back.\<close>

lemma unscale_divmod:
  fixes A V Q R :: nat
  assumes "Q * (V * 2 ^ s) + R = A * 2 ^ s" "R < V * 2 ^ s"
  shows "Q = A div V" "R div 2 ^ s = A mod V"
proof -
  have V: "0 < V" using assms(2) by (cases V) auto
  have "2 ^ s dvd R"
    using assms(1) by (metis dvd_add_right_iff dvd_triv_right mult.assoc)
  then obtain r where r: "R = 2 ^ s * r" by blast
  have "2 ^ s * (Q * V + r) = 2 ^ s * A" using assms(1) by (simp add: r algebra_simps)
  then have e: "A = Q * V + r" by simp
  have "r < V" using assms(2) by (simp add: r mult.commute)
  then show "Q = A div V" "R div 2 ^ s = A mod V" by (simp_all add: e r)
qed

lemma udivmod_knuth:
  assumes tr: "trimmed a" "trimmed b" and ge: "lval b \<le> lval a" and n: "2 \<le> length b"
  shows "lval (fst (udivmod a b)) = lval a div lval b \<and> lval (snd (udivmod a b)) = lval a mod lval b"
proof -
  define s where "s = leading_zeros (last b)"
  define bn where "bn = (if s = 0 then b else fst (shl_bits s 0 b))"
  define an where "an = (if s = 0 then a @ [0] else (case shl_bits s 0 a of (out, carry) \<Rightarrow> out @ [carry]))"
  define m where "m = length a - length b"
  have b: "b \<noteq> []" "last b \<noteq> 0" using tr(2) n by (auto simp: trimmed_def)
  have s32: "s < 32" unfolding s_def by (rule leading_zeros_bounds [OF b(2)])
  note bn = knuth_norm [OF b s_def bn_def] and an = knuth_dividend [OF s32 an_def]
  have len: "length b \<le> length a" using trimmed_length_le [OF tr(2) ge] .
  obtain an' q where dl: "div_loop bn (Suc m) an (replicate (Suc m) 0) = (an', q)" by fastforce
  have "1 * 2 ^ 31 * B32 ^ (length b - 1) \<le> lval bn"
  proof -
    have "2 ^ 31 \<le> unat (bn ! (length b - 1))" using bn(3) by (simp add: B32_def)
    also have "\<dots> = lval bn div B32 ^ (length b - 1)" using lval_top [of bn "length b - 1"] bn(1) n by simp
    finally show ?thesis by (simp add: less_eq_div_iff_mult_less_eq)
  qed
  have a_lt: "lval a < B32 ^ (m + length b)" using lval_bound [of a] len by (simp add: m_def)
  have "B32 ^ m * (B32 * (B32 ^ (length b - 1) * 2 ^ 31)) \<le> B32 ^ m * (B32 * lval bn)"
    using \<open>_ \<le> lval bn\<close> by (intro mult_le_mono2) (simp add: mult.commute)
  then have top: "B32 ^ (m + length b) * 2 ^ 31 \<le> B32 ^ Suc m * lval bn"
    using n by (cases "length b") (simp_all add: power_add algebra_simps)
  have "2 ^ s \<le> (2 ^ 31 :: nat)" using s32 by (intro power_increasing) auto
  then have "lval a * 2 ^ s \<le> lval a * 2 ^ 31" by (intro mult_le_mono2)
  also have "\<dots> < B32 ^ (m + length b) * 2 ^ 31" using a_lt by simp
  finally have "lval an < B32 ^ Suc m * lval bn" using top unfolding an(2) by linarith
  then have r: "length an' = length an" "lval an' < lval bn" "lval q * lval bn + lval an' = lval an"
    using div_loop_correct [OF _ _ _ _ _ _ dl] n bn(1,3) an(1) len
    by (simp_all add: m_def nth_replicate del: div_loop.simps replicate_Suc power_Suc)
  have "lval (drop (length b) an') = 0"
    using r(2) lval_bound [of bn] bn(1) by (intro lval_above) simp
  then have tk: "lval (take (length b) an') = lval an'"
    using lval_append [of "take (length b) an'" "drop (length b) an'"] by simp
  have qr: "lval q = lval a div lval b" "lval an' div 2 ^ s = lval a mod lval b"
    by (rule unscale_divmod; use r an(2) bn(2) in simp)+
  have "ucmp a b \<noteq> Less" using ge by (simp add: ucmp_lval [OF tr] ord_cmp_def)
  then have "udivmod a b = (trim q, trim (if s > 0 then ushr (take (length b) an') 0 s else take (length b) an'))"
    using n dl unfolding udivmod_def Let_def s_def [symmetric] bn_def [symmetric] an_def [symmetric] m_def [symmetric]
    by (simp del: div_loop.simps replicate_Suc)
  then show ?thesis using qr s32 by (auto simp: tk)
qed

theorem udivmod_correct:
  assumes "trimmed a" "trimmed b" "b \<noteq> []"
  shows "lval (fst (udivmod a b)) = lval a div lval b" "lval (snd (udivmod a b)) = lval a mod lval b"
    "trimmed (fst (udivmod a b))" "trimmed (snd (udivmod a b))"
proof -
  have u: "ucmp a b = ord_cmp (lval a) (lval b)" by (rule ucmp_lval [OF assms(1,2)])
  have small: "lval (fst (udivmod a b)) = lval a div lval b \<and> lval (snd (udivmod a b)) = lval a mod lval b"
    if "\<not> lval a < lval b" "length b = 1"
  proof -
    obtain d where d: "b = [d]" using \<open>length b = 1\<close> by (cases b) auto
    with assms(2) have "d \<noteq> 0" by (simp add: trimmed_def)
    moreover have "ucmp a b \<noteq> Less" using that u by (simp add: ord_cmp_def)
    ultimately show ?thesis
      using udiv_small_lval [of d a] by (cases "udiv_small a d") (simp add: udivmod_def d)
  qed
  show "lval (fst (udivmod a b)) = lval a div lval b" "lval (snd (udivmod a b)) = lval a mod lval b"
  proof -
    have "lval (fst (udivmod a b)) = lval a div lval b \<and> lval (snd (udivmod a b)) = lval a mod lval b"
    proof (cases "lval a < lval b")
      case True
      then show ?thesis by (simp add: udivmod_def u ord_cmp_def)
    next
      case False
      show ?thesis
      proof (cases "length b = 1")
        case True
        with small False show ?thesis by simp
      next
        case ne: False
        with assms(3) have "2 \<le> length b" by (cases b) (auto simp: Suc_le_eq)
        with udivmod_knuth [OF assms(1,2)] False show ?thesis by simp
      qed
    qed
    then show "lval (fst (udivmod a b)) = lval a div lval b" "lval (snd (udivmod a b)) = lval a mod lval b"
      by auto
  qed
  obtain q r where qr: "udiv_small a (b ! 0) = (q, r)" by fastforce
  have "trimmed q" using udiv_small_trimmed [of a "b ! 0"] unfolding qr by simp
  then show "trimmed (fst (udivmod a b))" "trimmed (snd (udivmod a b))"
    using assms by (auto simp: udivmod_def Let_def trimmed_Nil qr split: prod.split)
qed

end
