(* ===== verification/BigInt.thy ===== *)
theory BigInt
  imports BigDiv
begin

text \<open>
  The signed layer of \<open>src/bigint.rs\<close>: \<open>struct BigInt\<close> as a record of a sign and a magnitude,
  its invariant (\<open>big_wf\<close>: no leading zero limb, zero is not negative), the integer it stands
  for (\<open>bval\<close>), and the arithmetic of \<open>impl BigInt\<close>. Each operation is shown to keep the
  invariant and to compute the operation of \<open>int\<close> it is named after. Limb counts and shift
  counts (\<open>usize\<close>, \<open>u64\<close>) are \<open>nat\<close>: they are lengths of vectors that are in memory.
\<close>

section \<open>The representation\<close>

record bigint =
  bneg :: bool
  bmag :: mag

definition bval :: "bigint \<Rightarrow> int" where
  "bval x = (if bneg x then - int (lval (bmag x)) else int (lval (bmag x)))"

definition big_wf :: "bigint \<Rightarrow> bool" where
  "big_wf x \<longleftrightarrow> trimmed (bmag x) \<and> (bneg x \<longrightarrow> bmag x \<noteq> [])"

named_theorems big_wf_rules
named_theorems bval_simps

definition big_zero :: bigint where
  "big_zero = \<lparr>bneg = False, bmag = []\<rparr>"

definition big_is_zero :: "bigint \<Rightarrow> bool" where
  "big_is_zero x \<longleftrightarrow> bmag x = []"

definition big_sign :: "bigint \<Rightarrow> int" where
  "big_sign x = (if bmag x = [] then 0 else if bneg x then -1 else 1)"

definition big_make :: "bool \<Rightarrow> mag \<Rightarrow> bigint" where
  "big_make n m = (let m' = trim m in \<lparr>bneg = n \<and> m' \<noteq> [], bmag = m'\<rparr>)"

definition big_from_sign_u64 :: "bool \<Rightarrow> u64 \<Rightarrow> bigint" where
  "big_from_sign_u64 n u =
     (let m = trim [ucast u, ucast (drop_bit 32 u)] in \<lparr>bneg = n \<and> m \<noteq> [], bmag = m\<rparr>)"

text \<open>\<open>i64::unsigned_abs\<close>: the two's complement of a negative word.\<close>

definition unsigned_abs :: "i64 \<Rightarrow> u64" where
  "unsigned_abs v = (if sint v < 0 then - v else v)"

definition big_from_i64 :: "i64 \<Rightarrow> bigint" where
  "big_from_i64 v = big_from_sign_u64 (sint v < 0) (unsigned_abs v)"

definition big_from_u64 :: "u64 \<Rightarrow> bigint" where
  "big_from_u64 v = big_from_sign_u64 False v"

text \<open>\<open>i64::MAX as u64\<close>.\<close>

definition i64_max :: u64 where "i64_max = 0x7FFFFFFFFFFFFFFF"

definition big_to_i64 :: "bigint \<Rightarrow> i64 option" where
  "big_to_i64 x =
     (if bmag x = [] then Some 0
      else if length (bmag x) > 2 then None
      else
        let u = ucast (bmag x ! 0) OR
                  (if length (bmag x) > 1 then push_bit 32 (ucast (bmag x ! 1)) else 0) :: u64;
            limit = i64_max + (if bneg x then 1 else 0)
        in if u > limit then None
           else Some (if bneg x then (if u = i64_max + 1 then 0x8000000000000000 else - u) else u))"

definition limb_at :: "mag \<Rightarrow> nat \<Rightarrow> limb" where
  "limb_at m i = (if i < length m then m ! i else 0)"

definition big_to_u64 :: "bigint \<Rightarrow> u64 option" where
  "big_to_u64 x =
     (if bneg x \<or> length (bmag x) > 2 then None
      else Some (ucast (limb_at (bmag x) 0) OR push_bit 32 (ucast (limb_at (bmag x) 1))))"

text \<open>\<open>u32::to_le_bytes\<close>.\<close>

definition to_le_bytes :: "limb \<Rightarrow> u8 list" where
  "to_le_bytes l = [ucast l, ucast (drop_bit 8 l), ucast (drop_bit 16 l), ucast (drop_bit 24 l)]"

definition big_hash_bytes :: "bigint \<Rightarrow> u8 list" where
  "big_hash_bytes x = concat (map to_le_bytes (bmag x)) @ [if bneg x then 0xff else 1]"

definition big_byte_size :: "bigint \<Rightarrow> nat" where
  "big_byte_size x = length (bmag x) * 4"

definition big_bit_length :: "bigint \<Rightarrow> nat" where
  "big_bit_length x =
     (if bmag x = [] then 0
      else (length (bmag x) - 1) * 32 + (32 - leading_zeros (last (bmag x))))"

definition big_is_even :: "bigint \<Rightarrow> bool" where
  "big_is_even x = (case bmag x of [] \<Rightarrow> True | l # _ \<Rightarrow> l AND 1 = 0)"

section \<open>Arithmetic\<close>

definition big_cmp :: "bigint \<Rightarrow> bigint \<Rightarrow> ordering" where
  "big_cmp x y =
     (if big_sign x \<noteq> big_sign y then ord_cmp (big_sign x) (big_sign y)
      else let r = ucmp (bmag x) (bmag y) in if big_sign x < 0 then ord_reverse r else r)"

definition big_neg :: "bigint \<Rightarrow> bigint" where
  "big_neg x = big_make (\<not> bneg x) (bmag x)"

definition big_abs :: "bigint \<Rightarrow> bigint" where
  "big_abs x = \<lparr>bneg = False, bmag = bmag x\<rparr>"

definition big_add :: "bigint \<Rightarrow> bigint \<Rightarrow> bigint" where
  "big_add x y =
     (if bneg x = bneg y then big_make (bneg x) (uadd (bmag x) (bmag y))
      else case ucmp (bmag x) (bmag y) of
          Equal \<Rightarrow> big_zero
        | Greater \<Rightarrow> big_make (bneg x) (usub (bmag x) (bmag y))
        | Less \<Rightarrow> big_make (bneg y) (usub (bmag y) (bmag x)))"

definition big_sub :: "bigint \<Rightarrow> bigint \<Rightarrow> bigint" where
  "big_sub x y = big_add x (big_neg y)"

definition big_mul :: "bigint \<Rightarrow> bigint \<Rightarrow> bigint" where
  "big_mul x y = big_make (bneg x \<noteq> bneg y) (umul (bmag x) (bmag y))"

definition big_divmod_trunc :: "bigint \<Rightarrow> bigint \<Rightarrow> bigint \<times> bigint" where
  "big_divmod_trunc x y =
     (let (q, r) = udivmod (bmag x) (bmag y)
      in (big_make (bneg x \<noteq> bneg y) q, big_make (bneg x) r))"

definition big_divmod_floor :: "bigint \<Rightarrow> bigint \<Rightarrow> bigint \<times> bigint" where
  "big_divmod_floor x y =
     (let (q, r) = big_divmod_trunc x y
      in if big_is_zero r \<or> bneg x = bneg y then (q, r)
         else (big_sub q (big_from_i64 1), big_add r y))"

definition big_div_floor :: "bigint \<Rightarrow> bigint \<Rightarrow> bigint" where
  "big_div_floor x y = fst (big_divmod_floor x y)"

definition big_mod_floor :: "bigint \<Rightarrow> bigint \<Rightarrow> bigint" where
  "big_mod_floor x y = snd (big_divmod_floor x y)"

definition big_rem_trunc :: "bigint \<Rightarrow> bigint \<Rightarrow> bigint" where
  "big_rem_trunc x y = snd (big_divmod_trunc x y)"

text \<open>\<open>while e > 0\<close> of \<open>pow\<close>, the exponent a machine word.\<close>

function pow_loop :: "bigint \<Rightarrow> bigint \<Rightarrow> u64 \<Rightarrow> bigint" where
  "pow_loop result base e =
     (if e > 0 then
        let result' = (if e AND 1 = 1 then big_mul result base else result);
            e' = drop_bit 1 e;
            base' = (if e' > 0 then big_mul base base else base)
        in pow_loop result' base' e'
      else result)"
  by pat_completeness auto
termination
  by (relation "measure (\<lambda>(_, _, e). unat e)")
    (auto simp: unat_drop_bit_eq drop_bit_eq_div unat_div_distrib unat_gt_0)

declare pow_loop.simps [simp del]

definition big_pow :: "bigint \<Rightarrow> u64 \<Rightarrow> bigint" where
  "big_pow x e = pow_loop (big_from_i64 1) x e"

text \<open>\<open>for i in 0..bits\<close> of \<open>powm\<close>; \<open>n\<close> is the number of rounds left.\<close>

fun powm_loop :: "bigint \<Rightarrow> bigint \<Rightarrow> nat \<Rightarrow> nat \<Rightarrow> bigint \<Rightarrow> bigint \<Rightarrow> bigint" where
  "powm_loop e m i 0 result base = result"
| "powm_loop e m i (Suc n) result base =
     (let result' = (if drop_bit (i mod 32) (bmag e ! (i div 32)) AND 1 = 1
                     then big_rem_trunc (big_mul result base) m else result);
          base' = (if 0 < n then big_rem_trunc (big_mul base base) m else base)
      in powm_loop e m (Suc i) n result' base')"

definition big_powm :: "bigint \<Rightarrow> bigint \<Rightarrow> bigint \<Rightarrow> bigint" where
  "big_powm x e m =
     (if bmag m = [1] then big_zero
      else powm_loop e m 0 (big_bit_length e) (big_from_i64 1) (big_rem_trunc x m))"

definition big_shl :: "bigint \<Rightarrow> nat \<Rightarrow> bigint" where
  "big_shl x n = big_make (bneg x) (ushl (bmag x) (n div 32) (n mod 32))"

definition big_shr :: "bigint \<Rightarrow> nat \<Rightarrow> bigint" where
  "big_shr x n =
     (let v = big_make (bneg x) (ushr (bmag x) (n div 32) (n mod 32))
      in if bneg x \<and> ucmp (bmag (big_shl (big_abs v) n)) (bmag x) \<noteq> Equal
         then big_sub v (big_from_i64 1) else v)"

section \<open>Roots and divisors\<close>

text \<open>\<open>while y < x { x = y; y = (x + n / x) / 2; }\<close> on machine words.\<close>

function isqrt_loop :: "u64 \<Rightarrow> u64 \<Rightarrow> u64 \<Rightarrow> u64" where
  "isqrt_loop n x y = (if y < x then isqrt_loop n y ((y + n div y) div 2) else x)"
  by pat_completeness auto
termination
  by (relation "measure (\<lambda>(_, x, _). unat x)") (auto simp: word_less_nat_alt)

declare isqrt_loop.simps [simp del]

definition isqrt_u64 :: "u64 \<Rightarrow> u64" where
  "isqrt_u64 n = (if n < 2 then n else isqrt_loop n n (n div 2 + n mod 2))"

text \<open>The loops of \<open>sqrt\<close> and \<open>gcd\<close> end because the value falls; \<open>None\<close> would be a loop that does not.\<close>

partial_function (option) sqrt_loop :: "bigint \<Rightarrow> bigint \<Rightarrow> bigint option" where
  "sqrt_loop self x =
     (let next = big_shr (big_add x (big_div_floor self x)) 1
      in if big_cmp next x \<noteq> Less then Some x else sqrt_loop self next)"

definition big_sqrt :: "bigint \<Rightarrow> bigint option" where
  "big_sqrt x =
     (if length (bmag x) \<le> 2
      then Some (big_from_u64 (isqrt_u64 (case big_to_u64 x of Some n \<Rightarrow> n | None \<Rightarrow> 0)))
      else sqrt_loop x (big_shl (big_from_i64 1) ((big_bit_length x + 1) div 2)))"

partial_function (option) gcd_loop :: "bigint \<Rightarrow> bigint \<Rightarrow> bigint option" where
  "gcd_loop a b = (if big_is_zero b then Some a else gcd_loop b (big_rem_trunc a b))"

definition big_gcd :: "bigint \<Rightarrow> bigint \<Rightarrow> bigint option" where
  "big_gcd x y = gcd_loop (big_abs x) (big_abs y)"

definition big_lcm :: "bigint \<Rightarrow> bigint \<Rightarrow> bigint option" where
  "big_lcm x y =
     (if big_is_zero x \<or> big_is_zero y then Some big_zero
      else case big_gcd x y of
          None \<Rightarrow> None
        | Some g \<Rightarrow> Some (big_mul (big_div_floor (big_abs x) g) (big_abs y)))"

section \<open>The value of each operation\<close>

lemma bval_zero [simp]: "bval big_zero = 0" and wf_zero [simp, big_wf_rules]: "big_wf big_zero"
  by (simp_all add: big_zero_def bval_def big_wf_def trimmed_Nil)

lemma bval_make [simp]: "bval (big_make n m) = (if n then - int (lval m) else int (lval m))"
  by (simp add: big_make_def bval_def Let_def trim_eq_Nil)

lemma wf_make [simp, big_wf_rules]: "big_wf (big_make n m)"
  by (simp add: big_make_def big_wf_def Let_def)

lemma wf_trimmed: "big_wf x \<Longrightarrow> trimmed (bmag x)"
  by (simp add: big_wf_def)

lemma bval_0_iff: "big_wf x \<Longrightarrow> bval x = 0 \<longleftrightarrow> bmag x = []"
  by (auto simp: big_wf_def bval_def lval_eq_0)

lemma is_zero_iff: "big_wf x \<Longrightarrow> big_is_zero x \<longleftrightarrow> bval x = 0"
  by (simp add: bval_0_iff big_is_zero_def)

lemma bneg_iff: "big_wf x \<Longrightarrow> bneg x \<longleftrightarrow> bval x < 0"
  by (auto simp: big_wf_def bval_def lval_eq_0 zero_less_iff_neq_zero)

lemma lval_abs: "int (lval (bmag x)) = \<bar>bval x\<bar>"
  by (simp add: bval_def)

lemma lval_nat_abs: "lval (bmag x) = nat \<bar>bval x\<bar>"
  by (simp add: bval_def)

lemma sign_sgn: "big_wf x \<Longrightarrow> big_sign x = sgn (bval x)"
  by (auto simp: big_sign_def bneg_iff bval_0_iff sgn_if)

text \<open>A value has one representation.\<close>

lemma bval_inj:
  assumes "big_wf x" "big_wf y" "bval x = bval y"
  shows "x = y"
proof -
  have "bneg x = bneg y" using assms by (simp add: bneg_iff)
  moreover have "bmag x = bmag y"
    using assms by (intro trimmed_inj) (auto simp: lval_nat_abs wf_trimmed)
  ultimately show ?thesis by simp
qed

lemma two_limbs: "lval [ucast u, ucast (drop_bit 32 u)] = unat (u :: u64)"
  by (simp add: unat_ucast_down unat_hi unat_hi_lt limb_split)

lemma bval_from_sign: "bval (big_from_sign_u64 n u) = (if n then - int (unat u) else int (unat u))"
proof -
  have "trim [ucast u, ucast (drop_bit 32 u)] = [] \<Longrightarrow> unat u = 0"
    using two_limbs [of u] by (simp only: trim_eq_Nil)
  then show ?thesis
    unfolding big_from_sign_u64_def Let_def bval_def
    by (simp del: lval.simps(2) of_nat_unat add: two_limbs)
qed

lemma wf_from_sign [simp, big_wf_rules]: "big_wf (big_from_sign_u64 n u)"
  by (simp add: big_from_sign_u64_def Let_def big_wf_def)

lemma unsigned_abs_val: "int (unat (unsigned_abs v)) = \<bar>sint v\<bar>"
proof (cases "sint v < 0")
  case True
  have "sint v \<ge> - (2 ^ 63)" using sint_greater_eq [of v] by simp
  have "uint (- v) = (- sint v) mod 2 ^ 64"
    by (simp add: uint_word_ariths uint_sint [of v] take_bit_eq_mod mod_minus_eq)
  also have "\<dots> = - sint v" using True \<open>sint v \<ge> _\<close> by simp
  finally show ?thesis using True by (simp add: unsigned_abs_def)
next
  case False
  then have "uint v = sint v" using sint_less [of v] by (simp add: uint_sint take_bit_int_eq_self_iff)
  with False show ?thesis by (simp add: unsigned_abs_def)
qed

lemma bval_from_i64 [simp]: "bval (big_from_i64 v) = sint v"
  by (simp add: big_from_i64_def bval_from_sign unsigned_abs_val del: of_nat_unat)

lemma bval_from_u64 [simp]: "bval (big_from_u64 v) = int (unat v)"
  by (simp add: big_from_u64_def bval_from_sign)

lemma wf_from [simp, big_wf_rules]: "big_wf (big_from_i64 v)" "big_wf (big_from_u64 u)"
  by (simp_all add: big_from_i64_def big_from_u64_def)

lemma lval_two: "length m \<le> 2 \<Longrightarrow> lval m = unat (limb_at m 0) + B32 * unat (limb_at m 1)"
  by (cases m; cases "tl m") (auto simp: limb_at_def)

lemma join_limbs: "unat (ucast lo OR push_bit 32 (ucast hi) :: u64) = unat (lo :: limb) + B32 * unat (hi :: limb)"
  using unat_join [of "ucast hi" lo]
  by (simp add: unat_ucast_up unat_u32_lt or.commute add.commute mult.commute)

lemma to_u64_val:
  assumes "big_to_u64 x = Some u" "\<not> bneg x" "length (bmag x) \<le> 2"
  shows "int (unat u) = bval x"
proof -
  have "u = ucast (limb_at (bmag x) 0) OR push_bit 32 (ucast (limb_at (bmag x) 1))"
    using assms by (simp add: big_to_u64_def)
  then have "unat u = lval (bmag x)" by (simp only: join_limbs lval_two [OF assms(3)])
  then show ?thesis using assms(2) by (simp add: bval_def del: of_nat_unat)
qed

lemma length_le_2_iff: "trimmed m \<Longrightarrow> length m \<le> 2 \<longleftrightarrow> lval m < 2 ^ 64"
proof
  assume "trimmed m" "lval m < 2 ^ 64"
  show "length m \<le> 2"
  proof (rule ccontr)
    assume "\<not> length m \<le> 2"
    then have m: "m \<noteq> []" "2 \<le> length m - 1" by auto
    have "B32 ^ 2 \<le> B32 ^ (length m - 1)" using m(2) by (intro power_increasing) auto
    also have "\<dots> \<le> lval m" using m(1) \<open>trimmed m\<close> by (rule lval_lower)
    finally have "B32 ^ 2 \<le> lval m" .
    with \<open>lval m < 2 ^ 64\<close> show False by (simp add: power2_eq_square B32_sq)
  qed
next
  assume "length m \<le> 2"
  then have "B32 ^ length m \<le> B32 ^ 2" by (intro power_increasing) auto
  with lval_bound [of m] show "lval m < 2 ^ 64" by (simp add: power2_eq_square B32_sq)
qed

theorem to_u64_spec:
  assumes "big_wf x"
  shows "big_to_u64 x = (if 0 \<le> bval x \<and> bval x < 2 ^ 64 then Some (word_of_int (bval x)) else None)"
proof (cases "bneg x \<or> 2 < length (bmag x)")
  case True
  then show ?thesis
    using assms length_le_2_iff [OF wf_trimmed [OF assms]]
    by (auto simp: big_to_u64_def bneg_iff lval_nat_abs)
next
  case False
  then obtain u where u: "big_to_u64 x = Some u" by (simp add: big_to_u64_def)
  from to_u64_val [OF this] False have v: "int (unat u) = bval x" by simp
  then have "u = word_of_int (bval x)" by (metis word_of_nat_eq_iff of_nat_unat word_of_int_uint)
  moreover have "0 \<le> bval x" unfolding v [symmetric] by (rule of_nat_0_le_iff)
  moreover have "bval x < 2 ^ 64" using unsigned_less [of u, where ?'a = int] v by simp
  ultimately show ?thesis using u by simp
qed

theorem to_i64_spec:
  assumes "big_wf x"
  shows "big_to_i64 x =
    (if - (2 ^ 63) \<le> bval x \<and> bval x < 2 ^ 63 then Some (word_of_int (bval x)) else None)"
proof (cases "bmag x = [] \<or> 2 < length (bmag x)")
  case True
  then show ?thesis
    using assms length_le_2_iff [OF wf_trimmed [OF assms]]
    by (auto simp: big_to_i64_def bval_def)
next
  case False
  define u :: u64 where "u = ucast (limb_at (bmag x) 0) OR push_bit 32 (ucast (limb_at (bmag x) 1))"
  have u: "unat u = lval (bmag x)"
    using False by (simp only: u_def join_limbs lval_two [of "bmag x"]) (simp add: lval_two)
  have eq: "ucast (bmag x ! 0) OR
      (if length (bmag x) > 1 then push_bit 32 (ucast (bmag x ! 1)) else 0) = u"
    using False by (auto simp: u_def limb_at_def)
  have w: "word_of_nat (lval (bmag x)) = u" by (simp flip: u)
  have wi: "word_of_int (bval x) = (if bneg x then - u else u)"
    by (simp add: bval_def w)
  have cmp: "u > i64_max + (if bneg x then 1 else 0) \<longleftrightarrow>
      2 ^ 63 - 1 + (if bneg x then 1 else 0) < lval (bmag x)"
    by (simp add: i64_max_def word_less_nat_alt u)
  have min: "- u = 0x8000000000000000" if "u = i64_max + 1" using that by (simp add: i64_max_def)
  show ?thesis
    using False cmp min unfolding big_to_i64_def Let_def eq wi
    by (auto simp: bval_def)
qed

subsection \<open>Comparison, addition, multiplication\<close>

lemma bval_abs [simp]: "bval (big_abs x) = \<bar>bval x\<bar>"
  by (simp add: big_abs_def bval_def)

lemma wf_abs [big_wf_rules]: "big_wf x \<Longrightarrow> big_wf (big_abs x)"
  by (simp add: big_abs_def big_wf_def)

lemma bval_neg [simp]: "bval (big_neg x) = - bval x"
  by (simp add: big_neg_def bval_def [of x])

lemma wf_neg [simp, big_wf_rules]: "big_wf (big_neg x)"
  by (simp add: big_neg_def)

lemma bval_mul [simp]: "bval (big_mul x y) = bval x * bval y"
  by (simp add: big_mul_def bval_def [of x] bval_def [of y])

lemma wf_mul [simp, big_wf_rules]: "big_wf (big_mul x y)"
  by (simp add: big_mul_def)

lemma bval_add:
  assumes "big_wf x" "big_wf y"
  shows "bval (big_add x y) = bval x + bval y"
proof (cases "bneg x = bneg y")
  case True
  then show ?thesis by (simp add: big_add_def bval_def [of x] bval_def [of y])
next
  case False
  note u = ucmp_lval [OF assms [THEN wf_trimmed]]
  consider "lval (bmag x) < lval (bmag y)" | "lval (bmag x) = lval (bmag y)"
    | "lval (bmag y) < lval (bmag x)" by linarith
  then show ?thesis
    using False by cases (auto simp: big_add_def u ord_cmp_def bval_def [of x] bval_def [of y] lval_usub trimmed_length_le wf_trimmed assms)
qed

lemma wf_add [simp, big_wf_rules]: "big_wf (big_add x y)"
  by (simp add: big_add_def split: ordering.split)

lemma bval_sub:
  assumes "big_wf x" "big_wf y"
  shows "bval (big_sub x y) = bval x - bval y"
  using assms by (simp add: big_sub_def bval_add)

lemma wf_sub [simp, big_wf_rules]: "big_wf (big_sub x y)"
  by (simp add: big_sub_def)

lemma big_cmp_val:
  assumes "big_wf x" "big_wf y"
  shows "big_cmp x y = ord_cmp (bval x) (bval y)"
proof -
  have s: "big_sign x = sgn (bval x)" "big_sign y = sgn (bval y)" using assms by (simp_all add: sign_sgn)
  have u: "ucmp (bmag x) (bmag y) = ord_cmp \<bar>bval x\<bar> \<bar>bval y\<bar>"
    using ucmp_lval [OF assms [THEN wf_trimmed]] by (auto simp: ord_cmp_def lval_nat_abs)
  show ?thesis
    by (auto simp: big_cmp_def s u ord_cmp_def sgn_if Let_def split: if_splits)
qed

subsection \<open>Division\<close>

lemma divmod_trunc_val:
  assumes "big_wf x" "big_wf y" "bval y \<noteq> 0"
  shows "bval (fst (big_divmod_trunc x y)) = sgn (bval x) * sgn (bval y) * (\<bar>bval x\<bar> div \<bar>bval y\<bar>)"
    and "bval (snd (big_divmod_trunc x y)) = sgn (bval x) * (\<bar>bval x\<bar> mod \<bar>bval y\<bar>)"
proof -
  obtain q r where qr: "udivmod (bmag x) (bmag y) = (q, r)" by fastforce
  have "bmag y \<noteq> []" using assms by (simp add: bval_0_iff)
  from udivmod_correct(1,2) [OF assms(1,2) [THEN wf_trimmed] this]
  have v: "int (lval q) = \<bar>bval x\<bar> div \<bar>bval y\<bar>" "int (lval r) = \<bar>bval x\<bar> mod \<bar>bval y\<bar>"
    by (simp_all add: qr zdiv_int zmod_int lval_abs)
  show "bval (fst (big_divmod_trunc x y)) = sgn (bval x) * sgn (bval y) * (\<bar>bval x\<bar> div \<bar>bval y\<bar>)"
    "bval (snd (big_divmod_trunc x y)) = sgn (bval x) * (\<bar>bval x\<bar> mod \<bar>bval y\<bar>)"
    using assms by (auto simp: big_divmod_trunc_def qr v bneg_iff sgn_if)
qed

lemma wf_divmod_trunc [simp, big_wf_rules]:
  "big_wf (fst (big_divmod_trunc x y))" "big_wf (snd (big_divmod_trunc x y))"
  by (simp_all add: big_divmod_trunc_def split: prod.split)

lemma trunc_identity: "b \<noteq> 0 \<Longrightarrow> sgn a * sgn b * (\<bar>a\<bar> div \<bar>b\<bar>) * b + sgn a * (\<bar>a\<bar> mod \<bar>b\<bar>) = (a :: int)"
  by (metis abs_sgn mult.assoc mult.commute mult_div_mod_eq mult_sgn_abs distrib_left)

text \<open>Rounding the truncated quotient toward minus infinity gives the library's \<open>div\<close> and \<open>mod\<close>.\<close>

lemma div_mod_unique:
  fixes a b q r :: int
  assumes "a = b * q + r" "0 < b \<and> 0 \<le> r \<and> r < b \<or> b < 0 \<and> r \<le> 0 \<and> b < r"
  shows "a div b = q" "a mod b = r"
  using assms by (auto simp: int_div_pos_eq int_div_neg_eq int_mod_pos_eq int_mod_neg_eq)

lemma floor_of_trunc:
  fixes a b q r :: int
  assumes "b \<noteq> 0" "q * b + r = a" "\<bar>r\<bar> < \<bar>b\<bar>"
    and a: "r < 0 \<Longrightarrow> a < 0" "0 < r \<Longrightarrow> 0 < a"
  shows "r = 0 \<or> (a < 0 \<longleftrightarrow> b < 0) \<Longrightarrow> a div b = q \<and> a mod b = r"
    and "\<not> (r = 0 \<or> (a < 0 \<longleftrightarrow> b < 0)) \<Longrightarrow> a div b = q - 1 \<and> a mod b = r + b"
proof -
  have e: "a = b * q + r" "a = b * (q - 1) + (r + b)" using assms(2) by (simp_all add: algebra_simps)
  show "a div b = q \<and> a mod b = r" if "r = 0 \<or> (a < 0 \<longleftrightarrow> b < 0)"
  proof -
    have "0 < b \<and> 0 \<le> r \<and> r < b \<or> b < 0 \<and> r \<le> 0 \<and> b < r"
      using that assms(1,3) a by (cases "r < 0"; cases "0 < r"; cases "b < 0") simp_all
    with e(1) show ?thesis using div_mod_unique by blast
  qed
  show "a div b = q - 1 \<and> a mod b = r + b" if "\<not> (r = 0 \<or> (a < 0 \<longleftrightarrow> b < 0))"
  proof -
    have "0 < b \<and> 0 \<le> r + b \<and> r + b < b \<or> b < 0 \<and> r + b \<le> 0 \<and> b < r + b"
      using that assms(1,3) a by (cases "r < 0"; cases "0 < r"; cases "b < 0") simp_all
    with e(2) show ?thesis using div_mod_unique by blast
  qed
qed

lemma divmod_floor_val:
  assumes wf: "big_wf x" "big_wf y" and nz: "bval y \<noteq> 0"
  shows "bval (big_div_floor x y) = bval x div bval y" "bval (big_mod_floor x y) = bval x mod bval y"
proof -
  obtain q r where qr: "big_divmod_trunc x y = (q, r)" by fastforce
  have w: "big_wf q" "big_wf r" using wf_divmod_trunc [of x y] by (simp_all add: qr)
  note v = divmod_trunc_val [OF assms, unfolded qr fst_conv snd_conv]
  have id: "bval q * bval y + bval r = bval x" unfolding v by (rule trunc_identity [OF nz])
  have lt: "\<bar>bval r\<bar> < \<bar>bval y\<bar>" using nz by (auto simp: v abs_mult sgn_if)
  have nn: "0 \<le> \<bar>bval x\<bar> mod \<bar>bval y\<bar>" using nz by simp
  then have sg: "bval r < 0 \<Longrightarrow> bval x < 0" "0 < bval r \<Longrightarrow> 0 < bval x"
    by (auto simp: v sgn_if split: if_splits)
  note fl = floor_of_trunc [OF nz id lt sg]
  have "bval (big_div_floor x y) = bval x div bval y \<and> bval (big_mod_floor x y) = bval x mod bval y"
    using fl w wf
    by (cases "bval r = 0 \<or> (bval x < 0 \<longleftrightarrow> bval y < 0)")
      (auto simp: big_div_floor_def big_mod_floor_def big_divmod_floor_def qr is_zero_iff bneg_iff
        bval_add bval_sub)
  then show "bval (big_div_floor x y) = bval x div bval y" "bval (big_mod_floor x y) = bval x mod bval y"
    by auto
qed

lemma wf_divmod_floor [simp, big_wf_rules]:
  "big_wf (big_div_floor x y)" "big_wf (big_mod_floor x y)" "big_wf (big_rem_trunc x y)"
  using wf_divmod_trunc [of x y]
  by (cases "big_divmod_trunc x y";
      simp add: big_div_floor_def big_mod_floor_def big_rem_trunc_def big_divmod_floor_def)+

lemma rem_trunc_val:
  assumes "big_wf x" "big_wf y" "bval y \<noteq> 0"
  shows "bval (big_rem_trunc x y) = sgn (bval x) * (\<bar>bval x\<bar> mod \<bar>bval y\<bar>)"
  using divmod_trunc_val(2) [OF assms] by (simp add: big_rem_trunc_def)

subsection \<open>Shifts\<close>

lemma bval_shl [simp]: "bval (big_shl x n) = bval x * 2 ^ n"
  by (simp add: big_shl_def bval_def [of x])

lemma wf_shl [simp, big_wf_rules]: "big_wf (big_shl x n)"
  by (simp add: big_shl_def)

lemma wf_shr [simp, big_wf_rules]: "big_wf (big_shr x n)"
  by (simp add: big_shr_def Let_def)

lemma floor_neg_div: "(- int a) div int b = - int (a div b) - (if b dvd a then 0 else 1)" if "0 < b"
proof (cases "b dvd a")
  case False
  then have "a mod b \<noteq> 0" by (simp add: dvd_eq_mod_eq_0)
  then have "int a mod int b \<noteq> 0" by (simp flip: of_nat_mod)
  with False show ?thesis using that by (simp add: zdiv_zminus1_eq_if zdiv_int)
next
  case True
  then obtain k where "a = b * k" by blast
  with that show ?thesis by (simp flip: mult_minus_right)
qed

text \<open>A negative value rounds toward minus infinity: the shift is the library's \<open>div\<close>.\<close>

lemma bval_shr:
  assumes "big_wf x"
  shows "bval (big_shr x n) = bval x div 2 ^ n"
proof -
  define L where "L = lval (bmag x)"
  define v where "v = big_make (bneg x) (ushr (bmag x) (n div 32) (n mod 32))"
  have bv: "bval v = (if bneg x then - int (L div 2 ^ n) else int (L div 2 ^ n))"
    by (simp add: v_def L_def)
  have wv: "big_wf v" by (simp add: v_def)
  define w where "w = big_shl (big_abs v) n"
  have "bval w = \<bar>bval v\<bar> * 2 ^ n" by (simp add: w_def)
  then have "lval (bmag w) = L div 2 ^ n * 2 ^ n"
    unfolding lval_nat_abs bv by (simp add: nat_mult_distrib abs_mult nat_power_eq flip: zdiv_int)
  moreover have "trimmed (bmag w)" by (simp add: w_def big_shl_def big_make_def Let_def)
  ultimately have u: "ucmp (bmag w) (bmag x) = Equal \<longleftrightarrow> 2 ^ n dvd L"
    using ucmp_lval [of "bmag w" "bmag x"] wf_trimmed [OF assms]
    by (auto simp: ord_cmp_def L_def dvd_div_mult_self split: if_splits) (metis dvd_triv_right)
  have "big_shr x n = (if bneg x \<and> \<not> 2 ^ n dvd L then big_sub v (big_from_i64 1) else v)"
    unfolding big_shr_def Let_def v_def [symmetric] w_def [symmetric] u ..
  then show ?thesis
    using wv floor_neg_div [of "2 ^ n" L] by (auto simp: bval_sub bv bval_def [of x] L_def [symmetric] zdiv_int)
qed

subsection \<open>Powers\<close>

lemma word_low_bit: "(e AND 1 = (1 :: 'a::len word)) = odd (unat e)"
proof -
  have "odd e \<longleftrightarrow> odd (unat e)"
    using bit_unsigned_iff [of e 0, where ?'a = nat] by (simp add: bit_0 possible_bit_def)
  then show ?thesis by (simp add: and_one_eq odd_iff_mod_2_eq_one [symmetric] del: odd_iff_mod_2_eq_one)
qed

lemma pow_loop_val: "bval (pow_loop r b e) = bval r * bval b ^ unat e"
proof (induction r b e rule: pow_loop.induct)
  case (1 r b e)
  show ?case
  proof (cases "e > 0")
    case True
    have h: "unat (drop_bit (Suc 0) e) = unat e div 2"
      by (subst unat_drop_bit_eq) (simp add: drop_bit_eq_div)
    have z: "0 < drop_bit (Suc 0) e \<longleftrightarrow> 0 < unat e div 2"
      unfolding h [symmetric] by (simp add: unat_gt_0 word_gt_0)
    have "bval b ^ unat e = (bval b * bval b) ^ (unat e div 2) * (if odd (unat e) then bval b else 1)"
      by (simp flip: power2_eq_square power_mult add: power_add [symmetric] flip: power_Suc2)
    with 1 True h z show ?thesis
      by (subst pow_loop.simps) (cases "0 < unat e div 2"; simp add: Let_def word_low_bit)
  next
    case False
    then have "e = 0" by (simp add: word_gt_0)
    then show ?thesis by (simp add: pow_loop.simps)
  qed
qed

lemma bval_pow [simp]: "bval (big_pow x e) = bval x ^ unat e"
  by (simp add: big_pow_def pow_loop_val)

lemma wf_pow_loop: "big_wf r \<Longrightarrow> big_wf (pow_loop r b e)"
  by (induction r b e rule: pow_loop.induct) (subst pow_loop.simps, simp add: Let_def)

lemma wf_pow [simp, big_wf_rules]: "big_wf (big_pow x e)"
  by (simp add: big_pow_def wf_pow_loop)

subsection \<open>Bits\<close>

lemma lval_lt_bit_length:
  assumes "big_wf x"
  shows "lval (bmag x) < 2 ^ big_bit_length x"
proof (cases "bmag x = []")
  case False
  let ?m = "bmag x" and ?z = "leading_zeros (last (bmag x))"
  have nz: "last ?m \<noteq> 0" using False wf_trimmed [OF assms] by (simp add: trimmed_def)
  note lz = leading_zeros_bounds [OF nz]
  have "lval ?m * 2 ^ ?z < B32 ^ length ?m" by (rule scaled_top_fits [OF False nz refl])
  also have "\<dots> = 2 ^ (big_bit_length x + ?z)"
  proof -
    have "32 * length ?m = big_bit_length x + ?z"
      using False lz(1) by (cases ?m) (simp_all add: big_bit_length_def del: last.simps)
    then show ?thesis by (simp only: B32_power)
  qed
  finally show ?thesis by (simp add: power_add)
qed (simp add: big_bit_length_def)

lemma bit_length_le:
  assumes "big_wf x" "bmag x \<noteq> []"
  shows "2 ^ (big_bit_length x - 1) \<le> lval (bmag x)"
proof -
  let ?m = "bmag x" and ?z = "leading_zeros (last (bmag x))"
  have nz: "last ?m \<noteq> 0" using assms(2) wf_trimmed [OF assms(1)] by (simp add: trimmed_def)
  note lz = leading_zeros_bounds [OF nz]
  have "2 ^ (31 - ?z) * 2 ^ ?z \<le> unat (last ?m) * 2 ^ ?z"
    using lz(1,2) by (simp flip: power_add)
  then have "2 ^ (31 - ?z) \<le> unat (last ?m)" by simp
  then have "B32 ^ (length ?m - 1) * 2 ^ (31 - ?z) \<le> lval ?m"
    using lval_last [OF assms(2)] mult_le_mono2 [of _ _ "B32 ^ (length ?m - 1)"] by (metis trans_le_add2)
  moreover have "B32 ^ (length ?m - 1) * 2 ^ (31 - ?z) = 2 ^ (big_bit_length x - 1)"
    using assms(2) lz(1) by (simp add: big_bit_length_def B32_power flip: power_add)
  ultimately show ?thesis by simp
qed

text \<open>Bit \<open>i\<close> of the magnitude, found as the code finds it.\<close>

lemma limb_bit:
  assumes "i div 32 < length m"
  shows "drop_bit (i mod 32) (m ! (i div 32)) AND 1 = 1 \<longleftrightarrow> odd (lval m div 2 ^ i)"
proof -
  let ?k = "i div 32" and ?j = "i mod 32"
  have "drop ?k m = m ! ?k # drop (Suc ?k) m" using assms by (simp add: Cons_nth_drop_Suc)
  then have d: "lval m div B32 ^ ?k = unat (m ! ?k) + B32 * lval (drop (Suc ?k) m)"
    using lval_drop [of ?k m] by simp
  have B: "B32 = 2 ^ ?j * (2 * 2 ^ (31 - ?j))"
    by (simp add: B32_def flip: power_Suc power_add)
  have "lval m div 2 ^ i = lval m div B32 ^ ?k div 2 ^ ?j"
    by (simp add: B32_power flip: power_add div_mult2_eq)
  also have "\<dots> = unat (m ! ?k) div 2 ^ ?j + 2 * 2 ^ (31 - ?j) * lval (drop (Suc ?k) m)"
    unfolding d by (subst B) (simp only: mult.assoc div_mult_self2 [OF power_not_zero] zero_neq_numeral [symmetric] simp_thms)
  finally show ?thesis by (simp add: word_low_bit unat_drop_u32)
qed

lemma is_even_val: "big_is_even x \<longleftrightarrow> even (bval x)"
proof (cases "bmag x")
  case (Cons l m)
  have "l AND 1 = 0 \<longleftrightarrow> \<not> (l AND 1 = 1)" by (simp add: and_one_eq)
  moreover have "even B32" by (simp add: B32_def)
  ultimately show ?thesis
    by (simp add: Cons big_is_even_def bval_def word_low_bit del: of_nat_unat)
qed (simp add: big_is_even_def bval_def)

subsection \<open>Modular powers\<close>

text \<open>The truncated remainder, as a function of integers.\<close>

definition trem :: "int \<Rightarrow> int \<Rightarrow> int" where
  "trem a m = sgn a * (\<bar>a\<bar> mod \<bar>m\<bar>)"

lemma trem_mult: "trem (trem a m * trem b m) m = trem (a * b) m"
proof -
  have t: "\<bar>trem c m\<bar> = \<bar>c\<bar> mod \<bar>m\<bar>" if "m \<noteq> 0" for c
    using that by (auto simp: trem_def abs_mult sgn_if)
  show ?thesis
  proof (cases "m = 0")
    case False
    have "\<bar>trem a m * trem b m\<bar> mod \<bar>m\<bar> = \<bar>a * b\<bar> mod \<bar>m\<bar>"
      using False by (simp add: abs_mult t mod_mult_eq)
    moreover have "sgn (trem a m * trem b m) = sgn (a * b) \<or> \<bar>a * b\<bar> mod \<bar>m\<bar> = 0"
    proof (cases "\<bar>a\<bar> mod \<bar>m\<bar> = 0 \<or> \<bar>b\<bar> mod \<bar>m\<bar> = 0")
      case True
      then show ?thesis by (auto simp: abs_mult mod_eq_0_iff_dvd)
    next
      case nz: False
      then have "0 < \<bar>a\<bar> mod \<bar>m\<bar>" "0 < \<bar>b\<bar> mod \<bar>m\<bar>"
        using False by (metis less_le pos_mod_sign zero_less_abs_iff)+
      then show ?thesis by (simp add: trem_def sgn_mult)
    qed
    ultimately show ?thesis by (auto simp: trem_def)
  qed (simp add: trem_def mult_sgn_abs)
qed

lemma bval_rem_trunc: "big_wf x \<Longrightarrow> big_wf y \<Longrightarrow> bval y \<noteq> 0 \<Longrightarrow> bval (big_rem_trunc x y) = trem (bval x) (bval y)"
  by (simp add: rem_trunc_val trem_def)

lemma mod_Suc_bit: "E mod 2 ^ Suc i = E mod 2 ^ i + (if odd (E div 2 ^ i) then 2 ^ i else 0)" for E :: nat
proof -
  have "E div 2 ^ i mod 2 = (if odd (E div 2 ^ i) then 1 else 0)" by (simp add: odd_iff_mod_2_eq_one)
  then show ?thesis using mod_mult2_eq [of E "2 ^ i" 2] by (simp add: mult.commute)
qed

lemma powm_loop_val:
  assumes "big_wf m" "bval m \<noteq> 0" "i + n \<le> 32 * length (bmag e)"
    and "big_wf r" "big_wf b" "bval r = trem (x ^ (lval (bmag e) mod 2 ^ i)) (bval m)"
    and "0 < n \<Longrightarrow> bval b = trem (x ^ (2 ^ i)) (bval m)"
  shows "bval (powm_loop e m i n r b) = trem (x ^ (lval (bmag e) mod 2 ^ (i + n))) (bval m) \<and>
    big_wf (powm_loop e m i n r b)"
  using assms
proof (induction n arbitrary: i r b)
  case (Suc n)
  let ?E = "lval (bmag e)"
  define c where "c = (drop_bit (i mod 32) (bmag e ! (i div 32)) AND 1 = 1)"
  define r' where "r' = (if c then big_rem_trunc (big_mul r b) m else r)"
  define b' where "b' = (if 0 < n then big_rem_trunc (big_mul b b) m else b)"
  have c: "c \<longleftrightarrow> odd (?E div 2 ^ i)"
    unfolding c_def using Suc.prems(3) by (intro limb_bit) auto
  have "bval r' = trem (x ^ (?E mod 2 ^ Suc i)) (bval m)"
  proof (cases c)
    case True
    then have "?E mod 2 ^ Suc i = ?E mod 2 ^ i + 2 ^ i" using c mod_Suc_bit [of ?E i] by simp
    with True Suc.prems show ?thesis
      by (simp only: r'_def if_True) (simp add: bval_rem_trunc trem_mult power_add del: power_Suc)
  next
    case False
    then have "?E mod 2 ^ Suc i = ?E mod 2 ^ i" using c mod_Suc_bit [of ?E i] by simp
    with False Suc.prems show ?thesis by (simp add: r'_def del: power_Suc)
  qed
  moreover have "0 < n \<Longrightarrow> bval b' = trem (x ^ (2 ^ Suc i)) (bval m)"
    using Suc.prems by (simp add: b'_def bval_rem_trunc trem_mult mult_2 power_add)
  moreover have "big_wf r'" "big_wf b'" using Suc.prems by (simp_all add: r'_def b'_def)
  ultimately have "bval (powm_loop e m (Suc i) n r' b') = trem (x ^ (?E mod 2 ^ (Suc i + n))) (bval m) \<and>
      big_wf (powm_loop e m (Suc i) n r' b')"
    using Suc.prems(1-3) by (intro Suc.IH) auto
  then show ?case by (simp add: c_def [symmetric] r'_def [symmetric] b'_def [symmetric] Let_def)
qed simp

theorem powm_val:
  assumes "big_wf x" "big_wf e" "big_wf m" "bval m \<noteq> 0" "0 \<le> bval e"
  shows "bval (big_powm x e m) = trem (bval x ^ nat (bval e)) (bval m) \<and> big_wf (big_powm x e m)"
proof (cases "bmag m = [1]")
  case True
  then have "\<bar>bval m\<bar> = 1" by (simp flip: lval_abs)
  with True show ?thesis by (simp add: big_powm_def trem_def)
next
  case False
  have "\<bar>bval m\<bar> \<noteq> 1"
  proof
    assume "\<bar>bval m\<bar> = 1"
    then have "lval (bmag m) = lval [1]" by (simp add: lval_nat_abs)
    then have "bmag m = [1]" by (rule trimmed_inj [OF wf_trimmed [OF assms(3)], rotated]) (simp add: trimmed_def)
    with False show False ..
  qed
  then have one: "trem 1 (bval m) = 1" using assms(4) by (simp add: trem_def)
  have len: "big_bit_length e \<le> 32 * length (bmag e)"
    by (cases "bmag e") (auto simp: big_bit_length_def)
  have E: "lval (bmag e) mod 2 ^ big_bit_length e = lval (bmag e)" "lval (bmag e) = nat (bval e)"
    using lval_lt_bit_length [OF assms(2)] assms(5) by (simp_all add: lval_nat_abs)
  show ?thesis
    using powm_loop_val [of m 0 "big_bit_length e" e "big_from_i64 1" "big_rem_trunc x m" "bval x"]
      assms False len E(1) by (simp add: big_powm_def one bval_rem_trunc E(2))
qed

subsection \<open>Square roots\<close>

text \<open>Newton's step never falls below the root, and only stops at it.\<close>

lemma newton_ge:
  fixes N x :: nat
  assumes "0 < x"
  shows "N < ((x + N div x) div 2 + 1)\<^sup>2"
proof -
  define y where "y = (x + N div x) div 2"
  have "x + N div x \<le> 2 * y + 1" unfolding y_def by linarith
  then have "Suc (N div x) \<le> 2 * y + 2 - x" "x \<le> 2 * y + 2" by linarith+
  then have "x * Suc (N div x) \<le> x * (2 * y + 2 - x)" by (intro mult_le_mono2)
  moreover have "N < x * Suc (N div x)" using dividend_less_times_div [OF assms] by simp
  moreover have "x * (2 * y + 2 - x) \<le> (y + 1)\<^sup>2"
  proof -
    have "0 \<le> (int y + 1 - int x)\<^sup>2" by simp
    then have "int x * (2 * int y + 2 - int x) \<le> (int y + 1)\<^sup>2"
      by (simp add: power2_eq_square algebra_simps)
    then have "int (x * (2 * y + 2 - x)) \<le> int ((y + 1)\<^sup>2)"
      using \<open>x \<le> 2 * y + 2\<close> by (simp add: of_nat_diff add.commute)
    then show ?thesis by (simp only: of_nat_le_iff)
  qed
  ultimately show ?thesis unfolding y_def by linarith
qed

lemma newton_stop:
  fixes N x :: nat
  assumes "0 < x" "\<not> (x + N div x) div 2 < x"
  shows "x\<^sup>2 \<le> N"
proof -
  have "x \<le> N div x" using assms(2) by linarith
  then have "x * x \<le> N div x * x" by (rule mult_le_mono1)
  also have "\<dots> \<le> N" by simp
  finally show ?thesis by (simp add: power2_eq_square)
qed

lemma newton_pos: "0 < N \<Longrightarrow> N < (y + 1)\<^sup>2 \<Longrightarrow> N \<noteq> 0 \<Longrightarrow> 0 < y" for N y :: nat
  by (cases y) auto

lemma sqrt_loop_val:
  assumes "big_wf a" "0 < bval a" "big_wf x" "0 < bval x" "nat (bval a) < (nat (bval x) + 1)\<^sup>2"
  shows "\<exists>r. sqrt_loop a x = Some r \<and> big_wf r \<and> 0 < bval r \<and>
    (nat (bval r))\<^sup>2 \<le> nat (bval a) \<and> nat (bval a) < (nat (bval r) + 1)\<^sup>2"
  using assms(3-)
proof (induction "nat (bval x)" arbitrary: x rule: less_induct)
  case less
  define y where "y = big_shr (big_add x (big_div_floor a x)) 1"
  note y = y_def [symmetric, unfolded One_nat_def]
  let ?N = "nat (bval a)" and ?X = "nat (bval x)"
  have by': "bval y = (bval x + bval a div bval x) div 2"
    using less.prems assms by (simp add: y_def bval_shr bval_add divmod_floor_val)
  then have Y: "nat (bval y) = (?X + ?N div ?X) div 2"
    using less.prems assms by (simp add: nat_div_distrib nat_add_distrib pos_imp_zdiv_nonneg_iff)
  have wy: "big_wf y" by (simp add: y_def)
  have c: "big_cmp y x = ord_cmp (bval y) (bval x)" using wy less.prems(1) by (rule big_cmp_val)
  have X: "0 < ?X" using less.prems(2) by simp
  have gt: "?N < (nat (bval y) + 1)\<^sup>2" unfolding Y using X by (rule newton_ge)
  have "0 < nat (bval y)" using gt assms(2) by (cases "nat (bval y)") auto
  then have ypos: "0 < bval y" by simp
  show ?case
  proof (cases "bval y < bval x")
    case True
    then have "sqrt_loop a x = sqrt_loop a y"
      by (subst sqrt_loop.simps) (simp add: y c ord_cmp_def Let_def)
    moreover have "nat (bval y) < ?X" using True less.prems(2) by simp
    ultimately show ?thesis using less.hyps [of y] wy ypos gt by simp
  next
    case False
    then have "sqrt_loop a x = Some x"
      by (subst sqrt_loop.simps) (simp add: y c ord_cmp_def Let_def)
    moreover have "\<not> nat (bval y) < ?X" using False by simp
    then have "?X\<^sup>2 \<le> ?N" unfolding Y by (rule newton_stop [OF X])
    ultimately show ?thesis using less.prems by simp
  qed
qed

lemma isqrt_sum_fits:
  fixes n y :: nat
  assumes "1 < n" "n < 2 ^ 64" "1 \<le> y" "y \<le> (n + 1) div 2" "n < (y + 1)\<^sup>2"
  shows "y + n div y < 2 ^ 64"
proof (cases "y = 1")
  case True
  with assms show ?thesis by (simp add: power2_eq_square)
next
  case False
  with assms(3) have "2 \<le> y" by simp
  then have "n div y \<le> n div 2" by (intro div_le_mono2) auto
  with assms(2,4) show ?thesis
    by (cases "even n") (auto elim!: evenE oddE)
qed

lemma isqrt_loop_val:
  assumes "1 < unat n" "0 < unat x" "unat n < (unat x + 1)\<^sup>2"
    and "unat y = (unat x + unat n div unat x) div 2" "unat y \<le> (unat n + 1) div 2"
  shows "(unat (isqrt_loop n x y))\<^sup>2 \<le> unat n \<and> unat n < (unat (isqrt_loop n x y) + 1)\<^sup>2"
  using assms
proof (induction n x y rule: isqrt_loop.induct)
  case (1 n x y)
  show ?case
  proof (cases "y < x")
    case True
    then have lt: "unat y < unat x" by (simp add: word_less_nat_alt)
    have gt: "unat n < (unat y + 1)\<^sup>2" unfolding "1.prems"(4) by (rule newton_ge [OF "1.prems"(2)])
    have pos: "0 < unat y" using gt "1.prems"(1) by (cases "unat y") auto
    have n: "unat n < 2 ^ 64" using unsigned_less [of n, where ?'a = nat] by simp
    have "unat y + unat n div unat y < 2 ^ 64"
      using isqrt_sum_fits [OF "1.prems"(1) n _ "1.prems"(5) gt] pos by simp
    then have z: "unat ((y + n div y) div 2) = (unat y + unat n div unat y) div 2"
      by (simp add: unat_div_distrib unat_word_ariths)
    have "unat ((y + n div y) div 2) < unat y \<or> (unat y)\<^sup>2 \<le> unat n"
      using newton_stop [OF pos, of "unat n"] unfolding z by blast
    moreover have "isqrt_loop n x y = isqrt_loop n y ((y + n div y) div 2)"
      using True by (subst isqrt_loop.simps) simp
    moreover have "isqrt_loop n y ((y + n div y) div 2) = y" if "\<not> (y + n div y) div 2 < y"
      using that by (subst isqrt_loop.simps) simp
    ultimately show ?thesis
      using "1.IH" [OF True "1.prems"(1) pos gt z] "1.prems"(5) lt gt
      by (cases "(y + n div y) div 2 < y") (auto simp: word_less_nat_alt)
  next
    case False
    then have e: "isqrt_loop n x y = x" by (subst isqrt_loop.simps) simp
    from False have "\<not> unat y < unat x" by (simp add: word_less_nat_alt)
    then show ?thesis unfolding e "1.prems"(4) using newton_stop [OF "1.prems"(2)] "1.prems"(3) by blast
  qed
qed

lemma isqrt_u64_val: "(unat (isqrt_u64 n))\<^sup>2 \<le> unat n \<and> unat n < (unat (isqrt_u64 n) + 1)\<^sup>2"
proof (cases "n < 2")
  case True
  then have "unat n < 2" by (simp add: word_less_nat_alt)
  then have "unat n = 0 \<or> unat n = 1" by linarith
  with True show ?thesis by (auto simp: isqrt_u64_def power2_eq_square)
next
  case False
  then have g: "1 < unat n" by (simp add: word_less_nat_alt)
  have n: "unat n < 2 ^ 64" using unsigned_less [of n, where ?'a = nat] by simp
  have "unat (n div 2 + n mod 2) = unat n div 2 + unat n mod 2"
    using n by (simp add: unat_div_distrib unat_mod_distrib unat_word_ariths)
  also have "\<dots> = (unat n + 1) div 2" by presburger
  finally have y: "unat (n div 2 + n mod 2) = (unat n + 1) div 2" .
  have "unat n < (unat n + 1)\<^sup>2" by (simp add: power2_eq_square)
  with g y False show ?thesis
    using isqrt_loop_val [of n n "n div 2 + n mod 2"] by (simp add: isqrt_u64_def)
qed

theorem sqrt_val:
  assumes "big_wf x" "0 \<le> bval x"
  shows "\<exists>r. big_sqrt x = Some r \<and> big_wf r \<and> 0 \<le> bval r \<and>
    (bval r)\<^sup>2 \<le> bval x \<and> bval x < (bval r + 1)\<^sup>2"
proof (cases "length (bmag x) \<le> 2")
  case True
  have n: "\<not> bneg x" using assms by (simp add: bneg_iff)
  then obtain u where u: "big_to_u64 x = Some u" using True by (simp add: big_to_u64_def)
  have "int (unat u) = bval x"
    using u n True by (rule to_u64_val)
  moreover have "int ((unat (isqrt_u64 u))\<^sup>2) \<le> int (unat u)" "int (unat u) < int ((unat (isqrt_u64 u) + 1)\<^sup>2)"
    using isqrt_u64_val [of u] by (simp_all only: of_nat_le_iff of_nat_less_iff)
  ultimately show ?thesis using True u by (simp add: big_sqrt_def add.commute)
next
  case False
  let ?h = "(big_bit_length x + 1) div 2"
  have pos: "0 < bval x" using False assms bval_0_iff [of x] by fastforce
  have "lval (bmag x) < 2 ^ big_bit_length x" by (rule lval_lt_bit_length [OF assms(1)])
  also have "\<dots> \<le> 2 ^ (2 * ?h)" by (intro power_increasing) auto
  also have "\<dots> = (2 ^ ?h)\<^sup>2" by (simp add: power_mult [symmetric] mult.commute)
  also have "\<dots> \<le> (2 ^ ?h + 1 :: nat)\<^sup>2" by (intro power_mono) auto
  finally have "nat (bval x) < (nat (2 ^ ?h) + 1)\<^sup>2"
    using pos by (simp add: lval_nat_abs nat_power_eq)
  then obtain r where r: "sqrt_loop x (big_shl (big_from_i64 1) ?h) = Some r" "big_wf r" "0 < bval r"
    "(nat (bval r))\<^sup>2 \<le> nat (bval x)" "nat (bval x) < (nat (bval r) + 1)\<^sup>2"
    using sqrt_loop_val [OF assms(1) pos, of "big_shl (big_from_i64 1) ?h"] by auto
  have "int ((nat (bval r))\<^sup>2) \<le> int (nat (bval x))" "int (nat (bval x)) < int ((nat (bval r) + 1)\<^sup>2)"
    using r(4,5) by (simp_all only: of_nat_le_iff of_nat_less_iff)
  then show ?thesis using r(1-3) False pos by (simp add: big_sqrt_def add.commute)
qed

subsection \<open>Greatest common divisor\<close>

lemma gcd_loop_val:
  assumes "big_wf a" "big_wf b" "0 \<le> bval a" "0 \<le> bval b"
  shows "\<exists>g. gcd_loop a b = Some g \<and> big_wf g \<and> bval g = gcd (bval a) (bval b)"
  using assms
proof (induction "nat (bval b)" arbitrary: a b rule: less_induct)
  case less
  show ?case
  proof (cases "bval b = 0")
    case True
    then show ?thesis using less.prems by (subst gcd_loop.simps) (simp add: is_zero_iff)
  next
    case False
    let ?r = "big_rem_trunc a b"
    have r: "bval ?r = bval a mod bval b"
      using less.prems False by (auto simp: rem_trunc_val sgn_if)
    have pos: "0 < bval b" using less.prems False by simp
    then have "nat (bval ?r) < nat (bval b)" "0 \<le> bval ?r" by (simp_all add: r)
    then obtain g where "gcd_loop b ?r = Some g" "big_wf g" "bval g = gcd (bval b) (bval ?r)"
      using less.hyps [of ?r b] less.prems by auto
    moreover have "gcd_loop a b = gcd_loop b ?r"
      using less.prems False by (subst gcd_loop.simps) (simp add: is_zero_iff)
    ultimately show ?thesis by (simp add: r gcd_red_int [symmetric])
  qed
qed

theorem gcd_val:
  assumes "big_wf x" "big_wf y"
  shows "\<exists>g. big_gcd x y = Some g \<and> big_wf g \<and> bval g = gcd (bval x) (bval y)"
  using gcd_loop_val [of "big_abs x" "big_abs y"] assms by (simp add: big_gcd_def wf_abs)

theorem lcm_val:
  assumes "big_wf x" "big_wf y"
  shows "\<exists>l. big_lcm x y = Some l \<and> big_wf l \<and> bval l = lcm (bval x) (bval y)"
proof (cases "bval x = 0 \<or> bval y = 0")
  case False
  obtain g where g: "big_gcd x y = Some g" "big_wf g" "bval g = gcd (bval x) (bval y)"
    using gcd_val [OF assms] by blast
  have nz: "bval g \<noteq> 0" using False g(3) by simp
  have "\<bar>bval x\<bar> div gcd (bval x) (bval y) * \<bar>bval y\<bar> = lcm (bval x) (bval y)"
  proof -
    let ?g = "gcd (bval x) (bval y)"
    have "\<bar>bval x\<bar> div ?g * \<bar>bval y\<bar> = \<bar>bval x\<bar> * \<bar>bval y\<bar> div ?g" by (rule dvd_div_mult) simp
    also have "\<dots> = ?g * lcm (bval x) (bval y) div ?g" by (simp only: prod_gcd_lcm_int)
    also have "\<dots> = lcm (bval x) (bval y)" by (rule nonzero_mult_div_cancel_left) (use nz g(3) in simp)
    finally show ?thesis .
  qed
  then show ?thesis
    using False assms g nz by (simp add: big_lcm_def is_zero_iff divmod_floor_val wf_abs)
qed (use assms in \<open>auto simp: big_lcm_def is_zero_iff\<close>)

end
