(* ===== verification/BigBits.thy ===== *)
theory BigBits
  imports BigInt
begin

text \<open>
  The bit operations of \<open>src/bigint.rs\<close>: \<open>bitop\<close> over the two's complement limbs (\<open>twos\<close>,
  \<open>two_comp\<close>), \<open>and\<close>, \<open>or\<close>, \<open>xor\<close>, \<open>not\<close>, \<open>two_comp_mag\<close>. They are the operations
  \<open>AND\<close>, \<open>OR\<close>, \<open>XOR\<close>, \<open>NOT\<close> of \<open>int\<close>. What the three binary operations share is a locale:
  an operation on limbs and one on integers that both act bit by bit.
\<close>

section \<open>The operations\<close>

text \<open>\<open>two_comp\<close>: \<open>v = ~v + c; c = (v == 0 && c)\<close>.\<close>

definition two_comp :: "limb \<Rightarrow> bool \<Rightarrow> limb \<times> bool" where
  "two_comp v c = (let t = NOT v + (if c then 1 else 0) in (t, t = 0 \<and> c))"

fun two_comps :: "limb list \<Rightarrow> bool \<Rightarrow> limb list" where
  "two_comps [] c = []"
| "two_comps (v # vs) c = (let (t, c') = two_comp v c in t # two_comps vs c')"

definition twos :: "bigint \<Rightarrow> nat \<Rightarrow> limb list" where
  "twos x n =
     (let ls = map (limb_at (bmag x)) [0..<n] in if \<not> bneg x then ls else two_comps ls True)"

definition bitop :: "(limb \<Rightarrow> limb \<Rightarrow> limb) \<Rightarrow> bigint \<Rightarrow> bigint \<Rightarrow> bigint" where
  "bitop f a b =
     (let n = max (length (bmag a)) (length (bmag b)) + 1;
          x = twos a n; y = twos b n;
          z = map (\<lambda>i. f (x ! i) (y ! i)) [0..<n];
          neg = (z ! (n - 1) \<noteq> 0)
      in big_make neg (if neg then two_comps z True else z))"

definition big_and :: "bigint \<Rightarrow> bigint \<Rightarrow> bigint" where
  "big_and x y =
     (if big_is_zero x \<or> big_is_zero y then big_zero
      else if \<not> bneg x \<and> \<not> bneg y
      then big_make False (map (\<lambda>i. bmag x ! i AND bmag y ! i)
             [0..<min (length (bmag x)) (length (bmag y))])
      else bitop (AND) x y)"

definition big_or :: "bigint \<Rightarrow> bigint \<Rightarrow> bigint" where
  "big_or x y =
     (if big_is_zero x then y else if big_is_zero y then x
      else if \<not> bneg x \<and> \<not> bneg y
      then big_make False (map (\<lambda>i. limb_at (bmag x) i OR limb_at (bmag y) i)
             [0..<max (length (bmag x)) (length (bmag y))])
      else bitop (OR) x y)"

definition big_xor :: "bigint \<Rightarrow> bigint \<Rightarrow> bigint" where
  "big_xor x y =
     (if big_is_zero x then y else if big_is_zero y then x
      else if \<not> bneg x \<and> \<not> bneg y
      then big_make False (map (\<lambda>i. limb_at (bmag x) i XOR limb_at (bmag y) i)
             [0..<max (length (bmag x)) (length (bmag y))])
      else bitop (XOR) x y)"

definition big_not :: "bigint \<Rightarrow> bigint" where
  "big_not x = big_sub (big_neg x) (big_from_i64 1)"

definition two_comp_mag :: "bigint \<Rightarrow> mag" where
  "two_comp_mag x = two_comps (bmag x) True"

section \<open>Bits of a magnitude\<close>

lemma bit_lval: "bit (lval m) i \<longleftrightarrow> bit (limb_at m (i div 32)) (i mod 32)"
proof (cases "i div 32 < length m")
  case True
  have "bit (lval m) i \<longleftrightarrow> drop_bit (i mod 32) (m ! (i div 32)) AND 1 = 1"
    by (simp add: bit_iff_odd limb_bit [OF True])
  also have "\<dots> \<longleftrightarrow> bit (m ! (i div 32)) (i mod 32)"
    by (simp add: word_low_bit unat_drop_u32 bit_unat)
  finally show ?thesis using True by (simp add: limb_at_def)
next
  case False
  then have "length m \<le> i div 32" by simp
  have "lval m < 2 ^ (32 * length m)" using lval_bound [of m] by (simp add: B32_power)
  also have "\<dots> \<le> 2 ^ i" using \<open>length m \<le> i div 32\<close> by (intro power_increasing) auto
  finally show ?thesis using False by (simp add: bit_iff_odd limb_at_def)
qed

lemma bit_int_lval: "bit (int (lval m)) i \<longleftrightarrow> bit (limb_at m (i div 32)) (i mod 32)"
  by (simp add: bit_of_nat_iff_bit bit_lval)

lemma limb_at_map: "limb_at (map h [0..<n]) i = (if i < n then h i else 0)"
  by (simp add: limb_at_def)

lemma length_two_comps [simp]: "length (two_comps vs c) = length vs"
  by (induction vs c rule: two_comps.induct) (simp_all split: prod.split)

lemma length_twos [simp]: "length (twos x n) = n"
  by (simp add: twos_def Let_def)

lemma two_comp_val:
  assumes "two_comp v c = (t, c')"
  shows "int (unat t) = (- int (unat v) - (if c then 0 else 1)) mod int B32"
    and "c' \<longleftrightarrow> c \<and> unat v = 0"
proof -
  have t: "t = (if c then - v else - v - 1)" and c': "c' = (t = 0 \<and> c)"
    using assms by (auto simp: two_comp_def Let_def not_eq_complement)
  show "int (unat t) = (- int (unat v) - (if c then 0 else 1)) mod int B32"
    unfolding t by (simp add: uint_word_ariths B32_def mod_simps)
  show "c' \<longleftrightarrow> c \<and> unat v = 0"
    unfolding c' t by (auto simp: unat_eq_0)
qed

lemma two_comps_val:
  "int (lval (two_comps vs c)) = (- int (lval vs) - (if c then 0 else 1)) mod int (B32 ^ length vs)"
proof (induction vs arbitrary: c)
  case (Cons v vs)
  obtain t c' where tc: "two_comp v c = (t, c')" by fastforce
  note t = two_comp_val [OF tc]
  define e :: int where "e = - int (unat v) - (if c then 0 else 1)"
  have "- int B32 \<le> e" "e \<le> 0" using unat_u32_lt [of v] by (auto simp: e_def simp del: of_nat_unat)
  moreover have "e = 0 \<longleftrightarrow> c'" unfolding e_def t(2) by (auto simp del: of_nat_unat)
  ultimately have d: "e div int B32 = (if c' then 0 else -1)"
    by (cases "c'") (simp_all add: div_pos_neg_trivial int_div_pos_eq [where r = "e + int B32"])
  define L where "L = int (lval vs)"
  have B0: "int B32 \<noteq> 0" by simp
  have dv: "(e + int B32 * (- L)) div int B32 = - L - (if c' then 0 else 1)"
    "(e + int B32 * (- L)) mod int B32 = e mod int B32"
    using d by (simp_all only: div_mult_self2 [OF B0] mod_mult_self2) auto
  have "int (lval (two_comps (v # vs) c)) =
      e mod int B32 + int B32 * ((- L - (if c' then 0 else 1)) mod int (B32 ^ length vs))"
    by (simp add: tc Cons t(1) e_def L_def del: of_nat_unat of_nat_power)
  also have "\<dots> = (e + int B32 * (- L)) mod (int B32 * int (B32 ^ length vs))"
    unfolding dv [symmetric] by (simp add: zmod_zmult2_eq)
  finally show ?case by (simp add: e_def L_def algebra_simps del: of_nat_unat)
qed simp

lemma twos_val:
  assumes "length (bmag x) \<le> n"
  shows "int (lval (twos x n)) = take_bit (32 * n) (bval x)"
proof -
  have pad: "lval (map (limb_at (bmag x)) [0..<n]) = lval (bmag x)"
  proof (rule bit_eqI)
    fix i
    show "bit (lval (map (limb_at (bmag x)) [0..<n])) i = bit (lval (bmag x)) i"
      using assms by (simp add: bit_lval limb_at_map) (simp add: limb_at_def)
  qed
  have "lval (bmag x) < B32 ^ n"
    using less_le_trans [OF lval_bound [of "bmag x"] power_increasing [OF assms, of B32]] by simp
  then have "int (lval (bmag x)) < 2 ^ (32 * n)"
    unfolding B32_power by (metis of_nat_less_iff of_nat_power of_nat_numeral)
  then show ?thesis
    by (auto simp: twos_def Let_def two_comps_val pad bval_def take_bit_eq_mod B32_power)
qed

section \<open>Operations that act bit by bit\<close>

text \<open>
  \<open>bitop\<close> relies on its operand through this interface: \<open>f\<close> is the operation on limbs it is
  called with, \<open>F\<close> the operation on integers it is to compute, both \<open>g\<close> on every bit.
\<close>

locale limb_op =
  fixes f :: "limb \<Rightarrow> limb \<Rightarrow> limb" and F :: "int \<Rightarrow> int \<Rightarrow> int" and g :: "bool \<Rightarrow> bool \<Rightarrow> bool"
  assumes f_bit: "i < 32 \<Longrightarrow> bit (f a b) i = g (bit a i) (bit b i)"
    and F_bit: "bit (F x y) i = g (bit x i) (bit y i)"
    and g_False: "\<not> g False False"

text \<open>Above the magnitude every bit of an integer is its sign.\<close>

lemma drop_bit_sign:
  assumes "length (bmag x) \<le> n"
  shows "drop_bit (32 * n) (bval x) = (if bval x < 0 then -1 else 0)"
proof -
  have "lval (bmag x) < B32 ^ n"
    using less_le_trans [OF lval_bound [of "bmag x"] power_increasing [OF assms, of B32]] by simp
  then have "\<bar>bval x\<bar> < 2 ^ (32 * n)"
    unfolding B32_power lval_nat_abs by (simp add: nat_less_iff)
  then show ?thesis
    by (auto simp: drop_bit_eq_div div_pos_pos_trivial intro!: int_div_pos_eq [where r = "bval x + 2 ^ (32 * n)"])
qed

context limb_op
begin

lemma lval_zip:
  assumes "length x = n" "length y = n" "int (lval x) = take_bit (32 * n) X" "int (lval y) = take_bit (32 * n) Y"
  shows "int (lval (map (\<lambda>i. f (x ! i) (y ! i)) [0..<n])) = take_bit (32 * n) (F X Y)"
proof (rule bit_eqI)
  fix i
  have b: "bit (limb_at x (i div 32)) (i mod 32) \<longleftrightarrow> i < 32 * n \<and> bit X i"
    "bit (limb_at y (i div 32)) (i mod 32) \<longleftrightarrow> i < 32 * n \<and> bit Y i"
    by (simp_all add: assms bit_take_bit_iff flip: bit_int_lval)
  have n: "i div 32 < n \<longleftrightarrow> i < 32 * n" by linarith
  have "bit (int (lval (map (\<lambda>i. f (x ! i) (y ! i)) [0..<n]))) i \<longleftrightarrow>
      i div 32 < n \<and> g (bit (limb_at x (i div 32)) (i mod 32)) (bit (limb_at y (i div 32)) (i mod 32))"
    using assms(1,2) by (auto simp: bit_int_lval limb_at_map f_bit) (auto simp: limb_at_def)
  also have "\<dots> \<longleftrightarrow> bit (take_bit (32 * n) (F X Y)) i"
    unfolding b n by (cases "i < 32 * n") (simp_all add: bit_take_bit_iff F_bit)
  finally show "bit (int (lval (map (\<lambda>i. f (x ! i) (y ! i)) [0..<n]))) i = bit (take_bit (32 * n) (F X Y)) i" .
qed

lemma drop_bit_op:
  assumes "drop_bit k X = (if X < 0 then -1 else 0)" "drop_bit k Y = (if Y < 0 then -1 else 0)"
  shows "drop_bit k (F X Y) = (if g (X < 0) (Y < 0) then -1 else 0)"
proof (rule bit_eqI)
  fix i
  have "bit X (k + i) = (X < 0)" "bit Y (k + i) = (Y < 0)"
    using arg_cong [OF assms(1), of "\<lambda>z. bit z i"] arg_cong [OF assms(2), of "\<lambda>z. bit z i"]
    by (auto simp: bit_drop_bit_eq)
  then show "bit (drop_bit k (F X Y)) i = bit (if g (X < 0) (Y < 0) then -1 else (0 :: int)) i"
    by (simp add: bit_drop_bit_eq F_bit)
qed

lemma bval_bitop: "bval (bitop f x y) = F (bval x) (bval y)"
proof -
  define m where "m = max (length (bmag x)) (length (bmag y))"
  define V where "V = F (bval x) (bval y)"
  define z where "z = map (\<lambda>i. f (twos x (Suc m) ! i) (twos y (Suc m) ! i)) [0..<Suc m]"
  define s where "s = g (bval x < 0) (bval y < 0)"
  have lz: "length z = Suc m" by (simp add: z_def)
  have z: "int (lval z) = take_bit (32 * Suc m) V"
    unfolding z_def V_def by (intro lval_zip twos_val length_twos) (auto simp: m_def)
  have top: "drop_bit (32 * m) V = (if s then -1 else 0)"
    unfolding V_def s_def by (intro drop_bit_op drop_bit_sign) (auto simp: m_def)
  have bits: "bit (z ! m) j \<longleftrightarrow> s" if "j < 32" for j
  proof -
    have "bit (z ! m) j = bit (int (lval z)) (32 * m + j)"
      using that by (simp add: bit_int_lval limb_at_def lz)
    also have "\<dots> = bit (drop_bit (32 * m) V) j" using that by (simp add: z bit_take_bit_iff bit_drop_bit_eq)
    finally show ?thesis by (simp add: top)
  qed
  have neg: "z ! m \<noteq> 0 \<longleftrightarrow> s"
  proof
    show "s \<Longrightarrow> z ! m \<noteq> 0" using bits [of 0] by auto
    show "z ! m \<noteq> 0 \<Longrightarrow> s" using bits by (auto intro: bit_word_eqI)
  qed
  have V: "V = 2 ^ (32 * m) * drop_bit (32 * m) V + take_bit (32 * m) V"
    by (simp add: drop_bit_eq_div take_bit_eq_mod)
  have tb: "0 \<le> take_bit (32 * m) V" "take_bit (32 * m) V < 2 ^ (32 * m)" by simp_all
  have pw: "(2 :: int) ^ (32 * m) < 2 ^ (32 * Suc m)" by (intro power_strict_increasing) auto
  have e: "bitop f x y = big_make s (if s then two_comps z True else z)"
    unfolding bitop_def Let_def m_def [symmetric] z_def [symmetric, unfolded Suc_eq_plus1]
    using neg by (auto simp flip: z_def)
  show ?thesis
  proof (cases s)
    case True
    then have "V = take_bit (32 * m) V - 2 ^ (32 * m)" using V top by simp
    then have "V < 0" "- V \<le> 2 ^ (32 * m)" using tb by linarith+
    have "int (lval (two_comps z True)) = (- take_bit (32 * Suc m) V) mod 2 ^ (32 * Suc m)"
      by (simp add: two_comps_val z lz B32_power del: power_Suc)
    also have "\<dots> = (- V) mod 2 ^ (32 * Suc m)" by (simp only: take_bit_eq_mod mod_minus_eq)
    also have "\<dots> = - V" using \<open>V < 0\<close> \<open>- V \<le> _\<close> pw by (intro mod_pos_pos_trivial) linarith+
    finally show ?thesis by (simp add: e True V_def)
  next
    case False
    then have "V = take_bit (32 * m) V" using V top by simp
    then have "0 \<le> V" "V < 2 ^ (32 * m)" using tb by linarith+
    then have "take_bit (32 * Suc m) V = V"
      using pw by (simp only: take_bit_int_eq_self_iff simp_thms)
    with False z show ?thesis by (simp add: e V_def)
  qed
qed

lemma bval_zip_nonneg:
  assumes "0 \<le> bval x" "0 \<le> bval y"
    and h: "\<And>i. i < n \<Longrightarrow> h i = f (limb_at (bmag x) i) (limb_at (bmag y) i)"
    and out: "\<And>i j. n \<le> i \<Longrightarrow> \<not> g (bit (limb_at (bmag x) i) j) (bit (limb_at (bmag y) i) j)"
  shows "bval (big_make False (map h [0..<n])) = F (bval x) (bval y)"
proof -
  have v: "bval x = int (lval (bmag x))" "bval y = int (lval (bmag y))" using assms(1,2) lval_abs [of x] lval_abs [of y] by simp_all
  have "int (lval (map h [0..<n])) = F (bval x) (bval y)"
  proof (rule bit_eqI)
    fix i
    show "bit (int (lval (map h [0..<n]))) i = bit (F (bval x) (bval y)) i"
      using out [of "i div 32" "i mod 32"]
      by (cases "i div 32 < n") (simp_all add: v bit_int_lval limb_at_map F_bit h f_bit)
  qed
  then show ?thesis by simp
qed

end

interpretation land: limb_op "(AND)" "(AND)" "(\<and>)"
  by unfold_locales (simp_all add: bit_and_iff)

interpretation lor: limb_op "(OR)" "(OR)" "(\<or>)"
  by unfold_locales (simp_all add: bit_or_iff)

interpretation lxor: limb_op "(XOR)" "(XOR)" "(\<noteq>)"
  by unfold_locales (simp_all add: bit_xor_iff)

section \<open>The operations of \<open>int\<close>\<close>

theorem bval_and:
  assumes "big_wf x" "big_wf y"
  shows "bval (big_and x y) = bval x AND bval y"
proof (cases "\<not> bneg x \<and> \<not> bneg y")
  case True
  then have n: "0 \<le> bval x" "0 \<le> bval y" using assms by (auto simp: bneg_iff)
  have "bval (big_make False (map (\<lambda>i. bmag x ! i AND bmag y ! i)
      [0..<min (length (bmag x)) (length (bmag y))])) = bval x AND bval y"
    using n by (rule land.bval_zip_nonneg) (auto simp: limb_at_def)
  with True assms show ?thesis by (auto simp: big_and_def is_zero_iff)
next
  case False
  with assms show ?thesis by (auto simp: big_and_def is_zero_iff land.bval_bitop)
qed

theorem bval_or:
  assumes "big_wf x" "big_wf y"
  shows "bval (big_or x y) = bval x OR bval y"
proof (cases "\<not> bneg x \<and> \<not> bneg y")
  case True
  then have n: "0 \<le> bval x" "0 \<le> bval y" using assms by (auto simp: bneg_iff)
  have "bval (big_make False (map (\<lambda>i. limb_at (bmag x) i OR limb_at (bmag y) i)
      [0..<max (length (bmag x)) (length (bmag y))])) = bval x OR bval y"
    using n by (rule lor.bval_zip_nonneg) (auto simp: limb_at_def)
  with True assms show ?thesis by (auto simp: big_or_def is_zero_iff)
next
  case False
  with assms show ?thesis by (auto simp: big_or_def is_zero_iff lor.bval_bitop)
qed

theorem bval_xor:
  assumes "big_wf x" "big_wf y"
  shows "bval (big_xor x y) = bval x XOR bval y"
proof (cases "\<not> bneg x \<and> \<not> bneg y")
  case True
  then have n: "0 \<le> bval x" "0 \<le> bval y" using assms by (auto simp: bneg_iff)
  have "bval (big_make False (map (\<lambda>i. limb_at (bmag x) i XOR limb_at (bmag y) i)
      [0..<max (length (bmag x)) (length (bmag y))])) = bval x XOR bval y"
    using n by (rule lxor.bval_zip_nonneg) (auto simp: limb_at_def)
  with True assms show ?thesis by (auto simp: big_xor_def is_zero_iff)
next
  case False
  with assms show ?thesis by (auto simp: big_xor_def is_zero_iff lxor.bval_bitop)
qed

lemma wf_bits [simp, big_wf_rules]:
  assumes "big_wf x" "big_wf y"
  shows "big_wf (big_and x y)" "big_wf (big_or x y)" "big_wf (big_xor x y)" "big_wf (big_not x)"
  using assms by (simp_all add: big_and_def big_or_def big_xor_def big_not_def bitop_def Let_def)

theorem bval_not: "bval (big_not x) = NOT (bval x)"
  by (simp add: big_not_def bval_sub not_eq_complement)

text \<open>The digits \<open>sprintf\<close> prints for a negative number: the magnitude's complement to the base.\<close>

theorem two_comp_mag_val:
  "int (lval (two_comp_mag x)) = (- int (lval (bmag x))) mod int (B32 ^ length (bmag x))"
  by (simp add: two_comp_mag_def two_comps_val)

end
