(* ===== verification/Value.thy ===== *)
theory Value
  imports Prelude
begin

text \<open>
  \<open>src/value.rs\<close>: \<open>Value\<close>, an immediate or the handle of a heap object. A double is its bit
  pattern, with the comparison of IEEE 754 that Rust's \<open>==\<close> on \<open>f64\<close> is (a NaN differs from
  everything, the two zeros are equal). \<open>Slot\<close> is a transparent wrapper of \<open>Value\<close>
  (\<open>repr(transparent)\<close>, \<open>get\<close> and \<open>from\<close> the identity), so the model has only \<open>rvalue\<close>.
\<close>

type_synonym obj_id = u32
type_synonym sym = u32
type_synonym f64 = u64
type_synonym bytes = "u8 list"

datatype rvalue = VNil | VFalse | VTrue | VInt i64 | VFloat f64 | VSym sym | VObj obj_id

section \<open>Doubles\<close>

definition f64_nan :: "f64 \<Rightarrow> bool" where
  "f64_nan x \<longleftrightarrow> drop_bit 52 x AND 0x7FF = 0x7FF \<and> x AND 0x000FFFFFFFFFFFFF \<noteq> 0"

definition f64_is_zero :: "f64 \<Rightarrow> bool" where
  "f64_is_zero x \<longleftrightarrow> x AND 0x7FFFFFFFFFFFFFFF = 0"

definition f64_eq :: "f64 \<Rightarrow> f64 \<Rightarrow> bool" where
  "f64_eq x y \<longleftrightarrow> \<not> f64_nan x \<and> \<not> f64_nan y \<and> (x = y \<or> f64_is_zero x \<and> f64_is_zero y)"

lemma f64_zero_not_nan: "f64_is_zero x \<Longrightarrow> \<not> f64_nan x"
proof -
  assume z: "f64_is_zero x"
  have "x AND 0x000FFFFFFFFFFFFF = (x AND 0x7FFFFFFFFFFFFFFF) AND 0x000FFFFFFFFFFFFF"
    by (simp add: and.assoc)
  also have "\<dots> = 0" using z by (simp add: f64_is_zero_def)
  finally show ?thesis by (simp add: f64_nan_def)
qed

lemma f64_eq_sym: "f64_eq x y = f64_eq y x"
  by (auto simp: f64_eq_def)

lemma f64_eq_trans: "f64_eq x y \<Longrightarrow> f64_eq y z \<Longrightarrow> f64_eq x z"
  by (auto simp: f64_eq_def)

lemma f64_eq_refl: "f64_eq x x \<longleftrightarrow> \<not> f64_nan x"
  by (auto simp: f64_eq_def)

section \<open>Values\<close>

text \<open>The derived \<open>PartialEq\<close>, which \<open>same\<close> is.\<close>

fun value_eq :: "rvalue \<Rightarrow> rvalue \<Rightarrow> bool" where
  "value_eq (VFloat x) (VFloat y) = f64_eq x y"
| "value_eq a b = (a = b)"

definition value_same :: "rvalue \<Rightarrow> rvalue \<Rightarrow> bool" where
  "value_same a b = value_eq a b"

definition truthy :: "rvalue \<Rightarrow> bool" where
  "truthy v \<longleftrightarrow> \<not> (v = VNil \<or> v = VFalse)"

definition is_nil :: "rvalue \<Rightarrow> bool" where
  "is_nil v \<longleftrightarrow> v = VNil"

definition value_bool :: "bool \<Rightarrow> rvalue" where
  "value_bool b = (if b then VTrue else VFalse)"

fun value_obj :: "rvalue \<Rightarrow> obj_id option" where
  "value_obj (VObj o') = Some o'"
| "value_obj _ = None"

lemma truthy_bool [simp]: "truthy (value_bool b) = b"
  by (simp add: truthy_def value_bool_def)

lemma value_eq_sym: "value_eq a b = value_eq b a"
  by (cases a; cases b) (auto simp: f64_eq_sym)

lemma value_eq_trans: "value_eq a b \<Longrightarrow> value_eq b c \<Longrightarrow> value_eq a c"
  by (cases a; cases b; cases c) (auto intro: f64_eq_trans)

lemma value_obj_Some: "value_obj v = Some o' \<longleftrightarrow> v = VObj o'"
  by (cases v) auto

end
