(* ===== verification/ArrayData.thy ===== *)
theory ArrayData
  imports Value
begin

text \<open>
  \<open>ArrayData\<close> of \<open>src/object.rs\<close>: the elements of an Array as a buffer and the index in it
  where they start, so that \<open>shift\<close> is O(1). \<open>ary_elems\<close> is what Ruby sees; every operation
  is shown to be the list operation it stands for, and to keep the room in front nil-filled
  (\<open>ary_inv\<close>). \<open>None\<close> is a panic of the \<open>Vec\<close> operation (an index out of range).
\<close>

record array_data =
  ary_buf :: "rvalue list"
  ary_start :: nat

definition ARY_SHIFT_SLACK :: nat where "ARY_SHIFT_SLACK = 16"

definition ary_new :: array_data where
  "ary_new = \<lparr>ary_buf = [], ary_start = 0\<rparr>"

definition ary_of :: "rvalue list \<Rightarrow> array_data" where
  "ary_of b = \<lparr>ary_buf = b, ary_start = 0\<rparr>"

definition ary_len :: "array_data \<Rightarrow> nat" where
  "ary_len a = length (ary_buf a) - ary_start a"

definition ary_is_empty :: "array_data \<Rightarrow> bool" where
  "ary_is_empty a \<longleftrightarrow> length (ary_buf a) = ary_start a"

text \<open>\<open>as_slice\<close>, which \<open>Deref\<close> answers.\<close>

definition ary_elems :: "array_data \<Rightarrow> rvalue list" where
  "ary_elems a = drop (ary_start a) (ary_buf a)"

definition ary_compact :: "array_data \<Rightarrow> array_data" where
  "ary_compact a =
     (if ary_start a > ary_len a \<and> ary_start a > ARY_SHIFT_SLACK
      then \<lparr>ary_buf = drop (ary_start a) (ary_buf a), ary_start = 0\<rparr> else a)"

definition ary_push :: "array_data \<Rightarrow> rvalue \<Rightarrow> array_data" where
  "ary_push a v = a\<lparr>ary_buf := ary_buf a @ [v]\<rparr>"

definition ary_pop :: "array_data \<Rightarrow> array_data \<times> rvalue option" where
  "ary_pop a = (if ary_is_empty a then (a, None)
     else if ary_buf a = [] then (a, None)
     else (a\<lparr>ary_buf := butlast (ary_buf a)\<rparr>, Some (last (ary_buf a))))"

definition ary_clear :: "array_data \<Rightarrow> array_data" where
  "ary_clear a = \<lparr>ary_buf = [], ary_start = 0\<rparr>"

definition ary_truncate :: "array_data \<Rightarrow> nat \<Rightarrow> array_data" where
  "ary_truncate a n = a\<lparr>ary_buf := take (ary_start a + n) (ary_buf a)\<rparr>"

definition vec_resize :: "'a list \<Rightarrow> nat \<Rightarrow> 'a \<Rightarrow> 'a list" where
  "vec_resize xs n v = take n xs @ replicate (n - length xs) v"

definition ary_resize :: "array_data \<Rightarrow> nat \<Rightarrow> rvalue \<Rightarrow> array_data" where
  "ary_resize a n v = a\<lparr>ary_buf := vec_resize (ary_buf a) (ary_start a + n) v\<rparr>"

definition ary_extend :: "array_data \<Rightarrow> rvalue list \<Rightarrow> array_data" where
  "ary_extend a vs = a\<lparr>ary_buf := ary_buf a @ vs\<rparr>"

definition ary_split_off :: "array_data \<Rightarrow> nat \<Rightarrow> (array_data \<times> rvalue list) option" where
  "ary_split_off a at =
     (if ary_start a + at > length (ary_buf a) then None
      else Some (a\<lparr>ary_buf := take (ary_start a + at) (ary_buf a)\<rparr>, drop (ary_start a + at) (ary_buf a)))"

definition ary_shift :: "array_data \<Rightarrow> array_data \<times> rvalue option" where
  "ary_shift a =
     (if ary_is_empty a then (a, None)
      else let v = ary_buf a ! ary_start a
           in (ary_compact \<lparr>ary_buf = (ary_buf a)[ary_start a := VNil], ary_start = Suc (ary_start a)\<rparr>, Some v))"

definition ary_shift_n :: "array_data \<Rightarrow> nat \<Rightarrow> array_data \<times> rvalue list" where
  "ary_shift_n a n =
     (let m = min n (ary_len a);
          out = take m (drop (ary_start a) (ary_buf a));
          buf = take (ary_start a) (ary_buf a) @ replicate m VNil @ drop (ary_start a + m) (ary_buf a)
      in (ary_compact \<lparr>ary_buf = buf, ary_start = ary_start a + m\<rparr>, out))"

definition ary_unshift :: "array_data \<Rightarrow> rvalue list \<Rightarrow> array_data" where
  "ary_unshift a vs =
     (if length vs \<le> ary_start a
      then let s = ary_start a - length vs
           in \<lparr>ary_buf = take s (ary_buf a) @ vs @ drop (s + length vs) (ary_buf a), ary_start = s\<rparr>
      else a\<lparr>ary_buf := take (ary_start a) (ary_buf a) @ vs @ drop (ary_start a) (ary_buf a)\<rparr>)"

definition ary_insert :: "array_data \<Rightarrow> nat \<Rightarrow> rvalue \<Rightarrow> array_data option" where
  "ary_insert a i v =
     (if i = 0 \<and> ary_start a > 0
      then let s = ary_start a - 1 in Some \<lparr>ary_buf = (ary_buf a)[s := v], ary_start = s\<rparr>
      else if ary_start a + i > length (ary_buf a) then None
      else Some (a\<lparr>ary_buf := take (ary_start a + i) (ary_buf a) @ v # drop (ary_start a + i) (ary_buf a)\<rparr>))"

definition ary_remove :: "array_data \<Rightarrow> nat \<Rightarrow> (array_data \<times> rvalue) option" where
  "ary_remove a i =
     (if i = 0 then (case ary_shift a of (a', Some v) \<Rightarrow> Some (a', v) | (a', None) \<Rightarrow> None)
      else if ary_start a + i \<ge> length (ary_buf a) then None
      else Some (a\<lparr>ary_buf := take (ary_start a + i) (ary_buf a) @ drop (Suc (ary_start a + i)) (ary_buf a)\<rparr>,
                 ary_buf a ! (ary_start a + i)))"

definition ary_drain_range :: "array_data \<Rightarrow> nat \<Rightarrow> nat \<Rightarrow> (array_data \<times> rvalue list) option" where
  "ary_drain_range a f t =
     (if f = 0 then Some (ary_shift_n a t)
      else if f > t \<or> ary_start a + t > length (ary_buf a) then None
      else Some (a\<lparr>ary_buf := take (ary_start a + f) (ary_buf a) @ drop (ary_start a + t) (ary_buf a)\<rparr>,
                 take (t - f) (drop (ary_start a + f) (ary_buf a))))"

definition ary_splice_range :: "array_data \<Rightarrow> nat \<Rightarrow> nat \<Rightarrow> rvalue list \<Rightarrow> array_data option" where
  "ary_splice_range a f t vs =
     (if f = 0 \<and> t = 0 then Some (ary_unshift a vs)
      else if f > t \<or> ary_start a + t > length (ary_buf a) then None
      else Some (a\<lparr>ary_buf := take (ary_start a + f) (ary_buf a) @ vs @ drop (ary_start a + t) (ary_buf a)\<rparr>))"

section \<open>The invariant\<close>

definition ary_inv :: "array_data \<Rightarrow> bool" where
  "ary_inv a \<longleftrightarrow> ary_start a \<le> length (ary_buf a) \<and> (\<forall>i < ary_start a. ary_buf a ! i = VNil)"

lemma ary_len_elems [simp]: "ary_len a = length (ary_elems a)"
  by (simp add: ary_len_def ary_elems_def)

lemma ary_empty_elems: "ary_inv a \<Longrightarrow> ary_is_empty a \<longleftrightarrow> ary_elems a = []"
  by (auto simp: ary_is_empty_def ary_elems_def ary_inv_def)

lemma ary_split: "ary_inv a \<Longrightarrow> ary_buf a = replicate (ary_start a) VNil @ ary_elems a"
  by (rule nth_equalityI) (auto simp: ary_inv_def ary_elems_def nth_append)

lemma ary_invI: "ary_buf a = replicate (ary_start a) VNil @ xs \<Longrightarrow> ary_inv a \<and> ary_elems a = xs"
  by (simp add: ary_inv_def ary_elems_def nth_append)

text \<open>The form every operation is read in: \<open>s\<close> nils and the elements.\<close>

definition ary_rep :: "array_data \<Rightarrow> rvalue list \<Rightarrow> bool" where
  "ary_rep a xs \<longleftrightarrow> ary_buf a = replicate (ary_start a) VNil @ xs"

lemma ary_rep_iff: "ary_rep a xs \<longleftrightarrow> ary_inv a \<and> ary_elems a = xs"
  unfolding ary_rep_def using ary_split ary_invI by metis

named_theorems ary_reps

lemma rep_new [ary_reps]: "ary_rep ary_new []" "ary_rep (ary_of xs) xs" "ary_rep (ary_clear a) []"
  by (simp_all add: ary_rep_def ary_new_def ary_of_def ary_clear_def)

lemma rep_compact: "ary_rep a xs \<Longrightarrow> ary_rep (ary_compact a) xs"
  by (simp add: ary_rep_def ary_compact_def)

lemma rep_push [ary_reps]: "ary_rep a xs \<Longrightarrow> ary_rep (ary_push a v) (xs @ [v])"
  by (simp add: ary_rep_def ary_push_def)

lemma rep_extend [ary_reps]: "ary_rep a xs \<Longrightarrow> ary_rep (ary_extend a vs) (xs @ vs)"
  by (simp add: ary_rep_def ary_extend_def)

lemma rep_truncate [ary_reps]: "ary_rep a xs \<Longrightarrow> ary_rep (ary_truncate a n) (take n xs)"
  by (simp add: ary_rep_def ary_truncate_def)

lemma rep_resize [ary_reps]: "ary_rep a xs \<Longrightarrow> ary_rep (ary_resize a n v) (vec_resize xs n v)"
  by (simp add: ary_rep_def ary_resize_def vec_resize_def)

lemma rep_pop:
  "ary_rep a xs \<Longrightarrow> (if xs = [] then ary_pop a = (a, None)
    else snd (ary_pop a) = Some (last xs) \<and> ary_rep (fst (ary_pop a)) (butlast xs))"
  by (auto simp: ary_rep_def ary_pop_def ary_is_empty_def butlast_append)

lemma rep_shift:
  "ary_rep a xs \<Longrightarrow> (case xs of [] \<Rightarrow> ary_shift a = (a, None)
    | v # vs \<Rightarrow> snd (ary_shift a) = Some v \<and> ary_rep (fst (ary_shift a)) vs)"
proof (cases xs)
  case (Cons v vs)
  assume r: "ary_rep a xs"
  have "(ary_buf a)[ary_start a := VNil] = replicate (Suc (ary_start a)) VNil @ vs"
    using r by (simp add: ary_rep_def Cons list_update_append replicate_append_same)
  then have "ary_rep \<lparr>ary_buf = (ary_buf a)[ary_start a := VNil], ary_start = Suc (ary_start a)\<rparr> vs"
    by (simp add: ary_rep_def)
  from rep_compact [OF this] show ?thesis using r Cons
    by (simp add: ary_shift_def ary_is_empty_def ary_rep_def nth_append)
qed (simp add: ary_rep_def ary_shift_def ary_is_empty_def)

lemma rep_shift_n:
  assumes "ary_rep a xs"
  shows "snd (ary_shift_n a n) = take n xs" "ary_rep (fst (ary_shift_n a n)) (drop n xs)"
proof -
  have e: "ary_elems a = xs" using assms by (simp add: ary_rep_iff)
  let ?m = "min n (length xs)"
  have "ary_rep \<lparr>ary_buf = take (ary_start a) (ary_buf a) @ replicate ?m VNil @ drop (ary_start a + ?m) (ary_buf a),
      ary_start = ary_start a + ?m\<rparr> (drop n xs)"
    using assms by (simp add: ary_rep_def replicate_add min_def)
  from rep_compact [OF this] show "ary_rep (fst (ary_shift_n a n)) (drop n xs)"
    by (simp add: ary_shift_n_def e Let_def)
  show "snd (ary_shift_n a n) = take n xs"
    using e by (simp add: ary_shift_n_def Let_def ary_elems_def [symmetric] min_def)
qed

lemma rep_unshift [ary_reps]:
  assumes "ary_rep a xs"
  shows "ary_rep (ary_unshift a vs) (vs @ xs)"
proof -
  have b: "ary_buf a = replicate (ary_start a) VNil @ xs" using assms by (simp add: ary_rep_def)
  show ?thesis by (simp add: ary_rep_def ary_unshift_def Let_def b)
qed

lemma rep_insert:
  assumes "ary_rep a xs"
  shows "if i \<le> length xs then \<exists>a'. ary_insert a i v = Some a' \<and> ary_rep a' (take i xs @ v # drop i xs)
    else ary_insert a i v = None"
proof -
  have b: "ary_buf a = replicate (ary_start a) VNil @ xs" using assms by (simp add: ary_rep_def)
  show ?thesis
  proof (cases "i = 0 \<and> 0 < ary_start a")
    case True
    then obtain s where s: "ary_start a = Suc s" by (cases "ary_start a") auto
    have "(replicate (Suc s) VNil @ xs)[s := v] = replicate s VNil @ v # xs"
    proof -
      have "replicate (Suc s) VNil = replicate s VNil @ [VNil]" by (simp add: replicate_append_same)
      then show ?thesis by (simp add: list_update_append del: replicate_Suc)
    qed
    with True show ?thesis by (simp add: ary_rep_def ary_insert_def b s)
  next
    case False
    then show ?thesis by (auto simp: ary_rep_def ary_insert_def b)
  qed
qed

lemma rep_remove:
  assumes "ary_rep a xs"
  shows "if i < length xs then \<exists>a'. ary_remove a i = Some (a', xs ! i) \<and> ary_rep a' (take i xs @ drop (Suc i) xs)
    else ary_remove a i = None"
proof -
  have b: "ary_buf a = replicate (ary_start a) VNil @ xs" using assms by (simp add: ary_rep_def)
  show ?thesis
  proof (cases "i = 0")
    case True
    then show ?thesis using rep_shift [OF assms]
      by (cases xs; cases "ary_shift a") (auto simp: ary_remove_def split: option.splits)
  next
    case False
    then show ?thesis by (auto simp: ary_rep_def ary_remove_def b nth_append)
  qed
qed

lemma rep_drain:
  assumes "ary_rep a xs" "f \<le> t" "t \<le> length xs"
  shows "\<exists>a'. ary_drain_range a f t = Some (a', take (t - f) (drop f xs)) \<and> ary_rep a' (take f xs @ drop t xs)"
proof -
  have b: "ary_buf a = replicate (ary_start a) VNil @ xs" using assms(1) by (simp add: ary_rep_def)
  show ?thesis
  proof (cases "f = 0")
    case True
    then show ?thesis using rep_shift_n [OF assms(1), of t]
      by (cases "ary_shift_n a t") (simp add: ary_drain_range_def)
  next
    case False
    then show ?thesis using assms(2,3) by (simp add: ary_rep_def ary_drain_range_def b)
  qed
qed

lemma rep_splice:
  assumes "ary_rep a xs" "f \<le> t" "t \<le> length xs"
  shows "\<exists>a'. ary_splice_range a f t vs = Some a' \<and> ary_rep a' (take f xs @ vs @ drop t xs)"
proof -
  have b: "ary_buf a = replicate (ary_start a) VNil @ xs" using assms(1) by (simp add: ary_rep_def)
  show ?thesis
  proof (cases "f = 0 \<and> t = 0")
    case True
    then show ?thesis using rep_unshift [OF assms(1), of vs] by (simp add: ary_splice_range_def)
  next
    case False
    then show ?thesis using assms(2,3) by (auto simp: ary_rep_def ary_splice_range_def b)
  qed
qed

lemma rep_split_off:
  assumes "ary_rep a xs"
  shows "if n \<le> length xs then \<exists>a'. ary_split_off a n = Some (a', drop n xs) \<and> ary_rep a' (take n xs)
    else ary_split_off a n = None"
proof -
  have b: "ary_buf a = replicate (ary_start a) VNil @ xs" using assms by (simp add: ary_rep_def)
  show ?thesis by (simp add: ary_rep_def ary_split_off_def b)
qed

section \<open>A queue of pushes and shifts\<close>

text \<open>
  What a queue written with \<open>push\<close> and \<open>shift\<close> relies on; the interpretation below is on the
  array as the code has it.
\<close>

locale fifo =
  fixes rep :: "'q \<Rightarrow> 'a list \<Rightarrow> bool" and new :: 'q and enq :: "'q \<Rightarrow> 'a \<Rightarrow> 'q"
    and deq :: "'q \<Rightarrow> 'q \<times> 'a option"
  assumes new_rep: "rep new []"
    and enq_rep: "rep q xs \<Longrightarrow> rep (enq q x) (xs @ [x])"
    and deq_Nil: "rep q [] \<Longrightarrow> deq q = (q, None)"
    and deq_Cons: "rep q (x # xs) \<Longrightarrow> \<exists>q'. deq q = (q', Some x) \<and> rep q' xs"
begin

text \<open>A run of \<open>Some x\<close> (enqueue) and \<open>None\<close> (dequeue): what the dequeues answer.\<close>

fun run :: "'q \<Rightarrow> 'a option list \<Rightarrow> 'q \<times> 'a list" where
  "run q [] = (q, [])"
| "run q (Some x # ops) = run (enq q x) ops"
| "run q (None # ops) = (case deq q of
      (q', None) \<Rightarrow> run q' ops
    | (q', Some x) \<Rightarrow> (let (q'', ys) = run q' ops in (q'', x # ys)))"

text \<open>First in, first out: what came out and what is left are what went in, in order.\<close>

lemma run_fifo:
  "rep q xs \<Longrightarrow> run q ops = (q', ys) \<Longrightarrow> \<exists>zs. rep q' zs \<and> ys @ zs = xs @ [x. Some x \<leftarrow> ops]"
proof (induction q ops arbitrary: xs q' ys rule: run.induct)
  case (3 q ops)
  show ?case
  proof (cases xs)
    case Nil
    then have d: "deq q = (q, None)" using 3 deq_Nil by simp
    then have r: "run q ops = (q', ys)" using 3 by simp
    have "rep q []" using "3.prems"(1) Nil by simp
    from "3.IH"(1) [OF d [symmetric] refl this r] Nil show ?thesis by simp
  next
    case (Cons x xs')
    then obtain q1 where q1: "deq q = (q1, Some x)" "rep q1 xs'" using deq_Cons 3 by blast
    obtain q2 ys' where r: "run q1 ops = (q2, ys')" by fastforce
    from "3.IH"(2) [OF q1(1) [symmetric] refl q1(2) r] 3(4) q1 r Cons show ?thesis by auto
  qed
next
  case (2 q x ops)
  then show ?case using enq_rep [of q xs x] by fastforce
qed auto

end

interpretation array_queue: fifo ary_rep ary_new ary_push ary_shift
proof
  fix q :: array_data and x xs
  show "ary_rep ary_new []" by (rule rep_new)
  show "ary_rep q xs \<Longrightarrow> ary_rep (ary_push q x) (xs @ [x])" by (rule rep_push)
  show "ary_rep q [] \<Longrightarrow> ary_shift q = (q, None)" using rep_shift [of q "[]"] by simp
  show "ary_rep q (x # xs) \<Longrightarrow> \<exists>q'. ary_shift q = (q', Some x) \<and> ary_rep q' xs"
    using rep_shift [of q "x # xs"] by (cases "ary_shift q") auto
qed

text \<open>The room in front stays within the elements it precedes, or under the slack.\<close>

lemma shift_room:
  "ary_start (fst (ary_shift a)) \<le> max ARY_SHIFT_SLACK (length (ary_elems (fst (ary_shift a)))) \<or> ary_is_empty a"
  by (auto simp: ary_shift_def ary_compact_def Let_def ary_elems_def)

end
