(* ===== verification/SortedDeque.thy ===== *)
theory SortedDeque
  imports Prelude
begin

text \<open>
  \<open>src/sorted_deque.rs\<close>: the sorted sequence the task queues and their indexes are kept in. A
  \<open>VecDeque\<close> is a list; \<open>partition_point\<close> and \<open>binary_search_by\<close> are what the standard library
  documents them to answer on a sorted slice. The locale \<open>ordered_index\<close> is what the scheduler
  relies on: a map with the smallest key at hand.
\<close>

type_synonym ('k, 'v) sorted_deque = "('k \<times> 'v) list"

definition partition_point :: "('a \<Rightarrow> bool) \<Rightarrow> 'a list \<Rightarrow> nat" where
  "partition_point P xs = length (takeWhile P xs)"

definition list_insert_at :: "nat \<Rightarrow> 'a \<Rightarrow> 'a list \<Rightarrow> 'a list" where
  "list_insert_at i x xs = take i xs @ x # drop i xs"

definition list_remove_at :: "nat \<Rightarrow> 'a list \<Rightarrow> 'a list" where
  "list_remove_at i xs = take i xs @ drop (Suc i) xs"

definition binary_search :: "'k::linorder \<Rightarrow> ('k \<times> 'v) list \<Rightarrow> nat option" where
  "binary_search k xs = (let i = partition_point (\<lambda>(x, _). x < k) xs
     in if i < length xs \<and> fst (xs ! i) = k then Some i else None)"

definition sd_insert :: "('k::linorder, 'v) sorted_deque \<Rightarrow> 'k \<Rightarrow> 'v \<Rightarrow> ('k, 'v) sorted_deque" where
  "sd_insert q k v =
     (if q \<noteq> [] \<and> fst (last q) > k
      then list_insert_at (partition_point (\<lambda>(x, _). x < k) q) (k, v) q
      else q @ [(k, v)])"

definition sd_remove :: "('k::linorder, 'v) sorted_deque \<Rightarrow> 'k \<Rightarrow> ('k, 'v) sorted_deque \<times> 'v option" where
  "sd_remove q k =
     (if q \<noteq> [] \<and> fst (hd q) = k then (tl q, Some (snd (hd q)))
      else if q \<noteq> [] \<and> fst (last q) = k then (butlast q, Some (snd (last q)))
      else case binary_search k q of
          None \<Rightarrow> (q, None)
        | Some i \<Rightarrow> (list_remove_at i q, Some (snd (q ! i))))"

definition sd_first :: "('k, 'v) sorted_deque \<Rightarrow> ('k \<times> 'v) option" where
  "sd_first q = (case q of [] \<Rightarrow> None | e # _ \<Rightarrow> Some e)"

definition sd_iter_from :: "('k::linorder, 'v) sorted_deque \<Rightarrow> 'k \<Rightarrow> ('k \<times> 'v) list" where
  "sd_iter_from q lo = drop (partition_point (\<lambda>(x, _). x < lo) q) q"

definition sd_retain :: "('k \<Rightarrow> 'v \<Rightarrow> bool) \<Rightarrow> ('k, 'v) sorted_deque \<Rightarrow> ('k, 'v) sorted_deque" where
  "sd_retain keep q = filter (\<lambda>(k, v). keep k v) q"

definition sd_inv :: "('k::linorder, 'v) sorted_deque \<Rightarrow> bool" where
  "sd_inv q \<longleftrightarrow> sorted_wrt (<) (map fst q)"

section \<open>The contract\<close>

locale ordered_index =
  fixes inv :: "'q \<Rightarrow> bool" and abs :: "'q \<Rightarrow> 'k::linorder \<rightharpoonup> 'v" and empty :: 'q
    and ins :: "'q \<Rightarrow> 'k \<Rightarrow> 'v \<Rightarrow> 'q" and del :: "'q \<Rightarrow> 'k \<Rightarrow> 'q \<times> 'v option"
    and least :: "'q \<Rightarrow> ('k \<times> 'v) option"
  assumes inv_empty: "inv empty" "abs empty = Map.empty"
    and inv_ins: "inv q \<Longrightarrow> abs q k = None \<Longrightarrow> inv (ins q k v) \<and> abs (ins q k v) = (abs q)(k \<mapsto> v)"
    and inv_del: "inv q \<Longrightarrow> del q k = (q', r) \<Longrightarrow> inv q' \<and> r = abs q k \<and> abs q' = (abs q)(k := None)"
    and least_None: "inv q \<Longrightarrow> least q = None \<longleftrightarrow> abs q = Map.empty"
    and least_Some: "inv q \<Longrightarrow> least q = Some (k, v) \<Longrightarrow> abs q k = Some v \<and> (\<forall>k' \<in> dom (abs q). k \<le> k')"
begin

text \<open>A task that joins behind every other one does not change who is in front.\<close>

lemma ins_behind:
  assumes "inv q" "least q = Some (k, v)" "\<forall>k' \<in> dom (abs q). k' < j"
  shows "least (ins q j w) = Some (k, v)"
proof -
  have k: "abs q k = Some v" "\<forall>k' \<in> dom (abs q). k \<le> k'" using least_Some [OF assms(1,2)] by auto
  then have "k < j" using assms(3) by blast
  have "abs q j = None" using assms(3) by blast
  then have i: "inv (ins q j w)" "abs (ins q j w) = (abs q)(j \<mapsto> w)" using inv_ins assms(1) by auto
  then have "least (ins q j w) \<noteq> None" using least_None by auto
  then obtain k' v' where l: "least (ins q j w) = Some (k', v')" by auto
  from least_Some [OF i(1) this] have "((abs q)(j \<mapsto> w)) k' = Some v'" "k' \<le> k"
    using k(1) \<open>k < j\<close> unfolding i(2) by auto
  moreover from this have "k \<le> k'" using k(2) \<open>k < j\<close> by (cases "k' = j") (auto simp: domI)
  ultimately have "k' = k" "((abs q)(j \<mapsto> w)) k = Some v'" by auto
  with l k(1) less_imp_neq [OF \<open>k < j\<close>] show ?thesis by simp
qed

text \<open>Taking out the one in front leaves only larger keys.\<close>

lemma del_least:
  assumes "inv q" "least q = Some (k, v)" "del q k = (q', r)"
  shows "r = Some v" "\<forall>k' \<in> dom (abs q'). k < k'"
proof -
  have "abs q k = Some v" "\<forall>k' \<in> dom (abs q). k \<le> k'" using least_Some [OF assms(1,2)] by auto
  with inv_del [OF assms(1,3)] show "r = Some v" "\<forall>k' \<in> dom (abs q'). k < k'"
    by (auto simp: le_less split: if_splits)
qed

end

section \<open>The deque meets it\<close>

lemma sd_inv_Cons: "sd_inv (e # q) \<longleftrightarrow> (\<forall>k' \<in> fst ` set q. fst e < k') \<and> sd_inv q"
  by (auto simp: sd_inv_def)

lemma sd_inv_append: "sd_inv (p @ q) \<longleftrightarrow> sd_inv p \<and> sd_inv q \<and> (\<forall>a \<in> fst ` set p. \<forall>b \<in> fst ` set q. a < b)"
  by (auto simp: sd_inv_def sorted_wrt_append)

lemma sd_distinct: "sd_inv q \<Longrightarrow> distinct (map fst q)"
  by (induction q) (auto simp: sd_inv_def)

lemma sd_split:
  assumes "sd_inv q"
  shows "\<forall>a \<in> fst ` set (take (partition_point (\<lambda>(x, _). x < k) q) q). a < k"
    "\<forall>b \<in> fst ` set (drop (partition_point (\<lambda>(x, _). x < k) q) q). k \<le> b"
proof -
  define i where "i = partition_point (\<lambda>(x, _). x < k) q"
  have t: "take i q = takeWhile (\<lambda>(x, _). x < k) q" "drop i q = dropWhile (\<lambda>(x, _). x < k) q"
    unfolding i_def partition_point_def by (simp_all add: takeWhile_eq_take [symmetric] dropWhile_eq_drop)
  show "\<forall>a \<in> fst ` set (take (partition_point (\<lambda>(x, _). x < k) q) q). a < k"
    unfolding i_def [symmetric] t(1) by (auto dest: set_takeWhileD)
  show "\<forall>b \<in> fst ` set (drop (partition_point (\<lambda>(x, _). x < k) q) q). k \<le> b"
  proof (cases "dropWhile (\<lambda>(x, _). x < k) q")
    case Nil
    show ?thesis unfolding i_def [symmetric] t(2) Nil by simp
  next
    case (Cons e es)
    have "\<not> fst e < k" using hd_dropWhile [of "\<lambda>(x, _). x < k" q] Cons by (cases e) auto
    moreover have "sd_inv (e # es)"
      using assms(1) unfolding Cons [symmetric] by (metis sd_inv_append takeWhile_dropWhile_id)
    ultimately show ?thesis unfolding i_def [symmetric] t(2) Cons by (force simp: sd_inv_Cons)
  qed
qed

lemma map_of_insert_at:
  assumes "k \<notin> fst ` set q"
  shows "map_of (list_insert_at i (k, v) q) = (map_of q)(k \<mapsto> v)"
proof -
  have "map_of (take i q) k = None" "k \<notin> fst ` set (take i q)"
    using assms in_set_takeD by (force simp: map_of_eq_None_iff)+
  then show ?thesis
    by (subst (2) append_take_drop_id [of i q, symmetric])
      (auto simp: list_insert_at_def map_add_def fun_eq_iff split: option.split simp del: append_take_drop_id)
qed

lemma sd_insert_inv:
  assumes "sd_inv q" "map_of q k = None"
  shows "sd_inv (sd_insert q k v)" "map_of (sd_insert q k v) = (map_of q)(k \<mapsto> v)"
proof -
  have k: "k \<notin> fst ` set q" using assms(2) by (simp add: map_of_eq_None_iff)
  let ?i = "partition_point (\<lambda>(x, _). x < k) q"
  have "sd_inv (sd_insert q k v) \<and> map_of (sd_insert q k v) = (map_of q)(k \<mapsto> v)"
  proof (cases "q \<noteq> [] \<and> fst (last q) > k")
    case True
    define p r where "p = take ?i q" and "r = drop ?i q"
    have s: "sd_inv p" "sd_inv r" "\<forall>a \<in> fst ` set p. \<forall>b \<in> fst ` set r. a < b"
      using assms(1) sd_inv_append [of p r] by (simp_all add: p_def r_def)
    have lo: "\<forall>a \<in> fst ` set p. a < k" unfolding p_def by (rule sd_split(1) [OF assms(1)])
    have hi: "\<forall>b \<in> fst ` set (drop ?i q). k < b"
    proof
      fix b assume b: "b \<in> fst ` set (drop ?i q)"
      then have "b \<in> fst ` set q" using set_drop_subset [of ?i q] by blast
      with k have "b \<noteq> k" by blast
      moreover have "k \<le> b" using sd_split(2) [OF assms(1), of k] b by blast
      ultimately show "k < b" by simp
    qed
    have "sd_inv (p @ (k, v) # r)"
      using s lo hi by (simp add: sd_inv_append sd_inv_Cons flip: r_def)
    then have "sd_inv (list_insert_at ?i (k, v) q)" by (simp add: list_insert_at_def p_def r_def)
    with True map_of_insert_at [OF k, of ?i v] show ?thesis by (simp add: sd_insert_def)
  next
    case False
    have "a < k" if "a \<in> fst ` set q" for a
    proof -
      have "q \<noteq> []" using that by auto
      with False have "fst (last q) \<le> k" by auto
      moreover have "fst (last q) \<noteq> k" using k \<open>q \<noteq> []\<close> by (metis image_eqI last_in_set)
      moreover have "a \<le> fst (last q)"
        using assms(1) that \<open>q \<noteq> []\<close> sd_inv_append [of "butlast q" "[last q]"]
        by (cases q rule: rev_cases) (auto simp: le_less)
      ultimately show ?thesis by simp
    qed
    then have "sd_inv (q @ [(k, v)])" using assms(1) by (auto simp: sd_inv_append) (simp add: sd_inv_def)
    moreover have "map_of (q @ [(k, v)]) = (map_of q)(k \<mapsto> v)"
      using assms(2) by (auto simp: map_add_def fun_eq_iff split: option.split)
    moreover have "sd_insert q k v = q @ [(k, v)]" using False by (auto simp: sd_insert_def)
    ultimately show ?thesis by simp
  qed
  then show "sd_inv (sd_insert q k v)" "map_of (sd_insert q k v) = (map_of q)(k \<mapsto> v)" by auto
qed

lemma map_of_remove_at:
  assumes "distinct (map fst q)" "i < length q" "fst (q ! i) = k"
  shows "map_of q k = Some (snd (q ! i))" "map_of (list_remove_at i q) = (map_of q)(k := None)"
proof -
  have q: "q = take i q @ (k, snd (q ! i)) # drop (Suc i) q"
    using assms(2,3) id_take_nth_drop [of i q] by (metis prod.collapse)
  have "distinct (map fst (take i q @ (k, snd (q ! i)) # drop (Suc i) q))" using assms(1) q by simp
  then have n: "k \<notin> fst ` set (take i q)" "k \<notin> fst ` set (drop (Suc i) q)" by auto
  then have z: "map_of (take i q) k = None" "map_of (drop (Suc i) q) k = None"
    by (simp_all add: map_of_eq_None_iff)
  have m: "map_of q = (map_of (drop (Suc i) q))(k \<mapsto> snd (q ! i)) ++ map_of (take i q)"
    by (subst q) simp
  show "map_of q k = Some (snd (q ! i))" unfolding m using z by (simp add: map_add_def)
  show "map_of (list_remove_at i q) = (map_of q)(k := None)"
    unfolding m using z by (auto simp: list_remove_at_def map_add_def fun_eq_iff split: option.split)
qed

lemma sd_remove_at_inv: "sd_inv q \<Longrightarrow> sd_inv (list_remove_at i q)"
proof (cases "i < length q")
  case True
  assume "sd_inv q"
  then have "sd_inv (take i q @ [q ! i] @ drop (Suc i) q)" using id_take_nth_drop [OF True] by simp
  then show ?thesis by (auto simp: list_remove_at_def sd_inv_append sd_inv_Cons)
qed (simp add: list_remove_at_def)

text \<open>Wherever the entry is found, it is the one at some index.\<close>

lemma sd_remove_cases:
  assumes "sd_inv q"
  shows "(\<exists>i < length q. fst (q ! i) = k \<and> sd_remove q k = (list_remove_at i q, Some (snd (q ! i)))) \<or>
    map_of q k = None \<and> sd_remove q k = (q, None)"
proof -
  consider "q \<noteq> []" "fst (hd q) = k" | "q \<noteq> []" "fst (hd q) \<noteq> k" "fst (last q) = k"
    | i where "\<not> (q \<noteq> [] \<and> fst (hd q) = k)" "\<not> (q \<noteq> [] \<and> fst (last q) = k)" "binary_search k q = Some i"
    | "\<not> (q \<noteq> [] \<and> fst (hd q) = k)" "\<not> (q \<noteq> [] \<and> fst (last q) = k)" "binary_search k q = None"
    by (cases "binary_search k q") auto
  then show ?thesis
  proof cases
    case 1
    then show ?thesis by (cases q) (auto simp: sd_remove_def list_remove_at_def intro!: exI [of _ 0])
  next
    case 2
    then show ?thesis
      by (intro disjI1 exI [of _ "length q - 1"])
        (auto simp: sd_remove_def list_remove_at_def last_conv_nth butlast_conv_take)
  next
    case 3
    then have "sd_remove q k = (list_remove_at i q, Some (snd (q ! i)))" by (auto simp: sd_remove_def)
    moreover have "i < length q" "fst (q ! i) = k" using 3(3) by (auto simp: binary_search_def Let_def split: if_splits)
    ultimately show ?thesis by blast
  next
    case 4
    let ?i = "partition_point (\<lambda>(x, _). x < k) q"
    have no: "\<not> (?i < length q \<and> fst (q ! ?i) = k)" using 4(3) by (auto simp: binary_search_def Let_def split: if_splits)
    have "k \<notin> fst ` set (drop ?i q)"
    proof (cases "?i < length q")
      case True
      have "drop ?i q = q ! ?i # drop (Suc ?i) q" using True by (simp add: Cons_nth_drop_Suc)
      moreover have "sd_inv (drop ?i q)" using assms sd_inv_append [of "take ?i q" "drop ?i q"] by simp
      moreover have "k \<le> fst (q ! ?i)" using sd_split(2) [OF assms, of k] unfolding calculation(1) by simp
      then have "k < fst (q ! ?i)" using True no by (simp add: le_less)
      ultimately show ?thesis by (auto simp: sd_inv_Cons)
    qed simp
    moreover have "k \<notin> fst ` set (take ?i q)" using sd_split(1) [OF assms, of k] by blast
    ultimately have "k \<notin> fst ` set q" by (metis UnE append_take_drop_id image_Un set_append)
    with 4 show ?thesis by (auto simp: sd_remove_def map_of_eq_None_iff)
  qed
qed

interpretation deque: ordered_index sd_inv map_of "[]" sd_insert sd_remove sd_first
proof
  fix q q' :: "('a::linorder, 'b) sorted_deque" and k v r
  show "sd_inv []" "map_of [] = (Map.empty :: 'a \<rightharpoonup> 'b)" by (simp_all add: sd_inv_def)
  assume q: "sd_inv q"
  show "map_of q k = None \<Longrightarrow> sd_inv (sd_insert q k v) \<and> map_of (sd_insert q k v) = (map_of q)(k \<mapsto> v)"
    using sd_insert_inv [OF q] by blast
  show "sd_remove q k = (q', r) \<Longrightarrow> sd_inv q' \<and> r = map_of q k \<and> map_of q' = (map_of q)(k := None)"
    using sd_remove_cases [OF q, of k] map_of_remove_at [OF sd_distinct [OF q]] sd_remove_at_inv [OF q] q by auto
  show "sd_first q = None \<longleftrightarrow> map_of q = Map.empty" by (cases q) (auto simp: sd_first_def fun_eq_iff)
  show "sd_first q = Some (k, v) \<Longrightarrow> map_of q k = Some v \<and> (\<forall>k' \<in> dom (map_of q). k \<le> k')"
    using q by (cases q) (auto simp: sd_first_def sd_inv_Cons dom_map_of_conv_image_fst less_imp_le)
qed

section \<open>Iteration\<close>

lemma sd_iter_from_set:
  assumes "sd_inv q"
  shows "sd_iter_from q lo = filter (\<lambda>(k, _). lo \<le> k) q"
proof -
  let ?i = "partition_point (\<lambda>(x, _). x < lo) q"
  have "filter (\<lambda>(k, _). lo \<le> k) (take ?i q) = []" "filter (\<lambda>(k, _). lo \<le> k) (drop ?i q) = drop ?i q"
    using sd_split [OF assms, of lo] by (force simp: filter_empty_conv filter_id_conv)+
  then show ?thesis unfolding sd_iter_from_def by (metis append_Nil append_take_drop_id filter_append)
qed

lemma sd_retain_inv: "sd_inv q \<Longrightarrow> sd_inv (sd_retain keep q)"
  unfolding sd_inv_def sd_retain_def sorted_wrt_map by (rule sorted_wrt_filter)

end
