(* ===== verification/HashData.thy ===== *)
theory HashData
  imports Value SortedDeque
begin

text \<open>
  The storage of a Hash, the first half of \<open>src/hashtable.rs\<close>: the constants, the growth
  and probe functions, and \<open>HashData\<close> with its methods. The counts (\<open>n_used\<close>, \<open>ea_capa\<close>,
  positions and slots), \<open>u32\<close> in the code, are \<open>nat\<close> here: none of them passes
  \<open>EA_MAX_CAPA\<close>, below \<open>2 ^ 31\<close>. Hash codes and the arithmetic of the probe stay \<open>u32\<close>, where
  the wrap-around matters.
\<close>

section \<open>Constants and growth\<close>

definition AR_MAX_SIZE :: nat where "AR_MAX_SIZE = 16"
definition AR_DEFAULT_CAPA :: nat where "AR_DEFAULT_CAPA = 4"
definition IB_INIT_BIT :: nat where "IB_INIT_BIT = 5"
definition EA_N_RESERVED_INDICES :: nat where "EA_N_RESERVED_INDICES = 2"
definition EA_MAX_INCREASE :: nat where "EA_MAX_INCREASE = 65535"
definition EA_MAX_CAPA :: nat where "EA_MAX_CAPA = 2 ^ 31 - EA_N_RESERVED_INDICES"
definition EMPTY :: nat where "EMPTY = 2 ^ 32 - 1"
definition DELETED :: nat where "DELETED = 2 ^ 32 - 2"

lemmas hash_consts = AR_MAX_SIZE_def AR_DEFAULT_CAPA_def IB_INIT_BIT_def EA_N_RESERVED_INDICES_def
  EA_MAX_INCREASE_def EA_MAX_CAPA_def EMPTY_def DELETED_def

definition ea_next_capa_for :: "nat \<Rightarrow> nat \<Rightarrow> nat" where
  "ea_next_capa_for sz max_capa =
     (if sz < AR_DEFAULT_CAPA then AR_DEFAULT_CAPA
      else
        let capa = sz * 6 div 5 + 6;
            capa' = (if capa - sz > EA_MAX_INCREASE then sz + EA_MAX_INCREASE else capa)
        in if capa' \<le> max_capa then capa' else max_capa)"

definition ib_upper_bound_for :: "u32 \<Rightarrow> nat" where
  "ib_upper_bound_for capa = unat (drop_bit 2 capa OR drop_bit 1 capa)"

text \<open>\<open>u32::trailing_zeros\<close>, for the powers of two it is asked about.\<close>

fun tz_from :: "u32 \<Rightarrow> nat \<Rightarrow> nat \<Rightarrow> nat" where
  "tz_from x i 0 = i"
| "tz_from x i (Suc n) = (if bit x i then i else tz_from x (Suc i) n)"

definition trailing_zeros :: "u32 \<Rightarrow> nat" where
  "trailing_zeros x = tz_from x 0 32"

definition ib_bit_for :: "u32 \<Rightarrow> nat" where
  "ib_bit_for sz =
     (let capa = push_bit (min (32 - leading_zeros sz) 31) 1 :: u32;
          capa' = (if capa \<noteq> push_bit 31 1 \<and> ib_upper_bound_for capa < unat sz then capa * 2 else capa)
      in trailing_zeros capa')"

definition probe_at :: "u32 \<Rightarrow> u32 \<Rightarrow> u32 \<Rightarrow> nat" where
  "probe_at code n msk = unat ((code + (n * n + n) div 2) AND msk)"

definition mix :: "u32 \<Rightarrow> u32" where
  "mix h =
     (let h1 = h XOR drop_bit 16 h;
          h2 = h1 * 0x45d9f3b
      in h2 XOR drop_bit 16 h2)"

definition byte_hash :: "bytes \<Rightarrow> u32" where
  "byte_hash b = foldl (\<lambda>h x. (h XOR ucast x) * 0x01000193) 0x811c9dc5 b"

section \<open>HashData\<close>

record hash_data =
  h_entries :: "(rvalue \<times> rvalue) list"
  h_slots :: "nat list"
  h_n_used :: nat
  h_ea_capa :: nat
  h_ib_bit :: nat
  h_ib :: "nat list"
  h_epoch :: u32
  h_default :: rvalue

record hcheck =
  ck_bit :: nat
  ck_ea_capa :: nat
  ck_size :: nat
  ck_epoch :: u32
  ck_first :: "rvalue option"

text \<open>\<open>same_word\<close>: the same value, a Float by its bits.\<close>

fun same_word :: "rvalue \<Rightarrow> rvalue \<Rightarrow> bool" where
  "same_word (VFloat x) (VFloat y) = (x = y)"
| "same_word a b = value_eq a b"

lemma same_word_eq: "same_word a b \<longleftrightarrow> a = b"
  by (cases a; cases b) auto

definition check_same :: "hcheck \<Rightarrow> hcheck \<Rightarrow> bool" where
  "check_same c d \<longleftrightarrow> ck_bit c = ck_bit d \<and> ck_ea_capa c = ck_ea_capa d \<and> ck_size c = ck_size d \<and>
     ck_epoch c = ck_epoch d \<and>
     (case (ck_first c, ck_first d) of
        (None, None) \<Rightarrow> True | (Some a, Some b) \<Rightarrow> same_word a b | _ \<Rightarrow> False)"

definition h_new :: hash_data where
  "h_new = \<lparr>h_entries = [], h_slots = [], h_n_used = 0, h_ea_capa = 0, h_ib_bit = 0, h_ib = [],
            h_epoch = 0, h_default = VNil\<rparr>"

definition ht_reset :: "hash_data \<Rightarrow> nat \<Rightarrow> hash_data" where
  "ht_reset h b = h\<lparr>h_ib_bit := b, h_ib := replicate (2 ^ b) EMPTY\<rparr>"

definition h_with_capa :: "nat \<Rightarrow> hash_data" where
  "h_with_capa capa =
     (if capa = 0 then h_new
      else
        let sz = min capa EA_MAX_CAPA; h = h_new\<lparr>h_ea_capa := sz\<rparr>
        in if sz > AR_MAX_SIZE then ht_reset h (ib_bit_for (of_nat sz)) else h)"

definition h_len :: "hash_data \<Rightarrow> nat" where "h_len h = length (h_entries h)"
definition h_is_empty :: "hash_data \<Rightarrow> bool" where "h_is_empty h \<longleftrightarrow> h_entries h = []"
definition h_is_ht :: "hash_data \<Rightarrow> bool" where "h_is_ht h \<longleftrightarrow> h_ib_bit h \<noteq> 0"
definition h_mask :: "hash_data \<Rightarrow> u32" where "h_mask h = push_bit (h_ib_bit h) 1 - 1"

definition h_bucket :: "hash_data \<Rightarrow> nat \<Rightarrow> nat" where
  "h_bucket h b = (if b < length (h_ib h) then h_ib h ! b else EMPTY)"

definition h_key_at :: "hash_data \<Rightarrow> nat \<Rightarrow> rvalue option" where
  "h_key_at h p = (if p < h_len h then Some (fst (h_entries h ! p)) else None)"

definition h_value_at :: "hash_data \<Rightarrow> nat \<Rightarrow> rvalue option" where
  "h_value_at h p = (if p < h_len h then Some (snd (h_entries h ! p)) else None)"

definition h_slot_at :: "hash_data \<Rightarrow> nat \<Rightarrow> nat" where
  "h_slot_at h p = h_slots h ! p"

text \<open>\<open>self.slots.binary_search(&slot).ok()\<close>\<close>

definition h_pos_of_slot :: "hash_data \<Rightarrow> nat \<Rightarrow> nat option" where
  "h_pos_of_slot h slot =
     (let i = partition_point (\<lambda>s. s < slot) (h_slots h)
      in if i < length (h_slots h) \<and> h_slots h ! i = slot then Some i else None)"

definition h_slot_holds :: "hash_data \<Rightarrow> nat \<Rightarrow> rvalue \<Rightarrow> nat option" where
  "h_slot_holds h slot key = (case h_pos_of_slot h slot of
      None \<Rightarrow> None
    | Some p \<Rightarrow> if same_word (fst (h_entries h ! p)) key then Some p else None)"

definition h_check :: "hash_data \<Rightarrow> hcheck" where
  "h_check h =
     \<lparr>ck_bit = h_ib_bit h, ck_ea_capa = h_ea_capa h, ck_size = h_len h, ck_epoch = h_epoch h,
      ck_first = (if h_is_ht h then None
                  else case h_slots h of 0 # _ \<Rightarrow> Some (fst (h_entries h ! 0)) | _ \<Rightarrow> None)\<rparr>"

definition h_set_n_used :: "hash_data \<Rightarrow> nat \<Rightarrow> hash_data" where
  "h_set_n_used h n = h\<lparr>h_n_used := n\<rparr>"

definition h_set_value_at :: "hash_data \<Rightarrow> nat \<Rightarrow> rvalue \<Rightarrow> hash_data" where
  "h_set_value_at h p v =
     (if p < h_len h then h\<lparr>h_entries := (h_entries h)[p := (fst (h_entries h ! p), v)]\<rparr> else h)"

definition h_compress :: "hash_data \<Rightarrow> hash_data" where
  "h_compress h = h\<lparr>h_slots := [0..<length (h_slots h)], h_n_used := h_len h\<rparr>"

definition h_adjust_ea :: "hash_data \<Rightarrow> nat \<Rightarrow> nat \<Rightarrow> hash_data" where
  "h_adjust_ea h sz mx = h\<lparr>h_ea_capa := ea_next_capa_for sz mx\<rparr>"

text \<open>The loop of \<open>place\<close>: \<open>for n in 0..=mask\<close>, \<open>k\<close> rounds left.\<close>

fun place_loop :: "u32 \<Rightarrow> u32 \<Rightarrow> nat \<Rightarrow> u32 \<Rightarrow> nat \<Rightarrow> nat list \<Rightarrow> nat list" where
  "place_loop code msk p n 0 ib = ib"
| "place_loop code msk p n (Suc k) ib =
     (let b = probe_at code n msk
      in if ib ! b = EMPTY then ib[b := p] else place_loop code msk p (n + 1) k ib)"

definition h_place :: "hash_data \<Rightarrow> u32 \<Rightarrow> nat \<Rightarrow> hash_data" where
  "h_place h code p = h\<lparr>h_ib := place_loop code (h_mask h) p 0 (Suc (unat (h_mask h))) (h_ib h)\<rparr>"

definition h_to_ar :: "hash_data \<Rightarrow> hash_data" where
  "h_to_ar h =
     (let h1 = h_compress h
      in h1\<lparr>h_ea_capa := ea_next_capa_for (h_len h1) AR_MAX_SIZE, h_ib_bit := 0, h_ib := []\<rparr>)"

definition h_ar_make_room :: "hash_data \<Rightarrow> hash_data \<times> bool" where
  "h_ar_make_room h =
     (let sz = h_len h
      in if h_ea_capa h = h_n_used h
         then if sz = h_n_used h
              then if sz = AR_MAX_SIZE then (h, True) else (h_adjust_ea h sz AR_MAX_SIZE, False)
              else let h1 = h_compress h in (h_adjust_ea h1 sz (min (h_ea_capa h1) AR_MAX_SIZE), False)
         else (h, False))"

definition h_ar_push :: "hash_data \<Rightarrow> rvalue \<Rightarrow> rvalue \<Rightarrow> hash_data" where
  "h_ar_push h k v =
     h\<lparr>h_entries := h_entries h @ [(k, v)], h_slots := h_slots h @ [h_n_used h], h_n_used := h_n_used h + 1\<rparr>"

datatype ht_room = Fits | Rebuild nat | ToAr

definition h_ht_make_room :: "hash_data \<Rightarrow> hash_data \<times> ht_room" where
  "h_ht_make_room h =
     (let sz = h_len h; b = h_ib_bit h; capa = push_bit b 1 :: u32
      in if ib_upper_bound_for capa \<le> sz
         then ((if sz \<noteq> h_n_used h then h_compress h else h), Rebuild (b + 1))
         else if sz \<noteq> h_n_used h
         then
           if unat capa - EA_N_RESERVED_INDICES \<le> h_n_used h
           then (let h1 = h_compress h in (h_adjust_ea h1 sz (h_ea_capa h1), Rebuild b))
           else if h_ea_capa h = h_n_used h
           then if sz \<le> AR_MAX_SIZE then (h, ToAr)
                else if ea_next_capa_for sz EA_MAX_CAPA \<le> h_ea_capa h
                then (let h1 = h_compress h in (h_adjust_ea h1 sz (h_ea_capa h1), Rebuild b))
                else (h, Fits)
           else (h, Fits)
         else (h, Fits))"

definition h_ht_push :: "hash_data \<Rightarrow> nat \<Rightarrow> rvalue \<Rightarrow> rvalue \<Rightarrow> hash_data" where
  "h_ht_push h b k v =
     (let h1 = (if h_n_used h = h_ea_capa h then h_adjust_ea h (h_n_used h) EA_MAX_CAPA else h);
          p = h_len h1;
          h2 = h1\<lparr>h_entries := h_entries h1 @ [(k, v)], h_slots := h_slots h1 @ [h_n_used h1],
                  h_n_used := h_n_used h1 + 1\<rparr>
      in if b < length (h_ib h2) then h2\<lparr>h_ib := (h_ib h2)[b := p]\<rparr> else h2)"

definition bucket_removed :: "nat \<Rightarrow> nat \<Rightarrow> nat" where
  "bucket_removed p b =
     (if b = p then DELETED else if b \<noteq> EMPTY \<and> b \<noteq> DELETED \<and> b > p then b - 1 else b)"

text \<open>\<open>Vec::remove\<close> panics out of range; the callers ask within it.\<close>

definition h_remove_entry :: "hash_data \<Rightarrow> nat \<Rightarrow> hash_data \<times> (rvalue \<times> rvalue)" where
  "h_remove_entry h p =
     (let e = h_entries h ! p;
          h1 = h\<lparr>h_entries := list_remove_at p (h_entries h), h_slots := list_remove_at p (h_slots h)\<rparr>
      in (if h_is_ht h1 then h1\<lparr>h_ib := map (bucket_removed p) (h_ib h1)\<rparr> else h1, e))"

text \<open>The loop of \<open>remove_nil_values\<close>, over the entries from \<open>p\<close> on.\<close>

function remove_nil_loop :: "hash_data \<Rightarrow> nat \<Rightarrow> nat \<Rightarrow> hash_data \<times> nat" where
  "remove_nil_loop h n p =
     (if p < h_len h
      then if is_nil (snd (h_entries h ! p))
           then remove_nil_loop (fst (h_remove_entry h p)) (n + 1) p
           else remove_nil_loop h n (p + 1)
      else (h, n))"
  by pat_completeness auto
termination
  by (relation "measure (\<lambda>(h, _, p). h_len h - p)")
    (auto simp: h_len_def h_remove_entry_def list_remove_at_def Let_def)

declare remove_nil_loop.simps [simp del]

definition h_remove_nil_values :: "hash_data \<Rightarrow> hash_data \<times> nat" where
  "h_remove_nil_values h = remove_nil_loop h 0 0"

definition h_clear :: "hash_data \<Rightarrow> hash_data" where
  "h_clear h = h\<lparr>h_entries := [], h_slots := [], h_n_used := 0, h_ea_capa := 0, h_ib_bit := 0,
     h_ib := [], h_epoch := h_epoch h + 1\<rparr>"

definition h_replace_table :: "hash_data \<Rightarrow> hash_data \<Rightarrow> hash_data" where
  "h_replace_table h other = other\<lparr>h_epoch := h_epoch h + 1, h_default := h_default h\<rparr>"

definition h_slots_after :: "hash_data \<Rightarrow> nat \<Rightarrow> nat" where
  "h_slots_after h slot = partition_point (\<lambda>s. s \<le> slot) (h_slots h)"

definition h_reinsert :: "hash_data \<Rightarrow> nat \<Rightarrow> rvalue \<times> rvalue \<Rightarrow> hash_data" where
  "h_reinsert h p e =
     (let h1 = h\<lparr>h_entries := list_insert_at p e (h_entries h), h_slots := list_insert_at p 0 (h_slots h)\<rparr>
      in if h_is_ht h1
         then h1\<lparr>h_ib := map (\<lambda>b. if b \<noteq> EMPTY \<and> b \<noteq> DELETED \<and> b \<ge> p then b + 1 else b) (h_ib h1)\<rparr>
         else h1)"

definition h_set_slot :: "hash_data \<Rightarrow> nat \<Rightarrow> nat \<Rightarrow> hash_data" where
  "h_set_slot h p slot = h\<lparr>h_slots := (h_slots h)[p := slot]\<rparr>"

definition h_set_bucket :: "hash_data \<Rightarrow> nat \<Rightarrow> nat \<Rightarrow> hash_data" where
  "h_set_bucket h b p = (if b < length (h_ib h) then h\<lparr>h_ib := (h_ib h)[b := p]\<rparr> else h)"

text \<open>The Set's part: \<open>KH_UPPER_BOUND\<close>, the mark of a rebuild.\<close>

definition KHASH_SMALL_LIMIT :: nat where "KHASH_SMALL_LIMIT = 4"
definition KHASH_MIN_BIT :: nat where "KHASH_MIN_BIT = 3"

definition kh_upper_bound :: "hash_data \<Rightarrow> nat" where
  "kh_upper_bound h = (let n = length (h_ib h) in n - n div 8)"

definition h_bump_gen :: "hash_data \<Rightarrow> hash_data" where
  "h_bump_gen h = h\<lparr>h_epoch := h_epoch h + 1\<rparr>"

definition kh_mark :: "hash_data \<Rightarrow> u32 \<times> nat" where
  "kh_mark h = (h_epoch h, h_ib_bit h)"

section \<open>The growth of the entry array\<close>

lemma ea_next_capa_grows:
  assumes "sz < mx" "AR_DEFAULT_CAPA \<le> mx"
  shows "sz < ea_next_capa_for sz mx" "ea_next_capa_for sz mx \<le> mx"
  using assms by (auto simp: ea_next_capa_for_def Let_def hash_consts)

section \<open>The probe visits every bucket\<close>

definition tri :: "nat \<Rightarrow> nat" where "tri n = n * (n + 1) div 2"

lemma two_tri: "2 * tri n = n * (n + 1)"
  by (simp add: tri_def)

lemma mask_bits: "b \<le> 31 \<Longrightarrow> (push_bit b 1 - 1 :: u32) = mask b"
  by (simp add: mask_eq_decr_exp)

text \<open>
  \<open>n * n + n\<close> wraps at \<open>2 ^ 32\<close>, so its half is the triangular number only modulo \<open>2 ^ 31\<close>; no
  table is larger than that.
\<close>

lemma probe_at_tri:
  assumes "b \<le> 31"
  shows "probe_at code n (mask b) = (unat code + tri (unat n)) mod 2 ^ b"
proof -
  let ?N = "unat n * unat n + unat n"
  have d: "(2 :: nat) ^ b dvd 2 ^ 31" "(2 :: nat) ^ b dvd 2 ^ 32" using assms le_imp_power_dvd [of b 31 "2 :: nat"] le_imp_power_dvd [of b 32 "2 :: nat"] by simp_all
  have half: "?N mod 2 ^ 32 div 2 = tri (unat n) mod 2 ^ 31"
  proof -
    have "?N = 2 * tri (unat n)" unfolding two_tri by (simp add: algebra_simps)
    then have "?N mod 2 ^ 32 = 2 * tri (unat n) mod (2 * 2 ^ 31)" by simp
    also have "\<dots> = 2 * (tri (unat n) mod 2 ^ 31)" by (rule mult_mod_right [symmetric])
    finally have h: "?N mod 2 ^ 32 = 2 * (tri (unat n) mod 2 ^ 31)" .
    show ?thesis unfolding h by simp
  qed
  have "unat ((n * n + n) div 2) = ?N mod 2 ^ 32 div 2"
    by (simp add: unat_div_distrib unat_word_ariths mod_simps)
  then have "unat ((n * n + n) div 2) = tri (unat n) mod 2 ^ 31" unfolding half .
  then have u: "unat (code + (n * n + n) div 2) = (unat code + tri (unat n) mod 2 ^ 31) mod 2 ^ 32"
    by (simp add: unat_word_ariths)
  have "probe_at code n (mask b) = unat (code + (n * n + n) div 2) mod 2 ^ b"
  proof -
    have "probe_at code n (mask b) = unat (take_bit b (code + (n * n + n) div 2))"
      unfolding probe_at_def by (simp only: take_bit_eq_mask)
    then show ?thesis unfolding unsigned_take_bit_eq by (simp only: take_bit_eq_mod)
  qed
  also have "\<dots> = (unat code + tri (unat n) mod 2 ^ 31) mod 2 ^ b"
    unfolding u by (rule mod_mod_cancel [OF d(2)])
  also have "\<dots> = (unat code + tri (unat n)) mod 2 ^ b"
    by (metis d(1) mod_add_right_eq mod_mod_cancel)
  finally show ?thesis .
qed

lemma coprime_factor_dvd:
  fixes x y :: nat
  assumes "2 ^ k dvd x * y" "odd x"
  shows "2 ^ k dvd y"
proof -
  have "coprime (2 ^ k) x" using assms(2) by (simp add: coprime_commute)
  with assms(1) show ?thesis by (simp add: coprime_dvd_mult_right_iff)
qed

lemma tri_inj:
  assumes "m < n" "n < 2 ^ b"
  shows "tri m mod 2 ^ b \<noteq> tri n mod 2 ^ b"
proof
  assume e: "tri m mod 2 ^ b = tri n mod 2 ^ b"
  have "tri m \<le> tri n" unfolding tri_def using assms(1) by (intro div_le_mono mult_le_mono) auto
  with e have "2 ^ b dvd tri n - tri m" by (metis mod_eq_dvd_iff_nat)
  then have "2 * 2 ^ b dvd 2 * (tri n - tri m)" by (rule mult_dvd_mono [OF dvd_refl])
  also have "2 * (tri n - tri m) = (n - m) * (n + m + 1)"
  proof -
    obtain d where n: "n = m + d" using assms(1) less_imp_add_positive by blast
    have "2 * (tri n - tri m) = n * (n + 1) - m * (m + 1)" by (simp only: right_diff_distrib' two_tri)
    also have "\<dots> = (n - m) * (n + m + 1)" by (simp add: n algebra_simps)
    finally show ?thesis .
  qed
  finally have d: "2 ^ Suc b dvd (n - m) * (n + m + 1)" by simp
  show False
  proof (cases "odd (n - m)")
    case True
    with d have "2 ^ Suc b dvd n + m + 1" by (rule coprime_factor_dvd)
    then have "2 ^ Suc b \<le> n + m + 1" by (rule dvd_imp_le) simp
    with assms show False by simp
  next
    case False
    then have o': "odd (n + m + 1)" using assms(1) by simp
    have "2 ^ Suc b dvd (n + m + 1) * (n - m)" using d by (simp only: mult.commute)
    then have "2 ^ Suc b dvd n - m" using o' by (rule coprime_factor_dvd)
    then have "2 ^ Suc b \<le> n - m" using assms(1) by (intro dvd_imp_le) auto
    with assms show False by simp
  qed
qed

lemma add_mod_inj:
  fixes c x y k :: nat
  assumes "(c + x) mod k = (c + y) mod k"
  shows "x mod k = y mod k"
proof -
  have "int (c + x) mod int k = int (c + y) mod int k" using assms by (simp only: of_nat_mod [symmetric])
  then have "int x mod int k = int y mod int k" by (simp add: mod_eq_dvd_iff)
  then show ?thesis by (simp only: of_nat_mod [symmetric] of_nat_eq_iff)
qed

lemma probe_inj:
  assumes b: "b \<le> 31" and m: "unat m < 2 ^ b" "unat n < 2 ^ b"
    and e: "probe_at code m (mask b) = probe_at code n (mask b)"
  shows "m = n"
proof (rule ccontr)
  assume "m \<noteq> n"
  then have "unat m \<noteq> unat n" by (simp add: word_unat_eq_iff)
  moreover have "tri (unat m) mod 2 ^ b = tri (unat n) mod 2 ^ b"
    using e unfolding probe_at_tri [OF b] by (rule add_mod_inj)
  ultimately show False using tri_inj [of "unat m" "unat n" b] tri_inj [of "unat n" "unat m" b] m
    by (metis linorder_neqE_nat)
qed

text \<open>So the rounds \<open>0 .. 2 ^ b - 1\<close> meet every bucket exactly once.\<close>

theorem probe_covers:
  assumes "b \<le> 31"
  shows "bij_betw (\<lambda>n. probe_at code (of_nat n) (mask b)) {0..<2 ^ b} {0..<2 ^ b}"
proof -
  have lim: "(2 :: nat) ^ b \<le> 2 ^ 31" using assms by (intro power_increasing) auto
  have u: "unat (of_nat n :: u32) = n" if "n < 2 ^ b" for n
    using that lim by (simp add: unat_of_nat)
  have inj: "inj_on (\<lambda>n. probe_at code (of_nat n) (mask b)) {0..<2 ^ b}"
  proof (rule inj_onI)
    fix x y assume xy: "x \<in> {0..<2 ^ b}" "y \<in> {0..<2 ^ b}"
      "probe_at code (of_nat x) (mask b) = probe_at code (of_nat y) (mask b)"
    then have "(of_nat x :: u32) = of_nat y" by (intro probe_inj [OF assms]) (auto simp: u)
    with xy u show "x = y" by (metis atLeastLessThan_iff)
  qed
  have "(\<lambda>n. probe_at code (of_nat n) (mask b)) ` {0..<2 ^ b} \<subseteq> {0..<2 ^ b}"
    by (auto simp: probe_at_tri [OF assms])
  moreover have "card ((\<lambda>n. probe_at code (of_nat n) (mask b)) ` {0..<2 ^ b}) = card {0..<(2::nat) ^ b}"
    using inj by (rule card_image)
  ultimately show ?thesis using inj by (simp add: bij_betw_def card_subset_eq)
qed

end
