(* ===== verification/Aspec.thy ===== *)
theory Aspec
  imports Prelude
begin

text \<open>
  \<open>Aspec\<close> of \<open>src/object.rs\<close>: how many arguments a native method takes, packed in 24 bits as the
  reference packs them, what the argument check lets through (\<open>bounds\<close>), the compressed copy an
  RProc keeps, and \<open>Method#arity\<close> and \<open>Method#parameters\<close> read from it.
\<close>

type_synonym aspec = u32

section \<open>The constructors and the fields\<close>

definition aspec_none :: aspec where "aspec_none = 0"
definition aspec_req :: "u32 \<Rightarrow> aspec" where "aspec_req n = push_bit 18 (n AND 0x1f)"
definition aspec_opt :: "u32 \<Rightarrow> aspec" where "aspec_opt n = push_bit 13 (n AND 0x1f)"
definition aspec_rest :: aspec where "aspec_rest = push_bit 12 1"
definition aspec_any :: aspec where "aspec_any = aspec_rest"
definition aspec_post :: "u32 \<Rightarrow> aspec" where "aspec_post n = push_bit 7 (n AND 0x1f)"
definition aspec_key :: "u32 \<Rightarrow> bool \<Rightarrow> aspec" where
  "aspec_key n kdict = (push_bit 2 (n AND 0x1f) OR (if kdict then push_bit 1 1 else 0))"
definition aspec_block :: aspec where "aspec_block = 1"
definition aspec_noblock :: aspec where "aspec_noblock = push_bit 23 1"
definition aspec_or :: "aspec \<Rightarrow> aspec \<Rightarrow> aspec" where "aspec_or a b = a OR b"
definition aspec_arg :: "u32 \<Rightarrow> u32 \<Rightarrow> aspec" where
  "aspec_arg req opt = aspec_or (aspec_req req) (aspec_opt opt)"
definition aspec_bits :: "aspec \<Rightarrow> u32" where "aspec_bits a = a"
definition aspec_from_bits :: "u32 \<Rightarrow> aspec" where "aspec_from_bits b = b AND 0xffffff"

definition req_n :: "aspec \<Rightarrow> u32" where "req_n a = drop_bit 18 a AND 0x1f"
definition opt_n :: "aspec \<Rightarrow> u32" where "opt_n a = drop_bit 13 a AND 0x1f"
definition has_rest :: "aspec \<Rightarrow> bool" where "has_rest a \<longleftrightarrow> a AND push_bit 12 1 \<noteq> 0"
definition post_n :: "aspec \<Rightarrow> u32" where "post_n a = drop_bit 7 a AND 0x1f"
definition key_n :: "aspec \<Rightarrow> u32" where "key_n a = drop_bit 2 a AND 0x1f"
definition has_kdict :: "aspec \<Rightarrow> bool" where "has_kdict a \<longleftrightarrow> a AND push_bit 1 1 \<noteq> 0"

definition takes_keywords :: "aspec \<Rightarrow> bool" where
  "takes_keywords a \<longleftrightarrow> key_n a \<noteq> 0 \<or> has_kdict a"

text \<open>\<open>usize::MAX\<close>, no upper bound, is \<open>None\<close>.\<close>

definition bounds :: "aspec \<Rightarrow> nat \<times> nat option" where
  "bounds a =
     (let mn = unat (req_n a + post_n a)
      in (mn, if has_rest a then None else Some (mn + unat (opt_n a))))"

section \<open>The compressed copy\<close>

record compressed =
  c_req :: u32
  c_opt :: u32
  c_rest :: bool
  c_post :: u32
  c_key :: u32
  c_kdict :: bool
  c_block :: bool

definition compressed_is_empty :: "compressed \<Rightarrow> bool" where
  "compressed_is_empty c \<longleftrightarrow> c_req c = 0 \<and> c_opt c = 0 \<and> \<not> c_rest c \<and> c_post c = 0 \<and> c_key c = 0 \<and>
     \<not> c_kdict c \<and> \<not> c_block c"

definition aspec_compressed :: "aspec \<Rightarrow> compressed option" where
  "aspec_compressed a =
     (if a = 0 then None
      else
        let req = req_n a; opt = opt_n a; post = post_n a; key = key_n a;
            over = (req > 7 \<or> opt > 7 \<or> post > 3 \<or> key > 3)
        in Some \<lparr>c_req = (if over \<and> req > 7 then 7 else req),
                 c_opt = (if over \<and> opt > 7 then 7 else opt),
                 c_rest = (if over then True else has_rest a),
                 c_post = (if over \<and> post > 3 then 3 else post),
                 c_key = (if over \<and> key > 3 then 3 else key),
                 c_kdict = has_kdict a, c_block = (a AND 1 \<noteq> 0)\<rparr>)"

definition arity :: "aspec \<Rightarrow> int" where
  "arity a = (case aspec_compressed a of
      None \<Rightarrow> 0
    | Some c \<Rightarrow>
        if compressed_is_empty c then -1
        else let n = int (unat (c_req c + c_post c))
             in if c_rest c \<or> c_opt c \<noteq> 0 then - (n + 1) else n)"

datatype param_kind = P_opt | P_rest | P_key | P_keyrest | P_block

definition parameters :: "aspec \<Rightarrow> (param_kind \<times> u32) list" where
  "parameters a = (case aspec_compressed a of
      Some c \<Rightarrow>
        if compressed_is_empty c then replicate 7 (P_opt, 0)
        else [(P_opt, c_req c), (P_opt, c_opt c), (P_rest, if c_rest c then 1 else 0),
              (P_opt, c_post c), (P_key, c_key c), (P_keyrest, if c_kdict c then 1 else 0),
              (P_block, if c_block c then 1 else 0)]
    | None \<Rightarrow> replicate 7 (P_opt, 0))"

section \<open>What is packed is read back\<close>

text \<open>A spec built from its parts, as the \<open>MRB_ARGS_*\<close> macros combine.\<close>

definition mk_aspec :: "u32 \<Rightarrow> u32 \<Rightarrow> bool \<Rightarrow> u32 \<Rightarrow> u32 \<Rightarrow> bool \<Rightarrow> bool \<Rightarrow> aspec" where
  "mk_aspec r o' rst p k kd blk =
     aspec_or (aspec_or (aspec_or (aspec_or (aspec_or (aspec_req r) (aspec_opt o'))
       (if rst then aspec_rest else aspec_none)) (aspec_post p)) (aspec_key k kd))
       (if blk then aspec_block else aspec_none)"

lemma bit_1f: "bit (0x1f :: u32) i \<longleftrightarrow> i < 5"
proof -
  have "(0x1f :: u32) = mask 5" by (simp add: mask_eq_decr_exp)
  then show ?thesis by (simp only: bit_mask_iff) auto
qed

lemma bit_1_u32: "bit (1 :: u32) i \<longleftrightarrow> i = 0"
  by (auto simp: bit_1_iff)

lemmas aspec_defs = aspec_none_def aspec_req_def aspec_opt_def aspec_rest_def aspec_post_def
  aspec_key_def aspec_block_def aspec_or_def

lemma small_bit: "n < 32 \<Longrightarrow> bit n i \<Longrightarrow> i < (5 :: nat)" for n :: u32
proof -
  assume "n < 32" "bit n i"
  then have "take_bit 5 n = n" by (intro take_bit_small) (simp add: word_less_nat_alt)
  with \<open>bit n i\<close> show ?thesis by (metis bit_take_bit_iff)
qed

lemma bit_field: "bit (push_bit s (n AND 0x1f) :: u32) i \<longleftrightarrow> i < 32 \<and> s \<le> i \<and> i < s + 5 \<and> bit n (i - s)"
  unfolding bit_push_bit_iff bit_and_iff bit_1f by auto

lemma bit_flag: "bit (if b then push_bit s 1 else 0 :: u32) i \<longleftrightarrow> b \<and> i < 32 \<and> i = s"
  unfolding if_distrib [of "\<lambda>x. bit x i"] bit_push_bit_iff bit_1_u32 by auto

lemma bit_flag0: "bit (if b then 1 else 0 :: u32) i \<longleftrightarrow> b \<and> i = 0"
  unfolding if_distrib [of "\<lambda>x. bit x i"] bit_1_u32 by auto

lemma bit_mk_aspec:
  "bit (mk_aspec r o' rst p k kd blk) i \<longleftrightarrow>
     i < 32 \<and> 18 \<le> i \<and> i < 18 + 5 \<and> bit r (i - 18) \<or> i < 32 \<and> 13 \<le> i \<and> i < 13 + 5 \<and> bit o' (i - 13) \<or>
     rst \<and> i < 32 \<and> i = 12 \<or> i < 32 \<and> 7 \<le> i \<and> i < 7 + 5 \<and> bit p (i - 7) \<or>
     i < 32 \<and> 2 \<le> i \<and> i < 2 + 5 \<and> bit k (i - 2) \<or> kd \<and> i < 32 \<and> i = 1 \<or> blk \<and> i = 0"
  unfolding mk_aspec_def aspec_defs bit_or_iff bit_field bit_flag bit_flag0 by (simp only: disj_assoc)

lemma read_field:
  assumes "n < 32" "\<And>i. i < 5 \<Longrightarrow> bit a (s + i) \<longleftrightarrow> bit n i"
  shows "drop_bit s a AND 0x1f = (n :: u32)"
proof (rule bit_word_eqI)
  fix i
  show "bit (drop_bit s a AND 0x1f) i = bit n i"
    unfolding bit_and_iff bit_drop_bit_eq bit_1f comp_def
    using assms(2) [of i] small_bit [OF assms(1), of i] by auto
qed

lemma and_bit_neq_0: "a AND push_bit s 1 \<noteq> 0 \<longleftrightarrow> bit (a :: u32) s"
proof -
  have b: "bit (a AND push_bit s 1) i \<longleftrightarrow> i = s \<and> bit a s" for i
    unfolding bit_and_iff bit_push_bit_iff bit_1_u32 using bit_imp_le_length [of a i] by auto
  show ?thesis
  proof
    show "bit a s \<Longrightarrow> a AND push_bit s 1 \<noteq> 0" using b [of s] by auto
    show "a AND push_bit s 1 \<noteq> 0 \<Longrightarrow> bit a s" 
    proof (rule ccontr)
      assume "\<not> bit a s" and ne: "a AND push_bit s 1 \<noteq> 0"
      then have "a AND push_bit s 1 = 0" by (intro bit_word_eqI) (simp only: b bit_0_eq bot_apply bot_bool_def simp_thms)
      with ne show False ..
    qed
  qed
qed

lemma aspec_fields:
  assumes "r < 32" "o' < 32" "p < 32" "k < 32"
  shows "req_n (mk_aspec r o' rst p k kd blk) = r" "opt_n (mk_aspec r o' rst p k kd blk) = o'"
    "has_rest (mk_aspec r o' rst p k kd blk) = rst" "post_n (mk_aspec r o' rst p k kd blk) = p"
    "key_n (mk_aspec r o' rst p k kd blk) = k" "has_kdict (mk_aspec r o' rst p k kd blk) = kd"
    "mk_aspec r o' rst p k kd blk AND 1 \<noteq> 0 \<longleftrightarrow> blk"
proof -
  let ?a = "mk_aspec r o' rst p k kd blk"
  show "req_n ?a = r" "opt_n ?a = o'" "post_n ?a = p" "key_n ?a = k"
    unfolding req_n_def opt_n_def post_n_def key_n_def
    by (rule read_field; use assms in \<open>auto simp: bit_mk_aspec\<close>)+
  show "has_rest ?a = rst" "has_kdict ?a = kd"
    unfolding has_rest_def has_kdict_def and_bit_neq_0 by (simp_all add: bit_mk_aspec)
  show "?a AND 1 \<noteq> 0 \<longleftrightarrow> blk"
    using and_bit_neq_0 [of ?a 0] by (simp add: bit_mk_aspec)
qed

section \<open>The argument check and the arity\<close>

lemma unat_add_small: "r < 32 \<Longrightarrow> p < 32 \<Longrightarrow> unat (r + p) = unat r + unat (p :: u32)"
  by (simp add: unat_word_ariths word_less_nat_alt)

theorem bounds_mk_aspec:
  assumes "r < 32" "o' < 32" "p < 32" "k < 32"
  shows "bounds (mk_aspec r o' rst p k kd blk) =
    (unat r + unat p, if rst then None else Some (unat r + unat p + unat o'))"
  using assms by (simp add: bounds_def aspec_fields Let_def unat_add_small)

lemma mk_aspec_0: "r < 32 \<Longrightarrow> o' < 32 \<Longrightarrow> p < 32 \<Longrightarrow> k < 32 \<Longrightarrow>
    mk_aspec r o' rst p k kd blk = 0 \<longleftrightarrow> r = 0 \<and> o' = 0 \<and> \<not> rst \<and> p = 0 \<and> k = 0 \<and> \<not> kd \<and> \<not> blk"
proof
  assume a: "r < 32" "o' < 32" "p < 32" "k < 32" and z: "mk_aspec r o' rst p k kd blk = 0"
  show "r = 0 \<and> o' = 0 \<and> \<not> rst \<and> p = 0 \<and> k = 0 \<and> \<not> kd \<and> \<not> blk"
    using aspec_fields [OF a, of rst kd blk, unfolded z]
    by (simp add: req_n_def opt_n_def post_n_def key_n_def has_rest_def has_kdict_def)
qed (simp add: mk_aspec_def aspec_defs)

lemma compressed_fields:
  assumes "r < 32" "o' < 32" "p < 32" "k < 32"
    and "aspec_compressed (mk_aspec r o' rst p k kd blk) = Some c"
  shows "unat (c_req c) = min 7 (unat r)" "unat (c_opt c) = min 7 (unat o')"
    "unat (c_post c) = min 3 (unat p)" "unat (c_key c) = min 3 (unat k)"
    "c_rest c \<longleftrightarrow> (7 < unat r \<or> 7 < unat o' \<or> 3 < unat p \<or> 3 < unat k) \<or> rst"
    "c_kdict c = kd" "c_block c = blk"
proof -
  note f = aspec_fields [OF assms(1-4), of rst kd blk]
  have g: "x > 7 \<longleftrightarrow> 7 < unat x" "x > 3 \<longleftrightarrow> 3 < unat x" for x :: u32
    by (simp_all add: word_less_nat_alt)
  let ?over = "r > 7 \<or> o' > 7 \<or> p > 3 \<or> k > 3"
  have nz: "mk_aspec r o' rst p k kd blk \<noteq> 0" using assms(5) by (auto simp: aspec_compressed_def)
  have c: "c = \<lparr>c_req = (if ?over \<and> r > 7 then 7 else r), c_opt = (if ?over \<and> o' > 7 then 7 else o'),
      c_rest = (if ?over then True else rst), c_post = (if ?over \<and> p > 3 then 3 else p),
      c_key = (if ?over \<and> k > 3 then 3 else k), c_kdict = kd, c_block = blk\<rparr>"
    using assms(5) unfolding aspec_compressed_def Let_def if_not_P [OF nz] f option.inject by (rule sym)
  show "unat (c_req c) = min 7 (unat r)" "unat (c_opt c) = min 7 (unat o')"
    "unat (c_post c) = min 3 (unat p)" "unat (c_key c) = min 3 (unat k)"
    "c_rest c \<longleftrightarrow> (7 < unat r \<or> 7 < unat o' \<or> 3 < unat p \<or> 3 < unat k) \<or> rst"
    "c_kdict c = kd" "c_block c = blk"
    unfolding c by (auto simp: g)
qed

text \<open>
  The arity Ruby sees: the number of required arguments when the number is fixed, else its
  complement; past the counts the compressed copy can hold they are clamped and the method
  counts as variadic.
\<close>

theorem arity_mk_aspec:
  assumes "r < 32" "o' < 32" "p < 32" "k < 32"
  shows "arity (mk_aspec r o' rst p k kd blk) =
    (let over = (7 < unat r \<or> 7 < unat o' \<or> 3 < unat p \<or> 3 < unat k);
         n = int (min 7 (unat r) + min 3 (unat p))
     in if over \<or> rst \<or> o' \<noteq> 0 then - (n + 1) else n)"
proof -
  let ?a = "mk_aspec r o' rst p k kd blk"
  let ?over = "7 < unat r \<or> 7 < unat o' \<or> 3 < unat p \<or> 3 < unat k"
  have n: "int (unat (x + y)) = int (min 7 (unat r) + min 3 (unat p))"
    if "unat x = min 7 (unat r)" "unat y = min 3 (unat p)" for x y :: u32
    by (subst unat_add_small) (use that in \<open>auto simp: word_less_nat_alt\<close>)
  show ?thesis
  proof (cases "aspec_compressed ?a")
    case None
    then show ?thesis using mk_aspec_0 [OF assms, of rst kd blk]
      by (auto simp: arity_def aspec_compressed_def Let_def split: if_splits)
  next
    case (Some c)
    note c = compressed_fields [OF assms Some]
    have z: "c_opt c = 0 \<longleftrightarrow> o' = 0" "c_req c = 0 \<longleftrightarrow> r = 0" "c_post c = 0 \<longleftrightarrow> p = 0" "c_key c = 0 \<longleftrightarrow> k = 0"
      using c by (simp_all add: unat_eq_0 [symmetric] min_def)
    have "?a \<noteq> 0" using Some by (auto simp: aspec_compressed_def split: if_splits)
    then have "\<not> compressed_is_empty c"
      using mk_aspec_0 [OF assms, of rst kd blk] c(5-7) by (auto simp: compressed_is_empty_def z)
    then show ?thesis using n [OF c(1,3)] c(5) z(1)
      by (simp add: arity_def Some Let_def del: of_nat_unat)
  qed
qed

text \<open>A method whose counts fit: a fixed arity is exactly the number the check lets through.\<close>

theorem arity_bounds:
  assumes "r < 8" "o' < 8" "p < 4" "k < 4"
  shows "let a = mk_aspec r o' rst p k kd blk; (mn, mx) = bounds a
    in if arity a \<ge> 0 then mx = Some mn \<and> arity a = int mn else mx \<noteq> Some mn \<and> arity a = - int mn - 1"
proof -
  have s: "r < 32" "o' < 32" "p < 32" "k < 32"
    using assms by (simp_all add: word_less_nat_alt)
  have "unat r < 8" "unat o' < 8" "unat p < 4" "unat k < 4" "unat o' = 0 \<longleftrightarrow> o' = 0"
    using assms by (simp_all add: word_less_nat_alt unat_eq_0)
  moreover from this have "min 7 (unat r) = unat r" "min 3 (unat p) = unat p" by linarith+
  ultimately show ?thesis
    unfolding Let_def bounds_mk_aspec [OF s] arity_mk_aspec [OF s]
    by (auto simp del: of_nat_unat)
qed

end
