(* ===== verification/Object.thy ===== *)
theory Object
  imports BigInt ArrayData HashData Aspec
begin

text \<open>
  The heap of \<open>src/object.rs\<close>: the kinds of objects with their data, the slot table with its
  flags and its free list, allocation, the mark phase and the sweep. Native functions, closures
  and compiled patterns are opaque (a number stands for the address). A \<open>HashMap\<close> is the list
  of its entries. \<open>None\<close> is a panic: an index out of range, or an assertion of the collector.
\<close>

section \<open>Objects\<close>

datatype rmethod =
    M_Ruby obj_id
  | M_Native nat aspec
  | M_Closure nat
  | M_AttrReader sym
  | M_AttrWriter sym
  | M_Undef

datatype method_ref =
    R_Ruby obj_id
  | R_Native nat aspec
  | R_Closure
  | R_AttrReader sym
  | R_AttrWriter sym

fun method_ref_of :: "rmethod \<Rightarrow> method_ref option" where
  "method_ref_of (M_Ruby p) = Some (R_Ruby p)"
| "method_ref_of (M_Native f a) = Some (R_Native f a)"
| "method_ref_of (M_Closure _) = Some R_Closure"
| "method_ref_of (M_AttrReader s) = Some (R_AttrReader s)"
| "method_ref_of (M_AttrWriter s) = Some (R_AttrWriter s)"
| "method_ref_of M_Undef = None"

datatype vis = Public | Private | Protected

datatype instance_kind =
  IK_Object | IK_String | IK_Array | IK_Hash | IK_Range | IK_Exception | IK_Proc | IK_Fiber
  | IK_NoAlloc | IK_Set | IK_Istruct | IK_Module | IK_Class | IK_Unset

record class_data =
  cl_name :: "sym option"
  cl_superclass :: "obj_id option"
  cl_methods :: "(sym \<times> rmethod) list"
  cl_consts :: "(sym \<times> rvalue) list"
  cl_cvars :: "(sym \<times> rvalue) list"
  cl_is_module :: bool
  cl_is_singleton :: bool
  cl_attached :: "rvalue option"
  cl_iclass_of :: "obj_id option"
  cl_vis :: "(sym \<times> vis) list"
  cl_origin :: "obj_id option"
  cl_origin_of :: "obj_id option"
  cl_outer :: "obj_id option"
  cl_instance_kind :: "instance_kind option"

record proc_data =
  pr_irep :: nat
  pr_upper :: "obj_id option"
  pr_env :: "obj_id option"
  pr_target_class :: "obj_id option"
  pr_strict :: bool
  pr_scope :: bool
  pr_orphan :: bool
  pr_mid :: "sym option"

record env_data =
  ev_ctx :: nat
  ev_base :: nat
  ev_len :: nat
  ev_bidx :: nat
  ev_attached :: bool
  ev_values :: "rvalue list"
  ev_mid :: "sym option"
  ev_target_class :: "obj_id option"
  ev_vis :: vis
  ev_modfunc :: bool
  ev_vis_break :: bool
  ev_svar :: "rvalue list option"
  ev_svar_fwd :: "obj_id option"

text \<open>\<open>TaskPlace\<close>: where a task is in the scheduler's queues; \<open>u64::MAX\<close> and \<open>u8::MAX\<close> are "nowhere".\<close>

record task_place =
  tp_seq :: u64
  tp_deadline :: u64
  tp_target :: "obj_id option"
  tp_q :: u8
  tp_qpri :: u8

definition place_none :: task_place where
  "place_none = \<lparr>tp_seq = 0, tp_deadline = - 1, tp_target = None, tp_q = - 1, tp_qpri = 0\<rparr>"

definition place_queued :: "task_place \<Rightarrow> (nat \<times> u8 \<times> u64) option" where
  "place_queued t = (if tp_q t = - 1 then None else Some (unat (tp_q t), tp_qpri t, tp_seq t))"

definition place_sleep_key :: "task_place \<Rightarrow> (u64 \<times> u64) option" where
  "place_sleep_key t = (if tp_deadline t = - 1 then None else Some (tp_deadline t, tp_seq t))"

definition place_wait_key :: "task_place \<Rightarrow> (obj_id \<times> u64) option" where
  "place_wait_key t = map_option (\<lambda>o'. (o', tp_seq t)) (tp_target t)"

definition place_set :: "nat \<Rightarrow> u8 \<times> u64 \<Rightarrow> (u64 \<times> u64) option \<Rightarrow> (obj_id \<times> u64) option \<Rightarrow> task_place" where
  "place_set q key sleep wait =
     \<lparr>tp_seq = snd key, tp_deadline = (case sleep of None \<Rightarrow> - 1 | Some k \<Rightarrow> fst k),
      tp_target = map_option fst wait, tp_q = of_nat q, tp_qpri = fst key\<rparr>"

definition place_unindex :: "task_place \<Rightarrow> task_place" where
  "place_unindex t = t\<lparr>tp_deadline := - 1, tp_target := None\<rparr>"

definition place_unsleep :: "task_place \<Rightarrow> task_place" where
  "place_unsleep t = t\<lparr>tp_deadline := - 1\<rparr>"

record task_data =
  tk_ctx :: "nat option"
  tk_priority :: u8
  tk_status :: u8
  tk_reason :: u8
  tk_timeslice :: u8
  tk_name :: rvalue
  tk_result :: rvalue
  tk_wakeup_tick :: u32
  tk_join :: "obj_id option"
  tk_queue :: "obj_id option"
  tk_instructions :: u64
  tk_place :: task_place

datatype break_tag = BT_Break | BT_BlockBreak | BT_Jump

datatype obj_kind =
    K_Object
  | K_Break break_tag nat rvalue
  | K_Class class_data
  | K_String bytes
  | K_Array array_data
  | K_Hash hash_data
  | K_Range rvalue rvalue bool
  | K_Proc proc_data
  | K_Env env_data
  | K_Exception
  | K_Fiber "nat option"
  | K_Task task_data
  | K_BigInt bigint
  | K_Regexp "nat option"
  | K_MatchData rvalue rvalue "u32 list"
  | K_Data u32 u64

record heap_object =
  ho_class :: obj_id
  ho_ivars :: "(sym \<times> rvalue) list"
  ho_frozen :: bool
  ho_binary :: bool
  ho_no_ivars :: bool
  ho_tt_struct :: bool
  ho_kind :: obj_kind

definition iv_p :: "heap_object \<Rightarrow> bool" where
  "iv_p x =
     ((case ho_kind x of
         K_Object \<Rightarrow> True | K_Class _ \<Rightarrow> True | K_Hash _ \<Rightarrow> True | K_Exception \<Rightarrow> True
       | K_Data _ _ \<Rightarrow> True | K_Task _ \<Rightarrow> True | K_Regexp _ \<Rightarrow> True | K_MatchData _ _ _ \<Rightarrow> True
       | _ \<Rightarrow> False) \<and> \<not> ho_no_ivars x)"

section \<open>The heap\<close>

definition MARKED :: u8 where "MARKED = 1"
definition FREE :: u8 where "FREE = 2"
definition OBJ_BYTES :: nat where "OBJ_BYTES = 64"
definition GC_MIN_INTERVAL :: nat where "GC_MIN_INTERVAL = 4096"

record heap =
  hp_objs :: "heap_object list"
  hp_flags :: "u8 list"
  hp_free :: "u32 list"
  hp_allocated_since_gc :: nat
  hp_alloc_threshold :: nat
  hp_malloc_increase :: nat
  hp_malloc_threshold :: nat
  hp_gc_pending :: bool
  hp_freed_data :: "(u32 \<times> u64) list"
  hp_method_serial :: u64

definition heap_new :: heap where
  "heap_new = \<lparr>hp_objs = [], hp_flags = [], hp_free = [], hp_allocated_since_gc = 0,
     hp_alloc_threshold = GC_MIN_INTERVAL, hp_malloc_increase = 0, hp_malloc_threshold = 16777216,
     hp_gc_pending = False, hp_freed_data = [], hp_method_serial = 1\<rparr>"

fun payload_bytes :: "obj_kind \<Rightarrow> nat" where
  "payload_bytes (K_String s) = length s"
| "payload_bytes (K_Array a) = 16 * ary_len a"
| "payload_bytes (K_Hash h) = 40 * h_len h"
| "payload_bytes (K_BigInt b) = 4 * length (bmag b)"
| "payload_bytes _ = 0"

fun is_class_kind :: "obj_kind \<Rightarrow> bool" where
  "is_class_kind (K_Class _) = True"
| "is_class_kind _ = False"

definition new_object :: "obj_id \<Rightarrow> obj_kind \<Rightarrow> heap_object" where
  "new_object c k = \<lparr>ho_class = c, ho_ivars = [], ho_frozen = False, ho_binary = False,
     ho_no_ivars = False, ho_tt_struct = False, ho_kind = k\<rparr>"

definition heap_alloc :: "heap \<Rightarrow> obj_id \<Rightarrow> obj_kind \<Rightarrow> heap \<times> obj_id" where
  "heap_alloc h c k =
     (let n = hp_allocated_since_gc h + 1;
          m = hp_malloc_increase h + (OBJ_BYTES + payload_bytes k);
          pend = (hp_gc_pending h \<or> n \<ge> hp_alloc_threshold h \<or>
                  (hp_malloc_threshold h \<noteq> 0 \<and> m > hp_malloc_threshold h));
          ser = (if is_class_kind k then hp_method_serial h + 1 else hp_method_serial h);
          h1 = h\<lparr>hp_allocated_since_gc := n, hp_malloc_increase := m, hp_gc_pending := pend,
                 hp_method_serial := ser\<rparr>;
          x = new_object c k
      in if hp_free h1 \<noteq> []
         then let i = last (hp_free h1)
              in (h1\<lparr>hp_free := butlast (hp_free h1), hp_flags := (hp_flags h1)[unat i := 0],
                     hp_objs := (hp_objs h1)[unat i := x]\<rparr>, i)
         else (h1\<lparr>hp_objs := hp_objs h1 @ [x], hp_flags := hp_flags h1 @ [0]\<rparr>,
               of_nat (length (hp_objs h1))))"

definition heap_alloc_raw :: "heap \<Rightarrow> obj_kind \<Rightarrow> heap \<times> obj_id" where
  "heap_alloc_raw h k = heap_alloc h (- 1) k"

definition heap_get :: "heap \<Rightarrow> obj_id \<Rightarrow> heap_object option" where
  "heap_get h i = (if unat i < length (hp_objs h) then Some (hp_objs h ! unat i) else None)"

text \<open>\<open>get_mut\<close>: the object is replaced by what \<open>f\<close> makes of it.\<close>

definition heap_update :: "heap \<Rightarrow> obj_id \<Rightarrow> (heap_object \<Rightarrow> heap_object) \<Rightarrow> heap" where
  "heap_update h i f =
     (if unat i < length (hp_objs h)
      then h\<lparr>hp_objs := (hp_objs h)[unat i := f (hp_objs h ! unat i)]\<rparr> else h)"

definition heap_len :: "heap \<Rightarrow> nat" where "heap_len h = length (hp_objs h)"

definition slot_free :: "u8 list \<Rightarrow> nat \<Rightarrow> bool" where
  "slot_free fs i \<longleftrightarrow> \<not> (i < length fs) \<or> fs ! i AND FREE \<noteq> 0"

definition heap_is_free :: "heap \<Rightarrow> obj_id \<Rightarrow> bool" where
  "heap_is_free h i = slot_free (hp_flags h) (unat i)"

definition heap_ids :: "heap \<Rightarrow> obj_id list" where
  "heap_ids h = filter (\<lambda>i. \<not> heap_is_free h i) (map of_nat [0..<length (hp_objs h)])"

definition heap_is_empty :: "heap \<Rightarrow> bool" where "heap_is_empty h \<longleftrightarrow> hp_objs h = []"

definition heap_live_count :: "heap \<Rightarrow> nat" where
  "heap_live_count h = length (hp_objs h) - length (hp_free h)"

subsection \<open>Access by kind\<close>

definition heap_kind :: "heap \<Rightarrow> obj_id \<Rightarrow> obj_kind option" where
  "heap_kind h i = map_option ho_kind (heap_get h i)"

definition heap_class :: "heap \<Rightarrow> obj_id \<Rightarrow> class_data option" where
  "heap_class h i = (case heap_kind h i of Some (K_Class c) \<Rightarrow> Some c | _ \<Rightarrow> None)"

definition heap_class_mut :: "heap \<Rightarrow> obj_id \<Rightarrow> (class_data \<Rightarrow> class_data) \<Rightarrow> heap option" where
  "heap_class_mut h i f = (case heap_class h i of
      None \<Rightarrow> None
    | Some c \<Rightarrow> Some (heap_update (h\<lparr>hp_method_serial := hp_method_serial h + 1\<rparr>) i
        (\<lambda>x. x\<lparr>ho_kind := K_Class (f c)\<rparr>)))"

definition heap_is_class :: "heap \<Rightarrow> obj_id \<Rightarrow> bool" where
  "heap_is_class h i \<longleftrightarrow> heap_class h i \<noteq> None"

definition heap_ivar_get :: "heap \<Rightarrow> obj_id \<Rightarrow> sym \<Rightarrow> rvalue option" where
  "heap_ivar_get h i name = (case heap_get h i of
      None \<Rightarrow> None
    | Some x \<Rightarrow> Some (case find (\<lambda>(n, _). n = name) (ho_ivars x) of Some (_, v) \<Rightarrow> v | None \<Rightarrow> VNil))"

fun ivars_set :: "(sym \<times> rvalue) list \<Rightarrow> sym \<Rightarrow> rvalue \<Rightarrow> (sym \<times> rvalue) list" where
  "ivars_set [] name v = [(name, v)]"
| "ivars_set ((n, w) # ivs) name v = (if n = name then (n, v) # ivs else (n, w) # ivars_set ivs name v)"

definition heap_ivar_set :: "heap \<Rightarrow> obj_id \<Rightarrow> sym \<Rightarrow> rvalue \<Rightarrow> heap" where
  "heap_ivar_set h i name v = heap_update h i (\<lambda>x. x\<lparr>ho_ivars := ivars_set (ho_ivars x) name v\<rparr>)"

definition heap_bigint :: "heap \<Rightarrow> obj_id \<Rightarrow> bigint option" where
  "heap_bigint h i = (case heap_kind h i of Some (K_BigInt b) \<Rightarrow> Some b | _ \<Rightarrow> None)"

definition heap_string :: "heap \<Rightarrow> obj_id \<Rightarrow> bytes option" where
  "heap_string h i = (case heap_kind h i of Some (K_String s) \<Rightarrow> Some s | _ \<Rightarrow> None)"

definition heap_array :: "heap \<Rightarrow> obj_id \<Rightarrow> rvalue list option" where
  "heap_array h i = (case heap_kind h i of Some (K_Array a) \<Rightarrow> Some (ary_elems a) | _ \<Rightarrow> None)"

definition heap_plain_array :: "heap \<Rightarrow> obj_id \<Rightarrow> rvalue list option" where
  "heap_plain_array h i = (case heap_get h i of
      None \<Rightarrow> None
    | Some x \<Rightarrow> (case ho_kind x of
          K_Array a \<Rightarrow> if \<not> ho_tt_struct x then Some (ary_elems a) else None | _ \<Rightarrow> None))"

definition heap_proc_data :: "heap \<Rightarrow> obj_id \<Rightarrow> proc_data option" where
  "heap_proc_data h i = (case heap_kind h i of Some (K_Proc p) \<Rightarrow> Some p | _ \<Rightarrow> None)"

definition heap_env :: "heap \<Rightarrow> obj_id \<Rightarrow> env_data option" where
  "heap_env h i = (case heap_kind h i of Some (K_Env e) \<Rightarrow> Some e | _ \<Rightarrow> None)"

section \<open>Allocation and instance variables\<close>

definition heap_inv :: "heap \<Rightarrow> bool" where
  "heap_inv h \<longleftrightarrow> length (hp_flags h) = length (hp_objs h) \<and> length (hp_objs h) \<le> B32 \<and>
     distinct (hp_free h) \<and> (\<forall>f \<in> set (hp_flags h). f AND MARKED = 0) \<and>
     (\<forall>i. i \<in> set (hp_free h) \<longleftrightarrow> unat i < length (hp_objs h) \<and> heap_is_free h i)"

lemma slot_free_update:
  "i < length fs \<Longrightarrow> slot_free (fs[i := f]) j \<longleftrightarrow> (if j = i then f AND FREE \<noteq> 0 else slot_free fs j)"
  by (auto simp: slot_free_def nth_list_update)

lemma heap_new_inv: "heap_inv heap_new"
  by (simp add: heap_inv_def heap_new_def)

text \<open>A new object goes to a slot no live object has; every other object stays what it was.\<close>

lemma heap_alloc_fresh:
  assumes inv: "heap_inv h" and room: "length (hp_objs h) < B32" and a: "heap_alloc h c k = (h', i)"
  shows "heap_is_free h i" "heap_get h' i = Some (new_object c k)" "\<not> heap_is_free h' i"
    and "j \<noteq> i \<Longrightarrow> \<not> heap_is_free h j \<Longrightarrow> heap_get h' j = heap_get h j \<and> \<not> heap_is_free h' j"
    and "heap_inv h'"
proof -
  note d = heap_inv_def heap_is_free_def heap_get_def
  have "heap_is_free h i \<and> heap_get h' i = Some (new_object c k) \<and> \<not> heap_is_free h' i \<and>
    (\<forall>j. j \<noteq> i \<longrightarrow> \<not> heap_is_free h j \<longrightarrow> heap_get h' j = heap_get h j \<and> \<not> heap_is_free h' j) \<and> heap_inv h'"
  proof (cases "hp_free h = []")
    case False
    let ?i = "last (hp_free h)"
    have h': "i = ?i" "hp_objs h' = (hp_objs h)[unat ?i := new_object c k]"
      "hp_flags h' = (hp_flags h)[unat ?i := 0]" "hp_free h' = butlast (hp_free h)"
      using a False by (auto simp: heap_alloc_def Let_def)
    have l: "?i \<in> set (hp_free h)" using False by simp
    then have r: "unat ?i < length (hp_objs h)" "heap_is_free h ?i" "length (hp_flags h) = length (hp_objs h)"
      using inv by (auto simp: heap_inv_def)
    have fr: "heap_is_free h' j \<longleftrightarrow> j \<noteq> ?i \<and> heap_is_free h j" for j
      unfolding heap_is_free_def h' using r by (simp add: slot_free_update word_unat_eq_iff)
    have db: "set (butlast (hp_free h)) = set (hp_free h) - {?i}" "distinct (butlast (hp_free h))"
      using inv False by (cases "hp_free h" rule: rev_cases; simp add: heap_inv_def)+
    have "heap_inv h'"
      unfolding heap_inv_def h' db(1)
      using inv db(2) fr r by (auto simp: heap_inv_def h' set_update_subset_insert dest!: subsetD [OF set_update_subset_insert])
    moreover have "heap_get h' j = heap_get h j" if "j \<noteq> ?i" for j
      using that by (simp add: heap_get_def h' word_unat_eq_iff)
    ultimately show ?thesis using r fr h'(1) by (auto simp: heap_get_def h'(2))
  next
    case True
    have h': "i = of_nat (length (hp_objs h))" "hp_objs h' = hp_objs h @ [new_object c k]"
      "hp_flags h' = hp_flags h @ [0]" "hp_free h' = []"
      using a True by (auto simp: heap_alloc_def Let_def)
    have i: "unat i = length (hp_objs h)" using room by (simp add: h' unat_of_nat B32_def)
    have fl: "length (hp_flags h) = length (hp_objs h)" using inv by (simp add: heap_inv_def)
    have fr: "heap_is_free h' j \<longleftrightarrow> j \<noteq> i \<and> heap_is_free h j" for j
      unfolding heap_is_free_def h'(3) slot_free_def using fl i
      by (auto simp: nth_append word_unat_eq_iff)
    have nofree: "\<not> heap_is_free h j" if "unat j < length (hp_objs h)" for j
      using inv that True by (auto simp: heap_inv_def)
    have "heap_inv h'"
      using inv True room fl nofree fr i by (auto simp: heap_inv_def h' less_Suc_eq word_unat_eq_iff)
    moreover have "heap_is_free h i" using fl i by (simp add: heap_is_free_def slot_free_def)
    moreover have "heap_get h' j = heap_get h j \<and> \<not> heap_is_free h' j" if "j \<noteq> i" "\<not> heap_is_free h j" for j
      using that fl fr by (auto simp: heap_get_def h'(2) nth_append heap_is_free_def slot_free_def)
    ultimately show ?thesis using fr i by (simp add: heap_get_def h'(2))
  qed
  then show "heap_is_free h i" "heap_get h' i = Some (new_object c k)" "\<not> heap_is_free h' i"
    "j \<noteq> i \<Longrightarrow> \<not> heap_is_free h j \<Longrightarrow> heap_get h' j = heap_get h j \<and> \<not> heap_is_free h' j" "heap_inv h'"
    by auto
qed

lemma ivars_set_find:
  "find (\<lambda>(n, _). n = m) (ivars_set ivs name v) =
    (if m = name then Some (name, v) else find (\<lambda>(n, _). n = m) ivs)"
  by (induction ivs name v rule: ivars_set.induct) auto

lemma heap_get_update:
  "heap_get (heap_update h i f) j = (if j = i then map_option f (heap_get h i) else heap_get h j)"
  by (simp add: heap_update_def heap_get_def nth_list_update word_unat_eq_iff [symmetric])

theorem ivar_get_set:
  assumes "heap_get h i \<noteq> None"
  shows "heap_ivar_get (heap_ivar_set h i name v) j m =
    (if j = i \<and> m = name then Some v else heap_ivar_get h j m)"
  using assms
  by (auto simp: heap_ivar_get_def heap_ivar_set_def heap_get_update ivars_set_find split: option.split)

end
