(* ===== verification/HashIndex.thy ===== *)
theory HashIndex
  imports HashData
begin

text \<open>
  The searches of \<open>src/hashtable.rs\<close> that no Ruby takes part in (\<open>native_code\<close>,
  \<open>native_eql\<close>, \<open>find_native\<close>, \<open>probe_native\<close>, the placing loop of \<open>h_rebuild_native\<close>), and
  the invariant of the index: every entry is met by the probe from its code before an empty
  bucket is. The heap is here only through what \<open>heap.string\<close> answers (\<open>str\<close>).
\<close>

section \<open>Native keys\<close>

definition f64_le_bytes :: "f64 \<Rightarrow> bytes" where
  "f64_le_bytes f = map (\<lambda>i. ucast (drop_bit (8 * i) f)) [0..<8]"

definition float_code :: "f64 \<Rightarrow> u32" where
  "float_code f = byte_hash (f64_le_bytes (if f64_eq f 0 then 0 else f))"

definition native_code :: "(obj_id \<Rightarrow> bytes option) \<Rightarrow> rvalue \<Rightarrow> u32 option" where
  "native_code str key = (case key of
      VInt i \<Rightarrow> Some (mix (ucast i))
    | VSym s \<Rightarrow> Some (mix s)
    | VFloat f \<Rightarrow> Some (mix (float_code f))
    | VObj k \<Rightarrow> (case str k of None \<Rightarrow> None | Some b \<Rightarrow> Some (mix (byte_hash b)))
    | _ \<Rightarrow> None)"

definition native_eql :: "(obj_id \<Rightarrow> bytes option) \<Rightarrow> rvalue \<Rightarrow> bytes option \<Rightarrow> rvalue \<Rightarrow> bool" where
  "native_eql str key kb stored = (case key of
      VFloat x \<Rightarrow> (case stored of VFloat y \<Rightarrow> f64_eq x y \<or> (\<not> f64_eq x x \<and> x = y) | _ \<Rightarrow> False)
    | VObj _ \<Rightarrow> (case (kb, stored) of (Some a, VObj y) \<Rightarrow> str y = Some a | _ \<Rightarrow> False)
    | _ \<Rightarrow> value_eq key stored)"

text \<open>\<open>kb\<close>: the bytes of a String key; the outer \<open>None\<close> is a key Ruby answers for.\<close>

definition key_bytes :: "(obj_id \<Rightarrow> bytes option) \<Rightarrow> rvalue \<Rightarrow> bytes option option" where
  "key_bytes str key = (case key of
      VInt _ \<Rightarrow> Some None | VSym _ \<Rightarrow> Some None | VFloat _ \<Rightarrow> Some None
    | VObj k \<Rightarrow> (case str k of None \<Rightarrow> None | Some b \<Rightarrow> Some (Some b))
    | _ \<Rightarrow> None)"

text \<open>The probe loops, \<open>k\<close> rounds left from round \<open>n\<close>.\<close>

fun find_loop :: "(obj_id \<Rightarrow> bytes option) \<Rightarrow> hash_data \<Rightarrow> rvalue \<Rightarrow> bytes option \<Rightarrow> u32 \<Rightarrow> u32 \<Rightarrow> u32 \<Rightarrow> nat \<Rightarrow>
    nat option" where
  "find_loop str h key kb code msk n 0 = None"
| "find_loop str h key kb code msk n (Suc k) =
     (let v = h_ib h ! probe_at code n msk
      in if v = EMPTY then None
         else if v = DELETED then find_loop str h key kb code msk (n + 1) k
         else if native_eql str key kb (fst (h_entries h ! v)) then Some v
         else find_loop str h key kb code msk (n + 1) k)"

definition position :: "('a \<Rightarrow> bool) \<Rightarrow> 'a list \<Rightarrow> nat option" where
  "position P xs = (let i = length (takeWhile (\<lambda>x. \<not> P x) xs) in if i < length xs then Some i else None)"

definition find_native :: "(obj_id \<Rightarrow> bytes option) \<Rightarrow> hash_data \<Rightarrow> rvalue \<Rightarrow> nat option option" where
  "find_native str h key = (case key_bytes str key of
      None \<Rightarrow> None
    | Some kb \<Rightarrow>
        if \<not> h_is_ht h
        then Some (position (\<lambda>e. native_eql str key kb (fst e)) (h_entries h))
        else case native_code str key of
            None \<Rightarrow> None
          | Some code \<Rightarrow> Some (find_loop str h key kb code (h_mask h) 0 (Suc (unat (h_mask h)))))"

datatype probe_result = Hit nat | Vacant nat

fun probe_loop :: "(obj_id \<Rightarrow> bytes option) \<Rightarrow> hash_data \<Rightarrow> rvalue \<Rightarrow> bytes option \<Rightarrow> u32 \<Rightarrow> u32 \<Rightarrow> u32 \<Rightarrow> nat \<Rightarrow>
    probe_result option" where
  "probe_loop str h key kb code msk n 0 = None"
| "probe_loop str h key kb code msk n (Suc k) =
     (let b = probe_at code n msk; v = h_ib h ! b
      in if v = EMPTY then Some (Vacant b)
         else if v = DELETED then probe_loop str h key kb code msk (n + 1) k
         else if native_eql str key kb (fst (h_entries h ! v)) then Some (Hit v)
         else probe_loop str h key kb code msk (n + 1) k)"

definition probe_native :: "(obj_id \<Rightarrow> bytes option) \<Rightarrow> hash_data \<Rightarrow> rvalue \<Rightarrow> probe_result option" where
  "probe_native str h key = (case key_bytes str key of
      None \<Rightarrow> None
    | Some kb \<Rightarrow> (case native_code str key of
          None \<Rightarrow> None
        | Some code \<Rightarrow> probe_loop str h key kb code (h_mask h) 0 (Suc (unat (h_mask h)))))"

text \<open>\<open>for (p, c) in codes.into_iter().enumerate() { h.place(c, p); }\<close>\<close>

fun place_all :: "hash_data \<Rightarrow> nat \<Rightarrow> u32 list \<Rightarrow> hash_data" where
  "place_all h p [] = h"
| "place_all h p (c # cs) = place_all (h_place h c p) (p + 1) cs"

definition native_codes :: "(obj_id \<Rightarrow> bytes option) \<Rightarrow> hash_data \<Rightarrow> u32 list option" where
  "native_codes str h = those (map (\<lambda>e. native_code str (fst e)) (h_entries h))"

section \<open>The contract of keys\<close>

text \<open>
  What the table relies on where keys are compared and hashed: an equivalence on the keys in
  question, under which equal keys have equal codes.
\<close>

locale hash_keys =
  fixes key :: "'k \<Rightarrow> bool" and eq :: "'k \<Rightarrow> 'k \<Rightarrow> bool" and code :: "'k \<Rightarrow> 'c"
  assumes eq_refl: "key a \<Longrightarrow> eq a a"
    and eq_sym: "key a \<Longrightarrow> key b \<Longrightarrow> eq a b \<Longrightarrow> eq b a"
    and eq_trans: "key a \<Longrightarrow> key b \<Longrightarrow> key c \<Longrightarrow> eq a b \<Longrightarrow> eq b c \<Longrightarrow> eq a c"
    and eq_code: "key a \<Longrightarrow> key b \<Longrightarrow> eq a b \<Longrightarrow> code a = code b"
begin

definition unique :: "'k list \<Rightarrow> bool" where
  "unique ks \<longleftrightarrow> (\<forall>i < length ks. \<forall>j < length ks. eq (ks ! i) (ks ! j) \<longrightarrow> i = j)"

lemma unique_index:
  assumes "unique ks" "\<forall>k \<in> set ks. key k" "key a" "i < length ks" "j < length ks" "eq a (ks ! i)" "eq a (ks ! j)"
  shows "i = j"
proof -
  have k: "key (ks ! i)" "key (ks ! j)" using assms by auto
  have "eq (ks ! i) (ks ! j)"
    using eq_trans [OF k(1) assms(3) k(2) eq_sym [OF assms(3) k(1) assms(6)] assms(7)] .
  with assms show ?thesis by (auto simp: unique_def)
qed

lemma unique_snoc:
  assumes "unique ks" "\<forall>k \<in> set ks. key k" "key a" "\<forall>k \<in> set ks. \<not> eq a k"
  shows "unique (ks @ [a])"
proof -
  have "\<not> eq k a" if "k \<in> set ks" for k using assms eq_sym that by blast
  with assms show ?thesis by (auto simp: unique_def nth_append less_Suc_eq)
qed

end

definition native_key :: "(obj_id \<Rightarrow> bytes option) \<Rightarrow> rvalue \<Rightarrow> bool" where
  "native_key str k \<longleftrightarrow> native_code str k \<noteq> None"

definition keq :: "(obj_id \<Rightarrow> bytes option) \<Rightarrow> rvalue \<Rightarrow> rvalue \<Rightarrow> bool" where
  "keq str a b = (case key_bytes str a of None \<Rightarrow> False | Some kb \<Rightarrow> native_eql str a kb b)"

lemma key_bytes_native: "key_bytes str k = None \<longleftrightarrow> native_code str k = None"
  by (auto simp: key_bytes_def native_code_def split: rvalue.splits option.splits)

lemma f64_eq_0: "f64_eq x 0 \<longleftrightarrow> f64_is_zero x"
  using f64_zero_not_nan [of x] f64_zero_not_nan [of 0] by (auto simp: f64_eq_def f64_is_zero_def)

lemma float_code_eq: "f64_eq x y \<Longrightarrow> float_code x = float_code y"
  using f64_eq_0 [of x] f64_eq_0 [of y] by (auto simp: float_code_def f64_eq_def)

interpretation native: hash_keys "native_key str" "keq str" "\<lambda>k. the (native_code str k)" for str
proof
  note d = native_key_def keq_def native_code_def key_bytes_def native_eql_def
  fix a b c
  show "native_key str a \<Longrightarrow> keq str a a"
    by (auto simp: d split: rvalue.splits option.splits)
  show "keq str a b \<Longrightarrow> native_key str a \<Longrightarrow> native_key str b \<Longrightarrow> keq str b a"
    by (cases a; cases b) (auto simp: d f64_eq_sym split: option.splits)
  show "keq str a b \<Longrightarrow> keq str b c \<Longrightarrow> native_key str a \<Longrightarrow> native_key str b \<Longrightarrow> native_key str c \<Longrightarrow> keq str a c"
    by (cases a; cases b; cases c) (auto simp: d f64_eq_sym dest: f64_eq_trans split: option.splits)
  show "keq str a b \<Longrightarrow> native_key str a \<Longrightarrow> native_key str b \<Longrightarrow> the (native_code str a) = the (native_code str b)"
    by (cases a; cases b) (auto simp: d float_code_eq split: option.splits)
qed

section \<open>The index\<close>

definition pr :: "nat \<Rightarrow> u32 \<Rightarrow> nat \<Rightarrow> nat" where
  "pr b c n = probe_at c (of_nat n) (mask b)"

definition ib_ok :: "nat \<Rightarrow> nat list \<Rightarrow> u32 list \<Rightarrow> nat \<Rightarrow> bool" where
  "ib_ok b ib cs u \<longleftrightarrow> b \<le> 31 \<and> length ib = 2 ^ b \<and> length cs \<le> 2 ^ b \<and>
     (\<forall>i < 2 ^ b. ib ! i = EMPTY \<or> ib ! i = DELETED \<or> ib ! i < length cs) \<and>
     (\<forall>p < length cs. \<exists>n < 2 ^ b. ib ! pr b (cs ! p) n = p \<and> (\<forall>m < n. ib ! pr b (cs ! p) m \<noteq> EMPTY)) \<and>
     card {i. i < 2 ^ b \<and> ib ! i \<noteq> EMPTY} \<le> u"

lemma pr_lt: "b \<le> 31 \<Longrightarrow> pr b c n < 2 ^ b"
  by (simp add: pr_def probe_at_tri)

lemma pr_surj:
  assumes "b \<le> 31" "i < 2 ^ b"
  obtains n where "n < 2 ^ b" "pr b c n = i"
proof -
  have "i \<in> (\<lambda>n. probe_at c (of_nat n) (mask b)) ` {0..<2 ^ b}"
    using probe_covers [OF assms(1), of c] assms(2) by (simp add: bij_betw_def)
  then show ?thesis using that by (auto simp: pr_def)
qed

lemma pow31: "b \<le> 31 \<Longrightarrow> (2 :: nat) ^ b \<le> 2147483648"
  using power_increasing [of b 31 "2 :: nat"] by simp

lemma small_not_reserved: "b \<le> 31 \<Longrightarrow> p < 2 ^ b \<Longrightarrow> p \<noteq> EMPTY \<and> p \<noteq> DELETED"
  using pow31 [of b] by (simp add: hash_consts)

text \<open>With an empty bucket anywhere, every probe meets one.\<close>

lemma first_empty:
  assumes "b \<le> 31" "length ib = 2 ^ b" "card {i. i < 2 ^ b \<and> ib ! i \<noteq> EMPTY} < 2 ^ b"
  obtains n where "n < 2 ^ b" "ib ! pr b c n = EMPTY" "\<forall>m < n. ib ! pr b c m \<noteq> EMPTY"
proof -
  have "\<exists>i < 2 ^ b. ib ! i = EMPTY"
  proof (rule ccontr)
    assume "\<not> ?thesis"
    then have "{i. i < 2 ^ b \<and> ib ! i \<noteq> EMPTY} = {..<2 ^ b}" by auto
    with assms(3) show False by simp
  qed
  then obtain i where i: "i < 2 ^ b" "ib ! i = EMPTY" by blast
  obtain n where "n < 2 ^ b" "pr b c n = i" using pr_surj [OF assms(1) i(1)] .
  with i have e: "\<exists>n. ib ! pr b c n = EMPTY \<and> n < 2 ^ b" by blast
  define k where "k = (LEAST n. ib ! pr b c n = EMPTY \<and> n < 2 ^ b)"
  have k: "ib ! pr b c k = EMPTY \<and> k < 2 ^ b" unfolding k_def using e by (rule LeastI_ex)
  have "ib ! pr b c m \<noteq> EMPTY" if "m < k" for m
    using not_less_Least [of m "\<lambda>n. ib ! pr b c n = EMPTY \<and> n < 2 ^ b"] that k by (auto simp: k_def)
  with k that show thesis by blast
qed

text \<open>Writing the next position into the first empty bucket of its probe.\<close>

lemma ib_ok_add:
  assumes ok: "ib_ok b ib cs u" and n: "n < 2 ^ b" "ib ! pr b c n = EMPTY" "\<forall>m < n. ib ! pr b c m \<noteq> EMPTY"
    and len: "length cs < 2 ^ b"
  shows "ib_ok b (ib[pr b c n := length cs]) (cs @ [c]) (Suc u)"
proof -
  let ?i = "pr b c n" and ?ib = "ib[pr b c n := length cs]"
  have b: "b \<le> 31" and l: "length ib = 2 ^ b" using ok by (auto simp: ib_ok_def)
  have i: "?i < 2 ^ b" by (rule pr_lt [OF b])
  have r: "length cs \<noteq> EMPTY" using small_not_reserved [OF b len] by blast
  have at: "?ib ! j = (if j = ?i then length cs else ib ! j)" if "j < 2 ^ b" for j
    using that l by (simp add: nth_list_update)
  have keep: "?ib ! pr b d m \<noteq> EMPTY" if "ib ! pr b d m \<noteq> EMPTY" for d m
    using that at [OF pr_lt [OF b, of d m]] r by auto
  have "\<exists>m < 2 ^ b. ?ib ! pr b ((cs @ [c]) ! p) m = p \<and> (\<forall>k < m. ?ib ! pr b ((cs @ [c]) ! p) k \<noteq> EMPTY)"
    if "p < Suc (length cs)" for p
  proof (cases "p = length cs")
    case True
    then show ?thesis using n keep at [OF i] by (intro exI [of _ n]) (auto simp: nth_append)
  next
    case False
    then have p: "p < length cs" using that by simp
    then obtain m where m: "m < 2 ^ b" "ib ! pr b (cs ! p) m = p" "\<forall>k < m. ib ! pr b (cs ! p) k \<noteq> EMPTY"
      using ok by (auto simp: ib_ok_def)
    have "p \<noteq> EMPTY" using small_not_reserved [OF b, of p] p len by simp
    then have "pr b (cs ! p) m \<noteq> ?i" using m(2) n(2) by metis
    then show ?thesis
      using m keep at [OF pr_lt [OF b]] p by (intro exI [of _ m]) (auto simp: nth_append)
  qed
  moreover have "{j. j < 2 ^ b \<and> ?ib ! j \<noteq> EMPTY} = insert ?i {j. j < 2 ^ b \<and> ib ! j \<noteq> EMPTY}"
    using i r by (auto simp: at split: if_splits)
  then have "card {j. j < 2 ^ b \<and> ?ib ! j \<noteq> EMPTY} \<le> Suc u"
    using ok by (simp add: ib_ok_def card_insert_if)
  moreover have "\<forall>j < 2 ^ b. ?ib ! j = EMPTY \<or> ?ib ! j = DELETED \<or> ?ib ! j < Suc (length cs)"
    using ok by (auto simp: at ib_ok_def)
  ultimately show ?thesis using b l len by (simp add: ib_ok_def)
qed

lemma place_loop_first:
  assumes b: "b \<le> 31" and n: "m \<le> n" "n < 2 ^ b" "ib ! pr b c n = EMPTY" "\<forall>k. m \<le> k \<longrightarrow> k < n \<longrightarrow> ib ! pr b c k \<noteq> EMPTY"
  shows "place_loop c (mask b) p (of_nat m) (2 ^ b - m) ib = ib[pr b c n := p]"
  using n
proof (induction "2 ^ b - m" arbitrary: m)
  case (Suc k)
  have e: "2 ^ b - m = Suc (2 ^ b - Suc m)" using Suc.hyps(2) by simp
  have s: "(of_nat m + 1 :: u32) = of_nat (Suc m)" by simp
  show ?case
  proof (cases "m = n")
    case True
    then show ?thesis unfolding e using Suc.prems by (simp add: pr_def [symmetric] Let_def)
  next
    case False
    then have lt: "m < n" "ib ! pr b c m \<noteq> EMPTY" using Suc.prems by auto
    have "place_loop c (mask b) p (of_nat (Suc m)) (2 ^ b - Suc m) ib = ib[pr b c n := p]"
      using Suc.prems lt Suc.hyps(2) by (intro Suc.hyps(1)) auto
    with lt show ?thesis unfolding e by (simp add: pr_def [symmetric] Let_def s del: of_nat_Suc)
  qed
qed simp

lemma mask_unat: "b \<le> 31 \<Longrightarrow> Suc (unat (mask b :: u32)) = 2 ^ b"
proof -
  assume b: "b \<le> 31"
  have lt: "(2 :: nat) ^ b < 2 ^ 32" using b by (intro power_strict_increasing) auto
  have p: "unat (push_bit b 1 :: u32) = 2 ^ b"
    using lt by (simp only: unsigned_push_bit_eq) (simp add: take_bit_eq_mod push_bit_eq_mult)
  then have "(push_bit b 1 :: u32) \<noteq> 0" by (metis power_not_zero unsigned_0 zero_neq_numeral)
  then have "unat ((push_bit b 1 :: u32) - 1) = unat (push_bit b 1 :: u32) - 1" by (rule unat_minus_one)
  then show ?thesis unfolding mask_bits [OF b, symmetric] p by (simp only: p) simp
qed

definition index_ok :: "hash_data \<Rightarrow> u32 list \<Rightarrow> bool" where
  "index_ok h cs \<longleftrightarrow> h_is_ht h \<and> ib_ok (h_ib_bit h) (h_ib h) cs (h_n_used h) \<and> h_n_used h \<le> 2 ^ h_ib_bit h"

lemma h_mask_eq: "ib_ok (h_ib_bit h) ib cs u \<Longrightarrow> h_mask h = mask (h_ib_bit h)"
  unfolding h_mask_def by (rule mask_bits) (simp add: ib_ok_def)

lemma place_ok:
  assumes "ib_ok (h_ib_bit h) (h_ib h) cs u" "u < 2 ^ h_ib_bit h" "length cs < 2 ^ h_ib_bit h"
  shows "ib_ok (h_ib_bit h) (h_ib (h_place h c (length cs))) (cs @ [c]) (Suc u)"
proof -
  let ?b = "h_ib_bit h"
  have b: "?b \<le> 31" "length (h_ib h) = 2 ^ ?b" "card {i. i < 2 ^ ?b \<and> h_ib h ! i \<noteq> EMPTY} < 2 ^ ?b"
    using assms by (auto simp: ib_ok_def)
  obtain n where n: "n < 2 ^ ?b" "h_ib h ! pr ?b c n = EMPTY" "\<forall>m < n. h_ib h ! pr ?b c m \<noteq> EMPTY"
    using first_empty [OF b] .
  have "h_ib (h_place h c (length cs)) = (h_ib h)[pr ?b c n := length cs]"
    using place_loop_first [OF b(1), of 0 n "h_ib h" c "length cs"] n
    by (simp add: h_place_def h_mask_eq [OF assms(1)] mask_unat [OF b(1)])
  with ib_ok_add [OF assms(1) n assms(3)] show ?thesis by simp
qed

lemma h_place_fields [simp]:
  "h_ib_bit (h_place h c p) = h_ib_bit h" "h_entries (h_place h c p) = h_entries h"
  "h_slots (h_place h c p) = h_slots h" "h_n_used (h_place h c p) = h_n_used h"
  "h_ea_capa (h_place h c p) = h_ea_capa h" "h_epoch (h_place h c p) = h_epoch h"
  "h_default (h_place h c p) = h_default h"
  by (simp_all add: h_place_def)

lemma place_all_fields [simp]:
  "h_ib_bit (place_all h p cs) = h_ib_bit h" "h_entries (place_all h p cs) = h_entries h"
  "h_slots (place_all h p cs) = h_slots h" "h_n_used (place_all h p cs) = h_n_used h"
  "h_ea_capa (place_all h p cs) = h_ea_capa h" "h_epoch (place_all h p cs) = h_epoch h"
  "h_default (place_all h p cs) = h_default h"
  by (induction h p cs rule: place_all.induct) simp_all

lemma place_all_ok:
  assumes "ib_ok (h_ib_bit h) (h_ib h) cs (length cs)" "length cs + length ds \<le> 2 ^ h_ib_bit h"
  shows "ib_ok (h_ib_bit h) (h_ib (place_all h (length cs) ds)) (cs @ ds) (length cs + length ds)"
  using assms
proof (induction ds arbitrary: h cs)
  case (Cons d ds)
  have "ib_ok (h_ib_bit h) (h_ib (h_place h d (length cs))) (cs @ [d]) (Suc (length cs))"
    using Cons.prems by (intro place_ok) auto
  then show ?case using Cons.IH [of "h_place h d (length cs)" "cs @ [d]"] Cons.prems by simp
qed simp

text \<open>A rebuild: an empty table of the width, every code placed in order.\<close>

lemma rebuild_ok:
  assumes "b \<le> 31" "0 < b" "length cs \<le> 2 ^ b"
  shows "index_ok (place_all (h_set_n_used (ht_reset h b) (length cs)) 0 cs) cs"
proof -
  have "ib_ok b (replicate (2 ^ b) EMPTY) [] 0" using assms(1) by (simp add: ib_ok_def)
  then have "ib_ok b (h_ib (place_all (h_set_n_used (ht_reset h b) (length cs)) 0 cs)) cs (length cs)"
    using place_all_ok [of "h_set_n_used (ht_reset h b) (length cs)" "[]" cs] assms(3)
    by (simp add: ht_reset_def h_set_n_used_def)
  then show ?thesis using assms by (simp add: index_ok_def h_is_ht_def ht_reset_def h_set_n_used_def)
qed

section \<open>Removal\<close>

lemma nth_list_remove_at: "p < length xs \<Longrightarrow> q < length xs - 1 \<Longrightarrow>
    list_remove_at p xs ! q = xs ! (if q < p then q else Suc q)"
  by (auto simp: list_remove_at_def nth_append)

lemma length_list_remove_at: "p < length xs \<Longrightarrow> length (list_remove_at p xs) = length xs - 1"
  by (simp add: list_remove_at_def)

lemma ib_ok_remove:
  assumes ok: "ib_ok b ib cs u" and p: "p < length cs"
  shows "ib_ok b (map (bucket_removed p) ib) (list_remove_at p cs) u"
proof -
  have b: "b \<le> 31" and l: "length ib = 2 ^ b" and lc: "length cs \<le> 2 ^ b" using ok by (auto simp: ib_ok_def)
  have res: "q \<noteq> EMPTY \<and> q \<noteq> DELETED" if "q < length cs" for q
    using small_not_reserved [OF b, of q] that lc by simp
  have D: "DELETED \<noteq> EMPTY" by (simp add: hash_consts)
  have br: "bucket_removed p (ib ! i) = EMPTY \<longleftrightarrow> ib ! i = EMPTY" if "i < 2 ^ b" for i
  proof -
    have "ib ! i = EMPTY \<or> ib ! i = DELETED \<or> ib ! i < length cs" using ok that by (auto simp: ib_ok_def)
    moreover have "ib ! i < length cs \<Longrightarrow> ib ! i - 1 \<noteq> EMPTY" using res [of "ib ! i - 1"] by auto
    ultimately show ?thesis using D res [OF p] by (auto simp: bucket_removed_def)
  qed
  have len: "length (list_remove_at p cs) = length cs - 1" by (rule length_list_remove_at [OF p])
  have "\<exists>n < 2 ^ b. map (bucket_removed p) ib ! pr b (list_remove_at p cs ! q) n = q \<and>
      (\<forall>m < n. map (bucket_removed p) ib ! pr b (list_remove_at p cs ! q) m \<noteq> EMPTY)"
    if q: "q < length cs - 1" for q
  proof -
    let ?q = "if q < p then q else Suc q"
    have "?q < length cs" using q by auto
    then obtain n where n: "n < 2 ^ b" "ib ! pr b (cs ! ?q) n = ?q" "\<forall>m < n. ib ! pr b (cs ! ?q) m \<noteq> EMPTY"
      using ok unfolding ib_ok_def by blast
    have v: "bucket_removed p ?q = q" using res [OF \<open>?q < length cs\<close>] by (auto simp: bucket_removed_def)
    show ?thesis
      unfolding nth_list_remove_at [OF p q] using n v br pr_lt [OF b] l
      by (intro exI [of _ n]) (auto simp del: if_split)
  qed
  moreover have "{i. i < 2 ^ b \<and> map (bucket_removed p) ib ! i \<noteq> EMPTY} = {i. i < 2 ^ b \<and> ib ! i \<noteq> EMPTY}"
    using l by (intro Collect_cong conj_cong) (simp_all add: br)
  moreover have "bucket_removed p (ib ! i) = EMPTY \<or> bucket_removed p (ib ! i) = DELETED \<or>
      bucket_removed p (ib ! i) < length cs - 1" if "i < 2 ^ b" for i
  proof -
    have "ib ! i = EMPTY \<or> ib ! i = DELETED \<or> ib ! i < length cs" using ok that by (auto simp: ib_ok_def)
    then show ?thesis using p by (auto simp: bucket_removed_def)
  qed
  ultimately show ?thesis using ok l len lc by (simp add: ib_ok_def)
qed

section \<open>The searches find the key\<close>

definition probe_match :: "(obj_id \<Rightarrow> bytes option) \<Rightarrow> hash_data \<Rightarrow> rvalue \<Rightarrow> bytes option \<Rightarrow> u32 \<Rightarrow> nat \<Rightarrow> bool" where
  "probe_match str h key kb c n \<longleftrightarrow>
     (let v = h_ib h ! pr (h_ib_bit h) c n
      in v \<noteq> DELETED \<and> native_eql str key kb (fst (h_entries h ! v)))"

lemma find_loop_probe: "find_loop str h key kb c msk n k =
    (case probe_loop str h key kb c msk n k of Some (Hit v) \<Rightarrow> Some v | _ \<Rightarrow> None)"
  by (induction str h key kb c msk n k rule: find_loop.induct) (simp_all add: Let_def)

lemma probe_loop_first:
  assumes b: "h_ib_bit h = b" "b \<le> 31" and n: "m \<le> n" "n < 2 ^ b" "h_ib h ! pr b c n = EMPTY"
    "\<forall>k. m \<le> k \<longrightarrow> k < n \<longrightarrow> h_ib h ! pr b c k \<noteq> EMPTY"
  shows "probe_loop str h key kb c (mask b) (of_nat m) (2 ^ b - m) =
    Some (case find (probe_match str h key kb c) [m..<n] of
            None \<Rightarrow> Vacant (pr b c n) | Some k \<Rightarrow> Hit (h_ib h ! pr b c k))"
  using n
proof (induction "2 ^ b - m" arbitrary: m)
  case (Suc k)
  have e: "2 ^ b - m = Suc (2 ^ b - Suc m)" using Suc.hyps(2) by simp
  have s: "(of_nat m + 1 :: u32) = of_nat (Suc m)" by simp
  show ?case
  proof (cases "m = n")
    case True
    then show ?thesis unfolding e using Suc.prems by (simp add: pr_def [symmetric] Let_def)
  next
    case False
    then have lt: "m < n" "h_ib h ! pr b c m \<noteq> EMPTY" using Suc.prems by auto
    have "probe_loop str h key kb c (mask b) (of_nat (Suc m)) (2 ^ b - Suc m) =
        Some (case find (probe_match str h key kb c) [Suc m..<n] of
                None \<Rightarrow> Vacant (pr b c n) | Some k \<Rightarrow> Hit (h_ib h ! pr b c k))"
      using Suc.prems lt Suc.hyps(2) by (intro Suc.hyps(1)) auto
    with lt b show ?thesis unfolding e
      by (simp add: pr_def [symmetric] Let_def s upt_conv_Cons probe_match_def del: of_nat_Suc upt_Suc)
  qed
qed simp

definition entry_codes :: "(obj_id \<Rightarrow> bytes option) \<Rightarrow> hash_data \<Rightarrow> u32 list" where
  "entry_codes str h = map (\<lambda>e. the (native_code str (fst e))) (h_entries h)"

definition entry_keys :: "hash_data \<Rightarrow> rvalue list" where
  "entry_keys h = map fst (h_entries h)"

lemma length_entry_codes [simp]: "length (entry_codes str h) = length (h_entries h)"
  by (simp add: entry_codes_def)

text \<open>What the probe answers: the entry with the key, else the first empty bucket of its probe.\<close>

lemma probe_native_spec:
  assumes ok: "index_ok h (entry_codes str h)" and room: "h_n_used h < 2 ^ h_ib_bit h"
    and keys: "\<forall>k \<in> set (entry_keys h). native_key str k" "native.unique str (entry_keys h)"
    and key: "key_bytes str key = Some kb" "native_code str key = Some c"
  obtains (hit) p where "p < h_len h" "keq str key (entry_keys h ! p)" "probe_native str h key = Some (Hit p)"
  | (vacant) n where "\<forall>k \<in> set (entry_keys h). \<not> keq str key k" "n < 2 ^ h_ib_bit h"
      "h_ib h ! pr (h_ib_bit h) c n = EMPTY" "\<forall>m < n. h_ib h ! pr (h_ib_bit h) c m \<noteq> EMPTY"
      "probe_native str h key = Some (Vacant (pr (h_ib_bit h) c n))"
proof -
  let ?b = "h_ib_bit h" and ?M = "probe_match str h key kb c"
  have ib: "ib_ok ?b (h_ib h) (entry_codes str h) (h_n_used h)" using ok by (simp add: index_ok_def)
  then have b: "?b \<le> 31" "length (h_ib h) = 2 ^ ?b" "card {i. i < 2 ^ ?b \<and> h_ib h ! i \<noteq> EMPTY} < 2 ^ ?b"
    using room by (auto simp: ib_ok_def)
  obtain n where n: "n < 2 ^ ?b" "h_ib h ! pr ?b c n = EMPTY" "\<forall>m < n. h_ib h ! pr ?b c m \<noteq> EMPTY"
    using first_empty [OF b] .
  have eq: "native_eql str key kb k \<longleftrightarrow> keq str key k" for k using key by (simp add: keq_def)
  have pn: "probe_native str h key =
      Some (case find ?M [0..<n] of None \<Rightarrow> Vacant (pr ?b c n) | Some k \<Rightarrow> Hit (h_ib h ! pr ?b c k))"
    using probe_loop_first [OF refl b(1), of 0 n c str key kb] n key
    by (simp add: probe_native_def h_mask_eq [OF ib] mask_unat [OF b(1)])
  have live: "h_ib h ! pr ?b c k < h_len h" if "k < n" "h_ib h ! pr ?b c k \<noteq> DELETED" for k
    using that n(3) ib pr_lt [OF b(1), of c k] by (auto simp: ib_ok_def h_len_def)
  show thesis
  proof (cases "find ?M [0..<n]")
    case (Some k)
    then have k: "k < n" "?M k" by (auto simp: find_Some_iff)
    then have "h_ib h ! pr ?b c k < h_len h" using live by (simp add: probe_match_def Let_def)
    with k Some pn show thesis
      by (intro hit [of "h_ib h ! pr ?b c k"]) (auto simp: probe_match_def Let_def eq entry_keys_def h_len_def)
  next
    case None
    have "\<not> keq str key k" if kin: "k \<in> set (entry_keys h)" for k
    proof
      assume e: "keq str key k"
      obtain p where p: "p < h_len h" "k = entry_keys h ! p"
        using kin by (auto simp: in_set_conv_nth entry_keys_def h_len_def)
      have cp: "entry_codes str h ! p = c"
        using native.eq_code [OF _ _ e] kin keys(1) key p
        by (auto simp: entry_codes_def entry_keys_def h_len_def native_key_def)
      obtain m where m: "m < 2 ^ ?b" "h_ib h ! pr ?b c m = p" "\<forall>j < m. h_ib h ! pr ?b c j \<noteq> EMPTY"
        using ib p(1) cp unfolding ib_ok_def h_len_def by (metis length_entry_codes)
      have np: "p \<noteq> EMPTY" "p \<noteq> DELETED"
        using small_not_reserved [OF b(1), of p] p ib by (auto simp: ib_ok_def h_len_def)
      have "m < n" using m np n by (metis linorder_neqE_nat)
      moreover have "?M m" using m np e p by (simp add: probe_match_def Let_def eq entry_keys_def h_len_def)
      ultimately show False using None by (auto simp: find_None_iff)
    qed
    with None pn n show thesis by (intro vacant [of n]) auto
  qed
qed

lemma position_Some: "position P xs = Some i \<longleftrightarrow> i < length xs \<and> P (xs ! i) \<and> (\<forall>j < i. \<not> P (xs ! j))"
proof
  let ?i = "length (takeWhile (\<lambda>x. \<not> P x) xs)"
  assume "position P xs = Some i"
  then have i: "i = ?i" "?i < length xs" by (auto simp: position_def Let_def split: if_splits)
  have "P (xs ! ?i)" using nth_length_takeWhile [OF i(2)] by simp
  moreover have "\<not> P (xs ! j)" if "j < ?i" for j
    using that by (metis nth_mem set_takeWhileD takeWhile_nth)
  ultimately show "i < length xs \<and> P (xs ! i) \<and> (\<forall>j < i. \<not> P (xs ! j))" using i by simp
next
  assume i: "i < length xs \<and> P (xs ! i) \<and> (\<forall>j < i. \<not> P (xs ! j))"
  then have "takeWhile (\<lambda>x. \<not> P x) xs = take i xs" by (intro takeWhile_eq_take_P_nth) auto
  with i show "position P xs = Some i" by (simp add: position_def)
qed

lemma position_map: "position P (map f xs) = position (P \<circ> f) xs"
  by (simp add: position_def takeWhile_map comp_def)

lemma position_None: "position P xs = None \<longleftrightarrow> (\<forall>x \<in> set xs. \<not> P x)"
  by (induction xs) (auto simp: position_def Let_def split: if_splits)

definition keys_ok :: "(obj_id \<Rightarrow> bytes option) \<Rightarrow> hash_data \<Rightarrow> bool" where
  "keys_ok str h \<longleftrightarrow> (\<forall>k \<in> set (entry_keys h). native_key str k) \<and> native.unique str (entry_keys h) \<and>
     (h_is_ht h \<longrightarrow> index_ok h (entry_codes str h) \<and> h_n_used h < 2 ^ h_ib_bit h)"

text \<open>\<open>find_native\<close> answers the position of the key in the entries, whichever way they are kept.\<close>

lemma find_native_spec:
  assumes ok: "keys_ok str h" and key: "native_key str key"
  shows "find_native str h key = Some (position (keq str key) (entry_keys h))"
proof -
  obtain kb c where kb: "key_bytes str key = Some kb" "native_code str key = Some c"
    using key key_bytes_native [of str key] by (auto simp: native_key_def)
  have keys: "\<forall>k \<in> set (entry_keys h). native_key str k" "native.unique str (entry_keys h)"
    using ok by (auto simp: keys_ok_def)
  show ?thesis
  proof (cases "h_is_ht h")
    case False
    have "native_eql str key kb = keq str key" using kb by (auto simp: keq_def)
    then show ?thesis using False kb by (simp only: find_native_def entry_keys_def position_map) (simp add: comp_def)
  next
    case True
    then have i: "index_ok h (entry_codes str h)" "h_n_used h < 2 ^ h_ib_bit h" using ok by (auto simp: keys_ok_def)
    have f: "find_native str h key = Some (case probe_native str h key of Some (Hit v) \<Rightarrow> Some v | _ \<Rightarrow> None)"
      using True kb by (simp add: find_native_def probe_native_def find_loop_probe)
    from i keys kb show ?thesis
    proof (cases rule: probe_native_spec)
      case (hit p)
      have "\<not> keq str key (entry_keys h ! j)" if "j < p" for j
        using native.unique_index [OF keys(2,1) key, of p j] hit that by (auto simp: entry_keys_def h_len_def)
      with hit have "position (keq str key) (entry_keys h) = Some p"
        by (simp add: position_Some) (simp add: entry_keys_def h_len_def)
      with hit f show ?thesis by simp
    next
      case (vacant n)
      then show ?thesis using f by (simp add: position_None [THEN iffD2])
    qed
  qed
qed

end
