(* ===== verification/BigConv.thy ===== *)
theory BigConv
  imports BigInt
begin

text \<open>
  Text and bytes, the conversions of \<open>src/bigint.rs\<close>: \<open>digit_val\<close>, \<open>base_chunk\<close>,
  \<open>from_str\<close>, \<open>to_string_radix\<close>, \<open>from_bytes_le\<close>, \<open>from_f64\<close> (on the bit pattern of the
  double; \<open>to_f64\<close> is floating-point arithmetic and is not modelled). The last section shows
  that reading what was printed gives the value back, in every base.
\<close>

section \<open>Digits\<close>

definition digit_val :: "u8 \<Rightarrow> u32 option" where
  "digit_val c =
     (if 48 \<le> c \<and> c \<le> 57 then Some (ucast (c - 48))
      else if 97 \<le> c \<and> c \<le> 122 then Some (ucast (c - 97) + 10)
      else if 65 \<le> c \<and> c \<le> 90 then Some (ucast (c - 65) + 10)
      else None)"

text \<open>\<open>if d < 10 { b'0' + d as u8 } else { b'a' + (d - 10) as u8 }\<close>\<close>

definition digit_char :: "u32 \<Rightarrow> u8" where
  "digit_char d = (if d < 10 then 48 + ucast d else 97 + ucast (d - 10))"

text \<open>
  \<open>while p * base <= u32::MAX\<close>: the largest power of the base that fits in a limb. A base below
  2 would never end the loop; the code asserts \<open>2 \<le> base \<le> 36\<close>, so the model stops there.
\<close>

function base_chunk_loop :: "u64 \<Rightarrow> u64 \<Rightarrow> nat \<Rightarrow> u32 \<times> nat" where
  "base_chunk_loop base p k =
     (if 2 \<le> base \<and> 1 \<le> p \<and> base \<le> 36 \<and> p * base \<le> 0xFFFFFFFF \<and> p \<le> 0xFFFFFFFF
      then base_chunk_loop base (p * base) (Suc k) else (ucast p, k))"
  by pat_completeness auto
termination
proof (relation "measure (\<lambda>(_, p, _). B32 - unat p)")
  fix base p :: u64 and k
  assume a: "2 \<le> base \<and> 1 \<le> p \<and> base \<le> 36 \<and> p * base \<le> 0xFFFFFFFF \<and> p \<le> 0xFFFFFFFF"
  then have b: "2 \<le> unat base" "unat base \<le> 36" "1 \<le> unat p" "unat p < B32"
    by (simp_all add: word_le_nat_alt B32_def)
  have "unat p * unat base < B32 * B32"
    using b by (intro mult_strict_mono') (auto simp: B32_def)
  then have "unat (p * base) = unat p * unat base" by (rule unat_mul_u64)
  with b have "unat p < unat (p * base)" by simp
  with b(4) show "((base, p * base, Suc k), (base, p, k)) \<in> measure (\<lambda>(_, p, _). B32 - unat p)"
    by simp
qed simp

declare base_chunk_loop.simps [simp del]

definition base_chunk :: "u32 \<Rightarrow> u32 \<times> nat" where
  "base_chunk base = base_chunk_loop (ucast base) (ucast base) 1"

section \<open>Reading and printing\<close>

text \<open>
  The digit loop of \<open>from_str\<close>: the magnitude, the digits gathered for the next limb (\<open>acc\<close>, \<open>n\<close>
  of them) and whether a digit was seen. \<open>None\<close>: a character that is no digit of the base.
\<close>

fun from_str_loop :: "u32 \<Rightarrow> u32 \<Rightarrow> nat \<Rightarrow> u8 list \<Rightarrow> mag \<Rightarrow> u32 \<Rightarrow> nat \<Rightarrow> bool \<Rightarrow>
    (mag \<times> u32 \<times> nat \<times> bool) option" where
  "from_str_loop base chunk k [] m acc n anyd = Some (m, acc, n, anyd)"
| "from_str_loop base chunk k (c # s) m acc n anyd =
     (if c = 95 then from_str_loop base chunk k s m acc n anyd
      else case digit_val c of
          None \<Rightarrow> None
        | Some d \<Rightarrow>
            if d \<ge> base then None
            else let acc' = acc * base + d; n' = Suc n
                 in if n' = k then from_str_loop base chunk k s (umul_small m chunk acc') 0 0 True
                    else from_str_loop base chunk k s m acc' n' True)"

text \<open>\<open>let mut m = base; for _ in 1..n { m *= base; }\<close>\<close>

fun power_loop :: "u32 \<Rightarrow> nat \<Rightarrow> u32 \<Rightarrow> u32" where
  "power_loop base 0 m = m"
| "power_loop base (Suc n) m = power_loop base n (m * base)"

definition split_sign :: "u8 list \<Rightarrow> bool \<times> u8 list" where
  "split_sign s = (case s of
      [] \<Rightarrow> (False, [])
    | c # s' \<Rightarrow> if c = 45 then (True, s') else if c = 43 then (False, s') else (False, s))"

definition big_from_str :: "u8 list \<Rightarrow> u32 \<Rightarrow> bigint option" where
  "big_from_str s base =
     (let (n, digits) = split_sign s;
          (chunk, k) = base_chunk base
      in case from_str_loop base chunk k digits [] 0 0 False of
          None \<Rightarrow> None
        | Some (m, acc, cnt, anyd) \<Rightarrow>
            if \<not> anyd then None
            else Some (big_make n
              (if cnt > 0 then umul_small m (power_loop base (cnt - 1) base) acc else m)))"

text \<open>The inner loop of \<open>to_string_radix\<close>: at most \<open>k\<close> digits of \<open>r\<close>, the lowest first.\<close>

fun chunk_digits :: "u32 \<Rightarrow> bool \<Rightarrow> nat \<Rightarrow> u32 \<Rightarrow> u8 list" where
  "chunk_digits base lst 0 r = []"
| "chunk_digits base lst (Suc k) r =
     (if lst \<and> r = 0 then [] else digit_char (r mod base) # chunk_digits base lst k (r div base))"

partial_function (option) digits_loop :: "u32 \<Rightarrow> u32 \<Rightarrow> nat \<Rightarrow> mag \<Rightarrow> u8 list \<Rightarrow> u8 list option" where
  "digits_loop base chunk k t out =
     (if t = [] then Some out
      else let (t', r) = udiv_small t chunk
           in digits_loop base chunk k t' (out @ chunk_digits base (t' = []) k r))"

definition big_to_string_radix :: "bigint \<Rightarrow> u32 \<Rightarrow> u8 list option" where
  "big_to_string_radix x base =
     (if big_is_zero x then Some [48]
      else let (chunk, k) = base_chunk base
           in case digits_loop base chunk k (bmag x) [] of
               None \<Rightarrow> None
             | Some out \<Rightarrow> Some (rev (if bneg x then out @ [45] else out)))"

section \<open>Bytes and doubles\<close>

text \<open>\<open>u32::from_le_bytes\<close> of a chunk padded with zeros.\<close>

definition byte_at :: "u8 list \<Rightarrow> nat \<Rightarrow> u8" where
  "byte_at bs i = (if i < length bs then bs ! i else 0)"

definition from_le_bytes :: "u8 list \<Rightarrow> limb" where
  "from_le_bytes bs = ucast (byte_at bs 0) OR push_bit 8 (ucast (byte_at bs 1)) OR
     push_bit 16 (ucast (byte_at bs 2)) OR push_bit 24 (ucast (byte_at bs 3))"

fun chunks4 :: "u8 list \<Rightarrow> limb list" where
  "chunks4 [] = []"
| "chunks4 (b # bs) = from_le_bytes (take 4 (b # bs)) # chunks4 (drop 3 bs)"

definition big_from_bytes_le :: "u8 list \<Rightarrow> bigint" where
  "big_from_bytes_le bytes = big_make False (chunks4 bytes)"

text \<open>
  \<open>from_f64\<close> of the double with the bit pattern \<open>f\<close>: sign in bit 63, exponent in bits 52 to 62,
  fraction below. \<open>f < 0.0\<close> is the sign bit of a number that is not a zero.
\<close>

definition big_from_f64 :: "u64 \<Rightarrow> bigint" where
  "big_from_f64 f =
     (let abits = f AND 0x7FFFFFFFFFFFFFFF;
          ex = unat (drop_bit 52 abits AND 0x7FF);
          frac = abits AND 0x000FFFFFFFFFFFFF;
          n = (bit f 63 \<and> abits \<noteq> 0)
      in if ex = 0x7FF then big_zero
         else if ex = 0 then big_zero
         else
           let m = big_from_u64 (frac OR push_bit 52 1);
               v = (if 1075 \<le> ex then big_shl m (ex - 1075) else big_shr m (1075 - ex))
           in \<lparr>bneg = n \<and> bmag v \<noteq> [], bmag = bmag v\<rparr>)"

section \<open>The chunk of a base\<close>

lemma base_chunk_loop_val:
  assumes "2 \<le> unat base" "unat base \<le> 36" "unat p = unat base ^ k" "unat p < B32" "1 \<le> k"
  shows "case base_chunk_loop base p k of (c, k') \<Rightarrow> unat c = unat base ^ k' \<and> k \<le> k' \<and>
    unat base ^ k' < B32 \<and> B32 \<le> unat base ^ Suc k'"
  using assms
proof (induction base p k rule: base_chunk_loop.induct)
  case (1 base p k)
  have p1: "1 \<le> unat p" using "1.prems"(1,3) by simp
  have "unat p * unat base < B32 * B32"
    using "1.prems"(1,2,4) by (intro mult_strict_mono') (auto simp: B32_def)
  then have prod: "unat (p * base) = unat p * unat base" by (rule unat_mul_u64)
  have g: "2 \<le> base \<and> 1 \<le> p \<and> base \<le> 36 \<and> p \<le> 0xFFFFFFFF"
    using "1.prems" p1 by (simp add: word_le_nat_alt B32_def)
  have lim: "p * base \<le> 0xFFFFFFFF \<longleftrightarrow> unat p * unat base < B32"
    by (auto simp: word_le_nat_alt prod B32_def)
  show ?case
  proof (cases "p * base \<le> 0xFFFFFFFF")
    case True
    have e: "base_chunk_loop base p k = base_chunk_loop base (p * base) (Suc k)"
      using True g by (subst base_chunk_loop.simps) simp
    have "case base_chunk_loop base (p * base) (Suc k) of (c, k') \<Rightarrow> unat c = unat base ^ k' \<and>
        Suc k \<le> k' \<and> unat base ^ k' < B32 \<and> B32 \<le> unat base ^ Suc k'"
      using True g lim "1.prems" by (intro "1.IH") (auto simp: prod power_Suc2 simp del: power_Suc)
    then show ?thesis unfolding e by (auto split: prod.splits)
  next
    case False
    have e: "base_chunk_loop base p k = (ucast p, k)"
      using False by (subst base_chunk_loop.simps) simp
    show ?thesis
      using False "1.prems" lim unfolding e by (simp add: unat_ucast_down mult.commute)
  qed
qed

lemma base_chunk_val:
  assumes "2 \<le> base" "base \<le> 36" "base_chunk base = (chunk, k)"
  shows "unat chunk = unat base ^ k" "1 \<le> k" "unat base ^ k < B32" "B32 \<le> unat base ^ Suc k"
proof -
  have b: "2 \<le> unat base" "unat base \<le> 36" using assms(1,2) by (simp_all add: word_le_nat_alt)
  with base_chunk_loop_val [of "ucast base" "ucast base" 1] assms(3)
  show "unat chunk = unat base ^ k" "1 \<le> k" "unat base ^ k < B32" "B32 \<le> unat base ^ Suc k"
    by (simp_all add: base_chunk_def unat_ucast_up unat_u32_lt)
qed

section \<open>Horner's rule\<close>

text \<open>The value of a list of digits, the highest first, on top of the value read before.\<close>

definition horner :: "nat \<Rightarrow> nat \<Rightarrow> nat list \<Rightarrow> nat" where
  "horner b v ds = foldl (\<lambda>v d. v * b + d) v ds"

lemma horner_simps [simp]:
  "horner b v [] = v" "horner b v (d # ds) = horner b (v * b + d) ds"
  "horner b v (ds @ es) = horner b (horner b v ds) es"
  by (simp_all add: horner_def)

fun le_digits :: "nat \<Rightarrow> nat list \<Rightarrow> nat" where
  "le_digits b [] = 0"
| "le_digits b (d # ds) = d + b * le_digits b ds"

lemma le_digits_append: "le_digits b (ds @ es) = le_digits b ds + b ^ length ds * le_digits b es"
  by (induction ds) (simp_all add: algebra_simps)

lemma horner_rev: "horner b v (rev ds) = v * b ^ length ds + le_digits b ds"
  by (induction ds) (simp_all add: algebra_simps)

text \<open>The digits of a text: underscores skipped, \<open>None\<close> when a character is no digit of the base.\<close>

fun digits_of :: "u32 \<Rightarrow> u8 list \<Rightarrow> nat list option" where
  "digits_of base [] = Some []"
| "digits_of base (c # s) =
     (if c = 95 then digits_of base s
      else case digit_val c of
          None \<Rightarrow> None
        | Some d \<Rightarrow> if d \<ge> base then None
                  else case digits_of base s of None \<Rightarrow> None | Some ds \<Rightarrow> Some (unat d # ds))"

lemma digit_acc:
  fixes acc base d :: u32
  assumes "unat acc < unat base ^ n" "Suc n \<le> k" "unat base ^ k < B32" "d < base"
  shows "unat (acc * base + d) = unat acc * unat base + unat d" "unat (acc * base + d) < unat base ^ Suc n"
proof -
  have "unat acc * unat base + unat d < (unat acc + 1) * unat base"
    using assms(4) by (simp add: word_less_nat_alt)
  also have "\<dots> \<le> unat base ^ n * unat base" using assms(1) by (intro mult_le_mono1) simp
  finally have lt: "unat acc * unat base + unat d < unat base ^ Suc n" by (simp add: mult.commute)
  have "0 < unat base" using assms(4) by (simp add: word_less_nat_alt)
  then have "unat base ^ Suc n \<le> unat base ^ k" using assms(2) by (intro power_increasing) auto
  with lt assms(3) have "unat acc * unat base + unat d < 2 ^ 32" unfolding B32_def by linarith
  then show "unat (acc * base + d) = unat acc * unat base + unat d"
    by (simp add: unat_word_ariths mod_add_left_eq)
  with lt show "unat (acc * base + d) < unat base ^ Suc n" by simp
qed

lemma from_str_loop_val:
  assumes chunk: "unat chunk = unat base ^ k" "unat base ^ k < B32"
    and "unat acc < unat base ^ n" "n < k"
  shows "case digits_of base s of
      None \<Rightarrow> from_str_loop base chunk k s m acc n a = None
    | Some ds \<Rightarrow> \<exists>m' acc' n'. from_str_loop base chunk k s m acc n a = Some (m', acc', n', a \<or> ds \<noteq> [])
        \<and> n' < k \<and> unat acc' < unat base ^ n'
        \<and> lval m' * unat base ^ n' + unat acc' = horner (unat base) (lval m * unat base ^ n + unat acc) ds"
  using assms(3,4)
proof (induction s arbitrary: m acc n a)
  case (Cons c s)
  show ?case
  proof (cases "c = 95 \<or> digit_val c = None \<or> (\<exists>d. digit_val c = Some d \<and> d \<ge> base)")
    case True
    then consider "c = 95" | "c \<noteq> 95" "digit_val c = None"
      | d where "c \<noteq> 95" "digit_val c = Some d" "d \<ge> base" by (cases "c = 95") auto
    then show ?thesis
    proof cases
      case 1
      have "digits_of base (c # s) = digits_of base s"
        "from_str_loop base chunk k (c # s) m acc n a = from_str_loop base chunk k s m acc n a"
        by (simp_all add: 1)
      then show ?thesis using Cons.IH [OF Cons.prems, of m a] by (simp only:)
    qed simp_all
  next
    case False
    then obtain d where d: "c \<noteq> 95" "digit_val c = Some d" "d < base"
      by (cases "digit_val c") (auto simp: not_le)
    let ?acc = "acc * base + d"
    note acc = digit_acc [OF Cons.prems(1) _ chunk(2) d(3)]
    have n: "Suc n \<le> k" using Cons.prems(2) by simp
    show ?thesis
    proof (cases "Suc n = k")
      case True
      have "lval (umul_small m chunk ?acc) = (lval m * unat base ^ n + unat acc) * unat base + unat d"
      proof -
        have "unat chunk = unat base * unat base ^ n" by (simp add: chunk(1) flip: True)
        then show ?thesis unfolding lval_umul_small acc(1) [OF n] by (simp only: algebra_simps)
      qed
      then show ?thesis
        using Cons.IH [of 0 0 "umul_small m chunk ?acc" True] d True Cons.prems(2)
        by (auto simp: not_le Let_def split: option.splits)
    next
      case False
      have "lval m * unat base ^ Suc n + unat ?acc = (lval m * unat base ^ n + unat acc) * unat base + unat d"
        using acc(1) [OF n] by (simp add: algebra_simps)
      moreover have "unat ?acc < unat base ^ Suc n" "Suc n < k" using acc(2) [OF n] n False by auto
      ultimately show ?thesis
        using Cons.IH [of ?acc "Suc n" m True] d False
        by (auto simp: not_le Let_def split: option.splits simp del: power_Suc)
    qed
  qed
qed auto

lemma power_loop_val:
  assumes "2 \<le> unat base" "unat m = unat base ^ j" "unat base ^ (j + n) < B32"
  shows "unat (power_loop base n m) = unat base ^ (j + n)"
  using assms(2,3)
proof (induction n arbitrary: j m)
  case (Suc n)
  have "unat base ^ Suc j \<le> unat base ^ (j + Suc n)" using assms(1) by (intro power_increasing) auto
  with Suc.prems(2) have "unat base ^ Suc j < B32" by (rule le_less_trans [rotated])
  then have "unat m * unat base < 2 ^ 32"
    by (simp add: Suc.prems(1) B32_def mult.commute)
  then have "unat (m * base) = unat base ^ Suc j"
    by (simp add: unat_word_ariths Suc.prems(1) mult.commute)
  with Suc.IH [of "m * base" "Suc j"] Suc.prems(2) show ?case by simp
qed simp

theorem from_str_val:
  assumes "2 \<le> base" "base \<le> 36"
  shows "case digits_of base (snd (split_sign s)) of
      None \<Rightarrow> big_from_str s base = None
    | Some ds \<Rightarrow> if ds = [] then big_from_str s base = None
        else \<exists>x. big_from_str s base = Some x \<and> big_wf x \<and>
          bval x = (if fst (split_sign s) then -1 else 1) * int (horner (unat base) 0 ds)"
proof -
  obtain neg digits where sg: "split_sign s = (neg, digits)" by fastforce
  obtain chunk k where ch: "base_chunk base = (chunk, k)" by fastforce
  note c = base_chunk_val [OF assms ch]
  have b: "2 \<le> unat base" using assms(1) by (simp add: word_le_nat_alt)
  note loop = from_str_loop_val [OF c(1,3), of 0 0 digits "[]" False]
  show ?thesis
  proof (cases "digits_of base digits")
    case None
    then show ?thesis using loop c(2) by (simp add: big_from_str_def sg ch)
  next
    case (Some ds)
    then obtain m' acc n where r: "from_str_loop base chunk k digits [] 0 0 False = Some (m', acc, n, ds \<noteq> [])"
      "n < k" "unat acc < unat base ^ n"
      "lval m' * unat base ^ n + unat acc = horner (unat base) 0 ds" using loop c(2) by auto
    have "lval (if n > 0 then umul_small m' (power_loop base (n - 1) base) acc else m') =
        horner (unat base) 0 ds"
    proof (cases n)
      case (Suc j)
      have "unat base ^ Suc j \<le> unat base ^ k" using Suc r(2) b by (intro power_increasing) auto
      then have "unat (power_loop base j base) = unat base ^ (1 + j)"
        using c(3) b by (intro power_loop_val) auto
      with r(4) Suc show ?thesis by simp
    qed (use r in simp)
    then show ?thesis using Some r(1) by (simp add: big_from_str_def sg ch)
  qed
qed

section \<open>Printing\<close>

lemma digit_round_trip:
  assumes "n < 36"
  shows "digit_val (digit_char (of_nat n)) = Some (of_nat n)" "digit_char (of_nat n) \<notin> {95, 45, 43}"
proof -
  have "\<forall>n \<in> set [0..<36]. digit_val (digit_char (of_nat n)) = Some (of_nat n) \<and>
      digit_char (of_nat n) \<notin> {95, 45, 43}"
    by (simp add: upt_rec digit_val_def digit_char_def)
  then show "digit_val (digit_char (of_nat n)) = Some (of_nat n)" "digit_char (of_nat n) \<notin> {95, 45, 43}"
    using assms by auto
qed

lemma digits_of_chars:
  assumes "\<forall>d \<in> set ds. d < unat base" "unat base \<le> 36"
  shows "digits_of base (map (\<lambda>d. digit_char (of_nat d)) ds) = Some ds"
  using assms
proof (induction ds)
  case (Cons d ds)
  then have d: "d < unat base" "d < 36" by auto
  then have u: "unat (of_nat d :: u32) = d" by (simp add: unat_of_nat)
  then have "\<not> (of_nat d \<ge> base)" using d(1) by (simp add: word_le_nat_alt)
  with Cons u d(2) show ?case using digit_round_trip [of d] by simp
qed simp

lemma digit_char_mod:
  assumes "0 < unat base"
  shows "digit_char (r mod base) = digit_char (of_nat (unat r mod unat base))"
  by (simp add: unat_mod_distrib [symmetric])

lemma chunk_digits_val:
  assumes "2 \<le> unat base" "unat r < unat base ^ k"
  shows "\<exists>ds. chunk_digits base lst k r = map (\<lambda>d. digit_char (of_nat d)) ds \<and> (\<forall>d \<in> set ds. d < unat base) \<and>
    le_digits (unat base) ds = unat r \<and> (\<not> lst \<longrightarrow> length ds = k)"
  using assms(2)
proof (induction k arbitrary: r)
  case (Suc k)
  show ?case
  proof (cases "lst \<and> r = 0")
    case False
    have "unat (r div base) < unat base ^ k"
      using Suc.prems assms(1) by (simp add: unat_div_distrib less_mult_imp_div_less mult.commute)
    from Suc.IH [OF this] obtain ds where ds: "chunk_digits base lst k (r div base) = map (\<lambda>d. digit_char (of_nat d)) ds"
      "\<forall>d \<in> set ds. d < unat base" "le_digits (unat base) ds = unat r div unat base" "\<not> lst \<longrightarrow> length ds = k"
      by (auto simp: unat_div_distrib)
    show ?thesis
      using False ds assms(1) digit_char_mod [of base r]
      by (intro exI [of _ "unat r mod unat base # ds"]) auto
  qed (intro exI [of _ "[]"], simp)
qed simp

lemma digits_loop_val:
  assumes "2 \<le> unat base" "unat chunk = unat base ^ k" "1 \<le> k" "trimmed t"
  shows "\<exists>ds. digits_loop base chunk k t out = Some (out @ map (\<lambda>d. digit_char (of_nat d)) ds) \<and>
    (\<forall>d \<in> set ds. d < unat base) \<and> le_digits (unat base) ds = lval t"
  using assms(4)
proof (induction "lval t" arbitrary: t out rule: less_induct)
  case less
  show ?case
  proof (cases "t = []")
    case True
    then show ?thesis by (subst digits_loop.simps) (auto intro: exI [of _ "[]"])
  next
    case False
    obtain t' r where q: "udiv_small t chunk = (t', r)" by fastforce
    have "unat base ^ 1 \<le> unat base ^ k" using assms(1,3) by (intro power_increasing) auto
    then have c2: "2 \<le> unat chunk" using assms(1,2) by simp
    then have nz: "chunk \<noteq> 0" by auto
    note v = udiv_small_lval [OF nz, of t, unfolded q fst_conv snd_conv]
    have tr: "trimmed t'" using udiv_small_trimmed [of t chunk] by (simp add: q)
    have r: "unat r < unat base ^ k" unfolding v(2) using c2 by (simp add: assms(2) [symmetric])
    have "0 < lval t" using False less.prems by (simp add: lval_eq_0 zero_less_iff_neq_zero)
    then have "lval t' < lval t" unfolding v(1) using c2 by (intro div_less_dividend) auto
    obtain ds where ds: "chunk_digits base (t' = []) k r = map (\<lambda>d. digit_char (of_nat d)) ds"
      "\<forall>d \<in> set ds. d < unat base" "le_digits (unat base) ds = unat r" "t' \<noteq> [] \<longrightarrow> length ds = k"
      using chunk_digits_val [OF assms(1) r, of "t' = []"] by auto
    obtain es where es: "digits_loop base chunk k t' (out @ chunk_digits base (t' = []) k r) =
        Some ((out @ chunk_digits base (t' = []) k r) @ map (\<lambda>d. digit_char (of_nat d)) es)"
      "\<forall>d \<in> set es. d < unat base" "le_digits (unat base) es = lval t'"
      using less.hyps [OF \<open>lval t' < lval t\<close> tr] by blast
    have "le_digits (unat base) (ds @ es) = lval t"
    proof (cases "t' = []")
      case True
      then show ?thesis using ds(3) es(3) v by (simp add: le_digits_append) (metis add.right_neutral mod_div_mult_eq mult_0)
    next
      case False
      then show ?thesis using ds(3,4) es(3) v assms(2) by (simp add: le_digits_append)
    qed
    moreover have "digits_loop base chunk k t out = Some (out @ map (\<lambda>d. digit_char (of_nat d)) (ds @ es))"
      using False q es(1) ds(1) by (subst digits_loop.simps) simp
    ultimately show ?thesis using ds(2) es(2) by (intro exI [of _ "ds @ es"]) auto
  qed
qed

text \<open>The text of a number: its digits, the highest first, behind the sign.\<close>

theorem to_string_val:
  assumes "big_wf x" "2 \<le> base" "base \<le> 36"
  shows "\<exists>ds. big_to_string_radix x base =
      Some ((if bneg x then [45] else []) @ map (\<lambda>d. digit_char (of_nat d)) ds) \<and>
    ds \<noteq> [] \<and> (\<forall>d \<in> set ds. d < unat base) \<and> int (horner (unat base) 0 ds) = \<bar>bval x\<bar>"
proof (cases "big_is_zero x")
  case True
  then have "\<not> bneg x" "bval x = 0" using assms(1) by (auto simp: big_is_zero_def big_wf_def bval_def)
  moreover have "0 < unat base" using assms(2) by (simp add: word_le_nat_alt)
  ultimately show ?thesis using True
    by (intro exI [of _ "[0]"]) (simp add: big_to_string_radix_def digit_char_def)
next
  case False
  obtain chunk k where ch: "base_chunk base = (chunk, k)" by fastforce
  note c = base_chunk_val [OF assms(2,3) ch]
  have b: "2 \<le> unat base" using assms(2) by (simp add: word_le_nat_alt)
  obtain ds where ds: "digits_loop base chunk k (bmag x) [] = Some (map (\<lambda>d. digit_char (of_nat d)) ds)"
    "\<forall>d \<in> set ds. d < unat base" "le_digits (unat base) ds = lval (bmag x)"
    using digits_loop_val [OF b c(1,2) wf_trimmed [OF assms(1)], of "[]"] by auto
  have "ds \<noteq> []" using False ds(3) lval_eq_0 [OF wf_trimmed [OF assms(1)]] by (auto simp: big_is_zero_def)
  then show ?thesis using False ch ds
    by (intro exI [of _ "rev ds"])
      (simp add: big_to_string_radix_def rev_map horner_rev lval_abs del: of_nat_unat)
qed

theorem string_round_trip:
  assumes "big_wf x" "2 \<le> base" "base \<le> 36"
  shows "\<exists>s. big_to_string_radix x base = Some s \<and> big_from_str s base = Some x"
proof -
  obtain ds where ds: "big_to_string_radix x base =
      Some ((if bneg x then [45] else []) @ map (\<lambda>d. digit_char (of_nat d)) ds)"
    "ds \<noteq> []" "\<forall>d \<in> set ds. d < unat base" "int (horner (unat base) 0 ds) = \<bar>bval x\<bar>"
    using to_string_val [OF assms] by blast
  let ?t = "map (\<lambda>d. digit_char (of_nat d)) ds"
  let ?s = "(if bneg x then [45] else []) @ ?t"
  have b36: "unat base \<le> 36" using assms(3) by (simp add: word_le_nat_alt)
  obtain d es where d: "ds = d # es" using ds(2) by (cases ds) auto
  have "d < 36" using ds(3) b36 by (auto simp: d)
  then have sg: "split_sign ?s = (bneg x, ?t)"
    using digit_round_trip(2) [of d] by (simp add: d split_sign_def)
  have "digits_of base ?t = Some ds" using ds(3) b36 by (rule digits_of_chars)
  then obtain y where y: "big_from_str ?s base = Some y" "big_wf y"
    "bval y = (if bneg x then -1 else 1) * int (horner (unat base) 0 ds)"
    using from_str_val [OF assms(2,3), of ?s] ds(2) by (auto simp: sg)
  have "bval y = bval x" unfolding y(3) ds(4) using bneg_iff [OF assms(1)] by (auto split: if_splits)
  then have "y = x" using y(2) assms(1) by (intro bval_inj)
  with y(1) ds(1) show ?thesis by auto
qed

section \<open>Bytes\<close>

fun bytes_val :: "u8 list \<Rightarrow> nat" where
  "bytes_val [] = 0"
| "bytes_val (b # bs) = unat b + 256 * bytes_val bs"

lemma unat_byte: "unat (ucast (b :: u8) :: limb) = unat b" "unat (b :: u8) < 256"
  using unsigned_less [of b, where ?'a = nat] by (simp_all add: unsigned_ucast_eq take_bit_nat_eq_self_iff)

lemma unat_byte_or:
  fixes b :: u8 and w :: limb
  assumes "unat w < 2 ^ 24"
  shows "unat (ucast b OR push_bit 8 w) = unat b + 256 * unat w"
proof -
  have "unat (push_bit 8 w OR ucast b) = unat w * 2 ^ 8 mod B32 + unat (ucast b :: limb)"
    using unat_byte [of b] by (intro unat_or_low) simp
  then show ?thesis using assms by (simp add: unat_byte or.commute B32_def)
qed

lemma unat_from_le_bytes: "unat (from_le_bytes bs) =
    unat (byte_at bs 0) + 256 * (unat (byte_at bs 1) + 256 * (unat (byte_at bs 2) + 256 * unat (byte_at bs 3)))"
proof -
  note b = unat_byte(2) [of "byte_at bs 0"] unat_byte(2) [of "byte_at bs 1"]
    unat_byte(2) [of "byte_at bs 2"] unat_byte(2) [of "byte_at bs 3"]
  have e: "from_le_bytes bs = ucast (byte_at bs 0) OR push_bit 8 (ucast (byte_at bs 1) OR
      push_bit 8 (ucast (byte_at bs 2) OR push_bit 8 (ucast (byte_at bs 3))))"
    by (simp add: from_le_bytes_def push_bit_or or.assoc)
  have b': "unat (byte_at bs 3) < 2 ^ 24" using b(4) by simp
  have w2: "unat (ucast (byte_at bs 2) OR push_bit 8 (ucast (byte_at bs 3)) :: limb) =
      unat (byte_at bs 2) + 256 * unat (byte_at bs 3)"
    using b' by (subst unat_byte_or) (simp_all add: unat_byte(1))
  have w1: "unat (ucast (byte_at bs 1) OR push_bit 8 (ucast (byte_at bs 2) OR
      push_bit 8 (ucast (byte_at bs 3))) :: limb) =
      unat (byte_at bs 1) + 256 * (unat (byte_at bs 2) + 256 * unat (byte_at bs 3))"
    using b w2 by (subst unat_byte_or) auto
  show ?thesis unfolding e using b w1 by (subst unat_byte_or) auto
qed

lemma lval_chunks4: "lval (chunks4 bs) = bytes_val bs"
proof (induction bs rule: chunks4.induct)
  case (2 b bs)
  have "unat (from_le_bytes (take 4 (b # bs))) + B32 * bytes_val (drop 3 bs) = bytes_val (b # bs)"
    unfolding unat_from_le_bytes B32_def
    by (cases bs; cases "tl bs"; cases "tl (tl bs)") (simp_all add: byte_at_def)
  with 2 show ?case by simp
qed simp

theorem from_bytes_le_val: "bval (big_from_bytes_le bs) = int (bytes_val bs) \<and> big_wf (big_from_bytes_le bs)"
  by (simp add: big_from_bytes_le_def lval_chunks4)

text \<open>The bytes a limb is hashed by read back to the limb.\<close>

lemma from_to_le_bytes: "from_le_bytes (to_le_bytes l) = l"
proof -
  have "unat (from_le_bytes (to_le_bytes l)) = unat l"
  proof -
    have b: "unat (byte_at (to_le_bytes l) 0) = unat l mod 256"
      "unat (byte_at (to_le_bytes l) 1) = unat l div 256 mod 256"
      "unat (byte_at (to_le_bytes l) 2) = unat l div 65536 mod 256"
      "unat (byte_at (to_le_bytes l) 3) = unat l div 16777216 mod 256"
      by (simp_all add: byte_at_def to_le_bytes_def unsigned_ucast_eq take_bit_eq_mod unat_drop_u32)
    define p q r where "p = unat l div 256" and "q = p div 256" and "r = q div 256"
    have d: "unat l div 65536 = q" "unat l div 16777216 = r"
      by (simp_all add: p_def q_def r_def flip: div_mult2_eq)
    have "unat l < 4294967296" using unat_u32_lt [of l] by (simp add: B32_def)
    then have "r < 256" unfolding d(2) [symmetric] by (simp add: less_mult_imp_div_less)
    then have "r mod 256 = r" by simp
    moreover have "unat l mod 256 + 256 * p = unat l" "p mod 256 + 256 * q = p" "q mod 256 + 256 * r = q"
      by (simp_all add: p_def q_def r_def)
    ultimately show ?thesis unfolding unat_from_le_bytes b d p_def [symmetric] by simp
  qed
  then show ?thesis by (simp add: word_unat_eq_iff)
qed

lemma chunks4_to_le_bytes: "chunks4 (concat (map to_le_bytes m)) = m"
proof (induction m)
  case (Cons l m)
  then show ?case using from_to_le_bytes [of l] by (simp add: to_le_bytes_def)
qed simp

theorem hash_bytes_inj:
  assumes "big_hash_bytes x = big_hash_bytes y"
  shows "x = y"
proof -
  have "concat (map to_le_bytes (bmag x)) = concat (map to_le_bytes (bmag y))" "bneg x = bneg y"
    using assms by (auto simp: big_hash_bytes_def split: if_splits)
  then have "bmag x = bmag y" by (metis chunks4_to_le_bytes)
  with \<open>bneg x = bneg y\<close> show ?thesis by simp
qed

section \<open>Doubles\<close>

text \<open>The integer part of a normal double, rounded toward zero.\<close>

theorem from_f64_val:
  fixes f :: u64
  defines "ex \<equiv> unat (drop_bit 52 f AND 0x7FF)" and "m \<equiv> 2 ^ 52 + unat (f AND 0x000FFFFFFFFFFFFF)"
  assumes "0 < ex" "ex < 0x7FF"
  shows "big_wf (big_from_f64 f) \<and> bval (big_from_f64 f) = (if bit f 63 then -1 else 1) *
    int (if 1075 \<le> ex then m * 2 ^ (ex - 1075) else m div 2 ^ (1075 - ex))"
proof -
  let ?a = "f AND 0x7FFFFFFFFFFFFFFF"
  have a: "drop_bit 52 ?a AND 0x7FF = drop_bit 52 f AND 0x7FF" "?a AND 0x000FFFFFFFFFFFFF = f AND 0x000FFFFFFFFFFFFF"
  proof -
    show "?a AND 0x000FFFFFFFFFFFFF = f AND 0x000FFFFFFFFFFFFF" by (simp add: and.assoc)
    show "drop_bit 52 ?a AND 0x7FF = drop_bit 52 f AND 0x7FF"
      by (simp add: drop_bit_and and.assoc)
  qed
  have a0: "?a \<noteq> 0" proof
    assume "?a = 0"
    have "drop_bit 52 f AND 0x7FF = drop_bit 52 ?a AND 0x7FF" by (rule a(1) [symmetric])
    also have "\<dots> = 0" unfolding \<open>?a = 0\<close> by simp
    finally show False using assms(3) unfolding ex_def by simp
  qed
  have fr: "unat (f AND 0x000FFFFFFFFFFFFF) < 2 ^ 52"
  proof -
    have "(0x000FFFFFFFFFFFFF :: u64) = mask 52" by (simp add: mask_eq_decr_exp)
    then have "f AND 0x000FFFFFFFFFFFFF = take_bit 52 f" by (simp only: take_bit_eq_mask)
    then show ?thesis by (simp only: unsigned_take_bit_eq take_bit_nat_less_exp)
  qed
  have join: "unat ((f AND 0x000FFFFFFFFFFFFF) OR push_bit 52 1) = m"
    unfolding m_def
  proof -
    have "(f AND 0x000FFFFFFFFFFFFF) AND push_bit 52 1 = 0" by (simp add: and.assoc)
    then show "unat ((f AND 0x000FFFFFFFFFFFFF) OR push_bit 52 1) = 2 ^ 52 + unat (f AND 0x000FFFFFFFFFFFFF)"
      by (simp add: unat_or_disjoint)
  qed
  define M where "M = big_from_u64 ((f AND 0x000FFFFFFFFFFFFF) OR push_bit 52 1)"
  have M: "bval M = int m" "big_wf M" unfolding M_def by (simp_all only: bval_from_u64 join wf_from)
  define v where "v = (if 1075 \<le> ex then big_shl M (ex - 1075) else big_shr M (1075 - ex))"
  have v: "big_wf v" "bval v = int (if 1075 \<le> ex then m * 2 ^ (ex - 1075) else m div 2 ^ (1075 - ex))"
    using M by (auto simp: v_def bval_shr zdiv_int)
  then have nn: "\<not> bneg v" by (simp add: bneg_iff)
  have e: "big_from_f64 f = \<lparr>bneg = bit f 63 \<and> bmag v \<noteq> [], bmag = bmag v\<rparr>"
    unfolding big_from_f64_def Let_def a ex_def [symmetric] M_def [symmetric] v_def [symmetric]
    using assms(3,4) a0 by (simp add: v_def)
  have "bval v = int (lval (bmag v))" using nn by (simp add: bval_def)
  then have "bval (big_from_f64 f) = (if bit f 63 then -1 else 1) * bval v"
    unfolding e by (auto simp: bval_def)
  moreover have "big_wf (big_from_f64 f)" unfolding e using v(1) by (auto simp: big_wf_def)
  ultimately show ?thesis unfolding v(2) by simp
qed

end
