(* ===== verification/VmCore.thy ===== *)
theory VmCore
  imports Object HashIndex BigConv
begin

text \<open>
  What the operations of the VM that can run Ruby share (\<open>src/vm.rs\<close>, \<open>src/error.rs\<close>): the part
  of the VM they touch, the errors, the effect type, and the object makers \<open>str_new\<close>, \<open>exc_new\<close>,
  \<open>raise\<close>. Running a Ruby method (\<open>Vm::funcall\<close>) is a parameter, \<open>rb_funcall\<close>: whatever
  program is loaded decides what it does to the heap and to the rest of the VM (\<open>'w\<close>), what it
  answers or raises, and whether it returns at all (\<open>None\<close>: it does not). The theorems hold for
  every such function.
\<close>

section \<open>State, errors, effects\<close>

datatype vm_error =
    E_Raise rvalue
  | E_Break obj_id
  | E_Rite string
  | E_Unimplemented string
  | E_Internal string

record 'w hvm =
  vm_heap :: heap
  vm_native_active :: nat
  vm_world :: 'w

type_synonym ('w, 'a) res = "('w hvm \<times> (vm_error + 'a)) option"
type_synonym ('w, 'a) eff = "'w hvm \<Rightarrow> ('w, 'a) res"

text \<open>The names and classes made at boot (\<open>vm.s\<close>, \<open>vm.core\<close>) and the loaded program.\<close>

record 'w ruby =
  rb_funcall :: "rvalue \<Rightarrow> sym \<Rightarrow> rvalue list \<Rightarrow> ('w, rvalue) eff"
  rb_equal :: "rvalue \<Rightarrow> rvalue \<Rightarrow> ('w, bool) eff"
  rb_basic_eql :: "rvalue \<Rightarrow> 'w hvm \<Rightarrow> 'w hvm \<times> bool"
  rb_describe :: "rvalue \<Rightarrow> 'w hvm \<Rightarrow> 'w hvm \<times> bytes"
  rb_s_hash :: sym
  rb_s_eql :: sym
  rb_s_mesg :: sym
  rb_c_string :: obj_id
  rb_c_hash :: obj_id
  rb_c_runtime_error :: obj_id
  rb_c_type_error :: obj_id
  rb_c_argument_error :: obj_id
  rb_c_frozen_error :: obj_id

definition ret :: "'a \<Rightarrow> ('w, 'a) eff" where
  "ret x s = Some (s, Inr x)"

text \<open>\<open>?\<close>: an error returns early.\<close>

definition andthen :: "('w, 'a) eff \<Rightarrow> ('a \<Rightarrow> ('w, 'b) eff) \<Rightarrow> ('w, 'b) eff" where
  "andthen m f s = (case m s of
      None \<Rightarrow> None
    | Some (s1, Inl e) \<Rightarrow> Some (s1, Inl e)
    | Some (s1, Inr x) \<Rightarrow> f x s1)"

lemma andthen_ret [simp]: "andthen (ret x) f = f x"
  by (simp add: andthen_def ret_def fun_eq_iff)

lemma andthen_step: "m s = Some (s1, Inr x) \<Longrightarrow> andthen m f s = f x s1"
  by (simp add: andthen_def)

lemma andthen_cases:
  assumes "andthen m f s = Some (s', r)"
  obtains (err) e where "m s = Some (s', Inl e)" "r = Inl e"
  | (ok) s1 x where "m s = Some (s1, Inr x)" "f x s1 = Some (s', r)"
  using assms by (auto simp: andthen_def split: option.splits sum.splits)

lemma andthen_bind: "andthen m f s =
    Option.bind (m s) (\<lambda>y. case snd y of Inl e \<Rightarrow> Some (fst y, Inl e) | Inr x \<Rightarrow> f x (fst y))"
  by (auto simp: andthen_def split: option.splits sum.splits)

lemma andthen_mono [partial_function_mono]:
  assumes "mono_option (\<lambda>g. B g s)" "\<And>x s'. mono_option (\<lambda>g. C x g s')"
  shows "mono_option (\<lambda>g. andthen (B g) (\<lambda>x. C x g) s)"
proof -
  have "mono_option (\<lambda>g. case snd y of Inl e \<Rightarrow> Some (fst y, Inl e) | Inr x \<Rightarrow> C x g (fst y))" for y
    by (cases "snd y") (simp_all add: assms(2) option.const_mono)
  then show ?thesis unfolding andthen_bind by (intro bind_mono assms(1))
qed

lemma ret_apply: "ret x s = Some (s, Inr x)"
  by (simp add: ret_def)

section \<open>Objects and exceptions\<close>

definition ascii :: "string \<Rightarrow> bytes" where
  "ascii s = map of_char s"

definition vm_alloc :: "obj_id \<Rightarrow> obj_kind \<Rightarrow> 'w hvm \<Rightarrow> 'w hvm \<times> obj_id" where
  "vm_alloc c k s = (let (h, i) = heap_alloc (vm_heap s) c k in (s\<lparr>vm_heap := h\<rparr>, i))"

definition vm_update :: "obj_id \<Rightarrow> (heap_object \<Rightarrow> heap_object) \<Rightarrow> 'w hvm \<Rightarrow> 'w hvm" where
  "vm_update i f s = s\<lparr>vm_heap := heap_update (vm_heap s) i f\<rparr>"

definition str_new :: "'w ruby \<Rightarrow> bytes \<Rightarrow> 'w hvm \<Rightarrow> 'w hvm \<times> rvalue" where
  "str_new rb b s = (let (s1, i) = vm_alloc (rb_c_string rb) (K_String b) s in (s1, VObj i))"

definition hash_new :: "'w ruby \<Rightarrow> 'w hvm \<Rightarrow> 'w hvm \<times> rvalue" where
  "hash_new rb s = (let (s1, i) = vm_alloc (rb_c_hash rb) (K_Hash h_new) s in (s1, VObj i))"

definition hash_new_capa :: "'w ruby \<Rightarrow> nat \<Rightarrow> 'w hvm \<Rightarrow> 'w hvm \<times> rvalue" where
  "hash_new_capa rb n s = (let (s1, i) = vm_alloc (rb_c_hash rb) (K_Hash (h_with_capa n)) s in (s1, VObj i))"

definition exc_new :: "'w ruby \<Rightarrow> obj_id \<Rightarrow> bytes \<Rightarrow> 'w hvm \<Rightarrow> 'w hvm \<times> rvalue" where
  "exc_new rb c msg s =
     (let (s1, e) = vm_alloc c K_Exception s;
          (s2, m) = str_new rb msg s1
      in (s2\<lparr>vm_heap := heap_ivar_set (vm_heap s2) e (rb_s_mesg rb) m\<rparr>, VObj e))"

definition raise_exc :: "'w ruby \<Rightarrow> obj_id \<Rightarrow> bytes \<Rightarrow> ('w, 'a) eff" where
  "raise_exc rb c msg s = (let (s1, e) = exc_new rb c msg s in Some (s1, Inl (E_Raise e)))"

definition raise_type :: "'w ruby \<Rightarrow> bytes \<Rightarrow> ('w, 'a) eff" where
  "raise_type rb msg = raise_exc rb (rb_c_type_error rb) msg"

definition raise_arg :: "'w ruby \<Rightarrow> bytes \<Rightarrow> ('w, 'a) eff" where
  "raise_arg rb msg = raise_exc rb (rb_c_argument_error rb) msg"

definition raise_frozen :: "'w ruby \<Rightarrow> rvalue \<Rightarrow> ('w, 'a) eff" where
  "raise_frozen rb v s =
     (let (s1, d) = rb_describe rb v s in raise_exc rb (rb_c_frozen_error rb) (ascii ''can't modify frozen '' @ d) s1)"

text \<open>A send from native code: \<open>native_active\<close> is up while it runs, raised or not.\<close>

definition send :: "'w ruby \<Rightarrow> rvalue \<Rightarrow> sym \<Rightarrow> rvalue list \<Rightarrow> ('w, rvalue) eff" where
  "send rb recv mid args s =
     (case rb_funcall rb recv mid args (s\<lparr>vm_native_active := vm_native_active s + 1\<rparr>) of
        None \<Rightarrow> None
      | Some (s1, r) \<Rightarrow> Some (s1\<lparr>vm_native_active := vm_native_active s1 - 1\<rparr>, r))"

definition data_of :: "'w hvm \<Rightarrow> rvalue \<Rightarrow> (u32 \<times> u64) option" where
  "data_of s v = (case v of
      VObj o' \<Rightarrow> (case heap_kind (vm_heap s) o' of Some (K_Data t h) \<Rightarrow> Some (t, h) | _ \<Rightarrow> None)
    | _ \<Rightarrow> None)"

definition same_value :: "'w hvm \<Rightarrow> rvalue \<Rightarrow> rvalue \<Rightarrow> bool" where
  "same_value s a b =
     (value_eq a b \<or> (case (data_of s a, data_of s b) of (Some x, Some y) \<Rightarrow> x = y | _ \<Rightarrow> False))"

definition vm_string :: "'w hvm \<Rightarrow> obj_id \<Rightarrow> bytes option" where
  "vm_string s = heap_string (vm_heap s)"

definition frozen_at :: "'w hvm \<Rightarrow> obj_id \<Rightarrow> bool" where
  "frozen_at s i = (case heap_get (vm_heap s) i of None \<Rightarrow> False | Some x \<Rightarrow> ho_frozen x)"

text \<open>\<open>f as i64\<close>: towards zero, saturating, NaN is 0.\<close>

definition f64_as_i64 :: "f64 \<Rightarrow> i64" where
  "f64_as_i64 f =
     (if f64_nan f then 0
      else if drop_bit 52 f AND 0x7FF = 0x7FF
      then (if bit f 63 then 0x8000000000000000 else 0x7FFFFFFFFFFFFFFF)
      else word_of_int (max (- (2 ^ 63)) (min (2 ^ 63 - 1) (bval (big_from_f64 f)))))"

end
