(* ===== verification/PackCodec.thy ===== *)
theory PackCodec
  imports VmCore
begin

text \<open>
  The encodings of \<open>Array#pack\<close> and \<open>String#unpack\<close> (\<open>src/builtins/ext_pack.rs\<close>): integers of a width and byte
  order, BER and UTF-8 numbers, padded strings, hexadecimal, bit strings, base64, uuencode and quoted-printable. An
  encoder answers the bytes it stores, a decoder what it read and how much of the input it used.
\<close>

unbundle bit_operations_syntax

section \<open>Flags\<close>

definition F_A :: u32 where "F_A = 0x02"
definition F_Z :: u32 where "F_Z = 0x04"
definition F_SIGNED :: u32 where "F_SIGNED = 0x08"
definition F_GT :: u32 where "F_GT = 0x10"
definition F_LT :: u32 where "F_LT = 0x20"
definition F_WIDTH :: u32 where "F_WIDTH = 0x40"
definition F_LSB :: u32 where "F_LSB = 0x80"
definition F_COUNT2 :: u32 where "F_COUNT2 = 0x100"
definition F_LE :: u32 where "F_LE = 0x200"

lemmas pack_flags = F_A_def F_Z_def F_SIGNED_def F_GT_def F_LT_def F_WIDTH_def F_LSB_def F_COUNT2_def F_LE_def

definition has :: "u32 \<Rightarrow> u32 \<Rightarrow> bool" where
  "has flags f \<longleftrightarrow> flags AND f \<noteq> 0"

definition byte_of :: "char \<Rightarrow> u8" where
  "byte_of c = of_char c"

section \<open>Tables\<close>

definition BASE64 :: bytes where
  "BASE64 = ascii ''ABCDEFGHIJKLMNOPQRSTUVWXYZabcdefghijklmnopqrstuvwxyz0123456789+/''"

text \<open>\<open>UU\<close>: the back quote, then the characters from \<open>!\<close> to the underscore.\<close>

definition UU :: bytes where
  "UU = 0x60 # map word_of_nat [33..<96]"

definition HEX_UP :: bytes where "HEX_UP = ascii ''0123456789ABCDEF''"
definition HEX_LOW :: bytes where "HEX_LOW = ascii ''0123456789abcdef''"

definition between :: "u8 \<Rightarrow> char \<Rightarrow> char \<Rightarrow> bool" where
  "between c a b \<longleftrightarrow> byte_of a \<le> c \<and> c \<le> byte_of b"

definition base64_val :: "u8 \<Rightarrow> u8 option" where
  "base64_val c =
     (if between c CHR ''A'' CHR ''Z'' then Some (c - byte_of CHR ''A'')
      else if between c CHR ''a'' CHR ''z'' then Some (c - byte_of CHR ''a'' + 26)
      else if between c CHR ''0'' CHR ''9'' then Some (c - byte_of CHR ''0'' + 52)
      else if c = byte_of CHR ''+'' then Some 62
      else if c = byte_of CHR ''/'' then Some 63
      else None)"

definition hex2int :: "u8 \<Rightarrow> int" where
  "hex2int c =
     (if between c CHR ''0'' CHR ''9'' then uint (c - byte_of CHR ''0'')
      else if between c CHR ''a'' CHR ''f'' then uint (c - byte_of CHR ''a'') + 10
      else if between c CHR ''A'' CHR ''F'' then uint (c - byte_of CHR ''A'') + 10
      else - 1)"

text \<open>0 = copied, 1 = encoded, 2 = newline\<close>

definition qprint_type :: "u8 \<Rightarrow> nat" where
  "qprint_type b =
     (if b = 9 then 0 else if b = 10 then 2
      else if b \<le> 0x1f \<or> b = byte_of CHR ''='' \<or> 0x7f \<le> b then 1 else 0)"

definition is_space :: "u8 \<Rightarrow> bool" where
  "is_space c \<longleftrightarrow> c \<in> {32, 9, 10, 11, 12, 13}"

section \<open>The output\<close>

definition ensure :: "nat \<Rightarrow> bytes \<Rightarrow> bytes" where
  "ensure n out = out @ replicate (n - length out) 0"

text \<open>Room for \<open>room\<close> bytes from \<open>at\<close> on, and \<open>bs\<close> stored there.\<close>

definition put_at :: "bytes \<Rightarrow> nat \<Rightarrow> nat \<Rightarrow> bytes \<Rightarrow> bytes" where
  "put_at out at room bs = (let o' = ensure (at + room) out in take at o' @ bs @ drop (at + length bs) o')"

section \<open>Integers\<close>

definition int_bytes :: "u64 \<Rightarrow> nat \<Rightarrow> bool \<Rightarrow> bytes" where
  "int_bytes n w le = map (\<lambda>i. ucast (drop_bit (8 * (if le then i else w - 1 - i)) n)) [0..<w]"

definition put_int :: "bytes \<Rightarrow> nat \<Rightarrow> u64 \<Rightarrow> nat \<Rightarrow> bool \<Rightarrow> bytes" where
  "put_int out at n w le = put_at out at w (int_bytes n w le)"

definition get_int :: "bytes \<Rightarrow> nat \<Rightarrow> bool \<Rightarrow> u64" where
  "get_int src w le =
     fold (\<lambda>i n. n OR push_bit (8 * i) (ucast (src ! (if le then i else w - 1 - i)))) [0..<w] 0"

text \<open>BER: seven bits to a byte, the high ones first. None: a negative number.\<close>

fun ber_len :: "i64 \<Rightarrow> nat \<Rightarrow> nat \<Rightarrow> nat" where
  "ber_len n len 0 = len"
| "ber_len n len (Suc k) =
     (if 7 * len \<ge> 63 \<or> signed_drop_bit (7 * len) n = 0 then len else ber_len n (len + 1) k)"

definition pack_ber :: "i64 \<Rightarrow> bytes option" where
  "pack_ber n =
     (if sint n < 0 then None
      else let len = ber_len n 1 8
           in Some (map (\<lambda>j. let x = ucast (signed_drop_bit (7 * (j - 1)) n AND 0x7f) :: u8
                in if j > 1 then x OR 0x80 else x) (rev [1..<Suc len])))"

text \<open>What is read and how many bytes it took; None: too long.\<close>

fun ber_loop :: "bytes \<Rightarrow> i64 \<Rightarrow> nat \<Rightarrow> (i64 \<times> nat) option" where
  "ber_loop [] n i = Some (n, i)"
| "ber_loop (b # bs) n i =
     (let i = i + 1
      in if i > 9 \<or> sint n > (2 ^ 63 - 1) div 2 ^ 7 then None
         else let n = push_bit 7 n OR ucast (b AND 0x7f)
              in if b AND 0x80 = 0 then Some (n, i) else ber_loop bs n i)"

definition unpack_ber :: "bytes \<Rightarrow> (i64 option \<times> nat) option" where
  "unpack_ber src = (if src = [] then Some (None, 0) else map_option (\<lambda>(n, i). (Some n, i)) (ber_loop src 0 0))"

text \<open>\<open>utf8_to_buf\<close> of \<open>builtins/string.rs\<close>\<close>

definition utf8_to_buf :: "i64 \<Rightarrow> bytes option" where
  "utf8_to_buf cp =
     (let tail = (\<lambda>k. 0x80 OR ucast (drop_bit k cp AND 0x3F) :: u8)
      in if sint cp < 0 then None
         else if sint cp \<le> 0x7f then Some [ucast cp]
         else if sint cp \<le> 0x7ff then Some [0xC0 OR ucast (drop_bit 6 cp), tail 0]
         else if sint cp \<le> 0xffff then Some [0xE0 OR ucast (drop_bit 12 cp), tail 6, tail 0]
         else if sint cp \<le> 0x10FFFF then Some [0xF0 OR ucast (drop_bit 18 cp), tail 12, tail 6, tail 0]
         else None)"

datatype utf8_error = Malformed | Redundant

definition unpack_utf8 :: "bytes \<Rightarrow> utf8_error + (i64 option \<times> nat)" where
  "unpack_utf8 src = (case src of
      [] \<Rightarrow> Inr (None, 1)
    | first # rest \<Rightarrow>
        if first < 0x80 then Inr (Some (ucast first), 1)
        else let len = (if 0xC0 \<le> first \<and> first \<le> 0xDF then 2 else if 0xE0 \<le> first \<and> first \<le> 0xEF then 3
                        else if 0xF0 \<le> first \<and> first \<le> 0xF7 then 4 else 0 :: nat);
                 low = (\<lambda>k. ucast (src ! k AND 0x3F) :: u32)
             in if len = 0 then Inl Malformed
                else if len > length src then Inl Malformed
                else if list_ex (\<lambda>b. \<not> (0x80 \<le> b \<and> b \<le> 0xBF)) (take (len - 1) rest) then Inl Malformed
                else let uv = (if len = 2 then push_bit 6 (ucast (first AND 0x1F)) OR low 1
                       else if len = 3 then push_bit 12 (ucast (first AND 0x0F)) OR push_bit 6 (low 1) OR low 2
                       else push_bit 18 (ucast (first AND 0x07)) OR push_bit 12 (low 1) OR push_bit 6 (low 2) OR low 3);
                         mn = (if len = 2 then 0x80 else if len = 3 then 0x800 else 0x10000 :: u32)
                     in if uv < mn then Inl Redundant
                        else if len = 4 \<and> uv > 0x10FFFF then Inl Malformed
                        else Inr (Some (ucast uv), len))"

section \<open>Strings\<close>

text \<open>What is stored, then how many bytes it is.\<close>

definition pack_str :: "bytes \<Rightarrow> int \<Rightarrow> u32 \<Rightarrow> bytes" where
  "pack_str src count flags =
     (let pad = (if has flags (F_A OR F_Z) then 0 else 32)
      in if count = 0 then []
         else if count = - 1 then src @ replicate (if has flags F_Z then 1 else 0) pad
         else if nat count < length src then take (nat count) src
         else src @ replicate (nat count - length src) pad)"

fun strip_end :: "bytes \<Rightarrow> bytes" where
  "strip_end s = (if s \<noteq> [] \<and> (last s = 0 \<or> is_space (last s)) then strip_end (butlast s) else s)"

declare strip_end.simps [simp del]

definition unpack_str :: "bytes \<Rightarrow> int \<Rightarrow> u32 \<Rightarrow> bytes \<times> nat" where
  "unpack_str src count flags =
     (if src = [] then ([], 0)
      else let slen = (if count \<noteq> - 1 \<and> nat count < length src then nat count else length src);
               s = take slen src
           in if has flags F_Z
              then (if 0 \<in> set s
                    then let p = length (takeWhile (\<lambda>c. c \<noteq> 0) s)
                         in (take p s, if count = - 1 then p + 1 else slen)
                    else (s, slen))
              else if \<not> has flags F_A then (strip_end s, slen)
              else (s, slen))"

section \<open>Hexadecimal\<close>

definition nibble :: "int \<Rightarrow> nat \<Rightarrow> u8" where
  "nibble a sh = word_of_int (a * 2 ^ sh)"

fun hex_bytes :: "nat \<Rightarrow> nat \<Rightarrow> bytes \<Rightarrow> bytes" where
  "hex_bytes ash bsh (a # b # s) =
     (if hex2int a < 0 then []
      else if hex2int b < 0 then [nibble (hex2int a) ash]
      else word_of_int (hex2int a * 2 ^ ash + hex2int b * 2 ^ bsh) # hex_bytes ash bsh s)"
| "hex_bytes ash bsh [a] = (if hex2int a < 0 then [] else [nibble (hex2int a) ash])"
| "hex_bytes ash bsh [] = []"

text \<open>The room it asks for and what it stores.\<close>

definition pack_hex :: "bytes \<Rightarrow> int \<Rightarrow> u32 \<Rightarrow> nat \<times> bytes" where
  "pack_hex src count flags =
     (let (ash, bsh) = (if has flags F_LSB then (0, 4) else (4, 0));
          slen = (if count \<noteq> - 1 \<and> int (length src) > count then nat count else length src);
          n = (if count = - 1 then length src else nat count)
      in (n div 2 + n mod 2, hex_bytes ash bsh (take slen src)))"

fun hex_digits :: "nat \<Rightarrow> nat \<Rightarrow> bytes \<Rightarrow> nat \<Rightarrow> bytes \<times> nat" where
  "hex_digits ash bsh (b # s) n =
     (let hi = HEX_LOW ! unat (drop_bit ash b AND 0x0f); lo = HEX_LOW ! unat (drop_bit bsh b AND 0x0f)
      in if n \<ge> 2 then (let (ds, k) = hex_digits ash bsh s (n - 2) in (hi # lo # ds, Suc k))
         else if n > 0 then ([hi], 1) else ([], 0))"
| "hex_digits ash bsh [] n = ([], 0)"

definition unpack_hex :: "bytes \<Rightarrow> int \<Rightarrow> u32 \<Rightarrow> bytes \<times> nat" where
  "unpack_hex src count flags =
     (if src = [] then ([], 0)
      else let (ash, bsh) = (if has flags F_LSB then (0, 4) else (4, 0))
           in hex_digits ash bsh src (if count = - 1 then 2 * length src else nat count))"

section \<open>Bit strings\<close>

definition bit_byte :: "bool \<Rightarrow> bytes \<Rightarrow> nat \<Rightarrow> u8" where
  "bit_byte lsb s i = fold (\<lambda>j byte.
     let bit = (if i * 8 + j < length s \<and> s ! (i * 8 + j) = byte_of CHR ''1'' then 1 else 0)
     in byte OR push_bit (if lsb then j else 7 - j) bit) [0..<8] 0"

definition pack_bstr :: "bytes \<Rightarrow> int \<Rightarrow> u32 \<Rightarrow> bytes" where
  "pack_bstr src count flags =
     (let s = take (if count \<noteq> - 1 \<and> int (length src) > count then nat count else length src) src
      in map (bit_byte (has flags F_LSB) s) [0..<(length s + 7) div 8])"

definition unpack_bstr :: "bytes \<Rightarrow> int \<Rightarrow> u32 \<Rightarrow> bytes \<times> nat" where
  "unpack_bstr src count flags =
     (if src = [] then ([], 0)
      else let n = (if count = - 1 \<or> count > int (length src) * 8 then length src * 8 else nat count)
           in (map (\<lambda>i. let byte = src ! (i div 8);
                   b = (if has flags F_LSB then drop_bit (i mod 8) byte AND 1 else drop_bit (7 - i mod 8) byte AND 1)
                in byte_of CHR ''0'' + b) [0..<n], (n + 7) div 8))"

section \<open>Base64\<close>

definition NL :: u8 where "NL = 10"

definition b64_char :: "u32 \<Rightarrow> nat \<Rightarrow> u8" where
  "b64_char l sh = BASE64 ! unat (drop_bit sh l AND 0x3f)"

definition b64_tail :: "bytes \<Rightarrow> bytes" where
  "b64_tail s = (case s of
      [a] \<Rightarrow> let l = push_bit 16 (ucast a) in [b64_char l 18, b64_char l 12] @ ascii ''==''
    | [a, b] \<Rightarrow> let l = push_bit 16 (ucast a) OR push_bit 8 (ucast b)
        in [b64_char l 18, b64_char l 12, b64_char l 6] @ ascii ''=''
    | _ \<Rightarrow> [])"

fun b64_loop :: "int \<Rightarrow> int \<Rightarrow> bytes \<Rightarrow> bytes" where
  "b64_loop count column (a # b # c # s) =
     (let l = push_bit 16 (ucast a) OR push_bit 8 (ucast b) OR ucast c :: u32
      in map (b64_char l) [18, 12, 6, 0] @
         (if count > 0
          then (if column = count then NL # b64_loop count 3 s else b64_loop count (column + 3) s)
          else b64_loop count column s))"
| "b64_loop count column s =
     b64_tail s @ (let column = (if s = [] then column else column + 3)
       in if count > 0 \<and> column > 0 then [NL] else [])"

definition pack_base64 :: "bytes \<Rightarrow> int \<Rightarrow> bytes" where
  "pack_base64 src count =
     (if src = [] then []
      else b64_loop (if count \<noteq> 0 \<and> count < 3 then 45 else if count \<ge> 3 then count - count mod 3 else 0) 3 src)"

text \<open>The next character that counts: its value and the padding so far. None: the input ended.\<close>

fun b64_next :: "bytes \<Rightarrow> nat \<Rightarrow> (u8 \<times> nat \<times> bytes) option" where
  "b64_next [] pad = None"
| "b64_next (b # s) pad =
     (if b = byte_of CHR ''='' then Some (0, pad + 1, s)
      else case base64_val b of Some v \<Rightarrow> Some (v, pad, s) | None \<Rightarrow> b64_next s pad)"

fun b64_four :: "nat \<Rightarrow> bytes \<Rightarrow> nat \<Rightarrow> (u8 list \<times> nat \<times> bytes) option" where
  "b64_four 0 s pad = Some ([], pad, s)"
| "b64_four (Suc k) s pad = (case b64_next s pad of
      None \<Rightarrow> None
    | Some (v, pad, s) \<Rightarrow> map_option (\<lambda>(vs, r). (v # vs, r)) (b64_four k s pad))"

lemma b64_next_shorter: "b64_next s pad = Some (v, pad', s') \<Longrightarrow> length s' < length s"
  by (induction s pad rule: b64_next.induct) (auto split: if_splits option.splits)

lemma b64_four_shorter: "b64_four k s pad = Some (vs, pad', s') \<Longrightarrow> length s' + k \<le> length s"
proof (induction k arbitrary: s pad vs)
  case (Suc k)
  then obtain v p s1 ws where "b64_next s pad = Some (v, p, s1)" "b64_four k s1 p = Some (ws, pad', s')"
    by (auto split: option.splits)
  with b64_next_shorter Suc.IH show ?case by fastforce
qed simp

function b64_groups :: "bytes \<Rightarrow> nat \<Rightarrow> bytes \<times> bytes" where
  "b64_groups s pad =
     (if length s < 4 then ([], s)
      else case b64_four 4 s pad of
          None \<Rightarrow> ([], [])
        | Some (ch, pad, s') \<Rightarrow>
            (let l = push_bit 18 (ucast (ch ! 0)) + push_bit 12 (ucast (ch ! 1)) + push_bit 6 (ucast (ch ! 2)) + ucast (ch ! 3) :: u32
             in if pad \<ge> 2 then ([ucast (drop_bit 16 l)], s')
                else if pad = 1 then ([ucast (drop_bit 16 l), ucast (drop_bit 8 l)], s')
                else let (out, left) = b64_groups s' pad
                     in (ucast (drop_bit 16 l) # ucast (drop_bit 8 l) # ucast l # out, left)))"
  by pat_completeness auto
termination by (relation "measure (\<lambda>(s, _). length s)") (auto dest: b64_four_shorter)

declare b64_groups.simps [simp del]

definition unpack_base64 :: "bytes \<Rightarrow> bytes \<times> nat" where
  "unpack_base64 src = (if src = [] then ([], 0)
     else let (out, left) = b64_groups src 0 in (out, length src - length left))"

section \<open>Uuencode\<close>

definition uu_group :: "bytes \<Rightarrow> bytes" where
  "uu_group g =
     (let v = push_bit ((3 - length g) * 8) (fold (\<lambda>b group. push_bit 8 group OR ucast b) g 0) :: u32
      in map (\<lambda>sh. UU ! unat (drop_bit sh v AND 0x3F)) [18, 12, 6, 0])"

fun uu_groups :: "bytes \<Rightarrow> bytes" where
  "uu_groups (a # b # c # s) = uu_group [a, b, c] @ uu_groups s"
| "uu_groups [] = []"
| "uu_groups s = uu_group s"

function uu_lines :: "nat \<Rightarrow> bytes \<Rightarrow> bytes" where
  "uu_lines count s =
     (if s = [] \<or> count = 0 then []
      else let line = take count s
           in [UU ! unat ((word_of_nat (length line) :: u32) AND 0x3F)] @ uu_groups line @ [NL] @ uu_lines count (drop count s))"
  by pat_completeness auto
termination by (relation "measure (\<lambda>(_, s). length s)") auto

declare uu_lines.simps [simp del]

definition pack_uu :: "bytes \<Rightarrow> int \<Rightarrow> bytes" where
  "pack_uu src count =
     (let n = (if count \<le> 2 then 45 else if count > 63 then 63 else nat count)
      in uu_lines (n - n mod 3) src @ (if src = [] then [] else [UU ! 0, NL]))"

definition uu_dec :: "u8 \<Rightarrow> int" where
  "uu_dec c = (if 32 \<le> c \<and> c < 128 then if c = 0x60 then 0 else if c < 96 then uint (c - 32) else - 1 else - 1)"

text \<open>Four characters of a line; None: one of them is none.\<close>

fun uu_four :: "nat \<Rightarrow> bytes \<Rightarrow> int list option \<times> bytes" where
  "uu_four 0 s = (Some [], s)"
| "uu_four (Suc k) s = (case s of
      [] \<Rightarrow> (None, s)
    | b # s' \<Rightarrow> if uu_dec b < 0 then (None, s)
        else (case uu_four k s' of (r, s'') \<Rightarrow> (map_option (\<lambda>vs. uu_dec b # vs) r, s'')))"

lemma uu_four_shorter: "uu_four k s = (r, s') \<Longrightarrow> length s' \<le> length s \<and> (r \<noteq> None \<longrightarrow> length s' + k = length s)"
  by (induction k arbitrary: s r) (auto split: list.splits if_splits prod.splits, fastforce+)

function uu_line :: "nat \<Rightarrow> bytes \<Rightarrow> bytes \<times> bytes" where
  "uu_line left s =
     (if left = 0 \<or> length s \<le> 3 then ([], s)
      else case uu_four 4 s of
          (None, s') \<Rightarrow> ([], s')
        | (Some c, s') \<Rightarrow>
            (let group = push_bit 18 (word_of_int (c ! 0)) OR push_bit 12 (word_of_int (c ! 1)) OR
                   push_bit 6 (word_of_int (c ! 2)) OR word_of_int (c ! 3) :: u32;
                 n = min left 3;
                 (out, rest) = uu_line (left - n) s'
             in (map (\<lambda>i. ucast (drop_bit (16 - i * 8) group)) [0..<n] @ out, rest)))"
  by pat_completeness auto
termination by (relation "measure fst") auto

declare uu_line.simps [simp del]

lemma uu_line_shorter: "uu_line left s = (out, s') \<Longrightarrow> length s' \<le> length s"
proof (induction left s arbitrary: out s' rule: uu_line.induct)
  case (1 left s)
  show ?case
  proof (cases "left = 0 \<or> length s \<le> 3")
    case True
    then show ?thesis using 1(2) by (simp add: uu_line.simps)
  next
    case False
    obtain r s1 where f: "uu_four 4 s = (r, s1)" by (cases "uu_four 4 s")
    show ?thesis
    proof (cases r)
      case None
      then show ?thesis using 1(2) False f uu_four_shorter [OF f] by (simp add: uu_line.simps [of left s])
    next
      case (Some c)
      obtain o2 s2 where l: "uu_line (left - min left 3) s1 = (o2, s2)" by (cases "uu_line (left - min left 3) s1")
      then have "s' = s2" using 1(2) False f Some by (simp add: uu_line.simps [of left s])
      moreover have "length s2 \<le> length s1" using 1(1) [OF False f [symmetric] Some refl refl l] .
      ultimately show ?thesis using uu_four_shorter [OF f] by simp
    qed
  qed
qed

function uu_read :: "bytes \<Rightarrow> bytes" where
  "uu_read s =
     (case dropWhile (\<lambda>c. c \<in> {10, 13, 32, 9}) s of
        [] \<Rightarrow> []
      | b # s1 \<Rightarrow>
          if uu_dec b \<le> 0 then []
          else let (out, s2) = uu_line (nat (uu_dec b)) s1
               in out @ uu_read (dropWhile (\<lambda>c. c \<noteq> 10 \<and> c \<noteq> 13) s2))"
  by pat_completeness auto
termination
proof (relation "measure length", simp)
  fix s b s1 x out s2
  assume a: "dropWhile (\<lambda>c. c \<in> {10, 13, 32, 9}) s = b # s1" "x = uu_line (nat (uu_dec b)) s1" "(out, s2) = x"
  have "length (b # s1) \<le> length s" unfolding a(1) [symmetric] by (rule length_dropWhile_le)
  moreover have "length s2 \<le> length s1" using a(2,3) by (auto intro: uu_line_shorter [OF sym])
  moreover have "length (dropWhile (\<lambda>c. c \<noteq> 10 \<and> c \<noteq> 13) s2) \<le> length s2" by (rule length_dropWhile_le)
  ultimately show "(dropWhile (\<lambda>c. c \<noteq> 10 \<and> c \<noteq> 13) s2, s) \<in> measure length" by simp
qed

declare uu_read.simps [simp del]

definition unpack_uu :: "bytes \<Rightarrow> bytes \<times> nat" where
  "unpack_uu src = (uu_read src, length src)"

section \<open>Quoted-printable\<close>

definition qp_escape :: "u8 \<Rightarrow> bytes" where
  "qp_escape b = [byte_of CHR ''='', HEX_UP ! unat (drop_bit 4 b), HEX_UP ! unat (b AND 0xf)]"

text \<open>\<open>n\<close>: columns used, \<open>prev\<close>: the byte before when it was stored as it is.\<close>

fun qp_loop :: "int \<Rightarrow> int \<Rightarrow> u8 option \<Rightarrow> bytes \<Rightarrow> bytes" where
  "qp_loop count n prev [] = (if n > 0 then [byte_of CHR ''='', NL] else [])"
| "qp_loop count n prev (b # s) =
     (let (stored, n, prev) =
        (if qprint_type b = 0 then
           (if (b = 32 \<or> b = 9) \<and> s \<noteq> [] \<and> hd s = 10 then (qp_escape b, n + 3, None)
            else ([b], n + 1, Some b))
         else if qprint_type b = 2 then
           ((if prev = Some 32 \<or> prev = Some 9 then [byte_of CHR ''='', b] else []) @ [b], 0, Some b)
         else (qp_escape b, n + 3, None))
      in stored @ (if n > count then [byte_of CHR ''='', NL] @ qp_loop count 0 (Some NL) s
                   else qp_loop count n prev s))"

definition pack_qenc :: "bytes \<Rightarrow> int \<Rightarrow> bytes" where
  "pack_qenc src count = qp_loop (if count \<le> 1 then 72 else count) 0 None src"

fun qp_read :: "bytes \<Rightarrow> bytes" where
  "qp_read [] = []"
| "qp_read (b # s) =
     (if b \<noteq> byte_of CHR ''='' then b # qp_read s
      else case s of
          [] \<Rightarrow> []
        | c # s1 \<Rightarrow>
            if c = 13 \<and> s1 \<noteq> [] \<and> hd s1 = 10 then qp_read (tl s1)
            else if c = 10 then qp_read s1
            else if hex2int c = - 1 then []
            else (case s1 of
                [] \<Rightarrow> []
              | d # s2 \<Rightarrow> if hex2int d = - 1 then []
                  else word_of_int (hex2int c * 16 + hex2int d) # qp_read s2))"

definition unpack_qenc :: "bytes \<Rightarrow> bytes \<times> nat" where
  "unpack_qenc src = (if src = [] then ([], 0) else (qp_read src, length src))"

end
