(* ===== verification/Convert.thy ===== *)
theory Convert
  imports VmCore
begin

text \<open>
  Conversions of numbers that several extensions ask for: \<open>Vm::expect_int\<close> and the texts of its errors
  (\<open>src/vm.rs\<close>, \<open>src/builtins/numeric.rs\<close>), the number as a double (\<open>num_f64\<close>, \<open>BigInt::to_f64\<close>), and between
  doubles and single floats. A float is its IEEE 754 bit pattern; \<open>float_encode\<close> is the rounding to nearest, ties to
  even, that \<open>as f64\<close>, \<open>as f32\<close> and \<open>+\<close> do.
\<close>

unbundle bit_operations_syntax

section \<open>Rounding\<close>

text \<open>\<open>m / 2^k\<close> rounded to nearest, ties to even.\<close>

definition round_even :: "nat \<Rightarrow> nat \<Rightarrow> nat" where
  "round_even m k =
     (let q = m div 2 ^ k; r = m mod 2 ^ k
      in if 2 * r > 2 ^ k \<or> 2 * r = 2 ^ k \<and> odd q then q + 1 else q)"

text \<open>How many bits a number has.\<close>

fun bit_count :: "nat \<Rightarrow> nat" where
  "bit_count m = (if m = 0 then 0 else Suc (bit_count (m div 2)))"

declare bit_count.simps [simp del]

text \<open>
  The bits, the sign apart, of the float nearest to \<open>m * 2^e\<close>, with \<open>p\<close> bits of fraction and \<open>w\<close> of exponent:
  \<open>q\<close> is the exponent of the last bit kept, never below that of a subnormal.
\<close>

definition float_encode :: "nat \<Rightarrow> nat \<Rightarrow> nat \<Rightarrow> int \<Rightarrow> nat" where
  "float_encode p w m e =
     (if m = 0 then 0
      else let low = 2 - 2 ^ (w - 1) - int p;
               q = max (e + int (bit_count m) - 1 - int p) low;
               r = (if q \<le> e then m * 2 ^ nat (e - q) else round_even m (nat (q - e)))
           in min (nat (q - low) * 2 ^ p + r) ((2 ^ w - 1) * 2 ^ p))"

definition f64_of :: "bool \<Rightarrow> nat \<Rightarrow> int \<Rightarrow> f64" where
  "f64_of neg m e = word_of_nat (float_encode 52 11 m e) OR (if neg then push_bit 63 1 else 0)"

definition f32_of :: "bool \<Rightarrow> nat \<Rightarrow> int \<Rightarrow> u32" where
  "f32_of neg m e = word_of_nat (float_encode 23 8 m e) OR (if neg then push_bit 31 1 else 0)"

text \<open>A finite double or single float is \<open>m * 2^e\<close>.\<close>

definition f64_parts :: "f64 \<Rightarrow> nat \<times> int" where
  "f64_parts x =
     (let ex = unat (drop_bit 52 x AND 0x7FF); frac = unat (x AND 0x000FFFFFFFFFFFFF)
      in if ex = 0 then (frac, - 1074) else (2 ^ 52 + frac, int ex - 1075))"

definition f32_parts :: "u32 \<Rightarrow> nat \<times> int" where
  "f32_parts x =
     (let ex = unat (drop_bit 23 x AND 0xFF); frac = unat (x AND 0x007FFFFF)
      in if ex = 0 then (frac, - 149) else (2 ^ 23 + frac, int ex - 150))"

text \<open>\<open>f as f32\<close>, \<open>f as f64\<close>; of a NaN what IEEE 754 recommends, the quiet NaN with the sign and the top of the payload.\<close>

definition f64_to_f32 :: "f64 \<Rightarrow> u32" where
  "f64_to_f32 x =
     (if f64_nan x then 0x7FC00000 OR ucast (drop_bit 29 (x AND 0x000FFFFFFFFFFFFF)) OR (if bit x 63 then push_bit 31 1 else 0)
      else if drop_bit 52 x AND 0x7FF = 0x7FF then 0x7F800000 OR (if bit x 63 then push_bit 31 1 else 0)
      else let (m, e) = f64_parts x in f32_of (bit x 63) m e)"

definition f32_to_f64 :: "u32 \<Rightarrow> f64" where
  "f32_to_f64 x =
     (let s = (if bit x 31 then push_bit 63 1 else 0) :: f64
      in if drop_bit 23 x AND 0xFF = 0xFF
         then (if x AND 0x007FFFFF = 0 then 0x7FF0000000000000 OR s
               else 0x7FF8000000000000 OR push_bit 29 (ucast (x AND 0x007FFFFF)) OR s)
         else let (m, e) = f32_parts x in f64_of (bit x 31) m e)"

section \<open>Integers as doubles\<close>

text \<open>\<open>i as f64\<close>\<close>

definition i64_as_f64 :: "i64 \<Rightarrow> f64" where
  "i64_as_f64 i = f64_of (sint i < 0) (nat \<bar>sint i\<bar>) 0"

text \<open>
  One limb of \<open>BigInt::to_f64\<close>, \<open>val * 4294967296.0 + l as f64\<close>: the product is exact, the sum is rounded. The double so
  far is not negative and a whole number, or infinite.
\<close>

definition f64_limb :: "f64 \<Rightarrow> limb \<Rightarrow> f64" where
  "f64_limb v l =
     (if drop_bit 52 v AND 0x7FF = 0x7FF then v
      else let (m, e) = f64_parts v; n = (if 0 \<le> e then m * 2 ^ nat e else m div 2 ^ nat (- e))
           in f64_of False (n * B32 + unat l) 0)"

definition big_to_f64 :: "bigint \<Rightarrow> f64" where
  "big_to_f64 b =
     (let v = fold (\<lambda>l v. f64_limb v l) (rev (bmag b)) 0
      in if bneg b then v XOR push_bit 63 1 else v)"

section \<open>Conversions of values\<close>

text \<open>The classes and names the conversions ask for, and the text of a float.\<close>

record 'w num_env =
  ne_ruby :: "'w ruby"
  ne_float_text :: "f64 \<Rightarrow> bytes"
  ne_c_range_error :: obj_id
  ne_c_rational :: obj_id
  ne_c_complex :: obj_id
  ne_s_to_i :: sym

text \<open>\<open>describe_for_type_error\<close>\<close>

definition type_text :: "'w ruby \<Rightarrow> rvalue \<Rightarrow> 'w hvm \<Rightarrow> 'w hvm \<times> bytes" where
  "type_text rb v s = (case v of
      VNil \<Rightarrow> (s, ascii ''nil'') | VTrue \<Rightarrow> (s, ascii ''true'') | VFalse \<Rightarrow> (s, ascii ''false'')
    | _ \<Rightarrow> rb_describe rb v s)"

definition is_a :: "obj_id \<Rightarrow> rvalue \<Rightarrow> 'w hvm \<Rightarrow> bool" where
  "is_a c v s = (case v of
      VObj o' \<Rightarrow> (case heap_get (vm_heap s) o' of Some x \<Rightarrow> ho_class x = c | None \<Rightarrow> False) | _ \<Rightarrow> False)"

definition not_int :: "'w ruby \<Rightarrow> rvalue \<Rightarrow> ('w, 'a) eff" where
  "not_int rb v s = (let (s1, d) = type_text rb v s in raise_type rb (d @ ascii '' cannot be converted to Integer'') s1)"

definition int_out_of_range :: "'w num_env \<Rightarrow> ('w, 'a) eff" where
  "int_out_of_range ne = raise_exc (ne_ruby ne) (ne_c_range_error ne) (ascii ''integer out of range'')"

definition float_out_of_range :: "'w num_env \<Rightarrow> f64 \<Rightarrow> ('w, 'a) eff" where
  "float_out_of_range ne f =
     raise_exc (ne_ruby ne) (ne_c_range_error ne) (ascii ''float '' @ ne_float_text ne f @ ascii '' out of range'')"

definition float_to_i64 :: "'w num_env \<Rightarrow> f64 \<Rightarrow> ('w, i64) eff" where
  "float_to_i64 ne f =
     (if drop_bit 52 f AND 0x7FF = 0x7FF then float_out_of_range ne f
      else if - (2 ^ 63) \<le> bval (big_from_f64 f) \<and> bval (big_from_f64 f) < 2 ^ 63 then ret (f64_as_i64 f)
      else int_out_of_range ne)"

partial_function (option) expect_int :: "'w num_env \<Rightarrow> rvalue \<Rightarrow> ('w, i64) eff" where
  "expect_int ne v s =
     (if is_a (ne_c_rational ne) v s \<or> is_a (ne_c_complex ne) v s
      then andthen (rb_funcall (ne_ruby ne) v (ne_s_to_i ne) []) (expect_int ne) s
      else case v of
          VInt i \<Rightarrow> ret i s
        | VFloat f \<Rightarrow> float_to_i64 ne f s
        | VObj o' \<Rightarrow> (case heap_bigint (vm_heap s) o' of
              Some b \<Rightarrow> (case big_to_i64 b of Some i \<Rightarrow> ret i s | None \<Rightarrow> int_out_of_range ne s)
            | None \<Rightarrow> not_int (ne_ruby ne) v s)
        | _ \<Rightarrow> not_int (ne_ruby ne) v s)"

lemma expect_int_VInt [simp]: "expect_int ne (VInt i) = ret i"
  by (rule ext) (simp add: expect_int.simps is_a_def)

lemma expect_int_VFloat [simp]: "expect_int ne (VFloat f) = float_to_i64 ne f"
  by (rule ext) (simp add: expect_int.simps is_a_def)

section \<open>What the rounding promises\<close>

lemma round_even_0 [simp]: "round_even m 0 = m"
  by (simp add: round_even_def)

lemma bit_count_le: "m < 2 ^ k \<Longrightarrow> bit_count m \<le> k"
proof (induction m arbitrary: k rule: bit_count.induct)
  case (1 m)
  show ?case
  proof (cases k)
    case (Suc j)
    with 1 show ?thesis by (subst bit_count.simps) auto
  qed (use 1 in \<open>simp add: bit_count.simps\<close>)
qed

lemma less_bit_count: "2 ^ k \<le> m \<Longrightarrow> k < bit_count m"
proof (induction m arbitrary: k rule: bit_count.induct)
  case (1 m)
  from 1(2) have m: "m \<noteq> 0" using not_less by fastforce
  show ?case
  proof (cases k)
    case 0
    then show ?thesis using m by (subst bit_count.simps) simp
  next
    case (Suc j)
    with 1 m have "j < bit_count (m div 2)" by (intro 1(1)) auto
    then show ?thesis using m Suc by (subst bit_count.simps) simp
  qed
qed

lemma float_encode_exact:
  assumes "0 < m" "m < 2 ^ (p + 1)" "2 - 2 ^ (w - 1) - int p \<le> e" "2 ^ p \<le> m \<or> e = 2 - 2 ^ (w - 1) - int p"
    "nat (e - (2 - 2 ^ (w - 1) - int p)) + 2 < 2 ^ w"
  shows "float_encode p w m e = nat (e - (2 - 2 ^ (w - 1) - int p)) * 2 ^ p + m"
proof -
  define low where "low = 2 - 2 ^ (w - 1) - int p"
  have l: "bit_count m \<le> p + 1" using assms(1,2) by (simp add: bit_count_le)
  have q: "max (e + int (bit_count m) - 1 - int p) low = e"
  proof (cases "2 ^ p \<le> m")
    case True
    then have "p < bit_count m" by (simp add: less_bit_count)
    then show ?thesis using l assms(3) by (simp add: low_def)
  next
    case False
    then have "e = low" using assms(4) by (simp add: low_def)
    then show ?thesis using l by simp
  qed
  have "nat (e - low) * 2 ^ p + m \<le> (nat (e - low) + 2) * 2 ^ p" using assms(2) by (simp add: algebra_simps)
  also have "\<dots> \<le> (2 ^ w - 1) * 2 ^ p" using assms(5) by (intro mult_right_mono) (simp_all add: low_def)
  finally show ?thesis using assms(1) q unfolding float_encode_def low_def [symmetric] by (simp add: Let_def)
qed

end
