(* ===== verification/Chars.thy ===== *)
theory Chars
  imports PackCodec Convert
begin

text \<open>
  Strings as characters (\<open>src/builtins/string.rs\<close>): how many bytes a character takes, lengths and positions in characters
  and in bytes, code points, searches, the pieces that \<open>chomp\<close>, \<open>chop\<close> and \<open>sub\<close> cut, the printed forms. A position in a
  string is written as what follows it, where only what follows matters. \<open>chars\<close> is False for a string read as bytes.
\<close>

unbundle bit_operations_syntax

section \<open>The length of a character\<close>

text \<open>\<open>utf8len\<close> at the start of \<open>b\<close>.\<close>

definition utf8len :: "bytes \<Rightarrow> bool \<Rightarrow> nat" where
  "utf8len b chars =
     (if \<not> chars then 1
      else case b of
          [] \<Rightarrow> 1
        | c # rest \<Rightarrow>
            let top = unat (drop_bit 3 c);
                len = (if top \<le> 15 then 1 else if 24 \<le> top \<and> top \<le> 27 then 2 else if top = 28 \<or> top = 29 then 3
                       else if top = 30 then 4 else 1 :: nat)
            in if len = 1 then 1
               else if len > length b then 1
               else if list_ex (\<lambda>x. x AND 0xc0 \<noteq> 0x80) (take (len - 1) rest) then 1
               else if c = 0xc0 \<or> c = 0xc1 then 1
               else if c = 0xe0 \<and> hd rest < 0xa0 then 1
               else if c = 0xed \<and> hd rest > 0x9f then 1
               else if c = 0xf0 \<and> hd rest < 0x90 then 1
               else if c = 0xf4 \<and> hd rest > 0x8f then 1
               else if 0xf5 \<le> c \<and> c \<le> 0xf7 then 1
               else len)"

lemma utf8len_pos [simp]: "0 < utf8len b chars"
  by (simp add: utf8len_def Let_def split: list.splits)

lemma utf8len_le: "b \<noteq> [] \<Longrightarrow> utf8len b chars \<le> length b"
  by (cases b) (simp_all add: utf8len_def Let_def Suc_le_eq)

lemma utf8len_bytes [simp]: "utf8len b False = 1"
  by (simp add: utf8len_def)

definition is_ascii :: "bytes \<Rightarrow> bool" where
  "is_ascii b = list_all (\<lambda>c. c < 0x80) b"

section \<open>Characters\<close>

text \<open>The walk over the characters that several helpers share: \<open>n\<close> characters of \<open>b\<close>, how many bytes.\<close>

function walk_chars :: "bytes \<Rightarrow> bool \<Rightarrow> nat" where
  "walk_chars b chars = (if b = [] then 0 else 1 + walk_chars (drop (utf8len b chars) b) chars)"
  by pat_completeness auto
termination by (relation "measure (\<lambda>(b, _). length b)") auto

declare walk_chars.simps [simp del]

definition char_len :: "bytes \<Rightarrow> bool \<Rightarrow> nat" where
  "char_len b chars = (if \<not> chars then length b else if is_ascii b then length b else walk_chars b chars)"

function walk_to :: "bytes \<Rightarrow> nat \<Rightarrow> bool \<Rightarrow> nat" where
  "walk_to b ci chars =
     (if b = [] \<or> ci = 0 then 0 else utf8len b chars + walk_to (drop (utf8len b chars) b) (ci - 1) chars)"
  by pat_completeness auto
termination by (relation "measure (\<lambda>(b, _). length b)") auto

declare walk_to.simps [simp del]

definition char_to_byte :: "bytes \<Rightarrow> nat \<Rightarrow> bool \<Rightarrow> nat" where
  "char_to_byte b ci chars =
     (if \<not> chars then min ci (length b)
      else let head = min ci (length b) in if is_ascii (take head b) then head else walk_to b ci chars)"

function walk_before :: "bytes \<Rightarrow> nat \<Rightarrow> bool \<Rightarrow> nat" where
  "walk_before b bi chars =
     (if b = [] \<or> bi = 0 then 0 else 1 + walk_before (drop (utf8len b chars) b) (bi - utf8len b chars) chars)"
  by pat_completeness auto
termination by (relation "measure (\<lambda>(b, _). length b)") auto

declare walk_before.simps [simp del]

definition byte_to_char :: "bytes \<Rightarrow> nat \<Rightarrow> bool \<Rightarrow> nat" where
  "byte_to_char b bi chars = (if \<not> chars then bi else walk_before b bi chars)"

definition char_span :: "bytes \<Rightarrow> nat \<Rightarrow> nat \<Rightarrow> bool \<Rightarrow> nat \<times> nat" where
  "char_span b ci n chars =
     (let start = char_to_byte b ci chars; stop = char_to_byte b (ci + n) chars in (start, stop - start))"

function chars_of :: "bytes \<Rightarrow> bool \<Rightarrow> bytes list" where
  "chars_of b chars =
     (if b = [] then [] else take (utf8len b chars) b # chars_of (drop (utf8len b chars) b) chars)"
  by pat_completeness auto
termination by (relation "measure (\<lambda>(b, _). length b)") auto

declare chars_of.simps [simp del]

text \<open>The code point at the start of \<open>b\<close>, which is not empty.\<close>

definition code_point :: "bytes \<Rightarrow> bool \<Rightarrow> u32" where
  "code_point b chars =
     (let n = utf8len b chars
      in if n = 1 then ucast (hd b)
         else fold (\<lambda>x cp. push_bit 6 cp OR (ucast x AND 0x3f)) (take (n - 1) (tl b)) (ucast (hd b) AND drop_bit n 0x7f))"

text \<open>In a build with characters: a surrogate and what is past U+10FFFF is a lone byte.\<close>

definition from_code_point :: "u32 \<Rightarrow> bytes" where
  "from_code_point cp =
     (if cp < 0xd800 \<or> 0xdfff < cp \<and> cp \<le> 0x10FFFF then
        (if cp \<le> 0x7f then [ucast cp]
         else if cp \<le> 0x7ff then [0xC0 OR ucast (drop_bit 6 cp), 0x80 OR ucast (cp AND 0x3F)]
         else if cp \<le> 0xffff then [0xE0 OR ucast (drop_bit 12 cp), 0x80 OR ucast (drop_bit 6 cp AND 0x3F), 0x80 OR ucast (cp AND 0x3F)]
         else [0xF0 OR ucast (drop_bit 18 cp), 0x80 OR ucast (drop_bit 12 cp AND 0x3F), 0x80 OR ucast (drop_bit 6 cp AND 0x3F),
               0x80 OR ucast (cp AND 0x3F)])
      else [ucast cp])"

function valid_walk :: "bytes \<Rightarrow> bool \<Rightarrow> bool" where
  "valid_walk b chars =
     (if b = [] then True
      else if utf8len b chars = 1 \<and> hd b \<ge> 0x80 then False
      else valid_walk (drop (utf8len b chars) b) chars)"
  by pat_completeness auto
termination by (relation "measure (\<lambda>(b, _). length b)") auto

declare valid_walk.simps [simp del]

definition valid_chars :: "bytes \<Rightarrow> bool \<Rightarrow> bool" where
  "valid_chars b chars = (if \<not> chars then True else valid_walk b chars)"

definition is_char_boundary :: "bytes \<Rightarrow> nat \<Rightarrow> bool \<Rightarrow> bool" where
  "is_char_boundary b i chars =
     (if \<not> chars then True
      else if i \<ge> length b then i = length b
      else char_to_byte b (byte_to_char b i chars) chars = i)"

text \<open>The start of the character that covers byte \<open>i\<close> of \<open>b\<close>; \<open>p\<close> is where \<open>b\<close> starts.\<close>

function head_walk :: "bytes \<Rightarrow> nat \<Rightarrow> nat \<Rightarrow> bool \<Rightarrow> nat" where
  "head_walk b p i chars =
     (if b = [] then p
      else if p + utf8len b chars > i then p
      else head_walk (drop (utf8len b chars) b) (p + utf8len b chars) i chars)"
  by pat_completeness auto
termination by (relation "measure (\<lambda>(b, _). length b)") auto

declare head_walk.simps [simp del]

definition char_head :: "bytes \<Rightarrow> nat \<Rightarrow> bool \<Rightarrow> nat" where
  "char_head b i chars = (if \<not> chars \<or> i \<ge> length b then min i (length b) else head_walk b 0 i chars)"

section \<open>Searches\<close>

definition matches_at :: "bytes \<Rightarrow> bytes \<Rightarrow> nat \<Rightarrow> bool" where
  "matches_at hay needle i \<longleftrightarrow> take (length needle) (drop i hay) = needle"

text \<open>\<open>str_find\<close> is \<open>find\<close>, \<open>str_rfind\<close> is \<open>rfind\<close>.\<close>

definition str_find :: "bytes \<Rightarrow> bytes \<Rightarrow> nat \<Rightarrow> nat option" where
  "str_find hay needle from =
     (if needle = [] then (if from \<le> length hay then Some from else None)
      else if from \<ge> length hay then None
      else List.find (matches_at hay needle) [from..<Suc (length hay) - length needle])"

definition str_rfind :: "bytes \<Rightarrow> bytes \<Rightarrow> nat \<Rightarrow> nat option" where
  "str_rfind hay needle pos =
     (if length hay < length needle then None
      else let pos = min pos (length hay - length needle)
           in if needle = [] then Some pos else List.find (matches_at hay needle) (rev [0..<Suc pos]))"

lemma head_walk_le: "p \<le> i \<Longrightarrow> head_walk b p i chars \<le> i"
  by (induction b p i chars rule: head_walk.induct) (subst head_walk.simps, auto)

lemma char_head_le: "char_head b i chars \<le> i"
  using head_walk_le [of 0 i b chars] by (auto simp: char_head_def)

function rfind_walk :: "bytes \<Rightarrow> bytes \<Rightarrow> nat \<Rightarrow> bool \<Rightarrow> nat option" where
  "rfind_walk hay needle pos chars =
     (if length hay - pos \<ge> length needle \<and> matches_at hay needle pos then Some pos
      else if pos = 0 then None
      else rfind_walk hay needle (char_head hay (pos - 1) chars) chars)"
  by pat_completeness auto
termination
proof (relation "measure (\<lambda>(_, _, pos, _). pos)")
  fix hay :: bytes and pos :: nat and chars
  assume "pos \<noteq> 0"
  then show "((hay, needle, char_head hay (pos - 1) chars, chars), hay, needle, pos, chars) \<in> measure (\<lambda>(_, _, pos, _). pos)" for needle
    using char_head_le [of hay "pos - 1" chars] by simp
qed simp

declare rfind_walk.simps [simp del]

definition char_rfind :: "bytes \<Rightarrow> bytes \<Rightarrow> nat \<Rightarrow> bool \<Rightarrow> nat option" where
  "char_rfind hay needle pos chars =
     (if \<not> chars then str_rfind hay needle pos
      else if length hay < length needle then None
      else let pos = min pos (length hay - length needle)
           in if needle = [] then Some pos else rfind_walk hay needle (char_head hay pos chars) chars)"

section \<open>Pieces\<close>

definition ends_with :: "bytes \<Rightarrow> bytes \<Rightarrow> bool" where
  "ends_with b t \<longleftrightarrow> length t \<le> length b \<and> drop (length b - length t) b = t"

definition str_reverse :: "bytes \<Rightarrow> bool \<Rightarrow> bytes" where
  "str_reverse b chars = concat (rev (chars_of b chars))"

definition chomp_newline :: "bytes \<Rightarrow> nat" where
  "chomp_newline b =
     (if ends_with b [13, 10] then length b - 2
      else if ends_with b [10] \<or> ends_with b [13] then length b - 1
      else length b)"

fun chomp_all :: "bytes \<Rightarrow> nat \<Rightarrow> nat" where
  "chomp_all b 0 = 0"
| "chomp_all b (Suc n) =
     (if b ! n \<noteq> 10 then Suc n else if n > 0 \<and> b ! (n - 1) = 13 then chomp_all b (n - 1) else chomp_all b n)"

definition chomp_bytes :: "bytes \<Rightarrow> bytes option \<Rightarrow> bool \<Rightarrow> nat" where
  "chomp_bytes b rs chars = (case rs of
      None \<Rightarrow> chomp_newline b
    | Some rs \<Rightarrow>
        if rs = [] then chomp_all b (length b)
        else if rs = [10] then chomp_newline b
        else if ends_with b rs \<and> is_char_boundary b (length b - length rs) chars then length b - length rs
        else length b)"

definition chop_len :: "bytes \<Rightarrow> bool \<Rightarrow> nat" where
  "chop_len b chars =
     (if ends_with b [13, 10] then length b - 2
      else if b = [] then 0
      else char_to_byte b (char_len b chars - 1) chars)"

text \<open>What a replacement with back references stands for; \<open>found\<close> is where the pattern was found in \<open>me\<close>.\<close>

definition BSL :: u8 where "BSL = 92"

fun sub_replace :: "bytes \<Rightarrow> bytes \<Rightarrow> nat \<Rightarrow> bytes \<Rightarrow> bytes" where
  "sub_replace me pat found [] = []"
| "sub_replace me pat found [c] = [c]"
| "sub_replace me pat found (c # d # rep) =
     (if c \<noteq> BSL then c # sub_replace me pat found (d # rep)
      else (if d = BSL then [BSL]
            else if d = byte_of CHR ''`'' then take found me
            else if d = byte_of CHR ''&'' \<or> d = byte_of CHR ''0'' then pat
            else if d = 39 then drop (found + length pat) me
            else if between d CHR ''1'' CHR ''9'' then []
            else [BSL, d]) @ sub_replace me pat found rep)"

section \<open>Printed forms\<close>

definition hex2 :: "u8 \<Rightarrow> bytes" where
  "hex2 c = [HEX_UP ! unat (drop_bit 4 c), HEX_UP ! unat (c AND 0xf)]"

text \<open>One byte of a printed string; \<open>rest\<close> is what follows it.\<close>

definition dump_byte :: "u8 \<Rightarrow> bytes \<Rightarrow> bytes" where
  "dump_byte c rest =
     (if c = 34 then [BSL, 34]
      else if c = BSL then [BSL, BSL]
      else if c = 10 then [BSL, byte_of CHR ''n'']
      else if c = 13 then [BSL, byte_of CHR ''r'']
      else if c = 9 then [BSL, byte_of CHR ''t'']
      else if c = 0x0c then [BSL, byte_of CHR ''f'']
      else if c = 0x0b then [BSL, byte_of CHR ''v'']
      else if c = 8 then [BSL, byte_of CHR ''b'']
      else if c = 7 then [BSL, byte_of CHR ''a'']
      else if c = 0x1b then [BSL, byte_of CHR ''e'']
      else if 0x20 \<le> c \<and> c \<le> 0x7e then
        (if c = byte_of CHR ''#'' \<and> rest \<noteq> [] \<and> hd rest \<in> set (ascii ''{$@'') then [BSL] else []) @ [c]
      else [BSL, byte_of CHR ''x''] @ hex2 c)"

fun dump_bytes :: "bytes \<Rightarrow> bytes" where
  "dump_bytes [] = []"
| "dump_bytes (c # rest) = dump_byte c rest @ dump_bytes rest"

definition str_dump :: "bytes \<Rightarrow> bytes" where
  "str_dump b = [34] @ dump_bytes b @ [34]"

function inspect_walk :: "bytes \<Rightarrow> bool \<Rightarrow> bytes" where
  "inspect_walk b chars =
     (if b = [] then []
      else let n = utf8len b chars
           in if n > 1 then take n b @ inspect_walk (drop n b) chars
              else dump_byte (hd b) (tl b) @ inspect_walk (tl b) chars)"
  by pat_completeness auto
termination by (relation "measure (\<lambda>(b, _). length b)") auto

declare inspect_walk.simps [simp del]

definition str_inspect :: "bytes \<Rightarrow> bool \<Rightarrow> bytes" where
  "str_inspect b chars = [34] @ inspect_walk b chars @ [34]"

end
