(* ===== verification/CharIndex.thy ===== *)
theory CharIndex
  imports Chars
begin

text \<open>
  The positions of \<open>src/builtins/string.rs\<close> against the list of a string's characters: lengths, offsets and spans are
  those of the list, the shortcuts for ASCII change nothing, and the searches find the first and the last place the needle is
  at, the backward one among the starts of characters only.
\<close>

section \<open>The list of characters\<close>

lemma utf8len_le' [simp]: "utf8len (c # b) m \<le> Suc (length b)"
  using utf8len_le [of "c # b" m] by simp

lemma utf8len_ascii [simp]: "c < 0x80 \<Longrightarrow> utf8len (c # b) m = 1"
proof -
  assume "c < 0x80"
  then have "unat c < 128" by (simp add: word_less_nat_alt)
  then have "unat (drop_bit 3 c) \<le> 15" unfolding trans [OF unat_drop_bit_eq drop_bit_eq_div] by simp
  then show ?thesis by (simp add: utf8len_def)
qed

lemma utf8len_neq_0 [simp]: "utf8len b m \<noteq> 0"
  using utf8len_pos [of b m] by linarith

lemma chars_of_Nil [simp]: "chars_of [] m = []"
  by (subst chars_of.simps) simp

lemma chars_of_step: "b \<noteq> [] \<Longrightarrow> chars_of b m = take (utf8len b m) b # chars_of (drop (utf8len b m) b) m"
  by (subst chars_of.simps) simp

lemma concat_chars_of [simp]: "concat (chars_of b m) = b"
proof (induction b m rule: chars_of.induct)
  case (1 b m)
  then show ?case by (cases "b = []") (simp_all add: chars_of_step)
qed

lemma walk_chars_eq: "walk_chars b m = length (chars_of b m)"
proof (induction b m rule: walk_chars.induct)
  case (1 b m)
  then show ?case by (subst walk_chars.simps) (simp add: chars_of_step)
qed

lemma chars_of_nonempty: "c \<in> set (chars_of b m) \<Longrightarrow> c \<noteq> []"
proof (induction b m rule: chars_of.induct)
  case (1 b m)
  show ?case
  proof (cases "b = []")
    case False
    have "c = take (utf8len b m) b \<or> c \<in> set (chars_of (drop (utf8len b m) b) m)"
      using 1(2) unfolding chars_of_step [OF False] by simp
    then show ?thesis using 1(1) False by auto
  qed (use 1(2) in simp)
qed

lemma chars_of_bytes [simp]: "chars_of b False = map (\<lambda>c. [c]) b"
proof (induction b)
  case (Cons c b)
  then show ?case by (subst chars_of_step) simp_all
qed simp

lemma chars_of_ascii: "is_ascii b \<Longrightarrow> chars_of b m = map (\<lambda>c. [c]) b"
proof (induction b)
  case (Cons c b)
  then show ?case by (subst chars_of_step) (simp_all add: is_ascii_def)
qed simp

lemma concat_singles [simp]: "concat (map (\<lambda>c. [c]) b) = b"
  by (induction b) simp_all

section \<open>Offsets\<close>

text \<open>Where character \<open>ci\<close> starts.\<close>

definition char_start :: "bytes \<Rightarrow> bool \<Rightarrow> nat \<Rightarrow> nat" where
  "char_start b m ci = length (concat (take ci (chars_of b m)))"

lemma char_start_0 [simp]: "char_start b m 0 = 0"
  by (simp add: char_start_def)

lemma char_start_Nil [simp]: "char_start [] m ci = 0"
  by (simp add: char_start_def)

lemma char_start_Suc:
  "b \<noteq> [] \<Longrightarrow> char_start b m (Suc ci) = utf8len b m + char_start (drop (utf8len b m) b) m ci"
  by (simp add: char_start_def chars_of_step utf8len_le)

lemma char_start_all [simp]: "length (chars_of b m) \<le> ci \<Longrightarrow> char_start b m ci = length b"
  by (simp add: char_start_def)

lemma concat_take_drop: "concat (take n xss) @ concat (drop n xss) = concat xss"
  by (metis append_take_drop_id concat_append)

lemma char_start_le [simp]: "char_start b m ci \<le> length b"
  using arg_cong [OF concat_take_drop [of ci "chars_of b m"], of length] by (simp add: char_start_def)

lemma take_char_start: "take (char_start b m ci) b = concat (take ci (chars_of b m))"
  using concat_take_drop [of ci "chars_of b m"] by (metis append_eq_conv_conj char_start_def concat_chars_of)

lemma drop_char_start: "drop (char_start b m ci) b = concat (drop ci (chars_of b m))"
  using concat_take_drop [of ci "chars_of b m"] by (metis append_eq_conv_conj char_start_def concat_chars_of)

lemma char_start_mono: "i \<le> j \<Longrightarrow> char_start b m i \<le> char_start b m j"
  by (metis append_take_drop_id char_start_def concat_append length_append le_add1 min.absorb1 take_take)

lemma walk_to_eq: "walk_to b ci m = char_start b m ci"
proof (induction b ci m rule: walk_to.induct)
  case (1 b ci m)
  show ?case
  proof (cases "b = [] \<or> ci = 0")
    case True
    then show ?thesis by (subst walk_to.simps) auto
  next
    case False
    then obtain n where n: "ci = Suc n" by (cases ci) auto
    from False have "walk_to b ci m = utf8len b m + char_start (drop (utf8len b m) b) m (ci - 1)"
      using 1 by (subst walk_to.simps) simp
    then show ?thesis using False n by (simp add: char_start_Suc)
  qed
qed

lemma char_start_bytes [simp]: "char_start b False ci = min ci (length b)"
  by (simp add: char_start_def take_map min.commute)

lemma char_start_ascii: "is_ascii (take ci b) \<Longrightarrow> char_start b m ci = min ci (length b)"
proof (induction ci arbitrary: b)
  case (Suc ci)
  then show ?case by (cases b) (auto simp: char_start_Suc is_ascii_def)
qed simp

lemma char_to_byte_eq: "char_to_byte b ci m = char_start b m ci"
proof (cases m)
  case True
  have "is_ascii (take (min ci (length b)) b) = is_ascii (take ci b)"
    by (metis min.commute min_def order_refl take_all_iff)
  then show ?thesis using True by (auto simp: char_to_byte_def Let_def walk_to_eq char_start_ascii)
qed (simp add: char_to_byte_def)

lemma char_len_eq: "char_len b m = length (chars_of b m)"
  by (cases m) (simp_all add: char_len_def walk_chars_eq chars_of_ascii)

lemma walk_before_start: "ci \<le> length (chars_of b m) \<Longrightarrow> walk_before b (char_start b m ci) m = ci"
proof (induction ci arbitrary: b)
  case 0
  then show ?case by (subst walk_before.simps) simp
next
  case (Suc ci)
  then have "b \<noteq> []" by auto
  moreover have "ci \<le> length (chars_of (drop (utf8len b m) b) m)"
    using Suc.prems \<open>b \<noteq> []\<close> by (simp add: chars_of_step)
  ultimately show ?case
    using Suc.IH by (subst walk_before.simps) (simp add: char_start_Suc)
qed

lemma byte_to_char_start: "ci \<le> length (chars_of b m) \<Longrightarrow> byte_to_char b (char_start b m ci) m = ci"
  by (cases m) (simp_all add: byte_to_char_def walk_before_start)

lemma char_span_slice:
  "char_span b ci n m = (at', len) \<Longrightarrow> take len (drop at' b) = concat (take n (drop ci (chars_of b m)))"
proof -
  assume s: "char_span b ci n m = (at', len)"
  then have "at' = char_start b m ci" "len = char_start b m (ci + n) - char_start b m ci"
    by (auto simp: char_span_def Let_def char_to_byte_eq)
  moreover have "char_start b m (ci + n) - char_start b m ci = length (concat (take n (drop ci (chars_of b m))))"
    by (simp add: char_start_def take_add)
  moreover have "concat (drop ci (chars_of b m)) = concat (take n (drop ci (chars_of b m))) @ concat (drop n (drop ci (chars_of b m)))"
    by (rule concat_take_drop [symmetric])
  ultimately show ?thesis by (simp add: drop_char_start)
qed

section \<open>Where characters start\<close>

definition starts_char :: "bytes \<Rightarrow> bool \<Rightarrow> nat \<Rightarrow> bool" where
  "starts_char b m x \<longleftrightarrow> (\<exists>ci\<le>length (chars_of b m). x = char_start b m ci)"

lemma starts_char_iff: "starts_char b m x \<longleftrightarrow> (\<exists>ci. x = char_start b m ci)"
  unfolding starts_char_def by (metis char_start_all linear order_refl)

lemma starts_char_Nil [simp]: "starts_char [] m x \<longleftrightarrow> x = 0"
  by (simp add: starts_char_iff)

lemma starts_char_0 [simp]: "starts_char b m 0"
  unfolding starts_char_iff by (rule exI [of _ 0]) simp

lemma starts_char_le: "starts_char b m x \<Longrightarrow> x \<le> length b"
  by (auto simp: starts_char_iff)

lemma starts_char_bytes [simp]: "starts_char b False x \<longleftrightarrow> x \<le> length b"
  unfolding starts_char_iff char_start_bytes by (metis min.absorb1 min.cobounded2)

lemma starts_char_step:
  "b \<noteq> [] \<Longrightarrow> starts_char b m x \<longleftrightarrow>
     x = 0 \<or> utf8len b m \<le> x \<and> starts_char (drop (utf8len b m) b) m (x - utf8len b m)"
proof -
  assume b: "b \<noteq> []"
  have "starts_char b m x \<longleftrightarrow> x = 0 \<or> (\<exists>ci. x = char_start b m (Suc ci))"
    unfolding starts_char_iff by (metis char_start_0 not0_implies_Suc)
  also have "\<dots> \<longleftrightarrow> x = 0 \<or> (\<exists>ci. x = utf8len b m + char_start (drop (utf8len b m) b) m ci)"
    using b by (simp add: char_start_Suc)
  also have "\<dots> \<longleftrightarrow> x = 0 \<or> utf8len b m \<le> x \<and> (\<exists>ci. x - utf8len b m = char_start (drop (utf8len b m) b) m ci)"
    by (metis add_diff_cancel_left' le_add1 le_add_diff_inverse)
  finally show ?thesis unfolding starts_char_iff .
qed

lemma is_char_boundary_eq: "is_char_boundary b i True \<longleftrightarrow> starts_char b True i"
proof
  assume "is_char_boundary b i True"
  then show "starts_char b True i"
    unfolding is_char_boundary_def starts_char_iff char_to_byte_eq
    by (metis char_start_all linear)
next
  assume "starts_char b True i"
  then obtain ci where "ci \<le> length (chars_of b True)" "i = char_start b True ci"
    by (auto simp: starts_char_def)
  then show "is_char_boundary b i True"
    using char_start_le [of b True ci]
    by (auto simp: is_char_boundary_def char_to_byte_eq byte_to_char_start simp del: char_start_le)
qed

text \<open>The walk stops at the last start at or before \<open>i\<close>.\<close>

lemma head_walk_last:
  "p \<le> i \<Longrightarrow> \<exists>h. head_walk b p i m = p + h \<and> starts_char b m h \<and> p + h \<le> i \<and> (\<forall>x. starts_char b m x \<longrightarrow> p + x \<le> i \<longrightarrow> x \<le> h)"
proof (induction b p i m rule: head_walk.induct)
  case (1 b p i m)
  show ?case
  proof (cases "b = [] \<or> p + utf8len b m > i")
    case True
    then have "head_walk b p i m = p" by (subst head_walk.simps) auto
    moreover have "\<forall>x. starts_char b m x \<longrightarrow> p + x \<le> i \<longrightarrow> x = 0"
      using True by (cases "b = []") (auto simp: starts_char_step)
    ultimately show ?thesis using 1(2) by auto
  next
    case False
    let ?n = "utf8len b m"
    from False 1 obtain h where h: "head_walk (drop ?n b) (p + ?n) i m = p + ?n + h" "starts_char (drop ?n b) m h"
      "p + ?n + h \<le> i" "\<forall>x. starts_char (drop ?n b) m x \<longrightarrow> p + ?n + x \<le> i \<longrightarrow> x \<le> h"
      by fastforce
    have "head_walk b p i m = p + (?n + h)" using False h(1) by (subst head_walk.simps) simp
    moreover have "starts_char b m (?n + h)" using False h(2) by (simp add: starts_char_step)
    moreover have "\<forall>x. starts_char b m x \<longrightarrow> p + x \<le> i \<longrightarrow> x \<le> ?n + h"
    proof (intro allI impI)
      fix x assume x: "starts_char b m x" "p + x \<le> i"
      show "x \<le> ?n + h"
      proof (cases "x = 0")
        case False
        then have "?n \<le> x" "starts_char (drop ?n b) m (x - ?n)" using x(1) \<open>\<not> (b = [] \<or> _)\<close> by (auto simp: starts_char_step)
        then have "x - ?n \<le> h" using h(4) x(2) by simp
        then show ?thesis by simp
      qed simp
    qed
    ultimately show ?thesis using h(3) by (intro exI [of _ "?n + h"]) simp
  qed
qed

lemma char_head_last:
  "starts_char b m (char_head b i m) \<and> char_head b i m \<le> i \<and> (\<forall>x. starts_char b m x \<longrightarrow> x \<le> i \<longrightarrow> x \<le> char_head b i m)"
proof (cases "\<not> m \<or> i \<ge> length b")
  case True
  have "starts_char b m (length b)" unfolding starts_char_iff by (metis char_start_all order_refl)
  then show ?thesis using True by (auto simp: char_head_def min_def dest: starts_char_le)
next
  case False
  then show ?thesis using head_walk_last [of 0 i b m] by (auto simp: char_head_def)
qed

lemmas char_head_starts = char_head_last [THEN conjunct1]
  and char_head_greatest = char_head_last [THEN conjunct2, THEN conjunct2, rule_format]

section \<open>Searches\<close>

definition first_in :: "nat set \<Rightarrow> nat option \<Rightarrow> bool" where
  "first_in S r = (case r of None \<Rightarrow> S = {} | Some p \<Rightarrow> p \<in> S \<and> (\<forall>q\<in>S. p \<le> q))"

definition last_in :: "nat set \<Rightarrow> nat option \<Rightarrow> bool" where
  "last_in S r = (case r of None \<Rightarrow> S = {} | Some p \<Rightarrow> p \<in> S \<and> (\<forall>q\<in>S. q \<le> p))"

lemma matches_at_le: "matches_at hay needle i \<Longrightarrow> needle \<noteq> [] \<Longrightarrow> i + length needle \<le> length hay"
proof -
  assume m: "matches_at hay needle i" and ne: "needle \<noteq> []"
  from m have "length (take (length needle) (drop i hay)) = length needle" by (simp add: matches_at_def)
  then have "length needle \<le> length hay - i" by (simp only: length_take length_drop min_def split: if_splits)
  then show ?thesis using ne by (cases needle) auto
qed

lemma find_first:
  "first_in {i \<in> {a..<b}. P i} (List.find P [a..<b])"
proof (cases "List.find P [a..<b]")
  case None
  then have "{i \<in> {a..<b}. P i} = {}" by (auto simp: find_None_iff)
  then show ?thesis using None by (simp add: first_in_def)
next
  case (Some x)
  then obtain k where k: "k < length [a..<b]" "P ([a..<b] ! k)" "x = [a..<b] ! k" "\<forall>j<k. \<not> P ([a..<b] ! j)"
    by (auto simp: find_Some_iff)
  then have x: "x = a + k" "k < b - a" by auto
  have "\<not> P q" if "a \<le> q" "q < x" for q
    using k(4) [rule_format, of "q - a"] that x by simp
  then show ?thesis using Some k x by (auto simp: first_in_def not_less [symmetric])
qed

lemma find_last:
  "last_in {i. i < b \<and> P i} (List.find P (rev [0..<b]))"
proof (induction b)
  case (Suc b)
  then show ?case by (auto simp: last_in_def less_Suc_eq split: option.splits)
qed (simp add: last_in_def)

lemma str_find_first:
  "first_in {q. from \<le> q \<and> q \<le> length hay \<and> matches_at hay needle q} (str_find hay needle from)"
proof (cases "needle = []")
  case True
  then show ?thesis by (auto simp: str_find_def first_in_def matches_at_def)
next
  case False
  show ?thesis
  proof (cases "from \<ge> length hay")
    case True
    have "{q. from \<le> q \<and> q \<le> length hay \<and> matches_at hay needle q} = {}"
    proof -
      have "\<not> matches_at hay needle q" if "length hay \<le> q" for q
        using matches_at_le [OF _ False, of hay q] that False by (cases needle) auto
      then show ?thesis using True by auto
    qed
    then show ?thesis using True False by (simp add: str_find_def first_in_def)
  next
    case small: False
    have "{q. from \<le> q \<and> q \<le> length hay \<and> matches_at hay needle q}
        = {q \<in> {from..<Suc (length hay) - length needle}. matches_at hay needle q}"
      using matches_at_le [OF _ False, of hay] by fastforce
    then show ?thesis using small False find_first by (simp add: str_find_def del: upt_Suc)
  qed
qed

lemma matches_clamp:
  "needle \<noteq> [] \<Longrightarrow> length needle \<le> length hay \<Longrightarrow>
    q \<le> min pos (length hay - length needle) \<and> matches_at hay needle q \<longleftrightarrow> q \<le> pos \<and> matches_at hay needle q"
  using matches_at_le [of hay needle q] by auto

lemma no_match_in_shorter: "needle \<noteq> [] \<Longrightarrow> length hay < length needle \<Longrightarrow> \<not> matches_at hay needle q"
  using matches_at_le [of hay needle q] by auto

lemma str_rfind_last:
  assumes "needle \<noteq> []"
  shows "last_in {q. q \<le> pos \<and> matches_at hay needle q} (str_rfind hay needle pos)"
proof (cases "length hay < length needle")
  case True
  then show ?thesis using assms by (simp add: str_rfind_def last_in_def no_match_in_shorter)
next
  case False
  then show ?thesis
    using assms find_last [of "Suc (min pos (length hay - length needle))" "matches_at hay needle"]
    unfolding less_Suc_eq_le matches_clamp [OF assms False [unfolded not_less]]
    by (simp add: str_rfind_def Let_def del: upt_Suc)
qed

lemma rfind_walk_last:
  assumes "needle \<noteq> []"
  shows "starts_char hay m pos \<Longrightarrow>
    last_in {q. q \<le> pos \<and> starts_char hay m q \<and> matches_at hay needle q} (rfind_walk hay needle pos m)"
  using assms
proof (induction hay needle pos m rule: rfind_walk.induct)
  case (1 hay needle pos m)
  consider "matches_at hay needle pos" | "\<not> matches_at hay needle pos" "pos = 0" | "\<not> matches_at hay needle pos" "pos \<noteq> 0"
    by blast
  then show ?case
  proof cases
    case a: 1
    then have "rfind_walk hay needle pos m = Some pos"
      using matches_at_le [OF a "1.prems"(2)] by (subst rfind_walk.simps) auto
    then show ?thesis using a "1.prems" by (simp add: last_in_def)
  next
    case 2
    then show ?thesis by (subst rfind_walk.simps) (auto simp: last_in_def intro!: gr0I)
  next
    case 3
    let ?h = "char_head hay (pos - 1) m"
    have "q \<le> ?h \<longleftrightarrow> q \<le> pos" if "starts_char hay m q" "matches_at hay needle q" for q
      using char_head_greatest [of hay m q "pos - 1"] char_head_le [of hay "pos - 1" m] that 3
      by (cases "q = pos") auto
    then have "{q. q \<le> pos \<and> starts_char hay m q \<and> matches_at hay needle q}
        = {q. q \<le> ?h \<and> starts_char hay m q \<and> matches_at hay needle q}" by auto
    then show ?thesis
      using "1.IH" 3 "1.prems"(2) char_head_starts by (subst rfind_walk.simps) simp
  qed
qed

lemma char_rfind_last:
  assumes "needle \<noteq> []"
  shows "last_in {q. q \<le> pos \<and> starts_char hay m q \<and> matches_at hay needle q} (char_rfind hay needle pos m)"
proof (cases m)
  case False
  have "{q. q \<le> pos \<and> starts_char hay m q \<and> matches_at hay needle q} = {q. q \<le> pos \<and> matches_at hay needle q}"
    using matches_at_le [OF _ assms, of hay] False by fastforce
  then show ?thesis using str_rfind_last [OF assms] False by (simp add: char_rfind_def)
next
  case True
  show ?thesis
  proof (cases "length hay < length needle")
    case False
    let ?p = "min pos (length hay - length needle)"
    have "q \<le> char_head hay ?p m \<longleftrightarrow> q \<le> pos" if "starts_char hay m q" "matches_at hay needle q" for q
      using matches_clamp [OF assms, of hay q pos] char_head_greatest [of hay m q ?p] char_head_le [of hay ?p m] that False
      by auto
    then have "{q. q \<le> pos \<and> starts_char hay m q \<and> matches_at hay needle q}
        = {q. q \<le> char_head hay ?p m \<and> starts_char hay m q \<and> matches_at hay needle q}" by auto
    then show ?thesis
      using rfind_walk_last [OF assms char_head_starts] assms True False by (simp add: char_rfind_def Let_def)
  qed (use True assms in \<open>simp add: char_rfind_def last_in_def no_match_in_shorter\<close>)
qed

end
