(* ===== verification/Classes.thy ===== *)
theory Classes
  imports Object "HOL-Library.AList" "HOL-Library.Monad_Syntax"
begin

text \<open>
  Classes and what is looked up in them (\<open>src/vm.rs\<close>): method and constant lookup along the superclass chain,
  including and prepending modules, singleton classes, visibility, the method cache and the guards of the inlined
  operators. A chain walk is a partial function: \<open>None\<close> is a panic (an id that is no class) or a
  chain that has no end. The errors are values; the exception objects made for them are in \<open>VmCore\<close>.
\<close>

unbundle bit_operations_syntax

section \<open>The classes made at boot\<close>

record core =
  co_basic_object :: obj_id
  co_object :: obj_id
  co_module :: obj_id
  co_class :: obj_id
  co_nil_class :: obj_id
  co_true_class :: obj_id
  co_false_class :: obj_id
  co_integer :: obj_id
  co_float :: obj_id
  co_symbol :: obj_id
  co_string :: obj_id
  co_array :: obj_id
  co_hash :: obj_id

datatype class_error =
    CE_Frozen rvalue
  | CE_Undefined sym obj_id
  | CE_No_Singleton
  | CE_Cyclic_Prepend

definition class_default :: class_data where
  "class_default = \<lparr>cl_name = None, cl_superclass = None, cl_methods = [], cl_consts = [], cl_cvars = [],
     cl_is_module = False, cl_is_singleton = False, cl_attached = None, cl_iclass_of = None, cl_vis = [],
     cl_origin = None, cl_origin_of = None, cl_outer = None, cl_instance_kind = None\<rparr>"

definition class_of :: "core \<Rightarrow> heap \<Rightarrow> rvalue \<Rightarrow> obj_id option" where
  "class_of co h v = (case v of
      VNil \<Rightarrow> Some (co_nil_class co)
    | VFalse \<Rightarrow> Some (co_false_class co)
    | VTrue \<Rightarrow> Some (co_true_class co)
    | VInt _ \<Rightarrow> Some (co_integer co)
    | VFloat _ \<Rightarrow> Some (co_float co)
    | VSym _ \<Rightarrow> Some (co_symbol co)
    | VObj i \<Rightarrow> map_option ho_class (heap_get h i))"

partial_function (option) class_real_walk :: "heap \<Rightarrow> obj_id option \<Rightarrow> obj_id option option" where
  "class_real_walk h c = (case c of
      None \<Rightarrow> Some None
    | Some y \<Rightarrow> do {
        cd \<leftarrow> heap_class h y;
        if \<not> cl_is_singleton cd \<and> cl_iclass_of cd = None \<and> cl_origin_of cd = None then Some (Some y)
        else class_real_walk h (cl_superclass cd)
      })"

definition class_real :: "heap \<Rightarrow> obj_id \<Rightarrow> obj_id option option" where
  "class_real h c = class_real_walk h (Some c)"

text \<open>A singleton without a superclass panics here.\<close>

definition real_class_of :: "core \<Rightarrow> heap \<Rightarrow> rvalue \<Rightarrow> obj_id option" where
  "real_class_of co h v = do { c \<leftarrow> class_of co h v; r \<leftarrow> class_real h c; r }"

definition real_superclass :: "heap \<Rightarrow> obj_id \<Rightarrow> obj_id option option" where
  "real_superclass h c = do { cd \<leftarrow> heap_class h c; class_real_walk h (cl_superclass cd) }"

section \<open>Methods along the chain\<close>

definition def_target :: "heap \<Rightarrow> obj_id \<Rightarrow> obj_id option" where
  "def_target h c = map_option (\<lambda>cd. case cl_origin cd of Some o' \<Rightarrow> o' | None \<Rightarrow> c) (heap_class h c)"

definition table_owner :: "heap \<Rightarrow> obj_id \<Rightarrow> obj_id option" where
  "table_owner h x = do {
     cd \<leftarrow> heap_class h x;
     (case cl_iclass_of cd of Some m \<Rightarrow> def_target h m | None \<Rightarrow> Some x)
   }"

partial_function (option) find_method_walk :: "heap \<Rightarrow> obj_id option \<Rightarrow> sym \<Rightarrow> (rmethod \<times> obj_id) option option" where
  "find_method_walk h c mid = (case c of
      None \<Rightarrow> Some None
    | Some x \<Rightarrow> do {
        cd \<leftarrow> heap_class h x;
        if cl_origin cd \<noteq> None then find_method_walk h (cl_superclass cd) mid
        else do {
          t \<leftarrow> table_owner h x;
          td \<leftarrow> heap_class h t;
          (case map_of (cl_methods td) mid of
             Some m \<Rightarrow> Some (Some (m, x))
           | None \<Rightarrow> find_method_walk h (cl_superclass cd) mid)
        }
      })"

definition find_method_entry :: "heap \<Rightarrow> obj_id \<Rightarrow> sym \<Rightarrow> (rmethod \<times> obj_id) option option" where
  "find_method_entry h c mid = find_method_walk h (Some c) mid"

definition find_method :: "heap \<Rightarrow> obj_id \<Rightarrow> sym \<Rightarrow> (rmethod \<times> obj_id) option option" where
  "find_method h c mid = map_option
     (\<lambda>e. case e of Some (m, x) \<Rightarrow> if m = M_Undef then None else Some (m, x) | None \<Rightarrow> None)
     (find_method_entry h c mid)"

definition find_method_ref :: "heap \<Rightarrow> obj_id \<Rightarrow> sym \<Rightarrow> (method_ref \<times> obj_id) option option" where
  "find_method_ref h c mid = map_option
     (\<lambda>e. case e of Some (m, x) \<Rightarrow> map_option (\<lambda>r. (r, x)) (method_ref_of m) | None \<Rightarrow> None)
     (find_method_entry h c mid)"

definition class_vis :: "class_data \<Rightarrow> sym \<Rightarrow> vis" where
  "class_vis cd mid = (case map_of (cl_vis cd) mid of Some v \<Rightarrow> v | None \<Rightarrow> Public)"

definition vis_of_found :: "heap \<Rightarrow> obj_id \<Rightarrow> sym \<Rightarrow> vis option" where
  "vis_of_found h owner mid = do { t \<leftarrow> table_owner h owner; td \<leftarrow> heap_class h t; Some (class_vis td mid) }"

partial_function (option) method_vis_walk :: "heap \<Rightarrow> obj_id option \<Rightarrow> sym \<Rightarrow> vis option" where
  "method_vis_walk h c mid = (case c of
      None \<Rightarrow> Some Public
    | Some x \<Rightarrow> do {
        cd \<leftarrow> heap_class h x;
        t \<leftarrow> table_owner h x;
        td \<leftarrow> heap_class h t;
        if cl_origin cd = None \<and> map_of (cl_methods td) mid \<noteq> None then Some (class_vis td mid)
        else method_vis_walk h (cl_superclass cd) mid
      })"

definition method_vis :: "heap \<Rightarrow> obj_id \<Rightarrow> sym \<Rightarrow> vis option" where
  "method_vis h c mid = method_vis_walk h (Some c) mid"

definition closure_of :: "heap \<Rightarrow> obj_id \<Rightarrow> sym \<Rightarrow> nat option option" where
  "closure_of h owner mid = do {
     t \<leftarrow> table_owner h owner;
     td \<leftarrow> heap_class h t;
     Some (case map_of (cl_methods td) mid of Some (M_Closure f) \<Rightarrow> Some f | _ \<Rightarrow> None)
   }"

text \<open>\<open>notimpl_fns\<close>: the natives that stand for \<open>mrb_notimplement\<close>.\<close>

definition respond_to :: "core \<Rightarrow> nat list \<Rightarrow> heap \<Rightarrow> rvalue \<Rightarrow> sym \<Rightarrow> bool option" where
  "respond_to co notimpl h v mid = do {
     c \<leftarrow> class_of co h v;
     e \<leftarrow> find_method h c mid;
     Some (case e of Some (M_Native f _, _) \<Rightarrow> f \<notin> set notimpl | Some _ \<Rightarrow> True | None \<Rightarrow> False)
   }"

section \<open>Defining methods\<close>

definition def_method_raw :: "heap \<Rightarrow> obj_id \<Rightarrow> sym \<Rightarrow> rmethod \<Rightarrow> heap option" where
  "def_method_raw h c mid m = do {
     t \<leftarrow> def_target h c;
     h1 \<leftarrow> heap_class_mut h t (\<lambda>cd. cd\<lparr>cl_methods := AList.update mid m (cl_methods cd)\<rparr>);
     heap_class_mut h1 t (\<lambda>cd. cd\<lparr>cl_vis := AList.delete mid (cl_vis cd)\<rparr>)
   }"

text \<open>Whom the FrozenError of a frozen method table names.\<close>

definition mt_frozen :: "heap \<Rightarrow> obj_id \<Rightarrow> rvalue option" where
  "mt_frozen h c = do {
     cd \<leftarrow> heap_class h c;
     (case cl_attached cd of
        Some (VObj o') \<Rightarrow> if \<not> cl_is_singleton cd then Some (VObj c)
          else map_option (\<lambda>x. if ho_frozen x then VObj o' else VObj c) (heap_get h o')
      | Some a \<Rightarrow> Some (if cl_is_singleton cd then a else VObj c)
      | None \<Rightarrow> Some (VObj c))
   }"

definition set_vis_entry :: "sym \<Rightarrow> vis \<Rightarrow> class_data \<Rightarrow> class_data" where
  "set_vis_entry mid v cd =
     (if v = Public then cd\<lparr>cl_vis := AList.delete mid (cl_vis cd)\<rparr>
      else cd\<lparr>cl_vis := AList.update mid v (cl_vis cd)\<rparr>)"

text \<open>\<open>always\<close>: the names \<open>initialize\<close>, \<open>initialize_copy\<close> and \<open>respond_to_missing?\<close>.\<close>

definition def_method_nohook :: "sym list \<Rightarrow> heap \<Rightarrow> obj_id \<Rightarrow> sym \<Rightarrow> rmethod \<Rightarrow> vis \<Rightarrow>
    (heap \<times> (class_error + unit)) option" where
  "def_method_nohook always h c mid m v = do {
     x \<leftarrow> heap_get h c;
     if ho_frozen x then map_option (\<lambda>e. (h, Inl (CE_Frozen e))) (mt_frozen h c)
     else do {
       t \<leftarrow> def_target h c;
       h1 \<leftarrow> heap_class_mut h t (\<lambda>cd. cd\<lparr>cl_methods := AList.update mid m (cl_methods cd)\<rparr>);
       h2 \<leftarrow> heap_class_mut h1 t (set_vis_entry mid (if mid \<in> set always then Private else v));
       Some (h2, Inr ())
     }
   }"

definition set_visibility :: "heap \<Rightarrow> obj_id \<Rightarrow> sym \<Rightarrow> vis \<Rightarrow> (heap \<times> (class_error + unit)) option" where
  "set_visibility h c mid v = do {
     x \<leftarrow> heap_get h c;
     if ho_frozen x then map_option (\<lambda>e. (h, Inl (CE_Frozen e))) (mt_frozen h c)
     else do {
       t \<leftarrow> def_target h c;
       tc \<leftarrow> heap_class h t;
       (case map_of (cl_methods tc) mid of
          Some _ \<Rightarrow> do { h1 \<leftarrow> heap_class_mut h t (set_vis_entry mid v); Some (h1, Inr ()) }
        | None \<Rightarrow> do {
            e \<leftarrow> find_method h c mid;
            (case e of
               None \<Rightarrow> Some (h, Inl (CE_Undefined mid c))
             | Some (m, _) \<Rightarrow> do {
                 h1 \<leftarrow> heap_class_mut h t (\<lambda>cd. cd\<lparr>cl_methods := AList.update mid m (cl_methods cd)\<rparr>);
                 h2 \<leftarrow> heap_class_mut h1 t (set_vis_entry mid v);
                 Some (h2, Inr ())
               })
          })
     }
   }"

text \<open>Up to the hook \<open>method_undefined\<close>.\<close>

definition undef_method :: "heap \<Rightarrow> obj_id \<Rightarrow> sym \<Rightarrow> (heap \<times> (class_error + unit)) option" where
  "undef_method h c mid = do {
     x \<leftarrow> heap_get h c;
     if ho_frozen x then map_option (\<lambda>e. (h, Inl (CE_Frozen e))) (mt_frozen h c)
     else do {
       e \<leftarrow> find_method h c mid;
       if e = None then Some (h, Inl (CE_Undefined mid c))
       else do {
         t \<leftarrow> def_target h c;
         h1 \<leftarrow> heap_class_mut h t (\<lambda>cd. cd\<lparr>cl_methods := AList.update mid M_Undef (cl_methods cd)\<rparr>);
         Some (h1, Inr ())
       }
     }
   }"

section \<open>Modules\<close>

partial_function (option) chain_contains_walk :: "heap \<Rightarrow> obj_id option \<Rightarrow> obj_id \<Rightarrow> bool option" where
  "chain_contains_walk h c cls = (case c of
      None \<Rightarrow> Some False
    | Some x \<Rightarrow> do {
        cd \<leftarrow> heap_class h x;
        if x = cls \<or> cl_iclass_of cd = Some cls then Some True
        else chain_contains_walk h (cl_superclass cd) cls
      })"

definition module_chain_contains :: "heap \<Rightarrow> obj_id \<Rightarrow> obj_id \<Rightarrow> bool option" where
  "module_chain_contains h m cls = chain_contains_walk h (Some m) cls"

definition obj_is_kind_of :: "core \<Rightarrow> heap \<Rightarrow> rvalue \<Rightarrow> obj_id \<Rightarrow> bool option" where
  "obj_is_kind_of co h v cls = do { c \<leftarrow> class_of co h v; chain_contains_walk h (Some c) cls }"

definition push_new :: "'a list \<Rightarrow> 'a list \<Rightarrow> 'a list" where
  "push_new ys out = fold (\<lambda>y out. if y \<in> set out then out else out @ [y]) ys out"

text \<open>The modules a module brings along, its prepends and includes, nearest first.\<close>

partial_function (option) module_walk :: "heap \<Rightarrow> obj_id \<Rightarrow> obj_id option \<Rightarrow> obj_id list \<Rightarrow> obj_id list option" where
  "module_walk h module c out = (case c of
      None \<Rightarrow> Some out
    | Some x \<Rightarrow> do {
        cd \<leftarrow> heap_class h x;
        (case cl_iclass_of cd of
           Some m \<Rightarrow> do {
             ys \<leftarrow> module_walk h m (Some m) [];
             module_walk h module (cl_superclass cd) (push_new ys out)
           }
         | None \<Rightarrow>
             module_walk h module (cl_superclass cd)
               (case cl_origin_of cd of
                  Some o' \<Rightarrow> push_new [o'] out
                | None \<Rightarrow> if x = module \<and> cl_origin cd = None then out @ [x] else out))
      })"

definition module_chain :: "heap \<Rightarrow> obj_id \<Rightarrow> obj_id list option" where
  "module_chain h m = module_walk h m (Some m) []"

definition iclass_data :: "obj_id option \<Rightarrow> obj_id \<Rightarrow> class_data" where
  "iclass_data up m = class_default\<lparr>cl_superclass := up, cl_iclass_of := Some m\<rparr>"

definition superclass_of :: "heap \<Rightarrow> obj_id \<Rightarrow> obj_id option option" where
  "superclass_of h c = map_option cl_superclass (heap_class h c)"

text \<open>A new include class for \<open>m\<close> right above \<open>at\<close>.\<close>

definition put_iclass :: "core \<Rightarrow> heap \<Rightarrow> obj_id \<Rightarrow> obj_id \<Rightarrow> (heap \<times> obj_id) option" where
  "put_iclass co h at m = do {
     up \<leftarrow> superclass_of h at;
     let (h1, ic) = heap_alloc h (co_class co) (K_Class (iclass_data up m));
     h2 \<leftarrow> heap_class_mut h1 at (\<lambda>cd. cd\<lparr>cl_superclass := Some ic\<rparr>);
     Some (h2, ic)
   }"

partial_function (option) included_walk :: "heap \<Rightarrow> obj_id option \<Rightarrow> obj_id \<Rightarrow> bool option" where
  "included_walk h c m = (case c of
      None \<Rightarrow> Some False
    | Some x \<Rightarrow> do {
        cd \<leftarrow> heap_class h x;
        if cl_iclass_of cd = Some m then Some True else included_walk h (cl_superclass cd) m
      })"

fun include_all :: "core \<Rightarrow> obj_id \<Rightarrow> obj_id list \<Rightarrow> obj_id \<Rightarrow> heap \<Rightarrow> heap option" where
  "include_all co cls [] at h = Some h"
| "include_all co cls (m # ms) at h = do {
     c \<leftarrow> superclass_of h cls;
     present \<leftarrow> included_walk h c m;
     if present then include_all co cls ms at h
     else do {
       (h1, ic) \<leftarrow> put_iclass co h at m;
       include_all co cls ms ic h1
     }
   }"

definition include_module :: "core \<Rightarrow> heap \<Rightarrow> obj_id \<Rightarrow> obj_id \<Rightarrow> heap option" where
  "include_module co h cls module = do {
     mods \<leftarrow> module_chain h module;
     at \<leftarrow> def_target h cls;
     include_all co cls mods at h
   }"

text \<open>The class's own tables move to an origin once.\<close>

definition make_origin :: "core \<Rightarrow> heap \<Rightarrow> obj_id \<Rightarrow> heap option" where
  "make_origin co h cls = do {
     cd \<leftarrow> heap_class h cls;
     if cl_origin cd \<noteq> None then Some h
     else do {
       h1 \<leftarrow> heap_class_mut h cls (\<lambda>cd. cd\<lparr>cl_methods := [], cl_vis := []\<rparr>);
       let (h2, origin) = heap_alloc h1 (co_class co) (K_Class (class_default\<lparr>cl_superclass := cl_superclass cd,
             cl_origin_of := Some cls, cl_methods := cl_methods cd, cl_vis := cl_vis cd\<rparr>));
       heap_class_mut h2 cls (\<lambda>cd. cd\<lparr>cl_superclass := Some origin, cl_origin := Some origin\<rparr>)
     }
   }"

text \<open>Whether the module stands between the class and its origin.\<close>

partial_function (option) prepended_walk :: "heap \<Rightarrow> obj_id \<Rightarrow> obj_id option \<Rightarrow> obj_id \<Rightarrow> bool option" where
  "prepended_walk h origin c m = (case c of
      None \<Rightarrow> Some False
    | Some x \<Rightarrow>
        if x = origin then Some False
        else do {
          cd \<leftarrow> heap_class h x;
          if cl_iclass_of cd = Some m then Some True else prepended_walk h origin (cl_superclass cd) m
        })"

text \<open>The scan that stops at the first class that is neither an include class nor an origin.\<close>

partial_function (option) near_walk :: "heap \<Rightarrow> obj_id option \<Rightarrow> obj_id \<Rightarrow> bool option" where
  "near_walk h c m = (case c of
      None \<Rightarrow> Some False
    | Some x \<Rightarrow> do {
        cd \<leftarrow> heap_class h x;
        if cl_iclass_of cd = Some m then Some True
        else if cl_iclass_of cd = None \<and> cl_origin_of cd = None then Some False
        else near_walk h (cl_superclass cd) m
      })"

fun prepend_all :: "core \<Rightarrow> obj_id \<Rightarrow> obj_id list \<Rightarrow> heap \<Rightarrow> heap option" where
  "prepend_all co cls [] h = Some h"
| "prepend_all co cls (m # ms) h = do {
     c \<leftarrow> superclass_of h cls;
     present \<leftarrow> near_walk h c m;
     if present then prepend_all co cls ms h
     else do {
       (h1, _) \<leftarrow> put_iclass co h cls m;
       prepend_all co cls ms h1
     }
   }"

definition prepend_module :: "core \<Rightarrow> heap \<Rightarrow> obj_id \<Rightarrow> obj_id \<Rightarrow> (heap \<times> (class_error + unit)) option" where
  "prepend_module co h cls module = do {
     x \<leftarrow> heap_get h cls;
     if ho_frozen x then Some (h, Inl (CE_Frozen (VObj cls)))
     else do {
       h1 \<leftarrow> make_origin co h cls;
       cd \<leftarrow> heap_class h1 cls;
       origin \<leftarrow> cl_origin cd;
       done \<leftarrow> prepended_walk h1 origin (cl_superclass cd) module;
       if done then Some (h1, Inr ())
       else do {
         cyclic \<leftarrow> (if module = cls then Some True else module_chain_contains h1 module cls);
         if cyclic then Some (h1, Inl CE_Cyclic_Prepend)
         else do {
           mods \<leftarrow> module_chain h1 module;
           h2 \<leftarrow> prepend_all co cls (rev mods) h1;
           Some (h2, Inr ())
         }
       }
     }
   }"

section \<open>Singleton classes\<close>

definition new_singleton :: "core \<Rightarrow> heap \<Rightarrow> obj_id \<Rightarrow> obj_id option \<Rightarrow> (heap \<times> obj_id) option" where
  "new_singleton co h o' up = do {
     let (h1, sc) = heap_alloc h (co_class co) (K_Class (class_default\<lparr>cl_superclass := up,
           cl_is_singleton := True, cl_attached := Some (VObj o')\<rparr>));
     let h2 = heap_update h1 o' (\<lambda>x. x\<lparr>ho_class := sc\<rparr>);
     x \<leftarrow> heap_get h2 o';
     Some (if ho_frozen x then heap_update h2 sc (\<lambda>y. y\<lparr>ho_frozen := True\<rparr>) else h2, sc)
   }"

partial_function (option) singleton_of :: "core \<Rightarrow> heap \<Rightarrow> obj_id \<Rightarrow> (heap \<times> obj_id) option" where
  "singleton_of co h o' = do {
     x \<leftarrow> heap_get h o';
     cur \<leftarrow> heap_class h (ho_class x);
     if cl_is_singleton cur \<and> cl_attached cur = Some (VObj o') then Some (h, ho_class x)
     else (case ho_kind x of
         K_Class cd \<Rightarrow>
           (if cl_is_module cd then new_singleton co h o' (Some (ho_class x))
            else (case cl_superclass cd of
                None \<Rightarrow> new_singleton co h o' (Some (ho_class x))
              | Some s \<Rightarrow> do {
                  sd \<leftarrow> heap_class h s;
                  if cl_is_singleton sd then new_singleton co h o' (Some s)
                  else do { (h1, ss) \<leftarrow> singleton_of co h s; new_singleton co h1 o' (Some ss) }
                }))
       | _ \<Rightarrow> new_singleton co h o' (Some (ho_class x)))
   }"

definition singleton_class :: "core \<Rightarrow> heap \<Rightarrow> rvalue \<Rightarrow> (heap \<times> (class_error + obj_id)) option" where
  "singleton_class co h v = (case v of
      VObj o' \<Rightarrow> map_option (\<lambda>(h1, c). (h1, Inr c)) (singleton_of co h o')
    | VNil \<Rightarrow> Some (h, Inr (co_nil_class co))
    | VTrue \<Rightarrow> Some (h, Inr (co_true_class co))
    | VFalse \<Rightarrow> Some (h, Inr (co_false_class co))
    | _ \<Rightarrow> Some (h, Inl CE_No_Singleton))"

section \<open>Constants and class variables\<close>

text \<open>An include class shares its module's table, an origin its class's.\<close>

definition const_table :: "heap \<Rightarrow> obj_id \<Rightarrow> (sym \<times> rvalue) list option" where
  "const_table h x = do {
     cd \<leftarrow> heap_class h x;
     (case (cl_iclass_of cd, cl_origin_of cd) of
        (Some m, _) \<Rightarrow> map_option cl_consts (heap_class h m)
      | (None, Some m) \<Rightarrow> map_option cl_consts (heap_class h m)
      | (None, None) \<Rightarrow> Some (cl_consts cd))
   }"

partial_function (option) const_walk :: "core \<Rightarrow> heap \<Rightarrow> obj_id option \<Rightarrow> sym \<Rightarrow> bool \<Rightarrow> rvalue option option" where
  "const_walk co h c name stop = (case c of
      None \<Rightarrow> Some None
    | Some x \<Rightarrow> do {
        tbl \<leftarrow> const_table h x;
        (case map_of tbl name of
           Some v \<Rightarrow> Some (Some v)
         | None \<Rightarrow> do {
             s \<leftarrow> superclass_of h x;
             if stop \<and> s = Some (co_object co) then Some None else const_walk co h s name stop
           })
      })"

definition const_get :: "core \<Rightarrow> heap \<Rightarrow> obj_id \<Rightarrow> sym \<Rightarrow> rvalue option option" where
  "const_get co h c name = const_walk co h (Some c) name False"

definition const_get_scoped :: "core \<Rightarrow> heap \<Rightarrow> obj_id \<Rightarrow> sym \<Rightarrow> rvalue option option" where
  "const_get_scoped co h c name = const_walk co h (Some c) name True"

definition own_const :: "heap \<Rightarrow> obj_id \<Rightarrow> sym \<Rightarrow> rvalue option option" where
  "own_const h c s = map_option (\<lambda>tbl. map_of tbl s) (const_table h c)"

partial_function (option) cvar_walk :: "heap \<Rightarrow> obj_id option \<Rightarrow> sym \<Rightarrow> rvalue option \<Rightarrow> rvalue option option" where
  "cvar_walk h c s found = (case c of
      None \<Rightarrow> Some found
    | Some x \<Rightarrow> do {
        cd \<leftarrow> heap_class h x;
        od \<leftarrow> heap_class h (case cl_iclass_of cd of Some m \<Rightarrow> m | None \<Rightarrow> x);
        cvar_walk h (cl_superclass cd) s (case map_of (cl_cvars od) s of Some v \<Rightarrow> Some v | None \<Rightarrow> found)
      })"

definition cvar_get :: "heap \<Rightarrow> obj_id \<Rightarrow> sym \<Rightarrow> rvalue option option" where
  "cvar_get h c s = cvar_walk h (Some c) s None"

text \<open>The first table, from the class up, that has the variable.\<close>

partial_function (option) cvar_owner :: "heap \<Rightarrow> obj_id option \<Rightarrow> sym \<Rightarrow> obj_id option option" where
  "cvar_owner h c s = (case c of
      None \<Rightarrow> Some None
    | Some x \<Rightarrow> do {
        cd \<leftarrow> heap_class h x;
        let owner = (case cl_iclass_of cd of Some m \<Rightarrow> m | None \<Rightarrow> x);
        od \<leftarrow> heap_class h owner;
        if map_of (cl_cvars od) s \<noteq> None then Some (Some owner) else cvar_owner h (cl_superclass cd) s
      })"

definition cvar_set :: "heap \<Rightarrow> obj_id \<Rightarrow> sym \<Rightarrow> rvalue \<Rightarrow> (heap \<times> (class_error + unit)) option" where
  "cvar_set h c s v = do {
     e \<leftarrow> cvar_owner h (Some c) s;
     let owner = (case e of Some o' \<Rightarrow> o' | None \<Rightarrow> c);
     x \<leftarrow> heap_get h owner;
     if ho_frozen x then Some (h, Inl (CE_Frozen (VObj owner)))
     else do {
       h1 \<leftarrow> heap_class_mut h owner (\<lambda>cd. cd\<lparr>cl_cvars := AList.update s v (cl_cvars cd)\<rparr>);
       Some (h1, Inr ())
     }
   }"

section \<open>The method cache\<close>

definition METHOD_CACHE_LEN :: nat where "METHOD_CACHE_LEN = 1024"

record cache_line =
  ln_serial :: u64
  ln_class :: obj_id
  ln_mid :: sym
  ln_found :: "(method_ref \<times> obj_id) option"
  ln_vis :: vis

definition line_default :: cache_line where
  "line_default = \<lparr>ln_serial = 0, ln_class = 0, ln_mid = 0, ln_found = None, ln_vis = Public\<rparr>"

definition cache_slot :: "obj_id \<Rightarrow> sym \<Rightarrow> nat" where
  "cache_slot c mid = unat (((ucast c :: u64) * 31 XOR ucast mid XOR push_bit 5 (ucast mid)) AND of_nat (METHOD_CACHE_LEN - 1))"

text \<open>What a miss stores: the lookup and the visibility of what it found.\<close>

definition resolve :: "heap \<Rightarrow> obj_id \<Rightarrow> sym \<Rightarrow> ((method_ref \<times> obj_id) option \<times> vis) option" where
  "resolve h c mid = do {
     found \<leftarrow> find_method_ref h c mid;
     v \<leftarrow> (case found of Some (_, owner) \<Rightarrow> vis_of_found h owner mid | None \<Rightarrow> Some Public);
     Some (found, v)
   }"

definition find_method_cached_vis :: "heap \<Rightarrow> cache_line list \<Rightarrow> obj_id \<Rightarrow> sym \<Rightarrow>
    (cache_line list \<times> (method_ref \<times> obj_id) option \<times> vis) option" where
  "find_method_cached_vis h cache c mid =
     (let i = cache_slot c mid; line = cache ! i
      in if i \<ge> length cache then None
         else if ln_serial line = hp_method_serial h \<and> ln_class line = c \<and> ln_mid line = mid
         then Some (cache, ln_found line, ln_vis line)
         else do {
           (found, v) \<leftarrow> resolve h c mid;
           Some (cache[i := \<lparr>ln_serial = hp_method_serial h, ln_class = c, ln_mid = mid, ln_found = found, ln_vis = v\<rparr>],
             found, v)
         })"

definition find_method_cached :: "heap \<Rightarrow> cache_line list \<Rightarrow> obj_id \<Rightarrow> sym \<Rightarrow>
    (cache_line list \<times> (method_ref \<times> obj_id) option) option" where
  "find_method_cached h cache c mid =
     map_option (\<lambda>(cache1, found, _). (cache1, found)) (find_method_cached_vis h cache c mid)"

section \<open>The guards of the inlined operators\<close>

definition IDX_ARY_AREF :: nat where "IDX_ARY_AREF = 0"
definition IDX_HASH_AREF :: nat where "IDX_HASH_AREF = 1"
definition IDX_STR_AREF :: nat where "IDX_STR_AREF = 2"
definition IDX_ARY_ASET :: nat where "IDX_ARY_ASET = 3"
definition IDX_HASH_ASET :: nat where "IDX_HASH_ASET = 4"
definition IDX_SLOTS :: nat where "IDX_SLOTS = 6"

lemmas idx_slots = IDX_ARY_AREF_def IDX_HASH_AREF_def IDX_STR_AREF_def IDX_ARY_ASET_def IDX_HASH_ASET_def IDX_SLOTS_def

record op_guards =
  og_idx_builtin :: "nat option list"
  og_idx_class :: "obj_id option list"
  og_idx_serial :: u64
  og_eq_builtin :: "nat option list"
  og_eq_plain :: u8
  og_eq_serial :: u64
  og_eql_basic :: "nat option"

definition idx_slot_class :: "core \<Rightarrow> nat \<Rightarrow> obj_id" where
  "idx_slot_class co slot =
     (if slot = IDX_ARY_AREF \<or> slot = IDX_ARY_ASET then co_array co
      else if slot = IDX_HASH_AREF \<or> slot = IDX_HASH_ASET then co_hash co
      else co_string co)"

definition idx_slot_mid :: "sym \<Rightarrow> sym \<Rightarrow> nat \<Rightarrow> sym" where
  "idx_slot_mid aref aset slot = (if slot < IDX_ARY_ASET then aref else aset)"

text \<open>The plain native a name resolves to.\<close>

definition native_at :: "heap \<Rightarrow> obj_id \<Rightarrow> sym \<Rightarrow> nat option option" where
  "native_at h c mid = map_option
     (\<lambda>e. case e of Some (R_Native f _, _) \<Rightarrow> Some f | _ \<Rightarrow> None) (find_method_ref h c mid)"

fun all_some :: "'a option list \<Rightarrow> 'a list option" where
  "all_some [] = Some []"
| "all_some (x # xs) = do { y \<leftarrow> x; ys \<leftarrow> all_some xs; Some (y # ys) }"

definition idx_sync :: "core \<Rightarrow> sym \<Rightarrow> sym \<Rightarrow> heap \<Rightarrow> op_guards \<Rightarrow> op_guards option" where
  "idx_sync co aref aset h g = do {
     cs \<leftarrow> all_some (map (\<lambda>slot. case og_idx_builtin g ! slot of
          None \<Rightarrow> Some None
        | Some builtin \<Rightarrow> map_option
            (\<lambda>n. if n = Some builtin then Some (idx_slot_class co slot) else None)
            (native_at h (idx_slot_class co slot) (idx_slot_mid aref aset slot))) [0..<IDX_SLOTS]);
     Some (g\<lparr>og_idx_serial := hp_method_serial h, og_idx_class := cs\<rparr>)
   }"

definition idx_op_init :: "core \<Rightarrow> sym \<Rightarrow> sym \<Rightarrow> heap \<Rightarrow> op_guards \<Rightarrow> op_guards option" where
  "idx_op_init co aref aset h g = do {
     bs \<leftarrow> all_some (map (\<lambda>slot. native_at h (idx_slot_class co slot) (idx_slot_mid aref aset slot)) [0..<IDX_SLOTS]);
     idx_sync co aref aset h (g\<lparr>og_idx_builtin := bs\<rparr>)
   }"

definition idx_op_rearm :: "core \<Rightarrow> sym \<Rightarrow> sym \<Rightarrow> heap \<Rightarrow> nat \<Rightarrow> op_guards \<Rightarrow> op_guards option" where
  "idx_op_rearm co aref aset h slot g = do {
     b \<leftarrow> native_at h (idx_slot_class co slot) (idx_slot_mid aref aset slot);
     idx_sync co aref aset h (g\<lparr>og_idx_builtin := (og_idx_builtin g)[slot := b]\<rparr>)
   }"

definition idx_armed :: "core \<Rightarrow> sym \<Rightarrow> sym \<Rightarrow> heap \<Rightarrow> op_guards \<Rightarrow> nat \<Rightarrow> obj_id \<Rightarrow> (op_guards \<times> bool) option" where
  "idx_armed co aref aset h g slot cls = do {
     g1 \<leftarrow> (if og_idx_serial g \<noteq> hp_method_serial h then idx_sync co aref aset h g else Some g);
     if slot < length (og_idx_class g1) then Some (g1, og_idx_class g1 ! slot = Some cls) else None
   }"

definition idx_kind :: "heap \<Rightarrow> obj_id \<Rightarrow> nat option" where
  "idx_kind h o' = (case heap_kind h o' of
      Some (K_Array _) \<Rightarrow> Some IDX_ARY_AREF
    | Some (K_Hash _) \<Rightarrow> Some IDX_HASH_AREF
    | Some (K_String _) \<Rightarrow> Some IDX_STR_AREF
    | _ \<Rightarrow> None)"

definition str_index_p :: "heap \<Rightarrow> rvalue \<Rightarrow> bool" where
  "str_index_p h v = (case v of
      VInt _ \<Rightarrow> True
    | VObj o' \<Rightarrow> (case heap_kind h o' of Some (K_String _) \<Rightarrow> True | Some (K_Range _ _ _) \<Rightarrow> True | _ \<Rightarrow> False)
    | _ \<Rightarrow> False)"

definition eq_classes :: "core \<Rightarrow> obj_id list" where
  "eq_classes co = [co_integer co, co_float co, co_symbol co, co_nil_class co, co_true_class co, co_false_class co]"

definition eq_op_init :: "core \<Rightarrow> sym \<Rightarrow> sym \<Rightarrow> heap \<Rightarrow> op_guards \<Rightarrow> op_guards option" where
  "eq_op_init co eq eql h g = do {
     bs \<leftarrow> all_some (map (\<lambda>c. native_at h c eq) (eq_classes co));
     b \<leftarrow> native_at h (co_object co) eql;
     Some (g\<lparr>og_eq_builtin := bs, og_eq_serial := - 1, og_eql_basic := b\<rparr>)
   }"

fun eq_bits :: "(nat option \<times> nat option) list \<Rightarrow> nat \<Rightarrow> u8" where
  "eq_bits [] j = 0"
| "eq_bits ((b, n) # ps) j = (if b \<noteq> None \<and> n = b then push_bit j 1 else 0) OR eq_bits ps (Suc j)"

definition eq_sync :: "core \<Rightarrow> sym \<Rightarrow> heap \<Rightarrow> op_guards \<Rightarrow> op_guards option" where
  "eq_sync co eq h g = do {
     ns \<leftarrow> all_some (map (\<lambda>c. native_at h c eq) (eq_classes co));
     Some (g\<lparr>og_eq_serial := hp_method_serial h, og_eq_plain := eq_bits (zip (og_eq_builtin g) ns) 0\<rparr>)
   }"

definition eq_slot :: "rvalue \<Rightarrow> nat option" where
  "eq_slot v = (case v of VInt _ \<Rightarrow> Some 0 | VFloat _ \<Rightarrow> Some 1 | VSym _ \<Rightarrow> Some 2 | VNil \<Rightarrow> Some 3
    | VTrue \<Rightarrow> Some 4 | VFalse \<Rightarrow> Some 5 | VObj _ \<Rightarrow> None)"

definition eq_builtin_p :: "core \<Rightarrow> sym \<Rightarrow> heap \<Rightarrow> op_guards \<Rightarrow> rvalue \<Rightarrow> (op_guards \<times> bool) option" where
  "eq_builtin_p co eq h g v = (case eq_slot v of
      None \<Rightarrow> Some (g, False)
    | Some i \<Rightarrow> do {
        g1 \<leftarrow> (if og_eq_serial g \<noteq> hp_method_serial h then eq_sync co eq h g else Some g);
        Some (g1, og_eq_plain g1 AND push_bit i 1 \<noteq> 0)
      })"

end
