(* ===== verification/GC.thy ===== *)
theory GC
  imports Object
begin

text \<open>
  The collector of \<open>src/object.rs\<close>: \<open>mark_id\<close>, \<open>mark_value\<close>, \<open>mark_slots\<close>, \<open>mark_drain\<close> and
  \<open>sweep\<close>. The mark phase blackens exactly what is reachable from the values it is handed, the
  sweep frees exactly the rest; what is reachable keeps its slot and its contents. The stacks of
  the contexts are the VM's to scan: \<open>mark_drain\<close> hands back which, as in the code.
\<close>

section \<open>The mark phase\<close>

text \<open>The values an object refers to, in the order \<open>mark_drain\<close> visits them.\<close>

definition opt_refs :: "obj_id option list \<Rightarrow> obj_id list" where
  "opt_refs xs = concat (map (\<lambda>x. case x of None \<Rightarrow> [] | Some i \<Rightarrow> [i]) xs)"

definition val_refs :: "rvalue list \<Rightarrow> obj_id list" where
  "val_refs vs = opt_refs (map value_obj vs)"

definition method_refs :: "rmethod \<Rightarrow> obj_id list" where
  "method_refs m = (case m of M_Ruby p \<Rightarrow> [p] | _ \<Rightarrow> [])"

definition class_refs :: "class_data \<Rightarrow> obj_id list" where
  "class_refs c =
     opt_refs [cl_superclass c, cl_iclass_of c, cl_origin c, cl_origin_of c, cl_outer c] @
     concat (map (method_refs \<circ> snd) (cl_methods c)) @
     val_refs (map snd (cl_consts c)) @ val_refs (map snd (cl_cvars c)) @
     (case cl_attached c of None \<Rightarrow> [] | Some a \<Rightarrow> val_refs [a])"

definition env_refs :: "env_data \<Rightarrow> obj_id list" where
  "env_refs e = val_refs (ev_values e) @
     (case ev_svar e of None \<Rightarrow> [] | Some vs \<Rightarrow> val_refs vs) @
     opt_refs [ev_svar_fwd e, ev_target_class e]"

fun kind_refs :: "obj_kind \<Rightarrow> obj_id list" where
  "kind_refs (K_Break _ _ v) = val_refs [v]"
| "kind_refs (K_Array a) = val_refs (ary_elems a)"
| "kind_refs (K_Hash h) = val_refs (concat (map (\<lambda>(k, v). [k, v]) (h_entries h))) @ val_refs [h_default h]"
| "kind_refs (K_Range b e _) = val_refs [b, e]"
| "kind_refs (K_Proc p) = opt_refs [pr_upper p, pr_env p, pr_target_class p]"
| "kind_refs (K_MatchData s r _) = val_refs [s, r]"
| "kind_refs (K_Env e) = env_refs e"
| "kind_refs (K_Class c) = class_refs c"
| "kind_refs (K_Task t) = val_refs [tk_name t, tk_result t] @ opt_refs [tk_join t, tk_queue t]"
| "kind_refs _ = []"

definition obj_refs :: "heap_object \<Rightarrow> obj_id list" where
  "obj_refs x = (if ho_class x \<noteq> - 1 then [ho_class x] else []) @
     val_refs (map snd (ho_ivars x)) @ kind_refs (ho_kind x)"

text \<open>What is handed back to the VM: contexts, and stack windows of attached environments.\<close>

definition obj_ctxs :: "heap_object \<Rightarrow> nat list" where
  "obj_ctxs x = (case ho_kind x of
      K_Fiber (Some c) \<Rightarrow> [c] | K_Task t \<Rightarrow> (case tk_ctx t of Some c \<Rightarrow> [c] | None \<Rightarrow> []) | _ \<Rightarrow> [])"

definition obj_windows :: "heap_object \<Rightarrow> (nat \<times> nat \<times> nat) list" where
  "obj_windows x = (case ho_kind x of
      K_Env e \<Rightarrow> if ev_attached e then [(ev_ctx e, ev_base e, ev_len e)] else [] | _ \<Rightarrow> [])"

text \<open>\<open>mark_id\<close> on the flags and the stack of grey objects (its top first).\<close>

definition mark_id :: "obj_id \<Rightarrow> u8 list \<times> obj_id list \<Rightarrow> (u8 list \<times> obj_id list) option" where
  "mark_id i st = (case st of (fs, work) \<Rightarrow>
     if \<not> (unat i < length fs) then None
     else if fs ! unat i AND MARKED \<noteq> 0 then Some (fs, work)
     else if fs ! unat i AND FREE \<noteq> 0 then None
     else Some (fs[unat i := fs ! unat i OR MARKED], i # work))"

fun mark_ids :: "obj_id list \<Rightarrow> u8 list \<times> obj_id list \<Rightarrow> (u8 list \<times> obj_id list) option" where
  "mark_ids [] st = Some st"
| "mark_ids (i # is') st = (case mark_id i st of None \<Rightarrow> None | Some st' \<Rightarrow> mark_ids is' st')"

definition mark_value :: "rvalue \<Rightarrow> u8 list \<times> obj_id list \<Rightarrow> (u8 list \<times> obj_id list) option" where
  "mark_value v st = (case value_obj v of Some i \<Rightarrow> mark_id i st | None \<Rightarrow> Some st)"

definition mark_slots :: "rvalue list \<Rightarrow> u8 list \<times> obj_id list \<Rightarrow> (u8 list \<times> obj_id list) option" where
  "mark_slots vs st = mark_ids (val_refs vs) st"

definition unmarked :: "u8 list \<Rightarrow> nat" where
  "unmarked fs = length (filter (\<lambda>f. f AND MARKED = 0) fs)"

lemma marked_or: "(f OR MARKED) AND MARKED \<noteq> 0"
  unfolding MARKED_def bit.conj_disj_distrib2 or_eq_0_iff by simp

lemma unmarked_update:
  "i < length fs \<Longrightarrow> fs ! i AND MARKED = 0 \<Longrightarrow> Suc (unmarked (fs[i := fs ! i OR MARKED])) = unmarked fs"
proof (induction fs arbitrary: i)
  case (Cons f fs)
  then show ?case using marked_or by (cases i) (auto simp: unmarked_def)
qed simp

lemma mark_id_measure:
  "mark_id i (fs, work) = Some (fs', work') \<Longrightarrow>
    2 * unmarked fs' + length work' \<le> 2 * unmarked fs + length work"
  using unmarked_update [of "unat i" fs]
  by (auto simp: mark_id_def split: if_splits)

lemma mark_ids_measure:
  "mark_ids is' (fs, work) = Some (fs', work') \<Longrightarrow>
    2 * unmarked fs' + length work' \<le> 2 * unmarked fs + length work"
proof (induction is' arbitrary: fs work)
  case (Cons i is')
  then obtain fs1 w1 where "mark_id i (fs, work) = Some (fs1, w1)" "mark_ids is' (fs1, w1) = Some (fs', work')"
    by (auto split: option.splits)
  then show ?case using mark_id_measure Cons.IH le_trans by blast
qed simp

text \<open>\<open>while let Some(id) = work.pop()\<close>: every round pops one object and marks what it refers to.\<close>

function mark_drain :: "heap_object list \<Rightarrow> u8 list \<Rightarrow> obj_id list \<Rightarrow> nat list \<Rightarrow> (nat \<times> nat \<times> nat) list \<Rightarrow>
    (u8 list \<times> nat list \<times> (nat \<times> nat \<times> nat) list) option" where
  "mark_drain objs fs [] ctxs wins = Some (fs, ctxs, wins)"
| "mark_drain objs fs (i # work) ctxs wins =
     (if \<not> (unat i < length objs) then None
      else let x = objs ! unat i
           in case mark_ids (obj_refs x) (fs, work) of
               None \<Rightarrow> None
             | Some (fs', work') \<Rightarrow> mark_drain objs fs' work' (ctxs @ obj_ctxs x) (wins @ obj_windows x))"
  by pat_completeness auto
termination
  by (relation "measure (\<lambda>(_, fs, work, _, _). 2 * unmarked fs + length work)")
    (auto dest: mark_ids_measure)

section \<open>The sweep\<close>

definition inert_object :: heap_object where
  "inert_object = \<lparr>ho_class = 0, ho_ivars = [], ho_frozen = False, ho_binary = False,
     ho_no_ivars = False, ho_tt_struct = False, ho_kind = K_Object\<rparr>"

definition freed_of :: "obj_kind \<Rightarrow> (u32 \<times> u64) list" where
  "freed_of k = (case k of K_Data t hd' \<Rightarrow> [(t, hd')] | _ \<Rightarrow> [])"

text \<open>The loop over the slots: objects and flags after it, what the host is told of, how many went.\<close>

fun sweep_slots :: "heap_object list \<Rightarrow> u8 list \<Rightarrow> heap_object list \<times> u8 list \<times> (u32 \<times> u64) list \<times> nat" where
  "sweep_slots (x # xs) (f # fs) =
     (let (xs', fs', fd, n) = sweep_slots xs fs
      in if f AND MARKED \<noteq> 0 then (x # xs', 0 # fs', fd, n)
         else if f AND FREE = 0 then (inert_object # xs', FREE # fs', freed_of (ho_kind x) @ fd, Suc n)
         else (x # xs', f # fs', fd, n))"
| "sweep_slots xs fs = (xs, fs, [], 0)"

text \<open>\<open>while len > 0 && flags[len - 1] & FREE != 0 { len -= 1; }\<close>\<close>

fun live_len :: "u8 list \<Rightarrow> nat \<Rightarrow> nat" where
  "live_len fs 0 = 0"
| "live_len fs (Suc n) = (if fs ! n AND FREE \<noteq> 0 then live_len fs n else Suc n)"

definition heap_sweep :: "heap \<Rightarrow> heap \<times> nat" where
  "heap_sweep h =
     (let (objs, fs, fd, n) = sweep_slots (hp_objs h) (hp_flags h);
          len = live_len fs (length objs);
          objs' = take len objs; fs' = take len fs;
          free = map of_nat (filter (\<lambda>i. fs' ! i AND FREE \<noteq> 0) (rev [0..<len]))
      in (h\<lparr>hp_objs := objs', hp_flags := fs', hp_free := free, hp_freed_data := hp_freed_data h @ fd\<rparr>, n))"

section \<open>Reachability\<close>

inductive reach :: "heap_object list \<Rightarrow> obj_id set \<Rightarrow> obj_id \<Rightarrow> bool" for objs roots where
  reach_root: "i \<in> roots \<Longrightarrow> reach objs roots i"
| reach_step: "reach objs roots i \<Longrightarrow> j \<in> set (obj_refs (objs ! unat i)) \<Longrightarrow> reach objs roots j"

definition marked :: "u8 list \<Rightarrow> obj_id \<Rightarrow> bool" where
  "marked fs i \<longleftrightarrow> unat i < length fs \<and> fs ! unat i AND MARKED \<noteq> 0"

lemma free_or_marked: "(f OR MARKED) AND FREE = f AND FREE"
  by (simp add: MARKED_def FREE_def bit.conj_disj_distrib2)

lemma mark_id_spec:
  assumes "mark_id i (fs, work) = Some (fs', work')"
  shows "length fs' = length fs" "marked fs' j \<longleftrightarrow> marked fs j \<or> j = i"
    "set work' = set work \<union> (if marked fs i then {} else {i})"
    "slot_free fs' k = slot_free fs k" "distinct work \<Longrightarrow> \<forall>w \<in> set work. marked fs w \<Longrightarrow> distinct work'"
proof -
  have c: "unat i < length fs" and r: "fs' = (if marked fs i then fs else fs[unat i := fs ! unat i OR MARKED])"
    "work' = (if marked fs i then work else i # work)"
    using assms by (auto simp: mark_id_def marked_def split: if_splits)
  show "length fs' = length fs" "set work' = set work \<union> (if marked fs i then {} else {i})"
    by (auto simp: r)
  show "marked fs' j \<longleftrightarrow> marked fs j \<or> j = i"
    using c marked_or by (auto simp: r marked_def nth_list_update word_unat_eq_iff [symmetric])
  show "slot_free fs' k = slot_free fs k"
    using c free_or_marked by (auto simp: r slot_free_update) (auto simp: slot_free_def)
  show "distinct work \<Longrightarrow> \<forall>w \<in> set work. marked fs w \<Longrightarrow> distinct work'" by (auto simp: r)
qed

lemma mark_ids_spec:
  assumes "mark_ids is' (fs, work) = Some (fs', work')"
  shows "length fs' = length fs \<and> (\<forall>j. marked fs' j \<longleftrightarrow> marked fs j \<or> j \<in> set is') \<and>
    set work' = set work \<union> {i \<in> set is'. \<not> marked fs i} \<and> (\<forall>k. slot_free fs' k = slot_free fs k)"
  using assms
proof (induction is' arbitrary: fs work)
  case (Cons i is')
  then obtain fs1 w1 where m: "mark_id i (fs, work) = Some (fs1, w1)" "mark_ids is' (fs1, w1) = Some (fs', work')"
    by (auto split: option.splits)
  note s = mark_id_spec [OF m(1)]
  from Cons.IH [OF m(2)] s show ?case by auto
qed auto

text \<open>Marking does not panic when nothing it meets is free or out of range.\<close>

lemma mark_ids_total:
  assumes "\<forall>i \<in> set is'. \<not> slot_free fs (unat i)"
  shows "\<exists>st. mark_ids is' (fs, work) = Some st"
  using assms
proof (induction is' arbitrary: fs work)
  case (Cons i is')
  then have "\<not> slot_free fs (unat i)" by simp
  then obtain fs1 w1 where m: "mark_id i (fs, work) = Some (fs1, w1)"
    by (cases "fs ! unat i AND MARKED = 0") (auto simp: mark_id_def slot_free_def)
  have "\<forall>i \<in> set is'. \<not> slot_free fs1 (unat i)" using Cons.prems mark_id_spec(4) [OF m] by simp
  from Cons.IH [OF this] m show ?case by simp
qed simp

text \<open>The references of what is reachable go to live slots: what the collector asserts.\<close>

definition closed :: "heap_object list \<Rightarrow> u8 list \<Rightarrow> obj_id set \<Rightarrow> bool" where
  "closed objs fs roots \<longleftrightarrow> (\<forall>i. reach objs roots i \<longrightarrow> \<not> slot_free fs (unat i))"

lemma mark_drain_spec:
  assumes "length fs = length objs" "closed objs fs roots"
    and "\<forall>i. marked fs i \<longrightarrow> reach objs roots i" "\<forall>i \<in> set work. marked fs i"
    and "\<forall>i. marked fs i \<longrightarrow> i \<in> set work \<or> (\<forall>j \<in> set (obj_refs (objs ! unat i)). marked fs j)"
    and "\<forall>i \<in> roots. marked fs i"
  shows "\<exists>fs' cs ws. mark_drain objs fs work ctxs wins = Some (fs', cs, ws) \<and> length fs' = length fs \<and>
    (\<forall>i. marked fs' i \<longleftrightarrow> reach objs roots i) \<and> (\<forall>k. slot_free fs' k = slot_free fs k)"
  using assms
proof (induction objs fs work ctxs wins rule: mark_drain.induct)
  case (1 objs fs ctxs wins)
  have "marked fs i" if "reach objs roots i" for i
    using that
  proof induction
    case (reach_root i)
    with "1.prems"(6) show ?case by simp
  next
    case (reach_step i j)
    with "1.prems"(5) show ?case by simp
  qed
  with "1.prems"(3) show ?case by auto
next
  case (2 objs fs i work ctxs wins)
  let ?x = "objs ! unat i"
  have mi: "marked fs i" using "2.prems"(4) by simp
  then have r: "unat i < length objs" "reach objs roots i" using "2.prems"(1,3) by (auto simp: marked_def)
  have live: "\<not> slot_free fs (unat j)" if "j \<in> set (obj_refs ?x)" for j
    using "2.prems"(2) reach_step [OF r(2) that] by (simp add: closed_def)
  then obtain fs1 w1 where m: "mark_ids (obj_refs ?x) (fs, work) = Some (fs1, w1)"
    using mark_ids_total [of "obj_refs ?x" fs work] by auto
  have s: "length fs1 = length fs" "\<And>j. marked fs1 j \<longleftrightarrow> marked fs j \<or> j \<in> set (obj_refs ?x)"
    "set w1 = set work \<union> {j \<in> set (obj_refs ?x). \<not> marked fs j}" "\<And>k. slot_free fs1 k = slot_free fs k"
    using mark_ids_spec [OF m] by auto
  have eq: "mark_drain objs fs (i # work) ctxs wins =
      mark_drain objs fs1 w1 (ctxs @ obj_ctxs ?x) (wins @ obj_windows ?x)"
    using r(1) m by (simp add: Let_def)
  have "closed objs fs1 roots" using "2.prems"(2) by (simp add: closed_def s(4))
  moreover have "\<forall>j. marked fs1 j \<longrightarrow> reach objs roots j" using "2.prems"(3) s(2) reach_step [OF r(2)] by blast
  moreover have "\<forall>j \<in> set w1. marked fs1 j" using "2.prems"(4) s(2,3) by auto
  moreover have "\<forall>j. marked fs1 j \<longrightarrow> j \<in> set w1 \<or> (\<forall>k \<in> set (obj_refs (objs ! unat j)). marked fs1 k)"
    using "2.prems"(5) s(2,3) by fastforce
  moreover have "\<forall>j \<in> roots. marked fs1 j" using "2.prems"(6) s(2) by blast
  ultimately have "\<exists>fs' cs ws. mark_drain objs fs1 w1 (ctxs @ obj_ctxs ?x) (wins @ obj_windows ?x) = Some (fs', cs, ws) \<and>
      length fs' = length fs1 \<and> (\<forall>i. marked fs' i \<longleftrightarrow> reach objs roots i) \<and> (\<forall>k. slot_free fs' k = slot_free fs1 k)"
    using "2.prems"(1) s(1) r(1) m by (intro "2.IH") auto
  then show ?case unfolding eq by (simp add: s)
qed

text \<open>
  From unmarked flags: marking the roots and draining reaches exactly what the roots reach, and
  never meets a freed slot.
\<close>

theorem mark_phase:
  assumes "heap_inv h" "closed (hp_objs h) (hp_flags h) (set roots)"
  shows "\<exists>fs work fs' cs ws. mark_ids roots (hp_flags h, []) = Some (fs, work) \<and>
    mark_drain (hp_objs h) fs work [] [] = Some (fs', cs, ws) \<and> length fs' = length (hp_objs h) \<and>
    (\<forall>i. marked fs' i \<longleftrightarrow> reach (hp_objs h) (set roots) i) \<and>
    (\<forall>k. slot_free fs' k = slot_free (hp_flags h) k)"
proof -
  let ?fs = "hp_flags h" and ?R = "reach (hp_objs h) (set roots)"
  have um: "\<not> marked ?fs i" for i using assms(1) by (auto simp: heap_inv_def marked_def)
  have len: "length ?fs = length (hp_objs h)" using assms(1) by (simp add: heap_inv_def)
  have "\<forall>i \<in> set roots. \<not> slot_free ?fs (unat i)" using assms(2) reach_root by (auto simp: closed_def)
  then obtain fs work where m: "mark_ids roots (?fs, []) = Some (fs, work)"
    using mark_ids_total [of roots ?fs "[]"] by auto
  have s: "length fs = length ?fs" "\<And>j. marked fs j \<longleftrightarrow> j \<in> set roots" "set work = set roots"
    "\<And>k. slot_free fs k = slot_free ?fs k" using mark_ids_spec [OF m] um by auto
  have "closed (hp_objs h) fs (set roots)" using assms(2) by (simp add: closed_def s(4))
  then have "\<exists>fs' cs ws. mark_drain (hp_objs h) fs work [] [] = Some (fs', cs, ws) \<and> length fs' = length fs \<and>
      (\<forall>i. marked fs' i \<longleftrightarrow> ?R i) \<and> (\<forall>k. slot_free fs' k = slot_free fs k)"
    by (intro mark_drain_spec) (use s len reach_root in auto)
  with m s len show ?thesis by auto
qed

section \<open>The sweep frees the rest\<close>

lemma sweep_slots_spec:
  assumes "length xs = length fs" "sweep_slots xs fs = (xs', fs', fd, n)"
  shows "length xs' = length xs \<and> length fs' = length fs \<and>
    (\<forall>i < length fs.
      xs' ! i = (if fs ! i AND MARKED \<noteq> 0 \<or> fs ! i AND FREE \<noteq> 0 then xs ! i else inert_object) \<and>
      fs' ! i = (if fs ! i AND MARKED \<noteq> 0 then 0 else if fs ! i AND FREE = 0 then FREE else fs ! i)) \<and>
    fd = concat (map (\<lambda>i. if fs ! i AND MARKED = 0 \<and> fs ! i AND FREE = 0 then freed_of (ho_kind (xs ! i)) else [])
      [0..<length fs])"
  using assms
proof (induction xs fs arbitrary: xs' fs' fd n rule: sweep_slots.induct)
  case (1 x xs f fs)
  obtain ys gs gd m where s: "sweep_slots xs fs = (ys, gs, gd, m)" by (metis prod_cases4)
  have ih: "length ys = length xs \<and> length gs = length fs \<and>
    (\<forall>i < length fs.
      ys ! i = (if fs ! i AND MARKED \<noteq> 0 \<or> fs ! i AND FREE \<noteq> 0 then xs ! i else inert_object) \<and>
      gs ! i = (if fs ! i AND MARKED \<noteq> 0 then 0 else if fs ! i AND FREE = 0 then FREE else fs ! i)) \<and>
    gd = concat (map (\<lambda>i. if fs ! i AND MARKED = 0 \<and> fs ! i AND FREE = 0 then freed_of (ho_kind (xs ! i)) else [])
      [0..<length fs])"
    using 1 s by simp
  have up: "[0..<Suc k] = 0 # map Suc [0..<k]" for k by (simp add: map_Suc_upt upt_conv_Cons del: upt_Suc)
  show ?case
    using "1.prems" s ih
    by (cases "f AND MARKED = 0"; cases "f AND FREE = 0")
      (auto simp: nth_Cons up comp_def simp del: upt_Suc cong: if_cong split: nat.split)
qed auto

lemma live_len_spec:
  "live_len fs n \<le> n \<and> (\<forall>i. live_len fs n \<le> i \<longrightarrow> i < n \<longrightarrow> fs ! i AND FREE \<noteq> 0)"
  by (induction n) (auto simp: less_Suc_eq)

definition heap_gc :: "heap \<Rightarrow> obj_id list \<Rightarrow> (heap \<times> nat) option" where
  "heap_gc h roots = (case mark_ids roots (hp_flags h, []) of
      None \<Rightarrow> None
    | Some (fs, work) \<Rightarrow> (case mark_drain (hp_objs h) fs work [] [] of
          None \<Rightarrow> None
        | Some (fs', _, _) \<Rightarrow> Some (heap_sweep (h\<lparr>hp_flags := fs'\<rparr>))))"

lemma free_not_marked: "0 AND FREE = (0 :: u8)" "FREE AND FREE \<noteq> 0" "FREE AND MARKED = 0" "(0 :: u8) AND MARKED = 0"
  by (simp_all add: FREE_def MARKED_def)

lemma heap_sweep_spec:
  fixes fs :: "u8 list"
  assumes inv: "heap_inv h" and fs: "length fs = length (hp_objs h)" "\<And>k. slot_free fs k = slot_free (hp_flags h) k"
    and mk: "\<And>i. marked fs i \<Longrightarrow> \<not> heap_is_free h i"
    and sw: "heap_sweep (h\<lparr>hp_flags := fs\<rparr>) = (h', n)"
  shows "heap_inv h'" "marked fs i \<Longrightarrow> heap_get h' i = heap_get h i \<and> \<not> heap_is_free h' i"
    "\<not> marked fs i \<Longrightarrow> heap_is_free h' i"
proof -
  obtain xs gs fd m where s: "sweep_slots (hp_objs h) fs = (xs, gs, fd, m)" by (metis prod_cases4)
  note sp = sweep_slots_spec [OF fs(1) [symmetric] s]
  define len where "len = live_len gs (length xs)"
  have ll: "len \<le> length (hp_objs h)" "\<And>i. len \<le> i \<Longrightarrow> i < length (hp_objs h) \<Longrightarrow> gs ! i AND FREE \<noteq> 0"
    using live_len_spec [of gs "length xs"] sp by (auto simp: len_def)
  have h': "hp_objs h' = take len xs" "hp_flags h' = take len gs"
    "hp_free h' = map of_nat (filter (\<lambda>i. take len gs ! i AND FREE \<noteq> 0) (rev [0..<len]))"
    using sw s by (auto simp: heap_sweep_def Let_def len_def)
  have B: "length (hp_objs h) \<le> B32" using inv by (simp add: heap_inv_def)
  have gf: "gs ! unat i AND FREE \<noteq> 0 \<longleftrightarrow> \<not> marked fs i" if "unat i < length (hp_objs h)" for i
    using sp that fs(1) mk [of i] fs(2) [of "unat i"] free_not_marked
    by (auto simp: marked_def heap_is_free_def slot_free_def)
  have fr: "heap_is_free h' i \<longleftrightarrow> \<not> marked fs i" for i
    using gf [of i] ll sp fs(1) by (auto simp: heap_is_free_def slot_free_def h' marked_def)
  show "\<not> marked fs i \<Longrightarrow> heap_is_free h' i" by (simp add: fr)
  show "marked fs i \<Longrightarrow> heap_get h' i = heap_get h i \<and> \<not> heap_is_free h' i"
  proof -
    assume m: "marked fs i"
    then have i: "unat i < length (hp_objs h)" using fs(1) by (simp add: marked_def)
    then have "unat i < len" using ll(2) [of "unat i"] gf [OF i] m by (meson not_le)
    moreover have "xs ! unat i = hp_objs h ! unat i" using sp i fs(1) m by (simp add: marked_def)
    ultimately show ?thesis using m i sp by (simp add: fr heap_get_def h')
  qed
  have u: "unat (of_nat k :: u32) = k" if "k < len" for k
    using that ll(1) B by (simp add: unat_of_nat B32_def)
  have "distinct (hp_free h')"
  proof -
    have "inj_on (of_nat :: nat \<Rightarrow> u32) {..<len}" by (rule inj_onI) (metis u lessThan_iff)
    then have "inj_on (of_nat :: nat \<Rightarrow> u32) (set (filter (\<lambda>i. take len gs ! i AND FREE \<noteq> 0) (rev [0..<len])))"
      by (rule inj_on_subset) auto
    then show ?thesis unfolding h'(3) by (simp add: distinct_map)
  qed
  moreover have "i \<in> set (hp_free h') \<longleftrightarrow> unat i < length (hp_objs h') \<and> heap_is_free h' i" for i
  proof -
    have l: "length (hp_objs h') = len" using ll(1) sp by (simp add: h'(1))
    have "heap_is_free h' i \<longleftrightarrow> take len gs ! unat i AND FREE \<noteq> 0" if "unat i < len"
      using that ll(1) sp fs(1) by (simp add: heap_is_free_def slot_free_def h'(2))
    then show ?thesis unfolding h'(3) l using u by (auto simp: image_iff intro!: bexI [of _ "unat i"])
  qed
  moreover have "\<forall>f \<in> set (hp_flags h'). f AND MARKED = 0"
  proof
    fix f assume "f \<in> set (hp_flags h')"
    then obtain k where k: "k < len" "f = gs ! k" by (auto simp: h'(2) in_set_conv_nth)
    then show "f AND MARKED = 0"
      using sp ll(1) fs(1) free_not_marked by auto
  qed
  ultimately show "heap_inv h'" using B ll(1) sp fs(1) by (simp add: heap_inv_def h'(1,2))
qed

theorem heap_gc_correct:
  assumes "heap_inv h" "closed (hp_objs h) (hp_flags h) (set roots)"
  shows "\<exists>h' n. heap_gc h roots = Some (h', n) \<and> heap_inv h' \<and>
    (\<forall>i. reach (hp_objs h) (set roots) i \<longrightarrow> heap_get h' i = heap_get h i \<and> \<not> heap_is_free h' i) \<and>
    (\<forall>i. \<not> reach (hp_objs h) (set roots) i \<longrightarrow> heap_is_free h' i)"
proof -
  obtain fs work fs' cs ws where m: "mark_ids roots (hp_flags h, []) = Some (fs, work)"
    "mark_drain (hp_objs h) fs work [] [] = Some (fs', cs, ws)" "length fs' = length (hp_objs h)"
    "\<And>i. marked fs' i \<longleftrightarrow> reach (hp_objs h) (set roots) i" "\<And>k. slot_free fs' k = slot_free (hp_flags h) k"
    using mark_phase [OF assms] by blast
  obtain h' n where sw: "heap_sweep (h\<lparr>hp_flags := fs'\<rparr>) = (h', n)" by fastforce
  have live: "marked fs' i \<Longrightarrow> \<not> heap_is_free h i" for i
    using assms(2) by (simp add: m(4) closed_def heap_is_free_def)
  note sp = heap_sweep_spec [OF assms(1) m(3,5) live sw]
  have "heap_gc h roots = Some (h', n)" by (simp add: heap_gc_def m(1,2) sw)
  with sp m(4) show ?thesis by blast
qed

end
