(* ===== verification/ClassCache.thy ===== *)
theory ClassCache
  imports Classes GC
begin

text \<open>
  The method cache and the guards of the inlined operators answer what a walk of the classes would: what is stored
  under the current \<open>method_serial\<close> is still true, because every change to a class moves the serial on and every
  other change keeps the classes that are alive.
\<close>

section \<open>Values stored under a serial number\<close>

locale serial_memo =
  fixes serial :: "'h \<Rightarrow> u64" and ask :: "'h \<Rightarrow> 'k \<Rightarrow> 'v option" and alive :: "'h \<Rightarrow> 'k \<Rightarrow> bool"
    and keeps :: "'h \<Rightarrow> 'h \<Rightarrow> bool"
  assumes keeps_serial: "keeps h h' \<Longrightarrow> serial h' = serial h"
    and keeps_alive: "keeps h h' \<Longrightarrow> alive h' k \<Longrightarrow> alive h k"
    and keeps_ask: "keeps h h' \<Longrightarrow> alive h' k \<Longrightarrow> ask h k = Some v \<Longrightarrow> ask h' k = Some v"
begin

definition current :: "'h \<Rightarrow> u64 \<Rightarrow> 'k \<Rightarrow> 'v \<Rightarrow> bool" where
  "current h n k v \<longleftrightarrow> n \<le> serial h \<and> (n = serial h \<longrightarrow> alive h k \<longrightarrow> ask h k = Some v)"

lemma currentI: "ask h k = Some v \<Longrightarrow> current h (serial h) k v"
  by (simp add: current_def)

lemma current_answer: "current h (serial h) k v \<Longrightarrow> alive h k \<Longrightarrow> ask h k = Some v"
  by (simp add: current_def)

lemma current_keeps: "current h n k v \<Longrightarrow> keeps h h' \<Longrightarrow> current h' n k v"
  unfolding current_def using keeps_serial keeps_alive keeps_ask by metis

lemma current_bump: "current h n k v \<Longrightarrow> serial h < serial h' \<Longrightarrow> current h' n k v"
  by (auto simp: current_def)

end

section \<open>Changes that keep the classes\<close>

definition live_class :: "heap \<Rightarrow> obj_id \<Rightarrow> bool" where
  "live_class h c \<longleftrightarrow> \<not> heap_is_free h c \<and> heap_class h c \<noteq> None"

definition class_links :: "class_data \<Rightarrow> obj_id set" where
  "class_links cd = set_option (cl_superclass cd) \<union> set_option (cl_iclass_of cd) \<union> set_option (cl_origin cd)"

text \<open>What a live class leads to is alive.\<close>

definition classes_closed :: "heap \<Rightarrow> bool" where
  "classes_closed h \<longleftrightarrow> (\<forall>c cd. live_class h c \<longrightarrow> heap_class h c = Some cd \<longrightarrow> (\<forall>l \<in> class_links cd. live_class h l))"

definition keeps_classes :: "heap \<Rightarrow> heap \<Rightarrow> bool" where
  "keeps_classes h h' \<longleftrightarrow> hp_method_serial h' = hp_method_serial h \<and> classes_closed h' \<and>
     (\<forall>c. live_class h' c \<longrightarrow> live_class h c \<and> heap_class h' c = heap_class h c)"

lemma classes_closedD:
  assumes "classes_closed h" "live_class h c" "heap_class h c = Some cd"
  shows "cl_superclass cd = Some s \<Longrightarrow> live_class h s" "cl_iclass_of cd = Some m \<Longrightarrow> live_class h m"
    "cl_origin cd = Some o' \<Longrightarrow> live_class h o'"
  using assms by (auto simp: classes_closed_def class_links_def)

lemma keepsD: "keeps_classes h h' \<Longrightarrow> live_class h' c \<Longrightarrow> heap_class h c = heap_class h' c"
  by (simp add: keeps_classes_def)

lemma keeps_live: "keeps_classes h h' \<Longrightarrow> live_class h' c \<Longrightarrow> live_class h c" "keeps_classes h h' \<Longrightarrow> hp_method_serial h' = hp_method_serial h"
  by (simp_all add: keeps_classes_def)

lemma def_target_keeps: "keeps_classes h h' \<Longrightarrow> live_class h' c \<Longrightarrow> def_target h c = def_target h' c"
  by (simp add: def_target_def keepsD)

lemma def_target_live: "classes_closed h \<Longrightarrow> live_class h c \<Longrightarrow> def_target h c = Some t \<Longrightarrow> live_class h t"
  by (auto simp: def_target_def dest: classes_closedD(3) split: option.splits)

lemma table_owner_keeps:
  assumes "keeps_classes h h'" "live_class h' c"
  shows "table_owner h c = table_owner h' c" "table_owner h' c = Some t \<Longrightarrow> live_class h' t"
proof -
  obtain cd where cd: "heap_class h' c = Some cd" "heap_class h c = Some cd"
    using assms keepsD [OF assms] by (auto simp: live_class_def)
  have cl: "classes_closed h'" using assms(1) by (simp add: keeps_classes_def)
  have m: "live_class h' m" if "cl_iclass_of cd = Some m" for m using classes_closedD(2) [OF cl assms(2) cd(1) that] .
  show "table_owner h c = table_owner h' c"
    using cd m def_target_keeps [OF assms(1)] by (auto simp: table_owner_def split: option.splits)
  show "table_owner h' c = Some t \<Longrightarrow> live_class h' t"
    using cd m def_target_live [OF cl] assms(2) by (auto simp: table_owner_def split: option.splits)
qed

lemma find_method_walk_keeps:
  assumes k: "keeps_classes h h'" and w: "find_method_walk h c mid = Some r" and l: "\<forall>x. c = Some x \<longrightarrow> live_class h' x"
  shows "find_method_walk h' c mid = Some r \<and> (\<forall>m x. r = Some (m, x) \<longrightarrow> live_class h' x)"
proof -
  have "h = h \<longrightarrow> (\<forall>x. c = Some x \<longrightarrow> live_class h' x) \<longrightarrow>
    find_method_walk h' c mid = Some r \<and> (\<forall>m x. r = Some (m, x) \<longrightarrow> live_class h' x)"
  proof (rule find_method_walk.raw_induct [OF _ w, where P = "\<lambda>g c mid r. g = h \<longrightarrow> (\<forall>x. c = Some x \<longrightarrow> live_class h' x) \<longrightarrow>
      find_method_walk h' c mid = Some r \<and> (\<forall>m x. r = Some (m, x) \<longrightarrow> live_class h' x)"], intro impI, goal_cases)
    case (1 walk g c mid r)
    have IH: "walk h s mid = Some r \<Longrightarrow> (\<forall>x. s = Some x \<longrightarrow> live_class h' x) \<Longrightarrow>
      find_method_walk h' s mid = Some r \<and> (\<forall>m x. r = Some (m, x) \<longrightarrow> live_class h' x)" for s
      using 1(1) by blast
    note body = 1(2) [unfolded 1(3)]
    show ?case
    proof (cases c)
      case None
      with body show ?thesis by (subst find_method_walk.simps) simp
    next
      case (Some x)
      then have x: "live_class h' x" using 1(4) by simp
      obtain cd where cd: "heap_class h x = Some cd" "heap_class h' x = Some cd"
        using keepsD [OF k x] x by (auto simp: live_class_def)
      have cl: "classes_closed h'" using k by (simp add: keeps_classes_def)
      have s: "\<forall>y. cl_superclass cd = Some y \<longrightarrow> live_class h' y" using classes_closedD(1) [OF cl x cd(2)] by blast
      note un = find_method_walk.simps [of h' "Some x" mid]
      show ?thesis
      proof (cases "cl_origin cd = None")
        case False
        then have "walk h (cl_superclass cd) mid = Some r" using body Some cd by simp
        from IH [OF this s] show ?thesis using Some cd False by (simp add: un)
      next
        case True
        obtain t td where t: "table_owner h x = Some t" "heap_class h t = Some td"
          using body Some cd True by (auto simp: bind_eq_Some_conv)
        have t': "table_owner h' x = Some t" "heap_class h' t = Some td"
          using table_owner_keeps [OF k x] t keepsD [OF k, of t] by simp_all
        show ?thesis
        proof (cases "map_of (cl_methods td) mid")
          case (Some m)
          then show ?thesis using body \<open>c = Some x\<close> cd True t t' x by (auto simp: un)
        next
          case None
          then have "walk h (cl_superclass cd) mid = Some r" using body \<open>c = Some x\<close> cd True t by simp
          from IH [OF this s] show ?thesis using \<open>c = Some x\<close> cd True t' None by (simp add: un)
        qed
      qed
    qed
  qed
  with l show ?thesis by blast
qed

lemma find_method_ref_keeps:
  assumes k: "keeps_classes h h'" and l: "live_class h' c" and w: "find_method_ref h c mid = Some r"
  shows "find_method_ref h' c mid = Some r" "r = Some (m, x) \<Longrightarrow> live_class h' x"
proof -
  obtain e where e: "find_method_walk h (Some c) mid = Some e"
    "r = (case e of Some (m, x) \<Rightarrow> map_option (\<lambda>r. (r, x)) (method_ref_of m) | None \<Rightarrow> None)"
    using w by (auto simp: find_method_ref_def find_method_entry_def)
  note e' = find_method_walk_keeps [OF k e(1)]
  show "find_method_ref h' c mid = Some r" using e' e(2) l by (simp add: find_method_ref_def find_method_entry_def)
  show "r = Some (m, x) \<Longrightarrow> live_class h' x" using e' e(2) l by (auto split: option.splits)
qed

lemma resolve_keeps:
  assumes k: "keeps_classes h h'" and l: "live_class h' c" and w: "resolve h c mid = Some r"
  shows "resolve h' c mid = Some r"
proof -
  obtain found v where f: "find_method_ref h c mid = Some found" "r = (found, v)"
    "(case found of Some (_, owner) \<Rightarrow> vis_of_found h owner mid | None \<Rightarrow> Some Public) = Some v"
    using w by (auto simp: resolve_def bind_eq_Some_conv)
  note f' = find_method_ref_keeps [OF k l f(1)]
  have "(case found of Some (_, owner) \<Rightarrow> vis_of_found h' owner mid | None \<Rightarrow> Some Public) = Some v"
  proof (cases found)
    case (Some e)
    then have lo: "live_class h' (snd e)" using f'(2) [of "fst e" "snd e"] by simp
    have "vis_of_found h' (snd e) mid = vis_of_found h (snd e) mid"
      using table_owner_keeps [OF k lo] keepsD [OF k] by (cases "table_owner h' (snd e)") (simp_all add: vis_of_found_def)
    then show ?thesis using f(3) Some by (cases e) simp
  qed (use f(3) in simp)
  then show ?thesis using f'(1) f(2) by (simp add: resolve_def)
qed

interpretation lines: serial_memo hp_method_serial "\<lambda>h (c, mid). resolve h c mid" "\<lambda>h (c, mid). live_class h c" keeps_classes
  by unfold_locales (auto dest: keeps_live intro: resolve_keeps)

lemma native_at_keeps: "keeps_classes h h' \<Longrightarrow> live_class h' c \<Longrightarrow> native_at h c mid = Some n \<Longrightarrow> native_at h' c mid = Some n"
  by (auto simp: native_at_def dest: find_method_ref_keeps(1))

interpretation guards: serial_memo hp_method_serial "\<lambda>h (c, mid). native_at h c mid" "\<lambda>h (c, mid). live_class h c" keeps_classes
  by unfold_locales (auto dest: keeps_live intro: native_at_keeps)

section \<open>What the heap's operations do to the classes\<close>

lemma class_mut_serial: "heap_class_mut h c f = Some h' \<Longrightarrow> hp_method_serial h' = hp_method_serial h + 1"
  by (auto simp: heap_class_mut_def heap_update_def split: option.splits)

lemma alloc_serial: "heap_alloc h c k = (h', i) \<Longrightarrow> hp_method_serial h' = (if is_class_kind k then hp_method_serial h + 1 else hp_method_serial h)"
  by (auto simp: heap_alloc_def Let_def split: if_splits)

lemma keeps_classesI:
  assumes "hp_method_serial h' = hp_method_serial h" "classes_closed h"
    and s: "\<And>c. live_class h' c \<Longrightarrow> live_class h c \<and> heap_class h' c = heap_class h c"
    and b: "\<And>c cd l. live_class h' c \<Longrightarrow> heap_class h c = Some cd \<Longrightarrow> l \<in> class_links cd \<Longrightarrow> live_class h l \<Longrightarrow> live_class h' l"
  shows "keeps_classes h h'"
  unfolding keeps_classes_def
proof (intro conjI allI impI)
  show "classes_closed h'" unfolding classes_closed_def
  proof (intro allI impI ballI)
    fix c cd l assume a: "live_class h' c" "heap_class h' c = Some cd" "l \<in> class_links cd"
    then have "live_class h c" "heap_class h c = Some cd" using s by simp_all
    then have "live_class h l" using assms(2) a(3) by (auto simp: classes_closed_def)
    with b a(1,3) \<open>heap_class h c = Some cd\<close> show "live_class h' l" by blast
  qed
qed (use assms(1) s in simp_all)

lemma alloc_free:
  assumes "heap_inv h" "length (hp_objs h) < B32" "heap_alloc h c k = (h', i)"
  shows "heap_is_free h' j \<longleftrightarrow> j \<noteq> i \<and> heap_is_free h j"
proof -
  have l: "length (hp_flags h) = length (hp_objs h)" using assms(1) by (simp add: heap_inv_def)
  have u: "unat (of_nat (length (hp_objs h)) :: u32) = length (hp_objs h)"
    using assms(2) by (simp add: unat_of_nat B32_def)
  show ?thesis
  proof (cases "hp_free h = []")
    case True
    then have h': "hp_flags h' = hp_flags h @ [0]" "i = of_nat (length (hp_objs h))"
      using assms(3) by (auto simp: heap_alloc_def Let_def)
    have "j = i \<longleftrightarrow> unat j = length (hp_objs h)" using u h'(2) by (metis word_unat_eq_iff)
    then show ?thesis by (auto simp: heap_is_free_def slot_free_def h'(1) nth_append l free_not_marked)
  next
    case False
    then have h': "hp_flags h' = (hp_flags h)[unat i := 0]" "i = last (hp_free h)"
      using assms(3) by (auto simp: heap_alloc_def Let_def)
    then have "unat i < length (hp_flags h)" using assms(1) False l last_in_set [OF False] by (auto simp: heap_inv_def)
    then show ?thesis unfolding heap_is_free_def h'(1) by (simp add: slot_free_update free_not_marked word_unat_eq_iff)
  qed
qed

lemma alloc_keeps_classes:
  assumes "heap_inv h" "length (hp_objs h) < B32" "classes_closed h" "\<not> is_class_kind k" "heap_alloc h c k = (h', i)"
  shows "keeps_classes h h'"
proof -
  note f = heap_alloc_fresh [OF assms(1,2,5)]
  have i: "\<not> live_class h' i" using f(2) assms(4) by (cases k) (simp_all add: live_class_def heap_class_def heap_kind_def new_object_def)
  have free: "heap_is_free h' j \<longleftrightarrow> j \<noteq> i \<and> heap_is_free h j" for j by (rule alloc_free [OF assms(1,2,5)])
  have get: "\<not> heap_is_free h j \<Longrightarrow> heap_get h' j = heap_get h j" for j using f(1) f(4) [of j] by auto
  have "live_class h' j \<longleftrightarrow> live_class h j" "live_class h j \<Longrightarrow> heap_class h' j = heap_class h j" for j
    using i f(1) free [of j] get [of j] by (auto simp: live_class_def heap_class_def heap_kind_def)
  then show ?thesis using alloc_serial [OF assms(5)] assms(3,4) by (intro keeps_classesI) auto
qed

lemma update_keeps_classes:
  assumes "classes_closed h" "\<And>x. heap_get h i = Some x \<Longrightarrow>
    ho_kind (f x) = ho_kind x \<or> (\<not> is_class_kind (ho_kind x) \<and> \<not> is_class_kind (ho_kind (f x)))"
  shows "keeps_classes h (heap_update h i f)"
proof -
  have k: "is_class_kind x \<longleftrightarrow> (\<exists>c. x = K_Class c)" for x by (cases x) simp_all
  have "heap_class (heap_update h i f) c = heap_class h c" for c
    using assms(2) by (auto simp: heap_class_def heap_kind_def heap_get_update k split: option.splits obj_kind.splits)
  moreover have "heap_is_free (heap_update h i f) c = heap_is_free h c" for c by (simp add: heap_is_free_def heap_update_def)
  ultimately show ?thesis using assms(1) by (intro keeps_classesI) (simp_all add: live_class_def heap_update_def)
qed

lemma gc_keeps_classes:
  assumes inv: "heap_inv h" and gc: "closed (hp_objs h) (hp_flags h) (set roots)" "heap_gc h roots = Some (h', n)"
    and cl: "classes_closed h"
  shows "keeps_classes h h'"
proof -
  have g: "reach (hp_objs h) (set roots) i \<Longrightarrow> heap_get h' i = heap_get h i \<and> \<not> heap_is_free h' i"
    "\<not> reach (hp_objs h) (set roots) i \<Longrightarrow> heap_is_free h' i" for i
    using heap_gc_correct [OF inv gc(1)] gc(2) by auto
  have lr: "live_class h' c \<longleftrightarrow> reach (hp_objs h) (set roots) c \<and> live_class h c" "live_class h' c \<Longrightarrow> heap_class h' c = heap_class h c" for c
  proof -
    have "reach (hp_objs h) (set roots) c \<Longrightarrow> \<not> heap_is_free h c" using gc(1) by (simp add: closed_def heap_is_free_def)
    then show "live_class h' c \<longleftrightarrow> reach (hp_objs h) (set roots) c \<and> live_class h c"
      using g [of c] by (cases "reach (hp_objs h) (set roots) c") (auto simp: live_class_def heap_class_def heap_kind_def)
    show "live_class h' c \<Longrightarrow> heap_class h' c = heap_class h c"
      using g [of c] by (cases "reach (hp_objs h) (set roots) c") (auto simp: live_class_def heap_class_def heap_kind_def)
  qed
  have b: "live_class h' l" if "live_class h' c" "heap_class h c = Some cd" "l \<in> class_links cd" "live_class h l" for c cd l
  proof -
    have "heap_get h c \<noteq> None" "ho_kind (hp_objs h ! unat c) = K_Class cd"
      using that(2) by (auto simp: heap_class_def heap_kind_def heap_get_def split: option.splits obj_kind.splits if_splits)
    moreover have "l \<in> set (class_refs cd)" using that(3) by (auto simp: class_links_def class_refs_def opt_refs_def)
    ultimately have "l \<in> set (obj_refs (hp_objs h ! unat c))" by (simp add: obj_refs_def)
    then show ?thesis using lr(1) that by (auto intro: reach_step)
  qed
  have "hp_method_serial h' = hp_method_serial h"
    using gc(2) by (auto simp: heap_gc_def heap_sweep_def Let_def split: option.splits prod.splits)
  then show ?thesis using cl lr b by (intro keeps_classesI) auto
qed

end
