(* ===== verification/ClassChain.thy ===== *)
theory ClassChain
  imports ClassCache
begin

text \<open>
  The superclass chain as a list: every lookup is a search of that list, so it ends; \<open>include_module\<close> puts include
  classes into it; and a module that includes itself has a module chain without an end.
\<close>

section \<open>Chains\<close>

inductive chain :: "heap \<Rightarrow> obj_id option \<Rightarrow> obj_id list \<Rightarrow> bool" for h where
  chain_end: "chain h None []"
| chain_step: "heap_class h x = Some cd \<Longrightarrow> chain h (cl_superclass cd) xs \<Longrightarrow> chain h (Some x) (x # xs)"

inductive_simps chain_None [simp]: "chain h None xs"
inductive_simps chain_Some: "chain h (Some x) xs"

lemma chain_fun: "chain h c xs \<Longrightarrow> chain h c ys \<Longrightarrow> xs = ys"
  by (induction arbitrary: ys rule: chain.induct) (simp, metis chain_Some option.inject)

definition class_graph_ok :: "heap \<Rightarrow> bool" where
  "class_graph_ok h \<longleftrightarrow> heap_inv h \<and> classes_closed h \<and> (\<forall>c. live_class h c \<longrightarrow> (\<exists>xs. chain h (Some c) xs))"

lemma chain_live: "chain h c xs \<Longrightarrow> classes_closed h \<Longrightarrow> (\<And>x. c = Some x \<Longrightarrow> live_class h x) \<Longrightarrow> x \<in> set xs \<Longrightarrow> live_class h x"
proof (induction rule: chain.induct)
  case (chain_step y cd xs)
  have "live_class h z" if "cl_superclass cd = Some z" for z
    using classes_closedD(1) [OF chain_step.prems(1) chain_step.prems(2) chain_step.hyps(1) that] by simp
  then show ?case using chain_step by auto
qed simp

section \<open>Lookup along a chain\<close>

text \<open>The methods of one link of the chain: a class that has an origin has none of its own.\<close>

definition own_methods :: "heap \<Rightarrow> obj_id \<Rightarrow> (sym \<times> rmethod) list" where
  "own_methods h x = (case heap_class h x of
      None \<Rightarrow> []
    | Some cd \<Rightarrow> if cl_origin cd \<noteq> None then []
        else (case Option.bind (table_owner h x) (heap_class h) of None \<Rightarrow> [] | Some td \<Rightarrow> cl_methods td))"

fun first_method :: "heap \<Rightarrow> obj_id list \<Rightarrow> sym \<Rightarrow> (rmethod \<times> obj_id) option" where
  "first_method h [] mid = None"
| "first_method h (x # xs) mid = (case map_of (own_methods h x) mid of Some m \<Rightarrow> Some (m, x) | None \<Rightarrow> first_method h xs mid)"

lemma table_owner_live:
  assumes "classes_closed h" "live_class h x"
  shows "\<exists>t td. table_owner h x = Some t \<and> heap_class h t = Some td \<and> live_class h t"
proof -
  obtain cd where cd: "heap_class h x = Some cd" using assms(2) by (auto simp: live_class_def)
  show ?thesis
  proof (cases "cl_iclass_of cd")
    case None
    then show ?thesis using cd assms(2) by (simp add: table_owner_def)
  next
    case (Some m)
    have m: "live_class h m" by (rule classes_closedD(2) [OF assms cd Some])
    then obtain md where md: "heap_class h m = Some md" by (auto simp: live_class_def)
    then have "def_target h m = Some (case cl_origin md of Some o' \<Rightarrow> o' | None \<Rightarrow> m)" by (simp add: def_target_def)
    moreover have "live_class h (case cl_origin md of Some o' \<Rightarrow> o' | None \<Rightarrow> m)"
      using m classes_closedD(3) [OF assms(1) m md] by (auto split: option.split)
    ultimately show ?thesis using cd Some by (auto simp: table_owner_def live_class_def)
  qed
qed

lemma find_method_walk_chain:
  assumes "chain h c xs" "classes_closed h" "\<And>x. c = Some x \<Longrightarrow> live_class h x"
  shows "find_method_walk h c mid = Some (first_method h xs mid)"
  using assms
proof (induction rule: chain.induct)
  case chain_end
  then show ?case by (simp add: find_method_walk.simps)
next
  case (chain_step x cd xs)
  have x: "live_class h x" using chain_step.prems(2) by simp
  obtain t td where t: "table_owner h x = Some t" "heap_class h t = Some td"
    using table_owner_live [OF chain_step.prems(1) x] by blast
  have "find_method_walk h (cl_superclass cd) mid = Some (first_method h xs mid)"
    using chain_step.IH chain_step.prems(1) classes_closedD(1) [OF chain_step.prems(1) x chain_step.hyps(1)] by blast
  then show ?case using chain_step.hyps(1) t
    by (simp add: find_method_walk.simps [of h "Some x" mid] own_methods_def split: option.split)
qed

lemma lookup_is_search:
  assumes "class_graph_ok h" "live_class h c"
  shows "\<exists>xs. chain h (Some c) xs \<and> find_method_entry h c mid = Some (first_method h xs mid) \<and>
    (\<exists>r. resolve h c mid = Some r)"
proof -
  have ok: "classes_closed h" using assms(1) by (simp add: class_graph_ok_def)
  obtain xs where xs: "chain h (Some c) xs" using assms by (auto simp: class_graph_ok_def)
  have f: "find_method_entry h c mid = Some (first_method h xs mid)"
    unfolding find_method_entry_def using xs ok assms(2) by (intro find_method_walk_chain) auto
  have l: "first_method h ys mid = Some (m, x) \<Longrightarrow> x \<in> set ys" for ys m x
    by (induction ys) (auto split: option.splits)
  have "live_class h x" if "first_method h xs mid = Some (m, x)" for m x
    using chain_live [OF xs ok] l [OF that] assms(2) by auto
  then have "\<exists>v. vis_of_found h x mid = Some v" if "first_method h xs mid = Some (m, x)" for m x
    using table_owner_live [OF ok, of x] that by (fastforce simp: vis_of_found_def)
  then have "\<exists>r. resolve h c mid = Some r"
    using f by (cases "first_method h xs mid") (auto simp: resolve_def find_method_ref_def split: option.splits)
  with xs f show ?thesis by blast
qed

section \<open>A new include class in the chain\<close>

definition put_after :: "obj_id \<Rightarrow> obj_id list \<Rightarrow> obj_id list \<Rightarrow> obj_id list" where
  "put_after at ics xs = concat (map (\<lambda>x. if x = at then at # ics else [x]) xs)"

lemma put_after_simps [simp]: "put_after at ics [] = []" "put_after at ics (x # xs) = (if x = at then at # ics else [x]) @ put_after at ics xs"
  by (simp_all add: put_after_def)

lemma put_after_none [simp]: "put_after at [] xs = xs"
  by (induction xs) auto

lemma put_after_put_after: "ic \<notin> set xs \<Longrightarrow> at \<noteq> ic \<Longrightarrow> put_after ic ics (put_after at [ic] xs) = put_after at (ic # ics) xs"
  by (induction xs) auto

lemma set_put_after: "set (put_after at ics xs) = set xs \<union> (if at \<in> set xs then set ics else {})"
  by (induction xs) auto

text \<open>The modules the include classes of a chain stand for.\<close>

definition iclass_at :: "heap \<Rightarrow> obj_id \<Rightarrow> obj_id option" where
  "iclass_at h x = Option.bind (heap_class h x) cl_iclass_of"

definition incs :: "heap \<Rightarrow> obj_id list \<Rightarrow> obj_id set" where
  "incs h xs = {m. \<exists>x \<in> set xs. iclass_at h x = Some m}"

lemma included_walk_chain: "chain h c xs \<Longrightarrow> included_walk h c m = Some (m \<in> incs h xs)"
proof (induction rule: chain.induct)
  case chain_end
  then show ?case by (simp add: included_walk.simps incs_def)
next
  case (chain_step x cd xs)
  have "incs h (x # xs) = set_option (cl_iclass_of cd) \<union> incs h xs" using chain_step.hyps(1) by (auto simp: incs_def iclass_at_def)
  then show ?case using chain_step by (simp add: included_walk.simps [of h "Some x" m])
qed

lemma put_iclass_spec:
  assumes g: "class_graph_ok h" and at: "live_class h at" and m: "live_class h m" and r: "length (hp_objs h) < B32"
  shows "\<exists>h' ic. put_iclass co h at m = Some (h', ic) \<and> class_graph_ok h' \<and> \<not> live_class h ic \<and> live_class h' ic \<and>
    length (hp_objs h') \<le> Suc (length (hp_objs h)) \<and>
    (\<exists>cd. heap_class h' ic = Some cd \<and> cl_iclass_of cd = Some m) \<and>
    (\<forall>c. live_class h c \<longrightarrow> live_class h' c \<and> (\<exists>cd cd'. heap_class h c = Some cd \<and> heap_class h' c = Some cd' \<and>
       cd'\<lparr>cl_superclass := cl_superclass cd\<rparr> = cd)) \<and>
    (\<forall>c xs. live_class h c \<longrightarrow> chain h (Some c) xs \<longrightarrow> chain h' (Some c) (put_after at [ic] xs))"
proof -
  have ok: "heap_inv h" "classes_closed h" using g by (simp_all add: class_graph_ok_def)
  obtain cd where cd: "heap_class h at = Some cd" using at by (auto simp: live_class_def)
  let ?k = "K_Class (iclass_data (cl_superclass cd) m)"
  obtain h1 ic where a: "heap_alloc h (co_class co) ?k = (h1, ic)" by fastforce
  note f = heap_alloc_fresh [OF ok(1) r a]
  have ic: "\<not> live_class h ic" using f(1) by (simp add: live_class_def)
  have c1: "heap_class h1 c = (if c = ic then Some (iclass_data (cl_superclass cd) m) else heap_class h c)" if "c = ic \<or> live_class h c" for c
    using that f(2) f(4) [of c] ic by (auto simp: heap_class_def heap_kind_def new_object_def live_class_def)
  have "at \<noteq> ic" using at ic by blast
  then have "heap_class h1 at = Some cd" using c1 [of at] at cd by simp
  then obtain h' where h': "heap_class_mut h1 at (\<lambda>cd. cd\<lparr>cl_superclass := Some ic\<rparr>) = Some h'"
    "h' = heap_update (h1\<lparr>hp_method_serial := hp_method_serial h1 + 1\<rparr>) at (\<lambda>x. x\<lparr>ho_kind := K_Class (cd\<lparr>cl_superclass := Some ic\<rparr>)\<rparr>)"
    by (simp add: heap_class_mut_def)
  have p: "put_iclass co h at m = Some (h', ic)" using cd a h'(1) by (simp add: put_iclass_def superclass_of_def)
  have at1: "heap_get h1 at \<noteq> None" using \<open>heap_class h1 at = Some cd\<close> by (auto simp: heap_class_def heap_kind_def split: option.splits)
  have get: "heap_get (h1\<lparr>hp_method_serial := n\<rparr>) c = heap_get h1 c" for n c by (simp add: heap_get_def)
  have free': "heap_is_free h' c = heap_is_free h1 c" for c by (simp add: h'(2) heap_is_free_def heap_update_def)
  have cls': "heap_class h' c = (if c = at then Some (cd\<lparr>cl_superclass := Some ic\<rparr>) else heap_class h1 c)" for c
    using at1 by (auto simp: h'(2) heap_class_def heap_kind_def heap_get_update get)
  have live': "live_class h' c \<longleftrightarrow> c = ic \<or> live_class h c" for c
  proof -
    have fr: "heap_is_free h' c \<longleftrightarrow> c \<noteq> ic \<and> heap_is_free h c" using free' alloc_free [OF ok(1) r a] by simp
    show ?thesis
    proof (cases "c = ic \<or> heap_is_free h c")
      case True
      then show ?thesis using fr cls' [of ic] c1 [of ic] \<open>at \<noteq> ic\<close> by (auto simp: live_class_def)
    next
      case False
      then have "heap_class h1 c = heap_class h c" using f(4) [of c] by (simp add: heap_class_def heap_kind_def)
      then show ?thesis using False fr cls' [of c] cd by (cases "c = at") (simp_all add: live_class_def)
    qed
  qed
  have old: "\<exists>cd0 cd'. heap_class h c = Some cd0 \<and> heap_class h' c = Some cd' \<and> cd'\<lparr>cl_superclass := cl_superclass cd0\<rparr> = cd0"
    if "live_class h c" for c
    using that cls' [of c] c1 [of c] cd ic by (auto simp: live_class_def)
  have inv: "heap_inv h'"
  proof -
    have "heap_inv (h1\<lparr>hp_method_serial := n\<rparr>)" for n using f(5) by (simp add: heap_inv_def heap_is_free_def)
    then show ?thesis unfolding h'(2) by (simp add: heap_inv_def heap_update_def heap_is_free_def)
  qed
  have cdic: "heap_class h' ic = Some (iclass_data (cl_superclass cd) m)" using cls' [of ic] c1 [of ic] \<open>at \<noteq> ic\<close> by simp
  have ch: "chain h' c (put_after at [ic] xs)" if "chain h c xs" "\<And>x. c = Some x \<Longrightarrow> live_class h x" for c xs
    using that
  proof (induction rule: chain.induct)
    case (chain_step x xd xs)
    have x: "live_class h x" using chain_step.prems by simp
    have t: "chain h' (cl_superclass xd) (put_after at [ic] xs)"
      using chain_step.IH classes_closedD(1) [OF ok(2) x chain_step.hyps(1)] by blast
    show ?case
    proof (cases "x = at")
      case True
      then have "xd = cd" using chain_step.hyps(1) cd by simp
      have "chain h' (Some ic) (ic # put_after at [ic] xs)"
        using t by (intro chain.chain_step [OF cdic]) (simp add: iclass_data_def \<open>xd = cd\<close>)
      then have "chain h' (Some at) (at # ic # put_after at [ic] xs)" by (intro chain.chain_step [where cd = "cd\<lparr>cl_superclass := Some ic\<rparr>"]) (simp_all add: cls')
      then show ?thesis using True by simp
    next
      case False
      then have "heap_class h' x = Some xd" using cls' [of x] c1 [of x] x ic chain_step.hyps(1) by auto
      then show ?thesis using False t by (auto intro: chain.chain_step)
    qed
  qed simp
  have "classes_closed h'" unfolding classes_closed_def
  proof (intro allI impI ballI)
    fix c xd l assume a: "live_class h' c" "heap_class h' c = Some xd" "l \<in> class_links xd"
    show "live_class h' l"
    proof (cases "c = ic")
      case True
      then have "l \<in> set_option (cl_superclass cd) \<union> {m}" using a cdic by (auto simp: class_links_def iclass_data_def class_default_def)
      then show ?thesis using classes_closedD(1) [OF ok(2) at cd] m live' by auto
    next
      case False
      then have "live_class h c" using a(1) live' by simp
      then obtain c0 where c0: "heap_class h c = Some c0" "xd\<lparr>cl_superclass := cl_superclass c0\<rparr> = c0" "xd = c0 \<or> cl_superclass xd = Some ic"
        using old [of c] a(2) cls' [of c] c1 [of c] False cd by (auto split: if_splits)
      then have "l \<in> class_links c0 \<or> l = ic" using a(3) unfolding class_links_def by (metis (no_types, lifting) Un_iff class_data.ext_inject class_data.surjective class_data.update_convs(2) option.set_sel option.set_cases option.inject)
      then show ?thesis using ok(2) \<open>live_class h c\<close> c0(1) live' by (auto simp: classes_closed_def)
    qed
  qed
  moreover have "\<exists>xs. chain h' (Some c) xs" if "live_class h' c" for c
  proof (cases "c = ic")
    case True
    obtain xs where "chain h (Some at) (at # xs)" "chain h (cl_superclass cd) xs"
      using g at cd by (fastforce simp: class_graph_ok_def chain_Some)
    then have "chain h' (cl_superclass cd) (put_after at [ic] xs)" using ch classes_closedD(1) [OF ok(2) at cd] by blast
    then have "chain h' (Some ic) (ic # put_after at [ic] xs)" by (intro chain.chain_step [OF cdic]) (simp add: iclass_data_def)
    with True show ?thesis by blast
  next
    case False
    then show ?thesis using that live' [of c] ch g by (auto simp: class_graph_ok_def) blast
  qed
  ultimately have "class_graph_ok h'" using inv by (simp add: class_graph_ok_def)
  moreover have "length (hp_objs h') \<le> Suc (length (hp_objs h))"
    using a by (auto simp: h'(2) heap_update_def heap_alloc_def Let_def split: if_splits)
  ultimately show ?thesis using p ic live' cdic old ch by (auto simp: iclass_data_def)
qed

section \<open>Including a module\<close>

text \<open>What \<open>include\<close> leaves alone: every class keeps its tables, links and names, only superclasses change.\<close>

definition same_tables :: "heap \<Rightarrow> heap \<Rightarrow> bool" where
  "same_tables h h' \<longleftrightarrow> (\<forall>c. live_class h c \<longrightarrow> live_class h' c \<and> (\<exists>cd cd'. heap_class h c = Some cd \<and>
     heap_class h' c = Some cd' \<and> cd'\<lparr>cl_superclass := cl_superclass cd\<rparr> = cd))"

lemma same_tables_refl: "same_tables h h"
  by (auto simp: same_tables_def live_class_def)

lemma superclass_other: "cd'\<lparr>cl_superclass := s\<rparr> = cd \<Longrightarrow> cl_iclass_of cd' = cl_iclass_of cd \<and> cl_origin cd' = cl_origin cd \<and>
    cl_methods cd' = cl_methods cd \<and> cl_origin_of cd' = cl_origin_of cd \<and> cl_vis cd' = cl_vis cd"
  by (drule sym) simp

lemma same_tables_trans:
  assumes "same_tables h h1" "same_tables h1 h2"
  shows "same_tables h h2"
  unfolding same_tables_def
proof (intro allI impI)
  fix c assume "live_class h c"
  then obtain a b where ab: "live_class h1 c" "heap_class h c = Some a" "heap_class h1 c = Some b" "b\<lparr>cl_superclass := cl_superclass a\<rparr> = a"
    using assms(1) unfolding same_tables_def by blast
  then obtain d where d: "live_class h2 c" "heap_class h2 c = Some d" "d\<lparr>cl_superclass := cl_superclass b\<rparr> = b"
    using assms(2) unfolding same_tables_def by force
  have "d\<lparr>cl_superclass := cl_superclass a\<rparr> = (d\<lparr>cl_superclass := cl_superclass b\<rparr>)\<lparr>cl_superclass := cl_superclass a\<rparr>" by simp
  also have "\<dots> = a" using ab(4) d(3) by simp
  finally show "live_class h2 c \<and> (\<exists>cd cd'. heap_class h c = Some cd \<and> heap_class h2 c = Some cd' \<and> cd'\<lparr>cl_superclass := cl_superclass cd\<rparr> = cd)"
    using ab d by blast
qed

lemma iclass_at_same: "same_tables h h' \<Longrightarrow> live_class h x \<Longrightarrow> iclass_at h' x = iclass_at h x"
proof -
  assume "same_tables h h'" "live_class h x"
  then obtain cd cd' where "heap_class h x = Some cd" "heap_class h' x = Some cd'" "cd'\<lparr>cl_superclass := cl_superclass cd\<rparr> = cd"
    unfolding same_tables_def by blast
  with superclass_other [OF this(3)] show ?thesis by (simp add: iclass_at_def)
qed

lemma incs_same_tables: "same_tables h h' \<Longrightarrow> \<forall>x \<in> set xs. live_class h x \<Longrightarrow> incs h' xs = incs h xs"
  by (auto simp: incs_def iclass_at_same)

lemma include_all_spec:
  assumes "class_graph_ok h" "live_class h cls" "chain h (Some cls) (cls # xs)" "at \<in> set (cls # xs)" "distinct mods"
    "\<forall>m \<in> set mods. live_class h m" "length (hp_objs h) + length mods \<le> B32"
  shows "\<exists>h' ics. include_all co cls mods at h = Some h' \<and> class_graph_ok h' \<and> same_tables h h' \<and>
    (\<forall>c ys. live_class h c \<longrightarrow> chain h (Some c) ys \<longrightarrow> chain h' (Some c) (put_after at ics ys)) \<and>
    map (iclass_at h') ics = map Some (filter (\<lambda>m. m \<notin> incs h xs) mods) \<and> (\<forall>ic \<in> set ics. \<not> live_class h ic \<and> live_class h' ic)"
  using assms
proof (induction mods arbitrary: h at xs)
  case Nil
  then show ?case by (intro exI [of _ h] exI [of _ "[]"]) (simp add: same_tables_refl)
next
  case (Cons m ms)
  have cl: "classes_closed h" using Cons.prems(1) by (simp add: class_graph_ok_def)
  obtain cd where cd: "heap_class h cls = Some cd" "chain h (cl_superclass cd) xs" using Cons.prems(3) by (auto simp: chain_Some)
  have inc: "included_walk h (cl_superclass cd) m = Some (m \<in> incs h xs)" by (rule included_walk_chain [OF cd(2)])
  have lxs: "\<forall>x \<in> set (cls # xs). live_class h x"
    using chain_live [OF Cons.prems(3) cl] Cons.prems(2) by blast
  show ?case
  proof (cases "m \<in> incs h xs")
    case True
    have "distinct ms" "\<forall>m \<in> set ms. live_class h m" "length (hp_objs h) + length ms \<le> B32" using Cons.prems by simp_all
    from Cons.IH [OF Cons.prems(1-4) this] True cd(1) inc show ?thesis by (simp add: superclass_of_def)
  next
    case False
    have "live_class h at" "live_class h m" "length (hp_objs h) < B32" using Cons.prems lxs by auto
    from put_iclass_spec [OF Cons.prems(1) this, of co] obtain h1 ic where p: "put_iclass co h at m = Some (h1, ic)"
      "class_graph_ok h1" "\<not> live_class h ic" "live_class h1 ic" "length (hp_objs h1) \<le> Suc (length (hp_objs h))"
      "\<exists>cd. heap_class h1 ic = Some cd \<and> cl_iclass_of cd = Some m" "same_tables h h1"
      "\<forall>c xs. live_class h c \<longrightarrow> chain h (Some c) xs \<longrightarrow> chain h1 (Some c) (put_after at [ic] xs)"
      unfolding same_tables_def by blast
    have at: "at \<noteq> ic" "ic \<notin> set (cls # xs)" using p(3) \<open>live_class h at\<close> lxs by blast+
    obtain ys where ys: "put_after at [ic] (cls # xs) = cls # ys" "set ys = insert ic (set xs)"
      using Cons.prems(4) by (cases "at = cls") (auto simp: set_put_after)
    have ch: "chain h1 (Some cls) (cls # ys)" using p(8) Cons.prems(2,3) ys(1) by metis
    have live1: "\<And>c. live_class h c \<Longrightarrow> live_class h1 c" using p(7) by (simp add: same_tables_def)
    have "length (hp_objs h1) + length ms \<le> B32" "\<forall>m \<in> set ms. live_class h1 m" "distinct ms" "ic \<in> set (cls # ys)"
      using Cons.prems(5-7) p(5) live1 ys(2) by auto
    from Cons.IH [OF p(2) live1 [OF Cons.prems(2)] ch this(4,3,2,1)]
    obtain h' ics where h': "include_all co cls ms ic h1 = Some h'" "class_graph_ok h'" "same_tables h1 h'"
      "\<forall>c ys. live_class h1 c \<longrightarrow> chain h1 (Some c) ys \<longrightarrow> chain h' (Some c) (put_after ic ics ys)"
      "map (iclass_at h') ics = map Some (filter (\<lambda>m. m \<notin> incs h1 ys) ms)"
      "\<forall>ic \<in> set ics. \<not> live_class h1 ic \<and> live_class h' ic" by blast
    have "chain h' (Some c) (put_after at (ic # ics) zs)" if z: "live_class h c" "chain h (Some c) zs" for c zs
    proof -
      have "ic \<notin> set zs" using chain_live [OF z(2) cl] z(1) p(3) by blast
      then show ?thesis using h'(4) live1 [OF z(1)] p(8) z put_after_put_after [OF _ at(1)] by metis
    qed
    moreover have i1: "iclass_at h1 ic = Some m" using p(6) by (auto simp: iclass_at_def)
    then have "iclass_at h' ic = Some m" using iclass_at_same [OF h'(3) p(4)] by simp
    moreover have "incs h1 ys = insert m (incs h xs)"
    proof -
      have "incs h1 ys = incs h1 (ic # xs)" using ys(2) by (simp add: incs_def)
      also have "\<dots> = insert m (incs h1 xs)" using i1 by (auto simp: incs_def)
      finally show ?thesis using incs_same_tables [OF p(7), of xs] lxs by simp
    qed
    then have "filter (\<lambda>m. m \<notin> incs h1 ys) ms = filter (\<lambda>m. m \<notin> incs h xs) ms"
      using Cons.prems(5) by (auto intro!: filter_cong)
    moreover have "include_all co cls (m # ms) at h = Some h'"
      using cd(1) inc False p(1) h'(1) by (simp add: superclass_of_def)
    moreover have "\<forall>i \<in> set (ic # ics). \<not> live_class h i \<and> live_class h' i"
      using h'(3,6) p(3,4) live1 by (auto simp: same_tables_def)
    ultimately show ?thesis using h'(2,5) False same_tables_trans [OF p(7) h'(3)]
      by (intro exI [of _ h'] exI [of _ "ic # ics"]) simp
  qed
qed

section \<open>A module that includes itself\<close>

lemma module_walk_cyclic:
  assumes m: "heap_class h m = Some md" "cl_iclass_of md = None" "cl_superclass md = Some ic"
    and ic: "heap_class h ic = Some icd" "cl_iclass_of icd = Some m"
  shows "module_walk h module (Some m) out = None" "module_walk h module (Some ic) out = None"
proof -
  have "False" if w: "module_walk h module c out = Some r" "c = Some m \<or> c = Some ic" for module c out r
  proof -
    have "h = h \<longrightarrow> c = Some m \<or> c = Some ic \<longrightarrow> False"
    proof (rule module_walk.raw_induct [OF _ w(1), where P = "\<lambda>g module c out r. g = h \<longrightarrow> c = Some m \<or> c = Some ic \<longrightarrow> False"],
        intro impI, goal_cases)
      case (1 walk g module c out r)
      have IH: "walk h module' (Some m) out' \<noteq> Some r'" "walk h module' (Some ic) out' \<noteq> Some r'" for module' out' r'
        using 1(1) by blast+
      from 1(2,4) show ?case unfolding 1(3)
        by (elim disjE) (auto simp: m ic bind_eq_Some_conv IH)
    qed
    with w(2) show False by blast
  qed
  then show "module_walk h module (Some m) out = None" "module_walk h module (Some ic) out = None" by (metis option.exhaust)+
qed

section \<open>An example of a graph\<close>

text \<open>Class \<open>0\<close> and module \<open>1\<close>, which has method \<open>7\<close>.\<close>

definition two_classes :: heap where
  "two_classes = heap_new\<lparr>hp_objs := [new_object 0 (K_Class class_default),
     new_object 0 (K_Class (class_default\<lparr>cl_is_module := True, cl_methods := [(7, M_Native 1 0)]\<rparr>))], hp_flags := [0, 0]\<rparr>"

lemma two_classes_lookup: "heap_class two_classes 0 = Some class_default"
  "heap_class two_classes 1 = Some (class_default\<lparr>cl_is_module := True, cl_methods := [(7, M_Native 1 0)]\<rparr>)"
  by (simp_all add: two_classes_def heap_class_def heap_kind_def heap_get_def heap_new_def new_object_def)

lemma two_classes_live: "live_class two_classes c \<longleftrightarrow> c = 0 \<or> c = 1"
proof -
  have "heap_class two_classes c = None" if "\<not> (c = 0 \<or> c = 1)"
  proof -
    have "unat c \<noteq> 0" "unat c \<noteq> 1" using that by (auto simp: word_unat_eq_iff)
    then show ?thesis by (simp add: two_classes_def heap_class_def heap_kind_def heap_get_def heap_new_def)
  qed
  moreover have "\<not> heap_is_free two_classes 0" "\<not> heap_is_free two_classes 1"
    by (simp_all add: two_classes_def heap_is_free_def slot_free_def heap_new_def)
  ultimately show ?thesis using two_classes_lookup by (cases "c = 0 \<or> c = 1") (auto simp: live_class_def)
qed

lemma two_classes_graph: "class_graph_ok two_classes"
proof -
  have "heap_inv two_classes"
  proof -
    have "\<not> (unat i < 2 \<and> heap_is_free two_classes i)" for i
      by (auto simp: two_classes_def heap_is_free_def slot_free_def heap_new_def dest!: less_2_cases)
    then show ?thesis by (simp add: heap_inv_def) (simp add: two_classes_def heap_new_def B32_def)
  qed
  moreover have "classes_closed two_classes"
    by (auto simp: classes_closed_def two_classes_live two_classes_lookup class_links_def class_default_def)
  moreover have "chain two_classes (Some 0) [0]" "chain two_classes (Some 1) [1]"
    by (auto intro!: chain.intros two_classes_lookup simp: class_default_def)
  ultimately show ?thesis by (auto simp: class_graph_ok_def two_classes_live)
qed

end
