(* ===== verification/ClassHistory.thy ===== *)
theory ClassHistory
  imports ClassCache
begin

text \<open>
  What can happen to the classes, the method cache and the operator guards of a running VM, as a step relation, and
  that in every state it leads to a cached lookup is the walk and a guard says whether the builtin is still there.
\<close>

section \<open>Histories\<close>

type_synonym dispatch = "heap \<times> cache_line list \<times> op_guards"

text \<open>The fixed names: \<open>[]\<close>, \<open>[]=\<close>, \<open>==\<close>, \<open>eql?\<close>.\<close>

record op_names =
  on_aref :: sym
  on_aset :: sym
  on_eq :: sym
  on_eql :: sym

definition serial_room :: "heap \<Rightarrow> bool" where
  "serial_room h \<longleftrightarrow> unat (hp_method_serial h) + 2 < 2 ^ 64"

inductive history :: "core \<Rightarrow> op_names \<Rightarrow> dispatch \<Rightarrow> bool" for co on where
  boot: "idx_op_init co (on_aref on) (on_aset on) h g0 = Some g1 \<Longrightarrow> eq_op_init co (on_eq on) (on_eql on) h g1 = Some g \<Longrightarrow>
    classes_closed h \<Longrightarrow> hp_method_serial h \<noteq> 0 \<Longrightarrow> serial_room h \<Longrightarrow>
    history co on (h, replicate METHOD_CACHE_LEN line_default, g)"
| look_up: "history co on (h, ls, g) \<Longrightarrow> find_method_cached_vis h ls c mid = Some (ls', r) \<Longrightarrow> history co on (h, ls', g)"
| index_op: "history co on (h, ls, g) \<Longrightarrow> idx_armed co (on_aref on) (on_aset on) h g slot c = Some (g', b) \<Longrightarrow>
    history co on (h, ls, g')"
| equal_op: "history co on (h, ls, g) \<Longrightarrow> eq_builtin_p co (on_eq on) h g v = Some (g', b) \<Longrightarrow> history co on (h, ls, g')"
| class_change: "history co on (h, ls, g) \<Longrightarrow> heap_class_mut h t f = Some h' \<Longrightarrow> classes_closed h' \<Longrightarrow> serial_room h \<Longrightarrow>
    history co on (h', ls, g)"
| new_class: "history co on (h, ls, g) \<Longrightarrow> heap_alloc h c (K_Class cd) = (h', i) \<Longrightarrow> classes_closed h' \<Longrightarrow> serial_room h \<Longrightarrow>
    history co on (h', ls, g)"
| new_object: "history co on (h, ls, g) \<Longrightarrow> heap_alloc h c k = (h', i) \<Longrightarrow> \<not> is_class_kind k \<Longrightarrow> heap_inv h \<Longrightarrow>
    length (hp_objs h) < B32 \<Longrightarrow> history co on (h', ls, g)"
| write_object: "history co on (h, ls, g) \<Longrightarrow> (\<And>x. heap_get h i = Some x \<Longrightarrow>
      ho_kind (f x) = ho_kind x \<or> \<not> is_class_kind (ho_kind x) \<and> \<not> is_class_kind (ho_kind (f x))) \<Longrightarrow>
    history co on (heap_update h i f, ls, g)"
| collect: "history co on (h, ls, g) \<Longrightarrow> heap_inv h \<Longrightarrow> closed (hp_objs h) (hp_flags h) (set roots) \<Longrightarrow>
    heap_gc h roots = Some (h', n) \<Longrightarrow> history co on (h', ls, g)"

section \<open>The invariant\<close>

definition line_ok :: "heap \<Rightarrow> cache_line \<Rightarrow> bool" where
  "line_ok h l \<longleftrightarrow> lines.current h (ln_serial l) (ln_class l, ln_mid l) (ln_found l, ln_vis l)"

definition idx_class_of :: "core \<Rightarrow> nat \<Rightarrow> nat option \<Rightarrow> nat option \<Rightarrow> obj_id option" where
  "idx_class_of co slot b n = (if b \<noteq> None \<and> n = b then Some (idx_slot_class co slot) else None)"

definition idx_key :: "core \<Rightarrow> op_names \<Rightarrow> nat \<Rightarrow> obj_id \<times> sym" where
  "idx_key co on slot = (idx_slot_class co slot, idx_slot_mid (on_aref on) (on_aset on) slot)"

definition idx_ok :: "core \<Rightarrow> op_names \<Rightarrow> heap \<Rightarrow> op_guards \<Rightarrow> bool" where
  "idx_ok co on h g \<longleftrightarrow> length (og_idx_class g) = IDX_SLOTS \<and> length (og_idx_builtin g) = IDX_SLOTS \<and>
     (\<forall>slot < IDX_SLOTS. og_idx_builtin g ! slot = None \<and> og_idx_class g ! slot = None \<or>
       (\<exists>n. guards.current h (og_idx_serial g) (idx_key co on slot) n \<and>
         og_idx_class g ! slot = idx_class_of co slot (og_idx_builtin g ! slot) n))"

definition eq_ok :: "core \<Rightarrow> op_names \<Rightarrow> heap \<Rightarrow> op_guards \<Rightarrow> bool" where
  "eq_ok co on h g \<longleftrightarrow> length (og_eq_builtin g) = 6 \<and> (og_eq_serial g = - 1 \<or>
     (\<exists>ns. length ns = 6 \<and> (\<forall>j < 6. guards.current h (og_eq_serial g) (eq_classes co ! j, on_eq on) (ns ! j)) \<and>
       og_eq_plain g = eq_bits (zip (og_eq_builtin g) ns) 0))"

definition dispatch_ok :: "core \<Rightarrow> op_names \<Rightarrow> dispatch \<Rightarrow> bool" where
  "dispatch_ok co on st = (case st of (h, ls, g) \<Rightarrow>
     classes_closed h \<and> hp_method_serial h \<noteq> 0 \<and> unat (hp_method_serial h) + 1 < 2 ^ 64 \<and>
     length ls = METHOD_CACHE_LEN \<and> (\<forall>l \<in> set ls. line_ok h l) \<and> idx_ok co on h g \<and> eq_ok co on h g)"

lemma idx_ok_mono:
  assumes "idx_ok co on h g" "\<And>n k v. guards.current h n k v \<Longrightarrow> guards.current h' n k v"
  shows "idx_ok co on h' g"
  using assms unfolding idx_ok_def by blast

lemma eq_ok_mono:
  assumes "eq_ok co on h g" "\<And>n k v. guards.current h n k v \<Longrightarrow> guards.current h' n k v"
  shows "eq_ok co on h' g"
  using assms unfolding eq_ok_def by blast

lemma dispatch_keeps:
  assumes "dispatch_ok co on (h, ls, g)" "keeps_classes h h'"
  shows "dispatch_ok co on (h', ls, g)"
  using assms(1) keeps_live(2) [OF assms(2)] idx_ok_mono [of co on h g h'] eq_ok_mono [of co on h g h']
    guards.current_keeps [OF _ assms(2)] lines.current_keeps [OF _ assms(2)] assms(2)
  unfolding dispatch_ok_def line_ok_def keeps_classes_def by auto

lemma dispatch_bump:
  assumes "dispatch_ok co on (h, ls, g)" "hp_method_serial h' = hp_method_serial h + 1" "classes_closed h'" "serial_room h"
  shows "dispatch_ok co on (h', ls, g)"
proof -
  have s: "unat (hp_method_serial h) + 2 < 2 ^ 64" using assms(4) by (simp add: serial_room_def)
  then have u: "unat (hp_method_serial h') = unat (hp_method_serial h) + 1"
    unfolding assms(2) by (subst unat_add_lem [THEN iffD1]) simp_all
  have b: "hp_method_serial h < hp_method_serial h'" "hp_method_serial h' \<noteq> 0" "unat (hp_method_serial h') + 1 < 2 ^ 64"
    using u s by (auto simp: word_less_nat_alt)
  show ?thesis
    using assms(1,3) b(2,3) idx_ok_mono [of co on h g h'] eq_ok_mono [of co on h g h']
      guards.current_bump [OF _ b(1)] lines.current_bump [OF _ b(1)]
    unfolding dispatch_ok_def line_ok_def by auto
qed

lemma not_last: "unat (n :: u64) + 1 < 2 ^ 64 \<Longrightarrow> n \<noteq> - 1"
  by (auto simp: unsigned_minus_1_eq_mask mask_eq_exp_minus_1)

section \<open>The cache\<close>

lemma dispatch_lookup:
  assumes "dispatch_ok co on (h, ls, g)" "find_method_cached_vis h ls c mid = Some (ls', r)"
  shows "dispatch_ok co on (h, ls', g)" "live_class h c \<Longrightarrow> resolve h c mid = Some r"
proof -
  let ?i = "cache_slot c mid"
  have i: "?i < length ls" using assms(2) by (auto simp: find_method_cached_vis_def Let_def split: if_splits)
  then have l: "line_ok h (ls ! ?i)" using assms(1) by (simp add: dispatch_ok_def)
  let ?hit = "ln_serial (ls ! ?i) = hp_method_serial h \<and> ln_class (ls ! ?i) = c \<and> ln_mid (ls ! ?i) = mid"
  have "dispatch_ok co on (h, ls', g) \<and> (live_class h c \<longrightarrow> resolve h c mid = Some r)"
  proof (cases ?hit)
    case True
    then have "ls' = ls" "r = (ln_found (ls ! ?i), ln_vis (ls ! ?i))"
      using assms(2) i by (auto simp: find_method_cached_vis_def Let_def)
    with l True assms(1) show ?thesis by (auto simp: line_ok_def lines.current_def)
  next
    case False
    then obtain found v where r: "resolve h c mid = Some (found, v)" "r = (found, v)"
      "ls' = ls[?i := \<lparr>ln_serial = hp_method_serial h, ln_class = c, ln_mid = mid, ln_found = found, ln_vis = v\<rparr>]"
      using assms(2) i by (auto simp: find_method_cached_vis_def Let_def bind_eq_Some_conv split: if_splits)
    have "line_ok h x" if "x \<in> set ls'" for x
    proof -
      have "x \<in> set ls \<or> x = \<lparr>ln_serial = hp_method_serial h, ln_class = c, ln_mid = mid, ln_found = found, ln_vis = v\<rparr>"
        using set_update_subset_insert [of ls ?i] that unfolding r(3) by blast
      then show ?thesis using assms(1) r(1) by (auto simp: dispatch_ok_def line_ok_def lines.current_def)
    qed
    with assms(1) r show ?thesis by (auto simp: dispatch_ok_def)
  qed
  then show "dispatch_ok co on (h, ls', g)" "live_class h c \<Longrightarrow> resolve h c mid = Some r" by simp_all
qed

lemma cached_answers:
  assumes "dispatch_ok co on (h, ls, g)" "live_class h c" "resolve h c mid = Some r"
  shows "\<exists>ls'. find_method_cached_vis h ls c mid = Some (ls', r)"
proof -
  have i: "cache_slot c mid < METHOD_CACHE_LEN"
  proof -
    have "unat (x AND (of_nat (METHOD_CACHE_LEN - 1) :: u64)) \<le> unat (of_nat (METHOD_CACHE_LEN - 1) :: u64)" for x
      by (simp add: word_and_le1 flip: word_le_nat_alt)
    moreover have "unat (of_nat (METHOD_CACHE_LEN - 1) :: u64) < METHOD_CACHE_LEN" by (simp add: METHOD_CACHE_LEN_def)
    ultimately show ?thesis unfolding cache_slot_def using le_less_trans by blast
  qed
  have ls: "length ls = METHOD_CACHE_LEN" using assms(1) by (simp add: dispatch_ok_def)
  have "find_method_cached_vis h ls c mid \<noteq> None"
    using i ls assms(3) by (cases r) (simp add: find_method_cached_vis_def Let_def)
  then obtain ls' r' where f: "find_method_cached_vis h ls c mid = Some (ls', r')" by (metis option.exhaust prod.exhaust)
  with dispatch_lookup(2) [OF assms(1) f assms(2)] assms(3) show ?thesis by simp
qed

section \<open>The guards\<close>

lemma all_some_nth:
  assumes "all_some xs = Some ys"
  shows "length ys = length xs" "i < length xs \<Longrightarrow> xs ! i = Some (ys ! i)"
proof -
  have "length ys = length xs \<and> (\<forall>i < length xs. xs ! i = Some (ys ! i))"
    using assms by (induction xs arbitrary: ys) (auto simp: bind_eq_Some_conv less_Suc_eq_0_disj)
  then show "length ys = length xs" "i < length xs \<Longrightarrow> xs ! i = Some (ys ! i)" by simp_all
qed

lemma all_some_total: "\<forall>x \<in> set xs. x \<noteq> None \<Longrightarrow> \<exists>ys. all_some xs = Some ys"
  by (induction xs) auto

lemma idx_sync_ok:
  assumes "idx_sync co (on_aref on) (on_aset on) h g = Some g'" "length (og_idx_builtin g) = IDX_SLOTS"
  shows "idx_ok co on h g'" "og_idx_serial g' = hp_method_serial h" "og_idx_builtin g' = og_idx_builtin g"
    "eq_ok co on h g' = eq_ok co on h g"
proof -
  let ?f = "\<lambda>slot. case og_idx_builtin g ! slot of
          None \<Rightarrow> Some None
        | Some builtin \<Rightarrow> map_option
            (\<lambda>n. if n = Some builtin then Some (idx_slot_class co slot) else None)
            (native_at h (idx_slot_class co slot) (idx_slot_mid (on_aref on) (on_aset on) slot))"
  obtain cs where cs: "all_some (map ?f [0..<IDX_SLOTS]) = Some cs"
    "g' = g\<lparr>og_idx_serial := hp_method_serial h, og_idx_class := cs\<rparr>"
    using assms(1) by (auto simp: idx_sync_def bind_eq_Some_conv)
  note c = all_some_nth [OF cs(1)]
  have n: "?f slot = Some (cs ! slot)" if "slot < IDX_SLOTS" for slot
  proof -
    have u: "[0..<IDX_SLOTS] ! slot = slot" "slot < length [0..<IDX_SLOTS]" using that by simp_all
    have "map ?f [0..<IDX_SLOTS] ! slot = ?f slot" by (simp only: nth_map [OF u(2)] u(1))
    then show ?thesis using c(2) [of slot] that by (metis length_map length_upt minus_nat.diff_0)
  qed
  show "idx_ok co on h g'" unfolding idx_ok_def
  proof (intro conjI allI impI)
    fix slot assume s: "slot < IDX_SLOTS"
    show "og_idx_builtin g' ! slot = None \<and> og_idx_class g' ! slot = None \<or>
       (\<exists>n. guards.current h (og_idx_serial g') (idx_key co on slot) n \<and>
         og_idx_class g' ! slot = idx_class_of co slot (og_idx_builtin g' ! slot) n)"
    proof (cases "og_idx_builtin g ! slot")
      case None
      then show ?thesis using n [OF s] by (simp add: cs(2))
    next
      case (Some b)
      then obtain m where "native_at h (idx_slot_class co slot) (idx_slot_mid (on_aref on) (on_aset on) slot) = Some m"
        "cs ! slot = idx_class_of co slot (Some b) m" using n [OF s] by (auto simp: idx_class_of_def)
      then show ?thesis using Some by (auto simp: cs(2) idx_key_def guards.current_def)
    qed
  qed (use c(1) assms(2) in \<open>simp_all add: cs(2)\<close>)
qed (use assms(1) in \<open>auto simp: idx_sync_def bind_eq_Some_conv eq_ok_def\<close>)

lemma dispatch_index:
  assumes d: "dispatch_ok co on (h, ls, g)" and a: "idx_armed co (on_aref on) (on_aset on) h g slot c = Some (g', b)"
  shows "dispatch_ok co on (h, ls, g')" "og_idx_builtin g' = og_idx_builtin g"
    "slot < IDX_SLOTS \<Longrightarrow> live_class h (idx_slot_class co slot) \<Longrightarrow> og_idx_builtin g ! slot = Some f \<Longrightarrow>
      \<exists>n. native_at h (idx_slot_class co slot) (idx_slot_mid (on_aref on) (on_aset on) slot) = Some n \<and>
        (b \<longleftrightarrow> c = idx_slot_class co slot \<and> n = Some f)"
    "slot < IDX_SLOTS \<Longrightarrow> og_idx_builtin g ! slot = None \<Longrightarrow> \<not> b"
proof -
  have l: "length (og_idx_builtin g) = IDX_SLOTS" "idx_ok co on h g" using d by (simp_all add: dispatch_ok_def idx_ok_def)
  obtain r: "og_idx_serial g' = hp_method_serial h" "idx_ok co on h g'" "og_idx_builtin g' = og_idx_builtin g"
    "eq_ok co on h g' = eq_ok co on h g"
  proof (cases "og_idx_serial g = hp_method_serial h")
    case True
    then have "g' = g" using a by (auto simp: idx_armed_def split: if_splits)
    with True l(2) show ?thesis by (intro that) simp_all
  next
    case False
    then obtain g1 where "idx_sync co (on_aref on) (on_aset on) h g = Some g1" "g' = g1"
      using a by (auto simp: idx_armed_def bind_eq_Some_conv split: if_splits)
    with idx_sync_ok [OF this(1) l(1)] show ?thesis by (intro that) simp_all
  qed
  show "dispatch_ok co on (h, ls, g')" using d r by (simp add: dispatch_ok_def)
  show "og_idx_builtin g' = og_idx_builtin g" by (rule r(3))
  have b: "b \<longleftrightarrow> og_idx_class g' ! slot = Some c" using a by (auto simp: idx_armed_def bind_eq_Some_conv split: if_splits)
  show "\<exists>n. native_at h (idx_slot_class co slot) (idx_slot_mid (on_aref on) (on_aset on) slot) = Some n \<and>
      (b \<longleftrightarrow> c = idx_slot_class co slot \<and> n = Some f)"
    if "slot < IDX_SLOTS" "live_class h (idx_slot_class co slot)" "og_idx_builtin g ! slot = Some f"
  proof -
    note slot = that
    obtain n where "guards.current h (og_idx_serial g') (idx_key co on slot) n"
      "og_idx_class g' ! slot = idx_class_of co slot (Some f) n"
      using r(2,3) slot(1,3) unfolding idx_ok_def by force
    then show ?thesis using slot(2) r(1) b by (auto simp: guards.current_def idx_key_def idx_class_of_def)
  qed
  show "slot < IDX_SLOTS \<Longrightarrow> og_idx_builtin g ! slot = None \<Longrightarrow> \<not> b"
    using r(2,3) b unfolding idx_ok_def by (force simp: idx_class_of_def)
qed

lemma eq_sync_ok:
  assumes "eq_sync co (on_eq on) h g = Some g'" "length (og_eq_builtin g) = 6"
  shows "eq_ok co on h g'" "og_eq_serial g' = hp_method_serial h" "og_eq_builtin g' = og_eq_builtin g"
    "idx_ok co on h g' = idx_ok co on h g"
proof -
  obtain ns where ns: "all_some (map (\<lambda>c. native_at h c (on_eq on)) (eq_classes co)) = Some ns"
    "g' = g\<lparr>og_eq_serial := hp_method_serial h, og_eq_plain := eq_bits (zip (og_eq_builtin g) ns) 0\<rparr>"
    using assms(1) by (auto simp: eq_sync_def bind_eq_Some_conv)
  have l: "length (eq_classes co) = 6" by (simp add: eq_classes_def)
  have n: "length ns = 6" "j < 6 \<Longrightarrow> native_at h (eq_classes co ! j) (on_eq on) = Some (ns ! j)" for j
    using all_some_nth [OF ns(1)] by (simp_all add: l)
  show "eq_ok co on h g'" unfolding eq_ok_def ns(2) using assms(2) n by (auto simp: guards.current_def)
  show "og_eq_serial g' = hp_method_serial h" "og_eq_builtin g' = og_eq_builtin g" "idx_ok co on h g' = idx_ok co on h g"
    by (simp_all add: ns(2) idx_ok_def)
qed

lemma eq_bits_below: "j < k \<Longrightarrow> \<not> bit (eq_bits ps k) j"
  by (induction ps arbitrary: k) (auto simp: bit_simps split: if_splits)

lemma bit_eq_bits:
  assumes "length ps \<le> 8 - j" "j \<le> i" "i < 8"
  shows "bit (eq_bits ps j) i \<longleftrightarrow> i - j < length ps \<and> fst (ps ! (i - j)) \<noteq> None \<and> snd (ps ! (i - j)) = fst (ps ! (i - j))"
  using assms
proof (induction ps arbitrary: j)
  case (Cons p ps)
  obtain b n where p: "p = (b, n)" by (cases p)
  show ?case
  proof (cases "i = j")
    case True
    then show ?thesis using Cons.prems p eq_bits_below [of j "Suc j" ps] by (auto simp: bit_simps)
  next
    case False
    then have "i - j = Suc (i - Suc j)" using Cons.prems by simp
    then show ?thesis using False Cons.IH [of "Suc j"] Cons.prems p by (auto simp: bit_simps)
  qed
qed simp

lemma eq_slot_less: "eq_slot v = Some i \<Longrightarrow> i < 6"
  by (cases v) (auto simp: eq_slot_def)

lemma dispatch_equal:
  assumes d: "dispatch_ok co on (h, ls, g)" and a: "eq_builtin_p co (on_eq on) h g v = Some (g', b)"
  shows "dispatch_ok co on (h, ls, g')" "og_eq_builtin g' = og_eq_builtin g"
    "eq_slot v = Some i \<Longrightarrow> live_class h (eq_classes co ! i) \<Longrightarrow>
      \<exists>n. native_at h (eq_classes co ! i) (on_eq on) = Some n \<and> (b \<longleftrightarrow> og_eq_builtin g ! i \<noteq> None \<and> n = og_eq_builtin g ! i)"
    "eq_slot v = None \<Longrightarrow> \<not> b"
proof -
  have l: "length (og_eq_builtin g) = 6" "eq_ok co on h g" "unat (hp_method_serial h) + 1 < 2 ^ 64"
    using d by (simp_all add: dispatch_ok_def eq_ok_def)
  have main: "dispatch_ok co on (h, ls, g') \<and> og_eq_builtin g' = og_eq_builtin g \<and>
    (live_class h (eq_classes co ! i) \<longrightarrow> (\<exists>n. native_at h (eq_classes co ! i) (on_eq on) = Some n \<and>
      (b \<longleftrightarrow> og_eq_builtin g ! i \<noteq> None \<and> n = og_eq_builtin g ! i)))" if i: "eq_slot v = Some i" for i
  proof -
    obtain r: "og_eq_serial g' = hp_method_serial h" "eq_ok co on h g'" "og_eq_builtin g' = og_eq_builtin g"
      "idx_ok co on h g' = idx_ok co on h g" "b \<longleftrightarrow> og_eq_plain g' AND push_bit i 1 \<noteq> 0"
    proof (cases "og_eq_serial g = hp_method_serial h")
      case True
      then have "g' = g" "b \<longleftrightarrow> og_eq_plain g' AND push_bit i 1 \<noteq> 0" using a i by (auto simp: eq_builtin_p_def)
      with True l(2) show ?thesis by (intro that) simp_all
    next
      case False
      then have "eq_sync co (on_eq on) h g = Some g'" "b \<longleftrightarrow> og_eq_plain g' AND push_bit i 1 \<noteq> 0"
        using a i by (auto simp: eq_builtin_p_def bind_eq_Some_conv)
      with eq_sync_ok [OF this(1) l(1)] show ?thesis by (intro that) simp_all
    qed
    obtain ns where ns: "length ns = 6" "\<forall>j < 6. guards.current h (og_eq_serial g') (eq_classes co ! j, on_eq on) (ns ! j)"
      "og_eq_plain g' = eq_bits (zip (og_eq_builtin g') ns) 0"
      using r(1,2) not_last [OF l(3)] by (auto simp: eq_ok_def)
    have i6: "i < 6" by (rule eq_slot_less [OF i])
    have "b \<longleftrightarrow> og_eq_builtin g ! i \<noteq> None \<and> ns ! i = og_eq_builtin g ! i"
      unfolding r(5) ns(3) using i6 ns(1) l(1) bit_eq_bits [of "zip (og_eq_builtin g') ns" 0 i]
      by (simp add: r(3) flip: bit_iff_and_push_bit_not_eq_0 del: push_bit_of_1)
    moreover have "live_class h (eq_classes co ! i) \<Longrightarrow> native_at h (eq_classes co ! i) (on_eq on) = Some (ns ! i)"
      using ns(2) i6 r(1) by (auto simp: guards.current_def)
    ultimately show ?thesis using d r by (auto simp: dispatch_ok_def)
  qed
  show "dispatch_ok co on (h, ls, g')" using main d a by (cases "eq_slot v") (auto simp: eq_builtin_p_def)
  show "og_eq_builtin g' = og_eq_builtin g" using main a by (cases "eq_slot v") (auto simp: eq_builtin_p_def)
  show "eq_slot v = Some i \<Longrightarrow> live_class h (eq_classes co ! i) \<Longrightarrow>
      \<exists>n. native_at h (eq_classes co ! i) (on_eq on) = Some n \<and> (b \<longleftrightarrow> og_eq_builtin g ! i \<noteq> None \<and> n = og_eq_builtin g ! i)"
    using main by blast
  show "eq_slot v = None \<Longrightarrow> \<not> b" using a by (auto simp: eq_builtin_p_def)
qed

section \<open>Every history keeps the invariant\<close>

lemma idx_op_init_ok:
  assumes "idx_op_init co (on_aref on) (on_aset on) h g0 = Some g1"
  shows "idx_ok co on h g1"
proof -
  obtain bs where bs: "all_some (map (\<lambda>slot. native_at h (idx_slot_class co slot) (idx_slot_mid (on_aref on) (on_aset on) slot))
      [0..<IDX_SLOTS]) = Some bs" "idx_sync co (on_aref on) (on_aset on) h (g0\<lparr>og_idx_builtin := bs\<rparr>) = Some g1"
    using assms by (auto simp: idx_op_init_def bind_eq_Some_conv)
  show ?thesis using all_some_nth(1) [OF bs(1)] by (intro idx_sync_ok(1) [OF bs(2)]) simp
qed

lemma history_ok: "history co on st \<Longrightarrow> dispatch_ok co on st"
proof (induction rule: history.induct)
  case (boot h g0 g1 g)
  have e: "idx_ok co on h g" "eq_ok co on h g"
  proof -
    obtain bs b where bs: "all_some (map (\<lambda>c. native_at h c (on_eq on)) (eq_classes co)) = Some bs"
      "g = g1\<lparr>og_eq_builtin := bs, og_eq_serial := - 1, og_eql_basic := b\<rparr>"
      using boot(2) by (auto simp: eq_op_init_def bind_eq_Some_conv)
    have "length bs = 6" using all_some_nth(1) [OF bs(1)] by (simp add: eq_classes_def)
    then show "idx_ok co on h g" "eq_ok co on h g"
      using idx_op_init_ok [OF boot(1)] by (simp_all add: bs(2) idx_ok_def eq_ok_def)
  qed
  have "0 < hp_method_serial h" using boot(4) by (simp add: word_neq_0_conv)
  then have "line_ok h line_default" using boot(4) by (simp add: line_ok_def lines.current_def line_default_def)
  then show ?case using boot(3-5) e by (auto simp: dispatch_ok_def serial_room_def)
next
  case (look_up h ls g c mid ls' r)
  then show ?case using dispatch_lookup(1) by blast
next
  case (index_op h ls g slot c g' b)
  then show ?case using dispatch_index(1) by blast
next
  case (equal_op h ls g v g' b)
  then show ?case using dispatch_equal(1) by blast
next
  case (class_change h ls g t f h')
  then show ?case using dispatch_bump class_mut_serial by blast
next
  case (new_class h ls g c cd h' i)
  then show ?case using dispatch_bump alloc_serial [OF new_class(2)] by simp
next
  case (new_object h ls g c k h' i)
  then have "classes_closed h" by (simp add: dispatch_ok_def)
  then show ?case using dispatch_keeps alloc_keeps_classes new_object by blast
next
  case (write_object h ls g i f)
  then have "classes_closed h" by (simp add: dispatch_ok_def)
  then show ?case using dispatch_keeps [OF write_object(3)] update_keeps_classes write_object(2) by blast
next
  case (collect h ls g roots h' n)
  then have "classes_closed h" by (simp add: dispatch_ok_def)
  then show ?case using dispatch_keeps gc_keeps_classes collect by blast
qed

lemma cached_is_resolve:
  assumes "dispatch_ok co on (h, ls, g)" "live_class h c"
  shows "map_option snd (find_method_cached_vis h ls c mid) = resolve h c mid"
proof (cases "find_method_cached_vis h ls c mid")
  case None
  then have "resolve h c mid = None" using cached_answers [OF assms, of mid] by (cases "resolve h c mid") auto
  with None show ?thesis by simp
next
  case (Some y)
  then show ?thesis using dispatch_lookup(2) [OF assms(1) _ assms(2), of mid "fst y" "snd y"] by simp
qed

section \<open>An example\<close>

text \<open>One class, \<open>0\<close>, of itself and of everything, with one native method, \<open>7\<close>.\<close>

definition one_class :: heap where
  "one_class = heap_new\<lparr>hp_objs := [new_object 0 (K_Class (class_default\<lparr>cl_methods := [(7, M_Native 1 0)]\<rparr>))], hp_flags := [0]\<rparr>"

definition one_core :: core where
  "one_core = \<lparr>co_basic_object = 0, co_object = 0, co_module = 0, co_class = 0, co_nil_class = 0, co_true_class = 0,
     co_false_class = 0, co_integer = 0, co_float = 0, co_symbol = 0, co_string = 0, co_array = 0, co_hash = 0\<rparr>"

definition one_names :: op_names where
  "one_names = \<lparr>on_aref = 7, on_aset = 7, on_eq = 7, on_eql = 7\<rparr>"

definition one_guards :: op_guards where
  "one_guards = \<lparr>og_idx_builtin = [Some 1, Some 1, Some 1, Some 1, Some 1, Some 1], og_idx_class = [Some 0, Some 0, Some 0, Some 0, Some 0, Some 0], og_idx_serial = 1,
     og_eq_builtin = [Some 1, Some 1, Some 1, Some 1, Some 1, Some 1], og_eq_plain = 0, og_eq_serial = - 1, og_eql_basic = Some 1\<rparr>"

lemma one_class_lookup: "heap_class one_class 0 = Some (class_default\<lparr>cl_methods := [(7, M_Native 1 0)]\<rparr>)" "hp_method_serial one_class = 1"
  "native_at one_class 0 7 = Some (Some 1)" "resolve one_class 0 7 = Some (Some (R_Native 1 0, 0), Public)"
proof -
  show c: "heap_class one_class 0 = Some (class_default\<lparr>cl_methods := [(7, M_Native 1 0)]\<rparr>)" "hp_method_serial one_class = 1"
    by (simp_all add: one_class_def heap_class_def heap_kind_def heap_get_def heap_new_def new_object_def)
  then have "find_method_ref one_class 0 7 = Some (Some (R_Native 1 0, 0))"
    unfolding find_method_ref_def find_method_entry_def
    by (subst find_method_walk.simps) (simp add: class_default_def table_owner_def)
  then show "native_at one_class 0 7 = Some (Some 1)" "resolve one_class 0 7 = Some (Some (R_Native 1 0, 0), Public)"
    using c by (simp_all add: native_at_def resolve_def vis_of_found_def table_owner_def class_default_def class_vis_def)
qed

lemma one_class_live: "live_class one_class c \<longleftrightarrow> c = 0" "classes_closed one_class"
proof -
  show l: "live_class one_class c \<longleftrightarrow> c = 0" for c
    using one_class_lookup(1) by (auto simp: live_class_def one_class_def heap_class_def heap_kind_def heap_get_def heap_is_free_def
        slot_free_def heap_new_def unat_eq_zero split: if_splits)
  show "classes_closed one_class"
    by (auto simp: classes_closed_def l one_class_lookup class_links_def class_default_def)
qed

lemma one_class_history: "history one_core one_names (one_class, replicate METHOD_CACHE_LEN line_default, one_guards)"
proof (rule boot)
  let ?g0 = "one_guards\<lparr>og_idx_builtin := [], og_idx_class := [], og_eq_builtin := []\<rparr>"
  have s: "[0..<IDX_SLOTS] = [0, 1, 2, 3, 4, 5]" by (simp add: IDX_SLOTS_def upt_rec)
  have c: "idx_slot_class one_core slot = 0" "idx_slot_mid 7 7 slot = 7" for slot
    by (simp_all add: idx_slot_class_def idx_slot_mid_def one_core_def)
  show "idx_op_init one_core (on_aref one_names) (on_aset one_names) one_class ?g0 = Some (one_guards\<lparr>og_eq_builtin := []\<rparr>)"
    by (simp add: idx_op_init_def idx_sync_def s c one_names_def one_class_lookup one_guards_def)
  have q: "eq_classes one_core = [0, 0, 0, 0, 0, 0]" "co_object one_core = 0" by (simp_all add: eq_classes_def one_core_def)
  show "eq_op_init one_core (on_eq one_names) (on_eql one_names) one_class (one_guards\<lparr>og_eq_builtin := []\<rparr>) = Some one_guards"
    by (simp add: eq_op_init_def q one_names_def one_class_lookup) (simp add: one_guards_def)
  show "classes_closed one_class" by (rule one_class_live)
  show "hp_method_serial one_class \<noteq> 0" "serial_room one_class" by (simp_all add: serial_room_def one_class_lookup)
qed

end
