(* ===== verification/HashTable.thy ===== *)
theory HashTable
  imports VmCore
begin

text \<open>
  The algorithm of \<open>src/hashtable.rs\<close> over a Hash on the heap, which sends \<open>hash\<close> and \<open>eql?\<close> between
  its steps: the modification check, \<open>h_code\<close>, \<open>mrb_eql\<close>, \<open>h_find\<close>, \<open>h_rebuild\<close>, \<open>h_set\<close>/\<open>ht_set\<close>,
  \<open>h_delete\<close>, \<open>h_shift\<close>, \<open>h_rehash\<close>. An effect that answers \<open>None\<close> does not return; the loops
  that only the program run can bound (\<open>h_rebuild\<close>, \<open>h_set\<close> calling \<open>ht_set\<close> calling \<open>h_set\<close>) are partial functions.
\<close>

section \<open>The table of an object\<close>

definition hd_of :: "'w hvm \<Rightarrow> obj_id \<Rightarrow> hash_data option" where
  "hd_of s ob = (case heap_kind (vm_heap s) ob of Some (K_Hash h) \<Rightarrow> Some h | _ \<Rightarrow> None)"

text \<open>A write through \<open>hd_mut\<close>.\<close>

definition hd_put :: "obj_id \<Rightarrow> hash_data \<Rightarrow> 'w hvm \<Rightarrow> 'w hvm" where
  "hd_put ob h s = vm_update ob (\<lambda>x. x\<lparr>ho_kind := K_Hash h\<rparr>) s"

definition hd_mod :: "obj_id \<Rightarrow> (hash_data \<Rightarrow> hash_data) \<Rightarrow> 'w hvm \<Rightarrow> 'w hvm" where
  "hd_mod ob f s = (case hd_of s ob of Some h \<Rightarrow> hd_put ob (f h) s | None \<Rightarrow> s)"

definition vtype :: "'w hvm \<Rightarrow> obj_id \<Rightarrow> u32" where
  "vtype s ob = (case heap_kind (vm_heap s) ob of
      Some K_Object \<Rightarrow> 8
    | Some (K_Class cd) \<Rightarrow> if cl_is_singleton cd then 11 else if cl_is_module cd then 10 else 9
    | Some (K_Hash _) \<Rightarrow> 12
    | Some K_Exception \<Rightarrow> 14
    | Some (K_Proc _) \<Rightarrow> 16
    | Some (K_Array _) \<Rightarrow> 17
    | Some (K_String _) \<Rightarrow> 18
    | Some (K_Range _ _ _) \<Rightarrow> 19
    | Some (K_Env _) \<Rightarrow> 20
    | Some (K_Fiber _) \<Rightarrow> 21
    | Some (K_Break _ _ _) \<Rightarrow> 24
    | Some (K_BigInt _) \<Rightarrow> 27
    | _ \<Rightarrow> 13)"

section \<open>The modification check\<close>

definition check_of :: "'w hvm \<Rightarrow> obj_id \<Rightarrow> hcheck option" where
  "check_of s ob = map_option h_check (hd_of s ob)"

definition hash_modified :: "'w ruby \<Rightarrow> ('w, 'a) eff" where
  "hash_modified rb = raise_exc rb (rb_c_runtime_error rb) (ascii ''hash modified'')"

definition h_verify :: "'w ruby \<Rightarrow> obj_id \<Rightarrow> hcheck option \<Rightarrow> ('w, unit) eff" where
  "h_verify rb ob before s = (case (before, check_of s ob) of
      (Some b, Some n) \<Rightarrow> if check_same b n then ret () s else hash_modified rb s
    | (None, None) \<Rightarrow> ret () s
    | _ \<Rightarrow> hash_modified rb s)"

definition h_check_vacated :: "'w ruby \<Rightarrow> obj_id \<Rightarrow> nat \<Rightarrow> rvalue \<Rightarrow> ('w, nat) eff" where
  "h_check_vacated rb ob slot stored s =
     (case Option.bind (hd_of s ob) (\<lambda>h. h_slot_holds h slot stored) of
        Some p \<Rightarrow> ret p s
      | None \<Rightarrow> hash_modified rb s)"

section \<open>Codes and comparisons\<close>

text \<open>What a \<open>hash\<close> method's answer counts as.\<close>

definition hash_answer :: "rvalue \<Rightarrow> u32" where
  "hash_answer r = (case r of VInt i \<Rightarrow> ucast i | VFloat f \<Rightarrow> ucast (f64_as_i64 f) | _ \<Rightarrow> 0)"

definition h_code :: "'w ruby \<Rightarrow> obj_id \<Rightarrow> rvalue \<Rightarrow> ('w, u32) eff" where
  "h_code rb ob key s = (case key of
      VNil \<Rightarrow> ret (mix 0) s
    | VFalse \<Rightarrow> ret (mix 2) s
    | VTrue \<Rightarrow> ret (mix 6) s
    | VInt i \<Rightarrow> ret (mix (ucast i)) s
    | VSym y \<Rightarrow> ret (mix y) s
    | VFloat f \<Rightarrow> ret (mix (float_code f)) s
    | VObj k \<Rightarrow> (case vm_string s k of
          Some b \<Rightarrow> ret (mix (byte_hash b)) s
        | None \<Rightarrow>
            let tt = vtype s k; before = check_of s ob
            in andthen (send rb key (rb_s_hash rb) [])
                 (\<lambda>r. andthen (h_verify rb ob before) (\<lambda>_. ret (mix (tt XOR hash_answer r)))) s))"

definition same_string :: "'w hvm \<Rightarrow> obj_id \<Rightarrow> rvalue \<Rightarrow> bool" where
  "same_string s x b = (case b of
      VObj y \<Rightarrow> vm_string s y \<noteq> None \<and> vm_string s x = vm_string s y
    | _ \<Rightarrow> False)"

definition mrb_eql_send :: "'w ruby \<Rightarrow> rvalue \<Rightarrow> rvalue \<Rightarrow> ('w, bool) eff" where
  "mrb_eql_send rb a b s =
     (let (s1, basic) = rb_basic_eql rb a s
      in if basic then ret (same_value s1 a b) s1
         else andthen (send rb a (rb_s_eql rb) [b]) (\<lambda>r. ret (truthy r)) s1)"

definition mrb_eql :: "'w ruby \<Rightarrow> rvalue \<Rightarrow> rvalue \<Rightarrow> ('w, bool) eff" where
  "mrb_eql rb a b s =
     (if same_word a b then ret True s
      else case a of
          VInt _ \<Rightarrow> ret (value_eq a b) s
        | VFloat _ \<Rightarrow> ret (value_eq a b) s
        | VObj x \<Rightarrow> if vm_string s x \<noteq> None then ret (same_string s x b) s else mrb_eql_send rb a b s
        | _ \<Rightarrow> mrb_eql_send rb a b s)"

definition h_obj_eql_ruby :: "'w ruby \<Rightarrow> obj_id \<Rightarrow> rvalue \<Rightarrow> rvalue \<Rightarrow> ('w, bool) eff" where
  "h_obj_eql_ruby rb ob a b s =
     (let before = check_of s ob
      in andthen (mrb_eql rb a b) (\<lambda>r. andthen (h_verify rb ob before) (\<lambda>_. ret r)) s)"

definition h_obj_eql :: "'w ruby \<Rightarrow> obj_id \<Rightarrow> rvalue \<Rightarrow> rvalue \<Rightarrow> ('w, bool) eff" where
  "h_obj_eql rb ob a b s = (case a of
      VSym _ \<Rightarrow> ret (value_eq a b) s
    | VInt _ \<Rightarrow> ret (value_eq a b) s
    | VFloat x \<Rightarrow> ret (case b of VFloat y \<Rightarrow> f64_eq x y \<or> (\<not> f64_eq x x \<and> x = y) | _ \<Rightarrow> False) s
    | VObj x \<Rightarrow> if vm_string s x \<noteq> None then ret (same_string s x b) s else h_obj_eql_ruby rb ob a b s
    | _ \<Rightarrow> h_obj_eql_ruby rb ob a b s)"

section \<open>The search\<close>

datatype found = At nat | Missing

definition h_find_native :: "'w hvm \<Rightarrow> obj_id \<Rightarrow> rvalue \<Rightarrow> found option" where
  "h_find_native s ob key =
     Option.bind (hd_of s ob) (\<lambda>h. map_option (\<lambda>r. case r of Some p \<Rightarrow> At p | None \<Rightarrow> Missing)
       (find_native (vm_string s) h key))"

definition h_compare :: "'w ruby \<Rightarrow> obj_id \<Rightarrow> rvalue \<Rightarrow> nat \<Rightarrow> ('w, nat option) eff" where
  "h_compare rb ob key p s = (case hd_of s ob of
      None \<Rightarrow> ret None s
    | Some h \<Rightarrow>
        if p < h_len h
        then let stored = fst (h_entries h ! p); slot = h_slot_at h p
             in andthen (h_obj_eql rb ob key stored) (\<lambda>eq.
                  if eq then andthen (h_check_vacated rb ob slot stored) (\<lambda>q. ret (Some q)) else ret None) s
        else ret None s)"

fun find_ar_loop :: "'w ruby \<Rightarrow> obj_id \<Rightarrow> rvalue \<Rightarrow> nat \<Rightarrow> nat \<Rightarrow> ('w, found) eff" where
  "find_ar_loop rb ob key 0 p s = ret Missing s"
| "find_ar_loop rb ob key (Suc left) p s = (case hd_of s ob of
      None \<Rightarrow> ret Missing s
    | Some h \<Rightarrow>
        if p < h_len h
        then let slot = h_slot_at h p
             in andthen (h_compare rb ob key p) (\<lambda>r s1. case r of
                    Some q \<Rightarrow> ret (At q) s1
                  | None \<Rightarrow> (case hd_of s1 ob of
                        Some h1 \<Rightarrow> find_ar_loop rb ob key left (h_slots_after h1 slot) s1
                      | None \<Rightarrow> ret Missing s1)) s
        else ret Missing s)"

text \<open>\<open>for n in 0..=mask\<close> from round \<open>n\<close>, \<open>k\<close> rounds left.\<close>

fun find_ht_loop :: "'w ruby \<Rightarrow> obj_id \<Rightarrow> rvalue \<Rightarrow> u32 \<Rightarrow> u32 \<Rightarrow> u32 \<Rightarrow> nat \<Rightarrow> ('w, found) eff" where
  "find_ht_loop rb ob key code msk n 0 s = ret Missing s"
| "find_ht_loop rb ob key code msk n (Suc k) s =
     (let v = (case hd_of s ob of Some h \<Rightarrow> h_bucket h (probe_at code n msk) | None \<Rightarrow> EMPTY)
      in if v = EMPTY then ret Missing s
         else if v = DELETED then find_ht_loop rb ob key code msk (n + 1) k s
         else andthen (h_compare rb ob key v) (\<lambda>r s1. case r of
                Some q \<Rightarrow> ret (At q) s1
              | None \<Rightarrow> find_ht_loop rb ob key code msk (n + 1) k s1) s)"

definition h_find :: "'w ruby \<Rightarrow> obj_id \<Rightarrow> rvalue \<Rightarrow> ('w, found) eff" where
  "h_find rb ob key s = (case h_find_native s ob key of
      Some f \<Rightarrow> ret f s
    | None \<Rightarrow> (case hd_of s ob of
          None \<Rightarrow> ret Missing s
        | Some h \<Rightarrow>
            if \<not> h_is_ht h then find_ar_loop rb ob key (h_len h) 0 s
            else andthen (h_code rb ob key) (\<lambda>code s1. case hd_of s1 ob of
                Some h1 \<Rightarrow> if h_is_ht h1
                           then find_ht_loop rb ob key code (h_mask h1) 0 (Suc (unat (h_mask h1))) s1
                           else ret Missing s1
              | None \<Rightarrow> ret Missing s1) s))"

section \<open>Rebuilding and storing\<close>

definition h_rebuild_native :: "obj_id \<Rightarrow> 'w hvm \<Rightarrow> 'w hvm \<times> bool" where
  "h_rebuild_native ob s = (case hd_of s ob of
      None \<Rightarrow> (s, True)
    | Some h \<Rightarrow> (case native_codes (vm_string s) h of
          None \<Rightarrow> (s, False)
        | Some cs \<Rightarrow> (hd_mod ob (\<lambda>h. place_all h 0 cs) s, True)))"

partial_function (option) rebuild_loop :: "'w ruby \<Rightarrow> obj_id \<Rightarrow> nat \<Rightarrow> ('w, unit) eff" where
  "rebuild_loop rb ob p s = (case Option.bind (hd_of s ob) (\<lambda>h. h_key_at h p) of
      None \<Rightarrow> ret () s
    | Some key \<Rightarrow> andthen (h_code rb ob key)
        (\<lambda>code s1. rebuild_loop rb ob (p + 1)
           (hd_mod ob (\<lambda>h. if p < h_len h then h_place h code p else h) s1)) s)"

definition h_rebuild :: "'w ruby \<Rightarrow> obj_id \<Rightarrow> nat \<Rightarrow> ('w, unit) eff" where
  "h_rebuild rb ob b s =
     (let s1 = hd_mod ob (\<lambda>h. h_set_n_used (ht_reset h b) (h_len h)) s;
          (s2, done) = h_rebuild_native ob s1
      in if done then ret () s2 else rebuild_loop rb ob 0 s2)"

definition h_key_for :: "'w ruby \<Rightarrow> rvalue \<Rightarrow> 'w hvm \<Rightarrow> 'w hvm \<times> rvalue" where
  "h_key_for rb k s = (case k of
      VObj ko \<Rightarrow> (case vm_string s ko of
          Some b \<Rightarrow>
            if frozen_at s ko then (s, k)
            else let (s1, n) = vm_alloc (rb_c_string rb) (K_String b) s
                 in (vm_update n (\<lambda>x. x\<lparr>ho_frozen := True\<rparr>) s1, VObj n)
        | None \<Rightarrow> (s, k))
    | _ \<Rightarrow> (s, k))"

text \<open>The end of \<open>ht_set\<close> at an empty bucket.\<close>

definition ht_store :: "'w ruby \<Rightarrow> obj_id \<Rightarrow> nat \<Rightarrow> rvalue \<Rightarrow> rvalue \<Rightarrow> ('w, unit) eff" where
  "ht_store rb ob b key val s =
     (if map_option h_n_used (hd_of s ob) = Some EA_MAX_CAPA then raise_arg rb (ascii ''hash too big'') s
      else let (s1, k) = h_key_for rb key s in ret () (hd_mod ob (\<lambda>h. h_ht_push h b k val) s1))"

fun set_ht_loop :: "'w ruby \<Rightarrow> obj_id \<Rightarrow> rvalue \<Rightarrow> rvalue \<Rightarrow> u32 \<Rightarrow> u32 \<Rightarrow> u32 \<Rightarrow> nat \<Rightarrow> ('w, unit) eff" where
  "set_ht_loop rb ob key val code msk n 0 s = ret () s"
| "set_ht_loop rb ob key val code msk n (Suc k) s =
     (let b = probe_at code n msk
      in case hd_of s ob of
          None \<Rightarrow> ret () s
        | Some h \<Rightarrow>
            let v = h_bucket h b
            in if v = DELETED then set_ht_loop rb ob key val code msk (n + 1) k s
               else if v = EMPTY then ht_store rb ob b key val s
               else andthen (h_compare rb ob key v) (\<lambda>r s1. case r of
                    Some p \<Rightarrow> ret () (hd_mod ob (\<lambda>h. h_set_value_at h p val) s1)
                  | None \<Rightarrow> set_ht_loop rb ob key val code msk (n + 1) k s1) s)"

text \<open>\<open>ht_set\<close> past its make-room step.\<close>

definition ht_set_fit :: "'w ruby \<Rightarrow> obj_id \<Rightarrow> rvalue \<Rightarrow> rvalue \<Rightarrow> ('w, unit) eff" where
  "ht_set_fit rb ob key val s =
     (case Option.bind (hd_of s ob) (\<lambda>h. probe_native (vm_string s) h key) of
        Some (Hit p) \<Rightarrow> ret () (hd_mod ob (\<lambda>h. h_set_value_at h p val) s)
      | Some (Vacant b) \<Rightarrow> ht_store rb ob b key val s
      | None \<Rightarrow> andthen (h_code rb ob key) (\<lambda>code s1. case hd_of s1 ob of
            Some h \<Rightarrow> if h_is_ht h then set_ht_loop rb ob key val code (h_mask h) 0 (Suc (unat (h_mask h))) s1
                      else ret () s1
          | None \<Rightarrow> ret () s1) s)"

text \<open>\<open>h_set\<close> (\<open>indexed\<close> false) and \<open>ht_set\<close> (true), which call each other.\<close>

partial_function (option) hset_rec :: "'w ruby \<Rightarrow> bool \<Rightarrow> obj_id \<Rightarrow> rvalue \<Rightarrow> rvalue \<Rightarrow> ('w, unit) eff" where
  "hset_rec rb indexed ob key val s = (case hd_of s ob of
      None \<Rightarrow> ret () s
    | Some h \<Rightarrow>
        if indexed
        then (case h_ht_make_room h of (h1, room) \<Rightarrow> (case room of
            Fits \<Rightarrow> ht_set_fit rb ob key val (hd_put ob h1 s)
          | Rebuild b \<Rightarrow> andthen (h_rebuild rb ob b) (\<lambda>_. ht_set_fit rb ob key val) (hd_put ob h1 s)
          | ToAr \<Rightarrow> hset_rec rb False ob key val (hd_put ob (h_to_ar h1) s)))
        else if h_is_ht h then hset_rec rb True ob key val s
        else andthen (h_find rb ob key) (\<lambda>f s1. case f of
            At p \<Rightarrow> ret () (hd_mod ob (\<lambda>h. h_set_value_at h p val) s1)
          | Missing \<Rightarrow>
              (case h_key_for rb key s1 of (s2, k) \<Rightarrow> (case hd_of s2 ob of
                  None \<Rightarrow> ret () s2
                | Some h2 \<Rightarrow> (case h_ar_make_room h2 of (h3, full) \<Rightarrow>
                      if full
                      then andthen (h_rebuild rb ob IB_INIT_BIT)
                          (\<lambda>_ s3. hset_rec rb True ob k val s3) (hd_put ob h3 s2)
                      else ret () (hd_put ob (h_ar_push h3 k val) s2))))) s)"

definition h_set :: "'w ruby \<Rightarrow> obj_id \<Rightarrow> rvalue \<Rightarrow> rvalue \<Rightarrow> ('w, unit) eff" where
  "h_set rb ob key val = hset_rec rb False ob key val"

definition ht_set :: "'w ruby \<Rightarrow> obj_id \<Rightarrow> rvalue \<Rightarrow> rvalue \<Rightarrow> ('w, unit) eff" where
  "ht_set rb ob key val = hset_rec rb True ob key val"

section \<open>Deletion\<close>

definition h_delete :: "'w ruby \<Rightarrow> obj_id \<Rightarrow> rvalue \<Rightarrow> ('w, rvalue option) eff" where
  "h_delete rb ob key = andthen (h_find rb ob key) (\<lambda>f s. case f of
      At p \<Rightarrow> (case hd_of s ob of
          Some h \<Rightarrow> (case h_remove_entry h p of (h1, _, v) \<Rightarrow> ret (Some v) (hd_put ob h1 s))
        | None \<Rightarrow> ret None s)
    | Missing \<Rightarrow> ret None s)"

definition h_shift :: "'w ruby \<Rightarrow> obj_id \<Rightarrow> ('w, (rvalue \<times> rvalue) option) eff" where
  "h_shift rb ob s = (case hd_of s ob of
      None \<Rightarrow> ret None s
    | Some h \<Rightarrow>
        if h_is_empty h then ret None s
        else andthen (if h_is_ht h then andthen (h_code rb ob (fst (h_entries h ! 0))) (\<lambda>_. ret ()) else ret ())
          (\<lambda>_ s1. case hd_of s1 ob of
              None \<Rightarrow> ret None s1
            | Some h1 \<Rightarrow>
                if h_is_empty h1 then ret None s1
                else (case h_remove_entry h1 0 of (h2, e) \<Rightarrow> ret (Some e) (hd_put ob h2 s1))) s)"

section \<open>Rehashing\<close>

text \<open>What the scan for a duplicate ends with: the earlier entry, or the bucket to take.\<close>

datatype dup = Dup nat | Free nat

fun rehash_ht_loop :: "'w ruby \<Rightarrow> obj_id \<Rightarrow> rvalue \<Rightarrow> u32 \<Rightarrow> u32 \<Rightarrow> u32 \<Rightarrow> nat \<Rightarrow> ('w, dup) eff" where
  "rehash_ht_loop rb ob key code msk n 0 s = ret (Free 0) s"
| "rehash_ht_loop rb ob key code msk n (Suc k) s =
     (let b = probe_at code n msk; v = (case hd_of s ob of Some h \<Rightarrow> h_bucket h b | None \<Rightarrow> EMPTY)
      in if v = EMPTY \<or> v = DELETED then ret (Free b) s
         else andthen (h_compare rb ob key v) (\<lambda>r s1. case r of
                Some p \<Rightarrow> ret (Dup p) s1
              | None \<Rightarrow> rehash_ht_loop rb ob key code msk (n + 1) k s1) s)"

text \<open>\<open>for j in 0..w\<close> from \<open>j\<close>, \<open>k\<close> rounds left.\<close>

fun rehash_ar_loop :: "'w ruby \<Rightarrow> obj_id \<Rightarrow> rvalue \<Rightarrow> nat \<Rightarrow> nat \<Rightarrow> ('w, dup) eff" where
  "rehash_ar_loop rb ob key j 0 s = ret (Free 0) s"
| "rehash_ar_loop rb ob key j (Suc k) s = andthen (h_compare rb ob key j) (\<lambda>r s1. case r of
      Some p \<Rightarrow> ret (Dup p) s1
    | None \<Rightarrow> rehash_ar_loop rb ob key (j + 1) k s1) s"

definition rehash_dup :: "'w ruby \<Rightarrow> obj_id \<Rightarrow> bool \<Rightarrow> nat \<Rightarrow> rvalue \<Rightarrow> ('w, dup) eff" where
  "rehash_dup rb ob ht w key =
     (if ht
      then andthen (h_code rb ob key) (\<lambda>code s.
             let msk = (case hd_of s ob of Some h \<Rightarrow> h_mask h | None \<Rightarrow> 0)
             in rehash_ht_loop rb ob key code msk 0 (Suc (unat msk)) s)
      else rehash_ar_loop rb ob key 0 w)"

text \<open>Entry \<open>r\<close> gives its value to entry \<open>p\<close>; entry \<open>r\<close> moves down to \<open>w\<close>, bucket \<open>b\<close>.\<close>

definition rehash_join :: "nat \<Rightarrow> nat \<Rightarrow> hash_data \<Rightarrow> hash_data" where
  "rehash_join p r h = fst (h_remove_entry (h_set_value_at h p (snd (h_entries h ! r))) r)"

definition rehash_move :: "bool \<Rightarrow> nat \<Rightarrow> nat \<Rightarrow> nat \<Rightarrow> hash_data \<Rightarrow> hash_data" where
  "rehash_move ht b w r h =
     (let h1 = (if r \<noteq> w then (case h_remove_entry h r of (h', e) \<Rightarrow> h_reinsert h' w e) else h);
          h2 = h_set_slot h1 w w
      in if ht then h_set_bucket h2 b w else h2)"

text \<open>\<open>while left > 0\<close>, entry \<open>w\<close> the next one to move.\<close>

fun rehash_loop :: "'w ruby \<Rightarrow> obj_id \<Rightarrow> bool \<Rightarrow> nat \<Rightarrow> nat \<Rightarrow> ('w, unit) eff" where
  "rehash_loop rb ob ht w 0 s = ret () s"
| "rehash_loop rb ob ht w (Suc left) s = (case hd_of s ob of
      None \<Rightarrow> ret () s
    | Some h \<Rightarrow>
        if w < h_len h
        then let key = fst (h_entries h ! w); slot = h_slot_at h w
             in andthen (rehash_dup rb ob ht w key) (\<lambda>d. andthen (h_check_vacated rb ob slot key) (\<lambda>r s1. case d of
                    Dup p \<Rightarrow> rehash_loop rb ob ht w left (hd_mod ob (rehash_join p r) s1)
                  | Free b \<Rightarrow> rehash_loop rb ob ht (w + 1) left (hd_mod ob (rehash_move ht b w r) s1))) s
        else ret () s)"

definition h_rehash :: "'w ruby \<Rightarrow> obj_id \<Rightarrow> ('w, unit) eff" where
  "h_rehash rb ob s = (case hd_of s ob of
      None \<Rightarrow> ret () s
    | Some h \<Rightarrow>
        if h_len h = 0 then ret () (hd_put ob (h_clear h) s)
        else let len = h_len h;
                 h1 = (if h_is_ht h \<and> len \<le> AR_MAX_SIZE then h_to_ar h else h);
                 ht = h_is_ht h1; capa = h_ea_capa h1;
                 h2 = (if ht then h_set_n_used (ht_reset h1 (ib_bit_for (of_nat len))) 0 else h1)
             in andthen (rehash_loop rb ob ht 0 len) (\<lambda>_ s1. ret () (hd_mod ob (\<lambda>h.
                  let sz = h_len h; h3 = h_set_n_used h sz
                  in if ht \<and> sz \<le> AR_MAX_SIZE then h_to_ar h3 else h_adjust_ea h3 sz capa) s1)) (hd_put ob h2 s))"

text \<open>\<open>H_EACH\<close>'s step: the entry after slot \<open>after\<close>.\<close>

definition h_next :: "'w hvm \<Rightarrow> obj_id \<Rightarrow> nat option \<Rightarrow> nat option" where
  "h_next s ob after = Option.bind (hd_of s ob) (\<lambda>h.
     let p = (case after of Some sl \<Rightarrow> h_slots_after h sl | None \<Rightarrow> 0)
     in if p < h_len h then Some p else None)"

section \<open>The calls of the VM\<close>

text \<open>\<open>h.obj().filter(hd is some)\<close>\<close>

definition hash_obj :: "'w hvm \<Rightarrow> rvalue \<Rightarrow> obj_id option" where
  "hash_obj s v = (case v of VObj i \<Rightarrow> if hd_of s i \<noteq> None then Some i else None | _ \<Rightarrow> None)"

definition hash_index :: "'w ruby \<Rightarrow> rvalue \<Rightarrow> rvalue \<Rightarrow> ('w, nat option) eff" where
  "hash_index rb v k s = (case hash_obj s v of
      None \<Rightarrow> ret None s
    | Some ob \<Rightarrow> andthen (h_find rb ob k) (\<lambda>f. ret (case f of At p \<Rightarrow> Some p | Missing \<Rightarrow> None)) s)"

definition hash_get :: "'w ruby \<Rightarrow> rvalue \<Rightarrow> rvalue \<Rightarrow> ('w, rvalue option) eff" where
  "hash_get rb v k s = (case hash_obj s v of
      None \<Rightarrow> ret None s
    | Some ob \<Rightarrow> andthen (h_find rb ob k) (\<lambda>f s1. case f of
        At p \<Rightarrow> ret (Option.bind (hd_of s1 ob) (\<lambda>h. h_value_at h p)) s1
      | Missing \<Rightarrow> ret None s1) s)"

definition hash_set :: "'w ruby \<Rightarrow> rvalue \<Rightarrow> rvalue \<Rightarrow> rvalue \<Rightarrow> ('w, unit) eff" where
  "hash_set rb v k x s = (case hash_obj s v of
      None \<Rightarrow> raise_type rb (ascii ''not a hash'') s
    | Some ob \<Rightarrow> if frozen_at s ob then raise_frozen rb v s else h_set rb ob k x s)"

definition hash_delete :: "'w ruby \<Rightarrow> rvalue \<Rightarrow> rvalue \<Rightarrow> ('w, rvalue option) eff" where
  "hash_delete rb v k s = (case hash_obj s v of
      None \<Rightarrow> ret None s
    | Some ob \<Rightarrow> h_delete rb ob k s)"

end
