(* ===== verification/HashSafe.thy ===== *)
theory HashSafe
  imports HashTable
begin

text \<open>
  The table operations keep every table of the heap in order while Ruby code runs between their steps
  (\<open>src/hashtable.rs\<close>), whatever that code does as long as it does the same: entries and slots go
  together, every bucket names an entry that is there, and the position a search answers is one
  of the table as it is when the search returns, not as it was before the last \<open>eql?\<close>.
\<close>

section \<open>Outcomes\<close>

text \<open>An effect that comes back keeps \<open>I\<close>, and gives \<open>Q\<close> when it does not raise.\<close>

definition outcome :: "('w hvm \<Rightarrow> bool) \<Rightarrow> ('a \<Rightarrow> 'w hvm \<Rightarrow> bool) \<Rightarrow> ('w, 'a) res \<Rightarrow> bool" where
  "outcome I Q r \<longleftrightarrow> (case r of
      None \<Rightarrow> True
    | Some (s, Inl _) \<Rightarrow> I s
    | Some (s, Inr x) \<Rightarrow> I s \<and> Q x s)"

lemma outcome_ret: "I s \<Longrightarrow> Q x s \<Longrightarrow> outcome I Q (ret x s)"
  by (simp add: outcome_def ret_def)

definition secures :: "('w hvm \<Rightarrow> bool) \<Rightarrow> ('w, 'a) eff \<Rightarrow> ('a \<Rightarrow> 'w hvm \<Rightarrow> bool) \<Rightarrow> bool" where
  "secures I m Q \<longleftrightarrow> (\<forall>s. I s \<longrightarrow> outcome I Q (m s))"

definition any :: "'a \<Rightarrow> 'w hvm \<Rightarrow> bool" where "any x s = True"

lemma any_holds [intro!]: "any x s"
  by (simp add: any_def)

lemma securesI [intro?]: "(\<And>s. I s \<Longrightarrow> outcome I Q (m s)) \<Longrightarrow> secures I m Q"
  by (simp add: secures_def)

lemma securesD: "secures I m Q \<Longrightarrow> I s \<Longrightarrow> outcome I Q (m s)"
  by (simp add: secures_def)

lemma outcome_andthen:
  assumes "secures I m R" "I s" "\<And>x s'. I s' \<Longrightarrow> R x s' \<Longrightarrow> outcome I Q (f x s')"
  shows "outcome I Q (andthen m f s)"
proof (cases "m s")
  case (Some y)
  obtain s1 r where y: "y = (s1, r)" by (cases y)
  show ?thesis using securesD [OF assms(1,2)] assms(3) Some y by (cases r) (simp_all add: outcome_def andthen_def)
qed (simp add: andthen_def outcome_def)

lemma outcome_mono: "outcome I Q r \<Longrightarrow> (\<And>x s. I s \<Longrightarrow> Q x s \<Longrightarrow> R x s) \<Longrightarrow> outcome I R r"
  by (auto simp: outcome_def split: option.splits sum.splits)

lemma outcome_None [simp]: "outcome I Q None"
  by (simp add: outcome_def)

text \<open>The part of the loaded program: what it does keeps \<open>I\<close>.\<close>

definition ruby_keeps :: "('w hvm \<Rightarrow> bool) \<Rightarrow> 'w ruby \<Rightarrow> bool" where
  "ruby_keeps I rb \<longleftrightarrow>
     (\<forall>recv mid args. secures I (rb_funcall rb recv mid args) any) \<and> (\<forall>a b. secures I (rb_equal rb a b) any) \<and>
     (\<forall>a s. I s \<longrightarrow> I (fst (rb_basic_eql rb a s))) \<and> (\<forall>a s. I s \<longrightarrow> I (fst (rb_describe rb a s)))"

section \<open>Tables in order\<close>

definition tbl_ok :: "hash_data \<Rightarrow> bool" where
  "tbl_ok h \<longleftrightarrow> length (h_slots h) = length (h_entries h) \<and>
     (h_is_ht h \<longrightarrow> length (h_ib h) = 2 ^ h_ib_bit h \<and>
        (\<forall>b \<in> set (h_ib h). b = EMPTY \<or> b = DELETED \<or> b < length (h_entries h)))"

named_theorems tbl "operations that keep a table in order"

lemmas tbl_defs = tbl_ok_def h_is_ht_def h_len_def

lemma tbl_ok_new [tbl]: "tbl_ok h_new"
  by (simp add: tbl_defs h_new_def)

lemma tbl_ok_set_value [tbl]: "tbl_ok h \<Longrightarrow> tbl_ok (h_set_value_at h p v)"
  by (auto simp: tbl_defs h_set_value_at_def)

lemma tbl_ok_used [tbl]: "tbl_ok h \<Longrightarrow> tbl_ok (h_set_n_used h n)"
  by (simp add: tbl_defs h_set_n_used_def)

lemma tbl_ok_compress [tbl]: "tbl_ok h \<Longrightarrow> tbl_ok (h_compress h)"
  by (simp add: tbl_defs h_compress_def)

lemma tbl_ok_adjust [tbl]: "tbl_ok h \<Longrightarrow> tbl_ok (h_adjust_ea h n m)"
  by (simp add: tbl_defs h_adjust_ea_def)

lemma tbl_ok_to_ar [tbl]: "tbl_ok h \<Longrightarrow> tbl_ok (h_to_ar h)"
  by (simp add: tbl_defs h_to_ar_def h_compress_def Let_def)

lemma tbl_ok_reset [tbl]: "tbl_ok h \<Longrightarrow> tbl_ok (ht_reset h b)"
  by (simp add: tbl_defs ht_reset_def)

lemma tbl_ok_clear [tbl]: "tbl_ok (h_clear h)"
  by (simp add: tbl_defs h_clear_def)

lemma tbl_ok_ar_push [tbl]: "tbl_ok h \<Longrightarrow> tbl_ok (h_ar_push h k v)"
  by (fastforce simp: tbl_defs h_ar_push_def)

lemma set_update_bucket: "\<forall>b \<in> set ib. P b \<Longrightarrow> P p \<Longrightarrow> \<forall>b \<in> set (ib[i := p]). P b"
  by (auto dest: subsetD [OF set_update_subset_insert])

lemma place_loop_set: "set (place_loop c m p n k ib) \<subseteq> insert p (set ib)"
proof (induction c m p n k ib rule: place_loop.induct)
  case (2 c m p n k ib)
  then show ?case using set_update_subset_insert [of ib _ p] by (auto simp: Let_def)
qed auto

lemma place_loop_length [simp]: "length (place_loop c m p n k ib) = length ib"
  by (induction c m p n k ib rule: place_loop.induct) (simp_all add: Let_def)

lemma h_place_ib: "set (h_ib (h_place h c p)) \<subseteq> insert p (set (h_ib h))" "length (h_ib (h_place h c p)) = length (h_ib h)"
  unfolding h_place_def using place_loop_set [of c "h_mask h" p 0 "Suc (unat (h_mask h))" "h_ib h"] by (simp_all del: place_loop.simps)

lemma tbl_ok_place [tbl]: "tbl_ok h \<Longrightarrow> p < h_len h \<Longrightarrow> tbl_ok (h_place h c p)"
  using h_place_ib(1) [of h c p] by (auto simp: tbl_defs h_place_ib(2))

lemma tbl_ok_place_all: "tbl_ok h \<Longrightarrow> p + length cs \<le> h_len h \<Longrightarrow> tbl_ok (place_all h p cs)"
proof (induction h p cs rule: place_all.induct)
  case (2 h p c cs)
  have "tbl_ok (h_place h c p)" using 2 by (intro tbl) auto
  then show ?case using 2 by (simp add: h_len_def)
qed simp

lemma tbl_ok_set_bucket [tbl]: "tbl_ok h \<Longrightarrow> p < h_len h \<Longrightarrow> tbl_ok (h_set_bucket h b p)"
  using set_update_bucket [of "h_ib h" "\<lambda>b. b = EMPTY \<or> b = DELETED \<or> b < length (h_entries h)" p b]
  by (simp add: tbl_defs h_set_bucket_def)

lemma tbl_ok_set_slot [tbl]: "tbl_ok h \<Longrightarrow> tbl_ok (h_set_slot h p sl)"
  by (simp add: tbl_defs h_set_slot_def)

lemma tbl_ok_ht_push [tbl]: "tbl_ok h \<Longrightarrow> tbl_ok (h_ht_push h b k v)"
proof -
  assume h: "tbl_ok h"
  let ?P = "\<lambda>b. b = EMPTY \<or> b = DELETED \<or> b < Suc (length (h_entries h))"
  have "\<forall>b' \<in> set ((h_ib h)[b := length (h_entries h)]). ?P b'" "\<forall>b \<in> set (h_ib h). ?P b" if "h_is_ht h"
  proof -
    show p: "\<forall>b \<in> set (h_ib h). ?P b" using h that by (auto simp: tbl_defs)
    then show "\<forall>b' \<in> set ((h_ib h)[b := length (h_entries h)]). ?P b'" by (rule set_update_bucket) simp
  qed
  then show ?thesis using h by (simp add: tbl_defs h_ht_push_def h_adjust_ea_def Let_def)
qed

lemma bucket_removed_range:
  "p < n \<Longrightarrow> b = EMPTY \<or> b = DELETED \<or> b < n \<Longrightarrow>
    bucket_removed p b = EMPTY \<or> bucket_removed p b = DELETED \<or> bucket_removed p b < n - 1"
  by (auto simp: bucket_removed_def)

lemma tbl_ok_remove [tbl]: "tbl_ok h \<Longrightarrow> p < h_len h \<Longrightarrow> tbl_ok (fst (h_remove_entry h p))"
  using bucket_removed_range [of p "length (h_entries h)"]
  by (auto simp: tbl_defs h_remove_entry_def Let_def length_list_remove_at)

lemma tbl_ok_reinsert [tbl]: "tbl_ok h \<Longrightarrow> p \<le> h_len h \<Longrightarrow> tbl_ok (h_reinsert h p e)"
  by (fastforce simp: tbl_defs h_reinsert_def Let_def list_insert_at_def)

lemma len_set_value [simp]: "h_len (h_set_value_at h p v) = h_len h"
  by (simp add: h_set_value_at_def h_len_def)

lemma len_remove: "p < h_len h \<Longrightarrow> h_len (fst (h_remove_entry h p)) = h_len h - 1"
  by (simp add: h_remove_entry_def h_len_def Let_def length_list_remove_at)

lemma len_reinsert: "p \<le> h_len h \<Longrightarrow> h_len (h_reinsert h p e) = Suc (h_len h)"
  by (simp add: h_reinsert_def h_len_def Let_def list_insert_at_def)

lemma tbl_ok_ar_make_room [tbl]: "tbl_ok h \<Longrightarrow> tbl_ok (fst (h_ar_make_room h))"
  by (auto simp: h_ar_make_room_def Let_def intro: tbl)

lemma tbl_ok_ht_make_room [tbl]: "tbl_ok h \<Longrightarrow> tbl_ok (fst (h_ht_make_room h))"
  by (auto simp: h_ht_make_room_def Let_def intro: tbl)

lemma tbl_ok_join [tbl]: "tbl_ok h \<Longrightarrow> r < h_len h \<Longrightarrow> tbl_ok (rehash_join p r h)"
  unfolding rehash_join_def by (intro tbl) simp_all

lemma tbl_ok_move [tbl]:
  assumes "tbl_ok h" "r < h_len h" "w < h_len h"
  shows "tbl_ok (rehash_move ht b w r h)"
proof -
  obtain h' e where e: "h_remove_entry h r = (h', e)" by (metis surj_pair)
  have h': "tbl_ok h'" "h_len h' = h_len h - 1" using tbl_ok_remove [of h r] len_remove [of r h] assms e by auto
  let ?h1 = "if r \<noteq> w then h_reinsert h' w e else h"
  have "tbl_ok ?h1" "h_len ?h1 = h_len h"
    using assms h' tbl_ok_reinsert [of h' w e] len_reinsert [of w h' e] by auto
  then have s: "tbl_ok (h_set_slot ?h1 w w)" "w < h_len (h_set_slot ?h1 w w)"
    using tbl_ok_set_slot [of ?h1 w w] assms(3) by (simp_all add: h_set_slot_def h_len_def split del: if_split)
  have "rehash_move ht b w r h = (if ht then h_set_bucket (h_set_slot ?h1 w w) b w else h_set_slot ?h1 w w)"
    by (simp add: rehash_move_def e Let_def)
  then show ?thesis using s tbl_ok_set_bucket [OF s, of b] by presburger
qed

section \<open>The tables of a heap\<close>

definition obj_ok :: "heap_object \<Rightarrow> bool" where
  "obj_ok x \<longleftrightarrow> (case ho_kind x of K_Hash h \<Rightarrow> tbl_ok h | _ \<Rightarrow> True)"

definition tables_ok :: "'w hvm \<Rightarrow> bool" where
  "tables_ok s \<longleftrightarrow> (\<forall>x \<in> set (hp_objs (vm_heap s)). obj_ok x)"

lemma tables_ok_hd: "tables_ok s \<Longrightarrow> hd_of s ob = Some h \<Longrightarrow> tbl_ok h"
  by (fastforce simp: tables_ok_def obj_ok_def hd_of_def heap_kind_def heap_get_def split: obj_kind.splits if_splits)

lemma tables_ok_active [simp]: "tables_ok (s\<lparr>vm_native_active := n\<rparr>) = tables_ok s"
  by (simp add: tables_ok_def)

lemma tables_ok_update:
  "tables_ok s \<Longrightarrow> (\<And>x. obj_ok x \<Longrightarrow> obj_ok (f x)) \<Longrightarrow> tables_ok (vm_update i f s)"
  using set_update_subset_insert [of "hp_objs (vm_heap s)" "unat i" "f (hp_objs (vm_heap s) ! unat i)"]
  by (auto simp: tables_ok_def vm_update_def heap_update_def)

lemma tables_ok_put: "tables_ok s \<Longrightarrow> tbl_ok h \<Longrightarrow> tables_ok (hd_put ob h s)"
  unfolding hd_put_def by (rule tables_ok_update) (simp_all add: obj_ok_def)

lemma tables_ok_mod: "tables_ok s \<Longrightarrow> (\<And>h. tbl_ok h \<Longrightarrow> hd_of s ob = Some h \<Longrightarrow> tbl_ok (f h)) \<Longrightarrow> tables_ok (hd_mod ob f s)"
  by (auto simp: hd_mod_def split: option.split intro: tables_ok_put tables_ok_hd)

lemma tables_ok_alloc:
  assumes "tables_ok s" "obj_ok (new_object c k)"
  shows "tables_ok (fst (vm_alloc c k s))"
  using assms set_update_subset_insert [of "hp_objs (vm_heap s)" _ "new_object c k"]
  by (fastforce simp: tables_ok_def vm_alloc_def heap_alloc_def Let_def split: if_splits)

lemma tables_ok_ivar: "tables_ok s \<Longrightarrow> tables_ok (s\<lparr>vm_heap := heap_ivar_set (vm_heap s) i n v\<rparr>)"
  using tables_ok_update [of s "\<lambda>x. x\<lparr>ho_ivars := ivars_set (ho_ivars x) n v\<rparr>" i]
  by (simp add: vm_update_def heap_ivar_set_def obj_ok_def)

lemma tables_ok_exc: "tables_ok s \<Longrightarrow> tables_ok (fst (exc_new rb c m s))"
proof -
  assume s: "tables_ok s"
  obtain s1 e where 1: "vm_alloc c K_Exception s = (s1, e)" by (metis surj_pair)
  obtain s2 i where 2: "vm_alloc (rb_c_string rb) (K_String m) s1 = (s2, i)" by (metis surj_pair)
  have "tables_ok s1" using tables_ok_alloc [OF s, of c K_Exception] 1 by (simp add: obj_ok_def new_object_def)
  then have "tables_ok s2"
    using tables_ok_alloc [of s1 "rb_c_string rb" "K_String m"] 2 by (simp add: obj_ok_def new_object_def)
  then show ?thesis by (simp add: exc_new_def 1 2 str_new_def tables_ok_ivar)
qed

lemma raise_secures: "secures tables_ok (raise_exc rb c m) Q"
proof
  fix s :: "'a hvm"
  assume "tables_ok s"
  then have "tables_ok (fst (exc_new rb c m s))" by (rule tables_ok_exc)
  then show "outcome tables_ok Q (raise_exc rb c m s)"
    by (cases "exc_new rb c m s") (simp add: outcome_def raise_exc_def)
qed

lemma raise_arg_secures: "secures tables_ok (raise_arg rb m) Q"
  by (simp add: raise_arg_def raise_secures)

lemma raise_type_secures: "secures tables_ok (raise_type rb m) Q"
  by (simp add: raise_type_def raise_secures)

lemma hash_modified_secures: "secures tables_ok (hash_modified rb) Q"
  by (simp add: hash_modified_def raise_secures)

lemmas raised = securesD [OF raise_secures] securesD [OF raise_arg_secures] securesD [OF raise_type_secures]
  securesD [OF hash_modified_secures]

lemma basic_keeps: "ruby_keeps I rb \<Longrightarrow> I s \<Longrightarrow> I (fst (rb_basic_eql rb a s))"
  by (simp add: ruby_keeps_def)

lemma describe_keeps: "ruby_keeps I rb \<Longrightarrow> I s \<Longrightarrow> I (fst (rb_describe rb a s))"
  by (simp add: ruby_keeps_def)

lemma frozen_secures: "ruby_keeps tables_ok rb \<Longrightarrow> secures tables_ok (raise_frozen rb v) Q"
proof
  fix s :: "'a hvm"
  assume rb: "ruby_keeps tables_ok rb" and s: "tables_ok s"
  show "outcome tables_ok Q (raise_frozen rb v s)"
    using describe_keeps [OF rb s, of v] by (cases "rb_describe rb v s") (simp add: raise_frozen_def raised)
qed

lemma send_secures: "ruby_keeps tables_ok rb \<Longrightarrow> secures tables_ok (send rb recv mid args) any"
proof
  fix s :: "'a hvm"
  assume "ruby_keeps tables_ok rb" "tables_ok s"
  then have "outcome tables_ok any (rb_funcall rb recv mid args (s\<lparr>vm_native_active := vm_native_active s + 1\<rparr>))"
    by (simp add: ruby_keeps_def secures_def)
  then show "outcome tables_ok any (send rb recv mid args s)"
    by (simp add: outcome_def send_def any_def split: option.splits prod.splits sum.splits)
qed

lemma verify_secures: "secures tables_ok (h_verify rb ob before) any"
  by (rule securesI) (auto simp: h_verify_def split: option.split intro: raised outcome_ret)

text \<open>The position of a slot is one of the table.\<close>

lemma slot_holds_range: "tbl_ok h \<Longrightarrow> h_slot_holds h sl k = Some p \<Longrightarrow> p < h_len h"
  by (auto simp: h_slot_holds_def h_pos_of_slot_def tbl_defs Let_def split: option.splits if_splits)

definition in_table :: "obj_id \<Rightarrow> nat \<Rightarrow> 'w hvm \<Rightarrow> bool" where
  "in_table ob p s \<longleftrightarrow> (\<exists>h. hd_of s ob = Some h \<and> p < h_len h)"

lemma vacated_secures: "secures tables_ok (h_check_vacated rb ob sl k) (in_table ob)"
proof
  fix s :: "'a hvm"
  assume s: "tables_ok s"
  show "outcome tables_ok (in_table ob) (h_check_vacated rb ob sl k s)"
  proof (cases "Option.bind (hd_of s ob) (\<lambda>h. h_slot_holds h sl k)")
    case (Some p)
    then obtain h where "hd_of s ob = Some h" "h_slot_holds h sl k = Some p" by (auto simp: bind_eq_Some_conv)
    then have "in_table ob p s" using slot_holds_range tables_ok_hd [OF s] by (auto simp: in_table_def)
    then show ?thesis using Some s by (simp add: h_check_vacated_def outcome_ret)
  qed (simp add: h_check_vacated_def raised s)
qed

section \<open>Codes, comparisons, the search\<close>

lemma verify_then: "I = tables_ok \<Longrightarrow> I s \<Longrightarrow> outcome I any (andthen (h_verify rb ob before) (\<lambda>_. ret x) s)"
  by (auto intro!: outcome_andthen [OF verify_secures] outcome_ret)

lemma code_secures:
  assumes rb: "ruby_keeps tables_ok rb"
  shows "secures tables_ok (h_code rb ob key) any"
proof
  fix s :: "'a hvm"
  assume s: "tables_ok s"
  show "outcome tables_ok any (h_code rb ob key s)"
  proof (cases "\<exists>k. key = VObj k \<and> vm_string s k = None")
    case True
    then show ?thesis
      by (auto simp: h_code_def Let_def intro!: outcome_andthen [OF send_secures [OF rb] s] verify_then)
  next
    case False
    then show ?thesis using s
      by (cases key) (auto simp: h_code_def intro: outcome_ret split: option.split)
  qed
qed

lemma mrb_eql_secures:
  assumes rb: "ruby_keeps tables_ok rb"
  shows "secures tables_ok (mrb_eql rb a b) any"
proof
  fix s :: "'a hvm"
  assume s: "tables_ok s"
  have "outcome tables_ok any (mrb_eql_send rb a b s)"
  proof (cases "rb_basic_eql rb a s")
    case (Pair s1 basic)
    then have "tables_ok s1" using basic_keeps [OF rb s, of a] by simp
    then show ?thesis using Pair
      by (auto simp: mrb_eql_send_def intro!: outcome_ret outcome_andthen [OF send_secures [OF rb]])
  qed
  then show "outcome tables_ok any (mrb_eql rb a b s)"
    using s by (auto simp: mrb_eql_def intro: outcome_ret split: rvalue.split)
qed

lemma obj_eql_secures:
  assumes rb: "ruby_keeps tables_ok rb"
  shows "secures tables_ok (h_obj_eql rb ob a b) any"
proof
  fix s :: "'a hvm"
  assume s: "tables_ok s"
  have "outcome tables_ok any (h_obj_eql_ruby rb ob a b s)"
    unfolding h_obj_eql_ruby_def Let_def by (auto intro!: outcome_andthen [OF mrb_eql_secures [OF rb] s] verify_then)
  then show "outcome tables_ok any (h_obj_eql rb ob a b s)"
    using s by (auto simp: h_obj_eql_def intro: outcome_ret split: rvalue.split)
qed

definition opt_in_table :: "obj_id \<Rightarrow> nat option \<Rightarrow> 'w hvm \<Rightarrow> bool" where
  "opt_in_table ob r s \<longleftrightarrow> (case r of None \<Rightarrow> True | Some p \<Rightarrow> in_table ob p s)"

lemma opt_in_table_simps [simp]: "opt_in_table ob None s" "opt_in_table ob (Some p) s = in_table ob p s"
  by (simp_all add: opt_in_table_def)

lemma compare_secures:
  assumes rb: "ruby_keeps tables_ok rb"
  shows "secures tables_ok (h_compare rb ob key p) (opt_in_table ob)"
proof
  fix s :: "'a hvm"
  assume s: "tables_ok s"
  show "outcome tables_ok (opt_in_table ob) (h_compare rb ob key p s)"
    using s by (auto simp: h_compare_def Let_def intro!: outcome_ret outcome_andthen [OF obj_eql_secures [OF rb]]
      outcome_andthen [OF vacated_secures] split: option.split)
qed

text \<open>A bucket the probe meets is one of the index.\<close>

lemma probe_in_index: "tbl_ok h \<Longrightarrow> h_is_ht h \<Longrightarrow> probe_at c n (h_mask h) < length (h_ib h)"
proof -
  assume h: "tbl_ok h" "h_is_ht h"
  have "probe_at c n (h_mask h) \<le> unat (h_mask h)"
    unfolding probe_at_def by (simp add: word_le_nat_alt [symmetric] word_and_le1)
  also have "unat (h_mask h) < 2 ^ h_ib_bit h"
  proof (cases "h_ib_bit h \<le> 31")
    case True
    then show ?thesis using mask_unat [OF True] mask_bits [OF True] by (simp add: h_mask_def)
  next
    case False
    then have "(2 :: nat) ^ 32 \<le> 2 ^ h_ib_bit h" by (intro power_increasing) auto
    moreover have "unat (h_mask h) < 2 ^ 32" using unsigned_less [of "h_mask h"] by simp
    ultimately show ?thesis by (rule order_less_le_trans [rotated])
  qed
  finally show ?thesis using h by (simp add: tbl_ok_def)
qed

lemma bucket_in_range: "tbl_ok h \<Longrightarrow> h_is_ht h \<Longrightarrow> i < length (h_ib h) \<Longrightarrow> h_ib h ! i \<noteq> EMPTY \<Longrightarrow> h_ib h ! i \<noteq> DELETED \<Longrightarrow>
    h_ib h ! i < h_len h"
  by (auto simp: tbl_ok_def h_len_def)

lemma probe_loop_range:
  assumes "tbl_ok h" "h_is_ht h"
  shows "probe_loop str h key kb c (h_mask h) n k = Some (Hit p) \<Longrightarrow> p < h_len h"
proof (induction k arbitrary: n)
  case (Suc k)
  then show ?case using bucket_in_range [OF assms probe_in_index [OF assms, of c n]]
    by (auto simp: Let_def split: if_splits)
qed simp

lemma find_native_range:
  assumes h: "tbl_ok h" and f: "find_native str h key = Some (Some p)"
  shows "p < h_len h"
proof (cases "h_is_ht h")
  case True
  obtain kb c where "find_loop str h key kb c (h_mask h) 0 (Suc (unat (h_mask h))) = Some p"
    using f True by (auto simp: find_native_def split: option.splits)
  then show ?thesis
    using probe_loop_range [OF h True] unfolding find_loop_probe
    by (auto split: option.splits probe_result.splits simp del: probe_loop.simps)
next
  case False
  then show ?thesis using f position_Some by (fastforce simp: find_native_def h_len_def split: option.splits)
qed

definition found_in_table :: "obj_id \<Rightarrow> found \<Rightarrow> 'w hvm \<Rightarrow> bool" where
  "found_in_table ob f s \<longleftrightarrow> (case f of At p \<Rightarrow> in_table ob p s | Missing \<Rightarrow> True)"

lemma found_in_table_simps [simp]: "found_in_table ob Missing s" "found_in_table ob (At p) s = in_table ob p s"
  by (simp_all add: found_in_table_def)

lemma find_ar_secures:
  assumes rb: "ruby_keeps tables_ok rb"
  shows "tables_ok s \<Longrightarrow> outcome tables_ok (found_in_table ob) (find_ar_loop rb ob key left p s)"
proof (induction left arbitrary: p s)
  case (Suc left)
  then show ?case
    by (auto simp: Let_def intro!: outcome_ret outcome_andthen [OF compare_secures [OF rb]] split: option.split)
qed (simp add: outcome_ret)

lemma find_ht_secures:
  assumes rb: "ruby_keeps tables_ok rb"
  shows "tables_ok s \<Longrightarrow> outcome tables_ok (found_in_table ob) (find_ht_loop rb ob key code msk n k s)"
proof (induction k arbitrary: n s)
  case (Suc k)
  then show ?case
    by (auto simp: Let_def intro!: outcome_ret outcome_andthen [OF compare_secures [OF rb]] split: option.split)
qed (simp add: outcome_ret)

lemma find_secures:
  assumes rb: "ruby_keeps tables_ok rb"
  shows "secures tables_ok (h_find rb ob key) (found_in_table ob)"
proof
  fix s :: "'a hvm"
  assume s: "tables_ok s"
  show "outcome tables_ok (found_in_table ob) (h_find rb ob key s)"
  proof (cases "h_find_native s ob key")
    case (Some f)
    then have "found_in_table ob f s"
      using find_native_range tables_ok_hd [OF s]
      by (auto simp: h_find_native_def bind_eq_Some_conv in_table_def split: option.splits)
    then show ?thesis using Some s by (simp add: h_find_def outcome_ret)
  next
    case None
    then show ?thesis using s
      by (auto simp: h_find_def intro!: outcome_ret find_ar_secures [OF rb] find_ht_secures [OF rb]
        outcome_andthen [OF code_secures [OF rb]] simp del: find_ar_loop.simps find_ht_loop.simps split: option.split)
  qed
qed

section \<open>Storing\<close>

lemma those_length: "those xs = Some ys \<Longrightarrow> length ys = length xs"
  by (induction xs arbitrary: ys) (auto split: option.splits)

lemma rebuild_native_keeps: "tables_ok s \<Longrightarrow> tables_ok (fst (h_rebuild_native ob s))"
proof -
  assume s: "tables_ok s"
  have "tbl_ok (place_all h 0 cs)" if "hd_of s ob = Some h" "native_codes (vm_string s) h = Some cs" for h cs
  proof (rule tbl_ok_place_all)
    show "tbl_ok h" using tables_ok_hd [OF s that(1)] .
    show "0 + length cs \<le> h_len h"
      using that(2) those_length [of "map (\<lambda>e. native_code (vm_string s) (fst e)) (h_entries h)" cs]
      by (simp add: native_codes_def h_len_def)
  qed
  then show ?thesis using s
    by (auto simp: h_rebuild_native_def hd_mod_def intro: tables_ok_put split: option.split)
qed

text \<open>A partial function: what its body does when the inner calls do it.\<close>

lemma outcome_call: "(\<And>y. m s = Some y \<Longrightarrow> outcome I Q (Some y)) \<Longrightarrow> outcome I Q (m s)"
  by (cases "m s") auto

lemma rebuild_loop_secures:
  assumes rb: "ruby_keeps tables_ok rb"
  shows "secures tables_ok (rebuild_loop rb ob p) any"
proof
  fix s :: "'a hvm"
  assume s: "tables_ok s"
  show "outcome tables_ok any (rebuild_loop rb ob p s)"
  proof (rule outcome_call)
    fix y
    assume y: "rebuild_loop rb ob p s = Some y"
    have "ruby_keeps tables_ok rb \<longrightarrow> tables_ok s \<longrightarrow> outcome tables_ok any (Some y)"
    proof (rule rebuild_loop.raw_induct [OF _ y, where P = "\<lambda>rb ob p s y. ruby_keeps tables_ok rb \<longrightarrow> tables_ok s \<longrightarrow> outcome tables_ok any (Some y)"],
        intro impI)
      fix f :: "'a ruby \<Rightarrow> obj_id \<Rightarrow> nat \<Rightarrow> ('a, unit) eff" and rb ob p s y
      assume IH: "\<And>rb ob p s y. f rb ob p s = Some y \<Longrightarrow>
          ruby_keeps tables_ok rb \<longrightarrow> tables_ok s \<longrightarrow> outcome tables_ok any (Some y)"
        and b: "(case Option.bind (hd_of s ob) (\<lambda>h. h_key_at h p) of None \<Rightarrow> ret () s
          | Some key \<Rightarrow> andthen (h_code rb ob key) (\<lambda>code s1. f rb ob (p + 1)
              (hd_mod ob (\<lambda>h. if p < h_len h then h_place h code p else h) s1)) s) = Some y"
        and rb: "ruby_keeps tables_ok rb" and s: "tables_ok s"
      have c: "tables_ok s \<Longrightarrow> outcome tables_ok any (f rb ob p s)" for p s
        by (rule outcome_call) (use IH rb in blast)
      show "outcome tables_ok any (Some y)"
        unfolding b [symmetric] using s
        by (auto intro!: outcome_ret c tables_ok_mod tbl outcome_andthen [OF code_secures [OF rb]] split: option.split)
    qed
    then show "outcome tables_ok any (Some y)" using rb s by blast
  qed
qed

lemma rebuild_secures:
  assumes rb: "ruby_keeps tables_ok rb"
  shows "secures tables_ok (h_rebuild rb ob b) any"
proof
  fix s :: "'a hvm"
  assume s: "tables_ok s"
  let ?s1 = "hd_mod ob (\<lambda>h. h_set_n_used (ht_reset h b) (h_len h)) s"
  have "tables_ok ?s1" using s by (intro tables_ok_mod tbl)
  then have "tables_ok (fst (h_rebuild_native ob ?s1))" by (rule rebuild_native_keeps)
  then show "outcome tables_ok any (h_rebuild rb ob b s)"
    by (cases "h_rebuild_native ob ?s1") (auto simp: h_rebuild_def intro: outcome_ret securesD [OF rebuild_loop_secures [OF rb]])
qed

lemma key_for_keeps: "tables_ok s \<Longrightarrow> tables_ok (fst (h_key_for rb k s))"
proof -
  assume s: "tables_ok s"
  have "tables_ok (vm_update n (\<lambda>x. x\<lparr>ho_frozen := True\<rparr>) s1)" if "vm_alloc c (K_String b) s = (s1, n)" for c b s1 n
    using tables_ok_alloc [OF s, of c "K_String b"] that
    by (intro tables_ok_update) (auto simp: obj_ok_def new_object_def)
  then show ?thesis using s by (auto simp: h_key_for_def split: rvalue.split option.split prod.split)
qed

lemma store_secures: "secures tables_ok (ht_store rb ob b key val) any"
proof
  fix s :: "'a hvm"
  assume s: "tables_ok s"
  show "outcome tables_ok any (ht_store rb ob b key val s)"
    using key_for_keeps [OF s, of rb key] s
    by (cases "h_key_for rb key s") (auto simp: ht_store_def intro!: raised outcome_ret tables_ok_mod tbl)
qed

lemma set_ht_secures:
  assumes rb: "ruby_keeps tables_ok rb"
  shows "tables_ok s \<Longrightarrow> outcome tables_ok any (set_ht_loop rb ob key val code msk n k s)"
proof (induction k arbitrary: n s)
  case (Suc k)
  then show ?case
    by (auto simp: Let_def intro!: outcome_ret outcome_andthen [OF compare_secures [OF rb]] tables_ok_mod tbl
      securesD [OF store_secures] split: option.split)
qed (auto intro: outcome_ret)

lemma set_fit_secures:
  assumes rb: "ruby_keeps tables_ok rb"
  shows "secures tables_ok (ht_set_fit rb ob key val) any"
  by (rule securesI) (auto simp: ht_set_fit_def simp del: set_ht_loop.simps split: option.split probe_result.split
    intro!: outcome_ret tables_ok_mod tbl securesD [OF store_secures] outcome_andthen [OF code_secures [OF rb]]
      set_ht_secures [OF rb])

lemma hset_secures:
  assumes rb: "ruby_keeps tables_ok rb"
  shows "secures tables_ok (hset_rec rb indexed ob key val) any"
proof
  fix s :: "'a hvm"
  assume s: "tables_ok s"
  show "outcome tables_ok any (hset_rec rb indexed ob key val s)"
  proof (rule outcome_call)
    fix y
    assume y: "hset_rec rb indexed ob key val s = Some y"
    have "ruby_keeps tables_ok rb \<longrightarrow> tables_ok s \<longrightarrow> outcome tables_ok any (Some y)"
    proof (rule hset_rec.raw_induct [OF _ y,
          where P = "\<lambda>rb i ob k v s y. ruby_keeps tables_ok rb \<longrightarrow> tables_ok s \<longrightarrow> outcome tables_ok any (Some y)"],
        intro impI, goal_cases)
      case (1 f rb indexed ob key val s y)
      note rb = 1(3) and s = 1(4)
      have c: "tables_ok s \<Longrightarrow> outcome tables_ok any (f rb i ob k v s)" for i k v s
        by (rule outcome_call) (use 1(1) rb in blast)
      show ?case
      proof (cases "hd_of s ob")
        case None
        then show ?thesis unfolding 1(2) [symmetric] using s by (auto intro: outcome_ret)
      next
        case (Some h)
        have h: "tbl_ok h" by (rule tables_ok_hd [OF s Some])
        have m: "tables_ok (hd_put ob (fst (h_ht_make_room h)) s)" by (intro tables_ok_put s tbl h)
        have a: "outcome tables_ok any (case h_ht_make_room h of (h1, room) \<Rightarrow> (case room of
            Fits \<Rightarrow> ht_set_fit rb ob key val (hd_put ob h1 s)
          | Rebuild b \<Rightarrow> andthen (h_rebuild rb ob b) (\<lambda>_. ht_set_fit rb ob key val) (hd_put ob h1 s)
          | ToAr \<Rightarrow> f rb False ob key val (hd_put ob (h_to_ar h1) s)))"
          using m tbl_ok_ht_make_room [OF h]
          by (cases "h_ht_make_room h") (auto intro!: c tables_ok_put s tbl securesD [OF set_fit_secures [OF rb]]
            outcome_andthen [OF rebuild_secures [OF rb]] split: ht_room.split)
        have f: "outcome tables_ok any (case h_key_for rb key s1 of (s2, k) \<Rightarrow> (case hd_of s2 ob of
                  None \<Rightarrow> ret () s2
                | Some h2 \<Rightarrow> (case h_ar_make_room h2 of (h3, full) \<Rightarrow>
                      if full
                      then andthen (h_rebuild rb ob IB_INIT_BIT) (\<lambda>_ s3. f rb True ob k val s3) (hd_put ob h3 s2)
                      else ret () (hd_put ob (h_ar_push h3 k val) s2))))" if s1: "tables_ok s1" for s1
        proof -
          obtain s2 k where k: "h_key_for rb key s1 = (s2, k)" by (metis surj_pair)
          have s2: "tables_ok s2" using key_for_keeps [OF s1, of rb key] k by simp
          show ?thesis
          proof (cases "hd_of s2 ob")
            case (Some h2)
            obtain h3 full where r: "h_ar_make_room h2 = (h3, full)" by (metis surj_pair)
            have "tbl_ok h3" using tbl_ok_ar_make_room [OF tables_ok_hd [OF s2 Some]] r by simp
            then show ?thesis using s2
              by (auto simp: k Some r intro!: outcome_ret c tables_ok_put tbl outcome_andthen [OF rebuild_secures [OF rb]])
          qed (use s2 k in \<open>auto intro: outcome_ret\<close>)
        qed
        show ?thesis unfolding 1(2) [symmetric] using s
          by (auto simp: Some intro!: a c f outcome_ret tables_ok_mod tbl outcome_andthen [OF find_secures [OF rb]]
            split: found.split)
      qed
    qed
    then show "outcome tables_ok any (Some y)" using rb s by blast
  qed
qed

section \<open>Deletion, shift, rehash\<close>

lemma delete_secures:
  assumes rb: "ruby_keeps tables_ok rb"
  shows "secures tables_ok (h_delete rb ob key) any"
proof
  fix s :: "'a hvm"
  assume s: "tables_ok s"
  have d: "outcome tables_ok any (case h_remove_entry h p of (h1, _, v) \<Rightarrow> ret (Some v) (hd_put ob h1 s1))"
    if "tables_ok s1" "hd_of s1 ob = Some h" "p < h_len h" for s1 h p
    using tbl_ok_remove [OF tables_ok_hd [OF that(1,2)] that(3)] that(1)
    by (cases "h_remove_entry h p") (auto intro!: outcome_ret tables_ok_put)
  show "outcome tables_ok any (h_delete rb ob key s)"
    unfolding h_delete_def using s
    by (auto simp: in_table_def intro!: outcome_ret d outcome_andthen [OF find_secures [OF rb]] split: found.split)
qed

lemma shift_secures:
  assumes rb: "ruby_keeps tables_ok rb"
  shows "secures tables_ok (h_shift rb ob) any"
proof
  fix s :: "'a hvm"
  assume s: "tables_ok s"
  have d: "outcome tables_ok any (case h_remove_entry h 0 of (h1, e) \<Rightarrow> ret (Some e) (hd_put ob h1 s1))"
    if "tables_ok s1" "hd_of s1 ob = Some h" "\<not> h_is_empty h" for s1 h
  proof -
    have "0 < h_len h" using that(3) by (simp add: h_is_empty_def h_len_def)
    then show ?thesis using tbl_ok_remove [OF tables_ok_hd [OF that(1,2)], of 0] that(1)
      by (cases "h_remove_entry h 0") (auto intro!: outcome_ret tables_ok_put)
  qed
  have c: "secures tables_ok (andthen (h_code rb ob k) (\<lambda>_. ret ())) any" for k
    by (rule securesI) (auto intro!: outcome_ret outcome_andthen [OF code_secures [OF rb]])
  show "outcome tables_ok any (h_shift rb ob s)"
    unfolding h_shift_def using s
    by (auto intro!: outcome_ret d outcome_andthen [OF c] split: option.split)
qed

text \<open>
  While a rehash compares, the modification check holds the size of the table: when a comparison
  comes back the table has as many entries as before.
\<close>

definition len_is :: "obj_id \<Rightarrow> nat \<Rightarrow> 'w hvm \<Rightarrow> bool" where
  "len_is ob n s \<longleftrightarrow> (\<exists>h. hd_of s ob = Some h \<and> h_len h = n)"

definition sized :: "obj_id \<Rightarrow> nat \<Rightarrow> ('w, 'a) eff \<Rightarrow> ('a \<Rightarrow> bool) \<Rightarrow> bool" where
  "sized ob n m Q \<longleftrightarrow> (\<forall>s. tables_ok s \<and> len_is ob n s \<longrightarrow> outcome tables_ok (\<lambda>x s'. len_is ob n s' \<and> Q x) (m s))"

lemma sizedI: "(\<And>s. tables_ok s \<Longrightarrow> len_is ob n s \<Longrightarrow> outcome tables_ok (\<lambda>x s'. len_is ob n s' \<and> Q x) (m s)) \<Longrightarrow> sized ob n m Q"
  by (simp add: sized_def)

lemma sizedD: "sized ob n m Q \<Longrightarrow> tables_ok s \<Longrightarrow> len_is ob n s \<Longrightarrow> outcome tables_ok (\<lambda>x s'. len_is ob n s' \<and> Q x) (m s)"
  by (simp add: sized_def)

lemma sized_andthen:
  assumes "sized ob n m R" "tables_ok s" "len_is ob n s"
    "\<And>x s'. tables_ok s' \<Longrightarrow> len_is ob n s' \<Longrightarrow> R x \<Longrightarrow> outcome tables_ok Q (f x s')"
  shows "outcome tables_ok Q (andthen m f s)"
proof (cases "m s")
  case (Some y)
  obtain s1 r where y: "y = (s1, r)" by (cases y)
  show ?thesis using sizedD [OF assms(1-3)] assms(4) Some y by (cases r) (simp_all add: outcome_def andthen_def)
qed (simp add: andthen_def outcome_def)

lemma verify_len:
  assumes "len_is ob n s"
  shows "secures tables_ok (h_verify rb ob (check_of s ob)) (\<lambda>_. len_is ob n)"
proof -
  obtain h where h: "hd_of s ob = Some h" "h_len h = n" using assms by (auto simp: len_is_def)
  show ?thesis using h
    by (auto simp: h_verify_def check_of_def check_same_def h_check_def len_is_def intro!: securesI raised outcome_ret
      split: option.split)
qed

lemma verify_then_len: "len_is ob n s \<Longrightarrow> tables_ok s' \<Longrightarrow>
    outcome tables_ok (\<lambda>_ s'. len_is ob n s' \<and> True) (andthen (h_verify rb ob (check_of s ob)) (\<lambda>_. ret x) s')"
  by (auto intro: outcome_ret outcome_andthen [OF verify_len])

abbreviation yes :: "'a \<Rightarrow> bool" where "yes \<equiv> \<lambda>_. True"

lemma code_len:
  assumes rb: "ruby_keeps tables_ok rb"
  shows "sized ob n (h_code rb ob key) yes"
proof (rule sizedI)
  fix s :: "'a hvm"
  assume s: "tables_ok s" "len_is ob n s"
  show "outcome tables_ok (\<lambda>_ s'. len_is ob n s' \<and> True) (h_code rb ob key s)"
  proof (cases "\<exists>k. key = VObj k \<and> vm_string s k = None")
    case True
    then show ?thesis using s
      by (auto simp: h_code_def Let_def intro!: outcome_andthen [OF send_secures [OF rb]] verify_then_len [OF s(2), simplified])
  next
    case False
    then show ?thesis using s
      by (cases key) (auto simp: h_code_def intro: outcome_ret split: option.split)
  qed
qed

lemma obj_eql_len:
  assumes rb: "ruby_keeps tables_ok rb"
  shows "sized ob n (h_obj_eql rb ob a b) yes"
proof (rule sizedI)
  fix s :: "'a hvm"
  assume s: "tables_ok s" "len_is ob n s"
  have "outcome tables_ok (\<lambda>_ s'. len_is ob n s' \<and> True) (h_obj_eql_ruby rb ob a b s)"
    unfolding h_obj_eql_ruby_def Let_def
    by (rule outcome_andthen [OF mrb_eql_secures [OF rb] s(1)]) (rule verify_then_len [OF s(2)])
  then show "outcome tables_ok (\<lambda>_ s'. len_is ob n s' \<and> True) (h_obj_eql rb ob a b s)"
    using s by (auto simp: h_obj_eql_def intro: outcome_ret split: rvalue.split)
qed

lemma vacated_len: "sized ob n (h_check_vacated rb ob sl k) (\<lambda>r. r < n)"
proof (rule sizedI)
  fix s :: "'a hvm"
  assume s: "tables_ok s" "len_is ob n s"
  then obtain h where h: "hd_of s ob = Some h" "h_len h = n" by (auto simp: len_is_def)
  show "outcome tables_ok (\<lambda>r s'. len_is ob n s' \<and> r < n) (h_check_vacated rb ob sl k s)"
    using s h slot_holds_range [OF tables_ok_hd [OF s(1) h(1)]]
    by (auto simp: h_check_vacated_def intro!: raised outcome_ret split: option.split)
qed

lemma compare_len:
  assumes rb: "ruby_keeps tables_ok rb"
  shows "sized ob n (h_compare rb ob key p) yes"
  by (rule sizedI) (auto simp: h_compare_def Let_def intro!: outcome_ret sized_andthen [OF obj_eql_len [OF rb]]
    sized_andthen [OF vacated_len] split: option.split)

lemma rehash_ht_len:
  assumes rb: "ruby_keeps tables_ok rb"
  shows "tables_ok s \<Longrightarrow> len_is ob n s \<Longrightarrow> outcome tables_ok (\<lambda>_. len_is ob n) (rehash_ht_loop rb ob key code msk i k s)"
proof (induction k arbitrary: i s)
  case (Suc k)
  then show ?case
    by (auto simp: Let_def intro!: outcome_ret sized_andthen [OF compare_len [OF rb]] split: option.split)
qed (auto intro: outcome_ret)

lemma rehash_ar_len:
  assumes rb: "ruby_keeps tables_ok rb"
  shows "tables_ok s \<Longrightarrow> len_is ob n s \<Longrightarrow> outcome tables_ok (\<lambda>_. len_is ob n) (rehash_ar_loop rb ob key j k s)"
proof (induction k arbitrary: j s)
  case (Suc k)
  then show ?case
    by (auto intro!: outcome_ret sized_andthen [OF compare_len [OF rb]] split: option.split)
qed (auto intro: outcome_ret)

lemma rehash_dup_len:
  assumes rb: "ruby_keeps tables_ok rb"
  shows "sized ob n (rehash_dup rb ob ht w key) yes"
  by (rule sizedI) (auto simp: rehash_dup_def Let_def rehash_ar_len [OF rb] rehash_ht_len [OF rb]
    simp del: rehash_ht_loop.simps rehash_ar_loop.simps intro!: sized_andthen [OF code_len [OF rb]])

lemma rehash_loop_secures:
  assumes rb: "ruby_keeps tables_ok rb"
  shows "tables_ok s \<Longrightarrow> outcome tables_ok any (rehash_loop rb ob ht w left s)"
proof (induction left arbitrary: w s)
  case (Suc left)
  show ?case
  proof (cases "\<exists>h. hd_of s ob = Some h \<and> w < h_len h")
    case True
    then obtain h where h: "hd_of s ob = Some h" "w < h_len h" by blast
    have n: "len_is ob (h_len h) s" using h by (simp add: len_is_def)
    have keep: "tables_ok (hd_mod ob (rehash_join p r) s')" "tables_ok (hd_mod ob (rehash_move ht b w r) s')"
      if "tables_ok s'" "len_is ob (h_len h) s'" "r < h_len h" for s' p b r
      using that h(2) by (auto simp: len_is_def intro!: tables_ok_mod tbl)
    show ?thesis using h n Suc.prems
      by (auto simp: Let_def intro!: Suc.IH keep sized_andthen [OF rehash_dup_len [OF rb]] sized_andthen [OF vacated_len]
        split: dup.split)
  next
    case False
    then show ?thesis using Suc.prems by (auto intro: outcome_ret split: option.split)
  qed
qed (auto intro: outcome_ret)

lemma rehash_secures:
  assumes rb: "ruby_keeps tables_ok rb"
  shows "secures tables_ok (h_rehash rb ob) any"
proof
  fix s :: "'a hvm"
  assume s: "tables_ok s"
  have l: "secures tables_ok (rehash_loop rb ob ht w n) any" for ht w n
    using rehash_loop_secures [OF rb] by (auto intro: securesI)
  show "outcome tables_ok any (h_rehash rb ob s)"
  proof (cases "hd_of s ob")
    case (Some h)
    have "tbl_ok h" by (rule tables_ok_hd [OF s Some])
    then show ?thesis using s
      by (auto simp: h_rehash_def Some Let_def intro!: outcome_ret tables_ok_put tables_ok_mod tbl outcome_andthen [OF l])
  qed (use s in \<open>auto simp: h_rehash_def intro: outcome_ret\<close>)
qed

section \<open>The calls of the VM\<close>

lemma get_secures:
  assumes rb: "ruby_keeps tables_ok rb"
  shows "secures tables_ok (hash_get rb v k) any"
  by (rule securesI) (auto simp: hash_get_def intro!: outcome_ret outcome_andthen [OF find_secures [OF rb]]
    split: option.split found.split)

lemma set_secures:
  assumes rb: "ruby_keeps tables_ok rb"
  shows "secures tables_ok (hash_set rb v k x) any"
  by (rule securesI) (auto simp: hash_set_def h_set_def intro!: raised securesD [OF frozen_secures [OF rb]]
    securesD [OF hset_secures [OF rb]] split: option.split)

lemma hash_delete_secures:
  assumes rb: "ruby_keeps tables_ok rb"
  shows "secures tables_ok (hash_delete rb v k) any"
  by (rule securesI) (auto simp: hash_delete_def intro!: outcome_ret securesD [OF delete_secures [OF rb]] split: option.split)

end
