(* ===== verification/HashNative.thy ===== *)
theory HashNative
  imports HashSafe
begin

text \<open>
  A Hash whose keys need no Ruby code (Integers, Symbols, Floats, Strings) is an insertion-ordered
  map: reading, storing and deleting through \<open>hash_get\<close>, \<open>hash_set\<close>, \<open>hash_delete\<close> (\<open>src/vm.rs\<close>,
  \<open>src/hashtable.rs\<close>) answer and update the list of entries as such a map does, whichever way the
  table keeps them, across its growth, its index rebuilds and its way back to a small table.
\<close>

section \<open>The table\<close>

definition native_ok :: "(obj_id \<Rightarrow> bytes option) \<Rightarrow> hash_data \<Rightarrow> bool" where
  "native_ok str h \<longleftrightarrow> keys_ok str h \<and> length (h_slots h) = h_len h \<and> h_len h \<le> h_n_used h \<and> h_n_used h \<le> h_ea_capa h \<and>
     (h_is_ht h \<or> h_ea_capa h \<le> AR_MAX_SIZE)"

lemma native_ok_keys:
  "native_ok str h \<Longrightarrow> keys_ok str h" "native_ok str h \<Longrightarrow> h_len h \<le> h_n_used h"
  by (simp_all add: native_ok_def)

text \<open>An operation that leaves keys, index and counts alone.\<close>

lemma keys_ok_same:
  assumes "keys_ok str h" "entry_keys h' = entry_keys h" "h_ib_bit h' = h_ib_bit h" "h_ib h' = h_ib h" "h_n_used h' = h_n_used h"
  shows "keys_ok str h'"
proof -
  have "entry_codes str h' = entry_codes str h"
    using arg_cong [OF assms(2), of "map (\<lambda>k. the (native_code str k))"] by (simp add: entry_keys_def entry_codes_def comp_def)
  then show ?thesis using assms by (simp add: keys_ok_def index_ok_def h_is_ht_def)
qed

lemma set_value_fields [simp]:
  "h_ib_bit (h_set_value_at h p v) = h_ib_bit h" "h_ib (h_set_value_at h p v) = h_ib h"
  "h_n_used (h_set_value_at h p v) = h_n_used h" "h_ea_capa (h_set_value_at h p v) = h_ea_capa h"
  "h_slots (h_set_value_at h p v) = h_slots h" "h_is_ht (h_set_value_at h p v) = h_is_ht h"
  by (simp_all add: h_set_value_at_def h_is_ht_def)

lemma map_fst_update: "map fst (xs[p := (fst (xs ! p), v)]) = map fst xs"
  by (induction xs arbitrary: p) (auto split: nat.split)

lemma set_value_keys [simp]: "entry_keys (h_set_value_at h p v) = entry_keys h"
  by (simp add: entry_keys_def h_set_value_at_def map_fst_update)

lemma native_set_value: "native_ok str h \<Longrightarrow> native_ok str (h_set_value_at h p v)"
  using keys_ok_same [of str h "h_set_value_at h p v"] by (simp add: native_ok_def)

lemma entries_set_value: "p < h_len h \<Longrightarrow> h_entries (h_set_value_at h p v) = (h_entries h)[p := (fst (h_entries h ! p), v)]"
  by (simp add: h_set_value_at_def)

lemma keys_ok_ar: "keys_ok str h \<Longrightarrow> entry_keys h' = entry_keys h \<Longrightarrow> \<not> h_is_ht h' \<Longrightarrow> keys_ok str h'"
  by (simp add: keys_ok_def)

lemma native_to_ar:
  assumes "native_ok str h" "h_len h \<le> AR_MAX_SIZE"
  shows "native_ok str (h_to_ar h)" "h_entries (h_to_ar h) = h_entries h" "\<not> h_is_ht (h_to_ar h)"
proof -
  show "h_entries (h_to_ar h) = h_entries h" "\<not> h_is_ht (h_to_ar h)"
    by (simp_all add: h_to_ar_def h_compress_def h_is_ht_def Let_def)
  then have "keys_ok str (h_to_ar h)" using assms(1) by (auto simp: native_ok_def entry_keys_def intro: keys_ok_ar)
  then show "native_ok str (h_to_ar h)" using assms
    by (auto simp: native_ok_def h_to_ar_def h_compress_def h_len_def Let_def ea_next_capa_for_def hash_consts)
qed

lemma native_unique_snoc:
  assumes "keys_ok str h" "native_key str k" "position (keq str k) (entry_keys h) = None"
  shows "(\<forall>k \<in> set (entry_keys h @ [k]). native_key str k) \<and> native.unique str (entry_keys h @ [k])"
  using assms native.unique_snoc [of str "entry_keys h" k] by (auto simp: keys_ok_def position_None)

lemma native_ar_push:
  assumes "native_ok str h" "\<not> h_is_ht h" "h_n_used h < h_ea_capa h" "native_key str k"
    "position (keq str k) (entry_keys h) = None"
  shows "native_ok str (h_ar_push h k v)" "h_entries (h_ar_push h k v) = h_entries h @ [(k, v)]"
proof -
  show "h_entries (h_ar_push h k v) = h_entries h @ [(k, v)]" by (simp add: h_ar_push_def)
  have "entry_keys (h_ar_push h k v) = entry_keys h @ [k]" by (simp add: h_ar_push_def entry_keys_def)
  then have "keys_ok str (h_ar_push h k v)"
    using native_unique_snoc [OF _ assms(4,5)] assms(1,2) by (simp add: keys_ok_def native_ok_def h_ar_push_def h_is_ht_def)
  then show "native_ok str (h_ar_push h k v)" using assms
    by (simp add: native_ok_def h_ar_push_def h_len_def h_is_ht_def)
qed

text \<open>Room in a small table: an index instead, or a slot to take.\<close>

lemma native_ar_make_room:
  assumes "native_ok str h" "\<not> h_is_ht h"
  shows "h_ar_make_room h = (h, True) \<and> h_len h = AR_MAX_SIZE \<and> h_n_used h = AR_MAX_SIZE \<and> h_ea_capa h = AR_MAX_SIZE \<or>
    (\<exists>h'. h_ar_make_room h = (h', False) \<and> native_ok str h' \<and> h_entries h' = h_entries h \<and> \<not> h_is_ht h' \<and>
      h_n_used h' < h_ea_capa h')"
proof -
  have w: "h_len h \<le> h_n_used h" "h_n_used h \<le> h_ea_capa h" "h_ea_capa h \<le> 16" "length (h_slots h) = h_len h"
    using assms by (auto simp: native_ok_def hash_consts)
  have k: "keys_ok str h'" if "h_entries h' = h_entries h" "\<not> h_is_ht h'" for h'
    using keys_ok_ar [OF native_ok_keys(1) [OF assms(1)]] that by (simp add: entry_keys_def)
  consider (some) "h_ea_capa h \<noteq> h_n_used h" | (full) "h_ea_capa h = h_n_used h" "h_len h = h_n_used h" "h_len h = 16"
    | (grow) "h_ea_capa h = h_n_used h" "h_len h = h_n_used h" "h_len h < 16"
    | (holes) "h_ea_capa h = h_n_used h" "h_len h < h_n_used h"
    using w by linarith
  then show ?thesis
  proof cases
    case some
    then show ?thesis using w assms by (simp add: h_ar_make_room_def Let_def)
  next
    case full
    then show ?thesis by (simp add: h_ar_make_room_def Let_def hash_consts)
  next
    case grow
    let ?h = "h_adjust_ea h (h_len h) AR_MAX_SIZE"
    have "h_n_used h < ea_next_capa_for (h_n_used h) 16 \<and> ea_next_capa_for (h_n_used h) 16 \<le> 16"
      using grow w by (auto simp: ea_next_capa_for_def Let_def hash_consts)
    then show ?thesis using grow w k [of ?h] assms(2)
      by (auto simp: h_ar_make_room_def Let_def native_ok_def h_adjust_ea_def h_len_def h_is_ht_def hash_consts)
  next
    case holes
    let ?h = "h_adjust_ea (h_compress h) (h_len h) (min (h_ea_capa h) AR_MAX_SIZE)"
    have "h_len h < ea_next_capa_for (h_len h) (h_n_used h) \<and> ea_next_capa_for (h_len h) (h_n_used h) \<le> 16"
      using holes w by (auto simp: ea_next_capa_for_def Let_def hash_consts)
    then show ?thesis using holes w k [of ?h] assms(2)
      by (auto simp: h_ar_make_room_def Let_def native_ok_def h_adjust_ea_def h_compress_def h_len_def h_is_ht_def hash_consts)
  qed
qed

section \<open>The index\<close>

definition rebuilt :: "(obj_id \<Rightarrow> bytes option) \<Rightarrow> hash_data \<Rightarrow> nat \<Rightarrow> hash_data" where
  "rebuilt str h b = place_all (h_set_n_used (ht_reset h b) (h_len h)) 0 (entry_codes str h)"

lemma rebuilt_fields [simp]:
  "h_entries (rebuilt str h b) = h_entries h" "h_ib_bit (rebuilt str h b) = b" "h_n_used (rebuilt str h b) = h_len h"
  "h_slots (rebuilt str h b) = h_slots h" "h_ea_capa (rebuilt str h b) = h_ea_capa h"
  by (simp_all add: rebuilt_def h_set_n_used_def ht_reset_def)

lemma native_rebuilt:
  assumes "\<forall>k \<in> set (entry_keys h). native_key str k" "native.unique str (entry_keys h)"
    "0 < b" "b \<le> 31" "h_len h < 2 ^ b" "h_len h \<le> h_ea_capa h" "length (h_slots h) = h_len h"
  shows "native_ok str (rebuilt str h b)"
proof -
  have "index_ok (rebuilt str h b) (entry_codes str h)"
    using rebuild_ok [of b "entry_codes str h" h] assms(3-5) by (simp add: rebuilt_def h_len_def)
  then show ?thesis using assms
    by (simp add: native_ok_def keys_ok_def entry_keys_def entry_codes_def h_is_ht_def h_len_def)
qed

lemma native_ht_push:
  assumes ok: "native_ok str h" "h_is_ht h" and k: "native_key str k" "position (keq str k) (entry_keys h) = None"
    and room: "Suc (h_n_used h) < 2 ^ h_ib_bit h" "h_n_used h < EA_MAX_CAPA"
    and b: "probe_native str h k = Some (Vacant b)"
  shows "native_ok str (h_ht_push h b k v)" "h_entries (h_ht_push h b k v) = h_entries h @ [(k, v)]"
    "h_is_ht (h_ht_push h b k v)"
proof -
  show e: "h_entries (h_ht_push h b k v) = h_entries h @ [(k, v)]"
    by (simp add: h_ht_push_def Let_def h_adjust_ea_def)
  obtain kb c where kc: "key_bytes str k = Some kb" "native_code str k = Some c"
    using k(1) key_bytes_native [of str k] by (auto simp: native_key_def)
  have i: "index_ok h (entry_codes str h)" "h_n_used h < 2 ^ h_ib_bit h"
    and ks: "\<forall>k \<in> set (entry_keys h). native_key str k" "native.unique str (entry_keys h)"
    using ok by (auto simp: native_ok_def keys_ok_def)
  obtain n where n: "n < 2 ^ h_ib_bit h" "h_ib h ! pr (h_ib_bit h) c n = EMPTY"
    "\<forall>m < n. h_ib h ! pr (h_ib_bit h) c m \<noteq> EMPTY" "b = pr (h_ib_bit h) c n"
    using probe_native_spec [OF i ks kc] b by (metis option.inject probe_result.distinct(1) probe_result.inject(2))
  have ib: "ib_ok (h_ib_bit h) (h_ib h) (entry_codes str h) (h_n_used h)" using i by (simp add: index_ok_def)
  then have len: "length (h_ib h) = 2 ^ h_ib_bit h" "h_ib_bit h \<le> 31" by (simp_all add: ib_ok_def)
  have lc: "length (entry_codes str h) < 2 ^ h_ib_bit h"
    using native_ok_keys(2) [OF ok(1)] i(2) by (simp add: h_len_def)
  let ?h = "h_ht_push h b k v"
  have bl: "b < length (h_ib h)" using n(4) pr_lt [OF len(2)] len(1) by simp
  have f: "h_ib_bit ?h = h_ib_bit h" "h_ib ?h = (h_ib h)[b := h_len h]" "h_n_used ?h = Suc (h_n_used h)"
    "h_slots ?h = h_slots h @ [h_n_used h]" "h_n_used ?h \<le> h_ea_capa ?h"
    using bl room(2) ok(1) ea_next_capa_grows(1) [of "h_n_used h" EA_MAX_CAPA]
    by (auto simp: h_ht_push_def Let_def h_adjust_ea_def h_len_def native_ok_def hash_consts)
  have "entry_codes str ?h = entry_codes str h @ [c]" using e kc by (simp add: entry_codes_def)
  then have "index_ok ?h (entry_codes str ?h)"
    using ib_ok_add [OF ib n(1-3) lc] f room(1) i by (simp add: index_ok_def h_is_ht_def n(4) h_len_def)
  moreover have "entry_keys ?h = entry_keys h @ [k]" using e by (simp add: entry_keys_def)
  ultimately have "keys_ok str ?h"
    using native_unique_snoc [OF native_ok_keys(1) [OF ok(1)] k] room(1) f by (simp add: keys_ok_def)
  moreover have "length (h_slots ?h) = h_len ?h" "h_len ?h \<le> h_n_used ?h" "h_n_used ?h \<le> h_ea_capa ?h"
    using e f ok(1) by (auto simp: native_ok_def h_len_def)
  ultimately show "native_ok str ?h" using f ok(2) by (simp add: native_ok_def h_is_ht_def)
  show "h_is_ht ?h" using f ok(2) by (simp add: h_is_ht_def)
qed

lemma entry_codes_remove:
  "entry_codes str (fst (h_remove_entry h p)) = list_remove_at p (entry_codes str h)"
  "entry_keys (fst (h_remove_entry h p)) = list_remove_at p (entry_keys h)"
  by (simp_all add: entry_codes_def entry_keys_def h_remove_entry_def Let_def list_remove_at_def take_map drop_map)

lemma entries_remove: "h_entries (fst (h_remove_entry h p)) = list_remove_at p (h_entries h)"
  "snd (h_remove_entry h p) = h_entries h ! p"
  by (simp_all add: h_remove_entry_def Let_def)

lemma unique_remove:
  assumes "native.unique str ks" "p < length ks"
  shows "native.unique str (list_remove_at p ks)"
proof (unfold native.unique_def, intro allI impI)
  fix i j
  assume i: "i < length (list_remove_at p ks)" and j: "j < length (list_remove_at p ks)"
    and e: "keq str (list_remove_at p ks ! i) (list_remove_at p ks ! j)"
  let ?f = "\<lambda>q. if q < p then q else Suc q"
  have "?f i < length ks" "?f j < length ks" "keq str (ks ! ?f i) (ks ! ?f j)"
    using i j e assms(2) nth_list_remove_at [OF assms(2)] by (auto simp: length_list_remove_at simp del: if_split) 
  then have "?f i = ?f j" using assms(1) unfolding native.unique_def by blast
  then show "i = j" by (auto split: if_splits)
qed

lemma native_remove:
  assumes ok: "native_ok str h" and p: "p < h_len h"
  shows "native_ok str (fst (h_remove_entry h p))"
proof -
  let ?h = "fst (h_remove_entry h p)"
  have f: "h_ib_bit ?h = h_ib_bit h" "h_is_ht ?h = h_is_ht h" "h_n_used ?h = h_n_used h" "h_ea_capa ?h = h_ea_capa h"
    "h_slots ?h = list_remove_at p (h_slots h)"
    "h_is_ht h \<Longrightarrow> h_ib ?h = map (bucket_removed p) (h_ib h)"
    by (simp_all add: h_remove_entry_def Let_def h_is_ht_def)
  have len: "p < length (entry_codes str h)" "p < length (entry_keys h)" using p by (simp_all add: h_len_def entry_keys_def)
  have "index_ok ?h (entry_codes str ?h)" if "h_is_ht h"
    using ok that ib_ok_remove [OF _ len(1)] f
    by (simp add: native_ok_def keys_ok_def index_ok_def entry_codes_remove)
  moreover have "\<forall>k \<in> set (entry_keys ?h). native_key str k"
    using ok by (auto simp: native_ok_def keys_ok_def entry_codes_remove list_remove_at_def dest: in_set_takeD in_set_dropD)
  ultimately have "keys_ok str ?h"
    using ok unique_remove [OF _ len(2)] f by (simp add: native_ok_def keys_ok_def entry_codes_remove)
  moreover have "h_len ?h = h_len h - 1" by (rule len_remove [OF p])
  ultimately show ?thesis using ok p f by (auto simp: native_ok_def length_list_remove_at)
qed

text \<open>Three quarters of the buckets leave one empty.\<close>

lemma upper_bound_lt:
  assumes "0 < b" "b \<le> 31"
  shows "ib_upper_bound_for (push_bit b 1) < 2 ^ b"
proof -
  let ?x = "drop_bit 2 (push_bit b 1) OR drop_bit 1 (push_bit b 1) :: u32"
  have e: "?x = take_bit b ?x"
  proof (rule bit_word_eqI)
    fix n :: nat
    show "bit ?x n = bit (take_bit b ?x) n" using assms by (auto simp: bit_simps)
  qed
  have "unat ?x = take_bit b (unat ?x)" using arg_cong [OF e, of unat] unfolding unsigned_take_bit_eq .
  then have "unat ?x < 2 ^ b" using take_bit_nat_less_exp [of b "unat ?x"] by simp
  then show ?thesis by (simp add: ib_upper_bound_for_def)
qed

lemma upper_bound_31: "ib_upper_bound_for (push_bit 31 1) = 1610612736"
  by (simp add: ib_upper_bound_for_def)

lemma native_ht_make_room:
  assumes ok: "native_ok str h" "h_is_ht h" and lim: "h_len h < 2 ^ 30"
  obtains (fits) "h_ht_make_room h = (h, Fits)" "Suc (h_n_used h) < 2 ^ h_ib_bit h" "h_n_used h < EA_MAX_CAPA"
  | (rebuild) h' b where "h_ht_make_room h = (h', Rebuild b)" "h_entries h' = h_entries h" "h_slots h' = h_slots h \<or> h_slots h' = [0..<length (h_slots h)]"
      "0 < b" "b \<le> 31" "Suc (h_len h) < 2 ^ b" "h_len h \<le> h_ea_capa h'" "h_is_ht h'"
  | (small) "h_ht_make_room h = (h, ToAr)" "h_len h \<le> AR_MAX_SIZE"
proof -
  let ?b = "h_ib_bit h" and ?u = "ib_upper_bound_for (push_bit (h_ib_bit h) 1)"
  have b: "0 < ?b" "?b \<le> 31" "h_n_used h < 2 ^ ?b"
    using ok by (auto simp: native_ok_def keys_ok_def index_ok_def ib_ok_def h_is_ht_def)
  have w: "h_len h \<le> h_n_used h" "h_n_used h \<le> h_ea_capa h" using ok by (auto simp: native_ok_def)
  have u: "?u < 2 ^ ?b" by (rule upper_bound_lt [OF b(1,2)])
  have c: "unat (push_bit ?b 1 :: u32) = 2 ^ ?b"
  proof -
    have "(2 :: nat) ^ ?b < 2 ^ 32" using b by (intro power_strict_increasing) auto
    then show ?thesis by (simp only: unsigned_push_bit_eq) (simp add: take_bit_eq_mod push_bit_eq_mult)
  qed
  then have c': "unat ((2 :: u32) ^ ?b) = 2 ^ ?b" by simp
  have ea: "h_len h \<le> ea_next_capa_for (h_len h) (h_ea_capa h)"
    using w by (auto simp: ea_next_capa_for_def Let_def hash_consts)
  have max: "(2 :: nat) ^ ?b \<le> 2 ^ 31" using b(2) by (intro power_increasing) auto
  consider (big) "?u \<le> h_len h" | (same) "h_len h < ?u" "h_len h = h_n_used h"
    | (over) "h_len h < ?u" "h_len h \<noteq> h_n_used h" "2 ^ ?b - 2 \<le> h_n_used h"
    | (edge) "h_len h < ?u" "h_len h \<noteq> h_n_used h" "h_n_used h < 2 ^ ?b - 2" "h_ea_capa h = h_n_used h"
    | (plain) "h_len h < ?u" "h_len h \<noteq> h_n_used h" "h_n_used h < 2 ^ ?b - 2" "h_ea_capa h \<noteq> h_n_used h"
    by linarith
  then show ?thesis
  proof cases
    case big
    have "?b \<noteq> 31" using big lim upper_bound_31 by auto
    moreover have "Suc (h_len h) < 2 ^ (?b + 1)" using w b by simp
    ultimately show ?thesis
      using big b w by (intro rebuild [of "if h_len h \<noteq> h_n_used h then h_compress h else h" "?b + 1"])
        (auto simp: h_ht_make_room_def Let_def h_compress_def h_is_ht_def)
  next
    case same
    then show ?thesis using u lim b
      by (intro fits) (auto simp: h_ht_make_room_def Let_def hash_consts)
  next
    case over
    then show ?thesis using u b ea
      by (intro rebuild [of "h_adjust_ea (h_compress h) (h_len h) (h_ea_capa h)" ?b])
        (auto simp: h_ht_make_room_def Let_def h_compress_def h_adjust_ea_def h_is_ht_def h_len_def c' hash_consts)
  next
    case edge
    note e = edge
    show ?thesis
    proof (cases "h_len h \<le> AR_MAX_SIZE")
      case True
      then show ?thesis using e c' by (intro small) (simp_all add: h_ht_make_room_def Let_def hash_consts)
    next
      case False
      show ?thesis
      proof (cases "ea_next_capa_for (h_len h) EA_MAX_CAPA \<le> h_ea_capa h")
        case True
        then show ?thesis using e False u b ea c'
          by (intro rebuild [of "h_adjust_ea (h_compress h) (h_len h) (h_ea_capa h)" ?b])
            (auto simp: h_ht_make_room_def Let_def h_compress_def h_adjust_ea_def h_is_ht_def h_len_def hash_consts)
      next
        case nf: False
        then show ?thesis using e False max
          by (intro fits) (auto simp: h_ht_make_room_def Let_def c' hash_consts)
      qed
    qed
  next
    case plain
    then show ?thesis using max by (intro fits) (auto simp: h_ht_make_room_def Let_def c' hash_consts)
  qed
qed

section \<open>The heap around the table\<close>

definition live :: "'w hvm \<Rightarrow> rvalue \<Rightarrow> bool" where
  "live s v \<longleftrightarrow> (case v of VObj i \<Rightarrow> \<not> heap_is_free (vm_heap s) i | _ \<Rightarrow> True)"

definition native_hash :: "'w hvm \<Rightarrow> obj_id \<Rightarrow> hash_data \<Rightarrow> bool" where
  "native_hash s ob h \<longleftrightarrow> heap_inv (vm_heap s) \<and> \<not> heap_is_free (vm_heap s) ob \<and> hd_of s ob = Some h \<and>
     native_ok (vm_string s) h \<and> (\<forall>k \<in> set (entry_keys h). live s k)"

text \<open>Every live object but \<open>ob\<close> is what it was.\<close>

definition rest_same :: "obj_id \<Rightarrow> 'w hvm \<Rightarrow> 'w hvm \<Rightarrow> bool" where
  "rest_same ob s s' \<longleftrightarrow> (\<forall>i. \<not> heap_is_free (vm_heap s) i \<longrightarrow> \<not> heap_is_free (vm_heap s') i \<and>
     (i \<noteq> ob \<longrightarrow> heap_get (vm_heap s') i = heap_get (vm_heap s) i))"

lemma rest_same_refl [simp]: "rest_same ob s s"
  by (simp add: rest_same_def)

lemma rest_same_trans: "rest_same ob s s' \<Longrightarrow> rest_same ob s' s'' \<Longrightarrow> rest_same ob s s''"
  unfolding rest_same_def by metis

lemma hd_of_string: "hd_of s ob = Some h \<Longrightarrow> vm_string s ob = None"
  by (auto simp: hd_of_def vm_string_def heap_string_def split: option.splits obj_kind.splits)

lemma rest_same_string:
  assumes "rest_same ob s s'" "hd_of s ob = Some h" "hd_of s' ob = Some h'" "\<not> heap_is_free (vm_heap s) i"
  shows "vm_string s' i = vm_string s i"
proof (cases "i = ob")
  case True
  then show ?thesis using hd_of_string [OF assms(2)] hd_of_string [OF assms(3)] by simp
next
  case False
  then show ?thesis using assms(1,4) by (simp add: rest_same_def vm_string_def heap_string_def heap_kind_def)
qed

lemma rest_same_frozen: "rest_same ob s s' \<Longrightarrow> \<not> heap_is_free (vm_heap s) i \<Longrightarrow> i \<noteq> ob \<Longrightarrow> frozen_at s' i = frozen_at s i"
  by (simp add: rest_same_def frozen_at_def)

text \<open>The table only reads the strings of its keys.\<close>

definition str_agree :: "(obj_id \<Rightarrow> bytes option) \<Rightarrow> (obj_id \<Rightarrow> bytes option) \<Rightarrow> rvalue \<Rightarrow> bool" where
  "str_agree str str' k \<longleftrightarrow> (case k of VObj i \<Rightarrow> str' i = str i | _ \<Rightarrow> True)"

lemma native_code_agree: "str_agree str str' k \<Longrightarrow> native_code str' k = native_code str k"
  by (simp add: str_agree_def native_code_def split: rvalue.splits)

lemma keq_agree: "str_agree str str' a \<Longrightarrow> str_agree str str' b \<Longrightarrow> keq str' a b = keq str a b"
  by (auto simp: str_agree_def keq_def key_bytes_def native_eql_def split: rvalue.splits option.splits)

lemma native_ok_agree:
  assumes ok: "native_ok str h" and a: "\<forall>k \<in> set (entry_keys h). str_agree str str' k"
  shows "native_ok str' h"
proof -
  have "entry_codes str' h = entry_codes str h"
    using a by (auto simp: entry_codes_def entry_keys_def native_code_agree)
  moreover have "keq str' (entry_keys h ! i) (entry_keys h ! j) = keq str (entry_keys h ! i) (entry_keys h ! j)"
    if "i < length (entry_keys h)" "j < length (entry_keys h)" for i j
    using a that by (simp add: keq_agree)
  moreover have "\<forall>k \<in> set (entry_keys h). native_key str' k = native_key str k"
    using a native_code_agree [of str str'] by (metis native_key_def)
  ultimately show ?thesis using ok by (simp add: native_ok_def keys_ok_def native.unique_def)
qed

lemma position_agree:
  assumes "str_agree str str' key" "\<forall>k \<in> set ks. str_agree str str' k"
  shows "position (keq str' key) ks = position (keq str key) ks"
proof -
  have "takeWhile (\<lambda>x. \<not> keq str' key x) ks = takeWhile (\<lambda>x. \<not> keq str key x) ks"
    using assms by (intro takeWhile_cong refl) (simp add: keq_agree)
  then show ?thesis by (simp add: position_def)
qed

lemma live_agree: "rest_same ob s s' \<Longrightarrow> hd_of s ob = Some h \<Longrightarrow> hd_of s' ob = Some h' \<Longrightarrow> live s k \<Longrightarrow>
    str_agree (vm_string s) (vm_string s') k \<and> live s' k"
  using rest_same_string [of ob s s' h h'] by (cases k) (auto simp: live_def str_agree_def rest_same_def)

text \<open>Writing the table back.\<close>

lemma hd_of_put: "hd_of s ob = Some h \<Longrightarrow> hd_of (hd_put ob h' s) ob = Some h'"
  by (auto simp: hd_of_def hd_put_def vm_update_def heap_kind_def heap_get_update split: option.splits obj_kind.splits)

lemma rest_same_put: "hd_of s ob = Some h \<Longrightarrow> rest_same ob s (hd_put ob h' s)"
  by (auto simp: rest_same_def hd_put_def vm_update_def heap_get_update)
    (auto simp: heap_is_free_def heap_update_def split: if_splits)

lemma heap_inv_put: "heap_inv (vm_heap s) \<Longrightarrow> heap_inv (vm_heap (hd_put ob h s))"
  by (auto simp: heap_inv_def hd_put_def vm_update_def heap_update_def heap_is_free_def)

lemma native_hash_put:
  assumes n: "native_hash s ob h" and ok: "native_ok (vm_string s) h'" and k: "\<forall>k \<in> set (entry_keys h'). live s k"
  shows "native_hash (hd_put ob h' s) ob h'" "rest_same ob s (hd_put ob h' s)"
proof -
  have h: "hd_of s ob = Some h" using n by (simp add: native_hash_def)
  show r: "rest_same ob s (hd_put ob h' s)" by (rule rest_same_put [OF h])
  note h' = hd_of_put [OF h, of h']
  have a: "\<forall>k \<in> set (entry_keys h'). str_agree (vm_string s) (vm_string (hd_put ob h' s)) k \<and> live (hd_put ob h' s) k"
    using k live_agree [OF r h h'] by blast
  then have "native_ok (vm_string (hd_put ob h' s)) h'" using native_ok_agree [OF ok] by blast
  then show "native_hash (hd_put ob h' s) ob h'"
    using n r h' a heap_inv_put by (auto simp: native_hash_def rest_same_def)
qed

section \<open>The key a store keeps\<close>

text \<open>An unfrozen String is kept as a frozen copy, a frozen one as some frozen String of the same bytes.\<close>

definition stored_key :: "'w hvm \<Rightarrow> rvalue \<Rightarrow> 'w hvm \<Rightarrow> rvalue \<Rightarrow> bool" where
  "stored_key s key s' k \<longleftrightarrow> (case key of
      VObj x \<Rightarrow> (case vm_string s x of
          Some b \<Rightarrow> \<exists>n. k = VObj n \<and> vm_string s' n = Some b \<and> frozen_at s' n
        | None \<Rightarrow> k = key)
    | _ \<Rightarrow> k = key)"

lemma stored_key_cases:
  assumes "native_key (vm_string s) key"
  obtains (str) x b where "key = VObj x" "vm_string s x = Some b"
  | (plain) "\<forall>x. key \<noteq> VObj x"
  using assms by (cases key) (auto simp: native_key_def native_code_def split: option.splits)

lemma stored_key_native:
  "native_key (vm_string s) key \<Longrightarrow> stored_key s key s' k \<Longrightarrow> native_code (vm_string s') k = native_code (vm_string s) key"
  by (auto simp: native_key_def stored_key_def native_code_def split: rvalue.splits option.splits)

lemma stored_key_position:
  assumes key: "native_key (vm_string s) key" and st: "stored_key s key s' k"
    and a: "\<forall>x \<in> set ks. str_agree (vm_string s) (vm_string s') x"
  shows "position (keq (vm_string s') k) ks = position (keq (vm_string s) key) ks"
proof -
  have "keq (vm_string s') k x = keq (vm_string s) key x" if "x \<in> set ks" for x
    using key st bspec [OF a that]
    by (auto simp: native_key_def stored_key_def native_code_def keq_def key_bytes_def native_eql_def str_agree_def
      split: rvalue.splits option.splits)
  then have "takeWhile (\<lambda>x. \<not> keq (vm_string s') k x) ks = takeWhile (\<lambda>x. \<not> keq (vm_string s) key x) ks"
    by (intro takeWhile_cong refl) simp
  then show ?thesis by (simp add: position_def)
qed

lemma stored_key_rest:
  assumes "stored_key s key s1 k" "rest_same ob s1 s2" "hd_of s1 ob = Some h" "hd_of s2 ob = Some h2" "live s1 k"
  shows "stored_key s key s2 k"
proof -
  have "vm_string s2 n = vm_string s1 n \<and> (vm_string s1 n \<noteq> None \<longrightarrow> frozen_at s2 n = frozen_at s1 n)" if "k = VObj n" for n
    using that rest_same_string [OF assms(2-4), of n] rest_same_frozen [OF assms(2), of n] assms(5) hd_of_string [OF assms(3)]
    by (cases "n = ob") (auto simp: live_def)
  then show ?thesis using assms(1) by (fastforce simp: stored_key_def split: rvalue.splits option.splits)
qed

text \<open>Making the copy moves nothing else.\<close>

lemma key_for_native:
  assumes n: "native_hash s ob h" and room: "length (hp_objs (vm_heap s)) < B32"
    and key: "native_key (vm_string s) key" "live s key" and k: "h_key_for rb key s = (s', k)"
  shows "native_hash s' ob h \<and> rest_same ob s s' \<and> stored_key s key s' k \<and> live s' k"
proof (cases "\<exists>x b. key = VObj x \<and> vm_string s x = Some b \<and> \<not> frozen_at s x")
  case False
  then have "s' = s \<and> k = key" using k by (cases key) (auto simp: h_key_for_def split: option.splits if_splits)
  moreover have "stored_key s key s key"
    using False by (auto simp: stored_key_def split: rvalue.split option.split)
  ultimately show ?thesis using n key by simp
next
  case True
  then obtain x b where x: "key = VObj x" "vm_string s x = Some b" "\<not> frozen_at s x" by blast
  obtain hp i where al: "heap_alloc (vm_heap s) (rb_c_string rb) (K_String b) = (hp, i)" by (metis surj_pair)
  let ?o = "(new_object (rb_c_string rb) (K_String b))\<lparr>ho_frozen := True\<rparr>"
  have s': "s' = s\<lparr>vm_heap := heap_update hp i (\<lambda>x. x\<lparr>ho_frozen := True\<rparr>)\<rparr>" "k = VObj i"
    using k x by (auto simp: h_key_for_def vm_alloc_def al vm_update_def)
  have inv: "heap_inv (vm_heap s)" and ob: "\<not> heap_is_free (vm_heap s) ob" and h: "hd_of s ob = Some h"
    using n by (simp_all add: native_hash_def)
  note f = heap_alloc_fresh [OF inv room al]
  have fr: "heap_is_free (vm_heap s') j = heap_is_free hp j" for j
    by (simp add: s' heap_is_free_def heap_update_def)
  have g: "heap_get (vm_heap s') j = (if j = i then Some ?o else heap_get hp j)" for j
    using f(2) by (simp add: s' heap_get_update)
  have ne: "ob \<noteq> i" using f(1) ob by auto
  have r: "rest_same ob s s'" unfolding rest_same_def fr g using f(1,4) by auto
  have hd': "hd_of s' ob = Some h"
    using h f(4) [OF ne ob] ne by (simp add: hd_of_def heap_kind_def g)
  have "heap_inv (vm_heap s')"
    using f(5) by (auto simp: s' heap_inv_def heap_update_def heap_is_free_def)
  moreover have a: "\<forall>k \<in> set (entry_keys h). str_agree (vm_string s) (vm_string s') k \<and> live s' k"
    using n live_agree [OF r h hd'] by (auto simp: native_hash_def)
  moreover have "native_ok (vm_string s') h"
    using n a native_ok_agree [of "vm_string s" h "vm_string s'"] by (simp add: native_hash_def)
  moreover have "\<not> heap_is_free (vm_heap s') ob" using r ob by (simp add: rest_same_def)
  ultimately have "native_hash s' ob h" using hd' by (simp add: native_hash_def)
  moreover have "vm_string s' i = Some b \<and> frozen_at s' i"
    by (simp add: vm_string_def heap_string_def heap_kind_def frozen_at_def g new_object_def)
  moreover have "live s' k" using f(3) by (simp add: live_def s'(2) fr)
  ultimately show ?thesis using r x s'(2) by (simp add: stored_key_def)
qed

section \<open>Storing\<close>

text \<open>What a store leaves: the entry of the key overwritten, or a new one at the end.\<close>

definition set_result :: "'w hvm \<Rightarrow> obj_id \<Rightarrow> hash_data \<Rightarrow> rvalue \<Rightarrow> rvalue \<Rightarrow> ('w, unit) res \<Rightarrow> bool" where
  "set_result s ob h key v r \<longleftrightarrow> (\<exists>s' h'. r = Some (s', Inr ()) \<and> native_hash s' ob h' \<and> rest_same ob s s' \<and>
     (case position (keq (vm_string s) key) (entry_keys h) of
        Some p \<Rightarrow> h_entries h' = (h_entries h)[p := (fst (h_entries h ! p), v)]
      | None \<Rightarrow> \<exists>k. stored_key s key s' k \<and> h_entries h' = h_entries h @ [(k, v)]))"

lemma set_hit:
  assumes n: "native_hash s ob h" and p: "position (keq (vm_string s) key) (entry_keys h) = Some p"
  shows "set_result s ob h key v (ret () (hd_mod ob (\<lambda>h. h_set_value_at h p v) s))"
proof -
  have h: "hd_of s ob = Some h" "native_ok (vm_string s) h" "\<forall>k \<in> set (entry_keys h). live s k"
    using n by (simp_all add: native_hash_def)
  have "p < h_len h" using p by (simp add: position_Some) (simp add: entry_keys_def h_len_def)
  then show ?thesis
    using native_hash_put [OF n native_set_value [OF h(2)], of p v] h p
    by (auto simp: set_result_def hd_mod_def ret_def entries_set_value)
qed

text \<open>The bucket to take depends on the code and the index alone.\<close>

lemma vacant_same:
  assumes ok: "native_ok str h" "h_is_ht h" and k: "native_key str k" and b: "probe_native str h k = Some (Vacant b)"
    and ok': "native_ok str' h" and k': "native_code str' k' = native_code str k"
    and p': "position (keq str' k') (entry_keys h) = None"
  shows "probe_native str' h k' = Some (Vacant b)"
proof -
  obtain kb c where kc: "key_bytes str k = Some kb" "native_code str k = Some c"
    using k key_bytes_native [of str k] by (auto simp: native_key_def)
  obtain kb' where kc': "key_bytes str' k' = Some kb'" "native_code str' k' = Some c"
    using k' kc(2) key_bytes_native [of str' k'] by auto
  have i: "index_ok h (entry_codes str h)" "index_ok h (entry_codes str' h)" "h_n_used h < 2 ^ h_ib_bit h"
    and ks: "\<forall>k \<in> set (entry_keys h). native_key str k" "native.unique str (entry_keys h)"
      "\<forall>k \<in> set (entry_keys h). native_key str' k" "native.unique str' (entry_keys h)"
    using ok ok' by (auto simp: native_ok_def keys_ok_def)
  obtain n where n: "h_ib h ! pr (h_ib_bit h) c n = EMPTY" "\<forall>m < n. h_ib h ! pr (h_ib_bit h) c m \<noteq> EMPTY"
    "b = pr (h_ib_bit h) c n"
    using probe_native_spec [OF i(1,3) ks(1,2) kc] b by (metis option.inject probe_result.distinct(1) probe_result.inject(2))
  from i(2,3) ks(3,4) kc' show ?thesis
  proof (cases rule: probe_native_spec)
    case (hit p)
    then have "entry_keys h ! p \<in> set (entry_keys h)" by (simp add: entry_keys_def h_len_def)
    then show ?thesis using hit(2) p' by (auto simp: position_None)
  next
    case (vacant m)
    then have "m = n" using n by (metis linorder_neqE_nat)
    then show ?thesis using vacant n by simp
  qed
qed

lemma set_vacant:
  assumes n: "native_hash s ob h" "h_is_ht h" and room: "length (hp_objs (vm_heap s)) < B32"
    and key: "native_key (vm_string s) key" "live s key"
    and p: "position (keq (vm_string s) key) (entry_keys h) = None"
    and b: "probe_native (vm_string s) h key = Some (Vacant b)"
    and fit: "Suc (h_n_used h) < 2 ^ h_ib_bit h" "h_n_used h < EA_MAX_CAPA"
  shows "set_result s ob h key v (ht_store rb ob b key v s)"
proof -
  have h: "hd_of s ob = Some h" using n by (simp add: native_hash_def)
  obtain s1 k where k: "h_key_for rb key s = (s1, k)" by (metis surj_pair)
  note kf = key_for_native [OF n(1) room key k]
  have h1: "hd_of s1 ob = Some h" "native_ok (vm_string s1) h" "\<forall>x \<in> set (entry_keys h). live s1 x" "live s1 k"
    using kf by (simp_all add: native_hash_def)
  have a: "\<forall>x \<in> set (entry_keys h). str_agree (vm_string s) (vm_string s1) x"
    using n(1) kf live_agree [OF _ h h1(1)] by (auto simp: native_hash_def)
  have nk: "native_key (vm_string s1) k" using stored_key_native [OF key(1)] kf key(1) by (simp add: native_key_def)
  have pk: "position (keq (vm_string s1) k) (entry_keys h) = None" using stored_key_position [OF key(1) _ a] kf p by simp
  have "native_ok (vm_string s) h" using n(1) by (simp add: native_hash_def)
  then have "probe_native (vm_string s1) h k = Some (Vacant b)"
    using vacant_same [OF _ n(2) key(1) b h1(2) _ pk] stored_key_native [OF key(1)] kf by blast
  note pu = native_ht_push [OF h1(2) n(2) nk pk fit this, of v]
  have "\<forall>x \<in> set (entry_keys (h_ht_push h b k v)). live s1 x"
    using h1(3,4) by (auto simp: entry_keys_def pu(2))
  note put = native_hash_put [OF kf [THEN conjunct1] pu(1) this]
  have "stored_key s key (hd_put ob (h_ht_push h b k v) s1) k"
    using stored_key_rest [OF _ put(2) h1(1) hd_of_put [OF h1(1)] h1(4)] kf by blast
  moreover have "rest_same ob s (hd_put ob (h_ht_push h b k v) s1)" using rest_same_trans kf put(2) by blast
  moreover have "ht_store rb ob b key v s = Some (hd_put ob (h_ht_push h b k v) s1, Inr ())"
    using h h1(1) fit(2) k by (auto simp: ht_store_def hd_mod_def ret_def)
  ultimately show ?thesis using put(1) pu(2) p by (auto simp: set_result_def)
qed

lemma set_fit_native:
  assumes n: "native_hash s ob h" "h_is_ht h" and room: "length (hp_objs (vm_heap s)) < B32"
    and key: "native_key (vm_string s) key" "live s key"
    and fit: "Suc (h_n_used h) < 2 ^ h_ib_bit h" "h_n_used h < EA_MAX_CAPA"
  shows "set_result s ob h key v (ht_set_fit rb ob key v s)"
proof -
  have h: "hd_of s ob = Some h" and ok: "native_ok (vm_string s) h" using n by (simp_all add: native_hash_def)
  obtain kb c where kc: "key_bytes (vm_string s) key = Some kb" "native_code (vm_string s) key = Some c"
    using key(1) key_bytes_native [of "vm_string s" key] by (auto simp: native_key_def)
  have i: "index_ok h (entry_codes (vm_string s) h)" "h_n_used h < 2 ^ h_ib_bit h"
    and ks: "\<forall>k \<in> set (entry_keys h). native_key (vm_string s) k" "native.unique (vm_string s) (entry_keys h)"
    using ok n(2) by (auto simp: native_ok_def keys_ok_def)
  from i ks kc show ?thesis
  proof (cases rule: probe_native_spec)
    case (hit p)
    have "\<not> keq (vm_string s) key (entry_keys h ! j)" if "j < p" for j
      using native.unique_index [OF ks(2,1) key(1), of p j] hit that by (auto simp: entry_keys_def h_len_def)
    with hit have "position (keq (vm_string s) key) (entry_keys h) = Some p"
      by (simp add: position_Some) (simp add: entry_keys_def h_len_def)
    then show ?thesis using set_hit [OF n(1)] hit h by (simp add: ht_set_fit_def)
  next
    case (vacant m)
    have "position (keq (vm_string s) key) (entry_keys h) = None" using vacant(1) by (simp add: position_None)
    then show ?thesis using set_vacant [OF n room key _ vacant(5) fit] vacant(5) h by (simp add: ht_set_fit_def)
  qed
qed

text \<open>\<open>k1\<close> in \<open>s1\<close> stands for \<open>key\<close> in \<open>s\<close>: itself, or the copy a store has made.\<close>

definition key_from :: "'w hvm \<Rightarrow> rvalue \<Rightarrow> 'w hvm \<Rightarrow> rvalue \<Rightarrow> bool" where
  "key_from s key s1 k1 \<longleftrightarrow>
     (\<forall>ks. (\<forall>x \<in> set ks. str_agree (vm_string s) (vm_string s1) x) \<longrightarrow>
        position (keq (vm_string s1) k1) ks = position (keq (vm_string s) key) ks) \<and>
     (\<forall>s' k. stored_key s1 k1 s' k \<longrightarrow> stored_key (s :: 'w hvm) key (s' :: 'w hvm) k)"

lemma key_from_same:
  assumes "str_agree (vm_string s) (vm_string s1) key"
  shows "key_from s key s1 key"
proof -
  have "stored_key s1 key s' k = stored_key s key s' k" for s' k
    using assms by (auto simp: stored_key_def str_agree_def split: rvalue.splits)
  then show ?thesis unfolding key_from_def using position_agree [OF assms] by blast
qed

lemma key_from_stored:
  assumes key: "native_key (vm_string s) key" and st: "stored_key s key s1 k1"
  shows "key_from s key s1 k1"
proof -
  have st2: "stored_key s key s' k" if "stored_key s1 k1 s' k" for s' k
  proof (cases "\<exists>x b. key = VObj x \<and> vm_string s x = Some b")
    case True
    then obtain b m where "k1 = VObj m" "vm_string s1 m = Some b" "\<exists>x. key = VObj x \<and> vm_string s x = Some b"
      using st by (auto simp: stored_key_def)
    then show ?thesis using that by (auto simp: stored_key_def)
  next
    case False
    then have "\<forall>x. key \<noteq> VObj x" using key by (auto simp: native_key_def native_code_def split: option.splits)
    then show ?thesis using st that by (auto simp: stored_key_def split: rvalue.splits)
  qed
  then show ?thesis unfolding key_from_def using stored_key_position [OF key st] by blast
qed

text \<open>A result from a table with the same entries is a result from the first one.\<close>

lemma set_result_from:
  assumes r: "set_result s1 ob h1 k1 v r" and e: "h_entries h1 = h_entries h" and rs: "rest_same ob s s1"
    and h: "hd_of s ob = Some h" "hd_of s1 ob = Some h1" and l: "\<forall>k \<in> set (entry_keys h). live s k"
    and k: "key_from s key s1 k1"
  shows "set_result s ob h key v r"
proof -
  obtain s' h' where r': "r = Some (s', Inr ())" "native_hash s' ob h'" "rest_same ob s1 s'"
    "case position (keq (vm_string s1) k1) (entry_keys h1) of
        Some p \<Rightarrow> h_entries h' = (h_entries h1)[p := (fst (h_entries h1 ! p), v)]
      | None \<Rightarrow> \<exists>k. stored_key s1 k1 s' k \<and> h_entries h' = h_entries h1 @ [(k, v)]"
    using r by (auto simp: set_result_def)
  have a: "\<forall>x \<in> set (entry_keys h). str_agree (vm_string s) (vm_string s1) x"
    using l live_agree [OF rs h] by blast
  have ks: "entry_keys h1 = entry_keys h" using e by (simp add: entry_keys_def)
  have p: "position (keq (vm_string s1) k1) (entry_keys h1) = position (keq (vm_string s) key) (entry_keys h)"
    unfolding ks using k a unfolding key_from_def by blast
  have "case position (keq (vm_string s) key) (entry_keys h) of
        Some p \<Rightarrow> h_entries h' = (h_entries h)[p := (fst (h_entries h ! p), v)]
      | None \<Rightarrow> \<exists>k. stored_key s key s' k \<and> h_entries h' = h_entries h @ [(k, v)]"
    using r'(4) k unfolding p e key_from_def by (fastforce split: option.splits)
  then show ?thesis using r'(1,2) rest_same_trans [OF rs r'(3)] by (auto simp: set_result_def)
qed

text \<open>Writing the table back twice, and what it leaves alone.\<close>

lemma put_put: "hd_put ob h2 (hd_put ob h1 s) = hd_put ob h2 s"
  by (auto simp: hd_put_def vm_update_def heap_update_def)

lemma put_same: "hd_of s ob = Some h \<Longrightarrow> hd_put ob h s = s"
  by (auto simp: hd_put_def vm_update_def heap_update_def hd_of_def heap_kind_def heap_get_def
    list_update_same_conv split: option.splits obj_kind.splits if_splits)

lemma put_string: "hd_of s ob = Some h \<Longrightarrow> vm_string (hd_put ob h1 s) = vm_string s"
  by (auto simp: fun_eq_iff vm_string_def heap_string_def heap_kind_def hd_put_def vm_update_def heap_get_update hd_of_def
    split: option.splits obj_kind.splits)

lemma put_objs: "length (hp_objs (vm_heap (hd_put ob h s))) = length (hp_objs (vm_heap s))"
  by (simp add: hd_put_def vm_update_def heap_update_def)

lemma put_live: "live (hd_put ob h s) k = live s k"
  by (simp add: live_def hd_put_def vm_update_def heap_update_def heap_is_free_def split: rvalue.split)

lemma those_all: "\<forall>x \<in> set xs. f x \<noteq> None \<Longrightarrow> those (map f xs) = Some (map (\<lambda>x. the (f x)) xs)"
  by (induction xs) auto

lemma rebuild_native:
  assumes h: "hd_of s ob = Some h" and nk: "\<forall>k \<in> set (entry_keys h). native_key (vm_string s) k"
  shows "h_rebuild rb ob b s = Some (hd_put ob (rebuilt (vm_string s) h b) s, Inr ())"
proof -
  let ?h = "h_set_n_used (ht_reset h b) (h_len h)"
  have e: "h_entries ?h = h_entries h" by (simp add: h_set_n_used_def ht_reset_def)
  have "native_codes (vm_string s) ?h = Some (entry_codes (vm_string s) h)"
    using nk unfolding native_codes_def entry_codes_def e
    by (intro those_all) (auto simp: entry_keys_def native_key_def)
  then show ?thesis
    using h hd_of_put [OF h, of ?h]
    by (simp add: h_rebuild_def hd_mod_def h_rebuild_native_def put_string put_put ret_def rebuilt_def)
qed

text \<open>An index whose room is made, without going back to a small table.\<close>

lemma hset_indexed:
  assumes n: "native_hash s ob h" "h_is_ht h" and room: "length (hp_objs (vm_heap s)) < B32"
    and key: "native_key (vm_string s) key" "live s key" and lim: "h_len h < 2 ^ 30"
    and stay: "snd (h_ht_make_room h) \<noteq> ToAr"
  shows "set_result s ob h key v (hset_rec rb True ob key v s)"
proof -
  have h: "hd_of s ob = Some h" and ok: "native_ok (vm_string s) h" and l: "\<forall>k \<in> set (entry_keys h). live s k"
    using n by (simp_all add: native_hash_def)
  from ok n(2) lim show ?thesis
  proof (cases rule: native_ht_make_room)
    case fits
    then show ?thesis using set_fit_native [OF n room key fits(2,3)] h put_same [OF h]
      by (simp add: hset_rec.simps [of rb True])
  next
    case (rebuild h1 b)
    let ?h2 = "rebuilt (vm_string s) h1 b"
    let ?s2 = "hd_put ob ?h2 s"
    have ek: "entry_keys h1 = entry_keys h" "entry_keys ?h2 = entry_keys h" "h_len h1 = h_len h"
      using rebuild(2) by (simp_all add: entry_keys_def h_len_def)
    have ks: "\<forall>k \<in> set (entry_keys h). native_key (vm_string s) k" "native.unique (vm_string s) (entry_keys h)"
      using ok by (auto simp: native_ok_def keys_ok_def)
    have re: "h_rebuild rb ob b (hd_put ob h1 s) = Some (?s2, Inr ())"
      using rebuild_native [OF hd_of_put [OF h, of h1], of rb b] ks(1) by (simp add: put_string [OF h] put_put ek)
    have "length (h_slots h1) = h_len h" using rebuild(3) ok by (auto simp: native_ok_def)
    then have "native_ok (vm_string s) ?h2" using rebuild(4-7) ks by (intro native_rebuilt) (simp_all add: ek)
    note put = native_hash_put [OF n(1) this, unfolded ek, OF l]
    have "set_result ?s2 ob ?h2 key v (ht_set_fit rb ob key v ?s2)"
      using rebuild(4,5,6) lim ek room key
      by (intro set_fit_native put(1)) (simp_all add: h_is_ht_def put_objs put_string [OF h] put_live h_len_def rebuild(2) hash_consts)
    moreover have "key_from s key ?s2 key"
      by (rule key_from_same) (simp add: put_string [OF h] str_agree_def split: rvalue.split)
    ultimately have "set_result s ob h key v (ht_set_fit rb ob key v ?s2)"
      using set_result_from [OF _ _ put(2) h hd_of_put [OF h] l] rebuild(2) by simp
    then show ?thesis using h rebuild(1) re by (simp add: hset_rec.simps [of rb True] andthen_step)
  next
    case small
    then show ?thesis using stay by simp
  qed
qed

lemma key_for_grows: "length (hp_objs (vm_heap (fst (h_key_for rb k s)))) \<le> Suc (length (hp_objs (vm_heap s)))"
  by (auto simp: h_key_for_def vm_alloc_def vm_update_def heap_update_def heap_alloc_def Let_def
    split: rvalue.split option.split prod.split if_splits)

text \<open>The search answers the position.\<close>

lemma find_native_eff:
  assumes n: "native_hash s ob h" and key: "native_key (vm_string s) key"
  shows "h_find rb ob key s = Some (s, Inr (case position (keq (vm_string s) key) (entry_keys h) of Some p \<Rightarrow> At p | None \<Rightarrow> Missing))"
proof -
  have h: "hd_of s ob = Some h" "keys_ok (vm_string s) h" using n by (simp_all add: native_hash_def native_ok_def)
  show ?thesis using find_native_spec [OF h(2) key] h(1) by (simp add: h_find_def h_find_native_def ret_def)
qed

text \<open>A full small table gets an index; the entry then goes through it.\<close>

lemma rebuilt_fits: "h_len h = AR_MAX_SIZE \<Longrightarrow> snd (h_ht_make_room (rebuilt str h IB_INIT_BIT)) = Fits"
  by (simp add: h_ht_make_room_def Let_def h_len_def hash_consts ib_upper_bound_for_def)

lemma hset_small:
  assumes n: "native_hash s ob h" "\<not> h_is_ht h" and room: "Suc (length (hp_objs (vm_heap s))) < B32"
    and key: "native_key (vm_string s) key" "live s key"
  shows "set_result s ob h key v (hset_rec rb False ob key v s)"
proof -
  have h: "hd_of s ob = Some h" and ok: "native_ok (vm_string s) h" and l: "\<forall>k \<in> set (entry_keys h). live s k"
    using n by (simp_all add: native_hash_def)
  show ?thesis
  proof (cases "position (keq (vm_string s) key) (entry_keys h)")
    case (Some p)
    then show ?thesis
      using set_hit [OF n(1) Some] find_native_eff [OF n(1) key(1), of rb] h n(2)
      by (simp add: hset_rec.simps [of rb False] andthen_step)
  next
    case None
    obtain s2 k where k: "h_key_for rb key s = (s2, k)" by (metis surj_pair)
    have kf: "native_hash s2 ob h" "rest_same ob s s2" "stored_key s key s2 k" "live s2 k"
      using key_for_native [OF n(1) _ key k] room by auto
    have h2: "hd_of s2 ob = Some h" "native_ok (vm_string s2) h" "\<forall>x \<in> set (entry_keys h). live s2 x"
      using kf by (simp_all add: native_hash_def)
    have a: "\<forall>x \<in> set (entry_keys h). str_agree (vm_string s) (vm_string s2) x"
      using l live_agree [OF kf(2) h h2(1)] by blast
    have pk: "position (keq (vm_string s2) k) (entry_keys h) = None"
      using stored_key_position [OF key(1) kf(3) a] None by simp
    have nk: "native_key (vm_string s2) k" using stored_key_native [OF key(1) kf(3)] key(1) by (simp add: native_key_def)
    have room2: "length (hp_objs (vm_heap s2)) < B32"
      using key_for_grows [of rb key s] k room by simp
    have start: "hset_rec rb False ob key v s = (case h_ar_make_room h of (h3, full) \<Rightarrow>
        if full then andthen (h_rebuild rb ob IB_INIT_BIT) (\<lambda>_ s3. hset_rec rb True ob k v s3) (hd_put ob h3 s2)
        else ret () (hd_put ob (h_ar_push h3 k v) s2))"
      using find_native_eff [OF n(1) key(1), of rb] None h n(2) k h2(1)
      by (simp add: hset_rec.simps [of rb False] andthen_step)
    from native_ar_make_room [OF h2(2) n(2)] show ?thesis
    proof (elim disjE exE conjE)
      assume r: "h_ar_make_room h = (h, True)" "h_len h = AR_MAX_SIZE" "h_ea_capa h = AR_MAX_SIZE"
      let ?h3 = "rebuilt (vm_string s2) h IB_INIT_BIT"
      let ?s3 = "hd_put ob ?h3 s2"
      have ks: "\<forall>k \<in> set (entry_keys h). native_key (vm_string s2) k" "native.unique (vm_string s2) (entry_keys h)"
        using h2(2) by (auto simp: native_ok_def keys_ok_def)
      have re: "h_rebuild rb ob IB_INIT_BIT (hd_put ob h s2) = Some (?s3, Inr ())"
        using rebuild_native [OF h2(1) ks(1)] put_same [OF h2(1)] by simp
      have "native_ok (vm_string s2) ?h3"
        using ks r h2(2) by (intro native_rebuilt) (simp_all add: hash_consts native_ok_def)
      note put = native_hash_put [OF kf(1) this]
      have ek: "entry_keys ?h3 = entry_keys h" by (simp add: entry_keys_def)
      note put = put [unfolded ek, OF h2(3)]
      have "set_result ?s3 ob ?h3 k v (hset_rec rb True ob k v ?s3)"
        using room2 nk kf(4) r rebuilt_fits [OF r(2), of "vm_string s2"]
        by (intro hset_indexed put(1)) (simp_all add: h_is_ht_def hash_consts put_objs put_string [OF h2(1)] put_live h_len_def)
      moreover have rs: "rest_same ob s ?s3" by (rule rest_same_trans [OF kf(2) put(2)])
      moreover have "key_from s key ?s3 k"
        using key_from_stored [OF key(1) stored_key_rest [OF kf(3) put(2) h2(1) hd_of_put [OF h2(1)] kf(4)]] .
      ultimately have "set_result s ob h key v (hset_rec rb True ob k v ?s3)"
        using set_result_from [OF _ _ rs h hd_of_put [OF h2(1)] l] by simp
      then show ?thesis using start r re by (simp add: andthen_step)
    next
      fix h3
      assume r: "h_ar_make_room h = (h3, False)" "native_ok (vm_string s2) h3" "h_entries h3 = h_entries h"
        "\<not> h_is_ht h3" "h_n_used h3 < h_ea_capa h3"
      have ek: "entry_keys h3 = entry_keys h" using r(3) by (simp add: entry_keys_def)
      note pu = native_ar_push [OF r(2,4,5) nk, unfolded ek, OF pk, of v]
      have "\<forall>x \<in> set (entry_keys (h_ar_push h3 k v)). live s2 x"
        using h2(3) kf(4) by (auto simp: entry_keys_def pu(2) r(3))
      note put = native_hash_put [OF kf(1) pu(1) this]
      have "stored_key s key (hd_put ob (h_ar_push h3 k v) s2) k"
        by (rule stored_key_rest [OF kf(3) put(2) h2(1) hd_of_put [OF h2(1)] kf(4)])
      then show ?thesis
        using put pu(2) r(1,3) None rest_same_trans [OF kf(2) put(2)]
        unfolding start by (auto simp: set_result_def ret_def)
    qed
  qed
qed

lemma hset_native:
  assumes n: "native_hash s ob h" and room: "Suc (length (hp_objs (vm_heap s))) < B32"
    and key: "native_key (vm_string s) key" "live s key" and lim: "h_len h < 2 ^ 30"
  shows "set_result s ob h key v (h_set rb ob key v s)"
proof (cases "h_is_ht h")
  case False
  then show ?thesis using hset_small [OF n _ room key] by (simp add: h_set_def)
next
  case True
  have h: "hd_of s ob = Some h" and ok: "native_ok (vm_string s) h" and l: "\<forall>k \<in> set (entry_keys h). live s k"
    using n by (simp_all add: native_hash_def)
  have "set_result s ob h key v (hset_rec rb True ob key v s)"
  proof (cases "snd (h_ht_make_room h) = ToAr")
    case False
    then show ?thesis using hset_indexed [OF n True _ key lim] room by simp
  next
    case to_ar: True
    from ok True lim have sm: "h_ht_make_room h = (h, ToAr)" "h_len h \<le> AR_MAX_SIZE"
      by (cases rule: native_ht_make_room, use to_ar in auto)+
    note ar = native_to_ar [OF ok sm(2)]
    have ek: "entry_keys (h_to_ar h) = entry_keys h" using ar(2) by (simp add: entry_keys_def)
    note put = native_hash_put [OF n ar(1), unfolded ek, OF l]
    let ?s = "hd_put ob (h_to_ar h) s"
    have "set_result ?s ob (h_to_ar h) key v (hset_rec rb False ob key v ?s)"
      using room key by (intro hset_small put(1) ar(3)) (simp_all add: put_objs put_string [OF h] put_live)
    moreover have "key_from s key ?s key"
      by (rule key_from_same) (simp add: put_string [OF h] str_agree_def split: rvalue.split)
    ultimately have "set_result s ob h key v (hset_rec rb False ob key v ?s)"
      using set_result_from [OF _ _ put(2) h hd_of_put [OF h] l] ar(2) by simp
    then show ?thesis using h sm(1) by (simp add: hset_rec.simps [of rb True])
  qed
  then show ?thesis using h True by (simp add: h_set_def hset_rec.simps [of rb False])
qed

section \<open>The Hash as an insertion-ordered map\<close>

definition pairs_get :: "(obj_id \<Rightarrow> bytes option) \<Rightarrow> rvalue \<Rightarrow> (rvalue \<times> rvalue) list \<Rightarrow> rvalue option" where
  "pairs_get str k xs = map_option (\<lambda>p. snd (xs ! p)) (position (keq str k) (map fst xs))"

definition pairs_delete :: "(obj_id \<Rightarrow> bytes option) \<Rightarrow> rvalue \<Rightarrow> (rvalue \<times> rvalue) list \<Rightarrow> (rvalue \<times> rvalue) list" where
  "pairs_delete str k xs = (case position (keq str k) (map fst xs) of Some p \<Rightarrow> list_remove_at p xs | None \<Rightarrow> xs)"

lemma hash_obj_native: "native_hash s ob h \<Longrightarrow> hash_obj s (VObj ob) = Some ob"
  by (simp add: hash_obj_def native_hash_def)

lemma hash_get_native:
  assumes n: "native_hash s ob h" and key: "native_key (vm_string s) key"
  shows "hash_get rb (VObj ob) key s = Some (s, Inr (pairs_get (vm_string s) key (h_entries h)))"
proof -
  have h: "hd_of s ob = Some h" using n by (simp add: native_hash_def)
  have "p < h_len h" if "position (keq (vm_string s) key) (entry_keys h) = Some p" for p
    using that by (simp add: position_Some) (simp add: entry_keys_def h_len_def)
  then show ?thesis
    using find_native_eff [OF n key, of rb] hash_obj_native [OF n] h
    by (auto simp: hash_get_def andthen_step ret_def pairs_get_def h_value_at_def entry_keys_def split: option.split)
qed

lemma hash_set_native:
  assumes n: "native_hash s ob h" and room: "Suc (length (hp_objs (vm_heap s))) < B32"
    and key: "native_key (vm_string s) key" "live s key" and lim: "h_len h < 2 ^ 30" and fr: "\<not> frozen_at s ob"
  shows "set_result s ob h key v (hash_set rb (VObj ob) key v s)"
  using hset_native [OF n room key lim] hash_obj_native [OF n] fr by (simp add: hash_set_def)

lemma hash_delete_native:
  assumes n: "native_hash s ob h" and key: "native_key (vm_string s) key"
  shows "\<exists>s' h'. hash_delete rb (VObj ob) key s = Some (s', Inr (pairs_get (vm_string s) key (h_entries h))) \<and>
    native_hash s' ob h' \<and> rest_same ob s s' \<and> h_entries h' = pairs_delete (vm_string s) key (h_entries h)"
proof (cases "position (keq (vm_string s) key) (entry_keys h)")
  case None
  then show ?thesis
    using find_native_eff [OF n key, of rb] hash_obj_native [OF n] n
    by (auto simp: hash_delete_def h_delete_def andthen_step ret_def pairs_get_def pairs_delete_def entry_keys_def)
next
  case (Some p)
  have h: "hd_of s ob = Some h" and ok: "native_ok (vm_string s) h" and l: "\<forall>k \<in> set (entry_keys h). live s k"
    using n by (simp_all add: native_hash_def)
  have p: "p < h_len h" using Some by (simp add: position_Some) (simp add: entry_keys_def h_len_def)
  let ?h = "fst (h_remove_entry h p)"
  have "\<forall>k \<in> set (entry_keys ?h). live s k"
    using l by (auto simp: entry_codes_remove list_remove_at_def dest: in_set_takeD in_set_dropD)
  note put = native_hash_put [OF n native_remove [OF ok p] this]
  obtain h1 k0 v0 where re: "h_remove_entry h p = (h1, k0, v0)" by (metis surj_pair)
  then have e: "?h = h1" "h_entries h ! p = (k0, v0)" using entries_remove(2) [of h p] by simp_all
  then have "hash_delete rb (VObj ob) key s = Some (hd_put ob ?h s, Inr (Some (snd (h_entries h ! p))))"
    using find_native_eff [OF n key, of rb] hash_obj_native [OF n] h Some re
    by (simp add: e hash_delete_def h_delete_def andthen_step ret_def)
  then show ?thesis using put Some
    by (auto simp: pairs_get_def pairs_delete_def entry_keys_def [symmetric] entries_remove(1))
qed

section \<open>Reading after writing\<close>

lemma position_snoc: "position P (xs @ [x]) = (case position P xs of
    Some p \<Rightarrow> Some p | None \<Rightarrow> if P x then Some (length xs) else None)"
proof (cases "position P xs")
  case None
  then have "\<forall>y \<in> set xs. \<not> P y" by (simp add: position_None)
  then have "takeWhile (\<lambda>x. \<not> P x) (xs @ [x]) = xs @ takeWhile (\<lambda>x. \<not> P x) [x]"
    by (intro takeWhile_append2) simp
  then show ?thesis using None by (simp add: position_def)
next
  case (Some p)
  then have "position P (xs @ [x]) = Some p" by (simp add: position_Some nth_append)
  then show ?thesis using Some by simp
qed

lemma keq_position:
  assumes "native_key str a" "native_key str b" "\<forall>k \<in> set ks. native_key str k" "keq str a b"
  shows "position (keq str a) ks = position (keq str b) ks"
proof -
  have "keq str a k = keq str b k" if "k \<in> set ks" for k
    using native.eq_trans [of str a b k] native.eq_trans [of str b a k] native.eq_sym [of str a b] assms that by blast
  then have "takeWhile (\<lambda>x. \<not> keq str a x) ks = takeWhile (\<lambda>x. \<not> keq str b x) ks"
    by (intro takeWhile_cong refl) simp
  then show ?thesis by (simp add: position_def)
qed

lemma stored_key_keq:
  assumes "native_key (vm_string s) key" "stored_key s key s' k" "str_agree (vm_string s) (vm_string s') a"
  shows "keq (vm_string s') a k = keq (vm_string s) a key"
  using assms
  by (cases a; cases key) (auto simp: native_key_def stored_key_def native_code_def keq_def key_bytes_def native_eql_def str_agree_def
    split: option.splits)

lemma get_after_set:
  assumes n: "native_hash s ob h" and room: "Suc (length (hp_objs (vm_heap s))) < B32"
    and key: "native_key (vm_string s) key" "live s key" and key2: "native_key (vm_string s) key2" "live s key2"
    and lim: "h_len h < 2 ^ 30" and fr: "\<not> frozen_at s ob"
  shows "\<exists>s'. hash_set rb (VObj ob) key v s = Some (s', Inr ()) \<and>
    hash_get rb (VObj ob) key2 s' = Some (s', Inr (if keq (vm_string s) key2 key then Some v
      else pairs_get (vm_string s) key2 (h_entries h)))"
proof -
  let ?str = "vm_string s" and ?ks = "entry_keys h"
  have h: "hd_of s ob = Some h" and l: "\<forall>k \<in> set ?ks. live s k"
    and nks: "\<forall>k \<in> set ?ks. native_key ?str k" "native.unique ?str ?ks"
    using n by (simp_all add: native_hash_def native_ok_def keys_ok_def)
  obtain s' h' where s': "hash_set rb (VObj ob) key v s = Some (s', Inr ())" "native_hash s' ob h'" "rest_same ob s s'"
    "case position (keq ?str key) ?ks of
        Some p \<Rightarrow> h_entries h' = (h_entries h)[p := (fst (h_entries h ! p), v)]
      | None \<Rightarrow> \<exists>k. stored_key s key s' k \<and> h_entries h' = h_entries h @ [(k, v)]"
    using hash_set_native [OF n room key lim fr, of v rb] by (auto simp: set_result_def)
  have h': "hd_of s' ob = Some h'" using s'(2) by (simp add: native_hash_def)
  have a: "\<forall>x \<in> set ?ks. str_agree ?str (vm_string s') x" using l live_agree [OF s'(3) h h'] by blast
  have a2: "str_agree ?str (vm_string s') key2" using live_agree [OF s'(3) h h' key2(2)] by blast
  have k2: "native_key (vm_string s') key2" using key2(1) native_code_agree [OF a2] by (simp add: native_key_def)
  note pk = position_agree [OF a2 a]
  have "pairs_get (vm_string s') key2 (h_entries h') =
      (if keq ?str key2 key then Some v else pairs_get ?str key2 (h_entries h))"
  proof (cases "position (keq ?str key) ?ks")
    case (Some p)
    then have e: "h_entries h' = (h_entries h)[p := (fst (h_entries h ! p), v)]" using s'(4) by simp
    have p: "p < length ?ks" "keq ?str key (?ks ! p)" using Some by (simp_all add: position_Some)
    have ek: "map fst (h_entries h') = ?ks" by (simp add: e entry_keys_def map_fst_update)
    show ?thesis
    proof (cases "keq ?str key2 key")
      case True
      then have "position (keq ?str key2) ?ks = Some p" using keq_position [OF key2(1) key(1) nks(1) True] Some by simp
      then show ?thesis using True p pk by (simp add: pairs_get_def ek) (simp add: e entry_keys_def)
    next
      case False
      have "q \<noteq> p" if "position (keq ?str key2) ?ks = Some q" for q
      proof
        assume "q = p"
        then have k: "keq ?str key2 (?ks ! p)" using that by (simp add: position_Some)
        have "native_key ?str (?ks ! p)" using nks(1) p(1) by simp
        then have "keq ?str key2 key"
          using native.eq_trans [OF key2(1) _ key(1) k] native.eq_sym [OF key(1) _ p(2)] by blast
        with False show False by simp
      qed
      moreover have "pairs_get (vm_string s') key2 (h_entries h') =
          map_option (\<lambda>q. snd ((h_entries h)[p := (fst (h_entries h ! p), v)] ! q)) (position (keq ?str key2) ?ks)"
        unfolding pairs_get_def ek pk by (simp add: e)
      ultimately show ?thesis using False
        by (cases "position (keq ?str key2) ?ks") (auto simp: pairs_get_def nth_list_update entry_keys_def [symmetric])
    qed
  next
    case None
    then obtain k where k: "stored_key s key s' k" "h_entries h' = h_entries h @ [(k, v)]" using s'(4) by auto
    note kk = stored_key_keq [OF key(1) k(1) a2]
    have "position (keq ?str key2) ?ks = None" if "keq ?str key2 key"
      using keq_position [OF key2(1) key(1) nks(1) that] None by simp
    moreover have "p < length (h_entries h)" if "position (keq ?str key2) ?ks = Some p" for p
      using that by (simp add: position_Some) (simp add: entry_keys_def)
    moreover have "map fst (h_entries h') = ?ks @ [k]" by (simp add: k(2) entry_keys_def)
    ultimately show ?thesis using kk pk
      by (auto simp: pairs_get_def position_snoc k(2) nth_append entry_keys_def split: option.splits)
  qed
  then show ?thesis using s'(1) hash_get_native [OF s'(2) k2, of rb] by auto
qed

end
