(* ===== verification/HashWalk.thy ===== *)
theory HashWalk
  imports HashNative
begin

text \<open>
  The scans of \<open>src/hashtable.rs\<close> that call into Ruby while they walk a table: \<open>h_merge\<close>, \<open>h_assoc\<close>,
  \<open>h_equal\<close>, \<open>h_except\<close>, and \<open>h_replace\<close>. A walk goes by slot and reads the entry back after each
  call; the theorems show that they too keep every table in order.
\<close>

section \<open>Steps\<close>

definition h_each_at :: "'w hvm \<Rightarrow> obj_id \<Rightarrow> nat option \<Rightarrow> (rvalue \<times> rvalue \<times> nat) option" where
  "h_each_at s ob after = Option.bind (h_next s ob after) (\<lambda>p. Option.bind (hd_of s ob) (\<lambda>h.
     Option.bind (h_key_at h p) (\<lambda>k. map_option (\<lambda>v. (k, v, h_slot_at h p)) (h_value_at h p))))"

definition h_value_checked :: "'w ruby \<Rightarrow> obj_id \<Rightarrow> nat \<Rightarrow> rvalue \<Rightarrow> ('w, rvalue) eff" where
  "h_value_checked rb ob slot stored = andthen (h_check_vacated rb ob slot stored) (\<lambda>p s.
     ret (case Option.bind (hd_of s ob) (\<lambda>h. h_value_at h p) of Some v \<Rightarrow> v | None \<Rightarrow> VNil) s)"

definition table_len :: "'w hvm \<Rightarrow> obj_id \<Rightarrow> nat" where
  "table_len s ob = (case hd_of s ob of Some h \<Rightarrow> h_len h | None \<Rightarrow> 0)"

definition ary_vals :: "'w hvm \<Rightarrow> rvalue \<Rightarrow> rvalue list option" where
  "ary_vals s v = (case v of VObj i \<Rightarrow> heap_array (vm_heap s) i | _ \<Rightarrow> None)"

section \<open>Merging and copying\<close>

fun merge_loop :: "'w ruby \<Rightarrow> rvalue \<Rightarrow> obj_id \<Rightarrow> nat option \<Rightarrow> nat \<Rightarrow> ('w, unit) eff" where
  "merge_loop rb h1 o2 after 0 s = ret () s"
| "merge_loop rb h1 o2 after (Suc left) s = (case h_each_at s o2 after of
      None \<Rightarrow> ret () s
    | Some (k, v, slot) \<Rightarrow>
        let before = check_of s o2
        in andthen (hash_set rb h1 k v) (\<lambda>_. andthen (h_verify rb o2 before)
             (\<lambda>_. merge_loop rb h1 o2 (Some slot) left)) s)"

definition h_merge :: "'w ruby \<Rightarrow> rvalue \<Rightarrow> rvalue \<Rightarrow> ('w, unit) eff" where
  "h_merge rb h1 h2 s = (case (h1, h2) of
      (VObj _, VObj o2) \<Rightarrow> if value_eq h1 h2 then ret () s else merge_loop rb h1 o2 None (table_len s o2) s
    | _ \<Rightarrow> ret () s)"

definition h_replace :: "obj_id \<Rightarrow> obj_id \<Rightarrow> 'w hvm \<Rightarrow> 'w hvm" where
  "h_replace dst src s = (case hd_of s src of
      None \<Rightarrow> s
    | Some t \<Rightarrow> hd_mod dst (\<lambda>h. h_replace_table h t) s)"

section \<open>Searching by value, comparing, excluding\<close>

fun assoc_loop :: "'w ruby \<Rightarrow> obj_id \<Rightarrow> rvalue \<Rightarrow> bool \<Rightarrow> nat option \<Rightarrow> nat \<Rightarrow> ('w, (rvalue \<times> rvalue) option) eff" where
  "assoc_loop rb ob x by_value after 0 s = ret None s"
| "assoc_loop rb ob x by_value after (Suc left) s = (case h_each_at s ob after of
      None \<Rightarrow> ret None s
    | Some (k, v, slot) \<Rightarrow> andthen (h_obj_eql rb ob (if by_value then v else k) x) (\<lambda>eq.
        if eq then andthen (h_value_checked rb ob slot k) (\<lambda>v. ret (Some (k, v)))
        else assoc_loop rb ob x by_value (Some slot) left) s)"

definition h_assoc :: "'w ruby \<Rightarrow> rvalue \<Rightarrow> rvalue \<Rightarrow> bool \<Rightarrow> ('w, (rvalue \<times> rvalue) option) eff" where
  "h_assoc rb v x by_value s = (case v of
      VObj ob \<Rightarrow> assoc_loop rb ob x by_value None (table_len s ob) s
    | _ \<Rightarrow> ret None s)"

fun equal_loop :: "'w ruby \<Rightarrow> obj_id \<Rightarrow> obj_id \<Rightarrow> bool \<Rightarrow> nat option \<Rightarrow> nat \<Rightarrow> ('w, bool) eff" where
  "equal_loop rb o1 o2 eql after 0 s = ret True s"
| "equal_loop rb o1 o2 eql after (Suc left) s = (case h_each_at s o1 after of
      None \<Rightarrow> ret True s
    | Some (k, _, slot) \<Rightarrow>
        let before = check_of s o1
        in andthen (h_find rb o2 k) (\<lambda>f s1.
             let found = (case f of At p \<Rightarrow> Option.bind (hd_of s1 o2) (\<lambda>h. h_value_at h p) | Missing \<Rightarrow> None)
             in andthen (h_verify rb o1 before) (\<lambda>_. case found of
                  None \<Rightarrow> ret False
                | Some w \<Rightarrow> andthen (h_value_checked rb o1 slot k) (\<lambda>v s2.
                    let before = check_of s2 o1
                    in andthen (if eql then mrb_eql rb v w else rb_equal rb v w) (\<lambda>same.
                         andthen (h_verify rb o1 before) (\<lambda>_.
                           if same then equal_loop rb o1 o2 eql (Some slot) left else ret False)) s2)) s1) s)"

definition h_equal :: "'w ruby \<Rightarrow> rvalue \<Rightarrow> rvalue \<Rightarrow> bool \<Rightarrow> ('w, bool) eff" where
  "h_equal rb h1 h2 eql s = (case (h1, h2) of
      (VObj o1, VObj o2) \<Rightarrow> equal_loop rb o1 o2 eql None (table_len s o1) s
    | _ \<Rightarrow> ret False s)"

text \<open>The inner loop of \<open>h_except\<close> reads \<open>keys\<close> afresh each time: Ruby code in \<open>==\<close> can make it longer.\<close>

partial_function (option) except_found :: "'w ruby \<Rightarrow> obj_id \<Rightarrow> rvalue \<Rightarrow> nat \<Rightarrow> rvalue \<Rightarrow> nat \<Rightarrow> ('w, bool) eff" where
  "except_found rb ob k slot keys i s = (case ary_vals s keys of
      None \<Rightarrow> ret False s
    | Some l \<Rightarrow>
        if i < length l
        then let before = check_of s ob
             in andthen (rb_equal rb k (l ! i)) (\<lambda>eq. andthen (h_verify rb ob before) (\<lambda>_.
                  andthen (h_check_vacated rb ob slot k) (\<lambda>_ s1.
                    if eq then ret True s1 else except_found rb ob k slot keys (i + 1) s1))) s
        else ret False s)"

fun except_loop :: "'w ruby \<Rightarrow> obj_id \<Rightarrow> rvalue \<Rightarrow> rvalue \<Rightarrow> nat option \<Rightarrow> nat \<Rightarrow> ('w, unit) eff" where
  "except_loop rb ob keys result after 0 s = ret () s"
| "except_loop rb ob keys result after (Suc left) s = (case h_each_at s ob after of
      None \<Rightarrow> ret () s
    | Some (k, _, slot) \<Rightarrow> andthen (except_found rb ob k slot keys 0) (\<lambda>fnd.
        if fnd then except_loop rb ob keys result (Some slot) left
        else andthen (h_value_checked rb ob slot k) (\<lambda>v s1.
          let before = check_of s1 ob
          in andthen (hash_set rb result k v) (\<lambda>_. andthen (h_verify rb ob before)
               (\<lambda>_. except_loop rb ob keys result (Some slot) left)) s1)) s)"

definition h_except :: "'w ruby \<Rightarrow> rvalue \<Rightarrow> rvalue \<Rightarrow> ('w, rvalue) eff" where
  "h_except rb v keys s =
     (let (s1, result) = hash_new rb s
      in case v of
          VObj ob \<Rightarrow> andthen (except_loop rb ob keys result None (table_len s1 ob)) (\<lambda>_. ret result) s1
        | _ \<Rightarrow> ret result s1)"

section \<open>The walks keep every table in order\<close>

lemma value_checked_secures: "secures tables_ok (h_value_checked rb ob slot k) any"
  unfolding h_value_checked_def by (rule securesI) (auto intro!: outcome_ret outcome_andthen [OF vacated_secures])

lemma equal_secures: "ruby_keeps I rb \<Longrightarrow> secures I (rb_equal rb a b) any"
  by (simp add: ruby_keeps_def)

lemma tbl_ok_replace [tbl]: "tbl_ok t \<Longrightarrow> tbl_ok (h_replace_table h t)"
  by (simp add: tbl_defs h_replace_table_def)

lemma replace_keeps: "tables_ok s \<Longrightarrow> tables_ok (h_replace dst src s)"
  by (auto simp: h_replace_def intro!: tables_ok_mod tbl intro: tables_ok_hd split: option.split)

lemma merge_secures:
  assumes rb: "ruby_keeps tables_ok rb"
  shows "secures tables_ok (h_merge rb h1 h2) any"
proof -
  have l: "tables_ok s \<Longrightarrow> outcome tables_ok any (merge_loop rb h1 o2 after left s)" for o2 after left and s :: "'a hvm"
  proof (induction left arbitrary: after s)
    case (Suc left)
    then show ?case
      by (auto simp: Let_def intro!: outcome_ret outcome_andthen [OF set_secures [OF rb]] outcome_andthen [OF verify_secures]
        split: option.split)
  qed (auto intro: outcome_ret)
  show ?thesis by (rule securesI) (auto simp: h_merge_def simp del: merge_loop.simps intro!: outcome_ret l split: rvalue.split)
qed

lemma assoc_secures:
  assumes rb: "ruby_keeps tables_ok rb"
  shows "secures tables_ok (h_assoc rb v x by_value) any"
proof -
  have l: "tables_ok s \<Longrightarrow> outcome tables_ok any (assoc_loop rb ob x by_value after left s)" for ob after left and s :: "'a hvm"
  proof (induction left arbitrary: after s)
    case (Suc left)
    then show ?case
      by (auto intro!: outcome_ret outcome_andthen [OF obj_eql_secures [OF rb]] outcome_andthen [OF value_checked_secures]
        split: option.split)
  qed (auto intro: outcome_ret)
  show ?thesis by (rule securesI) (auto simp: h_assoc_def simp del: assoc_loop.simps intro!: outcome_ret l split: rvalue.split)
qed

lemma equal_loop_secures:
  assumes rb: "ruby_keeps tables_ok rb"
  shows "secures tables_ok (h_equal rb h1 h2 eql) any"
proof -
  have c: "secures tables_ok (if eql then mrb_eql rb v w else rb_equal rb v w) any" for v w
    using mrb_eql_secures [OF rb] equal_secures [OF rb] by auto
  have l: "tables_ok s \<Longrightarrow> outcome tables_ok any (equal_loop rb o1 o2 eql after left s)" for o1 o2 after left and s :: "'a hvm"
  proof (induction left arbitrary: after s)
    case (Suc left)
    have step: "outcome tables_ok any (andthen (h_verify rb o1 b) (\<lambda>_. case found of
                  None \<Rightarrow> ret False
                | Some w \<Rightarrow> andthen (h_value_checked rb o1 slot k) (\<lambda>v s2.
                    let before = check_of s2 o1
                    in andthen (if eql then mrb_eql rb v w else rb_equal rb v w) (\<lambda>same.
                         andthen (h_verify rb o1 before) (\<lambda>_.
                           if same then equal_loop rb o1 o2 eql (Some slot) left else ret False)) s2)) s1)"
      if "tables_ok s1" for b found slot k s1
      by (rule outcome_andthen [OF verify_secures that])
        (auto simp del: equal_loop.simps simp: Let_def intro!: Suc.IH outcome_ret outcome_andthen [OF value_checked_secures]
          outcome_andthen [OF verify_secures] outcome_andthen [OF c] split: option.split split del: if_split split: if_split)
    show ?case using Suc.prems step
      by (auto simp: Let_def intro!: outcome_ret outcome_andthen [OF find_secures [OF rb]] split: option.split)
  qed (auto intro: outcome_ret)
  show ?thesis by (rule securesI) (auto simp: h_equal_def simp del: equal_loop.simps intro!: outcome_ret l split: rvalue.split)
qed

lemma except_found_secures:
  assumes rb: "ruby_keeps tables_ok rb"
  shows "secures tables_ok (except_found rb ob k slot keys i) any"
proof
  fix s :: "'a hvm"
  assume s: "tables_ok s"
  show "outcome tables_ok any (except_found rb ob k slot keys i s)"
  proof (rule outcome_call)
    fix y
    assume y: "except_found rb ob k slot keys i s = Some y"
    have "ruby_keeps tables_ok rb \<longrightarrow> tables_ok s \<longrightarrow> outcome tables_ok any (Some y)"
    proof (rule except_found.raw_induct [OF _ y,
          where P = "\<lambda>rb ob k sl ks i s y. ruby_keeps tables_ok rb \<longrightarrow> tables_ok s \<longrightarrow> outcome tables_ok any (Some y)"],
        intro impI, goal_cases)
      case (1 f rb ob k slot keys i s y)
      note rb = 1(3) and s = 1(4)
      have c: "tables_ok s \<Longrightarrow> outcome tables_ok any (f rb ob k slot keys i s)" for i s
        by (rule outcome_call) (use 1(1) rb in blast)
      show ?case unfolding 1(2) [symmetric] using s
        by (auto simp: Let_def intro!: c outcome_ret outcome_andthen [OF equal_secures [OF rb]] outcome_andthen [OF verify_secures]
          outcome_andthen [OF vacated_secures] split: option.split)
    qed
    then show "outcome tables_ok any (Some y)" using rb s by blast
  qed
qed

lemma except_secures:
  assumes rb: "ruby_keeps tables_ok rb"
  shows "secures tables_ok (h_except rb v keys) any"
proof
  fix s :: "'a hvm"
  assume s: "tables_ok s"
  have l: "secures tables_ok (except_loop rb ob keys result after left) any" for ob result after left
  proof
    show "tables_ok s \<Longrightarrow> outcome tables_ok any (except_loop rb ob keys result after left s)" for s :: "'a hvm"
    proof (induction left arbitrary: after s)
      case (Suc left)
      then show ?case
        by (auto simp: Let_def intro!: outcome_ret outcome_andthen [OF except_found_secures [OF rb]] outcome_andthen [OF value_checked_secures]
          outcome_andthen [OF set_secures [OF rb]] outcome_andthen [OF verify_secures] split: option.split)
    qed (auto intro: outcome_ret)
  qed
  have "tables_ok (fst (hash_new rb s))"
    using tables_ok_alloc [OF s, of "rb_c_hash rb" "K_Hash h_new"] tbl_ok_new
    by (auto simp: hash_new_def obj_ok_def new_object_def split: prod.splits)
  then show "outcome tables_ok any (h_except rb v keys s)"
    by (cases "hash_new rb s") (auto simp: h_except_def intro!: outcome_ret outcome_andthen [OF l] split: rvalue.split)
qed

end
