(* ===== verification/HashSet.thy ===== *)
theory HashSet
  imports HashWalk
begin

text \<open>
  The Set part of \<open>src/hashtable.rs\<close>: khash's search, rebuild and insertion on the storage of a Hash,
  an element's \<open>eql?\<close> answering, and a rebuild during a callback raising. The operations keep every table
  in order. A position found by \<open>kh_get\<close> is not checked against removals, unlike a Hash's:
  \<open>set_remove_takes_another\<close> shows what that leads to.
\<close>

section \<open>Codes and comparisons\<close>

definition h_code_unchecked :: "'w ruby \<Rightarrow> rvalue \<Rightarrow> ('w, u32) eff" where
  "h_code_unchecked rb key s = (case key of
      VNil \<Rightarrow> ret (mix 0) s
    | VFalse \<Rightarrow> ret (mix 2) s
    | VTrue \<Rightarrow> ret (mix 6) s
    | VInt i \<Rightarrow> ret (mix (ucast i)) s
    | VSym y \<Rightarrow> ret (mix y) s
    | VFloat f \<Rightarrow> ret (mix (float_code f)) s
    | VObj k \<Rightarrow> (case vm_string s k of
          Some b \<Rightarrow> ret (mix (byte_hash b)) s
        | None \<Rightarrow> let tt = vtype s k in andthen (send rb key (rb_s_hash rb) []) (\<lambda>r. ret (mix (tt XOR hash_answer r))) s))"

text \<open>A \<open>hash\<close> that raises counts as 0.\<close>

definition kset_hash :: "'w ruby \<Rightarrow> rvalue \<Rightarrow> ('w, u32) eff" where
  "kset_hash rb key s = (case h_code_unchecked rb key s of
      None \<Rightarrow> None
    | Some (s1, Inl _) \<Rightarrow> Some (s1, Inr 0)
    | Some (s1, Inr c) \<Rightarrow> Some (s1, Inr c))"

definition kset_equal :: "'w ruby \<Rightarrow> rvalue \<Rightarrow> rvalue \<Rightarrow> ('w, bool) eff" where
  "kset_equal rb a b s = (case a of
      VSym _ \<Rightarrow> ret (value_eq a b) s
    | VInt _ \<Rightarrow> ret (value_eq a b) s
    | VFloat x \<Rightarrow> ret (case b of VFloat y \<Rightarrow> f64_eq x y | _ \<Rightarrow> False) s
    | VObj x \<Rightarrow> if vm_string s x \<noteq> None then ret (same_string s x b) s else mrb_eql rb a b s
    | _ \<Rightarrow> mrb_eql rb a b s)"

definition mark_of :: "'w hvm \<Rightarrow> obj_id \<Rightarrow> (u32 \<times> nat) option" where
  "mark_of s ob = map_option kh_mark (hd_of s ob)"

definition kh_verify :: "'w ruby \<Rightarrow> obj_id \<Rightarrow> (u32 \<times> nat) option \<Rightarrow> ('w, unit) eff" where
  "kh_verify rb ob mark s =
     (if mark_of s ob \<noteq> mark
      then raise_exc rb (rb_c_runtime_error rb) (ascii ''hash table modified during callback'') s else ret () s)"

section \<open>The search\<close>

partial_function (option) kh_small_loop :: "'w ruby \<Rightarrow> obj_id \<Rightarrow> rvalue \<Rightarrow> nat \<Rightarrow> ('w, nat option) eff" where
  "kh_small_loop rb ob k i s = (case Option.bind (hd_of s ob) (\<lambda>h. h_key_at h i) of
      None \<Rightarrow> ret None s
    | Some stored \<Rightarrow>
        let mark = mark_of s ob
        in andthen (kset_equal rb stored k) (\<lambda>eq. andthen (kh_verify rb ob mark)
             (\<lambda>_ s1. if eq then ret (Some i) s1 else kh_small_loop rb ob k (i + 1) s1)) s)"

text \<open>\<open>for _ in 0..n\<close>, from bucket \<open>b\<close> with the last step \<open>step\<close>.\<close>

fun kh_probe_loop :: "'w ruby \<Rightarrow> obj_id \<Rightarrow> rvalue \<Rightarrow> (u32 \<times> nat) option \<Rightarrow> u32 \<Rightarrow> u32 \<Rightarrow> u32 \<Rightarrow> nat \<Rightarrow>
    ('w, nat option) eff" where
  "kh_probe_loop rb ob k mark msk b step 0 s = ret None s"
| "kh_probe_loop rb ob k mark msk b step (Suc n) s =
     (let v = (case hd_of s ob of Some h \<Rightarrow> h_bucket h (unat b) | None \<Rightarrow> EMPTY)
      in if v = EMPTY then ret None s
         else if v = DELETED then kh_probe_loop rb ob k mark msk ((b + (step + 1)) AND msk) (step + 1) n s
         else let stored = (case Option.bind (hd_of s ob) (\<lambda>h. h_key_at h v) of Some x \<Rightarrow> x | None \<Rightarrow> VNil)
              in andthen (kset_equal rb stored k) (\<lambda>eq. andthen (kh_verify rb ob mark)
                   (\<lambda>_ s1. if eq then ret (Some v) s1
                     else kh_probe_loop rb ob k mark msk ((b + (step + 1)) AND msk) (step + 1) n s1)) s)"

definition kh_get :: "'w ruby \<Rightarrow> obj_id \<Rightarrow> rvalue \<Rightarrow> ('w, nat option) eff" where
  "kh_get rb ob k s = (case hd_of s ob of
      None \<Rightarrow> ret None s
    | Some h \<Rightarrow>
        if \<not> h_is_ht h then kh_small_loop rb ob k 0 s
        else let mark = mark_of s ob
             in andthen (kset_hash rb k) (\<lambda>code. andthen (kh_verify rb ob mark) (\<lambda>_ s1.
                  let n = (case hd_of s1 ob of Some h1 \<Rightarrow> length (h_ib h1) | None \<Rightarrow> 0);
                      msk = of_nat n - 1
                  in kh_probe_loop rb ob k mark msk (code AND msk) 0 n s1)) s)"

section \<open>Rebuilding and inserting\<close>

fun kh_place_loop :: "u32 \<Rightarrow> nat \<Rightarrow> u32 \<Rightarrow> u32 \<Rightarrow> nat \<Rightarrow> nat list \<Rightarrow> nat list" where
  "kh_place_loop msk p b step 0 ib = ib"
| "kh_place_loop msk p b step (Suc n) ib =
     (if ib ! unat b = EMPTY then ib[unat b := p]
      else kh_place_loop msk p ((b + (step + 1)) AND msk) (step + 1) n ib)"

definition kh_place :: "hash_data \<Rightarrow> u32 \<Rightarrow> nat \<Rightarrow> hash_data" where
  "kh_place h code p =
     (if p < h_len h then h\<lparr>h_ib := kh_place_loop (h_mask h) p (code AND h_mask h) 0 (length (h_ib h)) (h_ib h)\<rparr> else h)"

partial_function (option) kh_rebuild_loop :: "'w ruby \<Rightarrow> obj_id \<Rightarrow> nat \<Rightarrow> ('w, unit) eff" where
  "kh_rebuild_loop rb ob p s = (case Option.bind (hd_of s ob) (\<lambda>h. h_key_at h p) of
      None \<Rightarrow> ret () s
    | Some k \<Rightarrow> andthen (kset_hash rb k)
        (\<lambda>code s1. kh_rebuild_loop rb ob (p + 1) (hd_mod ob (\<lambda>h. kh_place h code p) s1)) s)"

definition kh_rebuild :: "'w ruby \<Rightarrow> obj_id \<Rightarrow> nat \<Rightarrow> ('w, unit) eff" where
  "kh_rebuild rb ob b s = kh_rebuild_loop rb ob 0 (hd_mod ob (\<lambda>h. h_bump_gen (ht_reset h b)) s)"

text \<open>One round of the probe: the first deleted bucket before the first empty one, and that one.\<close>

fun kh_scan :: "hash_data \<Rightarrow> u32 \<Rightarrow> u32 \<Rightarrow> u32 \<Rightarrow> u32 option \<Rightarrow> nat \<Rightarrow> u32 option \<times> u32 option" where
  "kh_scan h msk b step del 0 = (del, None)"
| "kh_scan h msk b step del (Suc n) =
     (let v = h_bucket h (unat b)
      in if v = EMPTY then (del, Some b)
         else kh_scan h msk ((b + (step + 1)) AND msk) (step + 1) (if v = DELETED \<and> del = None then Some b else del) n)"

definition kh_free :: "hash_data \<Rightarrow> u32 \<Rightarrow> u32 option" where
  "kh_free h code =
     (let msk = of_nat (length (h_ib h)) - 1
      in case kh_scan h msk (code AND msk) 0 None (length (h_ib h)) of
          (Some d, _) \<Rightarrow> Some d
        | (None, Some e) \<Rightarrow> Some e
        | (None, None) \<Rightarrow> None)"

partial_function (option) kh_put_loop :: "'w ruby \<Rightarrow> obj_id \<Rightarrow> rvalue \<Rightarrow> ('w, unit) eff" where
  "kh_put_loop rb ob k s = andthen (kset_hash rb k) (\<lambda>code s1. case hd_of s1 ob of
      None \<Rightarrow> ret () s1
    | Some h \<Rightarrow> (case kh_free h code of
          Some at \<Rightarrow> ret () (hd_put ob (h_set_bucket (h_ar_push h k VTrue) (unat at) (h_len h)) s1)
        | None \<Rightarrow> andthen (kh_rebuild rb ob (h_ib_bit h)) (\<lambda>_ s2. kh_put_loop rb ob k s2) s1)) s"

text \<open>Past the small set: a table of the least width, one more bit at 7/8, the insertion.\<close>

definition kh_put_table :: "'w ruby \<Rightarrow> obj_id \<Rightarrow> rvalue \<Rightarrow> ('w, unit) eff" where
  "kh_put_table rb ob k s = (case hd_of s ob of
      None \<Rightarrow> kh_put_loop rb ob k s
    | Some h \<Rightarrow>
        if h_len h \<ge> kh_upper_bound h
        then andthen (kh_rebuild rb ob (h_ib_bit h + 1)) (\<lambda>_. kh_put_loop rb ob k) s
        else kh_put_loop rb ob k s)"

definition kh_put_new :: "'w ruby \<Rightarrow> obj_id \<Rightarrow> rvalue \<Rightarrow> ('w, unit) eff" where
  "kh_put_new rb ob k s = (case hd_of s ob of
      None \<Rightarrow> ret () s
    | Some h \<Rightarrow>
        if h_is_ht h then kh_put_table rb ob k s
        else if h_len h \<ge> KHASH_SMALL_LIMIT
        then andthen (kh_rebuild rb ob KHASH_MIN_BIT) (\<lambda>_. kh_put_table rb ob k) s
        else ret () (hd_put ob (h_ar_push h k VTrue) s))"

section \<open>The calls of the VM\<close>

definition set_contains :: "'w ruby \<Rightarrow> rvalue \<Rightarrow> rvalue \<Rightarrow> ('w, bool) eff" where
  "set_contains rb v k s = (case hash_obj s v of
      None \<Rightarrow> ret False s
    | Some ob \<Rightarrow> andthen (kh_get rb ob k) (\<lambda>r. ret (r \<noteq> None)) s)"

definition set_insert :: "'w ruby \<Rightarrow> rvalue \<Rightarrow> rvalue \<Rightarrow> ('w, unit) eff" where
  "set_insert rb v k s = (case hash_obj s v of
      None \<Rightarrow> raise_type rb (ascii ''not a set'') s
    | Some ob \<Rightarrow>
        if frozen_at s ob then raise_frozen rb v s
        else andthen (kh_get rb ob k) (\<lambda>r s1.
          if r \<noteq> None then ret () s1 else (case h_key_for rb k s1 of (s2, k1) \<Rightarrow> kh_put_new rb ob k1 s2)) s)"

definition set_remove :: "'w ruby \<Rightarrow> rvalue \<Rightarrow> rvalue \<Rightarrow> ('w, bool) eff" where
  "set_remove rb v k s = (case hash_obj s v of
      None \<Rightarrow> ret False s
    | Some ob \<Rightarrow> andthen (kh_get rb ob k) (\<lambda>r s1. case r of
        None \<Rightarrow> ret False s1
      | Some p \<Rightarrow> (case hd_of s1 ob of
            None \<Rightarrow> ret False s1
          | Some h \<Rightarrow> if p < h_len h then ret True (hd_put ob (fst (h_remove_entry h p)) s1) else ret False s1)) s)"

section \<open>A removal during the search\<close>

text \<open>
  Three elements that answer \<open>eql?\<close> in Ruby: the first says no; the second deletes the first from the
  Set and says yes. The search then answers position 1, where the third element is by now.
\<close>

definition quiet :: "(rvalue \<Rightarrow> sym \<Rightarrow> rvalue list \<Rightarrow> (unit, rvalue) eff) \<Rightarrow> unit ruby" where
  "quiet f = \<lparr>rb_funcall = f, rb_equal = (\<lambda>a b. ret (a = b)), rb_basic_eql = (\<lambda>a s. (s, False)),
     rb_describe = (\<lambda>a s. (s, [])), rb_s_hash = 0, rb_s_eql = 1, rb_s_mesg = 2, rb_c_string = 0, rb_c_hash = 0,
     rb_c_runtime_error = 0, rb_c_type_error = 0, rb_c_argument_error = 0, rb_c_frozen_error = 0\<rparr>"

definition trick_eql :: "rvalue \<Rightarrow> sym \<Rightarrow> rvalue list \<Rightarrow> (unit, rvalue) eff" where
  "trick_eql recv mid args s =
     (if recv = VObj 2
      then andthen (set_remove (quiet (\<lambda>_ _ _. ret VFalse)) (VObj 0) (VObj 1)) (\<lambda>_. ret VTrue) s
      else ret VFalse s)"

definition trick_set :: hash_data where
  "trick_set = h_new\<lparr>h_entries := [(VObj 1, VTrue), (VObj 2, VTrue), (VObj 3, VTrue)], h_slots := [0, 1, 2], h_n_used := 3\<rparr>"

definition trick_state :: "unit hvm" where
  "trick_state = \<lparr>vm_heap = heap_new\<lparr>hp_objs := [new_object 0 (K_Hash trick_set), new_object 0 K_Object, new_object 0 K_Object,
     new_object 0 K_Object, new_object 0 K_Object], hp_flags := [0, 0, 0, 0, 0]\<rparr>, vm_native_active = 0, vm_world = ()\<rparr>"

lemma trick_kind: "hd_of trick_state 0 = Some trick_set" "vm_string trick_state 1 = None" "vm_string trick_state 2 = None"
    "vm_string trick_state 3 = None"
  by (simp_all add: hd_of_def vm_string_def heap_string_def heap_kind_def heap_get_def trick_state_def new_object_def)

lemma trick_put: "hd_of (hd_put 0 h trick_state) 0 = Some h" "vm_string (hd_put 0 h trick_state) = vm_string trick_state"
  using hd_of_put [OF trick_kind(1)] put_string [OF trick_kind(1)] by simp_all

lemma active [simp]: "hd_of (s\<lparr>vm_native_active := n\<rparr>) ob = hd_of s ob" "vm_string (s\<lparr>vm_native_active := n\<rparr>) = vm_string s"
    "hd_put ob h (s\<lparr>vm_native_active := n\<rparr>) = (hd_put ob h s)\<lparr>vm_native_active := n\<rparr>"
  by (auto simp: hd_of_def vm_string_def fun_eq_iff hd_put_def vm_update_def)

lemma quiet_fields [simp]: "rb_funcall (quiet f) = f" "rb_basic_eql (quiet f) = (\<lambda>a s. (s, False))"
  by (simp_all add: quiet_def)

lemma get_first:
  assumes "hd_of s 0 = Some trick_set" "vm_string s 1 = None"
  shows "set_remove (quiet f) (VObj 0) (VObj 1) s = Some (hd_put 0 (fst (h_remove_entry trick_set 0)) s, Inr True)"
proof -
  have "kset_equal (quiet f) (VObj 1) (VObj 1) s = Some (s, Inr True)"
    using assms(2) by (simp add: kset_equal_def mrb_eql_def ret_def)
  then have "kh_get (quiet f) 0 (VObj 1) s = Some (s, Inr (Some 0))"
    using assms(1) by (simp add: kh_get_def kh_small_loop.simps [of _ _ _ 0] trick_set_def h_new_def h_is_ht_def h_key_at_def h_len_def
      andthen_def kh_verify_def ret_def)
  then show ?thesis using assms(1) by (simp add: set_remove_def hash_obj_def andthen_step ret_def trick_set_def h_len_def)
qed

lemma elt_eql:
  assumes "vm_string s i = None" "i \<noteq> 4" "f (VObj i) 1 [VObj 4] (s\<lparr>vm_native_active := vm_native_active s + 1\<rparr>) = Some (t, Inr r)"
  shows "kset_equal (quiet f) (VObj i) (VObj 4) s = Some (t\<lparr>vm_native_active := vm_native_active t - 1\<rparr>, Inr (truthy r))"
  using assms by (simp add: kset_equal_def mrb_eql_def mrb_eql_send_def send_def andthen_def ret_def quiet_def)

lemma trick_active [simp]: "(hd_put 0 h trick_state)\<lparr>vm_native_active := 0\<rparr> = hd_put 0 h trick_state"
  by (simp add: hd_put_def vm_update_def trick_state_def)

lemma active_same [simp]: "s\<lparr>vm_native_active := n, vm_native_active := vm_native_active s\<rparr> = s"
  by simp

lemma set_remove_takes_another:
  "set_remove (quiet trick_eql) (VObj 0) (VObj 4) trick_state =
    Some (hd_put 0 (trick_set\<lparr>h_entries := [(VObj 2, VTrue)], h_slots := [1]\<rparr>) trick_state, Inr True)"
proof -
  let ?t = "trick_set\<lparr>h_entries := [(VObj 2, VTrue), (VObj 3, VTrue)], h_slots := [1, 2]\<rparr>"
  have rm: "fst (h_remove_entry trick_set 0) = ?t"
    by (simp add: h_remove_entry_def trick_set_def list_remove_at_def h_is_ht_def h_new_def)
  have na: "vm_native_active trick_state = 0" by (simp add: trick_state_def)
  have e1: "kset_equal (quiet trick_eql) (VObj 1) (VObj 4) trick_state = Some (trick_state, Inr False)"
    by (subst elt_eql [where r = VFalse and t = "trick_state\<lparr>vm_native_active := 1\<rparr>"])
      (simp_all add: trick_kind trick_eql_def ret_def na truthy_def)
  have e2: "kset_equal (quiet trick_eql) (VObj 2) (VObj 4) trick_state = Some (hd_put 0 ?t trick_state, Inr True)"
    by (subst elt_eql [where r = VTrue and t = "(hd_put 0 ?t trick_state)\<lparr>vm_native_active := 1\<rparr>"])
      (simp_all add: trick_kind trick_eql_def ret_def na andthen_def get_first rm truthy_def)
  have "kh_get (quiet trick_eql) 0 (VObj 4) trick_state = Some (hd_put 0 ?t trick_state, Inr (Some 1))"
    using e1 e2 trick_kind(1) trick_put(1)
    by (simp add: kh_get_def kh_small_loop.simps [of _ _ _ 0] kh_small_loop.simps [of _ _ _ "Suc 0"] trick_set_def h_new_def h_is_ht_def h_key_at_def h_len_def
      andthen_def kh_verify_def ret_def mark_of_def kh_mark_def)
  then show ?thesis
    by (simp add: set_remove_def hash_obj_def andthen_step ret_def trick_kind trick_put h_len_def put_put
      h_remove_entry_def list_remove_at_def trick_set_def h_is_ht_def h_new_def)
qed

section \<open>The operations keep every table in order\<close>

lemma kset_hash_secures:
  assumes rb: "ruby_keeps tables_ok rb"
  shows "secures tables_ok (kset_hash rb key) any"
proof
  fix s :: "'a hvm"
  assume s: "tables_ok s"
  have "outcome tables_ok any (h_code_unchecked rb key s)"
    using s by (auto simp: h_code_unchecked_def Let_def intro!: outcome_ret outcome_andthen [OF send_secures [OF rb]]
      split: rvalue.split option.split)
  then show "outcome tables_ok any (kset_hash rb key s)"
    by (auto simp: kset_hash_def outcome_def split: option.splits prod.splits sum.splits)
qed

lemma kset_equal_secures:
  assumes rb: "ruby_keeps tables_ok rb"
  shows "secures tables_ok (kset_equal rb a b) any"
  by (rule securesI) (auto simp: kset_equal_def intro!: outcome_ret securesD [OF mrb_eql_secures [OF rb]] split: rvalue.split)

lemma kh_verify_secures: "secures tables_ok (kh_verify rb ob mark) any"
  by (rule securesI) (auto simp: kh_verify_def intro!: outcome_ret raised)

lemma kh_small_secures:
  assumes rb: "ruby_keeps tables_ok rb"
  shows "secures tables_ok (kh_small_loop rb ob k i) any"
proof
  fix s :: "'a hvm"
  assume s: "tables_ok s"
  show "outcome tables_ok any (kh_small_loop rb ob k i s)"
  proof (rule outcome_call)
    fix y
    assume y: "kh_small_loop rb ob k i s = Some y"
    have "ruby_keeps tables_ok rb \<longrightarrow> tables_ok s \<longrightarrow> outcome tables_ok any (Some y)"
    proof (rule kh_small_loop.raw_induct [OF _ y,
          where P = "\<lambda>rb ob k i s y. ruby_keeps tables_ok rb \<longrightarrow> tables_ok s \<longrightarrow> outcome tables_ok any (Some y)"],
        intro impI, goal_cases)
      case (1 f rb ob k i s y)
      note rb = 1(3) and s = 1(4)
      have c: "tables_ok s \<Longrightarrow> outcome tables_ok any (f rb ob k i s)" for i s
        by (rule outcome_call) (use 1(1) rb in blast)
      show ?case unfolding 1(2) [symmetric] using s
        by (auto simp: Let_def intro!: c outcome_ret outcome_andthen [OF kset_equal_secures [OF rb]]
          outcome_andthen [OF kh_verify_secures] split: option.split)
    qed
    then show "outcome tables_ok any (Some y)" using rb s by blast
  qed
qed

lemma kh_get_secures:
  assumes rb: "ruby_keeps tables_ok rb"
  shows "secures tables_ok (kh_get rb ob k) any"
proof
  fix s :: "'a hvm"
  assume s: "tables_ok s"
  have l: "tables_ok s \<Longrightarrow> outcome tables_ok any (kh_probe_loop rb ob k mark msk b step n s)" for mark msk b step n s
  proof (induction n arbitrary: b step s)
    case (Suc n)
    then show ?case
      by (auto simp: Let_def intro!: outcome_ret outcome_andthen [OF kset_equal_secures [OF rb]]
        outcome_andthen [OF kh_verify_secures] split: option.split)
  qed (auto intro: outcome_ret)
  show "outcome tables_ok any (kh_get rb ob k s)"
    using s by (auto simp: kh_get_def Let_def simp del: kh_probe_loop.simps intro!: outcome_ret l securesD [OF kh_small_secures [OF rb]]
      outcome_andthen [OF kset_hash_secures [OF rb]] outcome_andthen [OF kh_verify_secures] split: option.split)
qed

lemma kh_place_length: "length (kh_place_loop msk p b step n ib) = length ib"
  by (induction msk p b step n ib rule: kh_place_loop.induct) simp_all

lemma kh_place_set: "set (kh_place_loop msk p b step n ib) \<subseteq> insert p (set ib)"
proof (induction msk p b step n ib rule: kh_place_loop.induct)
  case (2 msk p b step n ib)
  then show ?case using set_update_subset_insert [of ib "unat b" p] by auto
qed auto

lemma tbl_ok_kh_place [tbl]: "tbl_ok h \<Longrightarrow> tbl_ok (kh_place h c p)"
  using kh_place_set [of "h_mask h" p "c AND h_mask h" 0 "length (h_ib h)" "h_ib h"]
  by (auto simp: kh_place_def tbl_defs kh_place_length)

lemma tbl_ok_bump [tbl]: "tbl_ok h \<Longrightarrow> tbl_ok (h_bump_gen h)"
  by (simp add: h_bump_gen_def tbl_defs)

lemma kh_rebuild_secures:
  assumes rb: "ruby_keeps tables_ok rb"
  shows "secures tables_ok (kh_rebuild rb ob b) any"
proof -
  have "secures tables_ok (kh_rebuild_loop rb ob p) any" for p
  proof
    fix s :: "'a hvm"
    assume s: "tables_ok s"
    show "outcome tables_ok any (kh_rebuild_loop rb ob p s)"
    proof (rule outcome_call)
      fix y
      assume y: "kh_rebuild_loop rb ob p s = Some y"
      have "ruby_keeps tables_ok rb \<longrightarrow> tables_ok s \<longrightarrow> outcome tables_ok any (Some y)"
      proof (rule kh_rebuild_loop.raw_induct [OF _ y,
            where P = "\<lambda>rb ob p s y. ruby_keeps tables_ok rb \<longrightarrow> tables_ok s \<longrightarrow> outcome tables_ok any (Some y)"],
          intro impI, goal_cases)
        case (1 f rb ob p s y)
        note rb = 1(3) and s = 1(4)
        have c: "tables_ok s \<Longrightarrow> outcome tables_ok any (f rb ob p s)" for p s
          by (rule outcome_call) (use 1(1) rb in blast)
        show ?case unfolding 1(2) [symmetric] using s
          by (auto intro!: c outcome_ret tables_ok_mod tbl outcome_andthen [OF kset_hash_secures [OF rb]] split: option.split)
      qed
      then show "outcome tables_ok any (Some y)" using rb s by blast
    qed
  qed
  note l = this
  show ?thesis
  proof
    fix s :: "'a hvm"
    assume "tables_ok s"
    then have "tables_ok (hd_mod ob (\<lambda>h. h_bump_gen (ht_reset h b)) s)" by (intro tables_ok_mod tbl)
    then show "outcome tables_ok any (kh_rebuild rb ob b s)" using securesD [OF l] by (simp add: kh_rebuild_def)
  qed
qed

lemma kh_put_loop_secures:
  assumes rb: "ruby_keeps tables_ok rb"
  shows "secures tables_ok (kh_put_loop rb ob k) any"
proof
  fix s :: "'a hvm"
  assume s: "tables_ok s"
  show "outcome tables_ok any (kh_put_loop rb ob k s)"
  proof (rule outcome_call)
    fix y
    assume y: "kh_put_loop rb ob k s = Some y"
    have "ruby_keeps tables_ok rb \<longrightarrow> tables_ok s \<longrightarrow> outcome tables_ok any (Some y)"
    proof (rule kh_put_loop.raw_induct [OF _ y,
          where P = "\<lambda>rb ob k s y. ruby_keeps tables_ok rb \<longrightarrow> tables_ok s \<longrightarrow> outcome tables_ok any (Some y)"],
        intro impI, goal_cases)
      case (1 f rb ob k s y)
      note rb = 1(3) and s = 1(4)
      have c: "tables_ok s \<Longrightarrow> outcome tables_ok any (f rb ob k s)" for s
        by (rule outcome_call) (use 1(1) rb in blast)
      have p: "tbl_ok (h_set_bucket (h_ar_push h k VTrue) b (h_len h))" if "tbl_ok h" for h b
        using that by (intro tbl) (simp_all add: h_len_def h_ar_push_def)
      show ?case unfolding 1(2) [symmetric] using s
        by (auto intro!: c outcome_ret tables_ok_put p outcome_andthen [OF kset_hash_secures [OF rb]]
          outcome_andthen [OF kh_rebuild_secures [OF rb]] intro: tables_ok_hd split: option.split)
    qed
    then show "outcome tables_ok any (Some y)" using rb s by blast
  qed
qed

lemma kh_put_secures:
  assumes rb: "ruby_keeps tables_ok rb"
  shows "secures tables_ok (kh_put_new rb ob k) any"
proof -
  have t: "secures tables_ok (kh_put_table rb ob k) any"
    by (rule securesI) (auto simp: kh_put_table_def intro!: securesD [OF kh_put_loop_secures [OF rb]]
      outcome_andthen [OF kh_rebuild_secures [OF rb]] split: option.split)
  show ?thesis
    by (rule securesI) (auto simp: kh_put_new_def intro!: outcome_ret securesD [OF t] tables_ok_put tbl
      outcome_andthen [OF kh_rebuild_secures [OF rb]] intro: tables_ok_hd split: option.split)
qed

lemma contains_secures: "ruby_keeps tables_ok rb \<Longrightarrow> secures tables_ok (set_contains rb v k) any"
  by (rule securesI) (auto simp: set_contains_def intro!: outcome_ret outcome_andthen [OF kh_get_secures] split: option.split)

lemma insert_secures:
  assumes rb: "ruby_keeps tables_ok rb"
  shows "secures tables_ok (set_insert rb v k) any"
proof -
  have p: "outcome tables_ok any (case h_key_for rb k s of (s2, k1) \<Rightarrow> kh_put_new rb ob k1 s2)" if "tables_ok s" for s ob
    using key_for_keeps [OF that, of rb k] securesD [OF kh_put_secures [OF rb]] by (cases "h_key_for rb k s") simp
  show ?thesis
    by (rule securesI) (auto simp: set_insert_def intro!: raised p outcome_ret securesD [OF frozen_secures [OF rb]]
      outcome_andthen [OF kh_get_secures [OF rb]] split: option.split)
qed

lemma remove_secures:
  assumes rb: "ruby_keeps tables_ok rb"
  shows "secures tables_ok (set_remove rb v k) any"
  by (rule securesI) (auto simp: set_remove_def intro!: outcome_ret tables_ok_put tbl outcome_andthen [OF kh_get_secures [OF rb]]
    intro: tables_ok_hd split: option.split)

text \<open>Programs that keep the tables: those whose methods do.\<close>

lemma ret_secures: "secures I (ret v) any"
  by (rule securesI) (auto intro: outcome_ret)

lemma then_secures: "secures I m any \<Longrightarrow> (\<And>x. secures I (f x) any) \<Longrightarrow> secures I (andthen m f) any"
  by (rule securesI) (auto intro: outcome_andthen securesD)

lemma quiet_keeps: "(\<And>recv mid args. secures I (f recv mid args) any) \<Longrightarrow> ruby_keeps I (quiet f)"
  by (simp add: ruby_keeps_def ret_secures) (simp add: quiet_def ret_secures)

end
