(* ===== verification/HostStore.thy ===== *)
theory HostStore
  imports Prelude SortedDeque
begin

text \<open>
  The slab the host keeps its values in (\<open>src/host_store.rs\<close>): \<open>HostStore<T>\<close> with its free list and its
  loans, the stores of a VM by type and tag, and the handle protocol of \<open>RubyClass\<close>. The types that
  have a store are the values of \<open>'t\<close> (\<open>TypeId\<close>), what they store the values of \<open>'a\<close>; a handle is a
  number (\<open>u64\<close> and \<open>usize\<close> are the same width).
\<close>

section \<open>HostStore\<close>

datatype 'a cell = Cell_Empty | Cell_Full 'a | Cell_Out

record 'a host_store =
  hst_slots :: "'a cell list"
  hst_free :: "nat list"
  hst_live :: nat

definition hst_new :: "'a host_store" where
  "hst_new = \<lparr>hst_slots = [], hst_free = [], hst_live = 0\<rparr>"

definition hst_cell :: "'a host_store \<Rightarrow> nat \<Rightarrow> 'a cell option" where
  "hst_cell st h = (if h < length (hst_slots st) then Some (hst_slots st ! h) else None)"

definition hst_insert :: "'a host_store \<Rightarrow> 'a \<Rightarrow> 'a host_store \<times> nat" where
  "hst_insert st v =
     (let st1 = st\<lparr>hst_live := hst_live st + 1\<rparr>
      in if hst_free st1 \<noteq> []
         then let h = last (hst_free st1)
              in (st1\<lparr>hst_free := butlast (hst_free st1), hst_slots := (hst_slots st1)[h := Cell_Full v]\<rparr>, h)
         else (st1\<lparr>hst_slots := hst_slots st1 @ [Cell_Full v]\<rparr>, length (hst_slots st1)))"

definition hst_get :: "'a host_store \<Rightarrow> nat \<Rightarrow> 'a option" where
  "hst_get st h = (case hst_cell st h of Some (Cell_Full v) \<Rightarrow> Some v | _ \<Rightarrow> None)"

text \<open>A write through \<open>get_mut\<close>.\<close>

definition hst_set :: "'a host_store \<Rightarrow> nat \<Rightarrow> ('a \<Rightarrow> 'a) \<Rightarrow> 'a host_store" where
  "hst_set st h f = (case hst_get st h of
      Some v \<Rightarrow> st\<lparr>hst_slots := (hst_slots st)[h := Cell_Full (f v)]\<rparr> | None \<Rightarrow> st)"

definition hst_contains :: "'a host_store \<Rightarrow> nat \<Rightarrow> bool" where
  "hst_contains st h \<longleftrightarrow> hst_get st h \<noteq> None"

definition hst_is_out :: "'a host_store \<Rightarrow> nat \<Rightarrow> bool" where
  "hst_is_out st h \<longleftrightarrow> hst_cell st h = Some Cell_Out"

definition hst_remove :: "'a host_store \<Rightarrow> nat \<Rightarrow> 'a host_store \<times> 'a option" where
  "hst_remove st h = (case hst_cell st h of
      Some (Cell_Full v) \<Rightarrow>
        (st\<lparr>hst_slots := (hst_slots st)[h := Cell_Empty], hst_free := hst_free st @ [h],
            hst_live := hst_live st - 1\<rparr>, Some v)
    | _ \<Rightarrow> (st, None))"

definition hst_take :: "'a host_store \<Rightarrow> nat \<Rightarrow> 'a host_store \<times> 'a option" where
  "hst_take st h = (case hst_cell st h of
      Some (Cell_Full v) \<Rightarrow>
        (st\<lparr>hst_slots := (hst_slots st)[h := Cell_Out], hst_live := hst_live st - 1\<rparr>, Some v)
    | _ \<Rightarrow> (st, None))"

definition hst_restore :: "'a host_store \<Rightarrow> nat \<Rightarrow> 'a \<Rightarrow> 'a host_store" where
  "hst_restore st h v =
     (if hst_cell st h = Some Cell_Out
      then st\<lparr>hst_slots := (hst_slots st)[h := Cell_Full v], hst_live := hst_live st + 1\<rparr> else st)"

definition hst_len :: "'a host_store \<Rightarrow> nat" where "hst_len st = hst_live st"
definition hst_is_empty :: "'a host_store \<Rightarrow> bool" where "hst_is_empty st \<longleftrightarrow> hst_live st = 0"

definition hst_iter :: "'a host_store \<Rightarrow> (nat \<times> 'a) list" where
  "hst_iter st = List.map_filter (\<lambda>h. map_option (Pair h) (hst_get st h)) [0..<length (hst_slots st)]"

subsection \<open>The invariant\<close>

definition cell_full :: "'a cell \<Rightarrow> bool" where
  "cell_full x \<longleftrightarrow> (case x of Cell_Full _ \<Rightarrow> True | _ \<Rightarrow> False)"

definition full_count :: "'a cell list \<Rightarrow> nat" where
  "full_count xs = length (filter cell_full xs)"

definition hst_inv :: "'a host_store \<Rightarrow> bool" where
  "hst_inv st \<longleftrightarrow> distinct (hst_free st) \<and> hst_live st = full_count (hst_slots st) \<and>
     (\<forall>h. h \<in> set (hst_free st) \<longleftrightarrow> hst_cell st h = Some Cell_Empty)"

lemma cell_full_simps [simp]: "cell_full (Cell_Full v)" "\<not> cell_full Cell_Empty" "\<not> cell_full Cell_Out"
  by (simp_all add: cell_full_def)

lemma full_count_update:
  "h < length xs \<Longrightarrow> full_count (xs[h := x]) + (if cell_full (xs ! h) then 1 else 0) =
    full_count xs + (if cell_full x then 1 else 0)"
proof (induction xs arbitrary: h)
  case (Cons y ys)
  then show ?case by (cases h) (auto simp: full_count_def)
qed simp

lemma cell_update: "hst_cell (st\<lparr>hst_slots := (hst_slots st)[h := x]\<rparr>) i =
    (if i = h \<and> h < length (hst_slots st) then Some x else hst_cell st i)"
  by (auto simp: hst_cell_def)

definition hst_put :: "'a host_store \<Rightarrow> nat \<Rightarrow> 'a cell \<Rightarrow> nat list \<Rightarrow> nat \<Rightarrow> 'a host_store" where
  "hst_put st h x fs n = \<lparr>hst_slots = (hst_slots st)[h := x], hst_free = fs, hst_live = n\<rparr>"

lemma hst_put_cell:
  "h < length (hst_slots st) \<Longrightarrow> hst_cell (hst_put st h x fs n) j = (if j = h then Some x else hst_cell st j)"
  by (auto simp: hst_put_def hst_cell_def)

lemma hst_put_inv:
  assumes inv: "hst_inv st" and h: "h < length (hst_slots st)" and fs: "distinct fs"
    "\<And>j. j \<in> set fs \<longleftrightarrow> (if j = h then x = Cell_Empty else j \<in> set (hst_free st))"
    and n: "n + (if cell_full (hst_slots st ! h) then 1 else 0) = hst_live st + (if cell_full x then 1 else 0)"
  shows "hst_inv (hst_put st h x fs n)"
proof -
  have "n = full_count ((hst_slots st)[h := x])"
    using full_count_update [OF h, of x] n inv by (simp add: hst_inv_def)
  moreover have "j \<in> set fs \<longleftrightarrow> hst_cell (hst_put st h x fs n) j = Some Cell_Empty" for j
    using fs(2) [of j] inv by (simp add: hst_put_cell [OF h] hst_inv_def)
  ultimately show ?thesis using fs(1) by (simp add: hst_inv_def) (simp add: hst_put_def)
qed

lemma full_live: "hst_inv st \<Longrightarrow> h < length (hst_slots st) \<Longrightarrow> cell_full (hst_slots st ! h) \<Longrightarrow> 0 < hst_live st"
  by (auto simp: hst_inv_def full_count_def filter_empty_conv)

lemma hst_new_inv: "hst_inv hst_new"
  by (simp add: hst_inv_def hst_new_def full_count_def hst_cell_def)

text \<open>
  What the client of a store relies on: values by handle (\<open>abs\<close>), handles that are out (\<open>loan\<close>). A
  new value goes to a handle that names nothing and is not out.
\<close>

locale handle_store =
  fixes inv :: "'s \<Rightarrow> bool" and abs :: "'s \<Rightarrow> nat \<Rightarrow> 'a option" and loan :: "'s \<Rightarrow> nat \<Rightarrow> bool"
    and ins :: "'s \<Rightarrow> 'a \<Rightarrow> 's \<times> nat" and rem :: "'s \<Rightarrow> nat \<Rightarrow> 's \<times> 'a option"
    and lend :: "'s \<Rightarrow> nat \<Rightarrow> 's \<times> 'a option" and give :: "'s \<Rightarrow> nat \<Rightarrow> 'a \<Rightarrow> 's"
  assumes ins_law: "inv s \<Longrightarrow> ins s v = (s', h) \<Longrightarrow>
      inv s' \<and> abs s h = None \<and> \<not> loan s h \<and> abs s' = (abs s)(h \<mapsto> v) \<and> loan s' = loan s"
    and rem_law: "inv s \<Longrightarrow> rem s h = (s', r) \<Longrightarrow>
      inv s' \<and> r = abs s h \<and> abs s' = (abs s)(h := None) \<and> loan s' = loan s"
    and lend_law: "inv s \<Longrightarrow> lend s h = (s', r) \<Longrightarrow>
      inv s' \<and> r = abs s h \<and> abs s' = (abs s)(h := None) \<and> loan s' = (loan s)(h := loan s h \<or> abs s h \<noteq> None)"
    and give_law: "inv s \<Longrightarrow>
      inv (give s h v) \<and> abs (give s h v) = (if loan s h then (abs s)(h \<mapsto> v) else abs s) \<and>
      loan (give s h v) = (loan s)(h := False)"
begin

text \<open>What happens to a store while a value is out: inserts, removals, other loans and their return.\<close>

fun step :: "'s \<Rightarrow> 'a + (nat + (nat + nat \<times> 'a)) \<Rightarrow> 's" where
  "step s (Inl v) = fst (ins s v)"
| "step s (Inr (Inl h)) = fst (rem s h)"
| "step s (Inr (Inr (Inl h))) = fst (lend s h)"
| "step s (Inr (Inr (Inr (h, v)))) = give s h v"

lemma steps_inv: "inv s \<Longrightarrow> inv (foldl step s ops)"
proof (induction ops arbitrary: s)
  case (Cons x ops)
  have "inv (step s x)"
    using Cons.prems ins_law [OF _ surjective_pairing] rem_law [OF _ surjective_pairing]
      lend_law [OF _ surjective_pairing] give_law
    by (cases "(s, x)" rule: step.cases) auto
  then show ?case using Cons.IH by simp
qed simp

lemma loan_kept:
  "inv s \<Longrightarrow> loan s h \<Longrightarrow> \<forall>v. Inr (Inr (Inr (h, v))) \<notin> set ops \<Longrightarrow> loan (foldl step s ops) h"
proof (induction ops arbitrary: s)
  case (Cons x ops)
  have "loan (step s x) h"
    using Cons.prems ins_law [OF _ surjective_pairing] rem_law [OF _ surjective_pairing]
      lend_law [OF _ surjective_pairing] give_law
    by (cases "(s, x)" rule: step.cases) auto
  then show ?case using Cons.IH steps_inv [of s "[x]"] Cons.prems by simp
qed simp

text \<open>A value that was lent out can be put back under its handle whatever happened in between.\<close>

lemma lend_back:
  assumes "inv s" "abs s h = Some v" "\<forall>w. Inr (Inr (Inr (h, w))) \<notin> set ops"
  shows "abs (give (foldl step (fst (lend s h)) ops) h w) h = Some w"
proof -
  have l: "inv (fst (lend s h))" "loan (fst (lend s h)) h"
    using lend_law [OF assms(1) surjective_pairing, of h] assms(2) by auto
  show ?thesis using give_law [OF steps_inv [OF l(1)]] loan_kept [OF l assms(3)] by auto
qed

end

interpretation store: handle_store hst_inv hst_get hst_is_out hst_insert hst_remove hst_take hst_restore
proof
  note d = hst_get_def hst_is_out_def fun_eq_iff
  fix s s' :: "'a host_store" and v h r
  assume inv: "hst_inv s"
  have i: "distinct (hst_free s)" "hst_live s = full_count (hst_slots s)"
    "\<And>h. h \<in> set (hst_free s) \<longleftrightarrow> hst_cell s h = Some Cell_Empty" using inv by (auto simp: hst_inv_def)
  show "hst_inv s' \<and> hst_get s h = None \<and> \<not> hst_is_out s h \<and> hst_get s' = (hst_get s)(h \<mapsto> v) \<and> hst_is_out s' = hst_is_out s"
    if ins: "hst_insert s v = (s', h)"
  proof (cases "hst_free s = []")
    case False
    have h: "h = last (hst_free s)" "s' = s\<lparr>hst_live := hst_live s + 1, hst_free := butlast (hst_free s),
        hst_slots := (hst_slots s)[h := Cell_Full v]\<rparr>"
      using ins False by (auto simp: hst_insert_def Let_def)
    have e: "hst_cell s h = Some Cell_Empty" using i(3) [of h] False by (simp add: h(1))
    have l: "h < length (hst_slots s)" "hst_slots s ! h = Cell_Empty" using e by (auto simp: hst_cell_def split: if_splits)
    have c: "hst_cell s' j = (if j = h then Some (Cell_Full v) else hst_cell s j)" for j
      using l by (auto simp: h(2) hst_cell_def)
    obtain fs where fs: "hst_free s = fs @ [h]" using False h(1) by (metis append_butlast_last_id)
    have "s' = hst_put s h (Cell_Full v) fs (hst_live s + 1)" by (simp add: h(2) fs hst_put_def)
    moreover have "hst_inv (hst_put s h (Cell_Full v) fs (hst_live s + 1))"
      using i(1) l by (intro hst_put_inv [OF inv]) (auto simp: fs)
    ultimately have "hst_inv s'" by simp
    then show ?thesis using e by (auto simp: d c)
  next
    case True
    have h: "h = length (hst_slots s)" "s' = s\<lparr>hst_live := hst_live s + 1, hst_slots := hst_slots s @ [Cell_Full v]\<rparr>"
      using ins True by (auto simp: hst_insert_def Let_def)
    have c: "hst_cell s' j = (if j = h then Some (Cell_Full v) else hst_cell s j)" for j
      by (auto simp: h hst_cell_def nth_append)
    have e: "hst_cell s h = None" by (simp add: h(1) hst_cell_def)
    have "hst_inv s'" using i True by (auto simp: hst_inv_def c) (simp_all add: h(2) full_count_def)
    then show ?thesis using e by (auto simp: d c)
  qed
  show "hst_inv s' \<and> r = hst_get s h \<and> hst_get s' = (hst_get s)(h := None) \<and> hst_is_out s' = hst_is_out s"
    if rem: "hst_remove s h = (s', r)"
  proof (cases "hst_get s h")
    case None
    then have "s' = s" "r = None" using rem by (auto simp: hst_remove_def hst_get_def split: option.splits cell.splits)
    then show ?thesis using None inv by auto
  next
    case (Some w)
    then have e: "hst_cell s h = Some (Cell_Full w)" by (auto simp: hst_get_def split: option.splits cell.splits)
    then have l: "h < length (hst_slots s)" "hst_slots s ! h = Cell_Full w" by (auto simp: hst_cell_def split: if_splits)
    have s': "s' = hst_put s h Cell_Empty (hst_free s @ [h]) (hst_live s - 1)" "r = Some w"
      using rem e by (auto simp: hst_remove_def hst_put_def)
    note c = hst_put_cell [OF l(1), of Cell_Empty "hst_free s @ [h]" "hst_live s - 1", folded s'(1)]
    have "h \<notin> set (hst_free s)" using i(3) [of h] e by simp
    then have "hst_inv s'" unfolding s'(1)
      using i(1) l full_live [OF inv l(1)] by (intro hst_put_inv [OF inv]) auto
    then show ?thesis using e Some s'(2) by (auto simp: d c)
  qed
  show "hst_inv s' \<and> r = hst_get s h \<and> hst_get s' = (hst_get s)(h := None) \<and>
      hst_is_out s' = (hst_is_out s)(h := hst_is_out s h \<or> hst_get s h \<noteq> None)"
    if lend: "hst_take s h = (s', r)"
  proof (cases "hst_get s h")
    case None
    then have "s' = s" "r = None" using lend by (auto simp: hst_take_def hst_get_def split: option.splits cell.splits)
    then show ?thesis using None inv by auto
  next
    case (Some w)
    then have e: "hst_cell s h = Some (Cell_Full w)" by (auto simp: hst_get_def split: option.splits cell.splits)
    then have l: "h < length (hst_slots s)" "hst_slots s ! h = Cell_Full w" by (auto simp: hst_cell_def split: if_splits)
    have s': "s' = hst_put s h Cell_Out (hst_free s) (hst_live s - 1)" "r = Some w"
      using lend e by (auto simp: hst_take_def hst_put_def)
    note c = hst_put_cell [OF l(1), of Cell_Out "hst_free s" "hst_live s - 1", folded s'(1)]
    have "h \<notin> set (hst_free s)" using i(3) [of h] e by simp
    then have "hst_inv s'" unfolding s'(1)
      using i(1) l full_live [OF inv l(1)] by (intro hst_put_inv [OF inv]) auto
    then show ?thesis using e Some s'(2) by (auto simp: d c)
  qed
  show "hst_inv (hst_restore s h v) \<and>
      hst_get (hst_restore s h v) = (if hst_is_out s h then (hst_get s)(h \<mapsto> v) else hst_get s) \<and>
      hst_is_out (hst_restore s h v) = (hst_is_out s)(h := False)"
  proof (cases "hst_is_out s h")
    case True
    then have e: "hst_cell s h = Some Cell_Out" by (simp add: hst_is_out_def)
    then have l: "h < length (hst_slots s)" "hst_slots s ! h = Cell_Out" by (auto simp: hst_cell_def split: if_splits)
    let ?s = "hst_restore s h v"
    have s': "?s = hst_put s h (Cell_Full v) (hst_free s) (hst_live s + 1)"
      using e by (simp add: hst_restore_def hst_put_def)
    note c = hst_put_cell [OF l(1), of "Cell_Full v" "hst_free s" "hst_live s + 1", folded s']
    have "h \<notin> set (hst_free s)" using i(3) [of h] e by simp
    then have "hst_inv ?s" unfolding s'
      using i(1) l by (intro hst_put_inv [OF inv]) auto
    then show ?thesis using True by (auto simp: d c)
  next
    case False
    then show ?thesis using inv by (auto simp: hst_restore_def hst_is_out_def fun_eq_iff)
  qed
qed

section \<open>The stores of a VM\<close>

text \<open>The fields of \<open>Vm\<close> the stores use, one entry per type: its tag, its type, its store.\<close>

record ('t, 'a) host_vm =
  hv_next_tag :: u32
  hv_stores :: "(u32 \<times> 't \<times> 'a host_store) list"

definition next_data_tag :: "('t, 'a) host_vm \<Rightarrow> ('t, 'a) host_vm \<times> u32" where
  "next_data_tag vm = (let vm1 = vm\<lparr>hv_next_tag := hv_next_tag vm + 1\<rparr> in (vm1, hv_next_tag vm1 - 1))"

definition entry_of :: "('t, 'a) host_vm \<Rightarrow> 't \<Rightarrow> (u32 \<times> 't \<times> 'a host_store) option" where
  "entry_of vm ty = find (\<lambda>(_, ty', _). ty' = ty) (hv_stores vm)"

definition install_host_store :: "('t, 'a) host_vm \<Rightarrow> 't \<Rightarrow> ('t, 'a) host_vm \<times> u32" where
  "install_host_store vm ty = (case entry_of vm ty of
      Some (g, _, _) \<Rightarrow> (vm, g)
    | None \<Rightarrow> let (vm1, g) = next_data_tag vm
              in (vm1\<lparr>hv_stores := hv_stores vm1 @ [(g, ty, hst_new)]\<rparr>, g))"

definition host_store_of :: "('t, 'a) host_vm \<Rightarrow> 't \<Rightarrow> 'a host_store option" where
  "host_store_of vm ty = map_option (\<lambda>(_, _, st). st) (entry_of vm ty)"

definition host_store_tag :: "('t, 'a) host_vm \<Rightarrow> 't \<Rightarrow> u32 option" where
  "host_store_tag vm ty = map_option fst (entry_of vm ty)"

text \<open>\<open>iter_mut().find(p)\<close>, and a write to the entry found.\<close>

fun upd_first :: "('e \<Rightarrow> bool) \<Rightarrow> ('e \<Rightarrow> 'e) \<Rightarrow> 'e list \<Rightarrow> 'e list" where
  "upd_first P f [] = []"
| "upd_first P f (x # xs) = (if P x then f x # xs else x # upd_first P f xs)"

definition host_store_mut :: "('t, 'a) host_vm \<Rightarrow> 't \<Rightarrow> ('a host_store \<Rightarrow> 'a host_store) \<Rightarrow> ('t, 'a) host_vm" where
  "host_store_mut vm ty f = vm\<lparr>hv_stores :=
     upd_first (\<lambda>(_, ty', _). ty' = ty) (\<lambda>(g, ty', st). (g, ty', f st)) (hv_stores vm)\<rparr>"

definition host_store_free :: "('t, 'a) host_vm \<Rightarrow> u32 \<Rightarrow> nat \<Rightarrow> ('t, 'a) host_vm" where
  "host_store_free vm g h = vm\<lparr>hv_stores :=
     upd_first (\<lambda>(g', _, _). g' = g) (\<lambda>(g', ty, st). (g', ty, fst (hst_remove st h))) (hv_stores vm)\<rparr>"

section \<open>The handle protocol of a class\<close>

datatype host_error = Wrong_Type | Uninitialized | Stale_Handle | In_Use

definition class_tag :: "('t, 'a) host_vm \<Rightarrow> 't \<Rightarrow> ('t, 'a) host_vm \<times> u32" where
  "class_tag vm ty = install_host_store vm ty"

definition class_store :: "('t, 'a) host_vm \<Rightarrow> 't \<Rightarrow> ('a host_store \<Rightarrow> 'a host_store \<times> 'b) \<Rightarrow> ('t, 'a) host_vm \<times> 'b option" where
  "class_store vm ty f =
     (let vm1 = fst (install_host_store vm ty)
      in case host_store_of vm1 ty of
          None \<Rightarrow> (vm1, None)
        | Some st \<Rightarrow> (host_store_mut vm1 ty (\<lambda>_. fst (f st)), Some (snd (f st))))"

text \<open>\<open>into_handle\<close>: the tag and handle the new \<open>Data\<close> object carries (\<open>expect\<close> is the \<open>None\<close>).\<close>

definition into_handle :: "('t, 'a) host_vm \<Rightarrow> 't \<Rightarrow> 'a \<Rightarrow> ('t, 'a) host_vm \<times> (u32 \<times> nat) option" where
  "into_handle vm ty v =
     (let (vm1, g) = class_tag vm ty; (vm2, r) = class_store vm1 ty (\<lambda>st. hst_insert st v)
      in (vm2, map_option (Pair g) r))"

text \<open>
  \<open>handle_of\<close>: \<open>d\<close> is what \<open>data_of\<close> answers for the value, \<open>own\<close> whether it is an instance of the class.
\<close>

definition handle_of :: "('t, 'a) host_vm \<Rightarrow> 't \<Rightarrow> (u32 \<times> nat) option \<Rightarrow> bool \<Rightarrow> ('t, 'a) host_vm \<times> (host_error + nat)" where
  "handle_of vm ty d own =
     (let (vm1, g) = class_tag vm ty
      in (vm1, case d of
            Some (t, h) \<Rightarrow> if t = g then Inr h else Inl Wrong_Type
          | None \<Rightarrow> if own then Inl Uninitialized else Inl Wrong_Type))"

definition missing :: "('t, 'a) host_vm \<Rightarrow> 't \<Rightarrow> nat \<Rightarrow> bool option \<Rightarrow> host_error option" where
  "missing vm ty h held =
     (if held = Some True then None
      else if (case host_store_of vm ty of Some st \<Rightarrow> hst_is_out st h | None \<Rightarrow> False) then Some In_Use
      else Some Stale_Handle)"

definition borrow :: "('t, 'a) host_vm \<Rightarrow> 't \<Rightarrow> (u32 \<times> nat) option \<Rightarrow> bool \<Rightarrow> ('t, 'a) host_vm \<times> (host_error + 'a option)" where
  "borrow vm ty d own = (case handle_of vm ty d own of
      (vm1, Inl e) \<Rightarrow> (vm1, Inl e)
    | (vm1, Inr h) \<Rightarrow>
        (case missing vm1 ty h (map_option (\<lambda>st. hst_get st h \<noteq> None) (host_store_of vm1 ty)) of
           Some e \<Rightarrow> (vm1, Inl e)
         | None \<Rightarrow> (vm1, Inr (Option.bind (host_store_of vm1 ty) (\<lambda>st. hst_get st h)))))"

definition take_out :: "('t, 'a) host_vm \<Rightarrow> 't \<Rightarrow> (u32 \<times> nat) option \<Rightarrow> bool \<Rightarrow> ('t, 'a) host_vm \<times> (host_error + nat \<times> 'a)" where
  "take_out vm ty d own = (case handle_of vm ty d own of
      (vm1, Inl e) \<Rightarrow> (vm1, Inl e)
    | (vm1, Inr h) \<Rightarrow> (case host_store_of vm1 ty of
          None \<Rightarrow> (vm1, Inl Stale_Handle)
        | Some st \<Rightarrow> (case hst_take st h of
              (st1, Some v) \<Rightarrow> (host_store_mut vm1 ty (\<lambda>_. st1), Inr (h, v))
            | (st1, None) \<Rightarrow> (vm1, Inl (if hst_is_out st h then In_Use else Stale_Handle)))))"

definition give_back :: "('t, 'a) host_vm \<Rightarrow> 't \<Rightarrow> nat \<Rightarrow> 'a \<Rightarrow> ('t, 'a) host_vm" where
  "give_back vm ty h v = host_store_mut vm ty (\<lambda>st. hst_restore st h v)"

subsection \<open>One store per type, one tag per store\<close>

definition host_inv :: "('t, 'a) host_vm \<Rightarrow> bool" where
  "host_inv vm \<longleftrightarrow> distinct (map (\<lambda>(_, ty, _). ty) (hv_stores vm)) \<and> distinct (map fst (hv_stores vm)) \<and>
     (\<forall>(g, _, st) \<in> set (hv_stores vm). g < hv_next_tag vm \<and> hst_inv st)"

lemma upd_first_map: "(\<And>x. k (f x) = k x) \<Longrightarrow> map k (upd_first P f xs) = map k xs"
  by (induction xs) auto

lemma upd_first_set: "y \<in> set (upd_first P f xs) \<Longrightarrow> y \<in> set xs \<or> (\<exists>x \<in> set xs. P x \<and> y = f x)"
  by (induction xs) (auto split: if_splits)

lemma host_inv_upd:
  assumes "host_inv vm" "\<And>g ty st. P (g, ty, st) \<Longrightarrow> (g, ty, st) \<in> set (hv_stores vm) \<Longrightarrow> hst_inv (F st)"
  shows "host_inv (vm\<lparr>hv_stores := upd_first P (\<lambda>(g, ty, st). (g, ty, F st)) (hv_stores vm)\<rparr>)"
proof -
  let ?f = "\<lambda>(g, ty, st). (g, ty, F st)"
  have "map (\<lambda>(_, ty, _). ty) (upd_first P ?f (hv_stores vm)) = map (\<lambda>(_, ty, _). ty) (hv_stores vm)"
    "map fst (upd_first P ?f (hv_stores vm)) = map fst (hv_stores vm)"
    by (rule upd_first_map, auto)+
  then show ?thesis using assms unfolding host_inv_def by (fastforce dest: upd_first_set)
qed

lemma entry_unique:
  "distinct (map k xs) \<Longrightarrow> x \<in> set xs \<Longrightarrow> find (\<lambda>y. k y = k x) xs = Some x"
  by (induction xs) (auto simp: image_iff)

lemma entry_of_iff:
  assumes "host_inv vm"
  shows "entry_of vm ty = Some (g, ty', st) \<longleftrightarrow> ty' = ty \<and> (g, ty, st) \<in> set (hv_stores vm)"
proof -
  have d: "distinct (map (\<lambda>(_, ty, _). ty) (hv_stores vm))" using assms by (simp add: host_inv_def)
  have p: "(\<lambda>(_, ty', _). ty' = ty) = (\<lambda>y. (\<lambda>(_, ty, _). ty) y = (\<lambda>(_, ty, _). ty) (g, ty, st))" by auto
  show ?thesis
  proof
    assume "entry_of vm ty = Some (g, ty', st)"
    then show "ty' = ty \<and> (g, ty, st) \<in> set (hv_stores vm)"
      by (auto simp: entry_of_def find_Some_iff in_set_conv_nth)
  next
    assume "ty' = ty \<and> (g, ty, st) \<in> set (hv_stores vm)"
    then show "entry_of vm ty = Some (g, ty', st)"
      using entry_unique [OF d, of "(g, ty, st)"] unfolding entry_of_def p by simp
  qed
qed

lemma install_inv:
  assumes inv: "host_inv vm" and room: "hv_next_tag vm + 1 > hv_next_tag vm"
  shows "host_inv (fst (install_host_store vm ty))"
    and "\<exists>st. entry_of (fst (install_host_store vm ty)) ty = Some (snd (install_host_store vm ty), ty, st)"
proof -
  have a: "host_inv (fst (install_host_store vm ty)) \<and>
    (\<exists>st. (snd (install_host_store vm ty), ty, st) \<in> set (hv_stores (fst (install_host_store vm ty))))"
  proof (cases "entry_of vm ty")
    case None
    have "ty \<notin> (\<lambda>(_, ty, _). ty) ` set (hv_stores vm)"
      using None by (force simp: entry_of_def find_None_iff)
    moreover have "hv_next_tag vm \<notin> fst ` set (hv_stores vm)"
      using inv by (force simp: host_inv_def)
    moreover have "\<forall>(g, _, st) \<in> set (hv_stores vm). g < hv_next_tag vm + 1 \<and> hst_inv st"
      using inv room by (fastforce simp: host_inv_def)
    ultimately show ?thesis
      using inv None room hst_new_inv
      by (auto simp: host_inv_def install_host_store_def next_data_tag_def Let_def)
  next
    case (Some x)
    obtain g ty' st where x: "x = (g, ty', st)" by (cases x)
    then have "(g, ty, st) \<in> set (hv_stores vm)" using entry_of_iff [OF inv] Some by simp
    then show ?thesis using inv Some x by (auto simp: install_host_store_def)
  qed
  then show "host_inv (fst (install_host_store vm ty))" by blast
  from a show "\<exists>st. entry_of (fst (install_host_store vm ty)) ty = Some (snd (install_host_store vm ty), ty, st)"
    using entry_of_iff [of "fst (install_host_store vm ty)" ty] by blast
qed

text \<open>The stores after a write to the entry of one type.\<close>

lemma upd_first_unique:
  assumes "distinct (map k xs)" "x \<in> set xs" "\<And>y. y \<in> set xs \<Longrightarrow> P y \<longleftrightarrow> k y = k x"
  shows "set (upd_first P f xs) = insert (f x) (set xs - {x})"
  using assms
proof (induction xs)
  case (Cons y ys)
  show ?case
  proof (cases "y = x")
    case True
    then have "x \<notin> set ys" using Cons.prems(1) by auto
    then show ?thesis using True Cons.prems(3) [of y] by auto
  next
    case False
    then have x: "x \<in> set ys" "k y \<noteq> k x" using Cons.prems(1,2) by (auto simp: image_iff)
    then have "\<not> P y" using Cons.prems(3) by auto
    then show ?thesis using Cons x False by auto
  qed
qed simp

lemma host_store_mut_of:
  assumes inv: "host_inv vm" and e: "entry_of vm ty = Some (g, ty, st)" and f: "hst_inv (F st)"
  shows "host_inv (host_store_mut vm ty F)" "host_store_of (host_store_mut vm ty F) ty = Some (F st)"
    "entry_of (host_store_mut vm ty F) ty = Some (g, ty, F st)"
    "ty' \<noteq> ty \<Longrightarrow> host_store_of (host_store_mut vm ty F) ty' = host_store_of vm ty'"
proof -
  have m: "(g, ty, st) \<in> set (hv_stores vm)" using e entry_of_iff [OF inv] by blast
  have u: "(g', ty, st') \<in> set (hv_stores vm) \<Longrightarrow> st' = st" for g' st'
    using entry_of_iff [OF inv, of ty g' ty st'] e by simp
  show i: "host_inv (host_store_mut vm ty F)"
    unfolding host_store_mut_def by (rule host_inv_upd [OF inv]) (use u f in auto)
  have d: "distinct (map (\<lambda>(_, ty, _). ty) (hv_stores vm))" using inv by (simp add: host_inv_def)
  have s: "set (hv_stores (host_store_mut vm ty F)) = insert (g, ty, F st) (set (hv_stores vm) - {(g, ty, st)})"
    using upd_first_unique [OF d m, of "\<lambda>(_, ty', _). ty' = ty" "\<lambda>(g, ty', st). (g, ty', F st)"]
    by (auto simp: host_store_mut_def)
  show e': "entry_of (host_store_mut vm ty F) ty = Some (g, ty, F st)"
    using entry_of_iff [OF i, of ty g ty "F st"] s by simp
  then show "host_store_of (host_store_mut vm ty F) ty = Some (F st)" by (simp add: host_store_of_def)
  assume ne: "ty' \<noteq> ty"
  have "entry_of (host_store_mut vm ty F) ty' = Some x \<longleftrightarrow> entry_of vm ty' = Some x" for x
    using entry_of_iff [OF i, of ty' "fst x" "fst (snd x)" "snd (snd x)"]
      entry_of_iff [OF inv, of ty' "fst x" "fst (snd x)" "snd (snd x)"] s ne by auto
  then have "entry_of (host_store_mut vm ty F) ty' = entry_of vm ty'" by (metis option.exhaust)
  then show "host_store_of (host_store_mut vm ty F) ty' = host_store_of vm ty'" by (simp add: host_store_of_def)
qed

text \<open>A collected \<open>Data\<close> object empties its own handle in its own store and nothing else.\<close>

lemma host_free_exact:
  assumes inv: "host_inv vm" and e: "entry_of vm ty = Some (g, ty, st)"
  shows "host_inv (host_store_free vm g h)"
    and "host_store_of (host_store_free vm g h) ty = Some (fst (hst_remove st h))"
    and "ty' \<noteq> ty \<Longrightarrow> host_store_of (host_store_free vm g h) ty' = host_store_of vm ty'"
proof -
  have m: "(g, ty, st) \<in> set (hv_stores vm)" using e entry_of_iff [OF inv] by blast
  have d: "distinct (map fst (hv_stores vm))" using inv by (simp add: host_inv_def)
  have t: "g' = g \<longleftrightarrow> ty' = ty" if "(g', ty', st') \<in> set (hv_stores vm)" for g' ty' st'
  proof -
    have "find (\<lambda>y. fst y = g) (hv_stores vm) = Some (g, ty, st)" using entry_unique [OF d m] by simp
    moreover have "find (\<lambda>y. fst y = g') (hv_stores vm) = Some (g', ty', st')" using entry_unique [OF d that] by simp
    moreover have "ty' = ty \<Longrightarrow> (g', st') = (g, st)"
      using entry_of_iff [OF inv, of ty' g' ty' st'] that e by simp
    ultimately show ?thesis by auto
  qed
  have "upd_first (\<lambda>(g', _, _). g' = g) f (hv_stores vm) = upd_first (\<lambda>(_, ty', _). ty' = ty) f (hv_stores vm)" for f
  proof -
    have "\<forall>(g', ty', st') \<in> set xs. g' = g \<longleftrightarrow> ty' = ty \<Longrightarrow>
      upd_first (\<lambda>(g', _, _). g' = g) f xs = upd_first (\<lambda>(_, ty', _). ty' = ty) f xs" for xs
      by (induction xs) auto
    then show ?thesis using t by blast
  qed
  then have eq: "host_store_free vm g h = host_store_mut vm ty (\<lambda>st. fst (hst_remove st h))"
    by (simp add: host_store_free_def host_store_mut_def)
  have "hst_inv (fst (hst_remove st h))"
    using store.rem_law [OF _ surjective_pairing] m inv by (fastforce simp: host_inv_def)
  note mut = host_store_mut_of [OF inv e, of "\<lambda>st. fst (hst_remove st h)", OF this, folded eq]
  show "host_inv (host_store_free vm g h)"
    "host_store_of (host_store_free vm g h) ty = Some (fst (hst_remove st h))"
    "ty' \<noteq> ty \<Longrightarrow> host_store_of (host_store_free vm g h) ty' = host_store_of vm ty'"
    by (fact mut)+
qed

text \<open>A method given the VM takes its receiver out, and any other call on it meanwhile fails as in use.\<close>

lemma take_out_loans:
  assumes inv: "host_inv vm" and e: "entry_of vm ty = Some (g, ty, st)" and v: "hst_get st h = Some v"
  obtains vm1 where "take_out vm ty (Some (g, h)) own = (vm1, Inr (h, v))" "host_inv vm1"
    "snd (take_out vm1 ty (Some (g, h)) own) = Inl In_Use" "snd (borrow vm1 ty (Some (g, h)) own) = Inl In_Use"
    "snd (borrow (give_back vm1 ty h w) ty (Some (g, h)) own) = Inr (Some w)"
proof -
  let ?st = "fst (hst_take st h)"
  have si: "hst_inv st" using e entry_of_iff [OF inv] inv by (fastforce simp: host_inv_def)
  note lend = store.lend_law [OF si surjective_pairing, of h]
  obtain st1 where tk1: "hst_take st h = (st1, Some v)" using lend v by (metis prod.collapse)
  have tk: "?st = st1" by (simp add: tk1)
  let ?vm = "host_store_mut vm ty (\<lambda>_. ?st)"
  have i: "hst_inv ?st" using lend by blast
  note mut = host_store_mut_of [OF inv e, of "\<lambda>_. ?st", OF i]
  have inst: "install_host_store vm' ty = (vm', g)" if "entry_of vm' ty = Some (g, ty, st')" for vm' :: "('a, 'b) host_vm" and st'
    using that by (simp add: install_host_store_def)
  have 1: "take_out vm ty (Some (g, h)) own = (?vm, Inr (h, v))"
    using e tk1 inst [OF e] by (simp add: take_out_def handle_of_def class_tag_def host_store_of_def)
  have out: "hst_is_out ?st h" "hst_get ?st h = None" using lend v by auto
  then have tk2: "hst_take ?st h = (?st, None)"
    by (auto simp: hst_take_def hst_is_out_def)
  have 2: "snd (take_out ?vm ty (Some (g, h)) own) = Inl In_Use"
    using mut(2) tk2 out inst [OF mut(3)] by (simp add: take_out_def handle_of_def class_tag_def)
  have 3: "snd (borrow ?vm ty (Some (g, h)) own) = Inl In_Use"
    using mut(2) out inst [OF mut(3)] by (simp add: borrow_def handle_of_def class_tag_def missing_def)
  note giv = store.give_law [OF i, of h w]
  note mut2 = host_store_mut_of [OF mut(1,3), of "\<lambda>st. hst_restore st h w"]
  have m2: "entry_of (give_back ?vm ty h w) ty = Some (g, ty, hst_restore ?st h w)"
    "host_store_of (give_back ?vm ty h w) ty = Some (hst_restore ?st h w)"
    using mut2(2,3) giv unfolding give_back_def by blast+
  have "hst_get (hst_restore ?st h w) h = Some w" using giv out by simp
  then have 4: "snd (borrow (give_back ?vm ty h w) ty (Some (g, h)) own) = Inr (Some w)"
    using m2(2) inst [OF m2(1)] by (simp add: borrow_def handle_of_def class_tag_def missing_def)
  show thesis by (rule that [OF 1 mut(1) 2 3 4])
qed

end
