(* ===== verification/Reader.thy ===== *)
theory Reader
  imports Prelude Value
begin

text \<open>
  The cursor of \<open>src/rite.rs\<close> (\<open>struct Cur\<close>): reading big-endian integers and byte runs from a
  buffer, an error where it ends too early. \<open>rd_bind\<close> is the source's \<open>?\<close>. What a reader makes of
  the bytes in front of it is \<open>reads\<close>, which composes along \<open>rd_bind\<close>; that a reader only moves forward
  within the buffer is \<open>advances\<close>.
\<close>

unbundle bit_operations_syntax

datatype rite_error =
    Unexpected_End nat nat
  | Bad_Identifier
  | Unsupported_Version bytes
  | Size_Exceeds nat nat
  | Section_Too_Small
  | Section_Exceeds
  | Unknown_Section bytes
  | No_Irep
  | Too_Many_Locals u16 u16
  | Bad_Catch u8
  | Bad_Pool u8
  | Bad_Line_Type u8

record cur =
  cb :: bytes
  cp :: nat

text \<open>A reader with errors of a type of its own, and the loader's.\<close>

type_synonym ('e, 'a) crd = "cur \<Rightarrow> 'e + ('a \<times> cur)"

type_synonym 'a rd = "(rite_error, 'a) crd"

definition rd_ret :: "'a \<Rightarrow> ('e, 'a) crd" where
  "rd_ret x c = Inr (x, c)"

definition rd_fail :: "'e \<Rightarrow> ('e, 'a) crd" where
  "rd_fail e c = Inl e"

definition rd_bind :: "('e, 'a) crd \<Rightarrow> ('a \<Rightarrow> ('e, 'b) crd) \<Rightarrow> ('e, 'b) crd" where
  "rd_bind m f c = (case m c of Inl e \<Rightarrow> Inl e | Inr (x, c') \<Rightarrow> f x c')"

definition rd_need :: "nat \<Rightarrow> unit rd" where
  "rd_need n c = (if cp c + n > length (cb c) then Inl (Unexpected_End (cp c) n) else Inr ((), c))"

definition rd_bytes :: "nat \<Rightarrow> bytes rd" where
  "rd_bytes n = rd_bind (rd_need n) (\<lambda>_ c. Inr (take n (drop (cp c) (cb c)), c\<lparr>cp := cp c + n\<rparr>))"

definition rd_u8 :: "u8 rd" where
  "rd_u8 = rd_bind (rd_need 1) (\<lambda>_ c. Inr (cb c ! cp c, c\<lparr>cp := cp c + 1\<rparr>))"

definition be16 :: "u8 \<Rightarrow> u8 \<Rightarrow> u16" where
  "be16 x y = push_bit 8 (ucast x) OR ucast y"

definition be32 :: "u8 \<Rightarrow> u8 \<Rightarrow> u8 \<Rightarrow> u8 \<Rightarrow> u32" where
  "be32 x y z w = push_bit 24 (ucast x) OR push_bit 16 (ucast y) OR push_bit 8 (ucast z) OR ucast w"

definition rd_u16 :: "u16 rd" where
  "rd_u16 = rd_bind (rd_need 2) (\<lambda>_ c. Inr (be16 (cb c ! cp c) (cb c ! (cp c + 1)), c\<lparr>cp := cp c + 2\<rparr>))"

definition rd_u32 :: "u32 rd" where
  "rd_u32 = rd_bind (rd_need 4) (\<lambda>_ c.
     Inr (be32 (cb c ! cp c) (cb c ! (cp c + 1)) (cb c ! (cp c + 2)) (cb c ! (cp c + 3)), c\<lparr>cp := cp c + 4\<rparr>))"

text \<open>\<open>for _ in 0..n { v.push(..?) }\<close>\<close>

fun rd_times :: "nat \<Rightarrow> ('e, 'a) crd \<Rightarrow> ('e, 'a list) crd" where
  "rd_times 0 m = rd_ret []"
| "rd_times (Suc n) m = rd_bind m (\<lambda>x. rd_bind (rd_times n m) (\<lambda>xs. rd_ret (x # xs)))"

section \<open>Moving forward\<close>

definition advances :: "nat \<Rightarrow> ('e, 'a) crd \<Rightarrow> bool" where
  "advances n m \<longleftrightarrow> (\<forall>c x c'. m c = Inr (x, c') \<longrightarrow>
     cb c' = cb c \<and> cp c + n \<le> cp c' \<and> (cp c \<le> length (cb c) \<longrightarrow> cp c' \<le> length (cb c)))"

named_theorems adv

lemma adv_ret [adv]: "advances 0 (rd_ret x)"
  by (simp add: advances_def rd_ret_def)

lemma adv_fail [adv]: "advances n (rd_fail e)"
  by (simp add: advances_def rd_fail_def)

lemma adv_bind:
  assumes "advances n m" "\<And>x. advances k (f x)"
  shows "advances (n + k) (rd_bind m f)"
proof -
  have "cb c' = cb c \<and> cp c + (n + k) \<le> cp c' \<and> (cp c \<le> length (cb c) \<longrightarrow> cp c' \<le> length (cb c))"
    if r: "rd_bind m f c = Inr (y, c')" for c y c'
  proof -
    obtain x c1 where "m c = Inr (x, c1)" "f x c1 = Inr (y, c')"
      using r by (auto simp: rd_bind_def split: sum.splits)
    moreover have "cb c1 = cb c \<and> cp c + n \<le> cp c1 \<and> (cp c \<le> length (cb c) \<longrightarrow> cp c1 \<le> length (cb c))"
      using assms(1) calculation(1) unfolding advances_def by blast
    moreover have "cb c' = cb c1 \<and> cp c1 + k \<le> cp c' \<and> (cp c1 \<le> length (cb c1) \<longrightarrow> cp c' \<le> length (cb c1))"
      using assms(2) calculation(2) unfolding advances_def by blast
    ultimately show ?thesis by auto
  qed
  then show ?thesis by (auto simp: advances_def)
qed

lemma adv_weaken: "advances n m \<Longrightarrow> k \<le> n \<Longrightarrow> advances k m"
  unfolding advances_def by fastforce

lemma adv_bind0 [adv]: "advances 0 m \<Longrightarrow> (\<And>x. advances 0 (f x)) \<Longrightarrow> advances 0 (rd_bind m f)"
  using adv_bind [of 0 m 0 f] by simp

lemma adv_base: "advances n (rd_bytes n)" "advances 1 rd_u8" "advances 2 rd_u16" "advances 4 rd_u32"
  by (auto simp: advances_def rd_bytes_def rd_u8_def rd_u16_def rd_u32_def rd_bind_def rd_need_def
      split: if_splits)

lemma adv_base0 [adv]: "advances 0 (rd_bytes n)" "advances 0 rd_u8" "advances 0 rd_u16" "advances 0 rd_u32"
  by (rule adv_weaken, rule adv_base, simp)+

lemma adv_times [adv]: "advances 0 m \<Longrightarrow> advances 0 (rd_times n m)"
  by (induction n) (auto intro!: adv)

section \<open>What a reader makes of the bytes in front of it\<close>

definition reads :: "('e, 'a) crd \<Rightarrow> bytes \<Rightarrow> 'a \<Rightarrow> bool" where
  "reads m bs x \<longleftrightarrow> (\<forall>pre post. m \<lparr>cb = pre @ bs @ post, cp = length pre\<rparr> =
     Inr (x, \<lparr>cb = pre @ bs @ post, cp = length pre + length bs\<rparr>))"

named_theorems rds

lemma reads_ret [rds]: "reads (rd_ret x) [] x"
  by (simp add: reads_def rd_ret_def)

lemma reads_bind:
  assumes "reads m bs x" "reads (f x) bs' y"
  shows "reads (rd_bind m f) (bs @ bs') y"
proof -
  have "rd_bind m f \<lparr>cb = pre @ (bs @ bs') @ post, cp = length pre\<rparr> =
      Inr (y, \<lparr>cb = pre @ (bs @ bs') @ post, cp = length pre + length (bs @ bs')\<rparr>)" for pre post
    using assms(1) [unfolded reads_def, rule_format, of pre "bs' @ post"]
      assms(2) [unfolded reads_def, rule_format, of "pre @ bs" post]
    by (simp add: rd_bind_def add.assoc)
  then show ?thesis by (simp add: reads_def)
qed

lemma reads_bytes [rds]: "length bs = n \<Longrightarrow> reads (rd_bytes n) bs bs"
  by (auto simp: reads_def rd_bytes_def rd_bind_def rd_need_def)

lemma reads_u8 [rds]: "reads rd_u8 [b] b"
  by (simp add: reads_def rd_u8_def rd_bind_def rd_need_def nth_append)

definition put16 :: "u16 \<Rightarrow> bytes" where
  "put16 v = [ucast (drop_bit 8 v), ucast v]"

definition put32 :: "u32 \<Rightarrow> bytes" where
  "put32 v = [ucast (drop_bit 24 v), ucast (drop_bit 16 v), ucast (drop_bit 8 v), ucast v]"

lemma be16_put: "be16 (ucast (drop_bit 8 v)) (ucast v) = v"
  by (rule bit_word_eqI) (auto simp: be16_def bit_simps)

lemma be32_put:
  "be32 (ucast (drop_bit 24 v)) (ucast (drop_bit 16 v)) (ucast (drop_bit 8 v)) (ucast v) = v"
proof (rule bit_word_eqI)
  fix n
  assume n: "n < LENGTH(32)"
  consider "n < 8" | "8 \<le> n" "n < 16" | "16 \<le> n" "n < 24" | "24 \<le> n" by linarith
  then show "bit (be32 (ucast (drop_bit 24 v)) (ucast (drop_bit 16 v)) (ucast (drop_bit 8 v)) (ucast v)) n = bit v n"
    using n by cases (auto simp: be32_def bit_simps)
qed

lemma length_put [simp]: "length (put16 v) = 2" "length (put32 w) = 4"
  by (simp_all add: put16_def put32_def)

lemma reads_u16 [rds]: "reads rd_u16 (put16 v) v"
  by (simp add: reads_def rd_u16_def rd_bind_def rd_need_def put16_def nth_append be16_put)

lemma reads_u32 [rds]: "reads rd_u32 (put32 v) v"
  by (simp add: reads_def rd_u32_def rd_bind_def rd_need_def put32_def nth_append be32_put)

lemma unat_of_nat16: "n < 2 ^ 16 \<Longrightarrow> unat (of_nat n :: u16) = n"
  by (simp add: unat_of_nat)

lemma unat_of_nat32: "n < 2 ^ 32 \<Longrightarrow> unat (of_nat n :: u32) = n"
  by (simp add: unat_of_nat)

text \<open>
  The contract of an item of the format: a reader, the bytes an item is written as, and which
  items the format can hold. A counted run of items is then read back as the list.
\<close>

locale item_format =
  fixes get :: "('e, 'a) crd" and put :: "'a \<Rightarrow> bytes" and ok :: "'a \<Rightarrow> bool"
  assumes get_put: "ok x \<Longrightarrow> reads get (put x) x"
    and get_adv: "advances 0 get"
begin

lemma reads_times: "\<forall>x \<in> set xs. ok x \<Longrightarrow> reads (rd_times (length xs) get) (concat (map put xs)) xs"
proof (induction xs)
  case (Cons x xs)
  have "reads (rd_bind (rd_times (length xs) get) (\<lambda>ys. rd_ret (x # ys))) (concat (map put xs) @ []) (x # xs)"
    using Cons.prems by (intro reads_bind [OF Cons.IH] reads_ret) auto
  then show ?case using reads_bind [OF get_put [of x]] Cons.prems by simp
qed (simp add: reads_ret)

lemma times_adv: "advances 0 (rd_times n get)"
  by (rule adv_times [OF get_adv])

end

end
