(* ===== verification/Pack.thy ===== *)
theory Pack
  imports PackCodec Convert
begin

text \<open>
  \<open>Array#pack\<close>, \<open>String#unpack\<close> and \<open>String#unpack1\<close> (\<open>src/builtins/ext_pack.rs\<close>): the template, one directive with its
  modifiers and count at a time, and what each directive stores or reads. A template being read is the bytes of it that
  are left (\<open>Tmpl\<close>); the target is little endian.
\<close>

unbundle bit_operations_syntax

section \<open>Directives\<close>

datatype dir = D_Char | D_Short | D_Long | D_Quad | D_Ber | D_Utf8 | D_Double | D_Float | D_Str | D_Hex | D_Bstr
  | D_Base64 | D_Uu | D_Qenc | D_Nul | D_Back | D_Abs | D_None

datatype pack_type = T_Integer | T_Float | T_String | T_None

record spec =
  sp_dir :: dir
  sp_ty :: pack_type
  sp_size :: nat
  sp_count :: int
  sp_flags :: u32

definition format_table :: "(char \<times> dir \<times> pack_type \<times> nat \<times> u32) list" where
  "format_table =
     [(CHR ''A'', D_Str, T_String, 0, F_WIDTH OR F_COUNT2),
      (CHR ''a'', D_Str, T_String, 0, F_WIDTH OR F_COUNT2 OR F_A),
      (CHR ''B'', D_Bstr, T_String, 0, F_COUNT2),
      (CHR ''b'', D_Bstr, T_String, 0, F_COUNT2 OR F_LSB),
      (CHR ''C'', D_Char, T_Integer, 1, 0),
      (CHR ''c'', D_Char, T_Integer, 1, F_SIGNED),
      (CHR ''D'', D_Double, T_Float, 8, F_SIGNED),
      (CHR ''d'', D_Double, T_Float, 8, F_SIGNED),
      (CHR ''E'', D_Double, T_Float, 8, F_SIGNED OR F_LT),
      (CHR ''e'', D_Float, T_Float, 4, F_SIGNED OR F_LT),
      (CHR ''F'', D_Float, T_Float, 4, F_SIGNED),
      (CHR ''f'', D_Float, T_Float, 4, F_SIGNED),
      (CHR ''G'', D_Double, T_Float, 8, F_SIGNED OR F_GT),
      (CHR ''g'', D_Float, T_Float, 4, F_SIGNED OR F_GT),
      (CHR ''H'', D_Hex, T_String, 0, F_COUNT2),
      (CHR ''h'', D_Hex, T_String, 0, F_COUNT2 OR F_LSB),
      (CHR ''L'', D_Long, T_Integer, 4, 0),
      (CHR ''l'', D_Long, T_Integer, 4, F_SIGNED),
      (CHR ''M'', D_Qenc, T_String, 0, F_WIDTH OR F_COUNT2),
      (CHR ''m'', D_Base64, T_String, 0, F_WIDTH OR F_COUNT2),
      (CHR ''N'', D_Long, T_Integer, 4, F_GT),
      (CHR ''n'', D_Short, T_Integer, 2, F_GT),
      (CHR ''Q'', D_Quad, T_Integer, 8, 0),
      (CHR ''q'', D_Quad, T_Integer, 8, F_SIGNED),
      (CHR ''S'', D_Short, T_Integer, 2, 0),
      (CHR ''s'', D_Short, T_Integer, 2, F_SIGNED),
      (CHR ''u'', D_Uu, T_String, 0, F_WIDTH OR F_COUNT2),
      (CHR ''U'', D_Utf8, T_Integer, 0, 0),
      (CHR ''V'', D_Long, T_Integer, 4, F_LT),
      (CHR ''v'', D_Short, T_Integer, 2, F_LT),
      (CHR ''w'', D_Ber, T_Integer, 0, F_SIGNED),
      (CHR ''x'', D_Nul, T_None, 0, 0),
      (CHR ''X'', D_Back, T_None, 0, 0),
      (CHR ''@'', D_Abs, T_None, 0, 0),
      (CHR ''Z'', D_Str, T_String, 0, F_WIDTH OR F_COUNT2 OR F_Z)]"

definition format_info :: "u8 \<Rightarrow> dir \<times> pack_type \<times> nat \<times> u32" where
  "format_info c =
     (case map_of (map (\<lambda>(k, v). (byte_of k, v)) format_table) c of Some v \<Rightarrow> v | None \<Rightarrow> (D_None, T_None, 0, 0))"

section \<open>Reading the template\<close>

datatype tmpl_error = Not_Supported u8 | Unknown_Directive u8 | Not_Allowed u8 | Too_Long

definition is_digit :: "u8 \<Rightarrow> bool" where
  "is_digit c = between c CHR ''0'' CHR ''9''"

fun read_digits :: "int \<Rightarrow> bytes \<Rightarrow> (int \<times> bytes) option" where
  "read_digits n [] = Some (n, [])"
| "read_digits n (c # s) =
     (if \<not> is_digit c then Some (n, c # s)
      else let n = n * 10 + uint (c - byte_of CHR ''0'')
           in if n \<le> 2 ^ 31 - 1 then read_digits n s else None)"

lemma read_digits_shorter: "read_digits n s = Some (m, s') \<Longrightarrow> length s' \<le> length s"
proof (induction n s rule: read_digits.induct)
  case (2 n c s)
  then show ?case by (cases "is_digit c") (auto simp: Let_def split: if_splits)
qed simp

lemma read_digits_first: "read_digits n (c # s) = Some (m, s') \<Longrightarrow> is_digit c \<Longrightarrow> length s' \<le> length s"
  by (auto simp: Let_def split: if_splits dest: read_digits_shorter)

text \<open>The suffix \<open>[0-9*_!<>]\<close> of the directive \<open>c\<close>: the count, the flags and what follows.\<close>

function read_suffix :: "u8 \<Rightarrow> pack_type \<Rightarrow> int \<Rightarrow> u32 \<Rightarrow> bytes \<Rightarrow> tmpl_error + (int \<times> u32 \<times> bytes)" where
  "read_suffix c ty count flags [] = Inr (count, flags, [])"
| "read_suffix c ty count flags (ch # s) =
     (if is_digit ch then
        (case read_digits 0 (ch # s) of
           None \<Rightarrow> Inl Too_Long
         | Some (n, s') \<Rightarrow> read_suffix c ty n flags s')
      else if ch = byte_of CHR ''*'' then read_suffix c ty (if ty = T_None then 0 else - 1) flags s
      else if ch \<in> set (ascii ''_!<>'') then
        (if c \<notin> set (ascii ''sSiIlLqQ'') then Inl (Not_Allowed ch)
         else read_suffix c ty count
           (if ch = byte_of CHR ''<'' then flags OR F_LT else if ch = byte_of CHR ''>'' then flags OR F_GT else flags) s)
      else Inr (count, flags, ch # s))"
  by pat_completeness auto
termination
  by (relation "measure (\<lambda>(_, _, _, _, s). length s)") (auto simp del: read_digits.simps dest!: read_digits_first)

text \<open>The byte order after the modifiers.\<close>

definition with_order :: "u32 \<Rightarrow> u32" where
  "with_order flags = (if has flags F_LT \<or> \<not> has flags F_GT then flags OR F_LE else flags)"

text \<open>\<open>i I j J\<close> follow the sizes of C.\<close>

definition pack_alias :: "u8 \<Rightarrow> u8" where
  "pack_alias c =
     (if c = byte_of CHR ''I'' then byte_of CHR ''L'' else if c = byte_of CHR ''i'' then byte_of CHR ''l''
      else if c = byte_of CHR ''J'' then byte_of CHR ''Q'' else if c = byte_of CHR ''j'' then byte_of CHR ''q''
      else c)"

definition no_spec :: spec where
  "no_spec = \<lparr>sp_dir = D_None, sp_ty = T_None, sp_size = 0, sp_count = 1, sp_flags = 0\<rparr>"

function read_tmpl :: "bytes \<Rightarrow> tmpl_error + (spec \<times> bytes)" where
  "read_tmpl [] = Inr (no_spec, [])"
| "read_tmpl (c # s) =
     (if is_space c then read_tmpl s
      else if c = byte_of CHR ''#'' then read_tmpl (dropWhile (\<lambda>x. x \<noteq> 10) s)
      else if c \<in> set (ascii ''pP%'') then Inl (Not_Supported c)
      else let c = pack_alias c; (dir, ty, sz, flags) = format_info c
           in if dir = D_None then Inl (Unknown_Directive c)
              else case read_suffix c ty 1 flags s of
                  Inl e \<Rightarrow> Inl e
                | Inr (count, flags, s') \<Rightarrow>
                    Inr (\<lparr>sp_dir = dir, sp_ty = ty, sp_size = sz, sp_count = count, sp_flags = with_order flags\<rparr>, s'))"
  by pat_completeness auto
termination by (relation "measure length") (auto simp: le_imp_less_Suc length_dropWhile_le)

lemma read_suffix_shorter: "read_suffix c ty n fl s = Inr (n', fl', s') \<Longrightarrow> length s' \<le> length s"
proof (induction c ty n fl s rule: read_suffix.induct)
  case (2 c ty count flags ch s)
  show ?case
  proof (cases "is_digit ch")
    case True
    then obtain m t where t: "read_digits 0 (ch # s) = Some (m, t)" "read_suffix c ty m flags t = Inr (n', fl', s')"
      using "2.prems" by (auto simp del: read_digits.simps split: option.splits)
    then show ?thesis using "2.IH"(1) [OF True t(1) refl t(2)] read_digits_first [OF t(1) True] by simp
  next
    case False
    then show ?thesis using "2.prems" "2.IH"(2-3) by (auto split: if_splits)
  qed
qed simp

lemma read_tmpl_shorter: "read_tmpl s = Inr (sp, s') \<Longrightarrow> s \<noteq> [] \<Longrightarrow> length s' < length s"
proof (induction s rule: read_tmpl.induct)
  case (2 c s)
  have d: "length (dropWhile (\<lambda>x. x \<noteq> 10) s) \<le> length s" by (rule length_dropWhile_le)
  show ?case
  proof (cases "is_space c \<or> c = byte_of CHR ''#''")
    case True
    then show ?thesis using 2 d by (cases "is_space c") fastforce+
  next
    case False
    then show ?thesis using "2.prems"(1)
      by (auto simp: Let_def split: if_splits prod.splits sum.splits dest!: read_suffix_shorter)
  qed
qed simp

section \<open>Errors\<close>

text \<open>What the two methods ask of the VM.\<close>

record 'w pack_env =
  pe_num :: "'w num_env"
  pe_c_array :: obj_id
  pe_inspect :: "rvalue \<Rightarrow> ('w, bytes) eff"

abbreviation pe_ruby :: "'w pack_env \<Rightarrow> 'w ruby" where
  "pe_ruby env \<equiv> ne_ruby (pe_num env)"

abbreviation raise_range :: "'w pack_env \<Rightarrow> bytes \<Rightarrow> ('w, 'a) eff" where
  "raise_range env \<equiv> raise_exc (pe_ruby env) (ne_c_range_error (pe_num env))"

text \<open>\<open>unwrap_or_default\<close> of the inspection.\<close>

definition inspect_or_empty :: "'w pack_env \<Rightarrow> rvalue \<Rightarrow> ('w, bytes) eff" where
  "inspect_or_empty env v s = map_option (\<lambda>(s1, r). (s1, Inr (case r of Inl _ \<Rightarrow> [] | Inr d \<Rightarrow> d))) (pe_inspect env v s)"

definition tmpl_raise :: "'w pack_env \<Rightarrow> tmpl_error \<Rightarrow> ('w, 'a) eff" where
  "tmpl_raise env e s = (case e of
      Not_Supported c \<Rightarrow> raise_arg (pe_ruby env) ([c] @ ascii '' is not supported'') s
    | Unknown_Directive c \<Rightarrow>
        (let (s1, v) = str_new (pe_ruby env) [c] s
         in andthen (inspect_or_empty env v) (\<lambda>d. raise_arg (pe_ruby env) (ascii ''unknown unpack directive '' @ d)) s1)
    | Not_Allowed ch \<Rightarrow> raise_arg (pe_ruby env) ([39] @ [ch] @ [39] @ ascii '' allowed only after types sSiIlLqQ'') s
    | Too_Long \<Rightarrow> raise_exc (pe_ruby env) (rb_c_runtime_error (pe_ruby env)) (ascii ''too big template length'') s)"

definition check_x :: "'w pack_env \<Rightarrow> int \<Rightarrow> int \<Rightarrow> char \<Rightarrow> ('w, unit) eff" where
  "check_x env a count c =
     (if a < count then raise_arg (pe_ruby env) (ascii [c] @ ascii '' outside of string'') else ret ())"

section \<open>Pack\<close>

definition is_bigint :: "rvalue \<Rightarrow> 'w hvm \<Rightarrow> bool" where
  "is_bigint v s = (case v of VObj i \<Rightarrow> heap_bigint (vm_heap s) i \<noteq> None | _ \<Rightarrow> False)"

definition int_arg :: "'w pack_env \<Rightarrow> rvalue \<Rightarrow> ('w, i64) eff" where
  "int_arg env v s = (case v of
      VInt i \<Rightarrow> ret i s
    | VFloat _ \<Rightarrow> expect_int (pe_num env) v s
    | VObj _ \<Rightarrow> if is_bigint v s \<or> is_a (ne_c_rational (pe_num env)) v s \<or> is_a (ne_c_complex (pe_num env)) v s
        then expect_int (pe_num env) v s else not_int (pe_ruby env) v s
    | _ \<Rightarrow> not_int (pe_ruby env) v s)"

text \<open>The argument of a float directive: an Integer of either size or a Float (\<open>num_f64\<close>, a Rational refused).\<close>

definition float_arg :: "'w pack_env \<Rightarrow> rvalue \<Rightarrow> ('w, f64) eff" where
  "float_arg env v s =
     (let refuse = (let (s1, d) = type_text (pe_ruby env) v s
                    in raise_type (pe_ruby env) (d @ ascii '' cannot be converted to Float'') s1)
      in case v of
          VInt i \<Rightarrow> ret (i64_as_f64 i) s
        | VFloat f \<Rightarrow> ret f s
        | VObj o' \<Rightarrow> (case heap_bigint (vm_heap s) o' of Some b \<Rightarrow> ret (big_to_f64 b) s | None \<Rightarrow> refuse)
        | _ \<Rightarrow> refuse)"

definition string_arg :: "'w pack_env \<Rightarrow> rvalue \<Rightarrow> ('w, bytes) eff" where
  "string_arg env v s =
     (case (case v of VObj i \<Rightarrow> vm_string s i | _ \<Rightarrow> None) of
        Some b \<Rightarrow> ret b s
      | None \<Rightarrow> (let (s1, d) = rb_describe (pe_ruby env) v s
                 in raise_type (pe_ruby env) (ascii ''can't convert '' @ d @ ascii '' into String'') s1))"

text \<open>
  One argument stored at \<open>at\<close>: the room asked for and the bytes.
\<close>

definition item_bytes :: "'w pack_env \<Rightarrow> spec \<Rightarrow> int \<Rightarrow> rvalue \<Rightarrow> ('w, nat \<times> bytes) eff" where
  "item_bytes env sp count v =
     (let le = has (sp_flags sp) F_LE; all = (\<lambda>bs. (length bs, bs))
      in case sp_ty sp of
          T_Integer \<Rightarrow> andthen (int_arg env v) (\<lambda>n. case sp_dir sp of
              D_Char \<Rightarrow> ret (all (int_bytes n 1 True))
            | D_Short \<Rightarrow> ret (all (int_bytes n 2 le))
            | D_Long \<Rightarrow> ret (all (int_bytes n 4 le))
            | D_Quad \<Rightarrow> ret (all (int_bytes n 8 le))
            | D_Ber \<Rightarrow> (case pack_ber n of
                  Some bs \<Rightarrow> ret (all bs) | None \<Rightarrow> raise_arg (pe_ruby env) (ascii ''can't compress negative numbers''))
            | D_Utf8 \<Rightarrow> (case utf8_to_buf n of
                  Some bs \<Rightarrow> ret (all bs) | None \<Rightarrow> raise_range env (ascii ''pack(U): value out of range''))
            | _ \<Rightarrow> ret (0, []))
        | T_Float \<Rightarrow> andthen (float_arg env v) (\<lambda>f. case sp_dir sp of
              D_Double \<Rightarrow> ret (all (int_bytes f 8 le))
            | _ \<Rightarrow> ret (all (int_bytes (ucast (f64_to_f32 f)) 4 le)))
        | T_String \<Rightarrow> andthen (string_arg env v) (\<lambda>src. case sp_dir sp of
              D_Str \<Rightarrow> ret (all (pack_str src count (sp_flags sp)))
            | D_Hex \<Rightarrow> ret (pack_hex src count (sp_flags sp))
            | D_Bstr \<Rightarrow> ret (all (pack_bstr src count (sp_flags sp)))
            | D_Base64 \<Rightarrow> ret (all (pack_base64 src count))
            | D_Uu \<Rightarrow> ret (all (pack_uu src count))
            | D_Qenc \<Rightarrow> ret (all (pack_qenc src count))
            | _ \<Rightarrow> ret (0, []))
        | T_None \<Rightarrow> ret (0, []))"

text \<open>The output, where the next byte goes, and the arguments left.\<close>

type_synonym packing = "bytes \<times> int \<times> rvalue list"

fun pack_items :: "'w pack_env \<Rightarrow> spec \<Rightarrow> int \<Rightarrow> bytes \<Rightarrow> int \<Rightarrow> rvalue list \<Rightarrow> ('w, packing) eff" where
  "pack_items env sp count out ridx [] = ret (out, ridx, [])"
| "pack_items env sp count out ridx (v # vs) =
     (if count = 0 \<and> \<not> has (sp_flags sp) F_WIDTH then ret (out, ridx, v # vs)
      else andthen (item_bytes env sp count v) (\<lambda>(room, bs).
        let out = put_at out (nat ridx) room bs; ridx = ridx + int (length bs)
        in if has (sp_flags sp) F_COUNT2 then ret (out, ridx, vs)
           else pack_items env sp (if count > 0 then count - 1 else count) out ridx vs))"

function pack_loop :: "'w pack_env \<Rightarrow> bytes \<Rightarrow> bytes \<Rightarrow> int \<Rightarrow> rvalue list \<Rightarrow> ('w, bytes) eff" where
  "pack_loop env tmpl out ridx vs =
     (if tmpl = [] then ret (take (nat ridx) out)
      else case read_tmpl tmpl of
          Inl e \<Rightarrow> tmpl_raise env e
        | Inr (sp, tmpl') \<Rightarrow>
            (let count = sp_count sp
             in case sp_dir sp of
                 D_None \<Rightarrow> ret (take (nat ridx) out)
               | D_Nul \<Rightarrow> pack_loop env tmpl' (ensure (nat (ridx + count)) out) (ridx + count) vs
               | D_Back \<Rightarrow> andthen (check_x env ridx count CHR ''X'') (\<lambda>_. pack_loop env tmpl' out (ridx - count) vs)
               | D_Abs \<Rightarrow>
                   (if count - ridx > 0 then pack_loop env tmpl' (ensure (nat count) out) count vs
                    else andthen (check_x env ridx (ridx - count) CHR ''@'') (\<lambda>_. pack_loop env tmpl' out count vs))
               | _ \<Rightarrow>
                   if has (sp_flags sp) F_WIDTH \<and> vs = [] then raise_arg (pe_ruby env) (ascii ''too few arguments'')
                   else andthen (pack_items env sp count out ridx vs) (\<lambda>(out, ridx, vs).
                     if ridx < 0 then raise_range env (ascii ''negative (or overflowed) template size'')
                     else pack_loop env tmpl' out ridx vs)))"
  by pat_completeness auto
termination by (relation "measure (\<lambda>(_, t, _). length t)") (auto dest: read_tmpl_shorter)

declare pack_loop.simps [simp del]

definition tmpl_arg :: "'w pack_env \<Rightarrow> rvalue \<Rightarrow> ('w, bytes) eff" where
  "tmpl_arg env v s =
     (case (case v of VObj i \<Rightarrow> vm_string s i | _ \<Rightarrow> None) of
        Some b \<Rightarrow> ret b s
      | None \<Rightarrow> (let (s1, d) = type_text (pe_ruby env) v s
                 in raise_type (pe_ruby env) (d @ ascii '' cannot be converted to String'') s1))"

definition pack :: "'w pack_env \<Rightarrow> rvalue \<Rightarrow> rvalue \<Rightarrow> ('w, rvalue) eff" where
  "pack env self t = andthen (tmpl_arg env t) (\<lambda>tmpl s.
     andthen (pack_loop env tmpl [] 0 (case self of VObj i \<Rightarrow> (case heap_array (vm_heap s) i of Some vs \<Rightarrow> vs | None \<Rightarrow> []) | _ \<Rightarrow> []))
       (\<lambda>out s. let (s1, v) = str_new (pe_ruby env) out s in ret v s1) s)"

section \<open>Unpack\<close>

datatype unpack_error = Too_Wide u64 | Ber_Overflow | Bad_Utf8 utf8_error | Pack_Bug

text \<open>One value of a number directive at the start of \<open>rest\<close>: what is pushed and how many bytes it took.\<close>

definition unpack_one :: "spec \<Rightarrow> bytes \<Rightarrow> unpack_error + (rvalue list \<times> nat)" where
  "unpack_one sp rest =
     (let le = has (sp_flags sp) F_LE; signed = has (sp_flags sp) F_SIGNED
      in case sp_dir sp of
          D_Char \<Rightarrow> (let n = rest ! 0 in Inr ([VInt (if signed then scast n else ucast n)], 1))
        | D_Short \<Rightarrow> (let n = ucast (get_int rest 2 le) :: 16 word in Inr ([VInt (if signed then scast n else ucast n)], 2))
        | D_Long \<Rightarrow> (let n = ucast (get_int rest 4 le) :: u32 in Inr ([VInt (if signed then scast n else ucast n)], 4))
        | D_Quad \<Rightarrow>
            (let n = get_int rest 8 le
             in if signed then Inr ([VInt n], 8)
                else if n > 0x7FFFFFFFFFFFFFFF then Inl (Too_Wide n) else Inr ([VInt n], 8))
        | D_Ber \<Rightarrow> (case unpack_ber rest of
              None \<Rightarrow> Inl Ber_Overflow
            | Some (v, n) \<Rightarrow> Inr (case v of Some i \<Rightarrow> [VInt i] | None \<Rightarrow> [], n))
        | D_Float \<Rightarrow> Inr ([VFloat (f32_to_f64 (ucast (get_int rest 4 le)))], 4)
        | D_Double \<Rightarrow> Inr ([VFloat (get_int rest 8 le)], 8)
        | D_Utf8 \<Rightarrow> (case unpack_utf8 rest of
              Inl e \<Rightarrow> Inl (Bad_Utf8 e)
            | Inr (v, n) \<Rightarrow> Inr (case v of Some i \<Rightarrow> [VInt i] | None \<Rightarrow> [], n))
        | _ \<Rightarrow> Inl Pack_Bug)"

lemma ber_loop_consumes: "ber_loop bs n i = Some (m, j) \<Longrightarrow> i \<le> j \<and> (bs \<noteq> [] \<longrightarrow> i < j) \<and> j \<le> i + length bs"
  by (induction bs n i rule: ber_loop.induct) (fastforce simp: Let_def split: if_splits)+

lemma unpack_utf8_consumes: "unpack_utf8 bs = Inr (v, n) \<Longrightarrow> bs \<noteq> [] \<Longrightarrow> 0 < n \<and> n \<le> length bs"
  by (cases bs) (auto simp: unpack_utf8_def Let_def Suc_le_eq split: if_splits)

lemma unpack_one_consumes:
  assumes "unpack_one sp rest = Inr (vs, n)" "rest \<noteq> []" shows "0 < n"
  using assms
  by (auto simp: unpack_one_def Let_def unpack_ber_def split: dir.splits if_splits option.splits sum.splits
      dest: ber_loop_consumes unpack_utf8_consumes)

text \<open>The values of one directive and how far it read.\<close>

function unpack_items :: "spec \<Rightarrow> int \<Rightarrow> bytes \<Rightarrow> unpack_error + (rvalue list \<times> nat)" where
  "unpack_items sp count rest =
     (if count = 0 \<or> rest = [] then Inr ([], 0)
      else if length rest < sp_size sp then Inr (replicate (nat count) VNil, 0)
      else case unpack_one sp rest of
          Inl e \<Rightarrow> Inl e
        | Inr (vs, n) \<Rightarrow>
            map_sum id (\<lambda>(ws, m). (vs @ ws, n + m))
              (unpack_items sp (if count > 0 then count - 1 else count) (drop n rest)))"
  by pat_completeness auto
termination by (relation "measure (\<lambda>(_, _, r). length r)") (auto dest: unpack_one_consumes)

declare unpack_items.simps [simp del]

text \<open>A whole number in decimal, as \<open>format!\<close> writes it.\<close>

fun decimal :: "nat \<Rightarrow> bytes" where
  "decimal n = (if n < 10 then [] else decimal (n div 10)) @ [byte_of CHR ''0'' + word_of_nat (n mod 10)]"

declare decimal.simps [simp del]

definition unpack_raise :: "'w pack_env \<Rightarrow> unpack_error \<Rightarrow> ('w, 'a) eff" where
  "unpack_raise env e = (case e of
      Too_Wide n \<Rightarrow> raise_range env (ascii ''cannot unpack to Integer: '' @ decimal (unat n))
    | Ber_Overflow \<Rightarrow> raise_range env (ascii ''BER unpacking 'w' overflow'')
    | Bad_Utf8 Malformed \<Rightarrow> raise_arg (pe_ruby env) (ascii ''malformed UTF-8 character'')
    | Bad_Utf8 Redundant \<Rightarrow> raise_arg (pe_ruby env) (ascii ''redundant UTF-8 sequence'')
    | Pack_Bug \<Rightarrow> raise_exc (pe_ruby env) (rb_c_runtime_error (pe_ruby env)) (ascii ''mruby-pack's bug''))"

text \<open>The string directives: the string read and how far.\<close>

definition unpack_text :: "spec \<Rightarrow> bytes \<Rightarrow> (bytes \<times> nat) option" where
  "unpack_text sp rest =
     (let count = sp_count sp; flags = sp_flags sp
      in case sp_dir sp of
          D_Hex \<Rightarrow> Some (unpack_hex rest count flags)
        | D_Bstr \<Rightarrow> Some (unpack_bstr rest count flags)
        | D_Str \<Rightarrow> Some (unpack_str rest count flags)
        | D_Base64 \<Rightarrow> Some (unpack_base64 rest)
        | D_Uu \<Rightarrow> Some (unpack_uu rest)
        | D_Qenc \<Rightarrow> Some (unpack_qenc rest)
        | _ \<Rightarrow> None)"

text \<open>The values pushed so far and those that follow; \<open>single\<close> stops after the first string.\<close>

function unpack_loop :: "'w pack_env \<Rightarrow> bytes \<Rightarrow> bool \<Rightarrow> bytes \<Rightarrow> int \<Rightarrow> rvalue list \<Rightarrow> ('w, rvalue list) eff" where
  "unpack_loop env src single tmpl srcidx out =
     (if tmpl = [] then ret out
      else case read_tmpl tmpl of
          Inl e \<Rightarrow> tmpl_raise env e
        | Inr (sp, tmpl') \<Rightarrow>
            (let count = sp_count sp; srclen = int (length src);
                 rest = drop (nat (max 0 (min srcidx srclen))) src
             in case sp_dir sp of
                 D_None \<Rightarrow> ret out
               | D_Nul \<Rightarrow> andthen (check_x env (srclen - srcidx) count CHR ''x'')
                   (\<lambda>_. unpack_loop env src single tmpl' (srcidx + count) out)
               | D_Back \<Rightarrow> andthen (check_x env srcidx count CHR ''X'')
                   (\<lambda>_. unpack_loop env src single tmpl' (srcidx - count) out)
               | D_Abs \<Rightarrow> andthen (check_x env srclen count CHR ''@'')
                   (\<lambda>_. unpack_loop env src single tmpl' count out)
               | _ \<Rightarrow> (case unpack_text sp rest of
                   Some (text, n) \<Rightarrow> (\<lambda>s. let (s1, v) = str_new (pe_ruby env) text s
                     in if single then ret (out @ [v]) s1
                        else unpack_loop env src single tmpl' (srcidx + int n) (out @ [v]) s1)
                 | None \<Rightarrow> (case unpack_items sp count rest of
                     Inl e \<Rightarrow> unpack_raise env e
                   | Inr (vs, n) \<Rightarrow> unpack_loop env src single tmpl' (srcidx + int n) (out @ vs)))))"
  by pat_completeness auto
termination by (relation "measure (\<lambda>(_, _, _, t, _). length t)") (auto dest: read_tmpl_shorter)

declare unpack_loop.simps [simp del]

definition vm_ary_new :: "obj_id \<Rightarrow> rvalue list \<Rightarrow> 'w hvm \<Rightarrow> 'w hvm \<times> rvalue" where
  "vm_ary_new c vs s = (let (s1, i) = vm_alloc c (K_Array (ary_of vs)) s in (s1, VObj i))"

definition unpack :: "'w pack_env \<Rightarrow> bool \<Rightarrow> rvalue \<Rightarrow> rvalue \<Rightarrow> ('w, rvalue) eff" where
  "unpack env single self t = andthen (tmpl_arg env t) (\<lambda>tmpl s.
     andthen (unpack_loop env (case (case self of VObj i \<Rightarrow> vm_string s i | _ \<Rightarrow> None) of Some b \<Rightarrow> b | None \<Rightarrow> [])
         single tmpl 0 [])
       (\<lambda>out s. if single then ret (case out of v # _ \<Rightarrow> v | [] \<Rightarrow> VNil) s
          else let (s1, v) = vm_ary_new (pe_c_array env) out s in ret v s1) s)"

end
