(* ===== verification/PackRound.thy ===== *)
theory PackRound
  imports Pack
begin

text \<open>
  What \<open>unpack\<close> reads is what \<open>pack\<close> stored: the round trip of every encoding, then of whole templates.
\<close>

unbundle bit_operations_syntax

section \<open>Integers\<close>

lemma bit_or_fold:
  "bit (fold (\<lambda>i n. n OR push_bit (8 * i) (ucast (f i))) [0..<w] (0 :: u64)) k \<longleftrightarrow>
     k < 64 \<and> k < 8 * w \<and> bit (f (k div 8) :: u8) (k mod 8)"
proof (induction w)
  case (Suc w)
  have "8 * w \<le> k \<and> bit (f w) (k - 8 * w) \<longleftrightarrow> k div 8 = w \<and> bit (f (k div 8)) (k mod 8)"
  proof (cases "k div 8 = w")
    case True
    then have "8 * w \<le> k" "k - 8 * w = k mod 8" by (auto simp: minus_mult_div_eq_mod)
    then show ?thesis using True by simp
  next
    case False
    have "\<not> bit (f w) (k - 8 * w)" if "8 * w \<le> k"
    proof -
      have "8 \<le> k - 8 * w" using False that by auto
      then show ?thesis using bit_imp_le_length [of "f w" "k - 8 * w"] by auto
    qed
    with False show ?thesis by auto
  qed
  moreover have "k < 8 * Suc w \<longleftrightarrow> k div 8 < Suc w" "k < 8 * w \<longleftrightarrow> k div 8 < w" by auto
  ultimately show ?case using Suc by (auto simp: bit_simps)
qed simp

lemma bit_get_int:
  "bit (get_int src w le) k \<longleftrightarrow> k < 64 \<and> k < 8 * w \<and> bit (src ! (if le then k div 8 else w - 1 - k div 8)) (k mod 8)"
  unfolding get_int_def using bit_or_fold [of "\<lambda>i. src ! (if le then i else w - 1 - i)" w k] by simp

lemma int_bytes_nth: "i < w \<Longrightarrow> int_bytes n w le ! i = ucast (drop_bit (8 * (if le then i else w - 1 - i)) n)"
  by (simp add: int_bytes_def)

lemma int_bytes_length [simp]: "length (int_bytes n w le) = w"
  by (simp add: int_bytes_def)

lemma get_put_int: "get_int (int_bytes n w le @ rest) w le = take_bit (8 * w) n"
proof (rule bit_word_eqI)
  fix k assume "k < LENGTH(64)"
  then have k: "k < 64" by simp
  show "bit (get_int (int_bytes n w le @ rest) w le) k = bit (take_bit (8 * w) n) k"
  proof (cases "k < 8 * w")
    case True
    then have "k div 8 < w" by auto
    then have j: "w - 1 - (w - 1 - k div 8) = k div 8" "w - 1 - k div 8 < w" by auto
    have "8 * (k div 8) + k mod 8 = k" by simp
    with True k j \<open>k div 8 < w\<close> show ?thesis
      by (auto simp: bit_get_int nth_append int_bytes_nth bit_simps)
  qed (simp add: bit_get_int bit_simps)
qed

section \<open>BER\<close>

lemma mask_numerals:
  "(0x7f :: 'a::len word) = mask 7" "(0x3f :: 'a word) = mask 6" "(0x1f :: 'a word) = mask 5" "(0x0f :: 'a word) = mask 4"
  "(0x07 :: 'a word) = mask 3"
  by (simp_all add: mask_eq_exp_minus_1)

lemma high_bit: "bit (0x80 :: 'a::len word) k \<longleftrightarrow> k = 7 \<and> k < LENGTH('a)"
proof -
  have "(0x80 :: 'a word) = push_bit 7 1" by simp
  then show ?thesis by (simp only: bit_simps) auto
qed

lemmas byte_bits = bit_and_iff bit_or_iff bit_unsigned_iff bit_mask_iff bit_push_bit_iff bit_drop_bit_eq bit_take_bit_iff
  mask_numerals high_bit comp_apply

lemma bit_u8: "bit (x :: u8) k \<Longrightarrow> k < 8"
  using bit_imp_le_length by fastforce

lemma ber_septet:
  "ucast ((ucast (y AND 0x7f) OR 0x80 :: u8) AND 0x7f) = (y AND 0x7f :: u64)" "ucast (ucast (y AND 0x7f) AND 0x7f :: u8) = (y AND 0x7f :: u64)"
  "(ucast (y AND 0x7f) OR 0x80 :: u8) AND 0x80 \<noteq> 0" "(ucast (y AND 0x7f) :: u8) AND 0x80 = 0"
proof -
  show "ucast ((ucast (y AND 0x7f) OR 0x80 :: u8) AND 0x7f) = (y AND 0x7f :: u64)"
    "ucast (ucast (y AND 0x7f) AND 0x7f :: u8) = (y AND 0x7f :: u64)"
    by (rule bit_word_eqI, simp only: byte_bits, auto)+
  have "bit ((ucast (y AND 0x7f) OR 0x80 :: u8) AND 0x80) 7" by (simp add: bit_simps high_bit)
  then show "(ucast (y AND 0x7f) OR 0x80 :: u8) AND 0x80 \<noteq> 0" by auto
  show "(ucast (y AND 0x7f) :: u8) AND 0x80 = 0"
    by (rule bit_word_eqI, simp only: byte_bits, auto)
qed

definition ber_byte :: "i64 \<Rightarrow> nat \<Rightarrow> u8" where
  "ber_byte n j = (let x = ucast (drop_bit (7 * (j - 1)) n AND 0x7f) :: u8 in if j > 1 then x OR 0x80 else x)"

lemma signed_drop_nonneg:
  assumes "0 \<le> sint (n :: i64)" shows "signed_drop_bit k n = drop_bit k n"
proof (rule bit_word_eqI)
  fix j assume "j < LENGTH(64)"
  moreover have "\<not> bit n 63" using assms bit_last_iff [of n] by simp
  moreover have "bit n i \<Longrightarrow> i < 64" for i using bit_imp_le_length [of n i] by simp
  moreover have "63 < i \<Longrightarrow> \<not> bit n i" for i using bit_imp_le_length [of n i] by auto
  moreover have "i = 63 \<or> 63 < i" if "63 \<le> i" for i :: nat using that by auto
  ultimately show "bit (signed_drop_bit k n) j = bit (drop_bit k n) j"
    by (auto simp: bit_simps not_less)
qed

lemma uint_nonneg_i64:
  assumes "0 \<le> sint (n :: i64)" shows "uint n = sint n" "uint n < 2 ^ 63"
  using assms sint_less [of n] by (simp_all add: uint_sint take_bit_eq_mod)

lemma sint_small_i64:
  assumes "uint (n :: i64) < 2 ^ 63" shows "sint n = uint n"
proof -
  have "- (2 ^ 63) \<le> uint n" by (rule order_trans [OF _ uint_ge_0]) simp
  then show ?thesis using assms signed_take_bit_int_eq_self [of 63 "uint n"] by (simp add: sint_uint)
qed

lemma drop_bit_step: "push_bit 7 (drop_bit (7 * Suc j) n) OR (drop_bit (7 * j) n AND 0x7f) = drop_bit (7 * j) (n :: u64)"
proof (rule bit_word_eqI)
  fix i assume "i < LENGTH(64)"
  moreover have "7 * Suc j + (i - 7) = 7 * j + i" if "7 \<le> i" using that by simp
  ultimately show "bit (push_bit 7 (drop_bit (7 * Suc j) n) OR (drop_bit (7 * j) n AND 0x7f)) i = bit (drop_bit (7 * j) n) i"
    by (cases "7 \<le> i") (auto simp: bit_simps mask_numerals)
qed

lemma ber_loop_bytes:
  assumes n: "0 \<le> sint n" and len: "len \<le> 9"
  shows "1 \<le> k \<Longrightarrow> k \<le> len \<Longrightarrow>
    ber_loop (map (ber_byte n) (rev [1..<Suc k]) @ rest) (drop_bit (7 * k) n) (len - k) = Some (n, len)"
proof (induction k)
  case (Suc j)
  have "unat n < 2 ^ 63" using uint_nonneg_i64(2) [OF n] by (simp add: nat_uint_eq [symmetric] nat_less_iff del: nat_uint_eq)
  then have "unat n div 2 ^ 7 \<le> (2 ^ 63 - 1) div 2 ^ 7" by (intro div_le_mono) simp
  moreover have "unat n div 2 ^ (7 * Suc j) \<le> unat n div 2 ^ 7"
    by (intro div_le_mono2 power_increasing) simp_all
  ultimately have "unat (drop_bit (7 * Suc j) n) \<le> (2 ^ 63 - 1) div 2 ^ 7"
    unfolding trans [OF unat_drop_bit_eq drop_bit_eq_div] by (rule order_trans [rotated])
  then have "uint (drop_bit (7 * Suc j) n) \<le> (2 ^ 63 - 1) div 2 ^ 7" by (simp add: nat_uint_eq [symmetric] nat_le_iff del: nat_uint_eq)
  then have le: "sint (drop_bit (7 * Suc j) n) \<le> (2 ^ 63 - 1) div 2 ^ 7" by (subst sint_small_i64) simp_all
  have ix: "len - Suc j + 1 = len - j" "\<not> len - j > 9" using Suc.prems len by auto
  have up: "push_bit 7 (drop_bit (7 * Suc j) n) OR (drop_bit (7 * j) n AND 0x7f) = drop_bit (7 * j) n"
    by (rule drop_bit_step)
  show ?case
  proof (cases "j = 0")
    case True
    then show ?thesis using le up ix Suc.prems by (simp add: ber_byte_def ber_septet)
  next
    case False
    define more where "more = map (ber_byte n) (rev [1..<Suc j]) @ rest"
    have "ber_loop more (drop_bit (7 * j) n) (len - j) = Some (n, len)"
      using Suc.prems False unfolding more_def by (intro Suc.IH) auto
    moreover have "map (ber_byte n) (rev [1..<Suc (Suc j)]) @ rest = ber_byte n (Suc j) # more"
      by (simp add: more_def)
    ultimately show ?thesis using le up ix False by (simp add: ber_byte_def [of _ "Suc j"] ber_septet)
  qed
qed simp

text \<open>What \<open>ber_len\<close> settles on covers the number.\<close>

lemma ber_len_covers:
  assumes "0 \<le> sint n" "l + k = 9" "1 \<le> l"
  shows "ber_len n l k \<le> 9 \<and> 1 \<le> ber_len n l k \<and> drop_bit (7 * ber_len n l k) n = 0"
  using assms(2,3)
proof (induction k arbitrary: l)
  case 0
  have "drop_bit 63 n = 0"
  proof (rule bit_word_eqI)
    fix i assume "i < LENGTH(64)"
    moreover have "\<not> bit n 63" using assms(1) bit_last_iff [of n] by simp
    moreover have "bit n (63 + i) \<Longrightarrow> 63 + i < 64" using bit_imp_le_length [of n "63 + i"] by simp
    ultimately show "bit (drop_bit 63 n) i = bit 0 i" by (cases "i = 0") (auto simp: bit_simps)
  qed
  then show ?case using 0 by simp
next
  case (Suc k)
  then show ?case using Suc.IH [of "l + 1"] by (auto simp: signed_drop_nonneg [OF assms(1)])
qed

lemma ber_round:
  assumes "pack_ber n = Some bs"
  shows "unpack_ber (bs @ rest) = Some (Some n, length bs)" "bs \<noteq> []"
proof -
  have n: "0 \<le> sint n" using assms by (simp add: pack_ber_def not_less split: if_splits)
  define len where "len = ber_len n 1 8"
  have len: "len \<le> 9" "1 \<le> len" "drop_bit (7 * len) n = 0" using ber_len_covers [OF n, of 1 8] by (simp_all add: len_def)
  have bs: "bs = map (ber_byte n) (rev [1..<Suc len])"
    using assms n by (simp add: pack_ber_def len_def Let_def ber_byte_def [abs_def] signed_drop_nonneg)
  show ne: "bs \<noteq> []" using len(2) by (simp add: bs)
  show "unpack_ber (bs @ rest) = Some (Some n, length bs)"
    using ber_loop_bytes [OF n len(1,2) order_refl, of rest] len(3) ne by (simp add: unpack_ber_def bs)
qed

section \<open>UTF-8\<close>

text \<open>A fact on small bytes is checked on each of them.\<close>

lemma all_bytes_below:
  assumes "list_all (\<lambda>k. P (word_of_nat k :: u8)) [0..<n]" "unat x < n" shows "P x"
  using assms by (auto simp: list_all_iff dest!: bspec [of _ _ "unat x"])

lemma utf8_lead:
  "unat x < 32 \<Longrightarrow> 0xC0 \<le> 0xC0 OR x \<and> 0xC0 OR x \<le> 0xDF \<and> (0xC0 OR x) AND 0x1F = (x :: u8)"
  by (rule all_bytes_below [of _ 32 x], code_simp, assumption)

lemma utf8_lead3:
  "unat x < 16 \<Longrightarrow> 0xE0 \<le> 0xE0 OR x \<and> 0xE0 OR x \<le> 0xEF \<and> (0xE0 OR x) AND 0x0F = (x :: u8)"
  by (rule all_bytes_below [of _ 16 x], code_simp, assumption)

lemma utf8_lead4:
  "unat x < 8 \<Longrightarrow> 0xF0 \<le> 0xF0 OR x \<and> 0xF0 OR x \<le> 0xF7 \<and> (0xF0 OR x) AND 0x07 = (x :: u8)"
  by (rule all_bytes_below [of _ 8 x], code_simp, assumption)

lemma utf8_tail:
  "unat x < 64 \<Longrightarrow> 0x80 \<le> 0x80 OR x \<and> 0x80 OR x \<le> 0xBF \<and> (0x80 OR x) AND 0x3F = (x :: u8)"
  by (rule all_bytes_below [of _ 64 x], code_simp, assumption)

lemma bit_below:
  assumes "unat (x :: 'a::len word) < 2 ^ k" "bit x i" shows "i < k"
proof (rule ccontr)
  assume "\<not> i < k"
  moreover have "take_bit k (unat x) = unat x" using assms(1) by (simp add: take_bit_nat_eq_self)
  moreover have "bit (unat x) i" using assms(2) by (simp add: bit_unsigned_iff bit_imp_le_length)
  ultimately show False by (metis bit_take_bit_iff)
qed


lemma utf8_tail_bits:
  "(0x80 OR ucast (y AND 0x3f :: i64) :: u8) AND 0x3f = ucast (y AND 0x3f)"
  "0x80 \<le> (0x80 OR ucast (y AND 0x3f) :: u8)" "(0x80 OR ucast (y AND 0x3f) :: u8) \<le> 0xBF"
proof -
  have "(ucast (y AND 0x3f) :: u8) = take_bit 6 (ucast y)"
    by (rule bit_word_eqI, simp only: byte_bits, auto)
  moreover have "unat (take_bit 6 (ucast y :: u8)) < 2 ^ 6" unfolding unsigned_take_bit_eq by (rule take_bit_nat_less_exp)
  ultimately have "unat (ucast (y AND 0x3f) :: u8) < 64" by simp
  then show "(0x80 OR ucast (y AND 0x3f :: i64) :: u8) AND 0x3f = ucast (y AND 0x3f)"
    "0x80 \<le> (0x80 OR ucast (y AND 0x3f) :: u8)" "(0x80 OR ucast (y AND 0x3f) :: u8) \<le> 0xBF"
    using utf8_tail by blast+
qed

lemma utf8_join2:
  fixes cp :: i64 assumes "unat cp < 2 ^ 11"
  shows "push_bit 6 (ucast (ucast (drop_bit 6 cp) :: u8)) OR ucast (ucast (cp AND 0x3f) :: u8) = (ucast cp :: u32)"
proof (rule bit_word_eqI, goal_cases)
  case (1 i)
  then show ?case using bit_below [OF assms, of i] by (cases "6 \<le> i"; simp only: byte_bits; auto)
qed

lemma utf8_join3:
  fixes cp :: i64 assumes "unat cp < 2 ^ 16"
  shows "push_bit 12 (ucast (ucast (drop_bit 12 cp) :: u8)) OR push_bit 6 (ucast (ucast (drop_bit 6 cp AND 0x3f) :: u8))
      OR ucast (ucast (cp AND 0x3f) :: u8) = (ucast cp :: u32)"
proof (rule bit_word_eqI, goal_cases)
  case (1 i)
  then show ?case using bit_below [OF assms, of i] by (cases "12 \<le> i"; cases "6 \<le> i"; simp only: byte_bits; auto)
qed

lemma utf8_join4:
  fixes cp :: i64 assumes "unat cp < 2 ^ 21"
  shows "push_bit 18 (ucast (ucast (drop_bit 18 cp) :: u8)) OR push_bit 12 (ucast (ucast (drop_bit 12 cp AND 0x3f) :: u8))
      OR push_bit 6 (ucast (ucast (drop_bit 6 cp AND 0x3f) :: u8)) OR ucast (ucast (cp AND 0x3f) :: u8) = (ucast cp :: u32)"
proof (rule bit_word_eqI, goal_cases)
  case (1 i)
  then show ?case using bit_below [OF assms, of i] by (cases "18 \<le> i"; cases "12 \<le> i"; cases "6 \<le> i"; simp only: byte_bits; auto)
qed


lemma ucast_small:
  assumes "unat (x :: 'a::len word) < 2 ^ LENGTH('b)"
  shows "unat (ucast x :: 'b::len word) = unat x"
  using assms by (simp add: unsigned_ucast_eq take_bit_nat_eq_self)

lemma lead_small:
  assumes "unat (cp :: i64) < m * 2 ^ k" shows "unat (ucast (drop_bit k cp) :: u8) < m"
proof -
  have "unat (ucast (drop_bit k cp) :: u8) \<le> unat (drop_bit k cp)"
    by (simp add: unsigned_ucast_eq take_bit_nat_less_eq_self)
  also have "\<dots> < m" using assms unfolding trans [OF unat_drop_bit_eq drop_bit_eq_div] by (simp add: less_mult_imp_div_less)
  finally show ?thesis .
qed

lemma utf8_round:
  assumes "utf8_to_buf cp = Some bs"
  shows "unpack_utf8 (bs @ rest) = Inr (Some cp, length bs)" "bs \<noteq> []"
proof -
  have nn: "0 \<le> sint cp" and le: "sint cp \<le> 0x10FFFF" using assms by (auto simp: utf8_to_buf_def Let_def not_less split: if_splits)
  then have u: "sint cp = int (unat cp)" using uint_nonneg_i64(1) [OF nn] by simp
  have un: "unat cp \<le> 0x10FFFF" using u le by (simp add: nat_uint_eq [symmetric] nat_le_iff del: nat_uint_eq)
  then have "unat (ucast (ucast cp :: u32) :: i64) = unat cp" by (simp add: ucast_small)
  then have cpb: "ucast (ucast cp :: u32) = cp" by (rule unsigned_word_eqI)
  have k: "sint cp \<le> int k \<longleftrightarrow> unat cp \<le> k" for k unfolding u by (rule of_nat_le_iff)
  from k [of "0x7f"] k [of "0x7ff"] k [of "0xffff"] k [of "0x10FFFF"]
  have th: "sint cp \<le> 0x7f \<longleftrightarrow> unat cp \<le> 0x7f" "sint cp \<le> 0x7ff \<longleftrightarrow> unat cp \<le> 0x7ff"
    "sint cp \<le> 0xffff \<longleftrightarrow> unat cp \<le> 0xffff" "sint cp \<le> 0x10FFFF \<longleftrightarrow> unat cp \<le> 0x10FFFF" by simp_all
  note t = utf8_tail_bits
  consider "unat cp \<le> 0x7f" | "0x7f < unat cp" "unat cp \<le> 0x7ff" | "0x7ff < unat cp" "unat cp \<le> 0xffff" | "0xffff < unat cp"
    by linarith
  then show "unpack_utf8 (bs @ rest) = Inr (Some cp, length bs)"
  proof cases
    case 1
    then have b: "bs = [ucast cp]" using assms th nn by (simp add: utf8_to_buf_def)
    have "unat (ucast cp :: u8) = unat cp" using 1 by (simp add: ucast_small)
    moreover from this have "unat (ucast (ucast cp :: u8) :: i64) = unat cp" by (simp add: unsigned_ucast_eq unsigned_take_bit_eq)
    then have "ucast (ucast cp :: u8) = cp" by (rule unsigned_word_eqI)
    ultimately show ?thesis using 1 by (simp add: b unpack_utf8_def word_less_nat_alt)
  next
    case 2
    let ?x = "ucast (drop_bit 6 cp) :: u8"
    have b: "bs = [0xC0 OR ?x, 0x80 OR ucast (cp AND 0x3f)]" using 2 assms th nn by (simp add: utf8_to_buf_def Let_def)
    have l: "0xC0 \<le> 0xC0 OR ?x" "0xC0 OR ?x \<le> 0xDF" "(0xC0 OR ?x) AND 0x1F = ?x"
      using utf8_lead [of ?x] lead_small [of cp 32 6] 2 by simp_all
    have nl: "\<not> 0xC0 OR ?x < 0x80" using l(1) by (simp add: word_le_nat_alt word_less_nat_alt)
    have "\<not> (ucast cp :: u32) < 0x80" using 2 by (simp add: word_less_nat_alt ucast_small)
    then show ?thesis using utf8_join2 [of cp] 2 l nl t cpb by (simp add: b unpack_utf8_def Let_def)
  next
    case 3
    let ?x = "ucast (drop_bit 12 cp) :: u8"
    have b: "bs = [0xE0 OR ?x, 0x80 OR ucast (drop_bit 6 cp AND 0x3f), 0x80 OR ucast (cp AND 0x3f)]"
      using 3 assms th nn by (simp add: utf8_to_buf_def Let_def)
    have l: "0xE0 \<le> 0xE0 OR ?x" "0xE0 OR ?x \<le> 0xEF" "(0xE0 OR ?x) AND 0x0F = ?x"
      using utf8_lead3 [of ?x] lead_small [of cp 16 12] 3 by simp_all
    have nl: "\<not> 0xE0 OR ?x < 0x80" "\<not> 0xE0 OR ?x \<le> 0xDF"
      using l(1) by (simp_all add: word_le_nat_alt word_less_nat_alt)
    have "\<not> (ucast cp :: u32) < 0x800" using 3 by (simp add: word_less_nat_alt ucast_small)
    then show ?thesis using utf8_join3 [of cp] 3 l nl t cpb by (simp add: b unpack_utf8_def Let_def)
  next
    case 4
    let ?x = "ucast (drop_bit 18 cp) :: u8"
    have b: "bs = [0xF0 OR ?x, 0x80 OR ucast (drop_bit 12 cp AND 0x3f), 0x80 OR ucast (drop_bit 6 cp AND 0x3f), 0x80 OR ucast (cp AND 0x3f)]"
      using 4 assms th nn un by (simp add: utf8_to_buf_def Let_def)
    have l: "0xF0 \<le> 0xF0 OR ?x" "0xF0 OR ?x \<le> 0xF7" "(0xF0 OR ?x) AND 0x07 = ?x"
      using utf8_lead4 [of ?x] lead_small [of cp 8 18] un by simp_all
    have nl: "\<not> 0xF0 OR ?x < 0x80" "\<not> 0xF0 OR ?x \<le> 0xDF" "\<not> 0xF0 OR ?x \<le> 0xEF"
      using l(1) by (simp_all add: word_le_nat_alt word_less_nat_alt)
    have "\<not> (ucast cp :: u32) < 0x10000" "\<not> (ucast cp :: u32) > 0x10FFFF"
      using 4 un by (simp_all add: word_less_nat_alt ucast_small)
    then show ?thesis using utf8_join4 [of cp] un l nl t cpb by (simp add: b unpack_utf8_def Let_def)
  qed
  show "bs \<noteq> []" using assms by (auto simp: utf8_to_buf_def Let_def split: if_splits)
qed

end
