(* ===== verification/Utf8.thy ===== *)
theory Utf8
  imports PackRound Chars
begin

text \<open>
  UTF-8 as Rust's standard library reads it (\<open>String::from_utf8\<close>, \<open>from_utf8_lossy\<close>), after the table of well-formed byte
  sequences of the Unicode standard, and what it makes of \<open>utf8len\<close> and \<open>valid_chars\<close> of \<open>src/builtins/string.rs\<close>: the two
  readings agree on every string of bytes.
\<close>

unbundle bit_operations_syntax

definition byte_at :: "bytes \<Rightarrow> nat \<Rightarrow> u8" where
  "byte_at b i = (if i < length b then b ! i else 0)"

definition cont_byte :: "u8 \<Rightarrow> bool" where
  "cont_byte c \<longleftrightarrow> 0x80 \<le> c \<and> c \<le> 0xBF"

text \<open>What may follow a lead byte of three and of four bytes.\<close>

definition second_of_3 :: "u8 \<Rightarrow> u8 \<Rightarrow> bool" where
  "second_of_3 c d \<longleftrightarrow>
     (if c = 0xE0 then 0xA0 \<le> d \<and> d \<le> 0xBF else if c = 0xED then 0x80 \<le> d \<and> d \<le> 0x9F else cont_byte d)"

definition second_of_4 :: "u8 \<Rightarrow> u8 \<Rightarrow> bool" where
  "second_of_4 c d \<longleftrightarrow>
     (if c = 0xF0 then 0x90 \<le> d \<and> d \<le> 0xBF else if c = 0xF4 then 0x80 \<le> d \<and> d \<le> 0x8F else cont_byte d)"

text \<open>The sequence at the start of \<open>b\<close>, which is not empty: its length and whether it is well formed; of one that is not, how
  many bytes stand before what breaks it.\<close>

definition utf8_seq :: "bytes \<Rightarrow> nat \<times> bool" where
  "utf8_seq b =
     (let c = byte_at b 0
      in if c < 0x80 then (1, True)
         else if 0xC2 \<le> c \<and> c \<le> 0xDF then (if cont_byte (byte_at b 1) then (2, True) else (1, False))
         else if 0xE0 \<le> c \<and> c \<le> 0xEF then
           (if \<not> second_of_3 c (byte_at b 1) then (1, False)
            else if \<not> cont_byte (byte_at b 2) then (2, False)
            else (3, True))
         else if 0xF0 \<le> c \<and> c \<le> 0xF4 then
           (if \<not> second_of_4 c (byte_at b 1) then (1, False)
            else if \<not> cont_byte (byte_at b 2) then (2, False)
            else if \<not> cont_byte (byte_at b 3) then (3, False)
            else (4, True))
         else (1, False))"

lemma utf8_seq_pos [simp]: "0 < fst (utf8_seq b)"
  by (simp add: utf8_seq_def Let_def)

function utf8_valid :: "bytes \<Rightarrow> bool" where
  "utf8_valid b = (if b = [] then True else snd (utf8_seq b) \<and> utf8_valid (drop (fst (utf8_seq b)) b))"
  by pat_completeness auto
termination by (relation "measure length") auto

declare utf8_valid.simps [simp del]

text \<open>\<open>from_utf8_lossy\<close>: U+FFFD for what is not well formed.\<close>

function utf8_lossy :: "bytes \<Rightarrow> bytes" where
  "utf8_lossy b =
     (if b = [] then []
      else (if snd (utf8_seq b) then take (fst (utf8_seq b)) b else [0xEF, 0xBF, 0xBD])
           @ utf8_lossy (drop (fst (utf8_seq b)) b))"
  by pat_completeness auto
termination by (relation "measure length") auto

declare utf8_lossy.simps [simp del]

section \<open>Against the characters of a string\<close>

lemma cont_byte_mask: "x AND 0xc0 = 0x80 \<longleftrightarrow> cont_byte x"
  by (rule all_bytes_below [of _ 256 x], code_simp) (use unsigned_less [of x] in simp)

lemma unat_drop3: "unat (drop_bit 3 c) = unat (c :: u8) div 8"
  unfolding trans [OF unat_drop_bit_eq drop_bit_eq_div] by simp

lemma lead_len:
  fixes c :: u8
  shows "unat (drop_bit 3 c) \<le> 15 \<longleftrightarrow> c < 0x80"
    "24 \<le> unat (drop_bit 3 c) \<and> unat (drop_bit 3 c) \<le> 27 \<longleftrightarrow> 0xC0 \<le> c \<and> c \<le> 0xDF"
    "unat (drop_bit 3 c) = 28 \<or> unat (drop_bit 3 c) = 29 \<longleftrightarrow> 0xE0 \<le> c \<and> c \<le> 0xEF"
    "unat (drop_bit 3 c) = 30 \<longleftrightarrow> 0xF0 \<le> c \<and> c \<le> 0xF7"
  unfolding unat_drop3 word_less_nat_alt word_le_nat_alt by (simp_all, linarith+)

text \<open>The lead byte settles how many bytes have to follow.\<close>

lemma utf8len_lead:
  fixes c :: u8
  shows "utf8len (c # rest) True =
     (let len = (if c < 0x80 then 1 else if 0xC0 \<le> c \<and> c \<le> 0xDF then 2 else if 0xE0 \<le> c \<and> c \<le> 0xEF then 3
                 else if 0xF0 \<le> c \<and> c \<le> 0xF7 then 4 else 1 :: nat)
      in if len = 1 then 1
         else if len > length (c # rest) then 1
         else if list_ex (\<lambda>x. \<not> cont_byte x) (take (len - 1) rest) then 1
         else if c = 0xc0 \<or> c = 0xc1 then 1
         else if c = 0xe0 \<and> hd rest < 0xa0 then 1
         else if c = 0xed \<and> hd rest > 0x9f then 1
         else if c = 0xf0 \<and> hd rest < 0x90 then 1
         else if c = 0xf4 \<and> hd rest > 0x8f then 1
         else if 0xf5 \<le> c \<and> c \<le> 0xf7 then 1
         else len)"
  by (simp only: utf8len_def Let_def lead_len cont_byte_mask list.case not_True_eq_False if_False)

text \<open>What is true of the bytes of a range.\<close>

lemma u8_numbers:
  "unat (0x80 :: u8) = 0x80" "unat (0x8f :: u8) = 0x8f" "unat (0x90 :: u8) = 0x90" "unat (0x9f :: u8) = 0x9f"
  "unat (0xa0 :: u8) = 0xa0" "unat (0xbf :: u8) = 0xbf" "unat (0xc0 :: u8) = 0xc0" "unat (0xc1 :: u8) = 0xc1"
  "unat (0xc2 :: u8) = 0xc2" "unat (0xdf :: u8) = 0xdf" "unat (0xe0 :: u8) = 0xe0" "unat (0xed :: u8) = 0xed"
  "unat (0xef :: u8) = 0xef" "unat (0xf0 :: u8) = 0xf0" "unat (0xf4 :: u8) = 0xf4" "unat (0xf5 :: u8) = 0xf5"
  "unat (0xf7 :: u8) = 0xf7"
  by simp_all

lemmas u8_to_nat = word_unat_eq_iff word_le_nat_alt word_less_nat_alt u8_numbers

lemma lead_range:
  fixes c :: u8
  shows "c < 0x80 \<or> 0x80 \<le> c \<and> c < 0xC0 \<or> 0xC0 \<le> c \<and> c \<le> 0xDF \<or> 0xE0 \<le> c \<and> c \<le> 0xEF \<or> 0xF0 \<le> c \<and> c \<le> 0xF7 \<or> 0xF7 < c" (is "?g1")
    "0x80 \<le> c \<and> c < 0xC0 \<or> 0xF7 < c \<longrightarrow> \<not> c < 0x80 \<and> \<not> (0xC0 \<le> c \<and> c \<le> 0xDF) \<and> \<not> (0xC2 \<le> c \<and> c \<le> 0xDF)
       \<and> \<not> (0xE0 \<le> c \<and> c \<le> 0xEF) \<and> \<not> (0xF0 \<le> c \<and> c \<le> 0xF7) \<and> \<not> (0xF0 \<le> c \<and> c \<le> 0xF4)" (is "?g2")
    "0xC0 \<le> c \<and> c \<le> 0xDF \<longrightarrow> \<not> c < 0x80 \<and> (0xC2 \<le> c \<longleftrightarrow> c \<noteq> 0xc0 \<and> c \<noteq> 0xc1) \<and> \<not> 0xE0 \<le> c \<and> \<not> 0xF0 \<le> c
       \<and> c \<noteq> 0xe0 \<and> c \<noteq> 0xed \<and> c \<noteq> 0xf0 \<and> c \<noteq> 0xf4 \<and> \<not> 0xf5 \<le> c" (is "?g3")
    "0xE0 \<le> c \<and> c \<le> 0xEF \<longrightarrow> \<not> c < 0x80 \<and> \<not> c \<le> 0xDF \<and> \<not> 0xF0 \<le> c
       \<and> c \<noteq> 0xc0 \<and> c \<noteq> 0xc1 \<and> c \<noteq> 0xf0 \<and> c \<noteq> 0xf4 \<and> \<not> 0xf5 \<le> c" (is "?g4")
    "0xF0 \<le> c \<and> c \<le> 0xF7 \<longrightarrow> \<not> c < 0x80 \<and> \<not> c \<le> 0xDF \<and> \<not> c \<le> 0xEF
       \<and> c \<noteq> 0xc0 \<and> c \<noteq> 0xc1 \<and> c \<noteq> 0xe0 \<and> c \<noteq> 0xed \<and> (c \<le> 0xF4 \<longleftrightarrow> \<not> 0xf5 \<le> c)" (is "?g5")
proof -
  obtain n where n: "unat c = n" by blast
  show "?g1" "?g2" "?g3" "?g4" "?g5" unfolding u8_to_nat n by presburger+
qed

lemma second_range:
  fixes d :: u8
  shows "cont_byte d \<longrightarrow> (0xA0 \<le> d \<longleftrightarrow> \<not> d < 0xa0) \<and> d \<le> 0xBF \<and> (d \<le> 0x9F \<longleftrightarrow> \<not> 0x9f < d) \<and> 0x80 \<le> d
      \<and> (0x90 \<le> d \<longleftrightarrow> \<not> d < 0x90) \<and> (d \<le> 0x8F \<longleftrightarrow> \<not> 0x8f < d)" (is "?g1")
    "\<not> cont_byte d \<longrightarrow> \<not> (0xA0 \<le> d \<and> d \<le> 0xBF) \<and> \<not> (0x80 \<le> d \<and> d \<le> 0x9F) \<and> \<not> (0x90 \<le> d \<and> d \<le> 0xBF)
      \<and> \<not> (0x80 \<le> d \<and> d \<le> 0x8F)" (is "?g2")
proof -
  obtain n where n: "unat d = n" by blast
  show "?g1" "?g2" unfolding cont_byte_def u8_to_nat n by presburger+
qed

lemma not_cont_0 [simp]: "\<not> cont_byte 0"
  by code_simp

lemma second_of_iff:
  "second_of_3 c d \<longleftrightarrow> cont_byte d \<and> \<not> (c = 0xe0 \<and> d < 0xa0) \<and> \<not> (c = 0xed \<and> 0x9f < d)"
  "second_of_4 c d \<longleftrightarrow> cont_byte d \<and> \<not> (c = 0xf0 \<and> d < 0x90) \<and> \<not> (c = 0xf4 \<and> 0x8f < d)"
  unfolding second_of_3_def second_of_4_def using second_range [of d] by (cases "cont_byte d"; auto)+

lemma byte_at_Cons [simp]:
  "byte_at [] i = 0" "byte_at (c # b) 0 = c" "byte_at (c # b) (Suc i) = byte_at b i"
  "byte_at (c # b) 1 = byte_at b 0" "byte_at (c # b) 2 = byte_at b 1" "byte_at (c # b) 3 = byte_at b 2"
  by (simp_all add: byte_at_def numeral_2_eq_2 numeral_3_eq_3)

lemma utf8len_seq:
  assumes "b \<noteq> []"
  shows "utf8len b True = (if snd (utf8_seq b) then fst (utf8_seq b) else 1)"
proof -
  obtain c rest where b: "b = c # rest" using assms by (cases b) auto
  consider (one) "c < 0x80" | (none) "0x80 \<le> c \<and> c < 0xC0 \<or> 0xF7 < c" | (two) "0xC0 \<le> c \<and> c \<le> 0xDF"
    | (three) "0xE0 \<le> c \<and> c \<le> 0xEF" | (four) "0xF0 \<le> c \<and> c \<le> 0xF7"
    using lead_range(1) [of c] by blast
  then show ?thesis
  proof cases
    case one
    then show ?thesis unfolding b utf8len_lead utf8_seq_def by simp
  next
    case none
    note lead_range(2) [rule_format, OF none]
    then show ?thesis unfolding b utf8len_lead utf8_seq_def by (simp only: Let_def byte_at_Cons simp_thms if_True if_False split: if_splits) simp
  next
    case two
    note t = lead_range(3) [rule_format, OF two]
    show ?thesis unfolding b utf8len_lead utf8_seq_def
      using t two by (cases rest) simp_all
  next
    case three
    note t = lead_range(4) [rule_format, OF three]
    show ?thesis unfolding b utf8len_lead utf8_seq_def second_of_iff
      using t three by (cases rest; cases "tl rest"; simp; blast?)
  next
    case four
    note t = lead_range(5) [rule_format, OF four]
    show ?thesis unfolding b utf8len_lead utf8_seq_def second_of_iff
      using t four by (cases rest; cases "tl rest"; cases "tl (tl rest)"; simp; blast?)
  qed
qed

lemma valid_chars_utf8: "valid_chars b True \<longleftrightarrow> utf8_valid b"
proof -
  have "valid_walk b True \<longleftrightarrow> utf8_valid b"
  proof (induction b rule: utf8_valid.induct)
    case (1 b)
    show ?case
    proof (cases "b = []")
      case True
      then show ?thesis by (subst valid_walk.simps, subst utf8_valid.simps) simp
    next
      case False
      then obtain c rest where b: "b = c # rest" by (cases b) auto
      have s: "utf8_seq b = (1, True) \<or> snd (utf8_seq b) \<and> fst (utf8_seq b) \<noteq> 1 \<or> \<not> snd (utf8_seq b)"
        by (cases "utf8_seq b") auto
      have low: "snd (utf8_seq b) \<and> fst (utf8_seq b) = 1 \<longleftrightarrow> c < 0x80"
        unfolding b utf8_seq_def by simp
      show ?thesis
        unfolding valid_walk.simps [of b] utf8_valid.simps [of b] utf8len_seq [OF False]
        using 1 False low by (auto simp: b not_less)
    qed
  qed
  then show ?thesis by (simp add: valid_chars_def)
qed

end
