(* ===== verification/Image.thy ===== *)
theory Image
  imports Reader Utf8
begin

text \<open>
  Reading a checkpoint image (\<open>src/checkpoint/image.rs\<close>) into plain records: the symbols, ireps, objects and changes, the
  execution contexts with their stacks and frames, the scheduler's Tasks, the optional sections and the end mark; and
  the content hash of an irep. References stay numbers, as in the source. The cursor and its combinators are
  those of \<open>Reader\<close>, the errors this reader's own; a \<open>String\<close> is its bytes, which have to be UTF-8.
\<close>

unbundle bit_operations_syntax

section \<open>The records\<close>

datatype val =
    Val_Nil | Val_False | Val_True | Val_Int i64 | Val_Float f64 | Val_Sym u32 | Val_Obj u32 | Val_Undef

datatype pool_rec = PoolRec_Str bytes | PoolRec_Int i64 | PoolRec_Float f64 | PoolRec_BigInt bytes

record irep_rec =
  irr_kind :: u8
  irr_hash :: u64
  irr_nlocals :: u16
  irr_nregs :: u16
  irr_clen :: u16
  irr_iseq :: bytes
  irr_catch :: bytes
  irr_pool :: "pool_rec list"
  irr_syms :: "u32 list"
  irr_reps :: "u32 list"
  irr_lv :: "u32 list"

record head_rec =
  hd_class :: u32
  hd_frozen :: bool

datatype meth_body = MethBody_Proc u32 | MethBody_Func bytes u32 | MethBody_Undef

record meth_rec =
  mr_name :: u32
  mr_vis :: u8
  mr_body :: meth_body

datatype proc_body = ProcBody_Irep u32 | ProcBody_Func bytes | ProcBody_Alias u32

datatype env_place = EnvPlace_Stack u32 u32 | EnvPlace_Values "val list"

type_synonym ivars_rec = "(u32 \<times> val) list"

datatype obj_rec =
    Rec_Perm bytes
  | Rec_PermBody bytes u32
  | Rec_Object head_rec ivars_rec
  | Rec_Str head_rec bytes
  | Rec_BinStr head_rec bytes
  | Rec_Array head_rec "val list"
  | Rec_Hash head_rec u8 "(val \<times> val) list" ivars_rec
  | Rec_Range head_rec val val bool
  | Rec_Exception head_rec val val ivars_rec
  | Rec_Class head_rec u8 u32 u8 u8 ivars_rec "meth_rec list"
  | Rec_IClass head_rec u32
  | Rec_Proc head_rec u8 proc_body u32 u8 u32
  | Rec_Env head_rec u32 u8 u8 u8 env_place
  | Rec_Data head_rec bytes bytes ivars_rec
  | Rec_Task head_rec u32 ivars_rec
  | Rec_Fiber head_rec u32

datatype patch_rec =
    Patch_MethodSet u32 meth_rec
  | Patch_MethodRemove u32 u32
  | Patch_IvSet u32 u32 val
  | Patch_IvRemove u32 u32
  | Patch_SuperSet u32 u32
  | Patch_GvSet u32 val
  | Patch_GvRemove u32
  | Patch_StrSet u32 bool bytes
  | Patch_AryContents u32 bool "val list"

record frame_rec =
  fr_cfunc :: "bytes option"
  fr_mid :: u32
  fr_proc :: u32
  fr_base :: u32
  fr_pc :: u32
  fr_n :: u8
  fr_nk :: u8
  fr_cci :: u8
  fr_vis :: u8
  fr_blk :: u32
  fr_env_kind :: u8
  fr_env :: u32

record ctx_rec =
  cr_status :: u8
  cr_flags :: u8
  cr_prev :: u32
  cr_fib :: u32
  cr_stack :: "val list"
  cr_frames :: "frame_rec list"

text \<open>A tick count is an \<open>i32\<close>: the word, read with \<open>sint\<close>.\<close>

datatype wait_rec = Wait_None | Wait_Sleep u32 | Wait_Join u32 | Wait_Queue u32 "u32 option"

record task_rec =
  tr_obj :: u32
  tr_ctx :: u32
  tr_status :: u8
  tr_queue :: u8
  tr_priority :: u8
  tr_reason :: u8
  tr_timeslice :: u8
  tr_name :: val
  tr_result :: val
  tr_wait :: wait_rec

record sched_rec =
  sr_switch_pending :: bool
  sr_loop_running :: bool
  sr_unit :: u16
  sr_tick :: u32
  sr_wakeup :: "u32 option"
  sr_tasks :: "task_rec list"
  sr_running :: u32
  sr_host :: u32

type_synonym lines_rec = "u32 \<times> bytes \<times> (u32 \<times> u32) list"

record image =
  im_version :: u16
  im_writer :: bytes
  im_syms :: "bytes list"
  im_ireps :: "irep_rec list"
  im_objs :: "obj_rec list"
  im_patches :: "patch_rec list"
  im_ctxs :: "ctx_rec list"
  im_current :: u32
  im_sched :: sched_rec
  im_lines :: "lines_rec list"

definition FORMAT_VERSION :: u16 where "FORMAT_VERSION = 1"

text \<open>What \<open>parse\<close> refuses, one constructor per message.\<close>

datatype image_error =
    Truncated nat
  | Name_Not_Utf8
  | Bad_Value_Tag u8
  | Bad_Method_Kind u8
  | Bad_Irep_Kind u8
  | Bad_Pool_Entry u8
  | Bad_Proc_Body u8
  | Object_Not_Carried u8
  | Bad_Object_Kind u8
  | Change_Not_Carried u8
  | Hash_Not_Carried
  | Bad_Contents u8
  | Bad_Change u8
  | Not_An_Image
  | Format_Unsupported u16
  | Not_Rite_0400 bytes
  | Values_Differ
  | Truncated_Image
  | Bad_Frame u8
  | Bad_Reason u8
  | Section_Short bytes nat nat
  | Section_Left bytes nat
  | No_End_Mark
  | Bytes_Left nat

section \<open>The cursor\<close>

type_synonym 'a ck = "(image_error, 'a) crd"

definition ck_take :: "nat \<Rightarrow> bytes ck" where
  "ck_take n c =
     (if length (cb c) - cp c < n then Inl (Truncated (cp c))
      else Inr (take n (drop (cp c) (cb c)), c\<lparr>cp := cp c + n\<rparr>))"

definition ck_u8 :: "u8 ck" where
  "ck_u8 = rd_bind (ck_take 1) (\<lambda>s. rd_ret (s ! 0))"

definition ck_u16 :: "u16 ck" where
  "ck_u16 = rd_bind (ck_take 2) (\<lambda>s. rd_ret (be16 (s ! 0) (s ! 1)))"

definition ck_u32 :: "u32 ck" where
  "ck_u32 = rd_bind (ck_take 4) (\<lambda>s. rd_ret (be32 (s ! 0) (s ! 1) (s ! 2) (s ! 3)))"

definition ck_u64 :: "u64 ck" where
  "ck_u64 = rd_bind ck_u32 (\<lambda>hi. rd_bind ck_u32 (\<lambda>lo. rd_ret (push_bit 32 (ucast hi) OR ucast lo)))"

definition ck_bytes :: "bytes ck" where
  "ck_bytes = rd_bind ck_u32 (\<lambda>n. ck_take (unat n))"

definition ck_string :: "bytes ck" where
  "ck_string = rd_bind ck_bytes (\<lambda>b. if utf8_valid b then rd_ret b else rd_fail Name_Not_Utf8)"

text \<open>\<open>(0..n).map(..).collect()\<close>, with the count read first.\<close>

definition ck_list :: "'a ck \<Rightarrow> 'a list ck" where
  "ck_list m = rd_bind ck_u32 (\<lambda>n. rd_times (unat n) m)"

definition ck_list16 :: "'a ck \<Rightarrow> 'a list ck" where
  "ck_list16 m = rd_bind ck_u16 (\<lambda>n. rd_times (unat n) m)"

definition ck_val :: "val ck" where
  "ck_val = rd_bind ck_u8 (\<lambda>t.
     if t = 0 then rd_ret Val_Nil
     else if t = 1 then rd_ret Val_False
     else if t = 2 then rd_ret Val_True
     else if t = 3 then rd_bind ck_u64 (\<lambda>i. rd_ret (Val_Int i))
     else if t = 4 then rd_bind ck_u64 (\<lambda>f. rd_ret (Val_Float f))
     else if t = 5 then rd_bind ck_u32 (\<lambda>s. rd_ret (Val_Sym s))
     else if t = 6 then rd_bind ck_u32 (\<lambda>o'. rd_ret (Val_Obj o'))
     else if t = 7 then rd_ret Val_Undef
     else rd_fail (Bad_Value_Tag t))"

definition ck_pair :: "'a ck \<Rightarrow> 'b ck \<Rightarrow> ('a \<times> 'b) ck" where
  "ck_pair m k = rd_bind m (\<lambda>x. rd_bind k (\<lambda>y. rd_ret (x, y)))"

definition ck_ivars :: "ivars_rec ck" where
  "ck_ivars = ck_list (ck_pair ck_u32 ck_val)"

definition ck_bool :: "bool ck" where
  "ck_bool = rd_bind ck_u8 (\<lambda>b. rd_ret (b \<noteq> 0))"

definition ck_head :: "head_rec ck" where
  "ck_head = rd_bind ck_u32 (\<lambda>c. rd_bind ck_bool (\<lambda>f. rd_ret \<lparr>hd_class = c, hd_frozen = f\<rparr>))"

definition ck_method :: "meth_rec ck" where
  "ck_method = rd_bind ck_u32 (\<lambda>name. rd_bind ck_u8 (\<lambda>vis. rd_bind ck_u8 (\<lambda>k.
     rd_bind (if k = 0 then rd_bind ck_u32 (\<lambda>p. rd_ret (MethBody_Proc p))
              else if k = 1 then rd_bind ck_string (\<lambda>f. rd_bind ck_u32 (\<lambda>a. rd_ret (MethBody_Func f a)))
              else if k = 2 then rd_ret MethBody_Undef
              else rd_fail (Bad_Method_Kind k))
       (\<lambda>body. rd_ret \<lparr>mr_name = name, mr_vis = vis, mr_body = body\<rparr>))))"

definition ck_pool :: "pool_rec ck" where
  "ck_pool = rd_bind ck_u8 (\<lambda>t.
     if t = 0 then rd_bind ck_bytes (\<lambda>s. rd_ret (PoolRec_Str s))
     else if t = 1 then rd_bind ck_u64 (\<lambda>i. rd_ret (PoolRec_Int i))
     else if t = 2 then rd_bind ck_u64 (\<lambda>f. rd_ret (PoolRec_Float f))
     else if t = 3 then rd_bind ck_bytes (\<lambda>b. rd_ret (PoolRec_BigInt b))
     else rd_fail (Bad_Pool_Entry t))"

definition ck_irep :: "irep_rec ck" where
  "ck_irep = rd_bind ck_u8 (\<lambda>kind. rd_bind ck_u64 (\<lambda>hash.
     if kind = 1 then
       rd_ret \<lparr>irr_kind = kind, irr_hash = hash, irr_nlocals = 0, irr_nregs = 0, irr_clen = 0, irr_iseq = [],
               irr_catch = [], irr_pool = [], irr_syms = [], irr_reps = [], irr_lv = []\<rparr>
     else if kind = 0 \<or> kind = 2 then
       rd_bind ck_u16 (\<lambda>nlocals. rd_bind ck_u16 (\<lambda>nregs. rd_bind ck_u16 (\<lambda>clen. rd_bind ck_u32 (\<lambda>ilen.
       rd_bind (ck_take (unat ilen)) (\<lambda>iseq. rd_bind (ck_take (13 * unat clen)) (\<lambda>catch.
       rd_bind (ck_list16 ck_pool) (\<lambda>pool. rd_bind (ck_list16 ck_u32) (\<lambda>syms. rd_bind (ck_list16 ck_u32) (\<lambda>reps.
       rd_bind (ck_list16 ck_u32) (\<lambda>lv.
         rd_ret \<lparr>irr_kind = kind, irr_hash = hash, irr_nlocals = nlocals, irr_nregs = nregs, irr_clen = clen,
                 irr_iseq = iseq, irr_catch = catch, irr_pool = pool, irr_syms = syms, irr_reps = reps, irr_lv = lv\<rparr>))))))))))
     else rd_fail (Bad_Irep_Kind kind)))"

text \<open>The kinds 16 to 24 are named where they are refused, everything else is bad.\<close>

definition ck_proc :: "head_rec \<Rightarrow> obj_rec ck" where
  "ck_proc head = rd_bind ck_u8 (\<lambda>flags. rd_bind ck_u8 (\<lambda>b.
     rd_bind (if b = 0 then rd_bind ck_u32 (\<lambda>i. rd_ret (ProcBody_Irep i))
              else if b = 1 then rd_bind ck_string (\<lambda>f. rd_bind ck_u32 (\<lambda>_. rd_ret (ProcBody_Func f)))
              else if b = 2 then rd_bind ck_u32 (\<lambda>a. rd_ret (ProcBody_Alias a))
              else rd_fail (Bad_Proc_Body b))
       (\<lambda>body. rd_bind ck_u32 (\<lambda>upper. rd_bind ck_u8 (\<lambda>env_kind. rd_bind ck_u32 (\<lambda>env.
          rd_ret (Rec_Proc head flags body upper env_kind env)))))))"

definition ck_env :: "head_rec \<Rightarrow> obj_rec ck" where
  "ck_env head = rd_bind ck_u32 (\<lambda>mid. rd_bind ck_u8 (\<lambda>len. rd_bind ck_u8 (\<lambda>bidx. rd_bind ck_u8 (\<lambda>vis. rd_bind ck_u8 (\<lambda>k.
     rd_bind (if k = 1 then rd_bind ck_u32 (\<lambda>cx. rd_bind ck_u32 (\<lambda>at. rd_ret (EnvPlace_Stack cx at)))
              else rd_bind (rd_times (unat len) ck_val) (\<lambda>vs. rd_ret (EnvPlace_Values vs)))
       (\<lambda>place. rd_ret (Rec_Env head mid len bidx vis place)))))))"

definition ck_class :: "u8 \<Rightarrow> head_rec \<Rightarrow> obj_rec ck" where
  "ck_class kind head = rd_bind ck_u32 (\<lambda>sup. rd_bind ck_u8 (\<lambda>inst. rd_bind ck_u8 (\<lambda>cflags. rd_bind ck_ivars (\<lambda>iv.
     rd_bind (ck_list ck_method) (\<lambda>ms. rd_ret (Rec_Class head kind sup inst cflags iv ms))))))"

definition ck_object_of :: "u8 \<Rightarrow> head_rec \<Rightarrow> obj_rec ck" where
  "ck_object_of kind head =
     (if kind = 2 then rd_bind ck_ivars (\<lambda>iv. rd_ret (Rec_Object head iv))
      else if kind = 3 then rd_bind ck_bytes (\<lambda>s. rd_ret (Rec_Str head s))
      else if kind = 25 then rd_bind ck_bytes (\<lambda>s. rd_ret (Rec_BinStr head s))
      else if kind = 4 then rd_bind (ck_list ck_val) (\<lambda>vs. rd_ret (Rec_Array head vs))
      else if kind = 5 then
        rd_bind ck_u8 (\<lambda>flags. rd_bind (ck_list (ck_pair ck_val ck_val)) (\<lambda>ps. rd_bind ck_ivars (\<lambda>iv.
          rd_ret (Rec_Hash head flags ps iv))))
      else if kind = 6 then
        rd_bind ck_val (\<lambda>b. rd_bind ck_val (\<lambda>e. rd_bind ck_bool (\<lambda>x. rd_ret (Rec_Range head b e x))))
      else if kind = 7 then
        rd_bind ck_val (\<lambda>m. rd_bind ck_val (\<lambda>bt. rd_bind ck_ivars (\<lambda>iv. rd_ret (Rec_Exception head m bt iv))))
      else if 8 \<le> kind \<and> kind \<le> 10 then ck_class kind head
      else if kind = 11 then rd_bind ck_u32 (\<lambda>sup. rd_ret (Rec_IClass head sup))
      else if kind = 12 then ck_proc head
      else if kind = 13 then ck_env head
      else if kind = 14 then
        rd_bind ck_string (\<lambda>t. rd_bind ck_bytes (\<lambda>b. rd_bind ck_ivars (\<lambda>iv. rd_ret (Rec_Data head t b iv))))
      else if kind = 26 then rd_bind ck_u32 (\<lambda>t. rd_bind ck_ivars (\<lambda>iv. rd_ret (Rec_Task head t iv)))
      else if kind = 27 then rd_bind ck_u32 (\<lambda>cx. rd_ret (Rec_Fiber head cx))
      else if 16 \<le> kind \<and> kind \<le> 24 then rd_fail (Object_Not_Carried kind)
      else rd_fail (Bad_Object_Kind kind))"

definition ck_object :: "obj_rec ck" where
  "ck_object = rd_bind ck_u8 (\<lambda>kind.
     if kind = 1 then rd_bind ck_string (\<lambda>n. rd_ret (Rec_Perm n))
     else if kind = 15 then rd_bind ck_string (\<lambda>n. rd_bind ck_u32 (\<lambda>i. rd_ret (Rec_PermBody n i)))
     else rd_bind ck_head (ck_object_of kind))"

definition ck_contents :: "patch_rec ck" where
  "ck_contents = rd_bind ck_u32 (\<lambda>o'. rd_bind ck_bool (\<lambda>frozen. rd_bind ck_u8 (\<lambda>t.
     if t = 3 then rd_bind ck_bytes (\<lambda>s. rd_ret (Patch_StrSet o' frozen s))
     else if t = 4 then rd_bind (ck_list ck_val) (\<lambda>vs. rd_ret (Patch_AryContents o' frozen vs))
     else if t = 5 then rd_fail Hash_Not_Carried
     else rd_fail (Bad_Contents t))))"

definition ck_patch :: "patch_rec ck" where
  "ck_patch = rd_bind ck_u8 (\<lambda>k.
     if k = 1 then rd_bind ck_u32 (\<lambda>c. rd_bind ck_method (\<lambda>m. rd_ret (Patch_MethodSet c m)))
     else if k = 2 then rd_bind ck_u32 (\<lambda>c. rd_bind ck_u32 (\<lambda>m. rd_ret (Patch_MethodRemove c m)))
     else if k = 3 then rd_bind ck_u32 (\<lambda>o'. rd_bind ck_u32 (\<lambda>s. rd_bind ck_val (\<lambda>v. rd_ret (Patch_IvSet o' s v))))
     else if k = 4 then rd_bind ck_u32 (\<lambda>o'. rd_bind ck_u32 (\<lambda>s. rd_ret (Patch_IvRemove o' s)))
     else if k = 5 then rd_bind ck_u32 (\<lambda>c. rd_bind ck_u32 (\<lambda>s. rd_ret (Patch_SuperSet c s)))
     else if k = 6 then rd_bind ck_u32 (\<lambda>s. rd_bind ck_val (\<lambda>v. rd_ret (Patch_GvSet s v)))
     else if k = 7 then rd_bind ck_u32 (\<lambda>s. rd_ret (Patch_GvRemove s))
     else if k = 8 \<or> k = 9 then rd_fail (Change_Not_Carried k)
     else if k = 10 then ck_contents
     else rd_fail (Bad_Change k))"

section \<open>The VM: contexts and scheduler\<close>

definition ck_frame :: "frame_rec ck" where
  "ck_frame = rd_bind ck_u8 (\<lambda>kind. rd_bind ck_u32 (\<lambda>mid. rd_bind ck_u32 (\<lambda>proc'.
     rd_bind (if kind = 0 then rd_ret None
              else if kind = 1 then rd_bind ck_string (\<lambda>f. rd_ret (Some f))
              else rd_fail (Bad_Frame kind))
     (\<lambda>cfunc. rd_bind ck_u32 (\<lambda>base. rd_bind ck_u32 (\<lambda>pc. rd_bind ck_u8 (\<lambda>n. rd_bind ck_u8 (\<lambda>nk. rd_bind ck_u8 (\<lambda>cci.
      rd_bind ck_u8 (\<lambda>vis. rd_bind ck_u32 (\<lambda>blk. rd_bind ck_u8 (\<lambda>env_kind. rd_bind ck_u32 (\<lambda>env.
        rd_ret \<lparr>fr_cfunc = cfunc, fr_mid = mid, fr_proc = proc', fr_base = base, fr_pc = pc, fr_n = n, fr_nk = nk,
                fr_cci = cci, fr_vis = vis, fr_blk = blk, fr_env_kind = env_kind, fr_env = env\<rparr>)))))))))))))"

text \<open>A list of which the image says it has more items than the image has bytes is refused before it is read.\<close>

definition ck_small_list :: "'a ck \<Rightarrow> 'a list ck" where
  "ck_small_list m = rd_bind ck_u32 (\<lambda>n c. if unat n > length (cb c) then Inl Truncated_Image else rd_times (unat n) m c)"

definition ck_ctx :: "ctx_rec ck" where
  "ck_ctx = rd_bind ck_u8 (\<lambda>status. rd_bind ck_u8 (\<lambda>flags. rd_bind ck_u32 (\<lambda>prev. rd_bind ck_u32 (\<lambda>fib.
     rd_bind (ck_small_list ck_val) (\<lambda>stack. rd_bind (ck_small_list ck_frame) (\<lambda>frames.
       rd_ret \<lparr>cr_status = status, cr_flags = flags, cr_prev = prev, cr_fib = fib, cr_stack = stack, cr_frames = frames\<rparr>))))))"

definition ck_wait :: "u8 \<Rightarrow> wait_rec ck" where
  "ck_wait reason =
     (if reason = 0 then rd_ret Wait_None
      else if reason = 1 then rd_bind ck_u32 (\<lambda>t. rd_ret (Wait_Sleep t))
      else if reason = 4 then rd_bind ck_u32 (\<lambda>j. rd_ret (Wait_Join j))
      else if reason = 8 then
        rd_bind ck_u32 (\<lambda>q. rd_bind ck_u8 (\<lambda>has. rd_bind ck_u32 (\<lambda>left.
          rd_ret (Wait_Queue q (if has = 1 then Some left else None)))))
      else rd_fail (Bad_Reason reason))"

definition ck_task :: "task_rec ck" where
  "ck_task = rd_bind ck_u32 (\<lambda>o'. rd_bind ck_u32 (\<lambda>cx. rd_bind ck_u8 (\<lambda>status. rd_bind ck_u8 (\<lambda>queue.
     rd_bind ck_u8 (\<lambda>priority. rd_bind ck_u8 (\<lambda>reason. rd_bind ck_u8 (\<lambda>timeslice. rd_bind ck_val (\<lambda>name.
     rd_bind ck_val (\<lambda>result. rd_bind (ck_wait reason) (\<lambda>wait.
       rd_ret \<lparr>tr_obj = o', tr_ctx = cx, tr_status = status, tr_queue = queue, tr_priority = priority, tr_reason = reason,
               tr_timeslice = timeslice, tr_name = name, tr_result = result, tr_wait = wait\<rparr>))))))))))"

definition ck_sched :: "sched_rec ck" where
  "ck_sched = rd_bind ck_u8 (\<lambda>fl. rd_bind ck_u16 (\<lambda>unit. rd_bind ck_u32 (\<lambda>tick. rd_bind ck_u8 (\<lambda>has. rd_bind ck_u32 (\<lambda>wakeup.
     rd_bind (ck_small_list ck_task) (\<lambda>tasks. rd_bind ck_u32 (\<lambda>running. rd_bind ck_u32 (\<lambda>host.
       rd_ret \<lparr>sr_switch_pending = (fl AND 1 \<noteq> 0), sr_loop_running = (fl AND 2 \<noteq> 0), sr_unit = unit, sr_tick = tick,
               sr_wakeup = (if has = 1 then Some wakeup else None), sr_tasks = tasks, sr_running = running,
               sr_host = host\<rparr>))))))))"

section \<open>The optional sections\<close>

text \<open>One irep's line numbers: the file of its first part, the entries of all.\<close>

definition ck_part :: "(bytes \<times> (u32 \<times> u32) list) ck" where
  "ck_part = rd_bind ck_bytes (\<lambda>f. rd_bind ck_u32 (\<lambda>_. rd_bind ck_u32 (\<lambda>_.
     rd_bind (ck_list (ck_pair ck_u32 ck_u32)) (\<lambda>ents. rd_ret (f, ents)))))"

definition ck_lines :: "lines_rec ck" where
  "ck_lines = rd_bind ck_u32 (\<lambda>i. rd_bind (ck_list16 ck_part) (\<lambda>parts.
     rd_ret (i, (case parts of [] \<Rightarrow> [] | p # _ \<Rightarrow> utf8_lossy (fst p)), concat (map snd parts))))"

definition DBG0 :: bytes where "DBG0 = ascii ''DBG0''"
definition GCS0 :: bytes where "GCS0 = ascii ''GCS0''"
definition END0 :: bytes where "END0 = ascii ''END0''"

text \<open>What a section adds to the lines, and where its reading stopped.\<close>

definition ck_section :: "bytes \<Rightarrow> bytes \<Rightarrow> image_error + lines_rec list \<times> nat" where
  "ck_section t body =
     (if t = DBG0 then (case ck_list ck_lines \<lparr>cb = body, cp = 0\<rparr> of Inl e \<Rightarrow> Inl e | Inr (ls, c) \<Rightarrow> Inr (ls, cp c))
      else if t = GCS0 then
        (case ck_take (1 + 4 + 4 + 8 + 8 + 8) \<lparr>cb = body, cp = 0\<rparr> of Inl e \<Rightarrow> Inl e | Inr (_, c) \<Rightarrow> Inr ([], cp c))
      else Inr ([], length body))"

definition ck_one_section :: "(bytes \<times> bytes) option ck" where
  "ck_one_section = rd_bind (ck_take 4) (\<lambda>t.
     if t = END0 then rd_ret None
     else rd_bind ck_u32 (\<lambda>len c.
       if length (cb c) - cp c < unat len then Inl (Section_Short t (unat len) (length (cb c) - cp c))
       else rd_bind (ck_take (unat len)) (\<lambda>body. rd_ret (Some (t, body))) c))"

lemma ck_take_moves: "ck_take n c = Inr (x, c') \<Longrightarrow> cb c' = cb c \<and> cp c' = cp c + n"
  by (auto simp: ck_take_def split: if_splits)

lemma ck_one_section_moves: "ck_one_section c = Inr (Some p, c') \<Longrightarrow> cb c' = cb c \<and> cp c + 4 \<le> cp c'"
  by (auto simp: ck_one_section_def ck_u32_def rd_bind_def rd_ret_def split: sum.splits if_splits dest!: ck_take_moves)

function ck_sections :: "cur \<Rightarrow> lines_rec list \<Rightarrow> image_error + bool \<times> lines_rec list \<times> cur" where
  "ck_sections c lines =
     (if length (cb c) - cp c < 4 then Inr (False, lines, c)
      else case ck_one_section c of
          Inl e \<Rightarrow> Inl e
        | Inr (None, c1) \<Rightarrow> Inr (True, lines, c1)
        | Inr (Some (t, body), c1) \<Rightarrow>
            (case ck_section t body of
               Inl e \<Rightarrow> Inl e
             | Inr (new, p) \<Rightarrow>
                 if p \<noteq> length body then Inl (Section_Left t (length body - p))
                 else ck_sections c1 (lines @ new)))"
  by pat_completeness auto
termination by (relation "measure (\<lambda>(c, _). length (cb c) - cp c)") (auto dest!: ck_one_section_moves)

declare ck_sections.simps [simp del]

section \<open>The image\<close>

definition RITE0400 :: bytes where "RITE0400 = ascii ''RITE0400''"

definition ck_header :: "(u16 \<times> bytes) ck" where
  "ck_header = (\<lambda>c. case ck_take 4 c of
      Inl _ \<Rightarrow> Inl Not_An_Image
    | Inr (m, c1) \<Rightarrow>
        if m \<noteq> ascii ''MRCK'' then Inl Not_An_Image
        else rd_bind ck_u16 (\<lambda>version.
          if version \<noteq> FORMAT_VERSION then rd_fail (Format_Unsupported version)
          else rd_bind ck_string (\<lambda>writer. rd_bind ck_bytes (\<lambda>rite.
            if rite \<noteq> RITE0400 then rd_fail (Not_Rite_0400 rite)
            else rd_bind ck_u8 (\<lambda>ibits. rd_bind ck_u8 (\<lambda>fbits. rd_bind ck_u8 (\<lambda>utf8. rd_bind ck_u8 (\<lambda>_.
              if ibits \<noteq> 64 \<or> fbits \<noteq> 64 \<or> utf8 \<noteq> 1 then rd_fail Values_Differ else rd_ret (version, writer)))))))) c1)"

definition ck_body :: "image ck" where
  "ck_body = rd_bind ck_header (\<lambda>(version, writer). rd_bind (ck_list ck_bytes) (\<lambda>syms. rd_bind (ck_list ck_irep) (\<lambda>ireps.
     rd_bind (ck_list ck_object) (\<lambda>objs. rd_bind (ck_list ck_patch) (\<lambda>patches. rd_bind (ck_list ck_ctx) (\<lambda>ctxs.
     rd_bind ck_u32 (\<lambda>current. rd_bind ck_sched (\<lambda>sched.
       rd_ret \<lparr>im_version = version, im_writer = writer, im_syms = syms, im_ireps = ireps, im_objs = objs,
               im_patches = patches, im_ctxs = ctxs, im_current = current, im_sched = sched, im_lines = []\<rparr>))))))))"

text \<open>The source's \<open>parse\<close>.\<close>

definition parse_image :: "bytes \<Rightarrow> image_error + image" where
  "parse_image b = (case ck_body \<lparr>cb = b, cp = 0\<rparr> of
      Inl e \<Rightarrow> Inl e
    | Inr (img, c) \<Rightarrow>
        (case ck_sections c [] of
           Inl e \<Rightarrow> Inl e
         | Inr (ended, lines, c1) \<Rightarrow>
             if \<not> ended then Inl No_End_Mark
             else if cp c1 \<noteq> length b then Inl (Bytes_Left (length b - cp c1))
             else Inr (img\<lparr>im_lines := lines\<rparr>)))"

section \<open>The content hash of an irep\<close>

definition FNV_INIT :: u64 where "FNV_INIT = 0xcbf29ce484222325"
definition FNV_PRIME :: u64 where "FNV_PRIME = 0x100000001b3"

definition fnv :: "u64 \<Rightarrow> bytes \<Rightarrow> u64" where
  "fnv h bs = fold (\<lambda>b h. (h XOR ucast b) * FNV_PRIME) bs h"

definition be64_bytes :: "u64 \<Rightarrow> bytes" where
  "be64_bytes v = map (\<lambda>i. ucast (drop_bit (8 * i) v)) (rev [0..<8])"

definition fnv_u :: "u64 \<Rightarrow> u64 \<Rightarrow> u64" where
  "fnv_u h v = fnv h (be64_bytes v)"

fun hash_pool :: "pool_rec \<Rightarrow> u64 \<Rightarrow> u64" where
  "hash_pool (PoolRec_Int i) h = fnv_u (fnv_u h (ucast (byte_of CHR ''i''))) i"
| "hash_pool (PoolRec_Float f) h = fnv_u (fnv_u h (ucast (byte_of CHR ''f''))) f"
| "hash_pool (PoolRec_BigInt b) h = fnv (fnv_u (fnv_u h (ucast (byte_of CHR ''b''))) (of_nat (length b))) b"
| "hash_pool (PoolRec_Str s) h = fnv (fnv_u (fnv_u h (ucast (byte_of CHR ''s''))) (of_nat (length s))) s"

text \<open>Entry \<open>i\<close> of a table that counts from 1.\<close>

definition from1 :: "'a list \<Rightarrow> u32 \<Rightarrow> 'a option" where
  "from1 xs i = (if i = 0 then None else if unat i - 1 < length xs then Some (xs ! (unat i - 1)) else None)"

definition hash_sym :: "image \<Rightarrow> u32 \<Rightarrow> u64 \<Rightarrow> u64" where
  "hash_sym img s h = (case from1 (im_syms img) s of
      None \<Rightarrow> fnv_u h (- 1)
    | Some name \<Rightarrow> fnv (fnv_u h (of_nat (length name))) name)"

definition hash_rep :: "image \<Rightarrow> u32 \<Rightarrow> u64 \<Rightarrow> u64" where
  "hash_rep img c h = fnv_u h (case from1 (im_ireps img) c of None \<Rightarrow> 0 | Some r \<Rightarrow> irr_hash r)"

definition irep_hash :: "image \<Rightarrow> irep_rec \<Rightarrow> u64" where
  "irep_hash img r =
     (let h = fold (\<lambda>v h. fnv_u h v) [ucast (irr_nlocals r), ucast (irr_nregs r), ucast (irr_clen r), of_nat (length (irr_iseq r))] FNV_INIT;
          h = fnv h (irr_iseq r);
          h = fnv h (irr_catch r);
          h = fnv_u h (of_nat (length (irr_pool r)));
          h = fold hash_pool (irr_pool r) h;
          h = fnv_u h (of_nat (length (irr_syms r)));
          h = fold (hash_sym img) (irr_syms r) h;
          h = fnv_u h (of_nat (length (irr_reps r)))
      in fold (hash_rep img) (irr_reps r) h)"

end
