(* ===== verification/ImageSafe.thy ===== *)
theory ImageSafe
  imports Image
begin

text \<open>
  What every reader of \<open>src/checkpoint/image.rs\<close> keeps: it moves forward within the bytes (\<open>advances\<close>), and what it makes of
  them does not depend on what follows (\<open>settled\<close>). So an image that is accepted ends where its bytes end: no proper part of
  it and nothing longer is accepted.
\<close>

section \<open>Moving forward\<close>

lemma adv_take [adv]: "advances 0 (ck_take n)"
  by (auto simp: advances_def ck_take_def split: if_splits)

lemma adv_guard: "advances n m \<Longrightarrow> advances n (\<lambda>c. if P c then Inl (e c) else m c)"
proof -
  assume m: "advances n m"
  have "m c = Inr (x, c')" if "(if P c then Inl (e c) else m c) = Inr (x, c')" for c x c'
    using that by (cases "P c") simp_all
  then show ?thesis using m unfolding advances_def by blast
qed

lemma adv_u32: "advances 0 ck_u32"
  unfolding ck_u32_def by (intro adv)

lemma adv_small [adv]: "advances 0 m \<Longrightarrow> advances 0 (ck_small_list m)"
  unfolding ck_small_list_def by (rule adv_bind0 [OF adv_u32], rule adv_guard, rule adv_times)

lemma adv_basic [adv]:
  "advances 0 ck_u8" "advances 0 ck_u16" "advances 0 ck_u32" "advances 0 ck_u64" "advances 0 ck_bytes" "advances 0 ck_bool"
  by (simp_all add: ck_u8_def ck_u16_def ck_u32_def ck_u64_def ck_bytes_def ck_bool_def adv)

lemma adv_string [adv]: "advances 0 ck_string"
  unfolding ck_string_def by (intro adv; simp add: adv)

lemma adv_lists [adv]:
  "advances 0 m \<Longrightarrow> advances 0 (ck_list m)" "advances 0 m \<Longrightarrow> advances 0 (ck_list16 m)"
  "advances 0 m \<Longrightarrow> advances 0 k \<Longrightarrow> advances 0 (ck_pair m k)"
  by (simp_all add: ck_list_def ck_list16_def ck_pair_def adv)

lemma adv_choice [adv]: "advances 0 m \<Longrightarrow> advances 0 k \<Longrightarrow> advances 0 (if P then m else k)"
  by simp

lemma adv_val [adv]: "advances 0 ck_val"
  unfolding ck_val_def by (intro adv)

lemma adv_ivars [adv]: "advances 0 ck_ivars" and adv_head [adv]: "advances 0 ck_head"
  and adv_method [adv]: "advances 0 ck_method" and adv_pool [adv]: "advances 0 ck_pool"
  unfolding ck_ivars_def ck_head_def ck_method_def ck_pool_def by (intro adv)+

lemma adv_irep [adv]: "advances 0 ck_irep"
  unfolding ck_irep_def by (intro adv)

lemma adv_object [adv]: "advances 0 ck_object"
  unfolding ck_object_def ck_object_of_def ck_class_def ck_proc_def ck_env_def by (intro adv)

lemma adv_patch [adv]: "advances 0 ck_patch"
  unfolding ck_patch_def ck_contents_def by (intro adv)

lemma adv_frame [adv]: "advances 0 ck_frame" and adv_wait [adv]: "advances 0 (ck_wait reason)"
  unfolding ck_frame_def ck_wait_def by (intro adv)+

lemma adv_ctx [adv]: "advances 0 ck_ctx" and adv_task [adv]: "advances 0 ck_task"
  unfolding ck_ctx_def ck_task_def by (intro adv)+

lemma adv_sched [adv]: "advances 0 ck_sched" and adv_part [adv]: "advances 0 ck_part"
  unfolding ck_sched_def ck_part_def by (intro adv)+

lemma adv_lines [adv]: "advances 0 ck_lines"
  unfolding ck_lines_def by (intro adv)

section \<open>What follows does not matter\<close>

definition settled :: "('e, 'a) crd \<Rightarrow> bool" where
  "settled m \<longleftrightarrow> (\<forall>b p x c. m \<lparr>cb = b, cp = p\<rparr> = Inr (x, c) \<longrightarrow>
     cb c = b \<and> p \<le> cp c \<and> (\<forall>t. m \<lparr>cb = b @ t, cp = p\<rparr> = Inr (x, \<lparr>cb = b @ t, cp = cp c\<rparr>)))"

named_theorems stl

lemma settled_ret [stl]: "settled (rd_ret x)"
  by (auto simp: settled_def rd_ret_def)

lemma settled_fail [stl]: "settled (rd_fail e)"
  by (simp add: settled_def rd_fail_def)

lemma settledD:
  assumes "settled m" "m c = Inr (x, c')"
  shows "cb c' = cb c" "cp c \<le> cp c'" "m (c\<lparr>cb := cb c @ t\<rparr>) = Inr (x, c'\<lparr>cb := cb c @ t\<rparr>)"
  using assms(1) [unfolded settled_def, rule_format, of "cb c" "cp c" x c'] assms(2)
  by (cases c; cases c'; simp)+

lemma settled_bind [stl]:
  assumes "settled m" "\<And>x. settled (f x)"
  shows "settled (rd_bind m f)"
  unfolding settled_def
proof (intro allI impI)
  fix b p x c
  assume r: "rd_bind m f \<lparr>cb = b, cp = p\<rparr> = Inr (x, c)"
  then obtain y c1 where m: "m \<lparr>cb = b, cp = p\<rparr> = Inr (y, c1)" and f: "f y c1 = Inr (x, c)"
    by (auto simp: rd_bind_def split: sum.splits)
  note m' = settledD [OF assms(1) m, simplified] and f' = settledD [OF assms(2) f]
  have c1: "c1\<lparr>cb := b @ t\<rparr> = \<lparr>cb = b @ t, cp = cp c1\<rparr>" "c\<lparr>cb := b @ t\<rparr> = \<lparr>cb = b @ t, cp = cp c\<rparr>" for t
    by (cases c1; simp) (cases c; simp)
  have "rd_bind m f \<lparr>cb = b @ t, cp = p\<rparr> = Inr (x, \<lparr>cb = b @ t, cp = cp c\<rparr>)" for t
    using m'(3) [of t] f'(3) [of t] m'(1) c1 by (simp add: rd_bind_def)
  then show "cb c = b \<and> p \<le> cp c \<and> (\<forall>t. rd_bind m f \<lparr>cb = b @ t, cp = p\<rparr> = Inr (x, \<lparr>cb = b @ t, cp = cp c\<rparr>))"
    using m'(1,2) f'(1,2) by auto
qed

lemma settled_times [stl]: "settled m \<Longrightarrow> settled (rd_times n m)"
  by (induction n) (auto intro!: stl)

lemma settled_if [stl]: "settled m \<Longrightarrow> settled k \<Longrightarrow> settled (if P then m else k)"
  by simp

lemma settled_take [stl]: "settled (ck_take n)"
  by (auto simp: settled_def ck_take_def split: if_splits)

text \<open>A check that only passes on more bytes.\<close>

lemma settled_guard:
  assumes m: "settled m" and P: "\<And>b t p. P \<lparr>cb = b @ t, cp = p\<rparr> \<Longrightarrow> P \<lparr>cb = b, cp = p\<rparr>"
  shows "settled (\<lambda>c. if P c then Inl (e c) else m c)"
  unfolding settled_def
proof (intro allI impI)
  fix b p x c
  assume r: "(if P \<lparr>cb = b, cp = p\<rparr> then Inl (e \<lparr>cb = b, cp = p\<rparr>) else m \<lparr>cb = b, cp = p\<rparr>) = Inr (x, c)"
  then have n: "\<not> P \<lparr>cb = b, cp = p\<rparr>" by (cases "P \<lparr>cb = b, cp = p\<rparr>") simp_all
  with r have "m \<lparr>cb = b, cp = p\<rparr> = Inr (x, c)" by simp
  moreover have "\<not> P \<lparr>cb = b @ t, cp = p\<rparr>" for t using n P [of b t p] by blast
  ultimately show "cb c = b \<and> p \<le> cp c \<and>
      (\<forall>t. (if P \<lparr>cb = b @ t, cp = p\<rparr> then Inl (e \<lparr>cb = b @ t, cp = p\<rparr>) else m \<lparr>cb = b @ t, cp = p\<rparr>) =
        Inr (x, \<lparr>cb = b @ t, cp = cp c\<rparr>))"
    using m unfolding settled_def by simp
qed

text \<open>Another error in the same cases changes nothing.\<close>

lemma settled_errors:
  assumes m: "settled m" and same: "\<And>c y. k c = Inr y \<longleftrightarrow> m c = Inr y"
  shows "settled k"
  using m unfolding settled_def same .

lemma settled_basic [stl]:
  "settled ck_u8" "settled ck_u16" "settled ck_u32" "settled ck_u64" "settled ck_bytes" "settled ck_bool"
  by (simp_all add: ck_u8_def ck_u16_def ck_u32_def ck_u64_def ck_bytes_def ck_bool_def stl)

lemma settled_small [stl]: "settled m \<Longrightarrow> settled (ck_small_list m)"
  unfolding ck_small_list_def by (intro settled_bind settled_guard stl) auto

lemma settled_string [stl]: "settled ck_string"
  unfolding ck_string_def by (intro stl)

lemma settled_lists [stl]:
  "settled m \<Longrightarrow> settled (ck_list m)" "settled m \<Longrightarrow> settled (ck_list16 m)"
  "settled m \<Longrightarrow> settled k \<Longrightarrow> settled (ck_pair m k)"
  by (simp_all add: ck_list_def ck_list16_def ck_pair_def stl)

lemma settled_val [stl]: "settled ck_val"
  unfolding ck_val_def by (intro stl)

lemma settled_ivars [stl]: "settled ck_ivars" and settled_head [stl]: "settled ck_head"
  and settled_method [stl]: "settled ck_method" and settled_pool [stl]: "settled ck_pool"
  unfolding ck_ivars_def ck_head_def ck_method_def ck_pool_def by (intro stl)+

lemma settled_irep [stl]: "settled ck_irep"
  unfolding ck_irep_def by (intro stl)

lemma settled_object [stl]: "settled ck_object"
  unfolding ck_object_def ck_object_of_def ck_class_def ck_proc_def ck_env_def by (intro stl)

lemma settled_patch [stl]: "settled ck_patch"
  unfolding ck_patch_def ck_contents_def by (intro stl)

lemma settled_frame [stl]: "settled ck_frame" and settled_wait [stl]: "settled (ck_wait reason)"
  unfolding ck_frame_def ck_wait_def by (intro stl)+

lemma settled_ctx [stl]: "settled ck_ctx" and settled_task [stl]: "settled ck_task"
  unfolding ck_ctx_def ck_task_def by (intro stl)+

lemma settled_sched [stl]: "settled ck_sched"
  unfolding ck_sched_def by (intro stl)

lemma settled_header [stl]: "settled ck_header"
proof -
  define rest :: "(u16 \<times> bytes) ck" where "rest = rd_bind ck_u16 (\<lambda>version.
          if version \<noteq> FORMAT_VERSION then rd_fail (Format_Unsupported version)
          else rd_bind ck_string (\<lambda>writer. rd_bind ck_bytes (\<lambda>rite.
            if rite \<noteq> RITE0400 then rd_fail (Not_Rite_0400 rite)
            else rd_bind ck_u8 (\<lambda>ibits. rd_bind ck_u8 (\<lambda>fbits. rd_bind ck_u8 (\<lambda>utf8. rd_bind ck_u8 (\<lambda>_.
              if ibits \<noteq> 64 \<or> fbits \<noteq> 64 \<or> utf8 \<noteq> 1 then rd_fail Values_Differ else rd_ret (version, writer))))))))"
  have s: "settled (rd_bind (ck_take 4) (\<lambda>m. if m \<noteq> ascii ''MRCK'' then rd_fail Not_An_Image else rest))"
    unfolding rest_def by (intro stl)
  have "ck_header c = Inr y \<longleftrightarrow> rd_bind (ck_take 4) (\<lambda>m. if m \<noteq> ascii ''MRCK'' then rd_fail Not_An_Image else rest) c = Inr y" for c y
    unfolding ck_header_def rd_bind_def [of "ck_take 4"] rest_def [symmetric]
    by (cases "ck_take 4 c") (simp_all add: rd_fail_def split_def)
  then show ?thesis by (rule settled_errors [OF s])
qed

lemma settled_body [stl]: "settled ck_body"
  unfolding ck_body_def by (intro stl; simp add: split_def; intro stl)

lemma settled_one_section [stl]: "settled ck_one_section"
  unfolding ck_one_section_def by (intro stl settled_guard) auto

section \<open>The whole image\<close>

lemma ck_sections_more:
  "ck_sections c lines = Inr (True, ls, c1) \<Longrightarrow>
     cb c1 = cb c \<and> ck_sections (c\<lparr>cb := cb c @ t\<rparr>) lines = Inr (True, ls, c1\<lparr>cb := cb c @ t\<rparr>)"
proof (induction c lines rule: ck_sections.induct)
  case (1 c lines)
  let ?c = "c\<lparr>cb := cb c @ t\<rparr>"
  from "1.prems" have len: "\<not> length (cb c) - cp c < 4" by (subst (asm) ck_sections.simps) (simp split: if_splits)
  then have len': "\<not> length (cb ?c) - cp ?c < 4" by simp
  from "1.prems" len obtain r c2 where one: "ck_one_section c = Inr (r, c2)"
    by (subst (asm) ck_sections.simps) (auto split: sum.splits)
  note one' = settledD [OF settled_one_section one]
  show ?case
  proof (cases r)
    case None
    then show ?thesis using "1.prems" one one' len len' by (simp add: ck_sections.simps [of c] ck_sections.simps [of ?c])
  next
    case (Some tb)
    obtain k body where tb: "tb = (k, body)" by (cases tb)
    from "1.prems" one Some tb len obtain new p where sec: "ck_section k body = Inr (new, p)" "p = length body"
      "ck_sections c2 (lines @ new) = Inr (True, ls, c1)"
      by (subst (asm) ck_sections.simps) (auto split: sum.splits if_splits)
    have "cb c1 = cb c2 \<and> ck_sections (c2\<lparr>cb := cb c2 @ t\<rparr>) (lines @ new) = Inr (True, ls, c1\<lparr>cb := cb c2 @ t\<rparr>)"
      using "1.IH" len one Some tb sec by simp
    then show ?thesis using one' one Some tb sec len' by (simp add: ck_sections.simps [of ?c])
  qed
qed

lemma parse_image_longer:
  assumes "parse_image b = Inr img"
  shows "parse_image (b @ t) = (if t = [] then Inr img else Inl (Bytes_Left (length t)))"
proof -
  from assms obtain im c lines c1 where body: "ck_body \<lparr>cb = b, cp = 0\<rparr> = Inr (im, c)"
    and sec: "ck_sections c [] = Inr (True, lines, c1)" and "end": "cp c1 = length b" and img: "img = im\<lparr>im_lines := lines\<rparr>"
    by (auto simp: parse_image_def split: sum.splits if_splits)
  have body': "ck_body \<lparr>cb = b @ t, cp = 0\<rparr> = Inr (im, c\<lparr>cb := b @ t\<rparr>)" and cb: "cb c = b"
    using settledD [OF settled_body body] by simp_all
  moreover have "cb c1 = b" "ck_sections (c\<lparr>cb := b @ t\<rparr>) [] = Inr (True, lines, c1\<lparr>cb := b @ t\<rparr>)"
    using ck_sections_more [OF sec, of t] cb by simp_all
  ultimately show ?thesis using "end" img by (simp add: parse_image_def)
qed

lemma parse_image_shorter:
  assumes "parse_image b = Inr img" "k < length b"
  shows "\<exists>e. parse_image (take k b) = Inl e"
proof (cases "parse_image (take k b)")
  case (Inr img')
  have "parse_image (take k b @ drop k b) = Inl (Bytes_Left (length (drop k b)))"
    using parse_image_longer [OF Inr, of "drop k b"] assms(2) by simp
  then show ?thesis using assms(1) by simp
qed simp

end
