(* ===== verification/ImageRound.thy ===== *)
theory ImageRound
  imports ImageSafe
begin

text \<open>
  The layout of a checkpoint image written down as a writer, and the proof that \<open>parse\<close> of \<open>src/checkpoint/image.rs\<close> reads it
  back: every symbol, irep, object, change, context, Task and line number. A number of items fits its count, a name is
  UTF-8; a section the reader does not know may stand before the end mark.
\<close>

section \<open>The cursor\<close>

lemma read_take [rds]: "length bs = n \<Longrightarrow> reads (ck_take n) bs bs"
  by (auto simp: reads_def ck_take_def)

lemma readsD: "reads m bs x \<Longrightarrow> m \<lparr>cb = pre @ bs @ post, cp = length pre\<rparr> =
    Inr (x, \<lparr>cb = pre @ bs @ post, cp = length pre + length bs\<rparr>)"
  by (simp add: reads_def)

lemma reads_map: "reads m bs x \<Longrightarrow> reads (rd_bind m (\<lambda>x. rd_ret (f x))) bs (f x)"
  using reads_bind [of m bs x "\<lambda>x. rd_ret (f x)" "[]" "f x"] by (simp add: reads_ret)

lemma reads_last: "reads m bs x \<Longrightarrow> f x = y \<Longrightarrow> reads (rd_bind m (\<lambda>x. rd_ret (f x))) bs y"
  using reads_map [of m bs x f] by simp

lemma reads_first: "reads m [b] x \<Longrightarrow> reads (f x) bs y \<Longrightarrow> reads (rd_bind m f) (b # bs) y"
  using reads_bind [of m "[b]" x f bs y] by simp

lemma read_u8 [rds]: "reads ck_u8 [b] b"
  unfolding ck_u8_def using reads_map [OF read_take [of "[b]" 1], of "\<lambda>s. s ! 0"] by simp

lemma read_u16 [rds]: "reads ck_u16 (put16 v) v"
  unfolding ck_u16_def using reads_map [OF read_take [of "put16 v" 2], of "\<lambda>s. be16 (s ! 0) (s ! 1)"]
  by (simp add: put16_def be16_put)

lemma read_u32 [rds]: "reads ck_u32 (put32 v) v"
  unfolding ck_u32_def
  using reads_map [OF read_take [of "put32 v" 4], of "\<lambda>s. be32 (s ! 0) (s ! 1) (s ! 2) (s ! 3)"]
  by (simp add: put32_def be32_put)

definition put64 :: "u64 \<Rightarrow> bytes" where
  "put64 v = put32 (ucast (drop_bit 32 v)) @ put32 (ucast v)"

lemma join64: "push_bit 32 (ucast (ucast (drop_bit 32 v) :: u32)) OR ucast (ucast v :: u32) = (v :: u64)"
  by (rule bit_word_eqI) (auto simp: bit_simps)

lemma read_u64 [rds]: "reads ck_u64 (put64 v) v"
  unfolding ck_u64_def put64_def by (rule reads_bind [OF read_u32], rule reads_last [OF read_u32]) (rule join64)

definition put_bool :: "bool \<Rightarrow> u8" where
  "put_bool x = (if x then 1 else 0)"

lemma read_bool [rds]: "reads ck_bool [put_bool x] x"
  unfolding ck_bool_def by (rule reads_last [OF read_u8]) (simp add: put_bool_def)

definition put_bytes :: "bytes \<Rightarrow> bytes" where
  "put_bytes s = put32 (of_nat (length s)) @ s"

definition short_bytes :: "bytes \<Rightarrow> bool" where
  "short_bytes s \<longleftrightarrow> length s < 2 ^ 32"

definition name_ok :: "bytes \<Rightarrow> bool" where
  "name_ok s \<longleftrightarrow> short_bytes s \<and> utf8_valid s"

lemma read_bytes: "short_bytes s \<Longrightarrow> reads ck_bytes (put_bytes s) s"
  unfolding ck_bytes_def put_bytes_def short_bytes_def
  by (rule reads_bind [OF read_u32], rule read_take) (simp add: unat_of_nat32)

lemma read_string: "name_ok s \<Longrightarrow> reads ck_string (put_bytes s) s"
  unfolding ck_string_def name_ok_def
  using reads_bind [OF read_bytes [of s], of "\<lambda>b. if utf8_valid b then rd_ret b else rd_fail Name_Not_Utf8" "[]" s]
  by (simp add: reads_ret)

text \<open>Counted runs of an item of the format.\<close>

definition put_list :: "('a \<Rightarrow> bytes) \<Rightarrow> 'a list \<Rightarrow> bytes" where
  "put_list put xs = put32 (of_nat (length xs)) @ concat (map put xs)"

definition put_list16 :: "('a \<Rightarrow> bytes) \<Rightarrow> 'a list \<Rightarrow> bytes" where
  "put_list16 put xs = put16 (of_nat (length xs)) @ concat (map put xs)"

definition list_ok :: "('a \<Rightarrow> bool) \<Rightarrow> 'a list \<Rightarrow> bool" where
  "list_ok ok xs \<longleftrightarrow> length xs < 2 ^ 32 \<and> list_all ok xs"

definition list16_ok :: "('a \<Rightarrow> bool) \<Rightarrow> 'a list \<Rightarrow> bool" where
  "list16_ok ok xs \<longleftrightarrow> length xs < 2 ^ 16 \<and> list_all ok xs"

text \<open>A list the reader measures against the image: its items take room.\<close>

lemma reads_small:
  assumes "reads (rd_times (length xs) m) bs xs" "length xs < 2 ^ 32" "length xs \<le> length bs"
  shows "reads (ck_small_list m) (put32 (of_nat (length xs)) @ bs) xs"
  unfolding ck_small_list_def
proof (rule reads_bind [OF read_u32])
  show "reads (\<lambda>c. if unat (of_nat (length xs) :: u32) > length (cb c) then Inl Truncated_Image
      else rd_times (unat (of_nat (length xs) :: u32)) m c) bs xs"
    using assms by (simp add: reads_def unat_of_nat32)
qed

locale image_item = item_format get put ok
  for get :: "'a ck" and put :: "'a \<Rightarrow> bytes" and ok :: "'a \<Rightarrow> bool"
begin

lemma read_list: "list_ok ok xs \<Longrightarrow> reads (ck_list get) (put_list put xs) xs"
  unfolding ck_list_def put_list_def list_ok_def
  by (rule reads_bind [OF read_u32]) (simp add: unat_of_nat32 reads_times list_all_iff)

lemma read_list16: "list16_ok ok xs \<Longrightarrow> reads (ck_list16 get) (put_list16 put xs) xs"
  unfolding ck_list16_def put_list16_def list16_ok_def
  by (rule reads_bind [OF read_u16]) (simp add: unat_of_nat16 reads_times list_all_iff)

lemma read_small:
  assumes "list_ok ok xs" "\<And>x. put x \<noteq> []"
  shows "reads (ck_small_list get) (put_list put xs) xs"
proof -
  have "1 \<le> length (put x)" for x using assms(2) [of x] by (simp add: Suc_le_eq)
  then have "length xs \<le> length (concat (map put xs))"
    by (induction xs) (auto intro: add_mono order_trans)
  then show ?thesis
    unfolding put_list_def using assms(1) by (intro reads_small reads_times) (auto simp: list_ok_def list_all_iff)
qed

end

interpretation u32_item: image_item ck_u32 put32 "\<lambda>_. True"
  by unfold_locales (auto intro: read_u32 adv)

interpretation bytes_item: image_item ck_bytes put_bytes short_bytes
  by unfold_locales (auto intro: read_bytes adv)

definition put_pair :: "('a \<Rightarrow> bytes) \<Rightarrow> ('b \<Rightarrow> bytes) \<Rightarrow> 'a \<times> 'b \<Rightarrow> bytes" where
  "put_pair put put' xy = put (fst xy) @ put' (snd xy)"

lemma read_pair:
  "reads m (put (fst xy)) (fst xy) \<Longrightarrow> reads k (put' (snd xy)) (snd xy) \<Longrightarrow> reads (ck_pair m k) (put_pair put put' xy) xy"
  unfolding ck_pair_def put_pair_def by (cases xy) (auto intro: reads_bind reads_last)

section \<open>Values\<close>

fun put_val :: "val \<Rightarrow> bytes" where
  "put_val Val_Nil = [0]"
| "put_val Val_False = [1]"
| "put_val Val_True = [2]"
| "put_val (Val_Int i) = 3 # put64 i"
| "put_val (Val_Float f) = 4 # put64 f"
| "put_val (Val_Sym s) = 5 # put32 s"
| "put_val (Val_Obj o') = 6 # put32 o'"
| "put_val Val_Undef = [7]"

lemma read_val [rds]: "reads ck_val (put_val v) v"
  unfolding ck_val_def
  by (cases v; simp only: put_val.simps; rule reads_first [OF read_u8]; simp; (rule reads_last, rule rds)?) (auto simp: reads_ret)

interpretation val_item: image_item ck_val put_val "\<lambda>_. True"
  by unfold_locales (auto intro: read_val adv)

interpretation ivar_item: image_item "ck_pair ck_u32 ck_val" "put_pair put32 put_val" "\<lambda>_. True"
  by unfold_locales (auto intro: read_pair read_val read_u32 adv)

interpretation entry_item: image_item "ck_pair ck_val ck_val" "put_pair put_val put_val" "\<lambda>_. True"
  by unfold_locales (auto intro: read_pair read_val adv)

interpretation line_item: image_item "ck_pair ck_u32 ck_u32" "put_pair put32 put32" "\<lambda>_. True"
  by unfold_locales (auto intro: read_pair read_u32 adv)

abbreviation "any_item \<equiv> \<lambda>_. True"

definition put_ivars :: "ivars_rec \<Rightarrow> bytes" where
  "put_ivars = put_list (put_pair put32 put_val)"

lemma read_ivars: "list_ok any_item iv \<Longrightarrow> reads ck_ivars (put_ivars iv) iv"
  unfolding ck_ivars_def put_ivars_def by (rule ivar_item.read_list)

definition put_head :: "head_rec \<Rightarrow> bytes" where
  "put_head h = put32 (hd_class h) @ [put_bool (hd_frozen h)]"

lemma read_head [rds]: "reads ck_head (put_head h) h"
  unfolding ck_head_def put_head_def by (rule reads_bind [OF read_u32], rule reads_last [OF read_bool]) simp

lemmas step = reads_first [OF read_u8] reads_bind [OF read_u16] reads_bind [OF read_u32] reads_bind [OF read_u64]
  reads_first [OF read_bool] reads_bind [OF read_val] reads_bind [OF read_head] reads_bind [OF read_bytes]
  reads_bind [OF read_string] reads_bind [OF read_ivars] reads_bind [OF read_take]

lemmas finish = reads_last [OF read_u8] reads_last [OF read_u32] reads_last [OF read_u64] reads_last [OF read_bool] reads_last [OF read_val]
  reads_last [OF read_bytes] reads_last [OF read_string] reads_last [OF read_ivars]

section \<open>Methods, ireps\<close>

fun meth_body_kind :: "meth_body \<Rightarrow> u8" where
  "meth_body_kind (MethBody_Proc p) = 0"
| "meth_body_kind (MethBody_Func f a) = 1"
| "meth_body_kind MethBody_Undef = 2"

fun put_meth_body :: "meth_body \<Rightarrow> bytes" where
  "put_meth_body (MethBody_Proc p) = put32 p"
| "put_meth_body (MethBody_Func f a) = put_bytes f @ put32 a"
| "put_meth_body MethBody_Undef = []"

fun meth_ok :: "meth_body \<Rightarrow> bool" where
  "meth_ok (MethBody_Func f a) \<longleftrightarrow> name_ok f"
| "meth_ok _ \<longleftrightarrow> True"

definition put_method :: "meth_rec \<Rightarrow> bytes" where
  "put_method m = put32 (mr_name m) @ mr_vis m # meth_body_kind (mr_body m) # put_meth_body (mr_body m)"

lemma read_method: "meth_ok (mr_body m) \<Longrightarrow> reads ck_method (put_method m) m"
  unfolding ck_method_def put_method_def
proof (intro step, goal_cases)
  case 1
  let ?k = "meth_body_kind (mr_body m)"
  have "reads (if ?k = 0 then rd_bind ck_u32 (\<lambda>p. rd_ret (MethBody_Proc p))
      else if ?k = 1 then rd_bind ck_string (\<lambda>f. rd_bind ck_u32 (\<lambda>a. rd_ret (MethBody_Func f a)))
      else if ?k = 2 then rd_ret MethBody_Undef else rd_fail (Bad_Method_Kind ?k)) (put_meth_body (mr_body m)) (mr_body m)"
    using 1 by (cases "mr_body m") (auto intro!: step finish reads_ret)
  then show ?case by (rule reads_last) simp
qed

interpretation method_item: image_item ck_method put_method "\<lambda>m. meth_ok (mr_body m)"
  by unfold_locales (auto intro: read_method adv)

fun put_pool_rec :: "pool_rec \<Rightarrow> bytes" where
  "put_pool_rec (PoolRec_Str s) = 0 # put_bytes s"
| "put_pool_rec (PoolRec_Int i) = 1 # put64 i"
| "put_pool_rec (PoolRec_Float f) = 2 # put64 f"
| "put_pool_rec (PoolRec_BigInt b) = 3 # put_bytes b"

fun pool_rec_ok :: "pool_rec \<Rightarrow> bool" where
  "pool_rec_ok (PoolRec_Str s) \<longleftrightarrow> short_bytes s"
| "pool_rec_ok (PoolRec_BigInt b) \<longleftrightarrow> short_bytes b"
| "pool_rec_ok _ \<longleftrightarrow> True"

lemma read_pool: "pool_rec_ok p \<Longrightarrow> reads ck_pool (put_pool_rec p) p"
  unfolding ck_pool_def
  by (cases p; simp only: put_pool_rec.simps; rule reads_first [OF read_u8]; simp; intro finish; simp)

interpretation pool_rec_item: image_item ck_pool put_pool_rec pool_rec_ok
  by unfold_locales (auto intro: read_pool adv)

definition put_irep :: "irep_rec \<Rightarrow> bytes" where
  "put_irep r = irr_kind r # put64 (irr_hash r) @
     (if irr_kind r = 1 then []
      else put16 (irr_nlocals r) @ put16 (irr_nregs r) @ put16 (irr_clen r) @ put32 (of_nat (length (irr_iseq r))) @
           irr_iseq r @ irr_catch r @ put_list16 put_pool_rec (irr_pool r) @ put_list16 put32 (irr_syms r) @
           put_list16 put32 (irr_reps r) @ put_list16 put32 (irr_lv r))"

definition irep_ok :: "irep_rec \<Rightarrow> bool" where
  "irep_ok r \<longleftrightarrow>
     (if irr_kind r = 1 then
        irr_nlocals r = 0 \<and> irr_nregs r = 0 \<and> irr_clen r = 0 \<and> irr_iseq r = [] \<and> irr_catch r = [] \<and> irr_pool r = []
        \<and> irr_syms r = [] \<and> irr_reps r = [] \<and> irr_lv r = []
      else (irr_kind r = 0 \<or> irr_kind r = 2) \<and> short_bytes (irr_iseq r) \<and> length (irr_catch r) = 13 * unat (irr_clen r)
        \<and> list16_ok pool_rec_ok (irr_pool r) \<and> list16_ok any_item (irr_syms r) \<and> list16_ok any_item (irr_reps r)
        \<and> list16_ok any_item (irr_lv r))"

lemma read_irep: "irep_ok r \<Longrightarrow> reads ck_irep (put_irep r) r"
  unfolding ck_irep_def put_irep_def
proof (intro step, goal_cases)
  case 1
  consider "irr_kind r = 1" | "irr_kind r \<noteq> 1" "irr_kind r = 0 \<or> irr_kind r = 2" using 1 by (auto simp: irep_ok_def)
  then show ?case
  proof cases
    case k: 1
    have "r = \<lparr>irr_kind = 1, irr_hash = irr_hash r, irr_nlocals = 0, irr_nregs = 0, irr_clen = 0, irr_iseq = [],
               irr_catch = [], irr_pool = [], irr_syms = [], irr_reps = [], irr_lv = []\<rparr>"
      using 1 k by (cases r) (simp add: irep_ok_def)
    then show ?thesis using k reads_ret [of r] by simp
  next
    case k: 2
    have ok: "short_bytes (irr_iseq r)" "length (irr_catch r) = 13 * unat (irr_clen r)"
      "list16_ok pool_rec_ok (irr_pool r)" "list16_ok any_item (irr_syms r)" "list16_ok any_item (irr_reps r)" "list16_ok any_item (irr_lv r)"
      using 1 k by (auto simp: irep_ok_def)
    show ?thesis
      unfolding if_not_P [OF k(1)] if_P [OF k(2)]
      by (intro step reads_bind [OF pool_rec_item.read_list16] reads_bind [OF u32_item.read_list16]
          reads_last [OF u32_item.read_list16])
        (use ok in \<open>auto simp: short_bytes_def unat_of_nat32\<close>)
  qed
qed

interpretation irep_item: image_item ck_irep put_irep irep_ok
  by unfold_locales (auto intro: read_irep adv)

section \<open>Objects\<close>

fun proc_body_kind :: "proc_body \<Rightarrow> u8" where
  "proc_body_kind (ProcBody_Irep i) = 0"
| "proc_body_kind (ProcBody_Func f) = 1"
| "proc_body_kind (ProcBody_Alias a) = 2"

text \<open>The argument spec of a function is read past; here it is 0.\<close>

fun put_proc_body :: "proc_body \<Rightarrow> bytes" where
  "put_proc_body (ProcBody_Irep i) = put32 i"
| "put_proc_body (ProcBody_Func f) = put_bytes f @ put32 0"
| "put_proc_body (ProcBody_Alias a) = put32 a"

fun proc_body_ok :: "proc_body \<Rightarrow> bool" where
  "proc_body_ok (ProcBody_Func f) \<longleftrightarrow> name_ok f"
| "proc_body_ok _ \<longleftrightarrow> True"

lemma read_proc_body:
  assumes "proc_body_ok body"
  shows "reads (if proc_body_kind body = 0 then rd_bind ck_u32 (\<lambda>i. rd_ret (ProcBody_Irep i))
      else if proc_body_kind body = 1 then rd_bind ck_string (\<lambda>f. rd_bind ck_u32 (\<lambda>_. rd_ret (ProcBody_Func f)))
      else if proc_body_kind body = 2 then rd_bind ck_u32 (\<lambda>a. rd_ret (ProcBody_Alias a))
      else rd_fail (Bad_Proc_Body (proc_body_kind body))) (put_proc_body body) body"
  using assms by (cases body) (auto intro!: step finish)

lemma read_proc:
  assumes "proc_body_ok body"
  shows "reads (ck_proc head) (flags # proc_body_kind body # put_proc_body body @ put32 upper @ k # put32 env)
    (Rec_Proc head flags body upper k env)"
  unfolding ck_proc_def by (intro step reads_bind [OF read_proc_body] finish) (use assms in auto)

fun put_place :: "env_place \<Rightarrow> bytes" where
  "put_place (EnvPlace_Stack cx at) = 1 # put32 cx @ put32 at"
| "put_place (EnvPlace_Values vs) = 0 # concat (map put_val vs)"

fun place_ok :: "u8 \<Rightarrow> env_place \<Rightarrow> bool" where
  "place_ok len (EnvPlace_Values vs) \<longleftrightarrow> length vs = unat len"
| "place_ok len _ \<longleftrightarrow> True"

lemma read_env:
  assumes "place_ok len place"
  shows "reads (ck_env head) (put32 mid @ len # bidx # vis # put_place place) (Rec_Env head mid len bidx vis place)"
  unfolding ck_env_def
proof (intro step, cases place)
  case (EnvPlace_Stack cx at)
  show "reads (rd_bind ck_u8 (\<lambda>k. rd_bind (if k = 1 then rd_bind ck_u32 (\<lambda>cx. rd_bind ck_u32 (\<lambda>at. rd_ret (EnvPlace_Stack cx at)))
      else rd_bind (rd_times (unat len) ck_val) (\<lambda>vs. rd_ret (EnvPlace_Values vs)))
       (\<lambda>place. rd_ret (Rec_Env head mid len bidx vis place)))) (put_place place) (Rec_Env head mid len bidx vis place)"
    unfolding EnvPlace_Stack put_place.simps
    by (rule reads_first [OF read_u8], simp, rule reads_last [of _ _ "EnvPlace_Stack cx at"]) (auto intro!: step finish)
next
  case (EnvPlace_Values vs)
  have "reads (rd_times (unat len) ck_val) (concat (map put_val vs)) vs"
    using assms val_item.reads_times [of vs] EnvPlace_Values by simp
  then show "reads (rd_bind ck_u8 (\<lambda>k. rd_bind (if k = 1 then rd_bind ck_u32 (\<lambda>cx. rd_bind ck_u32 (\<lambda>at. rd_ret (EnvPlace_Stack cx at)))
      else rd_bind (rd_times (unat len) ck_val) (\<lambda>vs. rd_ret (EnvPlace_Values vs)))
       (\<lambda>place. rd_ret (Rec_Env head mid len bidx vis place)))) (put_place place) (Rec_Env head mid len bidx vis place)"
    unfolding EnvPlace_Values put_place.simps
    by (intro reads_first [OF read_u8], simp) (intro reads_last [of _ _ "EnvPlace_Values vs"] reads_last [of _ _ vs], simp_all)
qed

fun put_object :: "obj_rec \<Rightarrow> bytes" where
  "put_object (Rec_Perm n) = 1 # put_bytes n"
| "put_object (Rec_PermBody n i) = 15 # put_bytes n @ put32 i"
| "put_object (Rec_Object h iv) = 2 # put_head h @ put_ivars iv"
| "put_object (Rec_Str h s) = 3 # put_head h @ put_bytes s"
| "put_object (Rec_BinStr h s) = 25 # put_head h @ put_bytes s"
| "put_object (Rec_Array h vs) = 4 # put_head h @ put_list put_val vs"
| "put_object (Rec_Hash h flags ps iv) = 5 # put_head h @ flags # put_list (put_pair put_val put_val) ps @ put_ivars iv"
| "put_object (Rec_Range h b e x) = 6 # put_head h @ put_val b @ put_val e @ [put_bool x]"
| "put_object (Rec_Exception h m bt iv) = 7 # put_head h @ put_val m @ put_val bt @ put_ivars iv"
| "put_object (Rec_Class h kind super inst cflags iv ms) =
     kind # put_head h @ put32 super @ inst # cflags # put_ivars iv @ put_list put_method ms"
| "put_object (Rec_IClass h super) = 11 # put_head h @ put32 super"
| "put_object (Rec_Proc h flags body upper k env) =
     12 # put_head h @ flags # proc_body_kind body # put_proc_body body @ put32 upper @ k # put32 env"
| "put_object (Rec_Env h mid len bidx vis place) = 13 # put_head h @ put32 mid @ len # bidx # vis # put_place place"
| "put_object (Rec_Data h t b iv) = 14 # put_head h @ put_bytes t @ put_bytes b @ put_ivars iv"
| "put_object (Rec_Task h t iv) = 26 # put_head h @ put32 t @ put_ivars iv"
| "put_object (Rec_Fiber h cx) = 27 # put_head h @ put32 cx"

fun object_ok :: "obj_rec \<Rightarrow> bool" where
  "object_ok (Rec_Perm n) \<longleftrightarrow> name_ok n"
| "object_ok (Rec_PermBody n i) \<longleftrightarrow> name_ok n"
| "object_ok (Rec_Object h iv) \<longleftrightarrow> list_ok any_item iv"
| "object_ok (Rec_Str h s) \<longleftrightarrow> short_bytes s"
| "object_ok (Rec_BinStr h s) \<longleftrightarrow> short_bytes s"
| "object_ok (Rec_Array h vs) \<longleftrightarrow> list_ok any_item vs"
| "object_ok (Rec_Hash h flags ps iv) \<longleftrightarrow> list_ok any_item ps \<and> list_ok any_item iv"
| "object_ok (Rec_Exception h m bt iv) \<longleftrightarrow> list_ok any_item iv"
| "object_ok (Rec_Class h kind super inst cflags iv ms) \<longleftrightarrow>
     (kind = 8 \<or> kind = 9 \<or> kind = 10) \<and> list_ok any_item iv \<and> list_ok (\<lambda>m. meth_ok (mr_body m)) ms"
| "object_ok (Rec_Proc h flags body upper k env) \<longleftrightarrow> proc_body_ok body"
| "object_ok (Rec_Env h mid len bidx vis place) \<longleftrightarrow> place_ok len place"
| "object_ok (Rec_Data h t b iv) \<longleftrightarrow> name_ok t \<and> short_bytes b \<and> list_ok any_item iv"
| "object_ok (Rec_Task h t iv) \<longleftrightarrow> list_ok any_item iv"
| "object_ok _ \<longleftrightarrow> True"

lemma reads_object_of:
  assumes "kind \<noteq> 1" "kind \<noteq> 15" "reads (ck_object_of kind h) bs r"
  shows "reads ck_object (kind # put_head h @ bs) r"
  unfolding ck_object_def by (rule reads_first [OF read_u8]) (use assms in \<open>simp add: reads_bind [OF read_head]\<close>)

lemma read_class:
  assumes "list_ok any_item iv" "list_ok (\<lambda>m. meth_ok (mr_body m)) ms"
  shows "reads (ck_class kind h) (put32 super @ inst # cflags # put_ivars iv @ put_list put_method ms)
    (Rec_Class h kind super inst cflags iv ms)"
  unfolding ck_class_def by (intro step reads_last [OF method_item.read_list]) (use assms in auto)

lemma read_object: "object_ok r \<Longrightarrow> reads ck_object (put_object r) r"
proof (cases r)
  case (Rec_Perm n)
  then show "object_ok r \<Longrightarrow> reads ck_object (put_object r) r"
    unfolding ck_object_def by (simp, intro reads_first [OF read_u8]) (auto intro!: finish)
next
  case (Rec_PermBody n i)
  then show "object_ok r \<Longrightarrow> reads ck_object (put_object r) r"
    unfolding ck_object_def by (simp, intro reads_first [OF read_u8]) (auto intro!: step finish)
next
  case (Rec_Class h kind super inst cflags iv ms)
  then show "object_ok r \<Longrightarrow> reads ck_object (put_object r) r"
    using read_class [of iv ms kind h super inst cflags]
    by (auto intro!: reads_object_of simp: ck_object_of_def)
next
  case (Rec_Proc h flags body upper k env)
  then show "object_ok r \<Longrightarrow> reads ck_object (put_object r) r"
    using read_proc [of body] by (auto intro!: reads_object_of simp: ck_object_of_def)
next
  case (Rec_Env h mid len bidx vis place)
  then show "object_ok r \<Longrightarrow> reads ck_object (put_object r) r"
    using read_env [of len place] by (auto intro!: reads_object_of simp: ck_object_of_def)
qed (simp; (rule reads_object_of, simp, simp, simp add: ck_object_of_def),
  (intro step finish reads_last [OF val_item.read_list] reads_bind [OF entry_item.read_list]; simp))+

interpretation object_item: image_item ck_object put_object object_ok
  by unfold_locales (auto intro: read_object adv)

section \<open>Changes\<close>

fun put_patch :: "patch_rec \<Rightarrow> bytes" where
  "put_patch (Patch_MethodSet c m) = 1 # put32 c @ put_method m"
| "put_patch (Patch_MethodRemove c m) = 2 # put32 c @ put32 m"
| "put_patch (Patch_IvSet o' s v) = 3 # put32 o' @ put32 s @ put_val v"
| "put_patch (Patch_IvRemove o' s) = 4 # put32 o' @ put32 s"
| "put_patch (Patch_SuperSet c s) = 5 # put32 c @ put32 s"
| "put_patch (Patch_GvSet s v) = 6 # put32 s @ put_val v"
| "put_patch (Patch_GvRemove s) = 7 # put32 s"
| "put_patch (Patch_StrSet o' frozen s) = 10 # put32 o' @ put_bool frozen # 3 # put_bytes s"
| "put_patch (Patch_AryContents o' frozen vs) = 10 # put32 o' @ put_bool frozen # 4 # put_list put_val vs"

fun patch_ok :: "patch_rec \<Rightarrow> bool" where
  "patch_ok (Patch_MethodSet c m) \<longleftrightarrow> meth_ok (mr_body m)"
| "patch_ok (Patch_StrSet o' frozen s) \<longleftrightarrow> short_bytes s"
| "patch_ok (Patch_AryContents o' frozen vs) \<longleftrightarrow> list_ok any_item vs"
| "patch_ok _ \<longleftrightarrow> True"

lemma read_contents:
  "short_bytes s \<Longrightarrow> reads ck_contents (put32 o' @ put_bool frozen # 3 # put_bytes s) (Patch_StrSet o' frozen s)"
  "list_ok any_item vs \<Longrightarrow> reads ck_contents (put32 o' @ put_bool frozen # 4 # put_list put_val vs) (Patch_AryContents o' frozen vs)"
  unfolding ck_contents_def
  by (intro step; simp; intro finish reads_last [OF val_item.read_list]; simp)+

lemma read_patch: "patch_ok r \<Longrightarrow> reads ck_patch (put_patch r) r"
  unfolding ck_patch_def
  by (cases r; simp; intro reads_first [OF read_u8]; simp)
    (intro step finish reads_last [OF read_method] read_contents; simp)+

interpretation patch_item: image_item ck_patch put_patch patch_ok
  by unfold_locales (auto intro: read_patch adv)

section \<open>Contexts and the scheduler\<close>

definition put_cfunc :: "bytes option \<Rightarrow> bytes" where
  "put_cfunc f = (case f of None \<Rightarrow> [] | Some f \<Rightarrow> put_bytes f)"

definition frame_kind :: "bytes option \<Rightarrow> u8" where
  "frame_kind f = (case f of None \<Rightarrow> 0 | Some _ \<Rightarrow> 1)"

definition frame_ok :: "frame_rec \<Rightarrow> bool" where
  "frame_ok f \<longleftrightarrow> (case fr_cfunc f of None \<Rightarrow> True | Some n \<Rightarrow> name_ok n)"

definition put_frame :: "frame_rec \<Rightarrow> bytes" where
  "put_frame f = frame_kind (fr_cfunc f) # put32 (fr_mid f) @ put32 (fr_proc f) @ put_cfunc (fr_cfunc f) @
     put32 (fr_base f) @ put32 (fr_pc f) @ fr_n f # fr_nk f # fr_cci f # fr_vis f # put32 (fr_blk f) @
     fr_env_kind f # put32 (fr_env f)"

lemma read_cfunc:
  assumes "case f of None \<Rightarrow> True | Some n \<Rightarrow> name_ok n"
  shows "reads (if frame_kind f = 0 then rd_ret None else if frame_kind f = 1 then rd_bind ck_string (\<lambda>f. rd_ret (Some f))
      else rd_fail (Bad_Frame (frame_kind f))) (put_cfunc f) f"
  using assms by (cases f) (auto simp: frame_kind_def put_cfunc_def intro!: reads_ret finish)

lemma read_frame: "frame_ok f \<Longrightarrow> reads ck_frame (put_frame f) f"
  unfolding ck_frame_def put_frame_def frame_ok_def
  by (intro step reads_bind [OF read_cfunc] finish) simp_all

interpretation frame_item: image_item ck_frame put_frame frame_ok
  by unfold_locales (auto intro: read_frame adv)

lemma put_val_ne [simp]: "put_val v \<noteq> []" and put_frame_ne [simp]: "put_frame f \<noteq> []"
  by (cases v; simp) (simp add: put_frame_def)

definition put_ctx :: "ctx_rec \<Rightarrow> bytes" where
  "put_ctx c = cr_status c # cr_flags c # put32 (cr_prev c) @ put32 (cr_fib c) @ put_list put_val (cr_stack c) @
     put_list put_frame (cr_frames c)"

definition ctx_ok :: "ctx_rec \<Rightarrow> bool" where
  "ctx_ok c \<longleftrightarrow> list_ok any_item (cr_stack c) \<and> list_ok frame_ok (cr_frames c)"

lemma read_ctx: "ctx_ok c \<Longrightarrow> reads ck_ctx (put_ctx c) c"
  unfolding ck_ctx_def put_ctx_def ctx_ok_def
  by (intro step reads_bind [OF val_item.read_small] reads_last [OF frame_item.read_small]) simp_all

interpretation ctx_item: image_item ck_ctx put_ctx ctx_ok
  by unfold_locales (auto intro: read_ctx adv)

definition put_opt :: "u32 option \<Rightarrow> bytes" where
  "put_opt w = (case w of None \<Rightarrow> 0 # put32 0 | Some t \<Rightarrow> 1 # put32 t)"

fun put_wait :: "wait_rec \<Rightarrow> bytes" where
  "put_wait Wait_None = []"
| "put_wait (Wait_Sleep t) = put32 t"
| "put_wait (Wait_Join j) = put32 j"
| "put_wait (Wait_Queue q left) = put32 q @ put_opt left"

fun wait_reason :: "wait_rec \<Rightarrow> u8" where
  "wait_reason Wait_None = 0"
| "wait_reason (Wait_Sleep t) = 1"
| "wait_reason (Wait_Join j) = 4"
| "wait_reason (Wait_Queue q left) = 8"

lemma read_wait: "reads (ck_wait (wait_reason w)) (put_wait w) w"
proof (cases w)
  case (Wait_Queue q left)
  then show ?thesis
    by (cases left) (simp_all add: ck_wait_def put_opt_def, (intro step finish; simp)+)
qed (simp_all add: ck_wait_def reads_ret, (intro finish; simp)+)

definition put_task :: "task_rec \<Rightarrow> bytes" where
  "put_task t = put32 (tr_obj t) @ put32 (tr_ctx t) @ tr_status t # tr_queue t # tr_priority t # tr_reason t #
     tr_timeslice t # put_val (tr_name t) @ put_val (tr_result t) @ put_wait (tr_wait t)"

definition task_ok :: "task_rec \<Rightarrow> bool" where
  "task_ok t \<longleftrightarrow> tr_reason t = wait_reason (tr_wait t)"

lemma read_task: "task_ok t \<Longrightarrow> reads ck_task (put_task t) t"
  unfolding ck_task_def put_task_def task_ok_def
proof (intro step)
  assume "tr_reason t = wait_reason (tr_wait t)"
  then show "reads (rd_bind (ck_wait (tr_reason t)) (\<lambda>wait. rd_ret \<lparr>tr_obj = tr_obj t, tr_ctx = tr_ctx t, tr_status = tr_status t,
      tr_queue = tr_queue t, tr_priority = tr_priority t, tr_reason = tr_reason t, tr_timeslice = tr_timeslice t,
      tr_name = tr_name t, tr_result = tr_result t, tr_wait = wait\<rparr>)) (put_wait (tr_wait t)) t"
    using read_wait [of "tr_wait t"] by (intro reads_last [of _ _ "tr_wait t"]) simp_all
qed

interpretation task_item: image_item ck_task put_task task_ok
  by unfold_locales (auto intro: read_task adv)

lemma put_task_ne [simp]: "put_task t \<noteq> []"
  by (simp add: put_task_def put32_def)

definition sched_flags :: "sched_rec \<Rightarrow> u8" where
  "sched_flags s = (if sr_switch_pending s then 1 else 0) OR (if sr_loop_running s then 2 else 0)"

definition put_sched :: "sched_rec \<Rightarrow> bytes" where
  "put_sched s = sched_flags s # put16 (sr_unit s) @ put32 (sr_tick s) @
     (if sr_wakeup s = None then 0 else 1) # put32 (case sr_wakeup s of None \<Rightarrow> 0 | Some w \<Rightarrow> w) @
     put_list put_task (sr_tasks s) @ put32 (sr_running s) @ put32 (sr_host s)"

lemma read_sched: "list_ok task_ok (sr_tasks s) \<Longrightarrow> reads ck_sched (put_sched s) s"
  unfolding ck_sched_def put_sched_def
  by (intro step reads_bind [OF task_item.read_small] finish)
    (simp_all, cases s, auto simp: sched_flags_def split: option.splits)

section \<open>Sections and the image\<close>

definition put_part :: "bytes \<times> (u32 \<times> u32) list \<Rightarrow> bytes" where
  "put_part p = put_bytes (fst p) @ put32 0 @ put32 0 @ put_list (put_pair put32 put32) (snd p)"

lemma read_part: "short_bytes (fst p) \<Longrightarrow> list_ok any_item (snd p) \<Longrightarrow> reads ck_part (put_part p) p"
  unfolding ck_part_def put_part_def by (intro step reads_last [OF line_item.read_list]) simp_all

interpretation part_item: image_item ck_part put_part "\<lambda>p. short_bytes (fst p) \<and> list_ok any_item (snd p)"
  by unfold_locales (auto intro: read_part adv)

lemma utf8_lossy_valid: "utf8_valid b \<Longrightarrow> utf8_lossy b = b"
proof (induction b rule: utf8_lossy.induct)
  case (1 b)
  then show ?case by (subst utf8_lossy.simps) (use 1 in \<open>auto simp: utf8_valid.simps [of b]\<close>)
qed

definition put_lines :: "lines_rec \<Rightarrow> bytes" where
  "put_lines l = put32 (fst l) @ put_list16 put_part [snd l]"

definition lines_ok :: "lines_rec \<Rightarrow> bool" where
  "lines_ok l \<longleftrightarrow> name_ok (fst (snd l)) \<and> list_ok any_item (snd (snd l))"

lemma read_lines: "lines_ok l \<Longrightarrow> reads ck_lines (put_lines l) l"
  unfolding ck_lines_def put_lines_def lines_ok_def
  by (intro step reads_last [OF part_item.read_list16]) (auto simp: list16_ok_def name_ok_def utf8_lossy_valid)

interpretation lines_item: image_item ck_lines put_lines lines_ok
  by unfold_locales (auto intro: read_lines adv)

text \<open>A section: the line numbers, the collector's settings, or one the reader skips.\<close>

definition put_section :: "bytes \<times> bytes \<Rightarrow> bytes" where
  "put_section s = fst s @ put_bytes (snd s)"

definition skipped_ok :: "bytes \<times> bytes \<Rightarrow> bool" where
  "skipped_ok s \<longleftrightarrow> length (fst s) = 4 \<and> fst s \<noteq> END0 \<and> fst s \<noteq> DBG0 \<and> short_bytes (snd s) \<and>
     (fst s = GCS0 \<longrightarrow> length (snd s) = 33)"

lemma image_tags [simp]: "length END0 = 4" "length DBG0 = 4" "DBG0 \<noteq> END0" "GCS0 \<noteq> END0" "GCS0 \<noteq> DBG0" "DBG0 \<noteq> GCS0"
  by code_simp+

lemma read_one_section:
  assumes "length t = 4" "t \<noteq> END0" "short_bytes body"
  shows "reads ck_one_section (put_section (t, body)) (Some (t, body))"
proof -
  have b: "reads (\<lambda>c. if length (cb c) - cp c < unat (of_nat (length body) :: u32)
        then Inl (Section_Short t (unat (of_nat (length body) :: u32)) (length (cb c) - cp c))
        else rd_bind (ck_take (unat (of_nat (length body) :: u32))) (\<lambda>body. rd_ret (Some (t, body))) c) body (Some (t, body))"
  proof -
    have "reads (rd_bind (ck_take (length body)) (\<lambda>body. rd_ret (Some (t, body)))) body (Some (t, body))"
      by (rule reads_map) (simp add: read_take)
    then show ?thesis using assms(3) by (simp add: reads_def unat_of_nat32 short_bytes_def)
  qed
  show ?thesis
    unfolding ck_one_section_def put_section_def put_bytes_def fst_conv snd_conv
    by (rule reads_bind [OF read_take [OF assms(1)]], simp only: if_not_P [OF assms(2)], rule reads_bind [OF read_u32], rule b)
qed

lemma sections_step:
  assumes "length t = 4" "t \<noteq> END0" "short_bytes body" "ck_section t body = Inr (new, length body)"
  shows "ck_sections \<lparr>cb = pre @ put_section (t, body) @ post, cp = length pre\<rparr> lines =
    ck_sections \<lparr>cb = (pre @ put_section (t, body)) @ post, cp = length (pre @ put_section (t, body))\<rparr> (lines @ new)"
proof -
  have "ck_one_section \<lparr>cb = pre @ put_section (t, body) @ post, cp = length pre\<rparr> =
      Inr (Some (t, body), \<lparr>cb = pre @ put_section (t, body) @ post, cp = length pre + length (put_section (t, body))\<rparr>)"
    using read_one_section [OF assms(1-3)] by (simp add: reads_def)
  moreover have "4 \<le> length (put_section (t, body))" using assms(1) by (simp add: put_section_def)
  ultimately show ?thesis
    using assms(4) by (subst ck_sections.simps) simp
qed

lemma sections_end: "ck_sections \<lparr>cb = pre @ END0, cp = length pre\<rparr> lines = Inr (True, lines, \<lparr>cb = pre @ END0, cp = length (pre @ END0)\<rparr>)"
proof -
  have "ck_one_section \<lparr>cb = pre @ END0, cp = length pre\<rparr> = Inr (None, \<lparr>cb = pre @ END0, cp = length pre + 4\<rparr>)"
    by (simp add: ck_one_section_def rd_bind_def ck_take_def rd_ret_def)
  then show ?thesis by (subst ck_sections.simps) simp
qed

lemma section_skipped: "skipped_ok (t, body) \<Longrightarrow> ck_section t body = Inr ([], length body)"
  by (auto simp: skipped_ok_def ck_section_def ck_take_def)

lemma sections_skipped:
  "list_all skipped_ok ss \<Longrightarrow>
    ck_sections \<lparr>cb = pre @ concat (map put_section ss) @ END0, cp = length pre\<rparr> lines =
      Inr (True, lines, \<lparr>cb = pre @ concat (map put_section ss) @ END0, cp = length (pre @ concat (map put_section ss) @ END0)\<rparr>)"
proof (induction ss arbitrary: pre)
  case Nil
  then show ?case using sections_end [of pre lines] by simp
next
  case (Cons s ss)
  obtain t body where s: "s = (t, body)" by (cases s)
  have "ck_sections \<lparr>cb = pre @ put_section (t, body) @ (concat (map put_section ss) @ END0), cp = length pre\<rparr> lines =
      ck_sections \<lparr>cb = (pre @ put_section (t, body)) @ (concat (map put_section ss) @ END0), cp = length (pre @ put_section (t, body))\<rparr>
        (lines @ [])"
    using Cons.prems s by (intro sections_step section_skipped) (auto simp: skipped_ok_def)
  then show ?case using Cons.IH [of "pre @ put_section (t, body)"] Cons.prems s by simp
qed

lemma section_lines:
  assumes "list_ok lines_ok ls"
  shows "ck_section DBG0 (put_list put_lines ls) = Inr (ls, length (put_list put_lines ls))"
  using readsD [OF lines_item.read_list [OF assms], of "[]" "[]"] by (simp add: ck_section_def)

text \<open>The image: \<open>w\<close> is the writer's pointer width, \<open>ss\<close> the sections besides the line numbers.\<close>

definition put_image :: "u8 \<Rightarrow> (bytes \<times> bytes) list \<Rightarrow> image \<Rightarrow> bytes" where
  "put_image w ss img =
     ascii ''MRCK'' @ put16 1 @ put_bytes (im_writer img) @ put_bytes RITE0400 @ 64 # 64 # 1 # w #
     put_list put_bytes (im_syms img) @ put_list put_irep (im_ireps img) @ put_list put_object (im_objs img) @
     put_list put_patch (im_patches img) @ put_list put_ctx (im_ctxs img) @ put32 (im_current img) @ put_sched (im_sched img) @
     put_section (DBG0, put_list put_lines (im_lines img)) @ concat (map put_section ss) @ END0"

definition image_ok :: "image \<Rightarrow> bool" where
  "image_ok img \<longleftrightarrow> im_version img = 1 \<and> name_ok (im_writer img) \<and> list_ok short_bytes (im_syms img) \<and>
     list_ok irep_ok (im_ireps img) \<and> list_ok object_ok (im_objs img) \<and> list_ok patch_ok (im_patches img) \<and>
     list_ok ctx_ok (im_ctxs img) \<and> list_ok task_ok (sr_tasks (im_sched img)) \<and> list_ok lines_ok (im_lines img) \<and>
     short_bytes (put_list put_lines (im_lines img))"

definition put_header :: "u8 \<Rightarrow> bytes \<Rightarrow> bytes" where
  "put_header w writer = ascii ''MRCK'' @ put16 1 @ put_bytes writer @ put_bytes RITE0400 @ [64, 64, 1, w]"

lemma read_header:
  assumes "name_ok writer"
  shows "reads ck_header (put_header w writer) (1, writer)"
proof -
  have l: "length (ascii ''MRCK'') = 4" "short_bytes RITE0400" by (simp_all add: ascii_def short_bytes_def RITE0400_def)
  have r: "reads (rd_bind ck_u16 (\<lambda>version.
          if version \<noteq> FORMAT_VERSION then rd_fail (Format_Unsupported version)
          else rd_bind ck_string (\<lambda>writer. rd_bind ck_bytes (\<lambda>rite.
            if rite \<noteq> RITE0400 then rd_fail (Not_Rite_0400 rite)
            else rd_bind ck_u8 (\<lambda>ibits. rd_bind ck_u8 (\<lambda>fbits. rd_bind ck_u8 (\<lambda>utf8. rd_bind ck_u8 (\<lambda>_.
              if ibits \<noteq> 64 \<or> fbits \<noteq> 64 \<or> utf8 \<noteq> 1 then rd_fail Values_Differ else rd_ret (version, writer)))))))))
     (put16 1 @ put_bytes writer @ put_bytes RITE0400 @ [64, 64, 1, w]) (1, writer)"
    by (rule reads_bind [OF read_u16], simp add: FORMAT_VERSION_def, rule reads_bind [OF read_string [OF assms]],
        rule reads_bind [OF read_bytes [OF l(2)]], simp, (rule reads_first [OF read_u8])+, simp add: reads_ret)
  show ?thesis
    unfolding reads_def put_header_def
  proof (intro allI)
    fix pre post
    show "ck_header \<lparr>cb = pre @ (ascii ''MRCK'' @ put16 1 @ put_bytes writer @ put_bytes RITE0400 @ [64, 64, 1, w]) @ post, cp = length pre\<rparr> =
      Inr ((1, writer), \<lparr>cb = pre @ (ascii ''MRCK'' @ put16 1 @ put_bytes writer @ put_bytes RITE0400 @ [64, 64, 1, w]) @ post,
        cp = length pre + length (ascii ''MRCK'' @ put16 1 @ put_bytes writer @ put_bytes RITE0400 @ [64, 64, 1, w])\<rparr>)"
      using readsD [OF r, of "pre @ ascii ''MRCK''" post]
        readsD [OF read_take [OF l(1)], of pre "put16 1 @ put_bytes writer @ put_bytes RITE0400 @ [64, 64, 1, w] @ post"]
      by (simp add: ck_header_def l add.assoc)
  qed
qed

lemma read_body:
  assumes "image_ok img"
  shows "reads ck_body (put_header w (im_writer img) @ put_list put_bytes (im_syms img) @ put_list put_irep (im_ireps img) @
      put_list put_object (im_objs img) @ put_list put_patch (im_patches img) @ put_list put_ctx (im_ctxs img) @
      put32 (im_current img) @ put_sched (im_sched img)) (img\<lparr>im_lines := []\<rparr>)"
proof -
  have ok: "name_ok (im_writer img)" "list_ok short_bytes (im_syms img)" "list_ok irep_ok (im_ireps img)"
    "list_ok object_ok (im_objs img)" "list_ok patch_ok (im_patches img)" "list_ok ctx_ok (im_ctxs img)"
    "list_ok task_ok (sr_tasks (im_sched img))" "im_version img = 1"
    using assms by (simp_all add: image_ok_def)
  show ?thesis
    unfolding ck_body_def
    by (rule reads_bind [OF read_header [OF ok(1)]], simp only: split_conv,
        intro reads_bind [OF bytes_item.read_list] reads_bind [OF irep_item.read_list] reads_bind [OF object_item.read_list]
          reads_bind [OF patch_item.read_list] reads_bind [OF ctx_item.read_list] step reads_last [OF read_sched])
      (use ok in auto)
qed

theorem parse_put_image:
  assumes ok: "image_ok img" and ss: "list_all skipped_ok ss"
  shows "parse_image (put_image w ss img) = Inr img"
proof -
  define body where "body = put_header w (im_writer img) @ put_list put_bytes (im_syms img) @ put_list put_irep (im_ireps img) @
      put_list put_object (im_objs img) @ put_list put_patch (im_patches img) @ put_list put_ctx (im_ctxs img) @
      put32 (im_current img) @ put_sched (im_sched img)"
  define dbg where "dbg = put_section (DBG0, put_list put_lines (im_lines img))"
  have b: "put_image w ss img = body @ dbg @ concat (map put_section ss) @ END0"
    by (simp add: put_image_def body_def dbg_def put_header_def)
  have r: "ck_body \<lparr>cb = put_image w ss img, cp = 0\<rparr> = Inr (img\<lparr>im_lines := []\<rparr>, \<lparr>cb = put_image w ss img, cp = length body\<rparr>)"
    using readsD [OF read_body [OF ok, of w, folded body_def], of "[]"] by (simp add: b)
  have lines: "list_ok lines_ok (im_lines img)" "short_bytes (put_list put_lines (im_lines img))"
    using ok by (simp_all add: image_ok_def)
  have "ck_sections \<lparr>cb = put_image w ss img, cp = length body\<rparr> [] =
      ck_sections \<lparr>cb = (body @ dbg) @ concat (map put_section ss) @ END0, cp = length (body @ dbg)\<rparr> ([] @ im_lines img)"
    unfolding b dbg_def by (rule sections_step) (simp_all add: lines section_lines)
  also have "\<dots> = Inr (True, im_lines img, \<lparr>cb = put_image w ss img, cp = length (put_image w ss img)\<rparr>)"
    using sections_skipped [OF ss, of "body @ dbg" "im_lines img"] by (simp add: b)
  finally show ?thesis by (simp add: parse_image_def r)
qed

lemmas image_oks = image_ok_def list_ok_def list16_ok_def name_ok_def short_bytes_def irep_ok_def ctx_ok_def frame_ok_def
  task_ok_def lines_ok_def skipped_ok_def put_list_def put_lines_def put_list16_def put_part_def put_pair_def put_bytes_def

end
