(* ===== verification/PackText.thy ===== *)
theory PackText
  imports PackRound
begin

text \<open>
  The round trips of the directives that hold strings: hexadecimal, bit strings, base64, uuencode, quoted-printable and
  the padded strings.
\<close>

unbundle bit_operations_syntax

section \<open>Hexadecimal\<close>

lemma unat_nibble: "unat (x AND 0x0f :: u8) < 16"
proof -
  have "x AND 0x0f = take_bit 4 x" by (simp add: mask_numerals take_bit_eq_mask ac_simps)
  moreover have "unat (take_bit 4 x) < 2 ^ 4" unfolding unsigned_take_bit_eq by (rule take_bit_nat_less_exp)
  ultimately show ?thesis by simp
qed

lemma hex_table:
  assumes "k < 16"
  shows "hex2int (HEX_LOW ! k) = int k" "hex2int (HEX_UP ! k) = int k" "HEX_UP ! k \<noteq> 10" "HEX_UP ! k \<noteq> 13"
proof -
  have "list_all (\<lambda>k. hex2int (HEX_LOW ! k) = int k \<and> hex2int (HEX_UP ! k) = int k \<and> HEX_UP ! k \<noteq> 10 \<and> HEX_UP ! k \<noteq> 13) [0..<16]"
    by code_simp
  then show "hex2int (HEX_LOW ! k) = int k" "hex2int (HEX_UP ! k) = int k" "HEX_UP ! k \<noteq> 10" "HEX_UP ! k \<noteq> 13"
    using assms by (simp_all add: list_all_iff)
qed

lemma nibbles_join:
  "word_of_int (int (unat (drop_bit 4 b AND 0x0f)) * 2 ^ 4 + int (unat (b AND 0x0f)) * 2 ^ 0) = (b :: u8)"
  "word_of_int (int (unat (b AND 0x0f)) * 2 ^ 0 + int (unat (drop_bit 4 b AND 0x0f)) * 2 ^ 4) = (b :: u8)"
proof -
  have "push_bit 4 (drop_bit 4 b AND 0x0f) OR (b AND 0x0f) = b"
    by (rule bit_word_eqI, simp only: byte_bits, auto)
  moreover have "push_bit 4 (drop_bit 4 b AND 0x0f) + (b AND 0x0f) = push_bit 4 (drop_bit 4 b AND 0x0f) OR (b AND 0x0f)"
    by (rule disjunctive_add_eq_or, rule bit_word_eqI, simp only: byte_bits, auto)
  ultimately have "(drop_bit 4 b AND 0x0f) * 16 + (b AND 0x0f) = b" by (simp add: push_bit_eq_mult)
  then show "word_of_int (int (unat (drop_bit 4 b AND 0x0f)) * 2 ^ 4 + int (unat (b AND 0x0f)) * 2 ^ 0) = b"
    "word_of_int (int (unat (b AND 0x0f)) * 2 ^ 0 + int (unat (drop_bit 4 b AND 0x0f)) * 2 ^ 4) = b"
    by (simp_all add: ac_simps)
qed

lemma hex_both:
  assumes "ash = 4 \<and> bsh = 0 \<or> ash = 0 \<and> bsh = 4"
  shows "hex_bytes ash bsh (fst (hex_digits ash bsh s (2 * length s))) = s"
proof (induction s)
  case (Cons b s)
  have i: "unat (drop_bit ash b AND 0x0f) < 16" "unat (drop_bit bsh b AND 0x0f) < 16" by (rule unat_nibble)+
  have j: "word_of_int (int (unat (drop_bit ash b AND 0x0f)) * 2 ^ ash + int (unat (drop_bit bsh b AND 0x0f)) * 2 ^ bsh) = b"
    using assms nibbles_join [of b] by (elim disjE conjE) simp_all
  show ?case using Cons hex_table(1) [OF i(1)] hex_table(1) [OF i(2)] j by (auto simp: Let_def split: prod.splits)
qed simp

lemma hex_round: "snd (pack_hex (fst (unpack_hex s (- 1) fl)) (- 1) fl) = s"
proof -
  have l: "length (fst (hex_digits a b s (2 * length s))) = 2 * length s" for a b
    by (induction s) (auto simp: Let_def split: prod.splits)
  show ?thesis using hex_both [of 4 0 s] hex_both [of 0 4 s] by (simp add: pack_hex_def unpack_hex_def l)
qed

section \<open>Bit strings\<close>

lemma bit_fold_bits:
  "bit (fold (\<lambda>j byte. byte OR push_bit (f j) (if c j then 1 else 0)) [0..<w] (0 :: u8)) k \<longleftrightarrow> k < 8 \<and> (\<exists>j<w. c j \<and> f j = k)"
  by (induction w) (auto simp: bit_or_iff bit_push_bit_iff bit_1_iff less_Suc_eq)

lemma bit_bit_byte:
  "bit (bit_byte lsb s i) k \<longleftrightarrow> k < 8 \<and> (let j = i * 8 + (if lsb then k else 7 - k) in j < length s \<and> s ! j = byte_of CHR ''1'')"
proof (cases "k < 8")
  case True
  then have e: "(\<exists>j<8. P j \<and> (if lsb then j else 7 - j) = k) \<longleftrightarrow> P (if lsb then k else 7 - k)" for P
    by (auto intro: exI [of _ k] exI [of _ "7 - k"])
  show ?thesis using True unfolding bit_byte_def Let_def bit_fold_bits e by simp
qed (use bit_imp_le_length [of "bit_byte lsb s i" k] in auto)

lemma bit_char: "byte_of CHR ''0'' + (drop_bit k x AND 1) = byte_of CHR ''1'' \<longleftrightarrow> bit (x :: u8) k"
  by (simp add: byte_of_def and_one_eq bit_iff_odd_drop_bit mod2_eq_if)

lemma bstr_round: "pack_bstr (fst (unpack_bstr s (- 1) fl)) (- 1) fl = s"
proof (cases "s = []")
  case False
  define d where "d = map (\<lambda>i. let byte = s ! (i div 8);
      b = (if has fl F_LSB then drop_bit (i mod 8) byte AND 1 else drop_bit (7 - i mod 8) byte AND 1)
    in byte_of CHR ''0'' + b) [0..<length s * 8]"
  have "bit_byte (has fl F_LSB) d i = s ! i" if "i < length s" for i
  proof (rule bit_word_eqI)
    fix k assume "k < LENGTH(8)"
    then have k: "k < 8" by simp
    have nth: "d ! (i * 8 + j) = byte_of CHR ''0'' + (drop_bit (if has fl F_LSB then j else 7 - j) (s ! i) AND 1)"
      "i * 8 + j < length d" if "j < 8" for j
      using that \<open>i < length s\<close> by (auto simp: d_def Let_def)
    show "bit (bit_byte (has fl F_LSB) d i) k = bit (s ! i) k"
      using k nth [of k] nth [of "7 - k"] by (simp add: bit_bit_byte Let_def bit_char)
  qed
  then have "map (bit_byte (has fl F_LSB) d) [0..<length s] = s" by (intro nth_equalityI) simp_all
  moreover have "length d = length s * 8" by (simp add: d_def)
  moreover have "unpack_bstr s (- 1) fl = (d, (length s * 8 + 7) div 8)"
    using False by (simp add: unpack_bstr_def d_def Let_def)
  ultimately show ?thesis by (simp add: pack_bstr_def)
qed (simp add: pack_bstr_def unpack_bstr_def)

section \<open>Groups of three bytes\<close>

lemma sextets_join:
  fixes l :: u32 assumes "unat l < 2 ^ 24"
  shows "push_bit 18 (drop_bit 18 l AND 0x3f) OR push_bit 12 (drop_bit 12 l AND 0x3f) OR push_bit 6 (drop_bit 6 l AND 0x3f) OR (drop_bit 0 l AND 0x3f) = l"
proof (rule bit_word_eqI, goal_cases)
  case (1 i)
  then show ?case using bit_below [OF assms, of i]
    by (cases "18 \<le> i"; cases "12 \<le> i"; cases "6 \<le> i"; simp only: byte_bits drop_bit_0 id_apply; auto)
qed

lemma sextets_sum:
  fixes l :: u32 assumes "unat l < 2 ^ 24"
  shows "push_bit 18 (drop_bit 18 l AND 0x3f) + push_bit 12 (drop_bit 12 l AND 0x3f) + push_bit 6 (drop_bit 6 l AND 0x3f) + (drop_bit 0 l AND 0x3f) = l"
proof -
  have d: "push_bit 18 (drop_bit 18 l AND 0x3f) AND push_bit 12 (drop_bit 12 l AND 0x3f) = 0"
    "(push_bit 18 (drop_bit 18 l AND 0x3f) OR push_bit 12 (drop_bit 12 l AND 0x3f)) AND push_bit 6 (drop_bit 6 l AND 0x3f) = 0"
    "(push_bit 18 (drop_bit 18 l AND 0x3f) OR push_bit 12 (drop_bit 12 l AND 0x3f) OR push_bit 6 (drop_bit 6 l AND 0x3f)) AND (drop_bit 0 l AND 0x3f) = 0"
    by ((rule bit_word_eqI, simp only: byte_bits drop_bit_0 id_apply, auto)[1])+
  show ?thesis using sextets_join [OF assms] by (simp only: disjunctive_add_eq_or d or.assoc)
qed

lemma unat_sextet: "unat (x AND 0x3f :: u32) < 64"
proof -
  have "x AND 0x3f = take_bit 6 x" by (simp add: mask_numerals take_bit_eq_mask ac_simps)
  moreover have "unat (take_bit 6 x) < 2 ^ 6" unfolding unsigned_take_bit_eq by (rule take_bit_nat_less_exp)
  ultimately show ?thesis by simp
qed

lemma unat_take_bit_less: "unat (take_bit k x) < 2 ^ k"
  unfolding unsigned_take_bit_eq by (rule take_bit_nat_less_exp)

lemma group_below:
  "unat (push_bit 16 (ucast (a :: u8)) OR push_bit 8 (ucast (b :: u8)) OR ucast (c :: u8) :: u32) < 2 ^ 24"
proof -
  have e: "take_bit 24 (push_bit 16 (ucast a) OR push_bit 8 (ucast b) OR ucast c) = (push_bit 16 (ucast a) OR push_bit 8 (ucast b) OR ucast c :: u32)"
    by (rule bit_word_eqI, simp only: byte_bits, auto dest: bit_u8)
  show ?thesis using unat_take_bit_less [of 24 "push_bit 16 (ucast a) OR push_bit 8 (ucast b) OR ucast c :: u32"] by (simp only: e)
qed

lemma group_bytes:
  fixes a b c :: u8
  defines "l \<equiv> push_bit 16 (ucast a) OR push_bit 8 (ucast b) OR ucast c :: u32"
  shows "ucast (drop_bit 16 l) = a" "ucast (drop_bit 8 l) = b" "ucast l = c"
  unfolding l_def by ((rule bit_word_eqI, simp only: byte_bits, auto dest: bit_u8)[1])+

section \<open>Base64\<close>

lemma BASE64_codes:
  "BASE64 =
    [65, 66, 67, 68, 69, 70, 71, 72, 73, 74, 75, 76, 77, 78, 79, 80, 81, 82, 83, 84, 85, 86, 87, 88, 89, 90,
     97, 98, 99, 100, 101, 102, 103, 104, 105, 106, 107, 108, 109, 110, 111, 112, 113, 114, 115, 116, 117,
     118, 119, 120, 121, 122, 48, 49, 50, 51, 52, 53, 54, 55, 56, 57, 43, 47]"
  by (simp add: BASE64_def ascii_def)

lemma base64_table:
  assumes "k < 64" shows "base64_val (BASE64 ! k) = Some (word_of_nat k) \<and> BASE64 ! k \<noteq> byte_of CHR ''=''"
proof -
  have "list_all (\<lambda>(k, c). base64_val c = Some (word_of_nat k) \<and> c \<noteq> byte_of CHR ''='') (enumerate 0 BASE64)"
    unfolding BASE64_codes by (simp add: base64_val_def between_def byte_of_def)
  moreover have "length BASE64 = 64" by (simp add: BASE64_codes)
  ultimately show ?thesis using assms by (auto simp: list_all_length nth_enumerate_eq)
qed

lemma b64_next_char:
  "b64_next (b64_char l sh # s) pad = Some (ucast (drop_bit sh l AND 0x3f), pad, s)"
  using base64_table [OF unat_sextet [of "drop_bit sh l"]] by (simp add: b64_char_def)

lemma b64_next_pad: "b64_next (byte_of CHR ''='' # s) pad = Some (0, pad + 1, s)"
  by simp

lemma b64_next_nl: "b64_next (NL # s) pad = b64_next s pad"
  by (simp add: NL_def byte_of_def base64_val_def between_def)

lemma b64_four_nl: "b64_four (Suc k) (NL # s) pad = b64_four (Suc k) s pad"
  by (simp add: b64_next_nl del: b64_next.simps)

lemma b64_sextet_byte: "ucast (ucast (x AND 0x3f) :: u8) = (x AND 0x3f :: u32)"
  by (rule bit_word_eqI, simp only: byte_bits, auto)

lemma b64_four_group:
  "b64_four 4 (b64_char l 18 # b64_char l 12 # b64_char l 6 # b64_char l 0 # s) pad =
    Some (map (\<lambda>sh. ucast (drop_bit sh l AND 0x3f)) [18, 12, 6, 0], pad, s)"
  "b64_four 4 (b64_char l 18 # b64_char l 12 # b64_char l 6 # byte_of CHR ''='' # s) pad =
    Some (map (\<lambda>sh. ucast (drop_bit sh l AND 0x3f)) [18, 12, 6] @ [0], pad + 1, s)"
  "b64_four 4 (b64_char l 18 # b64_char l 12 # byte_of CHR ''='' # byte_of CHR ''='' # s) pad =
    Some (map (\<lambda>sh. ucast (drop_bit sh l AND 0x3f)) [18, 12] @ [0, 0], pad + 2, s)"
  by (simp_all add: eval_nat_numeral b64_next_char b64_next_pad del: b64_next.simps)

text \<open>One group more, after a new line or not.\<close>

lemma b64_groups_full:
  assumes "pre = [] \<or> pre = [NL]" and "l = push_bit 16 (ucast a) OR push_bit 8 (ucast b) OR ucast c"
  shows "b64_groups (pre @ b64_char l 18 # b64_char l 12 # b64_char l 6 # b64_char l 0 # s) 0 =
    (let (out, left) = b64_groups s 0 in (a # b # c # out, left))"
proof -
  let ?t = "b64_char l 18 # b64_char l 12 # b64_char l 6 # b64_char l 0 # s"
  have "b64_four 4 (pre @ ?t) 0 = b64_four 4 ?t 0" using assms(1) b64_four_nl [of 3 ?t 0] by auto
  then have four: "b64_four 4 (pre @ ?t) 0 = Some (map (\<lambda>sh. ucast (drop_bit sh l AND 0x3f)) [18, 12, 6, 0], 0, s)"
    by (simp only: b64_four_group)
  have "unat l < 2 ^ 24" unfolding assms(2) by (rule group_below)
  note sum = sextets_sum [OF this]
  show ?thesis
    using four sum group_bytes [of a b c, folded assms(2)]
    by (subst b64_groups.simps) (simp add: b64_sextet_byte del: b64_four.simps)
qed

lemma b64_groups_two:
  assumes "pre = [] \<or> pre = [NL]"
  shows "fst (b64_groups (pre @ b64_tail [a, b] @ s) 0) = [a, b]"
proof -
  define l :: u32 where "l = push_bit 16 (ucast a) OR push_bit 8 (ucast b) OR ucast (0 :: u8)"
  let ?t = "b64_char l 18 # b64_char l 12 # b64_char l 6 # byte_of CHR ''='' # s"
  have t: "pre @ b64_tail [a, b] @ s = pre @ ?t" by (simp add: b64_tail_def l_def ascii_def byte_of_def Let_def)
  have "b64_four 4 (pre @ ?t) 0 = b64_four 4 ?t 0" using assms(1) b64_four_nl [of 3 ?t 0] by auto
  then have four: "b64_four 4 (pre @ ?t) 0 = Some (map (\<lambda>sh. ucast (drop_bit sh l AND 0x3f)) [18, 12, 6] @ [0], 1, s)"
    by (simp only: b64_four_group) simp
  have "unat l < 2 ^ 24" unfolding l_def by (rule group_below)
  moreover have "drop_bit 0 l AND 0x3f = 0"
    unfolding l_def by (rule bit_word_eqI, simp only: byte_bits drop_bit_0 id_apply, auto)
  ultimately have sum: "push_bit 18 (drop_bit 18 l AND 0x3f) + push_bit 12 (drop_bit 12 l AND 0x3f) + push_bit 6 (drop_bit 6 l AND 0x3f) = l"
    using sextets_sum [of l] by (simp only: add_0_right)
  show ?thesis unfolding t
    using four sum group_bytes [of a b 0, folded l_def]
    by (subst b64_groups.simps) (simp add: b64_sextet_byte del: b64_four.simps)
qed

lemma b64_groups_one:
  assumes "pre = [] \<or> pre = [NL]"
  shows "fst (b64_groups (pre @ b64_tail [a] @ s) 0) = [a]"
proof -
  define l :: u32 where "l = push_bit 16 (ucast a) OR push_bit 8 (ucast (0 :: u8)) OR ucast (0 :: u8)"
  let ?t = "b64_char l 18 # b64_char l 12 # byte_of CHR ''='' # byte_of CHR ''='' # s"
  have t: "pre @ b64_tail [a] @ s = pre @ ?t" by (simp add: b64_tail_def l_def ascii_def byte_of_def Let_def)
  have "b64_four 4 (pre @ ?t) 0 = b64_four 4 ?t 0" using assms(1) b64_four_nl [of 3 ?t 0] by auto
  then have four: "b64_four 4 (pre @ ?t) 0 = Some (map (\<lambda>sh. ucast (drop_bit sh l AND 0x3f)) [18, 12] @ [0, 0], 2, s)"
    by (simp only: b64_four_group) simp
  have "unat l < 2 ^ 24" unfolding l_def by (rule group_below)
  moreover have "drop_bit 0 l AND 0x3f = 0" "push_bit 6 (drop_bit 6 l AND 0x3f) = 0"
    unfolding l_def by ((rule bit_word_eqI, simp only: byte_bits drop_bit_0 id_apply, auto)[1])+
  ultimately have sum: "push_bit 18 (drop_bit 18 l AND 0x3f) + push_bit 12 (drop_bit 12 l AND 0x3f) = l"
    using sextets_sum [of l] by (simp only: add_0_right)
  show ?thesis unfolding t
    using four sum group_bytes [of a 0 0, folded l_def]
    by (subst b64_groups.simps) (simp add: b64_sextet_byte del: b64_four.simps)
qed

lemma b64_loop_round: "pre = [] \<or> pre = [NL] \<Longrightarrow> fst (b64_groups (pre @ b64_loop count column s) 0) = s"
proof (induction count column s arbitrary: pre rule: b64_loop.induct, goal_cases)
  case (1 count column a b c s)
  define l :: u32 where "l = push_bit 16 (ucast a) OR push_bit 8 (ucast b) OR ucast c"
  define more where "more = (if count > 0
     then (if column = count then NL # b64_loop count 3 s else b64_loop count (column + 3) s) else b64_loop count column s)"
  have "fst (b64_groups more 0) = s"
    using 1(1) [where pre = "[NL]"] 1(2,3) [where pre = "[]"] by (auto simp: more_def)
  moreover have "b64_loop count column (a # b # c # s) = b64_char l 18 # b64_char l 12 # b64_char l 6 # b64_char l 0 # more"
    by (simp add: l_def more_def Let_def)
  ultimately show ?case using b64_groups_full [OF 1(4) l_def] by (simp add: split_beta)
next
  case (2 count column)
  then show ?case by (subst b64_groups.simps) (auto simp: b64_tail_def)
next
  case (3 count column a)
  then show ?case using b64_groups_one by simp
next
  case (4 count column a b)
  then show ?case using b64_groups_two by simp
qed

lemma base64_round: "fst (unpack_base64 (pack_base64 s count)) = s"
proof (cases "s = []")
  case False
  have "t \<noteq> []" if "fst (b64_groups t 0) = s" for t using that False by (auto simp: b64_groups.simps)
  then show ?thesis using False b64_loop_round [of "[]" _ 3 s] by (simp add: pack_base64_def unpack_base64_def split_beta)
qed (simp add: pack_base64_def unpack_base64_def)

section \<open>Uuencode\<close>

lemma UU_codes:
  "UU = 96 # map word_of_nat [33..<96]" "length UU = 64"
  by (simp_all add: UU_def)

lemma uu_table:
  assumes "k < 64"
  shows "uu_dec (UU ! k) = int k" "0 < k \<Longrightarrow> UU ! k = word_of_nat (32 + k)"
proof -
  have n: "0 < k \<Longrightarrow> UU ! k = word_of_nat (32 + k)" using assms by (cases k) (simp_all add: UU_codes(1) del: upt_rec_numeral upt_Suc)
  have "list_all (\<lambda>k. uu_dec (word_of_nat (32 + k)) = int k) [1..<64]"
    by (simp add: upt_rec uu_dec_def)
  then show "uu_dec (UU ! k) = int k"
    using assms n by (cases "k = 0") (auto simp: list_all_iff uu_dec_def UU_codes(1))
  show "0 < k \<Longrightarrow> UU ! k = word_of_nat (32 + k)" by (rule n)
qed

lemma uu_four_group:
  "uu_four 4 (map (\<lambda>sh. UU ! unat (drop_bit sh v AND 0x3F)) [18, 12, 6, 0] @ s) =
    (Some (map (\<lambda>sh. uint (drop_bit sh v AND 0x3F :: u32)) [18, 12, 6, 0]), s)"
  using unat_sextet by (simp add: eval_nat_numeral uu_table)

definition uu_chars :: "u32 \<Rightarrow> bytes" where
  "uu_chars v = map (\<lambda>sh. UU ! unat (drop_bit sh v AND 0x3F)) [18, 12, 6, 0]"

definition group_of :: "u8 \<Rightarrow> u8 \<Rightarrow> u8 \<Rightarrow> u32" where
  "group_of a b c = push_bit 16 (ucast a) OR push_bit 8 (ucast b) OR ucast c"

lemma uu_group_chars:
  "uu_group [a, b, c] = uu_chars (group_of a b c)"
  "uu_group [a, b] = uu_chars (group_of a b 0)"
  "uu_group [a] = uu_chars (group_of a 0 0)"
proof -
  have "push_bit 8 (push_bit 8 (ucast a) OR ucast b) OR ucast c = group_of a b c" for a b c :: u8
    unfolding group_of_def by (simp add: push_bit_or push_bit_push_bit or.assoc)
  note this [of a b c] this [of a b 0] this [of a 0 0]
  then show "uu_group [a, b, c] = uu_chars (group_of a b c)" "uu_group [a, b] = uu_chars (group_of a b 0)"
    "uu_group [a] = uu_chars (group_of a 0 0)"
    by (simp_all add: uu_group_def uu_chars_def Let_def)
qed

text \<open>A group read back: as many of its bytes as the line still has.\<close>

lemma uu_line_group:
  assumes "0 < left"
  shows "uu_line left (uu_chars (group_of a b c) @ s) =
    (let (out, rest) = uu_line (left - min left 3) s in (take (min left 3) [a, b, c] @ out, rest))"
proof -
  define v where "v = group_of a b c"
  have "unat v < 2 ^ 24" unfolding v_def group_of_def by (rule group_below)
  note join = sextets_join [OF this]
  have m: "map (\<lambda>i. ucast (drop_bit (16 - i * 8) v) :: u8) [0..<min left 3] = take (min left 3) [a, b, c]"
    using group_bytes [of a b c, folded group_of_def, folded v_def]
    by (intro nth_equalityI) (auto simp: nth_Cons less_Suc_eq numeral_3_eq_3 split: nat.splits)
  show ?thesis using assms(1) join m uu_four_group [of v s] unfolding v_def [symmetric] uu_chars_def
    by (subst uu_line.simps) (simp add: Let_def del: uu_four.simps)
qed

lemma uu_groups_round: "uu_line (length s) (uu_groups s @ t) = (s, t)"
proof (induction s rule: uu_groups.induct, goal_cases)
  case (1 a b c s)
  then show ?case by (simp add: uu_group_chars uu_line_group)
next
  case 2
  then show ?case by (simp add: uu_line.simps)
next
  case (3 a)
  then show ?case by (simp add: uu_group_chars uu_line_group) (simp add: uu_line.simps)
next
  case (4 a b)
  then show ?case by (simp add: uu_group_chars uu_line_group) (simp add: uu_line.simps)
qed

lemma uu_lines_round:
  assumes "0 < count" "count < 64"
  shows "uu_read (uu_lines count s @ [UU ! 0, NL]) = s"
    and "uu_read (NL # uu_lines count s @ [UU ! 0, NL]) = s"
proof -
  have nl: "uu_read (NL # t) = uu_read t" for t
    by (subst (1 2) uu_read.simps) (simp add: NL_def)
  show r: "uu_read (uu_lines count s @ [UU ! 0, NL]) = s"
    using assms
  proof (induction count s rule: uu_lines.induct)
    case (1 count s)
    show ?case
    proof (cases "s = []")
      case True
      then show ?thesis using uu_table(1) [of 0]
        by (simp add: uu_lines.simps) (simp add: uu_read.simps UU_codes(1) uu_dec_def)
    next
      case False
      define line where "line = take count s"
      define k where "k = length line"
      have k: "0 < k" "k < 64" using False 1(2,3) by (auto simp: k_def line_def)
      have w: "unat ((word_of_nat k :: u32) AND 0x3F) = k"
      proof -
        have e: "(word_of_nat k :: u32) AND 0x3F = take_bit 6 (word_of_nat k)" by (simp add: mask_numerals take_bit_eq_mask ac_simps)
        show ?thesis unfolding e unsigned_take_bit_eq using k by (simp add: take_bit_nat_eq_self unat_of_nat)
      qed
      have ws: "UU ! k \<notin> {10, 13, 32, 9}"
        using uu_table(1) [of k] k by (auto simp: uu_dec_def)
      have "uu_lines count s @ [UU ! 0, NL] = UU ! k # uu_groups line @ NL # uu_lines count (drop count s) @ [UU ! 0, NL]"
        using False 1(2) w by (subst uu_lines.simps) (simp add: line_def [symmetric] k_def [symmetric] Let_def)
      moreover have "uu_read (uu_lines count (drop count s) @ [UU ! 0, NL]) = drop count s" using 1 False line_def by simp
      moreover have "uu_line k (uu_groups line @ t) = (line, t)" for t
        using uu_groups_round [of line] by (simp add: k_def)
      moreover have "line @ drop count s = s" by (simp add: line_def)
      ultimately show ?thesis using k ws uu_table(1) [of k] nl
        by (subst uu_read.simps) (simp add: NL_def)
    qed
  qed
  then show "uu_read (NL # uu_lines count s @ [UU ! 0, NL]) = s" by (simp add: nl)
qed

lemma uu_round: "fst (unpack_uu (pack_uu s count)) = s"
proof (cases "s = []")
  case False
  define n where "n = (if count \<le> 2 then 45 else if count > 63 then 63 else nat count)"
  have "3 \<le> n" "n \<le> 63" by (auto simp: n_def)
  moreover have "n mod 3 < 3" by simp
  ultimately have "0 < n - n mod 3" "n - n mod 3 < 64" by linarith+
  then show ?thesis using False uu_lines_round(1) [of "n - n mod 3" s]
    by (simp add: pack_uu_def unpack_uu_def n_def [symmetric] Let_def)
qed (simp add: pack_uu_def unpack_uu_def uu_lines.simps uu_read.simps)

section \<open>Quoted-printable\<close>

lemma qp_read_escape: "qp_read (qp_escape b @ s) = b # qp_read s"
proof -
  have "b AND 0xf = take_bit 4 b" by (simp add: mask_numerals take_bit_eq_mask ac_simps)
  moreover have "drop_bit 4 b = drop_bit 4 b AND 0x0f" by (rule bit_word_eqI, simp only: byte_bits, auto dest: bit_u8)
  ultimately have k: "unat (drop_bit 4 b) < 16" "unat (b AND 0xf) < 16" using unat_nibble by metis+
  have "word_of_int (int (unat (drop_bit 4 b)) * 16 + int (unat (b AND 0xf))) = b"
    using nibbles_join(1) [of b] \<open>drop_bit 4 b = drop_bit 4 b AND 0x0f\<close> by simp
  moreover have "uint x \<noteq> - 1" for x :: u8 using uint_ge_0 [of x] by linarith
  ultimately show ?thesis using hex_table [OF k(1)] hex_table [OF k(2)] by (simp add: qp_escape_def)
qed

lemma qp_read_soft: "qp_read (byte_of CHR ''='' # NL # s) = qp_read s"
  by (simp add: NL_def)

lemma qp_read_plain: "b \<noteq> byte_of CHR ''='' \<Longrightarrow> qp_read (b # s) = b # qp_read s"
  by simp

lemma qp_loop_round: "qp_read (qp_loop count n prev s) = s"
proof (induction s arbitrary: n prev)
  case Nil
  then show ?case by (simp add: NL_def)
next
  case (Cons b s)
  have e: "b \<noteq> byte_of CHR ''=''" if "qprint_type b \<noteq> 1" using that by (auto simp: qprint_type_def byte_of_def)
  have n: "b = NL" if "qprint_type b = 2" using that by (auto simp: qprint_type_def NL_def split: if_splits)
  have "qprint_type b \<in> {0, 1, 2}" by (simp add: qprint_type_def)
  then consider "qprint_type b = 0" | "qprint_type b = 1" | "qprint_type b = 2" by auto
  then show ?case
    by cases (use e n in \<open>auto simp del: qp_read.simps(2) simp: Let_def qp_read_escape qp_read_plain qp_read_soft Cons.IH\<close>)
qed

lemma qenc_round: "fst (unpack_qenc (pack_qenc s count)) = s"
proof -
  have "s = []" if "qp_loop c 0 None s = []" for c using qp_loop_round [of c 0 None s] that by simp
  then show ?thesis using qp_loop_round [of _ 0 None s] by (auto simp: unpack_qenc_def pack_qenc_def)
qed

section \<open>Padded strings\<close>

lemma has_flags [simp]:
  "has (F_A) (F_A OR F_Z)" "has F_Z (F_A OR F_Z)" "has F_Z F_Z" "\<not> has F_A F_Z" "has F_A F_A" "\<not> has 0 f"
  by (simp_all add: has_def pack_flags)

lemma strip_end_pads:
  "(\<And>c. c \<in> set pads \<Longrightarrow> c = 0 \<or> is_space c) \<Longrightarrow> strip_end (s @ pads) = strip_end s"
proof (induction pads rule: rev_induct)
  case (snoc c pads)
  then show ?case by (subst strip_end.simps) (simp flip: append_assoc)
qed simp

lemma strip_end_id: "s = [] \<or> last s \<noteq> 0 \<and> \<not> is_space (last s) \<Longrightarrow> strip_end s = s"
  by (subst strip_end.simps) auto

text \<open>\<open>a\<close>, \<open>A\<close> and \<open>Z\<close> with a width of their own (\<open>*\<close>), and \<open>A\<close> and \<open>Z\<close> padded to a wider field.\<close>

lemma str_round:
  "fst (unpack_str (pack_str s (- 1) fl) (- 1) fl) = s" if "has fl F_A" "\<not> has fl F_Z"
  using that by (simp add: pack_str_def unpack_str_def)

lemma str_round_stripped:
  assumes "\<not> has fl F_A" "\<not> has fl F_Z" "\<not> has fl (F_A OR F_Z)" "s \<noteq> [] \<longrightarrow> last s \<noteq> 0 \<and> \<not> is_space (last s)"
    and "count = - 1 \<or> int (length s) \<le> count \<and> 0 < count"
  shows "fst (unpack_str (pack_str s count fl) count fl) = s"
proof -
  define pads where "pads = (if count = - 1 then [] else replicate (nat count - length s) (32 :: u8))"
  have "pack_str s count fl = s @ pads" using assms(1-3,5) by (auto simp: pack_str_def pads_def)
  moreover have "strip_end (s @ pads) = s"
    using strip_end_pads [of pads s] strip_end_id [of s] assms(4) by (auto simp: pads_def is_space_def split: if_splits)
  moreover have "take (nat count) (s @ pads) = s @ pads" if "count \<noteq> - 1"
    using that assms(5) by (auto simp: pads_def)
  ultimately show ?thesis using assms(1,2,5) by (auto simp: unpack_str_def Let_def)
qed

lemma str_round_zero:
  assumes "has fl F_Z" "has fl (F_A OR F_Z)" "0 \<notin> set s" "count = - 1 \<or> int (length s) < count"
  shows "fst (unpack_str (pack_str s count fl) count fl) = s"
proof -
  define pads where "pads = (if count = - 1 then [0] else replicate (nat count - length s) (0 :: u8))"
  have p: "pads = 0 # tl pads" using assms(4) by (cases "nat count - length s") (auto simp: pads_def)
  define t where "t = s @ pads"
  have "pack_str s count fl = t" using assms(1,2,4) by (auto simp: pack_str_def pads_def t_def)
  moreover have "takeWhile (\<lambda>c. c \<noteq> 0) t = s" unfolding t_def
    using assms(3) by (subst p) (auto simp: takeWhile_append takeWhile_eq_all_conv)
  then have "take (length (takeWhile (\<lambda>c. c \<noteq> 0) t)) t = s" by (metis takeWhile_eq_take)
  moreover have "0 \<in> set t" "t \<noteq> []" unfolding t_def by (subst p, simp)+
  moreover have "\<not> nat count < length t" if "count \<noteq> - 1" using that assms(4) by (auto simp: pads_def t_def)
  ultimately show ?thesis using assms(1) by (auto simp: unpack_str_def Let_def min_absorb1 length_takeWhile_le)
qed

end
