(* ===== verification/PackWhole.thy ===== *)
theory PackWhole
  imports PackText
begin

text \<open>
  Whole templates of numbers: a directive as a pair of an encoder and a decoder (the locale \<open>number_directive\<close>), its
  instances, and what the template reader promises about the directives it answers.
\<close>

unbundle bit_operations_syntax

section \<open>A directive for numbers\<close>

definition number_dirs :: "dir set" where
  "number_dirs = {D_Char, D_Short, D_Long, D_Quad, D_Ber, D_Utf8, D_Double, D_Float}"

text \<open>
  \<open>enc\<close> is what the directive stores for the argument \<open>arg x\<close>, and reading it back, whatever follows, answers \<open>val x\<close>
  and nothing of what follows.
\<close>

locale number_directive =
  fixes env :: "'w pack_env" and sp :: spec and ok :: "'a \<Rightarrow> bool" and arg :: "'a \<Rightarrow> rvalue"
    and enc :: "'a \<Rightarrow> bytes" and val :: "'a \<Rightarrow> rvalue"
  assumes stores: "ok x \<Longrightarrow> item_bytes env sp count (arg x) = ret (length (enc x), enc x)"
    and reads: "ok x \<Longrightarrow> unpack_one sp (enc x @ rest) = Inr ([val x], length (enc x))"
    and room: "ok x \<Longrightarrow> sp_size sp \<le> length (enc x)" "ok x \<Longrightarrow> enc x \<noteq> []"
    and each: "list_all ok xs \<Longrightarrow> xs \<noteq> [] \<Longrightarrow> \<not> has (sp_flags sp) F_COUNT2 \<and> sp_dir sp \<in> number_dirs"
begin

lemma packs_all:
  assumes "list_all ok xs"
  shows "pack_items env sp (- 1) out (int (length out)) (map arg xs) =
    ret (out @ concat (map enc xs), int (length out) + int (length (concat (map enc xs))), [])"
  using assms
proof (induction xs arbitrary: out)
  case (Cons x xs)
  have c: "\<not> has (sp_flags sp) F_COUNT2" using each [OF Cons.prems] by simp
  have p: "put_at out (length out) (length (enc x)) (enc x) = out @ enc x"
    by (simp add: put_at_def ensure_def Let_def)
  show ?case using Cons.IH [of "out @ enc x"] Cons.prems stores [of x] c
    by (simp add: p Let_def add.assoc)
qed simp

lemma unpacks_all:
  assumes "list_all ok xs"
  shows "unpack_items sp (- 1) (concat (map enc xs)) = Inr (map val xs, length (concat (map enc xs)))"
  using assms
proof (induction xs)
  case (Cons x xs)
  then show ?case using reads [of x] room [of x] by (subst unpack_items.simps) simp
qed (simp add: unpack_items.simps)

lemma pack_whole:
  assumes "list_all ok xs" "xs \<noteq> []" "read_tmpl tmpl = Inr (sp, [])" "sp_count sp = - 1" "tmpl \<noteq> []"
  shows "pack_loop env tmpl [] 0 (map arg xs) = ret (concat (map enc xs))"
proof -
  have d: "sp_dir sp \<in> number_dirs" using each [OF assms(1,2)] by simp
  show ?thesis
    using packs_all [OF assms(1), of "[]"] assms d
    by (subst pack_loop.simps) (auto simp: number_dirs_def pack_loop.simps [of env "[]"] Let_def)
qed

lemma unpack_whole:
  assumes "list_all ok xs" "xs \<noteq> []" "read_tmpl tmpl = Inr (sp, [])" "sp_count sp = - 1" "tmpl \<noteq> []"
  shows "unpack_loop env (concat (map enc xs)) single tmpl 0 [] = ret (map val xs)"
proof -
  have d: "sp_dir sp \<in> number_dirs" using each [OF assms(1,2)] by simp
  show ?thesis
    using unpacks_all [OF assms(1)] assms d
    by (subst unpack_loop.simps) (auto simp: number_dirs_def unpack_text_def unpack_loop.simps [of env _ _ "[]"] Let_def)
qed

end

section \<open>The directives\<close>

definition number_spec :: "dir \<Rightarrow> pack_type \<Rightarrow> nat \<Rightarrow> u32 \<Rightarrow> spec" where
  "number_spec d ty w fl = \<lparr>sp_dir = d, sp_ty = ty, sp_size = w, sp_count = - 1, sp_flags = fl\<rparr>"

text \<open>What a number of a width reads back as.\<close>

definition num_wrap :: "spec \<Rightarrow> i64 \<Rightarrow> i64" where
  "num_wrap sp n = (let signed = has (sp_flags sp) F_SIGNED
     in case sp_dir sp of
         D_Char \<Rightarrow> if signed then scast (ucast n :: u8) else ucast (ucast n :: u8)
       | D_Short \<Rightarrow> if signed then scast (ucast n :: 16 word) else ucast (ucast n :: 16 word)
       | D_Long \<Rightarrow> if signed then scast (ucast n :: u32) else ucast (ucast n :: u32)
       | _ \<Rightarrow> n)"

text \<open>The numbers a directive holds.\<close>

definition num_fits :: "spec \<Rightarrow> i64 \<Rightarrow> bool" where
  "num_fits sp n = (case sp_dir sp of
      D_Quad \<Rightarrow> has (sp_flags sp) F_SIGNED \<or> n \<le> 0x7FFFFFFFFFFFFFFF
    | D_Ber \<Rightarrow> 0 \<le> sint n
    | D_Utf8 \<Rightarrow> utf8_to_buf n \<noteq> None
    | _ \<Rightarrow> True)"

definition num_bytes :: "spec \<Rightarrow> i64 \<Rightarrow> bytes" where
  "num_bytes sp n = (let le = has (sp_flags sp) F_LE
     in case sp_dir sp of
         D_Char \<Rightarrow> int_bytes n 1 True | D_Short \<Rightarrow> int_bytes n 2 le | D_Long \<Rightarrow> int_bytes n 4 le
       | D_Quad \<Rightarrow> int_bytes n 8 le | D_Ber \<Rightarrow> the (pack_ber n) | D_Utf8 \<Rightarrow> the (utf8_to_buf n) | _ \<Rightarrow> [])"

definition int_spec :: "spec \<Rightarrow> bool" where
  "int_spec sp \<longleftrightarrow> sp_ty sp = T_Integer \<and> \<not> has (sp_flags sp) F_COUNT2 \<and>
     (sp_dir sp, sp_size sp) \<in> {(D_Char, 1), (D_Short, 2), (D_Long, 4), (D_Quad, 8), (D_Ber, 0), (D_Utf8, 0)}"

lemma get_back [simp]:
  "ucast (get_int (int_bytes n 2 le @ rest) 2 le) = (ucast n :: 16 word)"
  "ucast (get_int (int_bytes n 4 le @ rest) 4 le) = (ucast n :: u32)"
  "get_int (int_bytes n 8 le @ rest) 8 le = n"
  unfolding get_put_int by (rule bit_word_eqI, simp add: bit_simps; fail)+

lemma get_char [simp]: "(int_bytes n 1 True @ rest) ! 0 = ucast n" "(int_bytes n (Suc 0) True @ rest) ! 0 = ucast n"
  by (simp_all add: int_bytes_def)

lemma pack_ber_Some: "0 \<le> sint n \<Longrightarrow> \<exists>bs. pack_ber n = Some bs"
  by (simp add: pack_ber_def Let_def)

interpretation ints: number_directive env sp "\<lambda>n. int_spec sp \<and> num_fits sp n" VInt "num_bytes sp" "\<lambda>n. VInt (num_wrap sp n)"
proof (unfold_locales, goal_cases)
  case (1 n count)
  then show ?case using pack_ber_Some [of n]
    by (auto simp: item_bytes_def int_arg_def int_spec_def num_fits_def num_bytes_def fun_eq_iff ret_def andthen_def Let_def)
next
  case (2 n rest)
  then show ?case using pack_ber_Some [of n] ber_round(1) [of n] utf8_round(1) [of n]
    by (auto simp: unpack_one_def int_spec_def num_fits_def num_bytes_def num_wrap_def Let_def)
next
  case (3 n)
  then show ?case by (auto simp: int_spec_def num_bytes_def)
next
  case (4 n)
  then show ?case using pack_ber_Some [of n] ber_round(2) [of n] utf8_round(2) [of n]
    by (auto simp: int_spec_def num_fits_def num_bytes_def int_bytes_def)
next
  case (5 xs)
  then show ?case by (cases xs) (auto simp: int_spec_def number_dirs_def)
qed

interpretation doubles: number_directive env "number_spec D_Double T_Float 8 (fl AND NOT F_COUNT2)" "\<lambda>_. True" VFloat
  "\<lambda>f. int_bytes f 8 (has (fl AND NOT F_COUNT2) F_LE)" VFloat
proof (unfold_locales, goal_cases)
  case (5 xs)
  have "(fl AND NOT F_COUNT2) AND F_COUNT2 = 0" by (rule bit_word_eqI) (auto simp: bit_simps)
  then show ?case by (simp add: number_spec_def has_def number_dirs_def)
qed (auto simp: item_bytes_def float_arg_def number_spec_def unpack_one_def Let_def int_bytes_def fun_eq_iff ret_def andthen_def get_back(3) [unfolded int_bytes_def])

section \<open>What the template reader answers\<close>

lemma has_or: "g AND f = 0 \<Longrightarrow> has (fl OR g) f = has fl f"
  by (simp add: has_def word_ao_dist)

lemma has_count2 [simp]:
  "has (fl OR F_LT) F_COUNT2 = has fl F_COUNT2" "has (fl OR F_GT) F_COUNT2 = has fl F_COUNT2"
  "has (fl OR F_LE) F_COUNT2 = has fl F_COUNT2"
  by (rule has_or, simp add: pack_flags)+

lemma with_order_count2 [simp]: "has (with_order fl) F_COUNT2 = has fl F_COUNT2"
  by (simp add: with_order_def)

lemma read_suffix_count2: "read_suffix c ty n fl s = Inr (n', fl', s') \<Longrightarrow> has fl' F_COUNT2 = has fl F_COUNT2"
proof (induction c ty n fl s rule: read_suffix.induct)
  case (2 c ty count flags ch s)
  then show ?case by (auto simp del: read_digits.simps split: if_splits option.splits)
qed simp

lemma format_table_ints:
  "list_all (\<lambda>(k, d, ty, w, fl). ty = T_Integer \<longrightarrow> \<not> has fl F_COUNT2 \<and>
     (d, w) \<in> {(D_Char, 1), (D_Short, 2), (D_Long, 4), (D_Quad, 8), (D_Ber, 0), (D_Utf8, 0)}) format_table"
  by (simp add: format_table_def has_def pack_flags)

lemma format_info_int:
  assumes "format_info c = (d, T_Integer, w, fl)"
  shows "\<not> has fl F_COUNT2" "(d, w) \<in> {(D_Char, 1), (D_Short, 2), (D_Long, 4), (D_Quad, 8), (D_Ber, 0), (D_Utf8, 0)}"
proof -
  have "map_of (map (\<lambda>(k, v). (byte_of k, v)) format_table) c = Some (d, T_Integer, w, fl)"
    using assms by (simp add: format_info_def split: option.splits)
  then have "(c, d, T_Integer, w, fl) \<in> (\<lambda>(k, v). (byte_of k, v)) ` set format_table"
    by (auto dest!: map_of_SomeD)
  then show "\<not> has fl F_COUNT2" "(d, w) \<in> {(D_Char, 1), (D_Short, 2), (D_Long, 4), (D_Quad, 8), (D_Ber, 0), (D_Utf8, 0)}"
    using format_table_ints by (auto simp: list_all_iff)
qed

lemma read_tmpl_int_spec: "read_tmpl t = Inr (sp, r) \<Longrightarrow> sp_ty sp = T_Integer \<Longrightarrow> int_spec sp"
proof (induction t rule: read_tmpl.induct)
  case 1
  then show ?case by (auto simp: no_spec_def)
next
  case (2 c s)
  show ?case
  proof (cases "is_space c \<or> c = byte_of CHR ''#''")
    case True
    then show ?thesis using 2 by (cases "is_space c") auto
  next
    case False
    obtain d ty w fl where f: "format_info (pack_alias c) = (d, ty, w, fl)" by (cases "format_info (pack_alias c)")
    with False "2.prems" obtain n' fl' where
      "read_suffix (pack_alias c) ty 1 fl s = Inr (n', fl', r)"
      and sp: "sp = \<lparr>sp_dir = d, sp_ty = ty, sp_size = w, sp_count = n', sp_flags = with_order fl'\<rparr>" and ty: "ty = T_Integer"
      by (auto simp: Let_def split: if_splits sum.splits)
    then show ?thesis using read_suffix_count2 format_info_int [of "pack_alias c" d w fl] f
      by (auto simp: int_spec_def)
  qed
qed

end
