(* ===== verification/Opcode.thy ===== *)
theory Opcode
  imports Prelude
begin

text \<open>
  The instruction set (\<open>src/opcode.rs\<close>, generated from mruby's \<open>ops.h\<close>): the opcodes in the order of
  their discriminants, the decoding of a byte, the names and the operand layouts. The tables are the
  source's, in the source's order.
\<close>

section \<open>The tables\<close>

datatype operands = Oper_Z | Oper_B | Oper_BB | Oper_BBB | Oper_BS | Oper_BSS | Oper_S | Oper_W

text \<open>
  An opcode is its discriminant (\<open>#[repr(u8)]\<close>), and the names stand for the discriminants in
  declaration order.
\<close>

datatype opcode = Opcode nat

abbreviation Op_Nop :: opcode where "Op_Nop \<equiv> Opcode 0"
abbreviation Op_Move :: opcode where "Op_Move \<equiv> Opcode 1"
abbreviation Op_Loadl :: opcode where "Op_Loadl \<equiv> Opcode 2"
abbreviation Op_Loadi8 :: opcode where "Op_Loadi8 \<equiv> Opcode 3"
abbreviation Op_Loadineg :: opcode where "Op_Loadineg \<equiv> Opcode 4"
abbreviation Op_LoadiM1 :: opcode where "Op_LoadiM1 \<equiv> Opcode 5"
abbreviation Op_Loadi0 :: opcode where "Op_Loadi0 \<equiv> Opcode 6"
abbreviation Op_Loadi1 :: opcode where "Op_Loadi1 \<equiv> Opcode 7"
abbreviation Op_Loadi2 :: opcode where "Op_Loadi2 \<equiv> Opcode 8"
abbreviation Op_Loadi3 :: opcode where "Op_Loadi3 \<equiv> Opcode 9"
abbreviation Op_Loadi4 :: opcode where "Op_Loadi4 \<equiv> Opcode 10"
abbreviation Op_Loadi5 :: opcode where "Op_Loadi5 \<equiv> Opcode 11"
abbreviation Op_Loadi6 :: opcode where "Op_Loadi6 \<equiv> Opcode 12"
abbreviation Op_Loadi7 :: opcode where "Op_Loadi7 \<equiv> Opcode 13"
abbreviation Op_Loadi16 :: opcode where "Op_Loadi16 \<equiv> Opcode 14"
abbreviation Op_Loadi32 :: opcode where "Op_Loadi32 \<equiv> Opcode 15"
abbreviation Op_Loadsym :: opcode where "Op_Loadsym \<equiv> Opcode 16"
abbreviation Op_Loadnil :: opcode where "Op_Loadnil \<equiv> Opcode 17"
abbreviation Op_Loadself :: opcode where "Op_Loadself \<equiv> Opcode 18"
abbreviation Op_Loadtrue :: opcode where "Op_Loadtrue \<equiv> Opcode 19"
abbreviation Op_Loadfalse :: opcode where "Op_Loadfalse \<equiv> Opcode 20"
abbreviation Op_Getgv :: opcode where "Op_Getgv \<equiv> Opcode 21"
abbreviation Op_Setgv :: opcode where "Op_Setgv \<equiv> Opcode 22"
abbreviation Op_Getsv :: opcode where "Op_Getsv \<equiv> Opcode 23"
abbreviation Op_Setsv :: opcode where "Op_Setsv \<equiv> Opcode 24"
abbreviation Op_Getiv :: opcode where "Op_Getiv \<equiv> Opcode 25"
abbreviation Op_Setiv :: opcode where "Op_Setiv \<equiv> Opcode 26"
abbreviation Op_Getcv :: opcode where "Op_Getcv \<equiv> Opcode 27"
abbreviation Op_Setcv :: opcode where "Op_Setcv \<equiv> Opcode 28"
abbreviation Op_Getconst :: opcode where "Op_Getconst \<equiv> Opcode 29"
abbreviation Op_Setconst :: opcode where "Op_Setconst \<equiv> Opcode 30"
abbreviation Op_Getmcnst :: opcode where "Op_Getmcnst \<equiv> Opcode 31"
abbreviation Op_Setmcnst :: opcode where "Op_Setmcnst \<equiv> Opcode 32"
abbreviation Op_Getupvar :: opcode where "Op_Getupvar \<equiv> Opcode 33"
abbreviation Op_Setupvar :: opcode where "Op_Setupvar \<equiv> Opcode 34"
abbreviation Op_Getidx :: opcode where "Op_Getidx \<equiv> Opcode 35"
abbreviation Op_Getidx0 :: opcode where "Op_Getidx0 \<equiv> Opcode 36"
abbreviation Op_Setidx :: opcode where "Op_Setidx \<equiv> Opcode 37"
abbreviation Op_Jmp :: opcode where "Op_Jmp \<equiv> Opcode 38"
abbreviation Op_Jmpif :: opcode where "Op_Jmpif \<equiv> Opcode 39"
abbreviation Op_Jmpnot :: opcode where "Op_Jmpnot \<equiv> Opcode 40"
abbreviation Op_Jmpnil :: opcode where "Op_Jmpnil \<equiv> Opcode 41"
abbreviation Op_Jmpuw :: opcode where "Op_Jmpuw \<equiv> Opcode 42"
abbreviation Op_Except :: opcode where "Op_Except \<equiv> Opcode 43"
abbreviation Op_Rescue :: opcode where "Op_Rescue \<equiv> Opcode 44"
abbreviation Op_Raiseif :: opcode where "Op_Raiseif \<equiv> Opcode 45"
abbreviation Op_Matcherr :: opcode where "Op_Matcherr \<equiv> Opcode 46"
abbreviation Op_Ssend :: opcode where "Op_Ssend \<equiv> Opcode 47"
abbreviation Op_Ssend0 :: opcode where "Op_Ssend0 \<equiv> Opcode 48"
abbreviation Op_Ssendb :: opcode where "Op_Ssendb \<equiv> Opcode 49"
abbreviation Op_Send :: opcode where "Op_Send \<equiv> Opcode 50"
abbreviation Op_Send0 :: opcode where "Op_Send0 \<equiv> Opcode 51"
abbreviation Op_Sendb :: opcode where "Op_Sendb \<equiv> Opcode 52"
abbreviation Op_Call :: opcode where "Op_Call \<equiv> Opcode 53"
abbreviation Op_Blkcall :: opcode where "Op_Blkcall \<equiv> Opcode 54"
abbreviation Op_Super :: opcode where "Op_Super \<equiv> Opcode 55"
abbreviation Op_Argary :: opcode where "Op_Argary \<equiv> Opcode 56"
abbreviation Op_Enter :: opcode where "Op_Enter \<equiv> Opcode 57"
abbreviation Op_KeyP :: opcode where "Op_KeyP \<equiv> Opcode 58"
abbreviation Op_Keyend :: opcode where "Op_Keyend \<equiv> Opcode 59"
abbreviation Op_Karg :: opcode where "Op_Karg \<equiv> Opcode 60"
abbreviation Op_Return :: opcode where "Op_Return \<equiv> Opcode 61"
abbreviation Op_ReturnBlk :: opcode where "Op_ReturnBlk \<equiv> Opcode 62"
abbreviation Op_Retself :: opcode where "Op_Retself \<equiv> Opcode 63"
abbreviation Op_Retnil :: opcode where "Op_Retnil \<equiv> Opcode 64"
abbreviation Op_Rettrue :: opcode where "Op_Rettrue \<equiv> Opcode 65"
abbreviation Op_Retfalse :: opcode where "Op_Retfalse \<equiv> Opcode 66"
abbreviation Op_Break :: opcode where "Op_Break \<equiv> Opcode 67"
abbreviation Op_Blkpush :: opcode where "Op_Blkpush \<equiv> Opcode 68"
abbreviation Op_Add :: opcode where "Op_Add \<equiv> Opcode 69"
abbreviation Op_Addi :: opcode where "Op_Addi \<equiv> Opcode 70"
abbreviation Op_Sub :: opcode where "Op_Sub \<equiv> Opcode 71"
abbreviation Op_Subi :: opcode where "Op_Subi \<equiv> Opcode 72"
abbreviation Op_Addilv :: opcode where "Op_Addilv \<equiv> Opcode 73"
abbreviation Op_Subilv :: opcode where "Op_Subilv \<equiv> Opcode 74"
abbreviation Op_Mul :: opcode where "Op_Mul \<equiv> Opcode 75"
abbreviation Op_Div :: opcode where "Op_Div \<equiv> Opcode 76"
abbreviation Op_Eq :: opcode where "Op_Eq \<equiv> Opcode 77"
abbreviation Op_Lt :: opcode where "Op_Lt \<equiv> Opcode 78"
abbreviation Op_Le :: opcode where "Op_Le \<equiv> Opcode 79"
abbreviation Op_Gt :: opcode where "Op_Gt \<equiv> Opcode 80"
abbreviation Op_Ge :: opcode where "Op_Ge \<equiv> Opcode 81"
abbreviation Op_Array :: opcode where "Op_Array \<equiv> Opcode 82"
abbreviation Op_Array2 :: opcode where "Op_Array2 \<equiv> Opcode 83"
abbreviation Op_Arycat :: opcode where "Op_Arycat \<equiv> Opcode 84"
abbreviation Op_Arypush :: opcode where "Op_Arypush \<equiv> Opcode 85"
abbreviation Op_Arysplat :: opcode where "Op_Arysplat \<equiv> Opcode 86"
abbreviation Op_Aref :: opcode where "Op_Aref \<equiv> Opcode 87"
abbreviation Op_Aset :: opcode where "Op_Aset \<equiv> Opcode 88"
abbreviation Op_Apost :: opcode where "Op_Apost \<equiv> Opcode 89"
abbreviation Op_Intern :: opcode where "Op_Intern \<equiv> Opcode 90"
abbreviation Op_Symbol :: opcode where "Op_Symbol \<equiv> Opcode 91"
abbreviation Op_String :: opcode where "Op_String \<equiv> Opcode 92"
abbreviation Op_Strcat :: opcode where "Op_Strcat \<equiv> Opcode 93"
abbreviation Op_Hash :: opcode where "Op_Hash \<equiv> Opcode 94"
abbreviation Op_Hashadd :: opcode where "Op_Hashadd \<equiv> Opcode 95"
abbreviation Op_Hashcat :: opcode where "Op_Hashcat \<equiv> Opcode 96"
abbreviation Op_Lambda :: opcode where "Op_Lambda \<equiv> Opcode 97"
abbreviation Op_Block :: opcode where "Op_Block \<equiv> Opcode 98"
abbreviation Op_Method :: opcode where "Op_Method \<equiv> Opcode 99"
abbreviation Op_RangeInc :: opcode where "Op_RangeInc \<equiv> Opcode 100"
abbreviation Op_RangeExc :: opcode where "Op_RangeExc \<equiv> Opcode 101"
abbreviation Op_Oclass :: opcode where "Op_Oclass \<equiv> Opcode 102"
abbreviation Op_Class :: opcode where "Op_Class \<equiv> Opcode 103"
abbreviation Op_Module :: opcode where "Op_Module \<equiv> Opcode 104"
abbreviation Op_Exec :: opcode where "Op_Exec \<equiv> Opcode 105"
abbreviation Op_Def :: opcode where "Op_Def \<equiv> Opcode 106"
abbreviation Op_Tdef :: opcode where "Op_Tdef \<equiv> Opcode 107"
abbreviation Op_Sdef :: opcode where "Op_Sdef \<equiv> Opcode 108"
abbreviation Op_Alias :: opcode where "Op_Alias \<equiv> Opcode 109"
abbreviation Op_Undef :: opcode where "Op_Undef \<equiv> Opcode 110"
abbreviation Op_Sclass :: opcode where "Op_Sclass \<equiv> Opcode 111"
abbreviation Op_Tclass :: opcode where "Op_Tclass \<equiv> Opcode 112"
abbreviation Op_Debug :: opcode where "Op_Debug \<equiv> Opcode 113"
abbreviation Op_Err :: opcode where "Op_Err \<equiv> Opcode 114"
abbreviation Op_Ext1 :: opcode where "Op_Ext1 \<equiv> Opcode 115"
abbreviation Op_Ext2 :: opcode where "Op_Ext2 \<equiv> Opcode 116"
abbreviation Op_Ext3 :: opcode where "Op_Ext3 \<equiv> Opcode 117"
abbreviation Op_Stop :: opcode where "Op_Stop \<equiv> Opcode 118"

definition op_enum :: "opcode list" where
  "op_enum = [
    Op_Nop, Op_Move, Op_Loadl, Op_Loadi8, Op_Loadineg, Op_LoadiM1, Op_Loadi0, Op_Loadi1, Op_Loadi2,
    Op_Loadi3, Op_Loadi4, Op_Loadi5, Op_Loadi6, Op_Loadi7, Op_Loadi16, Op_Loadi32, Op_Loadsym,
    Op_Loadnil, Op_Loadself, Op_Loadtrue, Op_Loadfalse, Op_Getgv, Op_Setgv, Op_Getsv, Op_Setsv,
    Op_Getiv, Op_Setiv, Op_Getcv, Op_Setcv, Op_Getconst, Op_Setconst, Op_Getmcnst, Op_Setmcnst,
    Op_Getupvar, Op_Setupvar, Op_Getidx, Op_Getidx0, Op_Setidx, Op_Jmp, Op_Jmpif, Op_Jmpnot,
    Op_Jmpnil, Op_Jmpuw, Op_Except, Op_Rescue, Op_Raiseif, Op_Matcherr, Op_Ssend, Op_Ssend0,
    Op_Ssendb, Op_Send, Op_Send0, Op_Sendb, Op_Call, Op_Blkcall, Op_Super, Op_Argary, Op_Enter,
    Op_KeyP, Op_Keyend, Op_Karg, Op_Return, Op_ReturnBlk, Op_Retself, Op_Retnil, Op_Rettrue,
    Op_Retfalse, Op_Break, Op_Blkpush, Op_Add, Op_Addi, Op_Sub, Op_Subi, Op_Addilv, Op_Subilv,
    Op_Mul, Op_Div, Op_Eq, Op_Lt, Op_Le, Op_Gt, Op_Ge, Op_Array, Op_Array2, Op_Arycat, Op_Arypush,
    Op_Arysplat, Op_Aref, Op_Aset, Op_Apost, Op_Intern, Op_Symbol, Op_String, Op_Strcat, Op_Hash,
    Op_Hashadd, Op_Hashcat, Op_Lambda, Op_Block, Op_Method, Op_RangeInc, Op_RangeExc, Op_Oclass,
    Op_Class, Op_Module, Op_Exec, Op_Def, Op_Tdef, Op_Sdef, Op_Alias, Op_Undef, Op_Sclass,
    Op_Tclass, Op_Debug, Op_Err, Op_Ext1, Op_Ext2, Op_Ext3, Op_Stop]"

definition OP_COUNT :: nat where "OP_COUNT = 119"

text \<open>The arms of \<open>Op::from_u8\<close>.\<close>

definition op_arms :: "(nat \<times> opcode) list" where
  "op_arms = [
    (0, Op_Nop), (1, Op_Move), (2, Op_Loadl), (3, Op_Loadi8), (4, Op_Loadineg), (5, Op_LoadiM1),
    (6, Op_Loadi0), (7, Op_Loadi1), (8, Op_Loadi2), (9, Op_Loadi3), (10, Op_Loadi4),
    (11, Op_Loadi5), (12, Op_Loadi6), (13, Op_Loadi7), (14, Op_Loadi16), (15, Op_Loadi32),
    (16, Op_Loadsym), (17, Op_Loadnil), (18, Op_Loadself), (19, Op_Loadtrue), (20, Op_Loadfalse),
    (21, Op_Getgv), (22, Op_Setgv), (23, Op_Getsv), (24, Op_Setsv), (25, Op_Getiv), (26, Op_Setiv),
    (27, Op_Getcv), (28, Op_Setcv), (29, Op_Getconst), (30, Op_Setconst), (31, Op_Getmcnst),
    (32, Op_Setmcnst), (33, Op_Getupvar), (34, Op_Setupvar), (35, Op_Getidx), (36, Op_Getidx0),
    (37, Op_Setidx), (38, Op_Jmp), (39, Op_Jmpif), (40, Op_Jmpnot), (41, Op_Jmpnil),
    (42, Op_Jmpuw), (43, Op_Except), (44, Op_Rescue), (45, Op_Raiseif), (46, Op_Matcherr),
    (47, Op_Ssend), (48, Op_Ssend0), (49, Op_Ssendb), (50, Op_Send), (51, Op_Send0),
    (52, Op_Sendb), (53, Op_Call), (54, Op_Blkcall), (55, Op_Super), (56, Op_Argary),
    (57, Op_Enter), (58, Op_KeyP), (59, Op_Keyend), (60, Op_Karg), (61, Op_Return),
    (62, Op_ReturnBlk), (63, Op_Retself), (64, Op_Retnil), (65, Op_Rettrue), (66, Op_Retfalse),
    (67, Op_Break), (68, Op_Blkpush), (69, Op_Add), (70, Op_Addi), (71, Op_Sub), (72, Op_Subi),
    (73, Op_Addilv), (74, Op_Subilv), (75, Op_Mul), (76, Op_Div), (77, Op_Eq), (78, Op_Lt),
    (79, Op_Le), (80, Op_Gt), (81, Op_Ge), (82, Op_Array), (83, Op_Array2), (84, Op_Arycat),
    (85, Op_Arypush), (86, Op_Arysplat), (87, Op_Aref), (88, Op_Aset), (89, Op_Apost),
    (90, Op_Intern), (91, Op_Symbol), (92, Op_String), (93, Op_Strcat), (94, Op_Hash),
    (95, Op_Hashadd), (96, Op_Hashcat), (97, Op_Lambda), (98, Op_Block), (99, Op_Method),
    (100, Op_RangeInc), (101, Op_RangeExc), (102, Op_Oclass), (103, Op_Class), (104, Op_Module),
    (105, Op_Exec), (106, Op_Def), (107, Op_Tdef), (108, Op_Sdef), (109, Op_Alias),
    (110, Op_Undef), (111, Op_Sclass), (112, Op_Tclass), (113, Op_Debug), (114, Op_Err),
    (115, Op_Ext1), (116, Op_Ext2), (117, Op_Ext3), (118, Op_Stop)]"

definition op_from_u8 :: "u8 \<Rightarrow> opcode option" where
  "op_from_u8 b = map_of op_arms (unat b)"

definition OP_NAMES :: "string list" where
  "OP_NAMES = [
    ''NOP'', ''MOVE'', ''LOADL'', ''LOADI8'', ''LOADINEG'', ''LOADI__1'', ''LOADI_0'', ''LOADI_1'',
    ''LOADI_2'', ''LOADI_3'', ''LOADI_4'', ''LOADI_5'', ''LOADI_6'', ''LOADI_7'', ''LOADI16'',
    ''LOADI32'', ''LOADSYM'', ''LOADNIL'', ''LOADSELF'', ''LOADTRUE'', ''LOADFALSE'', ''GETGV'',
    ''SETGV'', ''GETSV'', ''SETSV'', ''GETIV'', ''SETIV'', ''GETCV'', ''SETCV'', ''GETCONST'',
    ''SETCONST'', ''GETMCNST'', ''SETMCNST'', ''GETUPVAR'', ''SETUPVAR'', ''GETIDX'', ''GETIDX0'',
    ''SETIDX'', ''JMP'', ''JMPIF'', ''JMPNOT'', ''JMPNIL'', ''JMPUW'', ''EXCEPT'', ''RESCUE'',
    ''RAISEIF'', ''MATCHERR'', ''SSEND'', ''SSEND0'', ''SSENDB'', ''SEND'', ''SEND0'', ''SENDB'',
    ''CALL'', ''BLKCALL'', ''SUPER'', ''ARGARY'', ''ENTER'', ''KEY_P'', ''KEYEND'', ''KARG'',
    ''RETURN'', ''RETURN_BLK'', ''RETSELF'', ''RETNIL'', ''RETTRUE'', ''RETFALSE'', ''BREAK'',
    ''BLKPUSH'', ''ADD'', ''ADDI'', ''SUB'', ''SUBI'', ''ADDILV'', ''SUBILV'', ''MUL'', ''DIV'',
    ''EQ'', ''LT'', ''LE'', ''GT'', ''GE'', ''ARRAY'', ''ARRAY2'', ''ARYCAT'', ''ARYPUSH'',
    ''ARYSPLAT'', ''AREF'', ''ASET'', ''APOST'', ''INTERN'', ''SYMBOL'', ''STRING'', ''STRCAT'',
    ''HASH'', ''HASHADD'', ''HASHCAT'', ''LAMBDA'', ''BLOCK'', ''METHOD'', ''RANGE_INC'',
    ''RANGE_EXC'', ''OCLASS'', ''CLASS'', ''MODULE'', ''EXEC'', ''DEF'', ''TDEF'', ''SDEF'',
    ''ALIAS'', ''UNDEF'', ''SCLASS'', ''TCLASS'', ''DEBUG'', ''ERR'', ''EXT1'', ''EXT2'', ''EXT3'',
    ''STOP'']"

definition OP_OPERANDS :: "operands list" where
  "OP_OPERANDS = [
    Oper_Z, Oper_BB, Oper_BB, Oper_BB, Oper_BB, Oper_B, Oper_B, Oper_B, Oper_B, Oper_B, Oper_B,
    Oper_B, Oper_B, Oper_B, Oper_BS, Oper_BSS, Oper_BB, Oper_B, Oper_B, Oper_B, Oper_B, Oper_BB,
    Oper_BB, Oper_BB, Oper_BB, Oper_BB, Oper_BB, Oper_BB, Oper_BB, Oper_BB, Oper_BB, Oper_BB,
    Oper_BB, Oper_BBB, Oper_BBB, Oper_B, Oper_BB, Oper_B, Oper_S, Oper_BS, Oper_BS, Oper_BS,
    Oper_S, Oper_B, Oper_BB, Oper_B, Oper_B, Oper_BBB, Oper_BB, Oper_BBB, Oper_BBB, Oper_BB,
    Oper_BBB, Oper_Z, Oper_BB, Oper_BB, Oper_BS, Oper_W, Oper_BB, Oper_Z, Oper_BB, Oper_B, Oper_B,
    Oper_Z, Oper_Z, Oper_Z, Oper_Z, Oper_B, Oper_BS, Oper_B, Oper_BB, Oper_B, Oper_BB, Oper_BBB,
    Oper_BBB, Oper_B, Oper_B, Oper_B, Oper_B, Oper_B, Oper_B, Oper_B, Oper_BB, Oper_BBB, Oper_B,
    Oper_BB, Oper_B, Oper_BBB, Oper_BBB, Oper_BBB, Oper_B, Oper_BB, Oper_BB, Oper_B, Oper_BB,
    Oper_BB, Oper_B, Oper_BB, Oper_BB, Oper_BB, Oper_B, Oper_B, Oper_B, Oper_BB, Oper_BB, Oper_BB,
    Oper_BB, Oper_BBB, Oper_BBB, Oper_BB, Oper_B, Oper_B, Oper_B, Oper_BBB, Oper_B, Oper_Z, Oper_Z,
    Oper_Z, Oper_Z]"

fun op_disc :: "opcode \<Rightarrow> nat" where
  "op_disc (Opcode n) = n"

definition op_name :: "opcode \<Rightarrow> string" where
  "op_name x = OP_NAMES ! op_disc x"

definition op_operands :: "opcode \<Rightarrow> operands" where
  "op_operands x = OP_OPERANDS ! op_disc x"

section \<open>The decoding of a byte\<close>

lemma op_lengths: "length op_enum = OP_COUNT" "length op_arms = OP_COUNT" "length OP_NAMES = OP_COUNT"
  "length OP_OPERANDS = OP_COUNT"
  by (simp_all add: op_enum_def op_arms_def OP_NAMES_def OP_OPERANDS_def OP_COUNT_def)

lemma op_enum_upt: "op_enum = map Opcode [0..<OP_COUNT]"
  by (simp add: op_enum_def OP_COUNT_def upt_rec)

lemma op_arms_upt: "op_arms = map (\<lambda>n. (n, Opcode n)) [0..<OP_COUNT]"
  by (simp add: op_arms_def OP_COUNT_def upt_rec)

lemma map_of_upt: "map_of (map (\<lambda>n. (n, f n)) [0..<k]) n = (if n < k then Some (f n) else None)"
  by (simp add: map_of_map_restrict)

lemma op_from_u8_disc: "op_from_u8 b = (if unat b < OP_COUNT then Some (Opcode (unat b)) else None)"
  by (simp add: op_from_u8_def op_arms_upt map_of_upt)

lemma op_names_distinct: "distinct OP_NAMES"
  by (simp add: OP_NAMES_def)

lemma op_from_u8_name_inj:
  assumes "op_from_u8 b = Some x" "op_from_u8 c = Some y" "op_name x = op_name y"
  shows "b = c"
proof -
  have "unat b < OP_COUNT" "unat c < OP_COUNT" "x = Opcode (unat b)" "y = Opcode (unat c)"
    using assms(1,2) by (auto simp: op_from_u8_disc split: if_splits)
  then have "unat b = unat c"
    using assms(3) op_names_distinct op_lengths(3) by (simp add: op_name_def nth_eq_iff_index_eq)
  then show ?thesis by (simp only: word_unat_eq_iff)
qed

end
