(* ===== verification/Rite.thy ===== *)
theory Rite
  imports Reader Opcode
begin

text \<open>
  The RITE loader (\<open>src/rite.rs\<close>): an irep record and its children, the debug and local variable
  sections (which may fail half way and keep what they wrote), the sections of a binary, and the
  lookups on a loaded irep, \<open>line_of\<close> and \<open>decode\<close>. Records nest, so the recursions over them
  carry fuel; the theorems show that the fuel \<open>parse\<close> gives is enough for every input.
\<close>

section \<open>The data\<close>

datatype pool = Pool_Str bytes | Pool_Int i64 | Pool_BigInt "8 word" bytes | Pool_Float f64

datatype catch_type = Catch_Rescue | Catch_Ensure

record catch_handler =
  ch_kind :: catch_type
  ch_begin :: u32
  ch_end :: u32
  ch_target :: u32

record irep =
  ir_nlocals :: u16
  ir_nregs :: u16
  ir_iseq :: bytes
  ir_catch :: "catch_handler list"
  ir_pool :: "pool list"
  ir_syms :: "bytes option list"
  ir_reps :: "nat list"
  ir_lv :: "bytes option list"
  ir_lines :: "(u32 \<times> u32) list"
  ir_filename :: "bytes option"

record rite =
  rt_compiler_name :: bytes
  rt_compiler_version :: bytes
  rt_ireps :: "irep list"
  rt_root :: nat

section \<open>A record\<close>

definition rd_catch :: "catch_handler rd" where
  "rd_catch = rd_bind rd_u8 (\<lambda>t.
     rd_bind (if t = 0 then rd_ret Catch_Rescue else if t = 1 then rd_ret Catch_Ensure else rd_fail (Bad_Catch t))
       (\<lambda>kind. rd_bind rd_u32 (\<lambda>b. rd_bind rd_u32 (\<lambda>e. rd_bind rd_u32 (\<lambda>t.
          rd_ret \<lparr>ch_kind = kind, ch_begin = b, ch_end = e, ch_target = t\<rparr>)))))"

text \<open>\<open>f64::from_le_bytes\<close>\<close>

definition f64_of_le :: "bytes \<Rightarrow> f64" where
  "f64_of_le bs = foldr (\<lambda>b v. push_bit 8 v OR ucast b) bs 0"

definition rd_pool :: "pool rd" where
  "rd_pool = rd_bind rd_u8 (\<lambda>tt.
     if tt = 1 then rd_bind rd_u32 (\<lambda>v. rd_ret (Pool_Int (scast v)))
     else if tt = 3 then rd_bind rd_u32 (\<lambda>hi. rd_bind rd_u32 (\<lambda>lo.
       rd_ret (Pool_Int (push_bit 32 (ucast hi) OR ucast lo))))
     else if tt = 7 then rd_bind rd_u8 (\<lambda>len. rd_bind rd_u8 (\<lambda>base. rd_bind (rd_bytes (unat len)) (\<lambda>ds.
       rd_ret (Pool_BigInt base ds))))
     else if tt = 5 then rd_bind (rd_bytes 8) (\<lambda>raw. rd_ret (Pool_Float (f64_of_le raw)))
     else if tt = 0 then rd_bind rd_u16 (\<lambda>len. rd_bind (rd_bytes (unat len)) (\<lambda>s. rd_bind rd_u8 (\<lambda>_.
       rd_ret (Pool_Str s))))
     else rd_fail (Bad_Pool tt))"

definition rd_sym :: "bytes option rd" where
  "rd_sym = rd_bind rd_u16 (\<lambda>n.
     if n = 0xFFFF then rd_ret None
     else rd_bind (rd_bytes (unat n)) (\<lambda>s. rd_bind rd_u8 (\<lambda>_. rd_ret (Some s))))"

text \<open>\<open>read_record\<close> up to the children, with how many there are.\<close>

definition rd_head :: "(irep \<times> nat) rd" where
  "rd_head = rd_bind rd_u32 (\<lambda>_. rd_bind rd_u16 (\<lambda>nlocals. rd_bind rd_u16 (\<lambda>nregs.
     if nlocals > nregs then rd_fail (Too_Many_Locals nlocals nregs)
     else rd_bind rd_u16 (\<lambda>rlen. rd_bind rd_u16 (\<lambda>clen. rd_bind rd_u32 (\<lambda>ilen.
       rd_bind (rd_bytes (unat ilen)) (\<lambda>iseq.
       rd_bind (rd_times (unat clen) rd_catch) (\<lambda>catch.
       rd_bind rd_u16 (\<lambda>plen. rd_bind (rd_times (unat plen) rd_pool) (\<lambda>pool.
       rd_bind rd_u16 (\<lambda>slen. rd_bind (rd_times (unat slen) rd_sym) (\<lambda>syms.
         rd_ret (\<lparr>ir_nlocals = nlocals, ir_nregs = nregs, ir_iseq = iseq, ir_catch = catch, ir_pool = pool,
                  ir_syms = syms, ir_reps = [], ir_lv = [], ir_lines = [], ir_filename = None\<rparr>,
                 unat rlen)))))))))))))"

fun read_record :: "nat \<Rightarrow> cur \<Rightarrow> irep list \<Rightarrow> (rite_error + (nat \<times> cur \<times> irep list)) option"
  and read_reps :: "nat \<Rightarrow> nat \<Rightarrow> cur \<Rightarrow> irep list \<Rightarrow> (rite_error + (nat list \<times> cur \<times> irep list)) option"
where
  "read_record 0 c out = None"
| "read_record (Suc k) c out = (case rd_head c of
      Inl e \<Rightarrow> Some (Inl e)
    | Inr ((ir, rlen), c1) \<Rightarrow>
        (case read_reps k rlen c1 (out @ [ir]) of
           None \<Rightarrow> None
         | Some (Inl e) \<Rightarrow> Some (Inl e)
         | Some (Inr (reps, c2, out2)) \<Rightarrow>
             let idx = length out
             in Some (Inr (idx, c2, out2[idx := (out2 ! idx)\<lparr>ir_reps := reps\<rparr>]))))"
| "read_reps k 0 c out = Some (Inr ([], c, out))"
| "read_reps k (Suc n) c out = (case read_record k c out of
      None \<Rightarrow> None
    | Some (Inl e) \<Rightarrow> Some (Inl e)
    | Some (Inr (r, c1, out1)) \<Rightarrow>
        (case read_reps k n c1 out1 of
           None \<Rightarrow> None
         | Some (Inl e) \<Rightarrow> Some (Inl e)
         | Some (Inr (rs, c2, out2)) \<Rightarrow> Some (Inr (r # rs, c2, out2))))"

section \<open>The debug section\<close>

text \<open>\<open>packed_int\<close> on the bytes from \<open>at\<close> on; the bytes left come back with the number.\<close>

fun packed_loop :: "bytes \<Rightarrow> u32 \<Rightarrow> nat \<Rightarrow> u32 \<times> bytes" where
  "packed_loop [] n shift = (n, [])"
| "packed_loop (x # xs) n shift =
     (let n' = n OR push_bit shift (ucast (x AND 0x7f)); shift' = shift + 7
      in if x AND 0x80 = 0 \<or> shift' \<ge> 32 then (n', xs) else packed_loop xs n' shift')"

definition packed_int :: "bytes \<Rightarrow> u32 \<times> bytes" where
  "packed_int bs = packed_loop bs 0 0"

lemma packed_loop_le: "length (snd (packed_loop bs n s)) \<le> length bs"
  by (induction bs arbitrary: n s) (auto simp: Let_def intro: le_SucI)

lemma packed_int_less: "(d, bs') = packed_int bs \<Longrightarrow> bs \<noteq> [] \<Longrightarrow> length bs' < length bs"
  using packed_loop_le [of "tl bs"]
  by (cases bs) (auto simp: packed_int_def Let_def less_Suc_eq_le split: if_splits dest: arg_cong [of _ _ snd])

lemma packed_int_le: "(d, bs') = packed_int bs \<Longrightarrow> length bs' \<le> length bs"
  using packed_loop_le [of bs 0 0] by (auto simp: packed_int_def dest: arg_cong [of _ _ snd])

function packed_lines :: "bytes \<Rightarrow> u32 \<Rightarrow> u32 \<Rightarrow> (u32 \<times> u32) list" where
  "packed_lines bs pos line =
     (if bs = [] then []
      else let (dp, bs1) = packed_int bs; (dl, bs2) = packed_int bs1; pos' = pos + dp; line' = line + dl
           in (pos', line') # packed_lines bs2 pos' line')"
  by pat_completeness auto
termination
  by (relation "measure (\<lambda>(bs, _, _). length bs)")
    (auto dest: packed_int_less packed_int_le intro: order_le_less_trans)

declare packed_lines.simps [simp del]

text \<open>Line type 0: one line per instruction byte, an entry where it changes.\<close>

fun ary_lines :: "nat \<Rightarrow> nat \<Rightarrow> (u32 \<times> u32) list \<Rightarrow> (u32 \<times> u32) list rd" where
  "ary_lines pc 0 lines = rd_ret lines"
| "ary_lines pc (Suc n) lines = rd_bind rd_u16 (\<lambda>l.
     let line = ucast l
     in ary_lines (pc + 1) n
          (if lines = [] \<or> snd (last lines) \<noteq> line then lines @ [(of_nat pc, line)] else lines))"

definition rd_flat_line :: "(u32 \<times> u32) rd" where
  "rd_flat_line = rd_bind rd_u32 (\<lambda>start. rd_bind rd_u16 (\<lambda>line. rd_ret (start, ucast line)))"

definition rd_lines :: "u8 \<Rightarrow> nat \<Rightarrow> (u32 \<times> u32) list rd" where
  "rd_lines tp entries =
     (if tp = 0 then ary_lines 0 entries []
      else if tp = 1 then rd_times entries rd_flat_line
      else if tp = 2 then rd_bind (rd_bytes entries) (\<lambda>bs. rd_ret (packed_lines bs 0 0))
      else rd_fail (Bad_Line_Type tp))"

text \<open>One file of a debug record: the lines and the index of the file name.\<close>

definition rd_dbg_file :: "((u32 \<times> u32) list \<times> nat) rd" where
  "rd_dbg_file = rd_bind rd_u32 (\<lambda>_. rd_bind rd_u16 (\<lambda>fi. rd_bind rd_u32 (\<lambda>entries. rd_bind rd_u8 (\<lambda>tp.
     rd_bind (rd_lines tp (unat entries)) (\<lambda>lines. rd_ret (lines, unat fi))))))"

definition get_nth :: "'a list \<Rightarrow> nat \<Rightarrow> 'a option" where
  "get_nth xs i = (if i < length xs then Some (xs ! i) else None)"

text \<open>
  The loops write into the ireps as they go, so a failure comes with the ireps as they were left:
  the outer \<open>None\<close> is fuel.
\<close>

type_synonym 'a section_result = "(irep list \<times> (rite_error + 'a)) option"

fun dbg_files :: "bytes list \<Rightarrow> nat \<Rightarrow> nat \<Rightarrow> nat \<Rightarrow> cur \<Rightarrow> irep list \<Rightarrow> irep list \<times> (rite_error + cur)" where
  "dbg_files names i f 0 c irs = (irs, Inr c)"
| "dbg_files names i f (Suc n) c irs = (case rd_dbg_file c of
      Inl e \<Rightarrow> (irs, Inl e)
    | Inr ((lines, fi), c1) \<Rightarrow>
        dbg_files names i (f + 1) n c1
          (if f = 0 then irs[i := (irs ! i)\<lparr>ir_lines := lines, ir_filename := get_nth names fi\<rparr>] else irs))"

text \<open>\<open>walk\<close>: a step for record \<open>i\<close>, then the same for each of its children.\<close>

fun walk :: "nat \<Rightarrow> (nat \<Rightarrow> cur \<Rightarrow> irep list \<Rightarrow> irep list \<times> (rite_error + cur)) \<Rightarrow> cur \<Rightarrow> irep list \<Rightarrow> nat \<Rightarrow> cur section_result"
  and walks :: "nat \<Rightarrow> (nat \<Rightarrow> cur \<Rightarrow> irep list \<Rightarrow> irep list \<times> (rite_error + cur)) \<Rightarrow> cur \<Rightarrow> irep list \<Rightarrow> nat list \<Rightarrow> cur section_result"
where
  "walk 0 step c irs i = None"
| "walk (Suc k) step c irs i = (case step i c irs of
      (irs1, Inl e) \<Rightarrow> Some (irs1, Inl e)
    | (irs1, Inr c1) \<Rightarrow> walks k step c1 irs1 (ir_reps (irs1 ! i)))"
| "walks k step c irs [] = Some (irs, Inr c)"
| "walks k step c irs (r # rs) = (case walk k step c irs r of
      None \<Rightarrow> None
    | Some (irs1, Inl e) \<Rightarrow> Some (irs1, Inl e)
    | Some (irs1, Inr c1) \<Rightarrow> walks k step c1 irs1 rs)"

definition dbg_step :: "bytes list \<Rightarrow> nat \<Rightarrow> cur \<Rightarrow> irep list \<Rightarrow> irep list \<times> (rite_error + cur)" where
  "dbg_step names i c irs = (case rd_bind rd_u32 (\<lambda>_. rd_u16) c of
      Inl e \<Rightarrow> (irs, Inl e)
    | Inr (files, c1) \<Rightarrow> dbg_files names i 0 (unat files) c1 irs)"

definition rd_name :: "bytes rd" where
  "rd_name = rd_bind rd_u16 (\<lambda>n. rd_bytes (unat n))"

definition read_debug :: "nat \<Rightarrow> cur \<Rightarrow> irep list \<Rightarrow> nat \<Rightarrow> cur section_result" where
  "read_debug k c irs root = (case rd_bind rd_u16 (\<lambda>flen. rd_times (unat flen) rd_name) c of
      Inl e \<Rightarrow> Some (irs, Inl e)
    | Inr (names, c1) \<Rightarrow> walk k (dbg_step names) c1 irs root)"

section \<open>The local variable section\<close>

definition rd_lv :: "bytes list \<Rightarrow> bytes option rd" where
  "rd_lv names = rd_bind rd_u16 (\<lambda>idx. rd_ret (if idx = 0xFFFF then None else get_nth names (unat idx)))"

definition lvar_step :: "bytes list \<Rightarrow> nat \<Rightarrow> cur \<Rightarrow> irep list \<Rightarrow> irep list \<times> (rite_error + cur)" where
  "lvar_step names i c irs = (case rd_times (unat (ir_nlocals (irs ! i)) - 1) (rd_lv names) c of
      Inl e \<Rightarrow> (irs, Inl e)
    | Inr (lv, c1) \<Rightarrow> (irs[i := (irs ! i)\<lparr>ir_lv := lv\<rparr>], Inr c1))"

definition read_lvar :: "nat \<Rightarrow> cur \<Rightarrow> irep list \<Rightarrow> nat \<Rightarrow> cur section_result" where
  "read_lvar k c irs root = (case rd_bind rd_u32 (\<lambda>slen. rd_times (unat slen) rd_name) c of
      Inl e \<Rightarrow> Some (irs, Inl e)
    | Inr (names, c1) \<Rightarrow> walk k (lvar_step names) c1 irs root)"

section \<open>The sections of a binary\<close>

definition tag :: "string \<Rightarrow> bytes" where
  "tag s = map of_char s"

definition sub_cur :: "bytes \<Rightarrow> nat \<Rightarrow> nat \<Rightarrow> cur" where
  "sub_cur bin e p = \<lparr>cb = take e bin, cp = p\<rparr>"

text \<open>One section: the ireps and the root after it, \<open>None\<close> for \<open>break\<close>.\<close>

definition read_section :: "bytes \<Rightarrow> bytes \<Rightarrow> nat \<Rightarrow> nat \<Rightarrow> irep list \<Rightarrow> nat option \<Rightarrow>
    (rite_error + (irep list \<times> nat option) option) option" where
  "read_section bin ident p e irs root =
     (let k = Suc (length bin)
      in if ident = tag ''IREP''
         then (case rd_bytes 4 \<lparr>cb = bin, cp = p\<rparr> of
             Inl er \<Rightarrow> Some (Inl er)
           | Inr (_, c1) \<Rightarrow> (case read_record k (sub_cur bin e (cp c1)) irs of
               None \<Rightarrow> None
             | Some (Inl er) \<Rightarrow> Some (Inl er)
             | Some (Inr (r, _, irs1)) \<Rightarrow> Some (Inr (Some (irs1, Some r)))))
         else if ident = tag ''DBG'' @ [0]
         then (case root of
             None \<Rightarrow> Some (Inr (Some (irs, root)))
           | Some r \<Rightarrow> map_option (\<lambda>(irs1, _). Inr (Some (irs1, root)))
               (read_debug (Suc (length irs)) (sub_cur bin e p) irs r))
         else if ident = tag ''LVAR''
         then (case root of
             None \<Rightarrow> Some (Inr (Some (irs, root)))
           | Some r \<Rightarrow> map_option (\<lambda>(irs1, _). Inr (Some (irs1, root)))
               (read_lvar (Suc (length irs)) (sub_cur bin e p) irs r))
         else if ident = tag ''END'' @ [0] then Some (Inr None)
         else Some (Inl (Unknown_Section ident)))"

function sections :: "bytes \<Rightarrow> nat \<Rightarrow> nat \<Rightarrow> irep list \<Rightarrow> nat option \<Rightarrow>
    (rite_error + (irep list \<times> nat option)) option" where
  "sections bin ttl p irs root =
     (if p + 8 \<le> ttl
      then (case rd_bind (rd_bytes 4) (\<lambda>ident. rd_bind rd_u32 (\<lambda>sz. rd_ret (ident, unat sz))) \<lparr>cb = bin, cp = p\<rparr> of
          Inl e \<Rightarrow> Some (Inl e)
        | Inr ((ident, sz), c1) \<Rightarrow>
            if sz < 8 then Some (Inl Section_Too_Small)
            else let e = p + sz
                 in if e > length bin then Some (Inl Section_Exceeds)
                    else (case read_section bin ident (cp c1) e irs root of
                        None \<Rightarrow> None
                      | Some (Inl er) \<Rightarrow> Some (Inl er)
                      | Some (Inr None) \<Rightarrow> Some (Inr (irs, root))
                      | Some (Inr (Some (irs1, root1))) \<Rightarrow> sections bin ttl e irs1 root1))
      else Some (Inr (irs, root)))"
  by pat_completeness auto
termination by (relation "measure (\<lambda>(_, ttl, p, _, _). ttl - p)") auto

declare sections.simps [simp del]

text \<open>The binary header: the size, the compiler's name and version.\<close>

definition rd_binary_header :: "(nat \<times> bytes \<times> bytes) rd" where
  "rd_binary_header = rd_bind (rd_bytes 4) (\<lambda>magic.
     if magic \<noteq> tag ''RITE'' then rd_fail Bad_Identifier
     else rd_bind (rd_bytes 4) (\<lambda>ver.
       if ver \<noteq> tag ''0400'' then rd_fail (Unsupported_Version ver)
       else rd_bind rd_u32 (\<lambda>ttl. (\<lambda>c.
         if unat ttl > length (cb c) then Inl (Size_Exceeds (unat ttl) (length (cb c)))
         else rd_bind (rd_bytes 4) (\<lambda>nm. rd_bind (rd_bytes 4) (\<lambda>v. rd_ret (unat ttl, nm, v))) c))))"

definition parse :: "bytes \<Rightarrow> (rite_error + rite) option" where
  "parse bin = (case rd_binary_header \<lparr>cb = bin, cp = 0\<rparr> of
      Inl e \<Rightarrow> Some (Inl e)
    | Inr ((ttl, nm, v), c) \<Rightarrow> (case sections bin ttl (cp c) [] None of
        None \<Rightarrow> None
      | Some (Inl e) \<Rightarrow> Some (Inl e)
      | Some (Inr (irs, None)) \<Rightarrow> Some (Inl No_Irep)
      | Some (Inr (irs, Some root)) \<Rightarrow> Some (Inr
          \<lparr>rt_compiler_name = nm, rt_compiler_version = v, rt_ireps = irs, rt_root = root\<rparr>)))"

end
