(* ===== verification/RiteLookup.thy ===== *)
theory RiteLookup
  imports Rite SortedDeque
begin

text \<open>
  Reading a loaded irep (\<open>src/rite.rs\<close>): the packed line numbers, \<open>line_of\<close> and the decoding of an
  instruction with its widening prefixes (\<open>decode\<close>).
\<close>

section \<open>Packed integers\<close>

text \<open>What \<open>packed_int\<close> decodes: seven bits per byte, the low ones first, the top bit set on all but the last.\<close>

function put_packed :: "u32 \<Rightarrow> bytes" where
  "put_packed v = (if v < 128 then [ucast v] else (ucast v OR 0x80) # put_packed (drop_bit 7 v))"
  by pat_completeness auto
termination
proof (relation "measure unat")
  fix v :: u32
  assume "\<not> v < 128"
  then have "0 < unat v" by (simp add: word_less_nat_alt)
  then have "unat v div 128 < unat v" by simp
  then show "(drop_bit 7 v, v) \<in> measure unat" by (simp add: unsigned_drop_bit_eq drop_bit_eq_div unat_div_distrib)
qed simp

declare put_packed.simps [simp del]

lemma low7: "(x :: u8) AND 0x7f = take_bit 7 x"
  by (simp add: take_bit_eq_mask mask_eq_decr_exp)

lemma top_bit_u8: "(x :: u8) AND 0x80 = 0 \<longleftrightarrow> \<not> bit x 7"
  using and_exp_eq_0_iff_not_bit [of x 7] by simp

lemma bit_u8_80: "bit (0x80 :: u8) j \<longleftrightarrow> j = 7"
proof -
  have "(0x80 :: u8) = 2 ^ 7" by simp
  then show ?thesis by (simp only: bit_exp_iff) auto
qed

lemma packed_step:
  fixes v :: u32
  shows "push_bit k (ucast (take_bit 7 (ucast v :: u8))) OR push_bit (k + 7) (drop_bit 7 v) = push_bit k v"
proof (rule bit_word_eqI)
  fix n
  consider "n < k" | "k \<le> n" "n < k + 7" | "k + 7 \<le> n" by linarith
  then show "bit (push_bit k (ucast (take_bit 7 (ucast v :: u8))) OR push_bit (k + 7) (drop_bit 7 v)) n = bit (push_bit k v) n"
    by cases (auto simp: bit_simps)
qed

lemma packed_more:
  fixes v :: u32
  shows "take_bit 7 ((ucast v :: u8) OR 0x80) = take_bit 7 (ucast v)" "bit ((ucast v :: u8) OR 0x80) 7"
  by (rule bit_word_eqI) (auto simp: bit_simps bit_u8_80)

lemma packed_last:
  fixes v :: u32
  assumes "v < 128"
  shows "\<not> bit (ucast v :: u8) 7" "ucast (take_bit 7 (ucast v :: u8)) = v"
proof -
  have t: "take_bit 7 v = v" by (rule take_bit_small) (use assms in \<open>simp_all add: word_less_nat_alt\<close>)
  have b: "bit v j \<Longrightarrow> j < 7" for j using t by (metis bit_take_bit_iff)
  show "\<not> bit (ucast v :: u8) 7" using b [of 7] by (auto simp: bit_simps)
  show "ucast (take_bit 7 (ucast v :: u8)) = v"
    by (rule bit_word_eqI) (auto simp: bit_simps dest: b)
qed

lemma packed_loop_put:
  "s \<le> 28 \<Longrightarrow> 7 dvd s \<Longrightarrow> unat v < 2 ^ (32 - s) \<Longrightarrow> packed_loop (put_packed v @ rest) n s = (n OR push_bit s v, rest)"
proof (induction v arbitrary: n s rule: put_packed.induct)
  case (1 v)
  show ?case
  proof (cases "v < 128")
    case True
    then show ?thesis by (subst put_packed.simps) (simp add: low7 top_bit_u8 packed_last)
  next
    case False
    then have v: "128 \<le> unat v" by (simp add: word_less_nat_alt)
    have s: "s + 7 < 32"
    proof (rule ccontr)
      assume "\<not> s + 7 < 32"
      then have "(2 :: nat) ^ (32 - s) \<le> 2 ^ 7" by (intro power_increasing) auto
      with v "1.prems" show False by simp
    qed
    obtain j where j: "s = 7 * j" using "1.prems"(2) by (rule dvdE)
    then have s28: "s + 7 \<le> 28" "7 dvd s + 7" using s by auto
    have "32 - s = (32 - (s + 7)) + 7" using s by simp
    then have "(2 :: nat) ^ (32 - s) = 2 ^ (32 - (s + 7)) * 2 ^ 7" by (simp only: power_add)
    then have "unat v div 2 ^ 7 < 2 ^ (32 - (s + 7))"
      using "1.prems"(3) by (simp add: div_less_iff_less_mult)
    then have d: "unat (drop_bit 7 v) < 2 ^ (32 - (s + 7))"
      by (simp add: unsigned_drop_bit_eq drop_bit_eq_div unat_div_distrib)
    have "packed_loop (put_packed v @ rest) n s =
        packed_loop (put_packed (drop_bit 7 v) @ rest) (n OR push_bit s (ucast (take_bit 7 (ucast v :: u8)))) (s + 7)"
      using False s by (subst put_packed.simps)
        (simp add: low7 top_bit_u8 packed_more del: drop_bit_numeral_bit1)
    also have "\<dots> = (n OR push_bit s v, rest)"
      unfolding "1.IH" [OF False s28 d] or.assoc packed_step ..
    finally show ?thesis .
  qed
qed

lemma packed_int_put: "packed_int (put_packed v @ rest) = (v, rest)"
  using packed_loop_put [of 0 v rest 0] unsigned_less [of v] by (simp add: packed_int_def)

section \<open>Lines\<close>

definition line_of :: "irep \<Rightarrow> nat \<Rightarrow> u32 option" where
  "line_of ir pc =
     (let i = partition_point (\<lambda>(start, _). start \<le> of_nat pc) (ir_lines ir)
      in if i = 0 then None else Some (snd (ir_lines ir ! (i - 1))))"

section \<open>Instructions\<close>

definition is_ext :: "opcode \<Rightarrow> bool" where
  "is_ext x \<longleftrightarrow> x \<in> {Op_Ext1, Op_Ext2, Op_Ext3}"

definition rd_b :: "bytes \<Rightarrow> nat \<Rightarrow> (u32 \<times> nat) option" where
  "rd_b s p = (if p < length s then Some (ucast (s ! p), p + 1) else None)"

definition rd_s :: "bytes \<Rightarrow> nat \<Rightarrow> (u32 \<times> nat) option" where
  "rd_s s p = (if p + 1 < length s then Some (push_bit 8 (ucast (s ! p)) OR ucast (s ! (p + 1)), p + 2) else None)"

definition rd_w :: "bytes \<Rightarrow> nat \<Rightarrow> (u32 \<times> nat) option" where
  "rd_w s p = (if p + 2 < length s
     then Some (push_bit 16 (ucast (s ! p)) OR push_bit 8 (ucast (s ! (p + 1))) OR ucast (s ! (p + 2)), p + 3) else None)"

text \<open>The prefix loop: the opcode after any prefixes, the last prefix, and where its operands start.\<close>

function ext_loop :: "bytes \<Rightarrow> opcode \<Rightarrow> nat \<Rightarrow> nat \<Rightarrow> (opcode \<times> nat \<times> nat) option" where
  "ext_loop s x e p =
     (if is_ext x
      then (if p < length s
            then (case op_from_u8 (s ! p) of
                None \<Rightarrow> None
              | Some y \<Rightarrow> ext_loop s y (if x = Op_Ext1 then 1 else if x = Op_Ext2 then 2 else 3) (p + 1))
            else None)
      else Some (x, e, p))"
  by pat_completeness auto
termination by (relation "measure (\<lambda>(s, _, _, p). length s - p)") auto

declare ext_loop.simps [simp del]

definition rd_wide :: "bool \<Rightarrow> bytes \<Rightarrow> nat \<Rightarrow> (u32 \<times> nat) option" where
  "rd_wide wide s p = (if wide then rd_s s p else rd_b s p)"

definition rd_operands :: "operands \<Rightarrow> bool \<Rightarrow> bool \<Rightarrow> bytes \<Rightarrow> nat \<Rightarrow> (u32 \<times> u32 \<times> u32 \<times> nat) option" where
  "rd_operands l aw bw s p = (case l of
      Oper_Z \<Rightarrow> Some (0, 0, 0, p)
    | Oper_B \<Rightarrow> map_option (\<lambda>(a, p). (a, 0, 0, p)) (rd_wide aw s p)
    | Oper_BB \<Rightarrow> Option.bind (rd_wide aw s p) (\<lambda>(a, p). map_option (\<lambda>(b, p). (a, b, 0, p)) (rd_wide bw s p))
    | Oper_BBB \<Rightarrow> Option.bind (rd_wide aw s p) (\<lambda>(a, p). Option.bind (rd_wide bw s p) (\<lambda>(b, p).
        map_option (\<lambda>(c, p). (a, b, c, p)) (rd_b s p)))
    | Oper_BS \<Rightarrow> Option.bind (rd_wide aw s p) (\<lambda>(a, p). map_option (\<lambda>(b, p). (a, b, 0, p)) (rd_s s p))
    | Oper_BSS \<Rightarrow> Option.bind (rd_wide aw s p) (\<lambda>(a, p). Option.bind (rd_s s p) (\<lambda>(b, p).
        map_option (\<lambda>(c, p). (a, b, c, p)) (rd_s s p)))
    | Oper_S \<Rightarrow> map_option (\<lambda>(a, p). (a, 0, 0, p)) (rd_s s p)
    | Oper_W \<Rightarrow> map_option (\<lambda>(a, p). (a, 0, 0, p)) (rd_w s p))"

definition decode :: "irep \<Rightarrow> nat \<Rightarrow> (opcode \<times> u32 \<times> u32 \<times> u32 \<times> nat) option" where
  "decode ir pc =
     (let s = ir_iseq ir
      in if pc < length s
         then Option.bind (op_from_u8 (s ! pc)) (\<lambda>x0.
           Option.bind (ext_loop s x0 0 (pc + 1)) (\<lambda>(x, e, p).
             map_option (\<lambda>(a, b, c, p). (x, a, b, c, p))
               (rd_operands (op_operands x) (e = 1 \<or> e = 3) (e = 2 \<or> e = 3) s p)))
         else None)"

section \<open>The line of an instruction\<close>

lemma takeWhile_filter_sorted:
  fixes xs :: "('a :: linorder \<times> 'b) list"
  assumes "sorted (map fst xs)"
  shows "takeWhile (\<lambda>(x, _). x \<le> k) xs = filter (\<lambda>(x, _). x \<le> k) xs"
  using assms
proof (induction xs)
  case (Cons e xs)
  obtain a b where e: "e = (a, b)" by (cases e)
  show ?case
  proof (cases "a \<le> k")
    case True
    then show ?thesis using Cons e by simp
  next
    case False
    then have "filter (\<lambda>(x, _). x \<le> k) xs = []"
      using Cons.prems e by (auto simp: filter_empty_conv)
    then show ?thesis using e False by simp
  qed
qed simp

lemma line_of_last:
  assumes "sorted (map fst (ir_lines ir))"
  shows "line_of ir pc = (let es = filter (\<lambda>(start, _). start \<le> of_nat pc) (ir_lines ir)
     in if es = [] then None else Some (snd (last es)))"
proof -
  let ?P = "\<lambda>(start :: u32, _ :: u32). start \<le> of_nat pc" and ?l = "ir_lines ir"
  have f: "filter ?P ?l = takeWhile ?P ?l" using takeWhile_filter_sorted [OF assms] by simp
  have "last (takeWhile ?P ?l) = ?l ! (length (takeWhile ?P ?l) - 1)" if "takeWhile ?P ?l \<noteq> []"
    using that takeWhile_nth [of "length (takeWhile ?P ?l) - 1" ?P ?l] by (simp add: last_conv_nth)
  then show ?thesis
    unfolding f by (simp add: line_of_def partition_point_def Let_def)
qed

section \<open>Decoding reads back an instruction\<close>

text \<open>An instruction as the compiler writes it: the prefix, the opcode, the operands at their widths.\<close>

definition put_wide :: "bool \<Rightarrow> u32 \<Rightarrow> bytes" where
  "put_wide wide v = (if wide then [ucast (drop_bit 8 v), ucast v] else [ucast v])"

definition put_operands :: "operands \<Rightarrow> bool \<Rightarrow> bool \<Rightarrow> u32 \<Rightarrow> u32 \<Rightarrow> u32 \<Rightarrow> bytes" where
  "put_operands l aw bw a b c = (case l of
      Oper_Z \<Rightarrow> []
    | Oper_B \<Rightarrow> put_wide aw a
    | Oper_BB \<Rightarrow> put_wide aw a @ put_wide bw b
    | Oper_BBB \<Rightarrow> put_wide aw a @ put_wide bw b @ put_wide False c
    | Oper_BS \<Rightarrow> put_wide aw a @ put_wide True b
    | Oper_BSS \<Rightarrow> put_wide aw a @ put_wide True b @ put_wide True c
    | Oper_S \<Rightarrow> put_wide True a
    | Oper_W \<Rightarrow> [ucast (drop_bit 16 a), ucast (drop_bit 8 a), ucast a])"

definition fits :: "bool \<Rightarrow> u32 \<Rightarrow> bool" where
  "fits wide v \<longleftrightarrow> take_bit (if wide then 16 else 8) v = v"

definition operands_fit :: "operands \<Rightarrow> bool \<Rightarrow> bool \<Rightarrow> u32 \<Rightarrow> u32 \<Rightarrow> u32 \<Rightarrow> bool" where
  "operands_fit l aw bw a b c = (case l of
      Oper_Z \<Rightarrow> a = 0 \<and> b = 0 \<and> c = 0
    | Oper_B \<Rightarrow> fits aw a \<and> b = 0 \<and> c = 0
    | Oper_BB \<Rightarrow> fits aw a \<and> fits bw b \<and> c = 0
    | Oper_BBB \<Rightarrow> fits aw a \<and> fits bw b \<and> fits False c
    | Oper_BS \<Rightarrow> fits aw a \<and> fits True b \<and> c = 0
    | Oper_BSS \<Rightarrow> fits aw a \<and> fits True b \<and> fits True c
    | Oper_S \<Rightarrow> fits True a \<and> b = 0 \<and> c = 0
    | Oper_W \<Rightarrow> take_bit 24 a = a \<and> b = 0 \<and> c = 0)"

text \<open>\<open>e\<close> is the prefix: none, \<open>EXT1\<close>, \<open>EXT2\<close> or \<open>EXT3\<close>.\<close>

definition put_instr :: "nat \<Rightarrow> opcode \<Rightarrow> u32 \<Rightarrow> u32 \<Rightarrow> u32 \<Rightarrow> bytes" where
  "put_instr e x a b c = (if e = 0 then [] else [of_nat (114 + e)]) @ of_nat (op_disc x) #
     put_operands (op_operands x) (e = 1 \<or> e = 3) (e = 2 \<or> e = 3) a b c"

lemma split_byte:
  assumes "take_bit 8 (v :: u32) = v"
  shows "ucast (ucast v :: u8) = v"
proof (rule bit_word_eqI)
  fix n :: nat
  have b: "bit v j \<Longrightarrow> j < 8" for j using assms by (metis bit_take_bit_iff)
  show "bit (ucast (ucast v :: u8) :: u32) n = bit v n" by (auto simp: bit_simps dest: b)
qed

lemma split_short:
  assumes "take_bit 16 (v :: u32) = v"
  shows "push_bit 8 (ucast (ucast (drop_bit 8 v) :: u8)) OR ucast (ucast v :: u8) = v"
proof (rule bit_word_eqI)
  fix n :: nat
  have b: "bit v j \<Longrightarrow> j < 16" for j using assms by (metis bit_take_bit_iff)
  consider "n < 8" | "8 \<le> n" by linarith
  then show "bit (push_bit 8 (ucast (ucast (drop_bit 8 v) :: u8)) OR ucast (ucast v :: u8) :: u32) n = bit v n"
    by cases (auto simp: bit_simps dest: b)
qed

lemma split_triple:
  assumes "take_bit 24 (v :: u32) = v"
  shows "push_bit 16 (ucast (ucast (drop_bit 16 v) :: u8)) OR push_bit 8 (ucast (ucast (drop_bit 8 v) :: u8)) OR
    ucast (ucast v :: u8) = v"
proof (rule bit_word_eqI)
  fix n :: nat
  have b: "bit v j \<Longrightarrow> j < 24" for j using assms by (metis bit_take_bit_iff)
  consider "n < 8" | "8 \<le> n" "n < 16" | "16 \<le> n" by linarith
  then show "bit (push_bit 16 (ucast (ucast (drop_bit 16 v) :: u8)) OR push_bit 8 (ucast (ucast (drop_bit 8 v) :: u8)) OR
      ucast (ucast v :: u8) :: u32) n = bit v n"
    by cases (auto simp: bit_simps dest: b)
qed

text \<open>An operand in front of anything is read back, and the position moves past it.\<close>

lemma rd_wide_put:
  "fits wide v \<Longrightarrow> p = length pre \<Longrightarrow>
    rd_wide wide (pre @ put_wide wide v @ post) p = Some (v, p + length (put_wide wide v))"
  by (auto simp: rd_wide_def rd_s_def rd_b_def put_wide_def fits_def nth_append split_byte split_short)

lemmas rd_s_put = rd_wide_put [of True, unfolded rd_wide_def, simplified]
lemmas rd_b_put = rd_wide_put [of False, unfolded rd_wide_def, simplified]

lemma rd_operands_put:
  assumes "operands_fit l aw bw a b c"
  shows "rd_operands l aw bw (pre @ put_operands l aw bw a b c @ post) (length pre) =
    Some (a, b, c, length pre + length (put_operands l aw bw a b c))"
proof (cases l)
  case Oper_BB
  then show ?thesis
    using assms rd_wide_put [of aw a _ pre "put_wide bw b @ post"] rd_wide_put [of bw b _ "pre @ put_wide aw a" post]
    by (simp add: rd_operands_def put_operands_def operands_fit_def)
next
  case Oper_BBB
  then show ?thesis
    using assms rd_wide_put [of aw a _ pre "put_wide bw b @ put_wide False c @ post"]
      rd_wide_put [of bw b _ "pre @ put_wide aw a" "put_wide False c @ post"]
      rd_b_put [of c _ "pre @ put_wide aw a @ put_wide bw b" post]
    by (simp add: rd_operands_def put_operands_def operands_fit_def add.assoc)
next
  case Oper_BS
  then show ?thesis
    using assms rd_wide_put [of aw a _ pre "put_wide True b @ post"] rd_s_put [of b _ "pre @ put_wide aw a" post]
    by (simp add: rd_operands_def put_operands_def operands_fit_def)
next
  case Oper_BSS
  then show ?thesis
    using assms rd_wide_put [of aw a _ pre "put_wide True b @ put_wide True c @ post"]
      rd_s_put [of b _ "pre @ put_wide aw a" "put_wide True c @ post"]
      rd_s_put [of c _ "pre @ put_wide aw a @ put_wide True b" post]
    by (simp add: rd_operands_def put_operands_def operands_fit_def add.assoc)
next
  case Oper_W
  then show ?thesis
    using assms by (simp add: rd_operands_def put_operands_def operands_fit_def rd_w_def nth_append split_triple)
qed (use assms rd_wide_put rd_s_put in \<open>simp_all add: rd_operands_def put_operands_def operands_fit_def\<close>)

lemma op_from_u8_put: "n < OP_COUNT \<Longrightarrow> op_from_u8 (of_nat n) = Some (Opcode n)"
  by (simp add: op_from_u8_disc unat_of_nat OP_COUNT_def)

lemma ext_loop_plain: "\<not> is_ext x \<Longrightarrow> ext_loop s x e p = Some (x, e, p)"
  by (simp add: ext_loop.simps)

lemma ext_loop_prefix:
  assumes "0 < e" "e \<le> 3" "n < OP_COUNT" "\<not> is_ext (Opcode n)" "s ! p = of_nat n" "p < length s"
  shows "ext_loop s (Opcode (114 + e)) f p = Some (Opcode n, e, p + 1)"
proof -
  consider "e = 1" | "e = 2" | "e = 3" using assms(1,2) by linarith
  then show ?thesis
    by cases (use assms(3-) in \<open>subst ext_loop.simps, simp add: is_ext_def [of "Opcode (Suc _)"] is_ext_def [of "Opcode (numeral _)"]
      op_from_u8_put ext_loop_plain\<close>)+
qed

theorem decode_put:
  assumes x: "x = Opcode n" "n < OP_COUNT" "\<not> is_ext x" and e: "e \<le> 3"
    and fit: "operands_fit (op_operands x) (e = 1 \<or> e = 3) (e = 2 \<or> e = 3) a b c"
    and s: "ir_iseq ir = pre @ put_instr e x a b c @ post"
  shows "decode ir (length pre) = Some (x, a, b, c, length pre + length (put_instr e x a b c))"
proof -
  let ?ops = "put_operands (op_operands x) (e = 1 \<or> e = 3) (e = 2 \<or> e = 3) a b c"
  show ?thesis
  proof (cases "e = 0")
    case True
    have "ir_iseq ir = (pre @ [of_nat n]) @ ?ops @ post" using s True x(1) by (simp add: put_instr_def)
    then show ?thesis
      using rd_operands_put [OF fit, of "pre @ [of_nat n]" post] True x s
      by (simp add: decode_def put_instr_def Let_def nth_append op_from_u8_put ext_loop_plain)
  next
    case False
    have p: "ir_iseq ir = (pre @ [of_nat (114 + e), of_nat n]) @ ?ops @ post"
      using s False x(1) by (simp add: put_instr_def)
    have "114 + e < OP_COUNT" using e by (simp add: OP_COUNT_def)
    then have o0: "op_from_u8 (of_nat (114 + e)) = Some (Opcode (114 + e))" by (rule op_from_u8_put)
    have at: "ir_iseq ir ! length pre = of_nat (114 + e)" "ir_iseq ir ! Suc (length pre) = of_nat n"
      by (simp_all add: p nth_append del: of_nat_add)
    have l: "ext_loop (ir_iseq ir) (Opcode (114 + e)) 0 (Suc (length pre)) = Some (x, e, Suc (length pre) + 1)"
      unfolding x(1) by (rule ext_loop_prefix) (use False e x at p in auto)
    show ?thesis
      using rd_operands_put [OF fit, of "pre @ [of_nat (114 + e), of_nat n]" post] o0 at(1) l False x(1)
      unfolding decode_def Let_def by (simp add: p put_instr_def del: of_nat_add)
  qed
qed

text \<open>A decoded instruction lies within the sequence, ends past where it starts and is no prefix.\<close>

lemma rd_operands_bounds:
  "rd_operands l aw bw s p = Some (a, b, c, q) \<Longrightarrow> p \<le> length s \<Longrightarrow> p \<le> q \<and> q \<le> length s"
  by (cases l) (auto simp: rd_operands_def rd_wide_def rd_b_def rd_s_def rd_w_def bind_eq_Some_conv split: if_splits)

lemma ext_loop_bounds:
  "ext_loop s x e p = Some (y, f, q) \<Longrightarrow> p \<le> length s \<Longrightarrow> p \<le> q \<and> q \<le> length s \<and> \<not> is_ext y"
proof (induction s x e p rule: ext_loop.induct)
  case (1 s x e p)
  show ?case
  proof (cases "is_ext x")
    case True
    then obtain z where z: "p < length s" "op_from_u8 (s ! p) = Some z"
      using "1.prems"(1) by (subst (asm) ext_loop.simps) (auto split: if_splits option.splits)
    then show ?thesis
      using "1.IH" [OF True z] "1.prems" True by (subst (asm) (2) ext_loop.simps) simp
  next
    case False
    then show ?thesis using "1.prems" by (simp add: ext_loop_plain)
  qed
qed

theorem decode_bounds:
  assumes "decode ir pc = Some (x, a, b, c, q)"
  shows "pc < q \<and> q \<le> length (ir_iseq ir) \<and> \<not> is_ext x"
proof -
  obtain x0 e p where d: "pc < length (ir_iseq ir)" "ext_loop (ir_iseq ir) x0 0 (pc + 1) = Some (x, e, p)"
    "rd_operands (op_operands x) (e = 1 \<or> e = 3) (e = 2 \<or> e = 3) (ir_iseq ir) p = Some (a, b, c, q)"
    using assms by (auto simp: decode_def Let_def bind_eq_Some_conv split: if_splits)
  from d(1) have "pc + 1 \<le> length (ir_iseq ir)" by simp
  then show ?thesis using ext_loop_bounds [OF d(2)] rd_operands_bounds [OF d(3)] by auto
qed

end
