(* ===== verification/RiteRound.thy ===== *)
theory RiteRound
  imports Rite
begin

text \<open>
  The layout the header of \<open>src/rite.rs\<close> documents, written down as a writer over trees of ireps, and
  the proof that \<open>parse\<close> reads it back: every record, child and constant, in pre-order.
\<close>

section \<open>Items\<close>

definition put_catch :: "catch_handler \<Rightarrow> bytes" where
  "put_catch h = (case ch_kind h of Catch_Rescue \<Rightarrow> 0 | Catch_Ensure \<Rightarrow> 1) #
     put32 (ch_begin h) @ put32 (ch_end h) @ put32 (ch_target h)"

definition f64_to_le :: "f64 \<Rightarrow> bytes" where
  "f64_to_le f = map (\<lambda>i. ucast (drop_bit (8 * i) f)) [0..<8]"

fun put_pool :: "pool \<Rightarrow> bytes" where
  "put_pool (Pool_Int v) =
     (if scast (ucast v :: u32) = v then 1 # put32 (ucast v) else 3 # put32 (ucast (drop_bit 32 v)) @ put32 (ucast v))"
| "put_pool (Pool_BigInt base ds) = 7 # of_nat (length ds) # base # ds"
| "put_pool (Pool_Float f) = 5 # f64_to_le f"
| "put_pool (Pool_Str s) = 0 # put16 (of_nat (length s)) @ s @ [0]"

fun pool_ok :: "pool \<Rightarrow> bool" where
  "pool_ok (Pool_BigInt base ds) \<longleftrightarrow> length ds < 2 ^ 8"
| "pool_ok (Pool_Str s) \<longleftrightarrow> length s < 2 ^ 16"
| "pool_ok _ \<longleftrightarrow> True"

fun put_sym :: "bytes option \<Rightarrow> bytes" where
  "put_sym None = put16 0xFFFF"
| "put_sym (Some s) = put16 (of_nat (length s)) @ s @ [0]"

fun sym_ok :: "bytes option \<Rightarrow> bool" where
  "sym_ok None \<longleftrightarrow> True"
| "sym_ok (Some s) \<longleftrightarrow> length s < 0xFFFF"

lemma reads_bind_ret: "reads m bs x \<Longrightarrow> f x = rd_ret y \<Longrightarrow> reads (rd_bind m f) bs y"
  using reads_bind [of m bs x f "[]" y] reads_ret [of y] by simp

lemma reads_eq: "reads m bs x \<Longrightarrow> bs = bs' \<Longrightarrow> reads m bs' x"
  by simp

lemma reads_cons: "reads m [b] x \<Longrightarrow> reads (f x) bs y \<Longrightarrow> reads (rd_bind m f) (b # bs) y"
  using reads_bind [of m "[b]" x f bs y] by simp

lemma scast_ucast_join:
  "push_bit 32 (ucast (ucast (drop_bit 32 v) :: u32)) OR ucast (ucast v :: u32) = (v :: i64)"
  by (rule bit_word_eqI) (auto simp: bit_simps)

lemma bit_f64_of_le: "n < 64 \<Longrightarrow> bit (f64_of_le bs) n \<longleftrightarrow> n div 8 < length bs \<and> bit (bs ! (n div 8)) (n mod 8)"
proof (induction bs arbitrary: n)
  case (Cons b bs)
  show ?case
  proof (cases "n < 8")
    case True
    then show ?thesis by (simp add: f64_of_le_def bit_simps)
  next
    case False
    then obtain m where m: "n = m + 8" by (metis add.commute le_Suc_ex not_less)
    have "bit (f64_of_le (b # bs)) n \<longleftrightarrow> bit (f64_of_le bs) m"
      using Cons.prems m by (auto simp: f64_of_le_def bit_simps dest: bit_imp_le_length)
    moreover have "(m + 8) div 8 = Suc (m div 8)" by simp
    ultimately show ?thesis using Cons.IH [of m] Cons.prems m by simp
  qed
qed (simp add: f64_of_le_def)

lemma length_f64_to_le [simp]: "length (f64_to_le f) = 8"
  by (simp add: f64_to_le_def)

lemma f64_le_round: "f64_of_le (f64_to_le f) = f"
proof (rule bit_word_eqI)
  fix n
  assume n: "n < LENGTH(64)"
  have "n div 8 < 8" "8 * (n div 8) + n mod 8 = n" using n by simp_all
  then show "bit (f64_of_le (f64_to_le f)) n = bit f n"
    using n by (simp add: bit_f64_of_le) (simp add: f64_to_le_def bit_simps)
qed

interpretation catch_item: item_format rd_catch put_catch "\<lambda>_. True"
proof
  fix h :: catch_handler
  let ?k = "(case ch_kind h of Catch_Rescue \<Rightarrow> 0 | Catch_Ensure \<Rightarrow> 1) :: u8"
  show "reads rd_catch (put_catch h) h"
    unfolding rd_catch_def put_catch_def
  proof (rule reads_cons [OF reads_u8], rule reads_eq, rule reads_bind)
    show "reads (if ?k = 0 then rd_ret Catch_Rescue else if ?k = 1 then rd_ret Catch_Ensure else rd_fail (Bad_Catch ?k))
        [] (ch_kind h)"
      by (cases "ch_kind h") (simp_all add: reads_ret)
    show "reads (rd_bind rd_u32 (\<lambda>b. rd_bind rd_u32 (\<lambda>e. rd_bind rd_u32 (\<lambda>t.
          rd_ret \<lparr>ch_kind = ch_kind h, ch_begin = b, ch_end = e, ch_target = t\<rparr>))))
        (put32 (ch_begin h) @ put32 (ch_end h) @ put32 (ch_target h)) h"
      by (rule reads_bind [OF reads_u32], rule reads_bind [OF reads_u32], rule reads_bind_ret [OF reads_u32]) (cases h, simp)
  qed simp
qed (auto simp: rd_catch_def intro!: adv split: if_splits)

lemma unat_of_nat8: "n < 2 ^ 8 \<Longrightarrow> unat (of_nat n :: u8) = n"
  by (simp add: unat_of_nat)

lemma reads_counted: "length s < 2 ^ 16 \<Longrightarrow>
    reads (rd_bind (rd_bytes (unat (of_nat (length s) :: u16))) (\<lambda>s. rd_bind rd_u8 (\<lambda>_. rd_ret (f s)))) (s @ [0]) (f s)"
  by (rule reads_bind [OF reads_bytes], simp add: unat_of_nat16, rule reads_bind_ret [OF reads_u8]) simp

interpretation pool_item: item_format rd_pool put_pool pool_ok
proof
  fix p
  assume ok: "pool_ok p"
  show "reads rd_pool (put_pool p) p"
  proof (cases p)
    case (Pool_Str s)
    have "reads (rd_bind rd_u16 (\<lambda>len. rd_bind (rd_bytes (unat len)) (\<lambda>s. rd_bind rd_u8 (\<lambda>_. rd_ret (Pool_Str s)))))
        (put16 (of_nat (length s)) @ s @ [0]) p"
      by (rule reads_bind [OF reads_u16]) (use reads_counted [of s Pool_Str] ok Pool_Str in simp)
    then show ?thesis unfolding rd_pool_def Pool_Str put_pool.simps by (intro reads_cons [OF reads_u8]) simp
  next
    case (Pool_Int v)
    show ?thesis
    proof (cases "scast (ucast v :: u32) = v")
      case True
      then have "reads (rd_bind rd_u32 (\<lambda>w. rd_ret (Pool_Int (scast w)))) (put32 (ucast v)) p"
        using Pool_Int by (intro reads_bind_ret [OF reads_u32]) simp
      then show ?thesis using True unfolding rd_pool_def Pool_Int put_pool.simps
        by (simp, intro reads_cons [OF reads_u8]) simp
    next
      case False
      have "reads (rd_bind rd_u32 (\<lambda>hi. rd_bind rd_u32 (\<lambda>lo. rd_ret (Pool_Int (push_bit 32 (ucast hi) OR ucast lo)))))
          (put32 (ucast (drop_bit 32 v)) @ put32 (ucast v)) p"
        unfolding Pool_Int
        by (rule reads_bind [OF reads_u32], rule reads_bind_ret [OF reads_u32]) (simp only: scast_ucast_join)
      then show ?thesis using False unfolding rd_pool_def Pool_Int put_pool.simps
        by (simp, intro reads_cons [OF reads_u8]) simp
    qed
  next
    case (Pool_BigInt base ds)
    have "reads (rd_bind rd_u8 (\<lambda>len. rd_bind rd_u8 (\<lambda>base. rd_bind (rd_bytes (unat len)) (\<lambda>ds. rd_ret (Pool_BigInt base ds)))))
        (of_nat (length ds) # base # ds) p"
      unfolding Pool_BigInt
      by (rule reads_cons [OF reads_u8], rule reads_cons [OF reads_u8], rule reads_bind_ret [OF reads_bytes])
        (use ok Pool_BigInt in \<open>simp_all add: unat_of_nat8\<close>)
    then show ?thesis unfolding rd_pool_def Pool_BigInt put_pool.simps by (intro reads_cons [OF reads_u8]) simp
  next
    case (Pool_Float f)
    have "reads (rd_bind (rd_bytes 8) (\<lambda>raw. rd_ret (Pool_Float (f64_of_le raw)))) (f64_to_le f) p"
      unfolding Pool_Float by (rule reads_bind_ret [OF reads_bytes]) (simp_all add: f64_le_round)
    then show ?thesis unfolding rd_pool_def Pool_Float put_pool.simps by (intro reads_cons [OF reads_u8]) simp
  qed
qed (auto simp: rd_pool_def intro!: adv split: if_splits)

interpretation sym_item: item_format rd_sym put_sym sym_ok
proof
  fix x
  assume ok: "sym_ok x"
  show "reads rd_sym (put_sym x) x"
  proof (cases x)
    case None
    then show ?thesis unfolding rd_sym_def by (auto intro!: reads_bind_ret [OF reads_u16])
  next
    case (Some s)
    have l: "length s < 2 ^ 16" "length s \<noteq> 0xFFFF" using ok Some by auto
    have n: "(of_nat (length s) :: u16) \<noteq> 0xFFFF"
    proof
      assume "(of_nat (length s) :: u16) = 0xFFFF"
      then have "unat (of_nat (length s) :: u16) = 0xFFFF" by simp
      then show False using unat_of_nat16 [OF l(1)] l(2) by simp
    qed
    show ?thesis
      unfolding rd_sym_def Some put_sym.simps
      by (rule reads_bind [OF reads_u16]) (use reads_counted [OF l(1), of Some] n in simp)
  qed
qed (auto simp: rd_sym_def intro!: adv split: if_splits)

section \<open>Records\<close>

text \<open>A record and how many children follow it; the leading size counts the record itself.\<close>

definition head_body :: "irep \<Rightarrow> nat \<Rightarrow> bytes" where
  "head_body ir n =
     put16 (ir_nlocals ir) @ put16 (ir_nregs ir) @ put16 (of_nat n) @ put16 (of_nat (length (ir_catch ir))) @
     put32 (of_nat (length (ir_iseq ir))) @ ir_iseq ir @ concat (map put_catch (ir_catch ir)) @
     put16 (of_nat (length (ir_pool ir))) @ concat (map put_pool (ir_pool ir)) @
     put16 (of_nat (length (ir_syms ir))) @ concat (map put_sym (ir_syms ir))"

definition put_head :: "irep \<Rightarrow> nat \<Rightarrow> bytes" where
  "put_head ir n = put32 (of_nat (4 + length (head_body ir n))) @ head_body ir n"

definition head_ok :: "irep \<Rightarrow> nat \<Rightarrow> bool" where
  "head_ok ir n \<longleftrightarrow> ir_nlocals ir \<le> ir_nregs ir \<and> n < 2 ^ 16 \<and> length (ir_catch ir) < 2 ^ 16 \<and>
     length (ir_iseq ir) < 2 ^ 32 \<and> length (ir_pool ir) < 2 ^ 16 \<and> (\<forall>p \<in> set (ir_pool ir). pool_ok p) \<and>
     length (ir_syms ir) < 2 ^ 16 \<and> (\<forall>x \<in> set (ir_syms ir). sym_ok x) \<and>
     ir_reps ir = [] \<and> ir_lv ir = [] \<and> ir_lines ir = [] \<and> ir_filename ir = None"

lemma reads_run: "item_format get put ok \<Longrightarrow> \<forall>x \<in> set xs. ok x \<Longrightarrow> length xs = n \<Longrightarrow>
    reads (rd_times n get) (concat (map put xs)) xs"
  using item_format.reads_times by blast

lemma reads_head:
  assumes ok: "head_ok ir n"
  shows "reads rd_head (put_head ir n) (ir, n)"
proof -
  have len: "length (ir_catch ir) < 2 ^ 16" "length (ir_iseq ir) < 2 ^ 32" "length (ir_pool ir) < 2 ^ 16"
    "length (ir_syms ir) < 2 ^ 16" "n < 2 ^ 16" "\<not> ir_nregs ir < ir_nlocals ir" and
    p: "\<forall>p \<in> set (ir_pool ir). pool_ok p" and s: "\<forall>x \<in> set (ir_syms ir). sym_ok x" and
    e: "ir_reps ir = []" "ir_lv ir = []" "ir_lines ir = []" "ir_filename ir = None"
    using ok by (auto simp: head_ok_def)
  note unat_of_nat16 [OF len(1)] unat_of_nat32 [OF len(2)] unat_of_nat16 [OF len(3)] unat_of_nat16 [OF len(4)]
    unat_of_nat16 [OF len(5)]
  note counts = this
  show ?thesis
    unfolding rd_head_def put_head_def head_body_def
    by (rule reads_bind [OF reads_u32], rule reads_bind [OF reads_u16], rule reads_bind [OF reads_u16],
        simp only: len(6) if_False, rule reads_bind [OF reads_u16], rule reads_bind [OF reads_u16],
        rule reads_bind [OF reads_u32], rule reads_bind [OF reads_bytes], simp only: counts,
        rule reads_bind [OF reads_run [OF catch_item.item_format_axioms]], simp, simp only: counts,
        rule reads_bind [OF reads_u16],
        rule reads_bind [OF reads_run [OF pool_item.item_format_axioms p]], simp only: counts,
        rule reads_bind [OF reads_u16],
        rule reads_bind_ret [OF reads_run [OF sym_item.item_format_axioms s]], simp only: counts,
        cases ir, use e in \<open>simp add: counts\<close>)
qed

section \<open>Trees of records\<close>

datatype rtree = RNode irep "rtree list"

fun node_count :: "rtree \<Rightarrow> nat" where
  "node_count (RNode ir ts) = Suc (sum_list (map node_count ts))"

fun put_tree :: "rtree \<Rightarrow> bytes" where
  "put_tree (RNode ir ts) = put_head ir (length ts) @ concat (map put_tree ts)"

fun tree_ok :: "rtree \<Rightarrow> bool" where
  "tree_ok (RNode ir ts) \<longleftrightarrow> head_ok ir (length ts) \<and> (\<forall>t \<in> set ts. tree_ok t)"

fun tree_height :: "rtree \<Rightarrow> nat" where
  "tree_height (RNode ir ts) = Suc (Max (insert 0 (set (map tree_height ts))))"

text \<open>Where the children go when the first of them is number \<open>n\<close>, and the ireps in pre-order.\<close>

fun child_ids :: "nat \<Rightarrow> rtree list \<Rightarrow> nat list" where
  "child_ids n [] = []"
| "child_ids n (t # ts) = n # child_ids (n + node_count t) ts"

fun flat :: "nat \<Rightarrow> rtree \<Rightarrow> irep list" and flats :: "nat \<Rightarrow> rtree list \<Rightarrow> irep list" where
  "flat n (RNode ir ts) = ir\<lparr>ir_reps := child_ids (Suc n) ts\<rparr> # flats (Suc n) ts"
| "flats n [] = []"
| "flats n (t # ts) = flat n t @ flats (n + node_count t) ts"

lemma length_flat: "length (flat n t) = node_count t" "length (flats n ts) = sum_list (map node_count ts)"
  by (induction n t and n ts rule: flat_flats.induct) auto

lemma tree_height_child: "t \<in> set ts \<Longrightarrow> tree_height t < tree_height (RNode ir ts)"
  by (auto simp: less_Suc_eq_le intro: Max_ge)

definition reads_record :: "nat \<Rightarrow> rtree \<Rightarrow> bool" where
  "reads_record k t \<longleftrightarrow> (\<forall>pre post out. read_record k \<lparr>cb = pre @ put_tree t @ post, cp = length pre\<rparr> out =
     Some (Inr (length out, \<lparr>cb = pre @ put_tree t @ post, cp = length pre + length (put_tree t)\<rparr>,
       out @ flat (length out) t)))"

lemma reads_reps:
  assumes "\<forall>t \<in> set ts. reads_record k t"
  shows "read_reps k (length ts) \<lparr>cb = pre @ concat (map put_tree ts) @ post, cp = length pre\<rparr> out =
    Some (Inr (child_ids (length out) ts,
      \<lparr>cb = pre @ concat (map put_tree ts) @ post, cp = length pre + length (concat (map put_tree ts))\<rparr>,
      out @ flats (length out) ts))"
  using assms
proof (induction ts arbitrary: pre out)
  case (Cons t ts)
  have 1: "read_record k \<lparr>cb = pre @ put_tree t @ concat (map put_tree ts) @ post, cp = length pre\<rparr> out =
     Some (Inr (length out, \<lparr>cb = pre @ put_tree t @ concat (map put_tree ts) @ post,
       cp = length pre + length (put_tree t)\<rparr>, out @ flat (length out) t))"
    using Cons.prems by (simp add: reads_record_def)
  show ?case
    using 1 Cons.IH [of "pre @ put_tree t" "out @ flat (length out) t"] Cons.prems
    by (simp add: length_flat add.assoc)
qed simp

lemma reads_tree: "tree_ok t \<Longrightarrow> tree_height t \<le> k \<Longrightarrow> reads_record k t"
proof (induction k arbitrary: t)
  case 0
  then show ?case by (cases t) simp
next
  case (Suc k)
  obtain ir ts where t: "t = RNode ir ts" by (cases t)
  have ts: "\<forall>t \<in> set ts. reads_record k t"
    using Suc.IH Suc.prems tree_height_child [of _ ts ir] unfolding t by fastforce
  have h: "reads rd_head (put_head ir (length ts)) (ir, length ts)"
    using Suc.prems(1) by (simp add: t reads_head)
  have "read_record (Suc k) \<lparr>cb = pre @ put_tree t @ post, cp = length pre\<rparr> out =
     Some (Inr (length out, \<lparr>cb = pre @ put_tree t @ post, cp = length pre + length (put_tree t)\<rparr>,
       out @ flat (length out) t))" for pre post out
    using h [unfolded reads_def, rule_format, of pre "concat (map put_tree ts) @ post"]
      reads_reps [OF ts, of "pre @ put_head ir (length ts)" post "out @ [ir]"]
    by (simp add: t Let_def nth_append list_update_append add.assoc)
  then show ?case by (simp add: reads_record_def)
qed

lemma put_tree_height: "tree_height t \<le> length (put_tree t)"
proof (induction t)
  case (RNode ir ts)
  have "tree_height t \<le> length (concat (map put_tree ts))" if "t \<in> set ts" for t
  proof -
    have "length (put_tree t) \<le> length (concat (map put_tree ts))"
      using that by (induction ts) auto
    then show ?thesis using RNode [OF that] by simp
  qed
  then have "Max (insert 0 (set (map tree_height ts))) \<le> length (concat (map put_tree ts))"
    by (subst Max_le_iff) auto
  moreover have "0 < length (put_head ir (length ts))" by (simp add: put_head_def)
  ultimately have "Suc (Max (insert 0 (set (map tree_height ts)))) \<le>
      length (put_head ir (length ts)) + length (concat (map put_tree ts))" by linarith
  then show ?case by (simp only: tree_height.simps put_tree.simps length_append)
qed

section \<open>Binaries\<close>

definition put_section :: "bytes \<Rightarrow> bytes \<Rightarrow> bytes" where
  "put_section ident body = ident @ put32 (of_nat (8 + length body)) @ body"

definition put_sections :: "bytes \<Rightarrow> rtree \<Rightarrow> bytes" where
  "put_sections rv t = put_section (tag ''IREP'') (rv @ put_tree t) @ put_section (tag ''END'' @ [0]) []"

definition put_binary :: "bytes \<Rightarrow> bytes \<Rightarrow> bytes \<Rightarrow> rtree \<Rightarrow> bytes" where
  "put_binary nm v rv t =
     tag ''RITE'' @ tag ''0400'' @ put32 (of_nat (20 + length (put_sections rv t))) @ nm @ v @ put_sections rv t"

lemma length_tags [simp]: "length (tag ''IREP'') = 4" "length (tag ''END'') = 3" "length (tag ''RITE'') = 4"
  "length (tag ''0400'') = 4"
  by (simp_all add: tag_def)

lemma tags_differ: "tag ''END'' @ [0] \<noteq> tag ''IREP''" "tag ''END'' @ [0] \<noteq> tag ''DBG'' @ [0]"
  "tag ''END'' @ [0] \<noteq> tag ''LVAR''"
  by (simp_all add: tag_def)

lemma reads_section_head:
  assumes "length ident = 4" "8 + length body < 2 ^ 32"
  shows "reads (rd_bind (rd_bytes 4) (\<lambda>ident. rd_bind rd_u32 (\<lambda>sz. rd_ret (ident, unat sz))))
    (ident @ put32 (of_nat (8 + length body))) (ident, 8 + length body)"
  by (rule reads_bind [OF reads_bytes [OF assms(1)]], rule reads_bind_ret [OF reads_u32])
    (simp only: unat_of_nat32 [OF assms(2)])

lemma read_irep_section:
  assumes t: "tree_ok t" and rv: "length rv = 4" and bin: "bin = pre @ rv @ put_tree t @ post"
    and e: "e = length pre + 4 + length (put_tree t)"
  shows "read_section bin (tag ''IREP'') (length pre) e [] root = Some (Inr (Some (flat 0 t, Some 0)))"
proof -
  have h: "rd_bytes 4 \<lparr>cb = bin, cp = length pre\<rparr> = Inr (rv, \<lparr>cb = bin, cp = length pre + 4\<rparr>)"
    using reads_bytes [OF rv, unfolded reads_def, rule_format, of pre "put_tree t @ post"] rv by (simp add: bin)
  have "take e bin = (pre @ rv) @ put_tree t @ []" using rv by (simp add: bin e)
  moreover have "tree_height t \<le> Suc (length bin)"
    using put_tree_height [of t] by (simp add: bin)
  ultimately have "read_record (Suc (length bin)) (sub_cur bin e (length pre + 4)) [] =
      Some (Inr (0, \<lparr>cb = (pre @ rv) @ put_tree t @ [], cp = length (pre @ rv) + length (put_tree t)\<rparr>, flat 0 t))"
    using reads_tree [OF t, of "Suc (length bin)", unfolded reads_record_def, rule_format, of "pre @ rv" "[]" "[]"] rv
    by (simp add: sub_cur_def del: read_record.simps)
  then show ?thesis using h by (simp add: read_section_def Let_def del: read_record.simps)
qed

lemma read_sections:
  assumes t: "tree_ok t" and rv: "length rv = 4" and sz: "length pre + length (put_sections rv t) < 2 ^ 32"
    and bin: "bin = pre @ put_sections rv t"
  shows "sections bin (length bin) (length pre) [] None = Some (Inr (flat 0 t, Some 0))"
proof -
  let ?h = "tag ''IREP'' @ put32 (of_nat (8 + length (rv @ put_tree t)))"
  let ?g = "(tag ''END'' @ [0]) @ put32 (of_nat (8 + length ([] :: bytes)))"
  let ?e = "length pre + 12 + length (put_tree t)"
  have b: "bin = (pre @ ?h) @ rv @ put_tree t @ ?g" by (simp add: bin put_sections_def put_section_def)
  have lb: "length bin = ?e + 8" using rv by (simp add: b)
  have small: "8 + length (rv @ put_tree t) < 2 ^ 32"
    using sz rv by (simp add: put_sections_def put_section_def)
  let ?rd = "rd_bind (rd_bytes 4) (\<lambda>ident. rd_bind rd_u32 (\<lambda>sz. rd_ret (ident, unat sz)))"
  have 1: "?rd \<lparr>cb = bin, cp = length pre\<rparr> =
      Inr ((tag ''IREP'', 8 + length (rv @ put_tree t)), \<lparr>cb = bin, cp = length (pre @ ?h)\<rparr>)"
    using reads_section_head [OF _ small, of "tag ''IREP''", unfolded reads_def, rule_format,
        of pre "rv @ put_tree t @ ?g"] unfolding b by simp
  have 2: "read_section bin (tag ''IREP'') (length (pre @ ?h)) ?e [] None = Some (Inr (Some (flat 0 t, Some 0)))"
    by (rule read_irep_section [OF t rv b]) simp
  have 3: "?rd \<lparr>cb = bin, cp = ?e\<rparr> = Inr ((tag ''END'' @ [0], 8), \<lparr>cb = bin, cp = ?e + 8\<rparr>)"
    using reads_section_head [of "tag ''END'' @ [0]" "[]", unfolded reads_def, rule_format,
        of "pre @ ?h @ rv @ put_tree t" "[]"] rv unfolding b by (simp add: add.assoc)
  have 4: "read_section bin (tag ''END'' @ [0]) p e irs root = Some (Inr None)" for p e irs root
    using tags_differ by (simp add: read_section_def Let_def)
  have "sections bin (length bin) ?e (flat 0 t) (Some 0) = Some (Inr (flat 0 t, Some 0))"
    by (subst sections.simps) (simp add: 3 4 lb)
  then show ?thesis
    using 1 2 rv lb by (subst sections.simps) (simp add: add.assoc)
qed

text \<open>What the documented layout writes is what \<open>parse\<close> reads.\<close>

theorem parse_put:
  assumes "tree_ok t" "length nm = 4" "length v = 4" "length rv = 4" "length (put_binary nm v rv t) < 2 ^ 32"
  shows "parse (put_binary nm v rv t) = Some (Inr
    \<lparr>rt_compiler_name = nm, rt_compiler_version = v, rt_ireps = flat 0 t, rt_root = 0\<rparr>)"
proof -
  let ?s = "put_sections rv t" and ?bin = "put_binary nm v rv t"
  let ?pre = "tag ''RITE'' @ tag ''0400'' @ put32 (of_nat (20 + length ?s)) @ nm @ v"
  have bin: "?bin = ?pre @ ?s" by (simp add: put_binary_def)
  have lb: "length ?bin = 20 + length ?s" using assms(2,3) by (simp add: put_binary_def)
  have u: "unat (of_nat (20 + length ?s) :: u32) = length ?bin"
    using assms(5) unat_of_nat32 [of "20 + length ?s"] lb by simp
  have "rd_binary_header \<lparr>cb = ?bin, cp = 0\<rparr> = Inr ((length ?bin, nm, v), \<lparr>cb = ?bin, cp = 20\<rparr>)"
  proof -
    have m: "rd_bytes 4 \<lparr>cb = ?bin, cp = 0\<rparr> = Inr (tag ''RITE'', \<lparr>cb = ?bin, cp = 4\<rparr>)"
      using reads_bytes [of "tag ''RITE''" 4, unfolded reads_def, rule_format, of "[]"] by (simp add: put_binary_def)
    have r: "rd_bytes 4 \<lparr>cb = ?bin, cp = 4\<rparr> = Inr (tag ''0400'', \<lparr>cb = ?bin, cp = 8\<rparr>)"
      using reads_bytes [of "tag ''0400''" 4, unfolded reads_def, rule_format, of "tag ''RITE''"]
      by (simp add: put_binary_def)
    have w: "rd_u32 \<lparr>cb = ?bin, cp = 8\<rparr> = Inr (of_nat (20 + length ?s), \<lparr>cb = ?bin, cp = 12\<rparr>)"
      using reads_u32 [unfolded reads_def, rule_format, of "tag ''RITE'' @ tag ''0400''"]
      by (simp add: put_binary_def)
    have a: "rd_bytes 4 \<lparr>cb = ?bin, cp = 12\<rparr> = Inr (nm, \<lparr>cb = ?bin, cp = 16\<rparr>)"
      using reads_bytes [OF assms(2), unfolded reads_def, rule_format,
          of "tag ''RITE'' @ tag ''0400'' @ put32 (of_nat (20 + length ?s))"] assms(2)
      by (simp add: put_binary_def)
    have c: "rd_bytes 4 \<lparr>cb = ?bin, cp = 16\<rparr> = Inr (v, \<lparr>cb = ?bin, cp = 20\<rparr>)"
      using reads_bytes [OF assms(3), unfolded reads_def, rule_format,
          of "tag ''RITE'' @ tag ''0400'' @ put32 (of_nat (20 + length ?s)) @ nm"] assms(2,3)
      by (simp add: put_binary_def)
    show ?thesis
      unfolding rd_binary_header_def
      by (simp only: rd_bind_def m r w a c u sum.case prod.case simp_thms if_False cur.simps order.irrefl rd_ret_def)
  qed
  moreover have "sections ?bin (length ?bin) (length ?pre) [] None = Some (Inr (flat 0 t, Some 0))"
    using read_sections [OF assms(1,4) _ bin] assms(5) unfolding bin by simp
  ultimately show ?thesis using assms(2,3) by (simp add: parse_def)
qed

end
