(* ===== verification/RiteSafe.thy ===== *)
theory RiteSafe
  imports Rite
begin

text \<open>
  Loading always ends and gives a well-formed program (\<open>src/rite.rs\<close>): the fuel of \<open>read_record\<close> and
  of the walks is enough on every input, the children of a record come after it and exist, no
  record has more locals than registers, and the debug and local variable sections, complete or
  broken off, change nothing the program runs on.
\<close>

section \<open>Records\<close>

definition irep_ok :: "nat \<Rightarrow> nat \<Rightarrow> irep \<Rightarrow> bool" where
  "irep_ok i n ir \<longleftrightarrow> (\<forall>j \<in> set (ir_reps ir). i < j \<and> j < n) \<and> ir_nlocals ir \<le> ir_nregs ir"

definition ireps_ok :: "irep list \<Rightarrow> bool" where
  "ireps_ok irs \<longleftrightarrow> (\<forall>i < length irs. irep_ok i (length irs) (irs ! i))"

definition grows :: "irep list \<Rightarrow> irep list \<Rightarrow> bool" where
  "grows irs irs' \<longleftrightarrow> length irs \<le> length irs' \<and> take (length irs) irs' = irs \<and>
     (\<forall>i. length irs \<le> i \<longrightarrow> i < length irs' \<longrightarrow> irep_ok i (length irs') (irs' ! i))"

lemma irep_ok_mono: "irep_ok i n ir \<Longrightarrow> n \<le> m \<Longrightarrow> irep_ok i m ir"
  by (fastforce simp: irep_ok_def)

lemma grows_refl [simp]: "grows irs irs"
  by (simp add: grows_def)

lemma grows_nth: "grows irs irs' \<Longrightarrow> i < length irs \<Longrightarrow> irs' ! i = irs ! i"
  by (metis grows_def nth_take)

lemma grows_trans:
  assumes "grows a b" "grows b c"
  shows "grows a c"
proof -
  have "irep_ok i (length c) (c ! i)" if "length a \<le> i" "i < length c" for i
  proof (cases "i < length b")
    case True
    then show ?thesis
      using assms that grows_nth [OF assms(2) True] irep_ok_mono [of i "length b" "b ! i" "length c"]
      by (simp add: grows_def)
  next
    case False
    then show ?thesis using assms(2) that by (simp add: grows_def)
  qed
  moreover have "take (length a) c = a"
  proof -
    have e: "take (length b) c = b" "take (length a) b = a" "length a \<le> length b"
      using assms by (simp_all add: grows_def)
    have "take (length a) c = take (length a) (take (length b) c)" using e(3) by (simp add: min_absorb1)
    then show ?thesis unfolding e(1) e(2) .
  qed
  ultimately show ?thesis using assms by (simp add: grows_def)
qed

lemma grows_ok:
  assumes g: "grows irs irs'" and ok: "ireps_ok irs"
  shows "ireps_ok irs'"
  unfolding ireps_ok_def
proof (intro allI impI)
  fix i
  assume i: "i < length irs'"
  show "irep_ok i (length irs') (irs' ! i)"
  proof (cases "i < length irs")
    case True
    then have "irep_ok i (length irs) (irs' ! i)" using ok grows_nth [OF g True] by (simp add: ireps_ok_def)
    then show ?thesis using g by (auto simp: grows_def intro: irep_ok_mono)
  next
    case False
    then show ?thesis using g i by (simp add: grows_def)
  qed
qed

lemma adv_pieces [adv]: "advances 0 rd_catch" "advances 0 rd_pool" "advances 0 rd_sym"
  by (auto simp: rd_catch_def rd_pool_def rd_sym_def intro!: adv split: if_splits)

lemma adv_if [adv]: "(b \<Longrightarrow> advances n x) \<Longrightarrow> (\<not> b \<Longrightarrow> advances n y) \<Longrightarrow> advances n (if b then x else y)"
  by simp

lemma rd_head_adv: "advances 4 rd_head"
proof -
  have "advances (4 + 0) rd_head"
    unfolding rd_head_def by (rule adv_bind [OF adv_base(4)]) (intro adv)
  then show ?thesis by simp
qed

lemma rd_head_ok: "rd_head c = Inr ((ir, n), c') \<Longrightarrow> ir_reps ir = [] \<and> ir_nlocals ir \<le> ir_nregs ir"
  by (auto simp: rd_head_def rd_bind_def rd_ret_def rd_fail_def not_less split: sum.splits if_splits)

definition at_end :: "cur \<Rightarrow> nat" where
  "at_end c = length (cb c) - cp c"

definition moved :: "cur \<Rightarrow> cur \<Rightarrow> bool" where
  "moved c c' \<longleftrightarrow> cb c' = cb c \<and> cp c \<le> cp c' \<and> cp c' \<le> length (cb c)"

lemma read_records_ok:
  "cp c \<le> length (cb c) \<Longrightarrow> at_end c < k \<Longrightarrow> (\<exists>res. read_record k c out = Some res \<and>
     (case res of Inl _ \<Rightarrow> True | Inr (r, c', out') \<Rightarrow> moved c c' \<and> r = length out \<and> r < length out' \<and> grows out out'))"
  "cp c \<le> length (cb c) \<Longrightarrow> at_end c < k \<Longrightarrow> (\<exists>res. read_reps k n c out = Some res \<and>
     (case res of Inl _ \<Rightarrow> True | Inr (rs, c', out') \<Rightarrow> moved c c' \<and>
        (\<forall>r \<in> set rs. length out \<le> r \<and> r < length out') \<and> grows out out'))"
proof (induction k c out and k n c out rule: read_record_read_reps.induct)
  case (1 c out)
  then show ?case by simp
next
  case (2 k c out)
  show ?case
  proof (cases "rd_head c")
    case (Inr x)
    obtain ir rlen c1 where x: "x = ((ir, rlen), c1)" by (metis surj_pair)
    have m: "cb c1 = cb c" "cp c + 4 \<le> cp c1" "cp c1 \<le> length (cb c)"
      using rd_head_adv 2(2) Inr x unfolding advances_def by blast+
    have ir: "ir_reps ir = []" "ir_nlocals ir \<le> ir_nregs ir" using rd_head_ok Inr x by blast+
    have "cp c1 \<le> length (cb c1)" "at_end c1 < k" using m 2(3) by (auto simp: at_end_def)
    then obtain res where res: "read_reps k rlen c1 (out @ [ir]) = Some res"
      and ok: "case res of Inl _ \<Rightarrow> True | Inr (rs, c', out') \<Rightarrow> moved c1 c' \<and>
        (\<forall>r \<in> set rs. length (out @ [ir]) \<le> r \<and> r < length out') \<and> grows (out @ [ir]) out'"
      using 2(1) [OF Inr x [symmetric] refl] by blast
    show ?thesis
    proof (cases res)
      case Inl': (Inr y)
      obtain rs c2 out2 where y: "y = (rs, c2, out2)" by (metis surj_pair)
      have g: "grows (out @ [ir]) out2" "moved c1 c2" "\<forall>r \<in> set rs. Suc (length out) \<le> r \<and> r < length out2"
        using ok Inl' y by auto
      let ?o = "out2[length out := (out2 ! length out)\<lparr>ir_reps := rs\<rparr>]"
      have l: "length out < length out2" using g(1) by (simp add: grows_def)
      have at: "out2 ! length out = ir" using grows_nth [OF g(1), of "length out"] by simp
      have t: "take (length out) out2 = out"
      proof -
        have "take (Suc (length out)) out2 = out @ [ir]" using g(1) by (simp add: grows_def)
        then have "take (length out) (take (Suc (length out)) out2) = out" by simp
        then show ?thesis by (simp add: min_absorb1)
      qed
      have "irep_ok i (length ?o) (?o ! i)" if "length out \<le> i" "i < length ?o" for i
      proof (cases "i = length out")
        case True
        then show ?thesis using g(3) ir at l by (auto simp: irep_ok_def)
      next
        case False
        then show ?thesis using g(1) that by (simp add: grows_def)
      qed
      then have "grows out ?o" using l t by (simp add: grows_def)
      then show ?thesis using Inr x res Inl' y g(2) m l by (auto simp: moved_def Let_def)
    qed (use Inr x res in auto)
  qed simp
next
  case (3 k c out)
  then show ?case by (simp add: moved_def)
next
  case (4 k n c out)
  obtain res where res: "read_record k c out = Some res"
    and ok: "case res of Inl _ \<Rightarrow> True | Inr (r, c', out') \<Rightarrow> moved c c' \<and> r = length out \<and> r < length out' \<and> grows out out'"
    using 4(1) [OF 4(3,4)] by blast
  show ?case
  proof (cases res)
    case (Inr x)
    obtain r c1 out1 where x: "x = (r, c1, out1)" by (metis surj_pair)
    have g: "moved c c1" "r = length out" "r < length out1" "grows out out1" using ok Inr x by auto
    then have "cp c1 \<le> length (cb c1)" "at_end c1 < k" using 4(4) by (auto simp: moved_def at_end_def)
    then obtain res' where res': "read_reps k n c1 out1 = Some res'"
      and ok': "case res' of Inl _ \<Rightarrow> True | Inr (rs, c', out') \<Rightarrow> moved c1 c' \<and>
        (\<forall>r \<in> set rs. length out1 \<le> r \<and> r < length out') \<and> grows out1 out'"
      using 4(2) [OF res Inr x [symmetric] refl] by blast
    show ?thesis
    proof (cases res')
      case Inr': (Inr y)
      obtain rs c2 out2 where y: "y = (rs, c2, out2)" by (metis surj_pair)
      have g': "moved c1 c2" "\<forall>r \<in> set rs. length out1 \<le> r \<and> r < length out2" "grows out1 out2"
        using ok' Inr' y by auto
      have "length out \<le> length out1" "length out1 \<le> length out2" using g(4) g'(3) by (auto simp: grows_def)
      then have "\<forall>q \<in> set (r # rs). length out \<le> q \<and> q < length out2" using g(2,3) g'(2) by auto
      then show ?thesis
        using res Inr x res' Inr' y g(1) g'(1) grows_trans [OF g(4) g'(3)] by (auto simp: moved_def)
    qed (use res Inr x res' in auto)
  qed (use res in auto)
qed

section \<open>The walks\<close>

text \<open>What a program runs on: an irep without its names for people.\<close>

definition bare :: "irep \<Rightarrow> irep" where
  "bare ir = ir\<lparr>ir_lv := [], ir_lines := [], ir_filename := None\<rparr>"

definition same_code :: "irep list \<Rightarrow> irep list \<Rightarrow> bool" where
  "same_code irs irs' \<longleftrightarrow> map bare irs' = map bare irs"

lemma same_code_refl [simp]: "same_code irs irs"
  by (simp add: same_code_def)

lemma same_code_trans: "same_code a b \<Longrightarrow> same_code b c \<Longrightarrow> same_code a c"
  by (simp add: same_code_def)

lemma same_code_length: "same_code irs irs' \<Longrightarrow> length irs' = length irs"
  unfolding same_code_def by (metis length_map)

lemma same_code_nth: "same_code irs irs' \<Longrightarrow> i < length irs \<Longrightarrow> bare (irs' ! i) = bare (irs ! i)"
  unfolding same_code_def by (metis length_map nth_map)

lemma bare_fields: "bare a = bare b \<Longrightarrow> ir_reps a = ir_reps b \<and> ir_nlocals a = ir_nlocals b \<and> ir_nregs a = ir_nregs b"
  by (cases a, cases b) (simp add: bare_def)

lemma same_code_update: "bare x = bare (irs ! i) \<Longrightarrow> same_code irs (irs[i := x])"
  by (cases "i < length irs") (simp_all add: same_code_def map_update list_update_same_conv list_update_beyond)

lemma same_code_ok: "same_code irs irs' \<Longrightarrow> ireps_ok irs \<Longrightarrow> ireps_ok irs'"
  using same_code_length [of irs irs'] same_code_nth [of irs irs'] bare_fields
  unfolding ireps_ok_def irep_ok_def by metis

lemma dbg_files_code: "dbg_files names i f n c irs = (irs', res) \<Longrightarrow> same_code irs irs'"
proof (induction names i f n c irs rule: dbg_files.induct)
  case (2 names i f n c irs)
  have u: "same_code irs (irs[i := (irs ! i)\<lparr>ir_lines := ls, ir_filename := fn\<rparr>])" for ls fn
    by (rule same_code_update) (simp add: bare_def)
  show ?case
  proof (cases "rd_dbg_file c")
    case (Inr y)
    obtain ls fi c1 where y: "y = ((ls, fi), c1)" by (metis surj_pair)
    have "same_code (if f = 0 then irs[i := (irs ! i)\<lparr>ir_lines := ls, ir_filename := get_nth names fi\<rparr>] else irs) irs'"
      using "2.IH" [OF Inr y [symmetric] refl] "2.prems" Inr y by simp
    then show ?thesis using same_code_trans [OF u] by (auto split: if_splits)
  qed (use "2.prems" in auto)
qed simp

lemma dbg_step_code: "dbg_step names i c irs = (irs', res) \<Longrightarrow> same_code irs irs'"
  by (auto simp: dbg_step_def split: sum.splits dest: dbg_files_code)

lemma lvar_step_code: "lvar_step names i c irs = (irs', res) \<Longrightarrow> same_code irs irs'"
  by (auto simp: lvar_step_def bare_def split: sum.splits intro!: same_code_update)

text \<open>A walk whose step leaves the code alone ends, and leaves the code alone.\<close>

definition code_step :: "(nat \<Rightarrow> cur \<Rightarrow> irep list \<Rightarrow> irep list \<times> (rite_error + cur)) \<Rightarrow> bool" where
  "code_step step \<longleftrightarrow> (\<forall>i c irs irs' res. step i c irs = (irs', res) \<longrightarrow> same_code irs irs')"

lemma walk_ok:
  "code_step step \<Longrightarrow> ireps_ok irs \<Longrightarrow> i < length irs \<Longrightarrow> length irs - i < k \<Longrightarrow>
      \<exists>irs' res. walk k step c irs i = Some (irs', res) \<and> same_code irs irs'"
  "code_step step \<Longrightarrow> ireps_ok irs \<Longrightarrow> \<forall>r \<in> set rs. r < length irs \<and> length irs - r < k \<Longrightarrow>
      \<exists>irs' res. walks k step c irs rs = Some (irs', res) \<and> same_code irs irs'"
proof (induction k step c irs i and k step c irs rs rule: walk_walks.induct)
  case (1 step c irs i)
  then show ?case by simp
next
  case (2 k step c irs i)
  obtain irs1 res where s: "step i c irs = (irs1, res)" by fastforce
  have sc: "same_code irs irs1" using "2.prems"(1) s unfolding code_step_def by blast
  show ?case
  proof (cases res)
    case (Inr c1)
    have r: "ir_reps (irs1 ! i) = ir_reps (irs ! i)"
      using bare_fields same_code_nth [OF sc] "2.prems" by blast
    have "\<forall>r \<in> set (ir_reps (irs1 ! i)). r < length irs1 \<and> length irs1 - r < k"
    proof
      fix q
      assume "q \<in> set (ir_reps (irs1 ! i))"
      then have "i < q \<and> q < length irs"
        using "2.prems"(2,3) unfolding r ireps_ok_def irep_ok_def by blast
      then show "q < length irs1 \<and> length irs1 - q < k"
        using "2.prems"(4) same_code_length [OF sc] by linarith
    qed
    then obtain irs2 res2 where "walks k step c1 irs1 (ir_reps (irs1 ! i)) = Some (irs2, res2)" "same_code irs1 irs2"
      using "2.IH" [OF s [symmetric] Inr "2.prems"(1) same_code_ok [OF sc "2.prems"(2)]] by blast
    then show ?thesis using s Inr sc same_code_trans by auto
  qed (use s sc in auto)
next
  case (3 k step c irs)
  then show ?case by simp
next
  case (4 k step c irs r rs)
  then obtain irs1 res where w: "walk k step c irs r = Some (irs1, res)" "same_code irs irs1" by fastforce
  show ?case
  proof (cases res)
    case (Inr c1)
    have "\<exists>irs2 res2. walks k step c1 irs1 rs = Some (irs2, res2) \<and> same_code irs1 irs2"
      using "4.IH"(2) [OF w(1) refl Inr] "4.prems" same_code_ok [OF w(2)] same_code_length [OF w(2)] by auto
    then show ?thesis using w Inr same_code_trans by auto
  qed (use w in auto)
qed

lemma debug_code:
  assumes "ireps_ok irs" "root < length irs"
  shows "\<exists>irs' res. read_debug (Suc (length irs)) c irs root = Some (irs', res) \<and> same_code irs irs'"
proof (cases "rd_bind rd_u16 (\<lambda>flen. rd_times (unat flen) rd_name) c")
  case (Inr y)
  obtain names c1 where y: "y = (names, c1)" by (cases y)
  have "code_step (dbg_step names)" by (auto simp: code_step_def dest: dbg_step_code)
  from walk_ok(1) [OF this assms, of "Suc (length irs)" c1] Inr y show ?thesis
    by (simp add: read_debug_def)
qed (simp add: read_debug_def)

lemma lvar_code:
  assumes "ireps_ok irs" "root < length irs"
  shows "\<exists>irs' res. read_lvar (Suc (length irs)) c irs root = Some (irs', res) \<and> same_code irs irs'"
proof (cases "rd_bind rd_u32 (\<lambda>slen. rd_times (unat slen) rd_name) c")
  case (Inr y)
  obtain names c1 where y: "y = (names, c1)" by (cases y)
  have "code_step (lvar_step names)" by (auto simp: code_step_def dest: lvar_step_code)
  from walk_ok(1) [OF this assms, of "Suc (length irs)" c1] Inr y show ?thesis
    by (simp add: read_lvar_def)
qed (simp add: read_lvar_def)

section \<open>The sections\<close>

definition loaded_ok :: "irep list \<Rightarrow> nat option \<Rightarrow> bool" where
  "loaded_ok irs root \<longleftrightarrow> ireps_ok irs \<and> (\<forall>r. root = Some r \<longrightarrow> r < length irs)"

lemma record_result:
  assumes "loaded_ok irs root" "e \<le> length bin" "p \<le> length bin"
  shows "\<exists>res. read_record (Suc (length bin)) (sub_cur bin e p) irs = Some res \<and>
    (case res of Inl _ \<Rightarrow> True | Inr (r, c', irs') \<Rightarrow> loaded_ok irs' (Some r))"
proof (cases "p \<le> e")
  case True
  then have "cp (sub_cur bin e p) \<le> length (cb (sub_cur bin e p))" "at_end (sub_cur bin e p) < Suc (length bin)"
    using assms by (auto simp: sub_cur_def at_end_def)
  then obtain res where "read_record (Suc (length bin)) (sub_cur bin e p) irs = Some res"
    "case res of Inl _ \<Rightarrow> True | Inr (r, c', out') \<Rightarrow> r < length out' \<and> grows irs out'"
    using read_records_ok(1) [of "sub_cur bin e p" "Suc (length bin)" irs] by (fastforce split: sum.splits)
  then show ?thesis using assms(1) grows_ok by (auto simp: loaded_ok_def split: sum.splits)
next
  case False
  then have "rd_head (sub_cur bin e p) = Inl (Unexpected_End p 4)"
    using assms by (simp add: rd_head_def rd_bind_def rd_u32_def rd_need_def sub_cur_def)
  then show ?thesis by simp
qed

lemma read_section_ok:
  assumes ok: "loaded_ok irs root" and e: "e \<le> length bin"
  shows "\<exists>res. read_section bin ident p e irs root = Some res \<and>
    (case res of Inr (Some (irs', root')) \<Rightarrow> loaded_ok irs' root' | _ \<Rightarrow> True)"
proof -
  consider (irep) "ident = tag ''IREP''" | (dbg) "ident = tag ''DBG'' @ [0]" | (lvar) "ident = tag ''LVAR''"
    | (other) "ident \<noteq> tag ''IREP''" "ident \<noteq> tag ''DBG'' @ [0]" "ident \<noteq> tag ''LVAR''" by blast
  then show ?thesis
  proof cases
    case irep
    show ?thesis
    proof (cases "rd_bytes 4 \<lparr>cb = bin, cp = p\<rparr>")
      case (Inr x)
      obtain v c1 where x: "x = (v, c1)" by (cases x)
      have "cp c1 \<le> length bin"
        using Inr x by (auto simp: rd_bytes_def rd_bind_def rd_need_def split: if_splits)
      from record_result [OF ok e this] irep Inr x show ?thesis
        by (fastforce simp: read_section_def Let_def split: sum.splits)
    qed (use irep in \<open>auto simp: read_section_def Let_def\<close>)
  next
    case dbg
    show ?thesis
    proof (cases root)
      case (Some r)
      then obtain irs' res where d: "read_debug (Suc (length irs)) (sub_cur bin e p) irs r = Some (irs', res)" "same_code irs irs'"
        using debug_code ok unfolding loaded_ok_def by blast
      then have "loaded_ok irs' root"
        using ok Some same_code_ok same_code_length by (fastforce simp: loaded_ok_def)
      then show ?thesis using dbg Some d by (simp add: read_section_def Let_def tag_def)
    qed (use dbg ok in \<open>simp add: read_section_def Let_def tag_def\<close>)
  next
    case lvar
    show ?thesis
    proof (cases root)
      case (Some r)
      then obtain irs' res where d: "read_lvar (Suc (length irs)) (sub_cur bin e p) irs r = Some (irs', res)" "same_code irs irs'"
        using lvar_code ok unfolding loaded_ok_def by blast
      then have "loaded_ok irs' root"
        using ok Some same_code_ok same_code_length by (fastforce simp: loaded_ok_def)
      then show ?thesis using lvar Some d by (simp add: read_section_def Let_def tag_def)
    qed (use lvar ok in \<open>simp add: read_section_def Let_def tag_def\<close>)
  next
    case other
    then show ?thesis by (simp add: read_section_def Let_def)
  qed
qed

lemma sections_ok:
  "loaded_ok irs root \<Longrightarrow> \<exists>res. sections bin ttl p irs root = Some res \<and>
     (case res of Inl _ \<Rightarrow> True | Inr (irs', root') \<Rightarrow> loaded_ok irs' root')"
proof (induction bin ttl p irs root rule: sections.induct)
  case (1 bin ttl p irs root)
  show ?case
  proof (cases "p + 8 \<le> ttl")
    case go: True
    show ?thesis
    proof (cases "rd_bind (rd_bytes 4) (\<lambda>ident. rd_bind rd_u32 (\<lambda>sz. rd_ret (ident, unat sz))) \<lparr>cb = bin, cp = p\<rparr>")
      case (Inr x)
      obtain ident sz c1 where x: "x = ((ident, sz), c1)" by (metis surj_pair)
      show ?thesis
      proof (cases "sz < 8 \<or> p + sz > length bin")
        case False
        then have e: "\<not> sz < 8" "\<not> p + sz > length bin" "p + sz \<le> length bin" by auto
        obtain res where r: "read_section bin ident (cp c1) (p + sz) irs root = Some res"
          "case res of Inr (Some (irs', root')) \<Rightarrow> loaded_ok irs' root' | _ \<Rightarrow> True"
          using read_section_ok [OF "1.prems" e(3)] by blast
        note step = "1.IH" [OF go Inr x [symmetric] refl e(1) refl e(2) r(1)]
        have u: "sections bin ttl p irs root = (case res of Inl er \<Rightarrow> Some (Inl er)
            | Inr None \<Rightarrow> Some (Inr (irs, root))
            | Inr (Some (irs1, root1)) \<Rightarrow> sections bin ttl (p + sz) irs1 root1)"
          using go Inr x e r(1) by (subst sections.simps) (simp split: sum.split option.split)
        show ?thesis
        proof (cases res)
          case (Inl er)
          then show ?thesis using u by simp
        next
          case res: (Inr q)
          show ?thesis
          proof (cases q)
            case None
            then show ?thesis using u res "1.prems" by simp
          next
            case (Some w)
            obtain irs1 root1 where w: "w = (irs1, root1)" by (cases w)
            show ?thesis using step [OF res Some w [symmetric]] u res Some w r(2) by simp
          qed
        qed
      qed (use go Inr x in \<open>subst sections.simps, auto\<close>)
    qed (use go in \<open>subst sections.simps, auto\<close>)
  qed (use "1.prems" in \<open>subst sections.simps, auto\<close>)
qed

theorem parse_ok:
  "\<exists>res. parse bin = Some res \<and> (\<forall>r. res = Inr r \<longrightarrow> loaded_ok (rt_ireps r) (Some (rt_root r)))"
proof (cases "rd_binary_header \<lparr>cb = bin, cp = 0\<rparr>")
  case (Inr x)
  obtain ttl nm v c where x: "x = ((ttl, nm, v), c)" by (metis surj_pair)
  have "loaded_ok [] None" by (simp add: loaded_ok_def ireps_ok_def)
  from sections_ok [OF this, of bin ttl "cp c"] obtain res where
    "sections bin ttl (cp c) [] None = Some res"
    "case res of Inl _ \<Rightarrow> True | Inr (irs', root') \<Rightarrow> loaded_ok irs' root'" by blast
  then show ?thesis using Inr x by (auto simp: parse_def split: sum.splits option.splits)
qed (simp add: parse_def)

end
