(* ===== verification/Symbol.thy ===== *)
theory Symbol
  imports Value
begin

text \<open>
  The symbol interner of \<open>src/symbol.rs\<close>: the names in the order they were interned and the
  index back from a name to its number. The contract other components rely on is the locale
  \<open>symbol_table\<close>, interpreted on the model of the code.
\<close>

record interner =
  sym_names :: "bytes list"
  sym_index :: "bytes \<rightharpoonup> sym"

definition interner_new :: interner where
  "interner_new = \<lparr>sym_names = [], sym_index = Map.empty\<rparr>"

definition intern :: "interner \<Rightarrow> bytes \<Rightarrow> interner \<times> sym" where
  "intern t name = (case sym_index t name of
      Some s \<Rightarrow> (t, s)
    | None \<Rightarrow>
        let s = of_nat (length (sym_names t))
        in (t\<lparr>sym_names := sym_names t @ [name], sym_index := (sym_index t)(name \<mapsto> s)\<rparr>, s))"

definition sym_lookup :: "interner \<Rightarrow> bytes \<Rightarrow> sym option" where
  "sym_lookup t name = sym_index t name"

text \<open>\<open>&self.names[s.0 as usize]\<close>: an index out of range panics.\<close>

definition sym_name :: "interner \<Rightarrow> sym \<Rightarrow> bytes option" where
  "sym_name t s = (if unat s < length (sym_names t) then Some (sym_names t ! unat s) else None)"

definition sym_len :: "interner \<Rightarrow> nat" where
  "sym_len t = length (sym_names t)"

definition interner_inv :: "interner \<Rightarrow> bool" where
  "interner_inv t \<longleftrightarrow> length (sym_names t) \<le> B32 \<and> distinct (sym_names t) \<and>
     (\<forall>name s. sym_index t name = Some s \<longleftrightarrow> sym_name t s = Some name)"

section \<open>The contract\<close>

locale symbol_table =
  fixes inv :: "'t \<Rightarrow> bool" and size :: "'t \<Rightarrow> nat" and bound :: nat
    and lookup :: "'t \<Rightarrow> bytes \<Rightarrow> sym option" and name :: "'t \<Rightarrow> sym \<Rightarrow> bytes option"
    and add :: "'t \<Rightarrow> bytes \<Rightarrow> 't \<times> sym"
  assumes lookup_name: "inv t \<Longrightarrow> lookup t n = Some s \<longleftrightarrow> name t s = Some n"
    and add_inv: "inv t \<Longrightarrow> size t < bound \<Longrightarrow> add t n = (t', s) \<Longrightarrow> inv t' \<and> size t' \<le> Suc (size t)"
    and add_name: "inv t \<Longrightarrow> size t < bound \<Longrightarrow> add t n = (t', s) \<Longrightarrow> name t' s = Some n"
    and add_keeps: "inv t \<Longrightarrow> size t < bound \<Longrightarrow> add t n = (t', s) \<Longrightarrow> name t r = Some m \<Longrightarrow> name t' r = Some m"
begin

text \<open>A sequence of interns: the symbols it gives, in order.\<close>

fun adds :: "'t \<Rightarrow> bytes list \<Rightarrow> 't \<times> sym list" where
  "adds t [] = (t, [])"
| "adds t (n # ns) = (let (t', s) = add t n; (t'', ss) = adds t' ns in (t'', s # ss))"

lemma adds_keeps:
  "inv t \<Longrightarrow> size t + length ns \<le> bound \<Longrightarrow> adds t ns = (t', ss) \<Longrightarrow>
    inv t' \<and> (name t r = Some m \<longrightarrow> name t' r = Some m) \<and>
    length ss = length ns \<and> (\<forall>i < length ns. name t' (ss ! i) = Some (ns ! i))"
proof (induction ns arbitrary: t ss r m)
  case (Cons n ns)
  obtain t1 s where a: "add t n = (t1, s)" by fastforce
  obtain ss' where b: "adds t1 ns = (t', ss')" "ss = s # ss'"
    using Cons.prems(3) by (auto simp: a split: prod.splits)
  have sz: "size t < bound" using Cons.prems(2) by simp
  note i = add_inv [OF Cons.prems(1) sz a] and nm = add_name [OF Cons.prems(1) sz a]
  have le: "size t1 + length ns \<le> bound" using i Cons.prems(2) by simp
  have "name t r = Some m \<Longrightarrow> name t' r = Some m"
    using Cons.IH [OF _ le b(1)] i add_keeps [OF Cons.prems(1) sz a] by blast
  moreover have "name t' s = Some n" using Cons.IH [OF _ le b(1)] i nm by blast
  ultimately show ?case using Cons.IH [OF _ le b(1)] i b(2) by (auto simp: nth_Cons split: nat.split)
qed simp

text \<open>Two symbols of a run are the same exactly where the names are.\<close>

lemma adds_eq_iff:
  assumes "inv t" "size t + length ns \<le> bound" "adds t ns = (t', ss)" "i < length ns" "j < length ns"
  shows "ss ! i = ss ! j \<longleftrightarrow> ns ! i = ns ! j"
proof -
  have k: "inv t'" "name t' (ss ! i) = Some (ns ! i)" "name t' (ss ! j) = Some (ns ! j)"
    using adds_keeps [OF assms(1-3)] assms(4,5) by auto
  then show ?thesis using lookup_name [OF k(1)] by (metis option.inject)
qed

end

section \<open>The interner meets it\<close>

lemma interner_new_inv: "interner_inv interner_new"
  by (simp add: interner_inv_def interner_new_def sym_name_def)

lemma intern_fresh:
  assumes "interner_inv t" "length (sym_names t) < B32" "sym_index t name = None"
  shows "interner_inv (fst (intern t name))" "sym_name (fst (intern t name)) (snd (intern t name)) = Some name"
    "sym_name t r = Some m \<Longrightarrow> sym_name (fst (intern t name)) r = Some m"
proof -
  let ?n = "length (sym_names t)" and ?s = "of_nat (length (sym_names t)) :: sym"
  have s: "unat ?s = ?n" using assms(2) by (simp add: unat_of_nat B32_def)
  have t': "intern t name = (t\<lparr>sym_names := sym_names t @ [name],
      sym_index := (sym_index t)(name \<mapsto> ?s)\<rparr>, ?s)"
    by (simp add: intern_def assms(3) Let_def)
  have fresh: "name \<notin> set (sym_names t)"
  proof
    assume "name \<in> set (sym_names t)"
    then obtain i where i: "i < ?n" "sym_names t ! i = name" by (auto simp: in_set_conv_nth)
    then have "sym_name t (of_nat i) = Some name"
      using assms(2) by (simp add: sym_name_def unat_of_nat B32_def)
    with assms(1) have "sym_index t name = Some (of_nat i)" by (simp add: interner_inv_def)
    with assms(3) show False by simp
  qed
  have nm: "sym_name (fst (intern t name)) r = (if unat r = ?n then Some name else sym_name t r)" for r
    by (auto simp: t' sym_name_def nth_append)
  show "sym_name (fst (intern t name)) (snd (intern t name)) = Some name" by (simp add: nm) (simp add: t' s)
  show "sym_name t r = Some m \<Longrightarrow> sym_name (fst (intern t name)) r = Some m"
    by (auto simp: nm) (simp add: sym_name_def)
  have "sym_index (fst (intern t name)) k = Some r \<longleftrightarrow> sym_name (fst (intern t name)) r = Some k" for k r
  proof -
    have "r = ?s \<longleftrightarrow> unat r = ?n" using s by (metis word_unat_eq_iff)
    moreover have "sym_name t r \<noteq> Some name"
    proof
      assume "sym_name t r = Some name"
      then have "sym_index t name = Some r" using assms(1) by (simp add: interner_inv_def)
      with assms(3) show False by simp
    qed
    moreover have "unat r = ?n \<Longrightarrow> sym_name t r = None" by (simp add: sym_name_def)
    ultimately show ?thesis using assms(1) unfolding nm by (auto simp: t' interner_inv_def)
  qed
  then show "interner_inv (fst (intern t name))"
    using assms(1,2) fresh by (auto simp: interner_inv_def) (auto simp: t')
qed

lemma intern_known:
  assumes "interner_inv t" "sym_index t name = Some s"
  shows "intern t name = (t, s)" "sym_name t s = Some name"
proof -
  show "intern t name = (t, s)" using assms(2) by (simp add: intern_def)
  show "sym_name t s = Some name" using assms by (simp add: interner_inv_def)
qed

interpretation syms: symbol_table interner_inv "\<lambda>t. length (sym_names t)" B32 sym_lookup sym_name intern
proof
  fix t t' :: interner and n m :: bytes and s r :: sym
  assume inv: "interner_inv t"
  then show "sym_lookup t n = Some s \<longleftrightarrow> sym_name t s = Some n"
    by (simp add: interner_inv_def sym_lookup_def)
  assume sz: "length (sym_names t) < B32" and st: "intern t n = (t', s)"
  show "interner_inv t' \<and> length (sym_names t') \<le> Suc (length (sym_names t))"
    using intern_fresh(1) [OF inv sz, of n] inv st
    by (cases "sym_index t n") (auto simp: intern_def Let_def)
  show "sym_name t' s = Some n"
    using intern_fresh(2) [OF inv sz, of n] intern_known [OF inv, of n] st
    by (cases "sym_index t n") auto
  assume "sym_name t r = Some m"
  then show "sym_name t' r = Some m"
    using intern_fresh(3) [OF inv sz, of n r m] intern_known(1) [OF inv, of n] st
    by (cases "sym_index t n") auto
qed

end
