(* ===== verification/Context.thy ===== *)
theory Context
  imports VmCore Rite "HOL-Library.Product_Lexorder"
begin

text \<open>
  The contexts of the VM (\<open>src/vm.rs\<close>): one register stack and one frame stack per Fiber or
  Task. The running context's stacks are fields of the VM itself and its entry in the table is empty while
  it runs; \<open>switch_context\<close> swaps them. The world \<open>'x\<close> holds the part of the VM these operations do not touch.
\<close>

datatype cci = Cci_None | Cci_Skip | Cci_KeepSelf

record call_info =
  ci_base :: nat
  ci_pc :: nat
  ci_irep :: nat
  ci_proc :: obj_id
  ci_n :: u8
  ci_kw :: bool
  ci_mid :: "sym option"
  ci_target_class :: obj_id
  ci_env :: "obj_id option"
  ci_cci :: cci
  ci_vis :: vis
  ci_modfunc :: bool
  ci_vis_break :: bool
  ci_method_block :: bool

datatype fiber_state = F_Created | F_Running | F_Resumed | F_Suspended | F_Transferred | F_Terminated

record vm_context =
  cx_stack :: "rvalue list"
  cx_ci :: "call_info list"
  cx_status :: fiber_state
  cx_prev :: "nat option"
  cx_fib :: "obj_id option"
  cx_proc :: "obj_id option"
  cx_vmexec :: bool
  cx_pending_reg :: "nat option"

definition context_new :: "fiber_state \<Rightarrow> vm_context" where
  "context_new status = \<lparr>cx_stack = [], cx_ci = [], cx_status = status, cx_prev = None, cx_fib = None, cx_proc = None,
     cx_vmexec = False, cx_pending_reg = None\<rparr>"

definition ROOT_CTX :: nat where "ROOT_CTX = 0"

record vm_irep =
  vi_nlocals :: nat
  vi_nregs :: nat
  vi_iseq :: bytes
  vi_catch :: "catch_handler list"
  vi_pool :: "pool list"
  vi_syms :: "sym list"
  vi_reps :: "nat list"
  vi_lv :: "sym option list"
  vi_lines :: "(u32 \<times> u32) list"
  vi_filename :: "bytes option"

definition vi_line_of :: "vm_irep \<Rightarrow> nat \<Rightarrow> u32 option" where
  "vi_line_of ir pc =
     (let i = partition_point (\<lambda>(start, _). start \<le> of_nat pc) (vi_lines ir)
      in if i = 0 then None else Some (snd (vi_lines ir ! (i - 1))))"

section \<open>The running machine\<close>

record ('t, 'x) machine =
  mc_task :: 't
  mc_cur :: nat
  mc_stack :: "rvalue list"
  mc_ci :: "call_info list"
  mc_contexts :: "vm_context list"
  mc_ireps :: "vm_irep list"
  mc_top_self :: obj_id
  mc_exc :: "rvalue option"
  mc_loop_exit :: "rvalue option"
  mc_instructions :: u64
  mc_rest :: 'x

type_synonym ('t, 'x) mvm = "('t, 'x) machine hvm"

definition mc :: "('t, 'x) mvm \<Rightarrow> ('t, 'x) machine" where "mc s = vm_world s"

definition mc_mod :: "(('t, 'x) machine \<Rightarrow> ('t, 'x) machine) \<Rightarrow> ('t, 'x) mvm \<Rightarrow> ('t, 'x) mvm" where
  "mc_mod f s = s\<lparr>vm_world := f (vm_world s)\<rparr>"

text \<open>\<open>contexts[c]\<close>: an index past the end panics.\<close>

definition ctx_at :: "('t, 'x) mvm \<Rightarrow> nat \<Rightarrow> vm_context option" where
  "ctx_at s c = (if c < length (mc_contexts (mc s)) then Some (mc_contexts (mc s) ! c) else None)"

definition ctx_mod :: "nat \<Rightarrow> (vm_context \<Rightarrow> vm_context) \<Rightarrow> ('t, 'x) mvm \<Rightarrow> ('t, 'x) mvm option" where
  "ctx_mod c f s =
     (if c < length (mc_contexts (mc s))
      then Some (mc_mod (\<lambda>m. m\<lparr>mc_contexts := (mc_contexts m)[c := f (mc_contexts m ! c)]\<rparr>) s)
      else None)"

text \<open>\<open>switch_context\<close>: the running stacks go back to their context and the other one's come out.\<close>

definition switch_context :: "nat \<Rightarrow> ('t, 'x) mvm \<Rightarrow> ('t, 'x) mvm option" where
  "switch_context to s =
     (let from = mc_cur (mc s)
      in if from = to then Some s
         else if from < length (mc_contexts (mc s)) \<and> to < length (mc_contexts (mc s))
         then let m = mc s; c = mc_contexts m ! to
              in Some (mc_mod (\<lambda>_. m\<lparr>mc_stack := cx_stack c, mc_ci := cx_ci c,
                   mc_contexts := (mc_contexts m)
                     [from := (mc_contexts m ! from)\<lparr>cx_stack := mc_stack m, cx_ci := mc_ci m\<rparr>,
                      to := c\<lparr>cx_stack := cx_stack (mc_contexts m ! from), cx_ci := cx_ci (mc_contexts m ! from),
                        cx_status := F_Running\<rparr>],
                   mc_cur := to\<rparr>) s)
         else None)"

text \<open>Whether a native stands on the host stack between the context's frames.\<close>

definition fiber_check_native :: "('t, 'x) mvm \<Rightarrow> nat \<Rightarrow> bool option" where
  "fiber_check_native s c =
     (if c = mc_cur (mc s) then Some (list_ex (\<lambda>f. ci_cci f = Cci_Skip) (tl (mc_ci (mc s))))
      else map_option (\<lambda>x. list_ex (\<lambda>f. ci_cci f = Cci_Skip) (tl (cx_ci x))) (ctx_at s c))"

section \<open>Environments\<close>

text \<open>\<open>detach_context_envs\<close>: every environment of the context's frames takes its values off the stack.\<close>

definition detach_env :: "rvalue list \<Rightarrow> obj_id \<Rightarrow> ('t, 'x) mvm \<Rightarrow> ('t, 'x) mvm option" where
  "detach_env stack e s = (case heap_env (vm_heap s) e of
      None \<Rightarrow> None
    | Some ed \<Rightarrow>
        if \<not> ev_attached ed then Some s
        else let end = min (ev_base ed + ev_len ed) (length stack);
                 vals = (if ev_base ed < end then take (end - ev_base ed) (drop (ev_base ed) stack) else [])
             in Some (vm_update e (\<lambda>x. x\<lparr>ho_kind := K_Env (ed\<lparr>ev_values := vals, ev_attached := False\<rparr>)\<rparr>) s))"

fun detach_envs :: "rvalue list \<Rightarrow> obj_id list \<Rightarrow> ('t, 'x) mvm \<Rightarrow> ('t, 'x) mvm option" where
  "detach_envs stack [] s = Some s"
| "detach_envs stack (e # es) s = Option.bind (detach_env stack e s) (detach_envs stack es)"

definition detach_context_envs :: "nat \<Rightarrow> ('t, 'x) mvm \<Rightarrow> ('t, 'x) mvm option" where
  "detach_context_envs c s =
     (if c = mc_cur (mc s) \<or> c \<ge> length (mc_contexts (mc s)) then Some s
      else let x = mc_contexts (mc s) ! c
           in detach_envs (cx_stack x) (List.map_filter ci_env (cx_ci x)) s)"

definition stack_of :: "('t, 'x) mvm \<Rightarrow> nat \<Rightarrow> rvalue list option" where
  "stack_of s c = (if c = mc_cur (mc s) then Some (mc_stack (mc s)) else map_option cx_stack (ctx_at s c))"

definition env_get :: "('t, 'x) mvm \<Rightarrow> obj_id \<Rightarrow> nat \<Rightarrow> rvalue option" where
  "env_get s env idx = (case heap_env (vm_heap s) env of
      None \<Rightarrow> None
    | Some e \<Rightarrow>
        if ev_attached e
        then map_option (\<lambda>st. if ev_base e + idx < length st then st ! (ev_base e + idx) else VNil) (stack_of s (ev_ctx e))
        else Some (if idx < length (ev_values e) then ev_values e ! idx else VNil))"

end
