(* ===== verification/TaskQueues.thy ===== *)
theory TaskQueues
  imports Context SortedDeque "HOL-Library.Monad_Syntax"
begin

text \<open>
  The queues and indexes of the task scheduler (\<open>src/builtins/ext_task.rs\<close>, \<open>TaskState\<close> of
  \<open>src/vm.rs\<close>). Every task is in one of four queues, named by its status; a waiting task is also in
  \<open>sleepers\<close> (by deadline) and \<open>waiters\<close> (by the object it waits for) while the waiting queue is long enough to
  be indexed. A panic (an object that is no task, an index out of range) is \<open>None\<close>.
\<close>

section \<open>The state\<close>

datatype timeslice_kind = Slice_Instructions | Slice_Time u64 | Slice_Both u64

type_synonym task_queue = "(u8 \<times> u64, obj_id) sorted_deque"

record task_state =
  ts_queues :: "task_queue list"
  ts_seq :: u64
  ts_sleepers :: "(u64 \<times> u64, obj_id) sorted_deque"
  ts_waiters :: "(obj_id \<times> u64, obj_id) sorted_deque"
  ts_due :: "(u64 \<times> obj_id) list"
  ts_indexed :: bool
  ts_index_from :: nat
  ts_tick_abs :: u64
  ts_tick_seen :: u32
  ts_tick :: u32
  ts_wakeup_tick :: u32
  ts_switching :: bool
  ts_loop_running :: bool
  ts_running :: "obj_id option"
  ts_tick_every :: u64
  ts_tick_left :: u64
  ts_clock_from_instructions :: bool
  ts_main :: "obj_id option"
  ts_hook :: bool
  ts_gc_driven :: bool
  ts_gc_debt_limit :: i64
  ts_timeslice :: timeslice_kind
  ts_clock :: bool
  ts_slice_start :: u64
  ts_run_soft :: "u64 option"
  ts_run_hard :: "u64 option"
  ts_run_hard_instructions :: "u64 option"
  ts_overrun :: bool
  ts_limits_active :: bool
  ts_native_sampling :: bool
  ts_native_every :: u32
  ts_native_left :: u32
  ts_forced :: "u64 option"
  ts_overrun_class :: "obj_id option"
  ts_walked :: u64

type_synonym 'x tvm = "(task_state, 'x) mvm"

definition TASK_TICK_INSTRUCTIONS :: u64 where "TASK_TICK_INSTRUCTIONS = 10000"
definition TASK_INDEX_FROM :: nat where "TASK_INDEX_FROM = 30"
definition TASK_NATIVE_SAMPLE :: u32 where "TASK_NATIVE_SAMPLE = 32"

definition task_state_new :: task_state where
  "task_state_new = \<lparr>ts_queues = [[], [], [], []], ts_seq = 0, ts_sleepers = [], ts_waiters = [], ts_due = [],
     ts_indexed = False, ts_index_from = TASK_INDEX_FROM, ts_tick_abs = 0, ts_tick_seen = 0, ts_tick = 0,
     ts_wakeup_tick = - 1, ts_switching = False, ts_loop_running = False, ts_running = None,
     ts_tick_every = TASK_TICK_INSTRUCTIONS, ts_tick_left = TASK_TICK_INSTRUCTIONS, ts_clock_from_instructions = True,
     ts_main = None, ts_hook = False, ts_gc_driven = False, ts_gc_debt_limit = 0, ts_timeslice = Slice_Instructions,
     ts_clock = False, ts_slice_start = 0, ts_run_soft = None, ts_run_hard = None, ts_run_hard_instructions = None,
     ts_overrun = False, ts_limits_active = False, ts_native_sampling = False, ts_native_every = TASK_NATIVE_SAMPLE,
     ts_native_left = TASK_NATIVE_SAMPLE, ts_forced = None, ts_overrun_class = None, ts_walked = 0\<rparr>"

definition ts :: "'x tvm \<Rightarrow> task_state" where "ts s = mc_task (mc s)"

definition ts_mod :: "(task_state \<Rightarrow> task_state) \<Rightarrow> 'x tvm \<Rightarrow> 'x tvm" where
  "ts_mod f s = mc_mod (\<lambda>m. m\<lparr>mc_task := f (mc_task m)\<rparr>) s"

definition td :: "('t, 'x) mvm \<Rightarrow> obj_id \<Rightarrow> task_data option" where
  "td s o' = (case heap_kind (vm_heap s) o' of Some (K_Task t) \<Rightarrow> Some t | _ \<Rightarrow> None)"

text \<open>\<open>td_mut\<close>: the task is written back.\<close>

definition td_put :: "obj_id \<Rightarrow> task_data \<Rightarrow> ('t, 'x) mvm \<Rightarrow> ('t, 'x) mvm" where
  "td_put o' t s = vm_update o' (\<lambda>x. x\<lparr>ho_kind := K_Task t\<rparr>) s"

definition td_mod :: "obj_id \<Rightarrow> (task_data \<Rightarrow> task_data) \<Rightarrow> ('t, 'x) mvm \<Rightarrow> ('t, 'x) mvm option" where
  "td_mod o' f s = map_option (\<lambda>t. td_put o' (f t) s) (td s o')"

section \<open>Statuses and queues\<close>

definition DORMANT :: u8 where "DORMANT = 0"
definition READY :: u8 where "READY = 2"
definition RUNNING :: u8 where "RUNNING = 3"
definition WAITING :: u8 where "WAITING = 4"
definition SUSPENDED :: u8 where "SUSPENDED = 8"
definition REASON_NONE :: u8 where "REASON_NONE = 0"
definition REASON_SLEEP :: u8 where "REASON_SLEEP = 1"
definition REASON_JOIN :: u8 where "REASON_JOIN = 4"
definition REASON_QUEUE :: u8 where "REASON_QUEUE = 8"
definition Q_DORMANT :: nat where "Q_DORMANT = 0"
definition Q_READY :: nat where "Q_READY = 1"
definition Q_WAITING :: nat where "Q_WAITING = 2"
definition Q_SUSPENDED :: nat where "Q_SUSPENDED = 3"
definition TICK_UNIT_MS :: u32 where "TICK_UNIT_MS = 4"
definition TIMESLICE :: u8 where "TIMESLICE = 3"
definition PRIORITY_DEFAULT :: u8 where "PRIORITY_DEFAULT = 128"

definition NEVER :: u32 where "NEVER = - 1"

lemmas queue_ids = Q_DORMANT_def Q_READY_def Q_WAITING_def Q_SUSPENDED_def
lemmas status_ids = DORMANT_def READY_def RUNNING_def WAITING_def SUSPENDED_def

definition q_of :: "u8 \<Rightarrow> nat" where
  "q_of status =
     (if status = READY \<or> status = RUNNING then Q_READY
      else if status = WAITING then Q_WAITING
      else if status = SUSPENDED then Q_SUSPENDED
      else Q_DORMANT)"

definition queue_at :: "nat \<Rightarrow> 'x tvm \<Rightarrow> task_queue" where
  "queue_at q s = ts_queues (ts s) ! q"

definition queue_tasks :: "nat \<Rightarrow> 'x tvm \<Rightarrow> obj_id list" where
  "queue_tasks q s = map snd (queue_at q s)"

definition queue_set :: "nat \<Rightarrow> task_queue \<Rightarrow> 'x tvm \<Rightarrow> 'x tvm" where
  "queue_set q d s = ts_mod (\<lambda>x. x\<lparr>ts_queues := (ts_queues x)[q := d]\<rparr>) s"

definition queue_insert :: "nat \<Rightarrow> u8 \<times> u64 \<Rightarrow> obj_id \<Rightarrow> 'x tvm \<Rightarrow> 'x tvm option" where
  "queue_insert q key o' s =
     (if q < length (ts_queues (ts s)) then Some (queue_set q (sd_insert (queue_at q s) key o') s) else None)"

definition queue_remove :: "(nat \<times> u8 \<times> u64) option \<Rightarrow> 'x tvm \<Rightarrow> 'x tvm option" where
  "queue_remove place s = (case place of
      None \<Rightarrow> Some s
    | Some (q, key) \<Rightarrow>
        if q < length (ts_queues (ts s)) then Some (queue_set q (fst (sd_remove (queue_at q s) key)) s) else None)"

definition sleepers_remove :: "(u64 \<times> u64) option \<Rightarrow> 'x tvm \<Rightarrow> 'x tvm" where
  "sleepers_remove k s = (case k of
      None \<Rightarrow> s | Some key \<Rightarrow> ts_mod (\<lambda>x. x\<lparr>ts_sleepers := fst (sd_remove (ts_sleepers x) key)\<rparr>) s)"

definition waiters_remove :: "(obj_id \<times> u64) option \<Rightarrow> 'x tvm \<Rightarrow> 'x tvm" where
  "waiters_remove k s = (case k of
      None \<Rightarrow> s | Some key \<Rightarrow> ts_mod (\<lambda>x. x\<lparr>ts_waiters := fst (sd_remove (ts_waiters x) key)\<rparr>) s)"

section \<open>The clock that does not wrap\<close>

definition abs_tick :: "'x tvm \<Rightarrow> 'x tvm \<times> u64" where
  "abs_tick s =
     (let x = ts s; a = ts_tick_abs x + ucast (ts_tick x - ts_tick_seen x)
      in (ts_mod (\<lambda>x. x\<lparr>ts_tick_abs := a, ts_tick_seen := ts_tick x\<rparr>) s, a))"

text \<open>\<open>saturating_add_signed\<close>\<close>

definition sat_add_signed :: "u64 \<Rightarrow> int \<Rightarrow> u64" where
  "sat_add_signed a d = word_of_int (max 0 (min (2 ^ 64 - 1) (uint a + d)))"

definition abs_deadline :: "u32 \<Rightarrow> 'x tvm \<Rightarrow> 'x tvm \<times> u64" where
  "abs_deadline deadline s =
     (let (s1, now) = abs_tick s
      in (s1, sat_add_signed now (sint (deadline - ts_tick (ts s1)))))"

section \<open>The indexes\<close>

definition wait_target :: "task_data \<Rightarrow> obj_id option" where
  "wait_target t =
     (if tk_reason t = REASON_QUEUE then tk_queue t
      else if tk_reason t = REASON_JOIN then tk_join t
      else None)"

definition has_deadline :: "task_data \<Rightarrow> bool" where
  "has_deadline t \<longleftrightarrow> (tk_reason t = REASON_SLEEP \<or> tk_reason t = REASON_QUEUE) \<and> tk_wakeup_tick t \<noteq> NEVER"

definition waits_for :: "task_data \<Rightarrow> obj_id \<Rightarrow> bool" where
  "waits_for t target =
     (if tk_reason t = REASON_QUEUE then tk_queue t = Some target
      else if tk_reason t = REASON_JOIN then tk_join t = Some target
      else False)"

definition index_one :: "obj_id \<Rightarrow> u64 \<Rightarrow> u8 \<Rightarrow> u32 \<Rightarrow> obj_id option \<Rightarrow> 'x tvm \<Rightarrow>
    'x tvm \<times> (u64 \<times> u64) option \<times> (obj_id \<times> u64) option" where
  "index_one o' seq reason deadline target s =
     (let (s1, sk) =
        (if (reason = REASON_SLEEP \<or> reason = REASON_QUEUE) \<and> deadline \<noteq> NEVER
         then let (s0, d) = abs_deadline deadline s
              in (ts_mod (\<lambda>x. x\<lparr>ts_sleepers := sd_insert (ts_sleepers x) (d, seq) o'\<rparr>) s0, Some (d, seq))
         else (s, None))
      in case target of
           None \<Rightarrow> (s1, sk, None)
         | Some t \<Rightarrow> (ts_mod (\<lambda>x. x\<lparr>ts_waiters := sd_insert (ts_waiters x) (t, seq) o'\<rparr>) s1, sk, Some (t, seq)))"

fun index_all :: "(u64 \<times> obj_id) list \<Rightarrow> 'x tvm \<Rightarrow> 'x tvm option" where
  "index_all [] s = Some s"
| "index_all ((seq, o') # es) s = (case td s o' of
      None \<Rightarrow> None
    | Some t \<Rightarrow>
        (let (s1, sk, wk) = index_one o' seq (tk_reason t) (tk_wakeup_tick t) (wait_target t) s;
             (q, key) = (case place_queued (tk_place t) of Some p \<Rightarrow> p | None \<Rightarrow> (Q_WAITING, 0, seq))
         in index_all es (td_put o' (t\<lparr>tk_place := place_set q key sk wk\<rparr>) s1)))"

definition build_index :: "'x tvm \<Rightarrow> 'x tvm option" where
  "build_index s =
     index_all (map (\<lambda>((_, seq), o'). (seq, o')) (queue_at Q_WAITING s)) (ts_mod (\<lambda>x. x\<lparr>ts_indexed := True\<rparr>) s)"

definition index_waiting :: "'x tvm \<Rightarrow> 'x tvm option" where
  "index_waiting s = (if \<not> ts_indexed (ts s) then build_index s else Some s)"

fun unindex_all :: "obj_id list \<Rightarrow> 'x tvm \<Rightarrow> 'x tvm option" where
  "unindex_all [] s = Some s"
| "unindex_all (o' # os) s =
     Option.bind (td_mod o' (\<lambda>t. t\<lparr>tk_place := place_unindex (tk_place t)\<rparr>) s) (unindex_all os)"

definition unindex_waiting :: "'x tvm \<Rightarrow> 'x tvm option" where
  "unindex_waiting s =
     (if \<not> ts_indexed (ts s) then Some s
      else map_option (ts_mod (\<lambda>x. x\<lparr>ts_sleepers := [], ts_waiters := [], ts_indexed := False\<rparr>))
        (unindex_all (queue_tasks Q_WAITING s) s))"

definition unindex_if_empty :: "'x tvm \<Rightarrow> 'x tvm" where
  "unindex_if_empty s =
     (if ts_indexed (ts s) \<and> ts_index_from (ts s) > 0 \<and> queue_at Q_WAITING s = []
      then ts_mod (\<lambda>x. x\<lparr>ts_indexed := False\<rparr>) s else s)"

section \<open>In and out of the queues\<close>

definition leave :: "task_place \<Rightarrow> 'x tvm \<Rightarrow> 'x tvm option" where
  "leave pl s =
     map_option
       (\<lambda>s1. let s2 = waiters_remove (place_wait_key pl) (sleepers_remove (place_sleep_key pl) s1)
             in if (case place_queued pl of Some (q, _) \<Rightarrow> q = Q_WAITING | None \<Rightarrow> False)
                then unindex_if_empty s2 else s2)
       (queue_remove (place_queued pl) s)"

text \<open>The end of \<open>requeue\<close>: the queue and the indexes the fields of \<open>t\<close> say.\<close>

definition enter :: "obj_id \<Rightarrow> task_data \<Rightarrow> 'x tvm \<Rightarrow> 'x tvm option" where
  "enter o' t s =
     (let q = q_of (tk_status t);
          seq = ts_seq (ts s);
          key = (if q = Q_READY then tk_priority t else 0, seq)
      in do {
        s1 \<leftarrow> queue_insert q key o' (ts_mod (\<lambda>x. x\<lparr>ts_seq := seq + 1\<rparr>) s);
        if q = Q_WAITING \<and> ts_indexed (ts s1) then
          (let (s2, sk, wk) = index_one o' seq (tk_reason t) (tk_wakeup_tick t) (wait_target t) s1
           in td_mod o' (\<lambda>x. x\<lparr>tk_place := place_set q key sk wk\<rparr>) s2)
        else if q = Q_WAITING \<and> length (queue_at Q_WAITING s1) \<ge> ts_index_from (ts s1) then
          do { s2 \<leftarrow> td_mod o' (\<lambda>x. x\<lparr>tk_place := place_set q key None None\<rparr>) s1; build_index s2 }
        else td_mod o' (\<lambda>x. x\<lparr>tk_place := place_set q key None None\<rparr>) s1
      })"

definition requeue :: "obj_id \<Rightarrow> bool \<Rightarrow> (task_data \<Rightarrow> task_data) \<Rightarrow> 'x tvm \<Rightarrow> 'x tvm option" where
  "requeue o' del change s = do {
     t \<leftarrow> td s o';
     let pl = (if del then tk_place t else place_none);
     let t1 = change (if del then t\<lparr>tk_place := place_none\<rparr> else t);
     s1 \<leftarrow> leave pl (td_put o' t1 s);
     enter o' t1 s1
   }"

definition q_insert :: "obj_id \<Rightarrow> 'x tvm \<Rightarrow> 'x tvm option" where
  "q_insert o' s = requeue o' False (\<lambda>t. t) s"

definition q_delete :: "obj_id \<Rightarrow> 'x tvm \<Rightarrow> 'x tvm option" where
  "q_delete o' s = do {
     t \<leftarrow> td s o';
     leave (tk_place t) (td_put o' (t\<lparr>tk_place := place_none\<rparr>) s)
   }"

definition set_status :: "obj_id \<Rightarrow> u8 \<Rightarrow> 'x tvm \<Rightarrow> 'x tvm option" where
  "set_status o' status s = requeue o' True (\<lambda>t. t\<lparr>tk_status := status\<rparr>) s"

definition is_queued :: "'x tvm \<Rightarrow> obj_id \<Rightarrow> bool option" where
  "is_queued s o' = map_option (\<lambda>t. place_queued (tk_place t) \<noteq> None) (td s o')"

section \<open>Waking\<close>

text \<open>The sleepers that are due leave their index.\<close>

fun take_due :: "u64 \<Rightarrow> (u64 \<times> u64, obj_id) sorted_deque \<Rightarrow> (u64 \<times> obj_id) list \<Rightarrow> 'x tvm \<Rightarrow>
    ('x tvm \<times> (u64 \<times> obj_id) list) option" where
  "take_due now [] due s = Some (s, due)"
| "take_due now (((deadline, seq), o') # q) due s =
     (if deadline > now then Some (s, due)
      else do {
        let s1 = sleepers_remove (Some (deadline, seq)) s;
        s2 \<leftarrow> td_mod o' (\<lambda>t. t\<lparr>tk_place := place_unsleep (tk_place t)\<rparr>) s1;
        take_due now q (due @ [(seq, o')]) s2
      })"

text \<open>The walk of a waiting queue that is not indexed: who is due and the next deadline.\<close>

fun walk_due :: "u32 \<Rightarrow> ((u8 \<times> u64) \<times> obj_id) list \<Rightarrow> (u64 \<times> obj_id) list \<Rightarrow> u32 \<Rightarrow> 'x tvm \<Rightarrow>
    ((u64 \<times> obj_id) list \<times> u32) option" where
  "walk_due now [] due nxt s = Some (due, nxt)"
| "walk_due now (((_, seq), o') # es) due nxt s = do {
     t \<leftarrow> td s o';
     if \<not> has_deadline t then walk_due now es due nxt s
     else if sint (tk_wakeup_tick t - now) \<le> 0 then walk_due now es (due @ [(seq, o')]) nxt s
     else if nxt = NEVER \<or> sint (tk_wakeup_tick t - nxt) < 0 then walk_due now es due (tk_wakeup_tick t) s
     else walk_due now es due nxt s
   }"

definition wake :: "task_data \<Rightarrow> task_data" where
  "wake t = t\<lparr>tk_status := READY, tk_reason := REASON_NONE, tk_queue := None, tk_wakeup_tick := NEVER\<rparr>"

fun wake_all :: "(u64 \<times> obj_id) list \<Rightarrow> 'x tvm \<Rightarrow> 'x tvm option" where
  "wake_all [] s = Some s"
| "wake_all ((_, o') # es) s = do {
     s1 \<leftarrow> requeue o' True wake s;
     wake_all es (ts_mod (\<lambda>x. x\<lparr>ts_switching := True\<rparr>) s1)
   }"

definition add_walked :: "nat \<Rightarrow> 'x tvm \<Rightarrow> 'x tvm" where
  "add_walked n s = ts_mod (\<lambda>x. x\<lparr>ts_walked := ts_walked x + of_nat n\<rparr>) s"

definition wake_sleepers :: "'x tvm \<Rightarrow> 'x tvm option" where
  "wake_sleepers s =
     (let now = ts_tick (ts s)
      in if ts_wakeup_tick (ts s) = NEVER then Some s
         else if sint (ts_wakeup_tick (ts s) - now) > 0 then Some s
         else do {
           let due0 = ts_due (ts s);
           let s0 = ts_mod (\<lambda>x. x\<lparr>ts_due := []\<rparr>) s;
           (s1, due, nxt) \<leftarrow>
             (if ts_indexed (ts s0)
              then do {
                let (s1, now_abs) = abs_tick s0;
                (s2, due) \<leftarrow> take_due now_abs (ts_sleepers (ts s1)) due0 s1;
                Some (add_walked (length due) s2, sort_key fst due, NEVER)
              }
              else do {
                (due, nxt) \<leftarrow> walk_due now (queue_at Q_WAITING s0) due0 NEVER s0;
                Some (add_walked (length (queue_at Q_WAITING s0)) s0, due, nxt)
              });
           s2 \<leftarrow> wake_all due s1;
           wt \<leftarrow> (if ts_indexed (ts s2)
                  then (case sd_first (ts_sleepers (ts s2)) of
                      Some (_, o') \<Rightarrow> map_option tk_wakeup_tick (td s2 o')
                    | None \<Rightarrow> Some NEVER)
                  else Some nxt);
           Some (ts_mod (\<lambda>x. x\<lparr>ts_due := [], ts_wakeup_tick := wt\<rparr>) s2)
         })"

definition advance_ticks :: "u32 \<Rightarrow> 'x tvm \<Rightarrow> 'x tvm option" where
  "advance_ticks n s = wake_sleepers (ts_mod (\<lambda>x. x\<lparr>ts_tick := ts_tick x + n\<rparr>) s)"

section \<open>Who waits for an object\<close>

text \<open>The walk: what it found and how many entries it looked at.\<close>

fun walk_waiting :: "obj_id \<Rightarrow> bool \<Rightarrow> obj_id list \<Rightarrow> 'x tvm \<Rightarrow> (obj_id list \<times> nat) option" where
  "walk_waiting target all [] s = Some ([], 0)"
| "walk_waiting target all (o' # os) s = do {
     t \<leftarrow> td s o';
     if waits_for t target then
       (if \<not> all then Some ([o'], 1)
        else map_option (\<lambda>(found, n). (o' # found, Suc n)) (walk_waiting target all os s))
     else map_option (\<lambda>(found, n). (found, Suc n)) (walk_waiting target all os s)
   }"

definition waiting_for :: "obj_id \<Rightarrow> bool \<Rightarrow> 'x tvm \<Rightarrow> ('x tvm \<times> obj_id list) option" where
  "waiting_for target all s =
     (if \<not> ts_indexed (ts s)
      then do {
        (found, n) \<leftarrow> walk_waiting target all (queue_tasks Q_WAITING s) s;
        Some (add_walked n s, found)
      }
      else let range = map snd (takeWhile (\<lambda>(k, _). fst k = target) (sd_iter_from (ts_waiters (ts s)) (target, 0)));
               found = (if all then range else take 1 range)
           in Some (add_walked (length found) s, found))"

definition first_waiting_for :: "obj_id \<Rightarrow> 'x tvm \<Rightarrow> ('x tvm \<times> obj_id option) option" where
  "first_waiting_for target s =
     (if \<not> ts_indexed (ts s)
      then do {
        (found, n) \<leftarrow> walk_waiting target False (queue_tasks Q_WAITING s) s;
        Some (add_walked n s, (case found of [] \<Rightarrow> None | o' # _ \<Rightarrow> Some o'))
      }
      else let first = (case sd_iter_from (ts_waiters (ts s)) (target, 0) of
                   [] \<Rightarrow> None | (k, o') # _ \<Rightarrow> if fst k = target then Some o' else None)
           in Some (if first \<noteq> None then add_walked 1 s else s, first))"

definition normalize :: "u32 \<Rightarrow> u32" where
  "normalize deadline = (if deadline = NEVER then NEVER - 1 else deadline)"

definition note_wakeup :: "u32 \<Rightarrow> 'x tvm \<Rightarrow> 'x tvm" where
  "note_wakeup deadline s =
     (if ts_wakeup_tick (ts s) = NEVER \<or> sint (deadline - ts_wakeup_tick (ts s)) < 0
      then ts_mod (\<lambda>x. x\<lparr>ts_wakeup_tick := deadline\<rparr>) s else s)"

fun wake_joined :: "obj_id \<Rightarrow> obj_id list \<Rightarrow> 'x tvm \<Rightarrow> 'x tvm option" where
  "wake_joined done [] s = Some s"
| "wake_joined done (o' # os) s = do {
     t \<leftarrow> td s o';
     s1 \<leftarrow> (if tk_reason t = REASON_JOIN \<and> tk_join t = Some done
            then do {
              s1 \<leftarrow> q_delete o' s;
              s2 \<leftarrow> td_mod o' (\<lambda>t. t\<lparr>tk_status := READY, tk_reason := REASON_NONE, tk_join := None\<rparr>) s1;
              q_insert o' s2
            }
            else Some s);
     wake_joined done os s1
   }"

definition wake_join_waiters :: "obj_id \<Rightarrow> 'x tvm \<Rightarrow> 'x tvm option" where
  "wake_join_waiters done s = do {
     (s1, found) \<leftarrow> waiting_for done True s;
     wake_joined done found s1
   }"

definition wake_queue_waiter :: "obj_id \<Rightarrow> obj_id \<Rightarrow> 'x tvm \<Rightarrow> 'x tvm option" where
  "wake_queue_waiter o' queue s = do {
     t \<leftarrow> td s o';
     if tk_reason t \<noteq> REASON_QUEUE \<or> tk_queue t \<noteq> Some queue then Some s
     else do {
       s1 \<leftarrow> requeue o' True wake s;
       Some (ts_mod (\<lambda>x. x\<lparr>ts_switching := True\<rparr>) s1)
     }
   }"

fun wake_each_queue_waiter :: "obj_id \<Rightarrow> obj_id list \<Rightarrow> 'x tvm \<Rightarrow> 'x tvm option" where
  "wake_each_queue_waiter queue [] s = Some s"
| "wake_each_queue_waiter queue (o' # os) s =
     Option.bind (wake_queue_waiter o' queue s) (wake_each_queue_waiter queue os)"

definition wake_queue_waiters :: "obj_id \<Rightarrow> bool \<Rightarrow> 'x tvm \<Rightarrow> 'x tvm option" where
  "wake_queue_waiters queue all s =
     (if \<not> all
      then do {
        (s1, first) \<leftarrow> first_waiting_for queue s;
        (case first of Some o' \<Rightarrow> wake_queue_waiter o' queue s1 | None \<Rightarrow> Some s1)
      }
      else do {
        (s1, found) \<leftarrow> waiting_for queue all s;
        wake_each_queue_waiter queue found s1
      })"

text \<open>\<open>Vm::task_set_index_from\<close>\<close>

definition task_set_index_from :: "nat \<Rightarrow> 'x tvm \<Rightarrow> 'x tvm option" where
  "task_set_index_from n s =
     (let s1 = ts_mod (\<lambda>x. x\<lparr>ts_index_from := n\<rparr>) s
      in if n = 0 \<or> length (queue_at Q_WAITING s1) \<ge> n then index_waiting s1 else unindex_waiting s1)"

end
