(* ===== verification/TaskInv.thy ===== *)
theory TaskInv
  imports TaskQueues
begin

text \<open>
  The invariant of the task queues and their indexes, and the reference scheduler they refine: the same
  operations on the queues alone, without indexes (\<open>sched\<close>). \<open>view\<close> forgets the indexes; \<open>rest\<close> is
  everything the queue operations leave alone.
\<close>

section \<open>Reading and writing the state\<close>

lemma ts_simps [simp]:
  "ts (ts_mod f s) = f (ts s)" "td (ts_mod f s) = td s" "vm_heap (ts_mod f s) = vm_heap s"
  "ts (td_put o' t s) = ts s" "vm_native_active (ts_mod f s) = vm_native_active s"
  by (simp_all add: ts_def ts_mod_def mc_def mc_mod_def td_def td_put_def vm_update_def fun_eq_iff)

lemma td_put_td:
  assumes "td s o' = Some t0"
  shows "td (td_put o' t s) = (td s)(o' \<mapsto> t)"
proof
  fix p
  have i: "unat o' < length (hp_objs (vm_heap s))"
    using assms by (auto simp: td_def heap_kind_def heap_get_def split: if_splits option.splits)
  show "td (td_put o' t s) p = ((td s)(o' \<mapsto> t)) p"
    using i by (auto simp: td_def td_put_def vm_update_def heap_kind_def heap_get_def heap_update_def nth_list_update
        dest!: word_unat_eq_iff [THEN iffD2])
qed

lemma td_mod_Some: "td s o' = Some t \<Longrightarrow> td_mod o' f s = Some (td_put o' (f t) s)"
  by (simp add: td_mod_def)

lemma queue_at_simps [simp]:
  "queue_at q (ts_mod f s) = ts_queues (f (ts s)) ! q" "queue_at q (td_put o' t s) = queue_at q s"
  by (simp_all add: queue_at_def)

lemma ts_mod_mod: "ts_mod f (ts_mod g s) = ts_mod (\<lambda>x. f (g x)) s"
  by (simp add: ts_mod_def mc_mod_def)

section \<open>What the queue operations leave alone\<close>

definition untask :: "heap_object \<Rightarrow> heap_object" where
  "untask x = (case ho_kind x of K_Task _ \<Rightarrow> x\<lparr>ho_kind := K_Object\<rparr> | _ \<Rightarrow> x)"

definition plain_ts :: "task_state \<Rightarrow> task_state" where
  "plain_ts x = x\<lparr>ts_queues := [], ts_seq := 0, ts_sleepers := [], ts_waiters := [], ts_due := [], ts_indexed := False,
     ts_tick_abs := 0, ts_tick_seen := 0, ts_wakeup_tick := 0, ts_switching := False, ts_walked := 0\<rparr>"

definition rest :: "'x tvm \<Rightarrow> 'x tvm" where
  "rest s = s\<lparr>vm_heap := (vm_heap s)\<lparr>hp_objs := map untask (hp_objs (vm_heap s))\<rparr>,
     vm_world := (vm_world s)\<lparr>mc_task := plain_ts (ts s)\<rparr>\<rparr>"

lemma rest_ts_mod: "plain_ts (f (ts s)) = plain_ts (ts s) \<Longrightarrow> rest (ts_mod f s) = rest s"
  by (simp add: rest_def ts_mod_def mc_mod_def ts_def mc_def)

lemma rest_td_put:
  assumes "td s o' = Some t0"
  shows "rest (td_put o' t s) = rest s"
proof -
  have "unat o' < length (hp_objs (vm_heap s)) \<and> (\<exists>t. ho_kind (hp_objs (vm_heap s) ! unat o') = K_Task t)"
    using assms by (auto simp: td_def heap_kind_def heap_get_def split: if_splits option.splits obj_kind.splits)
  then have "map untask ((hp_objs (vm_heap s))[unat o' := (hp_objs (vm_heap s) ! unat o')\<lparr>ho_kind := K_Task t\<rparr>]) =
      map untask (hp_objs (vm_heap s))"
    by (intro nth_equalityI) (auto simp: nth_list_update untask_def)
  then show ?thesis
    using \<open>_ \<and> _\<close> by (simp add: rest_def td_put_def vm_update_def heap_update_def ts_def mc_def)
qed

lemma rest_tick: "rest s' = rest s \<Longrightarrow> ts_tick (ts s') = ts_tick (ts s) \<and> ts_index_from (ts s') = ts_index_from (ts s)
    \<and> ts_running (ts s') = ts_running (ts s)"
proof -
  assume "rest s' = rest s"
  then have "ts_tick (mc_task (vm_world (rest s'))) = ts_tick (mc_task (vm_world (rest s)))"
    "ts_index_from (mc_task (vm_world (rest s'))) = ts_index_from (mc_task (vm_world (rest s)))"
    "ts_running (mc_task (vm_world (rest s'))) = ts_running (mc_task (vm_world (rest s)))" by simp_all
  then show ?thesis by (simp add: rest_def plain_ts_def)
qed

section \<open>Places\<close>

lemma place_none_simps [simp]:
  "place_queued place_none = None" "place_sleep_key place_none = None" "place_wait_key place_none = None"
  by (simp_all add: place_none_def place_queued_def place_sleep_key_def place_wait_key_def)

lemma q_byte:
  assumes "q < 4"
  shows "(of_nat q :: u8) \<noteq> - 1" "unat (of_nat q :: u8) = q"
proof -
  show u: "unat (of_nat q :: u8) = q" using assms by (simp add: unat_of_nat)
  have "unat (- 1 :: u8) = 255" by (simp add: unsigned_minus_1_eq_mask mask_eq_exp_minus_1)
  then show "(of_nat q :: u8) \<noteq> - 1" using u assms by (intro notI) simp
qed

lemma place_set_simps [simp]:
  "q < 4 \<Longrightarrow> place_queued (place_set q key sk wk) = Some (q, key)"
  "(case sk of None \<Rightarrow> True | Some k \<Rightarrow> fst k \<noteq> - 1 \<and> snd k = snd key) \<Longrightarrow> place_sleep_key (place_set q key sk wk) = sk"
  "(case wk of None \<Rightarrow> True | Some k \<Rightarrow> snd k = snd key) \<Longrightarrow> place_wait_key (place_set q key sk wk) = wk"
  "place_unindex (place_set q key sk wk) = place_set q key None None"
  "place_unsleep (place_set q key sk wk) = place_set q key None wk"
  by (auto simp: place_queued_def place_sleep_key_def place_wait_key_def place_set_def place_unindex_def place_unsleep_def
      q_byte split: option.splits)

lemma place_unindex_simps [simp]:
  "place_queued (place_unindex p) = place_queued p" "place_sleep_key (place_unindex p) = None"
  "place_wait_key (place_unindex p) = None" "place_unindex (place_unindex p) = place_unindex p"
  "place_unindex place_none = place_none" "place_unindex (place_unsleep p) = place_unindex p"
  "place_queued (place_unsleep p) = place_queued p" "place_sleep_key (place_unsleep p) = None"
  "place_wait_key (place_unsleep p) = place_wait_key p"
  by (simp_all add: place_queued_def place_sleep_key_def place_wait_key_def place_unindex_def place_none_def place_unsleep_def)

lemma q_of_less [simp]: "q_of st < 4"
  by (simp add: q_of_def queue_ids)

section \<open>The invariant\<close>

declare not_None_eq [simp del] split_paired_All [simp del] split_paired_Ex [simp del]

definition in_waiting :: "task_data \<Rightarrow> bool" where
  "in_waiting t \<longleftrightarrow> (\<exists>key. place_queued (tk_place t) = Some (Q_WAITING, key))"

text \<open>Every queue is in order, holds the tasks that say they are in it, and is the one their status names.\<close>

definition queues_ok :: "'x tvm \<Rightarrow> bool" where
  "queues_ok s \<longleftrightarrow> length (ts_queues (ts s)) = 4 \<and>
     (\<forall>q < 4. sd_inv (queue_at q s) \<and> (\<forall>key o'. map_of (queue_at q s) key = Some o' \<longrightarrow>
        (\<exists>t. td s o' = Some t \<and> place_queued (tk_place t) = Some (q, key)))) \<and>
     (\<forall>o' t q pri seq. td s o' = Some t \<longrightarrow> place_queued (tk_place t) = Some (q, pri, seq) \<longrightarrow>
        q = q_of (tk_status t) \<and> map_of (queue_at q s) (pri, seq) = Some o' \<and>
        pri = (if q = Q_READY then tk_priority t else 0) \<and> seq < ts_seq (ts s))"

text \<open>The indexes hold the entries the tasks say, and they say them exactly while they wait and are indexed.\<close>

definition entry_ok :: "bool \<Rightarrow> task_data \<Rightarrow> bool" where
  "entry_ok indexed t \<longleftrightarrow>
     (place_sleep_key (tk_place t) \<noteq> None \<longleftrightarrow> indexed \<and> in_waiting t \<and> has_deadline t) \<and>
     tp_target (tk_place t) = (if indexed \<and> in_waiting t then wait_target t else None)"

definition indexes_ok :: "'x tvm \<Rightarrow> bool" where
  "indexes_ok s \<longleftrightarrow> sd_inv (ts_sleepers (ts s)) \<and> sd_inv (ts_waiters (ts s)) \<and>
     (\<forall>k o'. map_of (ts_sleepers (ts s)) k = Some o' \<longleftrightarrow> (\<exists>t. td s o' = Some t \<and> place_sleep_key (tk_place t) = Some k)) \<and>
     (\<forall>k o'. map_of (ts_waiters (ts s)) k = Some o' \<longleftrightarrow> (\<exists>t. td s o' = Some t \<and> place_wait_key (tk_place t) = Some k)) \<and>
     (\<forall>o' t. td s o' = Some t \<longrightarrow> entry_ok (ts_indexed (ts s)) t)"

text \<open>The clock as \<open>abs_tick\<close> would read it, and how far ahead a deadline is.\<close>

definition now_abs :: "task_state \<Rightarrow> int" where
  "now_abs x = uint (ts_tick_abs x) + uint (ts_tick x - ts_tick_seen x)"

definition ahead :: "task_state \<Rightarrow> u32 \<Rightarrow> int" where
  "ahead x d = sint (d - ts_tick x)"

text \<open>Deadlines in the index are the ones of the tasks, on the clock that does not wrap.\<close>

definition clock_ok :: "'x tvm \<Rightarrow> bool" where
  "clock_ok s \<longleftrightarrow> ucast (ts_tick_abs (ts s)) = ts_tick_seen (ts s) \<and>
     (\<forall>o' t d seq. td s o' = Some t \<longrightarrow> place_sleep_key (tk_place t) = Some (d, seq) \<longrightarrow>
        uint d = now_abs (ts s) + ahead (ts s) (tk_wakeup_tick t) \<and> uint d < uint (ts_tick_abs (ts s)) + 2 ^ 31)"

definition sched_ok :: "'x tvm \<Rightarrow> bool" where
  "sched_ok s \<longleftrightarrow> queues_ok s \<and> indexes_ok s \<and> clock_ok s \<and> ts_due (ts s) = []"

section \<open>The reference scheduler\<close>

record sched =
  sc_tasks :: "obj_id \<Rightarrow> task_data option"
  sc_queues :: "task_queue list"
  sc_seq :: u64
  sc_tick :: u32
  sc_wakeup :: u32
  sc_switching :: bool

definition strip :: "task_data \<Rightarrow> task_data" where
  "strip t = t\<lparr>tk_place := place_unindex (tk_place t)\<rparr>"

definition view :: "'x tvm \<Rightarrow> sched" where
  "view s = \<lparr>sc_tasks = (\<lambda>o'. map_option strip (td s o')), sc_queues = ts_queues (ts s), sc_seq = ts_seq (ts s),
     sc_tick = ts_tick (ts s), sc_wakeup = ts_wakeup_tick (ts s), sc_switching = ts_switching (ts s)\<rparr>"

definition ref_leave :: "obj_id \<Rightarrow> task_data \<Rightarrow> task_place \<Rightarrow> sched \<Rightarrow> sched" where
  "ref_leave o' t pl v = v\<lparr>sc_tasks := (sc_tasks v)(o' \<mapsto> t),
     sc_queues := (case place_queued pl of None \<Rightarrow> sc_queues v
       | Some (q, key) \<Rightarrow> (sc_queues v)[q := fst (sd_remove (sc_queues v ! q) key)])\<rparr>"

definition ref_enter :: "obj_id \<Rightarrow> task_data \<Rightarrow> sched \<Rightarrow> sched" where
  "ref_enter o' t v =
     (let q = q_of (tk_status t); key = (if q = Q_READY then tk_priority t else 0, sc_seq v)
      in v\<lparr>sc_seq := sc_seq v + 1, sc_queues := (sc_queues v)[q := sd_insert (sc_queues v ! q) key o'],
           sc_tasks := (sc_tasks v)(o' \<mapsto> t\<lparr>tk_place := place_set q key None None\<rparr>)\<rparr>)"

definition ref_requeue :: "obj_id \<Rightarrow> task_data \<Rightarrow> sched \<Rightarrow> sched" where
  "ref_requeue o' t v = (case sc_tasks v o' of
      None \<Rightarrow> v
    | Some t0 \<Rightarrow> ref_enter o' t (ref_leave o' (t\<lparr>tk_place := place_none\<rparr>) (tk_place t0) v))"

section \<open>Leaving the queues\<close>

definition sd_del :: "('k::linorder, 'v) sorted_deque \<Rightarrow> 'k option \<Rightarrow> ('k, 'v) sorted_deque" where
  "sd_del q k = (case k of None \<Rightarrow> q | Some key \<Rightarrow> fst (sd_remove q key))"

lemma sd_del_inv:
  assumes "sd_inv q"
  shows "sd_inv (sd_del q k)" "map_of (sd_del q k) = (case k of None \<Rightarrow> map_of q | Some key \<Rightarrow> (map_of q)(key := None))"
  using deque.inv_del [OF assms, of _ "fst (sd_remove q (the k))" "snd (sd_remove q (the k))"] assms
  by (auto simp: sd_del_def split: option.splits)

lemma sd_del_owner:
  assumes "sd_inv q" "\<And>k. map_of q k = Some o' \<longleftrightarrow> key = Some k"
  shows "map_of (sd_del q key) k = Some p \<longleftrightarrow> p \<noteq> o' \<and> map_of q k = Some p"
  using assms(2) [of k] assms(2) [of "the key"] unfolding sd_del_inv(2) [OF assms(1)]
  by (cases key) auto

definition leave_ts :: "nat \<Rightarrow> u8 \<times> u64 \<Rightarrow> task_place \<Rightarrow> task_state \<Rightarrow> task_state" where
  "leave_ts q key pl x =
     (let d = fst (sd_remove (ts_queues x ! q) key)
      in x\<lparr>ts_queues := (ts_queues x)[q := d], ts_sleepers := sd_del (ts_sleepers x) (place_sleep_key pl),
           ts_waiters := sd_del (ts_waiters x) (place_wait_key pl),
           ts_indexed := ts_indexed x \<and> \<not> (q = Q_WAITING \<and> ts_index_from x > 0 \<and> d = [])\<rparr>)"

lemma ts_mod_cong: "f (ts s) = g (ts s) \<Longrightarrow> ts_mod f s = ts_mod g s"
  by (simp add: ts_mod_def mc_mod_def ts_def mc_def)

lemma leave_queued:
  assumes "place_queued pl = Some (q, key)" "q < length (ts_queues (ts s))"
  shows "leave pl s = Some (ts_mod (leave_ts q key pl) s)"
proof -
  have "leave pl s = Some (let s2 = ts_mod (\<lambda>x. x\<lparr>ts_queues := (ts_queues x)[q := fst (sd_remove (ts_queues (ts s) ! q) key)],
      ts_sleepers := sd_del (ts_sleepers x) (place_sleep_key pl), ts_waiters := sd_del (ts_waiters x) (place_wait_key pl)\<rparr>) s
      in if q = Q_WAITING then unindex_if_empty s2 else s2)"
    using assms
    by (cases "place_sleep_key pl"; cases "place_wait_key pl")
      (simp_all add: leave_def queue_remove_def sleepers_remove_def waiters_remove_def queue_set_def ts_mod_mod sd_del_def
        queue_at_def Let_def)
  also have "\<dots> = Some (ts_mod (leave_ts q key pl) s)"
    using assms(2)
    by (auto simp: unindex_if_empty_def ts_mod_mod leave_ts_def Let_def intro!: ts_mod_cong)
  finally show ?thesis .
qed

lemma leave_unqueued:
  assumes "indexes_ok s" "td s o' = Some t" "place_queued (tk_place t) = None"
  shows "leave (tk_place t) s' = Some s'"
proof -
  have "\<not> in_waiting t" "entry_ok (ts_indexed (ts s)) t"
    using assms by (simp_all add: in_waiting_def indexes_ok_def)
  then have "place_sleep_key (tk_place t) = None" "tp_target (tk_place t) = None"
    unfolding entry_ok_def by (blast, simp)
  then show ?thesis using assms(3)
    by (simp add: leave_def queue_remove_def sleepers_remove_def waiters_remove_def place_wait_key_def)
qed

lemma rest_leave: "rest (ts_mod (leave_ts q key pl) s) = rest s"
  by (rule rest_ts_mod) (simp add: plain_ts_def leave_ts_def Let_def)

lemma queues_okD:
  assumes "queues_ok s"
  shows "length (ts_queues (ts s)) = 4" "q < 4 \<Longrightarrow> sd_inv (queue_at q s)"
    "q < 4 \<Longrightarrow> map_of (queue_at q s) key = Some o' \<Longrightarrow> \<exists>t. td s o' = Some t \<and> place_queued (tk_place t) = Some (q, key)"
    "td s o' = Some t \<Longrightarrow> place_queued (tk_place t) = Some (q, pri, seq) \<Longrightarrow>
       q = q_of (tk_status t) \<and> map_of (queue_at q s) (pri, seq) = Some o' \<and>
       pri = (if q = Q_READY then tk_priority t else 0) \<and> seq < ts_seq (ts s) \<and> q < 4"
proof -
  show "length (ts_queues (ts s)) = 4" "q < 4 \<Longrightarrow> sd_inv (queue_at q s)"
    "q < 4 \<Longrightarrow> map_of (queue_at q s) key = Some o' \<Longrightarrow> \<exists>t. td s o' = Some t \<and> place_queued (tk_place t) = Some (q, key)"
    using assms unfolding queues_ok_def by blast+
  assume a: "td s o' = Some t" "place_queued (tk_place t) = Some (q, pri, seq)"
  then have "q = q_of (tk_status t) \<and> map_of (queue_at q s) (pri, seq) = Some o' \<and>
       pri = (if q = Q_READY then tk_priority t else 0) \<and> seq < ts_seq (ts s)"
    using assms unfolding queues_ok_def by blast
  then show "q = q_of (tk_status t) \<and> map_of (queue_at q s) (pri, seq) = Some o' \<and>
       pri = (if q = Q_READY then tk_priority t else 0) \<and> seq < ts_seq (ts s) \<and> q < 4" using q_of_less by metis
qed

lemma indexes_okD:
  assumes "indexes_ok s"
  shows "sd_inv (ts_sleepers (ts s))" "sd_inv (ts_waiters (ts s))"
    "map_of (ts_sleepers (ts s)) k = Some o' \<longleftrightarrow> (\<exists>t. td s o' = Some t \<and> place_sleep_key (tk_place t) = Some k)"
    "map_of (ts_waiters (ts s)) w = Some o' \<longleftrightarrow> (\<exists>t. td s o' = Some t \<and> place_wait_key (tk_place t) = Some w)"
    "td s o' = Some t \<Longrightarrow> entry_ok (ts_indexed (ts s)) t"
  using assms unfolding indexes_ok_def by blast+

text \<open>A task that has no place takes over from one that has left.\<close>

lemma leave_queues_ok:
  assumes ok: "queues_ok s" and t: "td s o' = Some t" and p: "place_queued (tk_place t) = Some (q, key)"
    and t1: "place_queued (tk_place t1) = None"
  shows "queues_ok (ts_mod (leave_ts q key pl) (td_put o' t1 s))" (is "queues_ok ?s")
proof -
  obtain pri seq where k: "key = (pri, seq)" by force
  note here = queues_okD(4) [OF ok t p [unfolded k]]
  have inv: "sd_inv (queue_at q s)" using queues_okD(2) [OF ok] here by blast
  have q: "queue_at j ?s = (if j = q then fst (sd_remove (queue_at q s) key) else queue_at j s)" for j
    using here queues_okD(1) [OF ok] by (simp add: leave_ts_def queue_at_def Let_def nth_list_update)
  have m: "sd_inv (fst (sd_remove (queue_at q s) key))"
    "map_of (fst (sd_remove (queue_at q s) key)) = (map_of (queue_at q s))(key := None)"
    using deque.inv_del [OF inv, of key "fst (sd_remove (queue_at q s) key)" "snd (sd_remove (queue_at q s) key)"] by auto
  have d: "td ?s = (td s)(o' \<mapsto> t1)" using td_put_td [OF t] by simp
  have seq: "ts_seq (ts ?s) = ts_seq (ts s)" "length (ts_queues (ts ?s)) = 4"
    using queues_okD(1) [OF ok] by (simp_all add: leave_ts_def Let_def)
  show ?thesis unfolding queues_ok_def d seq
  proof (intro conjI allI impI)
    fix j key' p assume j: "j < (4 :: nat)"
    show "sd_inv (queue_at j ?s)" unfolding q using j queues_okD(2) [OF ok] m(1) by simp
    assume "map_of (queue_at j ?s) key' = Some p"
    then have "map_of (queue_at j s) key' = Some p" "\<not> (j = q \<and> key' = key)"
      unfolding q using m(2) by (auto split: if_splits)
    moreover from this(1) obtain t' where "td s p = Some t'" "place_queued (tk_place t') = Some (j, key')"
      using queues_okD(3) [OF ok j] by blast
    ultimately show "\<exists>t. ((td s)(o' \<mapsto> t1)) p = Some t \<and> place_queued (tk_place t) = Some (j, key')" using t p by auto
  next
    fix p t' j pri' seq'
    assume a: "((td s)(o' \<mapsto> t1)) p = Some t'" "place_queued (tk_place t') = Some (j, pri', seq')"
    then have n: "p \<noteq> o'" "td s p = Some t'" using t1 by (auto split: if_splits)
    note w = queues_okD(4) [OF ok n(2) a(2)]
    then have "\<not> (j = q \<and> (pri', seq') = key)" using here n(1) k by auto
    with w show "j = q_of (tk_status t')" "map_of (queue_at j ?s) (pri', seq') = Some p"
      "pri' = (if j = Q_READY then tk_priority t' else 0)" "seq' < ts_seq (ts s)" unfolding q using m(2) by auto
  qed simp
qed

lemma entry_ok_unplaced: "place_queued (tk_place t) = None \<Longrightarrow> place_sleep_key (tk_place t) = None \<Longrightarrow>
    tp_target (tk_place t) = None \<Longrightarrow> entry_ok b t"
  by (simp add: entry_ok_def in_waiting_def)

definition unplaced :: "task_place \<Rightarrow> bool" where
  "unplaced p \<longleftrightarrow> place_queued p = None \<and> place_sleep_key p = None \<and> place_wait_key p = None"

lemma unplaced_target: "unplaced p \<Longrightarrow> tp_target p = None"
  by (simp add: unplaced_def place_wait_key_def)

lemma unplaced_none [simp]: "unplaced place_none"
  by (simp add: unplaced_def)

lemma leave_index_ok:
  assumes ok: "queues_ok s" "indexes_ok s" and t: "td s o' = Some t" and p: "place_queued (tk_place t) = Some (q, key)"
    and t1: "unplaced (tk_place t1)"
  shows "indexes_ok (ts_mod (leave_ts q key (tk_place t)) (td_put o' t1 s))" (is "indexes_ok ?s")
proof -
  note i = indexes_okD [OF ok(2)]
  have d: "td ?s = (td s)(o' \<mapsto> t1)" using td_put_td [OF t] by simp
  have qs: "queues_ok ?s" using leave_queues_ok [OF ok(1) t p] t1 by (simp add: unplaced_def)
  have f: "ts_sleepers (ts ?s) = sd_del (ts_sleepers (ts s)) (place_sleep_key (tk_place t))"
    "ts_waiters (ts ?s) = sd_del (ts_waiters (ts s)) (place_wait_key (tk_place t))"
    by (simp_all add: leave_ts_def Let_def)
  have m: "map_of (ts_sleepers (ts ?s)) k = Some p \<longleftrightarrow> p \<noteq> o' \<and> map_of (ts_sleepers (ts s)) k = Some p"
    "map_of (ts_waiters (ts ?s)) w = Some p \<longleftrightarrow> p \<noteq> o' \<and> map_of (ts_waiters (ts s)) w = Some p" for k w p
    unfolding f using t by (auto simp: i(3,4) sd_del_owner [OF i(1), of o'] sd_del_owner [OF i(2), of o'])
  have e: "entry_ok (ts_indexed (ts ?s)) t'" if "((td s)(o' \<mapsto> t1)) p = Some t'" for p t'
  proof (cases "p = o'")
    case True
    with that t1 show ?thesis by (auto intro!: entry_ok_unplaced simp: unplaced_target) (simp_all add: unplaced_def)
  next
    case False
    with that have "td s p = Some t'" by simp
    note x = i(5) [OF this]
    have "in_waiting t' \<Longrightarrow> queue_at Q_WAITING ?s \<noteq> []"
      using queues_okD(4) [OF qs, of p t'] that unfolding d in_waiting_def by force
    moreover have "ts_indexed (ts ?s) \<longleftrightarrow> ts_indexed (ts s) \<and>
        \<not> (q = Q_WAITING \<and> ts_index_from (ts s) > 0 \<and> queue_at Q_WAITING ?s = [])"
      using queues_okD(4) [OF ok(1) t, of q "fst key" "snd key"] queues_okD(1) [OF ok(1)] p
      by (auto simp: leave_ts_def Let_def queue_at_def)
    ultimately show ?thesis using x unfolding entry_ok_def by metis
  qed
  have "(\<exists>t'. ((td s)(o' \<mapsto> t1)) p = Some t' \<and> place_sleep_key (tk_place t') = Some k) \<longleftrightarrow>
      p \<noteq> o' \<and> (\<exists>t'. td s p = Some t' \<and> place_sleep_key (tk_place t') = Some k)"
    "(\<exists>t'. ((td s)(o' \<mapsto> t1)) p = Some t' \<and> place_wait_key (tk_place t') = Some w) \<longleftrightarrow>
      p \<noteq> o' \<and> (\<exists>t'. td s p = Some t' \<and> place_wait_key (tk_place t') = Some w)" for p k w
    using t1 by (auto simp: unplaced_def)
  moreover have "sd_inv (ts_sleepers (ts ?s))" "sd_inv (ts_waiters (ts ?s))"
    unfolding f using sd_del_inv(1) [OF i(1)] sd_del_inv(1) [OF i(2)] by auto
  ultimately show ?thesis unfolding indexes_ok_def d m i(3,4) using e by simp
qed

lemma unplaced_queues_ok:
  assumes ok: "queues_ok s" and t: "td s o' = Some t" "place_queued (tk_place t) = None" and t1: "place_queued (tk_place t1) = None"
  shows "queues_ok (td_put o' t1 s)" (is "queues_ok ?s")
proof -
  have d: "td ?s = (td s)(o' \<mapsto> t1)" using td_put_td [OF t(1)] .
  have "\<exists>t'. ((td s)(o' \<mapsto> t1)) p = Some t' \<and> place_queued (tk_place t') = Some (q, key)"
    if "q < 4" "map_of (queue_at q s) key = Some p" for q key p
    using queues_okD(3) [OF ok that] t by (cases "p = o'") auto
  moreover have "q = q_of (tk_status t') \<and> map_of (queue_at q s) (pri, seq) = Some p \<and>
      pri = (if q = Q_READY then tk_priority t' else 0) \<and> seq < ts_seq (ts s)"
    if "((td s)(o' \<mapsto> t1)) p = Some t'" "place_queued (tk_place t') = Some (q, pri, seq)" for p t' q pri seq
    using that t1 queues_okD(4) [OF ok, of p t' q pri seq] by (cases "p = o'") auto
  ultimately show ?thesis unfolding queues_ok_def d using queues_okD(1,2) [OF ok] by simp
qed

lemma unplaced_index_ok:
  assumes ok: "indexes_ok s" and t: "td s o' = Some t" "unplaced (tk_place t)" and t1: "unplaced (tk_place t1)"
  shows "indexes_ok (td_put o' t1 s)" (is "indexes_ok ?s")
proof -
  note i = indexes_okD [OF ok]
  have d: "td ?s = (td s)(o' \<mapsto> t1)" using td_put_td [OF t(1)] .
  have "(\<exists>t'. ((td s)(o' \<mapsto> t1)) p = Some t' \<and> place_sleep_key (tk_place t') = Some k) \<longleftrightarrow>
      (\<exists>t'. td s p = Some t' \<and> place_sleep_key (tk_place t') = Some k)"
    "(\<exists>t'. ((td s)(o' \<mapsto> t1)) p = Some t' \<and> place_wait_key (tk_place t') = Some w) \<longleftrightarrow>
      (\<exists>t'. td s p = Some t' \<and> place_wait_key (tk_place t') = Some w)" for p k w
    using t1 t by (auto simp: unplaced_def)
  moreover have "entry_ok (ts_indexed (ts s)) t'" if "((td s)(o' \<mapsto> t1)) p = Some t'" for p t'
    using that i(5) t1 unplaced_target [OF t1] by (cases "p = o'") (auto intro: entry_ok_unplaced simp: unplaced_def)
  ultimately show ?thesis unfolding indexes_ok_def d by (simp add: i)
qed

lemma ahead_cong: "ts_tick x = ts_tick y \<Longrightarrow> ahead x = ahead y"
  by (simp add: ahead_def fun_eq_iff)

lemma now_abs_cong: "ts_tick x = ts_tick y \<Longrightarrow> ts_tick_seen x = ts_tick_seen y \<Longrightarrow> ts_tick_abs x = ts_tick_abs y \<Longrightarrow>
    now_abs x = now_abs y"
  by (simp add: now_abs_def)

lemma clock_okI:
  assumes "clock_ok s" "ts_tick (ts s') = ts_tick (ts s)" "ts_tick_seen (ts s') = ts_tick_seen (ts s)"
    "ts_tick_abs (ts s') = ts_tick_abs (ts s)"
    "\<And>o' t k. td s' o' = Some t \<Longrightarrow> place_sleep_key (tk_place t) = Some k \<Longrightarrow>
       (\<exists>t0. td s o' = Some t0 \<and> place_sleep_key (tk_place t0) = Some k \<and> tk_wakeup_tick t0 = tk_wakeup_tick t)"
  shows "clock_ok s'"
  unfolding clock_ok_def
proof (intro conjI allI impI)
  have n: "now_abs (ts s') = now_abs (ts s)" "ahead (ts s') = ahead (ts s)" using assms(2-4) by (simp_all add: now_abs_def ahead_def fun_eq_iff)
  show "ucast (ts_tick_abs (ts s')) = ts_tick_seen (ts s')" using assms by (simp add: clock_ok_def)
  fix o' t d seq assume "td s' o' = Some t" "place_sleep_key (tk_place t) = Some (d, seq)"
  from assms(5) [OF this] assms(1)
  show "uint d = now_abs (ts s') + ahead (ts s') (tk_wakeup_tick t)" "uint d < uint (ts_tick_abs (ts s')) + 2 ^ 31"
    unfolding clock_ok_def n assms(4) by metis+
qed

lemma leave_refines:
  assumes ok: "sched_ok s" and t: "td s o' = Some t" and t1: "unplaced (tk_place t1)"
  shows "\<exists>s'. leave (tk_place t) (td_put o' t1 s) = Some s' \<and> sched_ok s' \<and>
    view s' = ref_leave o' (strip t1) (tk_place t) (view s) \<and> rest s' = rest s \<and> td s' = (td s)(o' \<mapsto> t1) \<and>
    ts_tick_abs (ts s') = ts_tick_abs (ts s) \<and> ts_tick_seen (ts s') = ts_tick_seen (ts s) \<and>
    (ts_indexed (ts s') \<longrightarrow> ts_indexed (ts s))"
proof -
  have ok': "queues_ok s" "indexes_ok s" "clock_ok s" "ts_due (ts s) = []" using ok by (simp_all add: sched_ok_def)
  have d: "td (ts_mod f (td_put o' t1 s)) = (td s)(o' \<mapsto> t1)" for f using td_put_td [OF t] by simp
  have v: "(\<lambda>p. map_option strip (((td s)(o' \<mapsto> t1)) p)) = (\<lambda>p. map_option strip (td s p))(o' \<mapsto> strip t1)" by auto
  show ?thesis
  proof (cases "place_queued (tk_place t)")
    case None
    let ?s = "td_put o' t1 s"
    have l: "leave (tk_place t) ?s = Some ?s" by (rule leave_unqueued [OF ok'(2) t None])
    have d': "td ?s = (td s)(o' \<mapsto> t1)" using td_put_td [OF t] .
    have nk: "place_sleep_key (tk_place t) = None" "place_wait_key (tk_place t) = None"
      using indexes_okD(5) [OF ok'(2) t] None unfolding entry_ok_def in_waiting_def place_wait_key_def by auto
    have "queues_ok ?s" using t1 by (intro unplaced_queues_ok [OF ok'(1) t None]) (simp add: unplaced_def)
    moreover have "indexes_ok ?s" using nk None by (intro unplaced_index_ok [OF ok'(2) t _ t1]) (simp add: unplaced_def)
    moreover have "clock_ok ?s" using t1 unfolding unplaced_def by (intro clock_okI [OF ok'(3)]) (auto simp: d' split: if_splits)
    ultimately show ?thesis using l None d' v rest_td_put [OF t] ok'(4) by (simp add: sched_ok_def view_def ref_leave_def)
  next
    case (Some qk)
    obtain q key where qk: "qk = (q, key)" by (cases qk)
    note p = Some [unfolded qk]
    let ?s = "ts_mod (leave_ts q key (tk_place t)) (td_put o' t1 s)"
    have q: "q < 4" using queues_okD(4) [OF ok'(1) t, of q "fst key" "snd key"] p by simp
    then have l: "leave (tk_place t) (td_put o' t1 s) = Some ?s"
      using queues_okD(1) [OF ok'(1)] by (intro leave_queued [OF p]) simp
    have "queues_ok ?s" using leave_queues_ok [OF ok'(1) t p] t1 by (simp add: unplaced_def)
    moreover have "indexes_ok ?s" by (rule leave_index_ok [OF ok'(1,2) t p t1])
    moreover have "clock_ok ?s" using t1 unfolding unplaced_def
      by (intro clock_okI [OF ok'(3)]) (auto simp: td_put_td [OF t] leave_ts_def Let_def split: if_splits)
    moreover have "view ?s = ref_leave o' (strip t1) (tk_place t) (view s)"
      by (simp add: view_def ref_leave_def p td_put_td [OF t] fun_eq_iff) (simp add: leave_ts_def Let_def)
    ultimately show ?thesis using l d rest_leave [of q key "tk_place t" "td_put o' t1 s"] rest_td_put [OF t] ok'(4)
      by (simp add: sched_ok_def) (simp add: leave_ts_def Let_def)
  qed
qed


section \<open>The clock\<close>

definition look_ts :: "task_state \<Rightarrow> task_state" where
  "look_ts x = x\<lparr>ts_tick_abs := ts_tick_abs x + ucast (ts_tick x - ts_tick_seen x), ts_tick_seen := ts_tick x\<rparr>"

lemma abs_tick_eq: "abs_tick s = (ts_mod look_ts s, ts_tick_abs (look_ts (ts s)))"
  unfolding abs_tick_def Let_def by (simp add: look_ts_def) (rule ts_mod_cong, simp add: look_ts_def)

definition young :: "'x tvm \<Rightarrow> bool" where
  "young s \<longleftrightarrow> now_abs (ts s) < 2 ^ 63"

lemma uint_u32_less: "uint (w :: u32) < 4294967296"
  using uint_lt2p [of w] by simp

lemma look_abs:
  assumes "young s"
  shows "uint (ts_tick_abs (look_ts (ts s))) = now_abs (ts s)" "now_abs (look_ts (ts s)) = now_abs (ts s)"
    "now_abs (ts s) < 2 ^ 63"
proof -
  have "now_abs (ts s) < 9223372036854775808" using assms by (simp add: young_def)
  moreover have "uint (ucast (ts_tick (ts s) - ts_tick_seen (ts s)) :: u64) = uint (ts_tick (ts s) - ts_tick_seen (ts s))"
    by (simp add: uint_up_ucast is_up)
  ultimately show "uint (ts_tick_abs (look_ts (ts s))) = now_abs (ts s)" "now_abs (look_ts (ts s)) = now_abs (ts s)"
    "now_abs (ts s) < 2 ^ 63"
    using uint_u32_less [of "ts_tick (ts s) - ts_tick_seen (ts s)"]
    by (auto simp: look_ts_def now_abs_def uint_word_ariths)
qed

lemma look_seen:
  assumes "clock_ok s"
  shows "ucast (ts_tick_abs (look_ts (ts s))) = ts_tick (ts s)"
proof -
  have "ucast (ts_tick_abs (ts s)) = ts_tick_seen (ts s)" using assms by (simp add: clock_ok_def)
  moreover have "(ucast (a + ucast b :: u64) :: u32) = ucast a + b" for a :: u64 and b :: u32
    by (simp add: word_uint_eq_iff unsigned_ucast_eq uint_word_ariths take_bit_eq_mod mod_mod_cancel mod_simps)
  ultimately show ?thesis by (simp add: look_ts_def)
qed

lemma look_clock_ok:
  assumes "clock_ok s" "young s"
  shows "clock_ok (ts_mod look_ts s)"
proof -
  have "uint (ts_tick_abs (ts s)) \<le> uint (ts_tick_abs (look_ts (ts s)))"
    unfolding look_abs(1) [OF assms(2)] by (simp add: now_abs_def)
  moreover have "ahead (look_ts (ts s)) = ahead (ts s)" by (simp add: ahead_def look_ts_def fun_eq_iff)
  moreover have "ts_tick_seen (look_ts (ts s)) = ts_tick (ts s)" by (simp add: look_ts_def)
  ultimately show ?thesis using assms(1) look_seen [OF assms(1)] look_abs(2) [OF assms(2)]
    unfolding clock_ok_def by fastforce
qed

lemma abs_deadline_eq:
  "abs_deadline d s = (ts_mod look_ts s, sat_add_signed (ts_tick_abs (look_ts (ts s))) (ahead (ts s) d))"
  by (simp add: abs_deadline_def abs_tick_eq ahead_def look_ts_def)

lemma deadline_value:
  assumes "clock_ok s" "young s" "- 1 \<le> ahead (ts s) d" "d \<noteq> NEVER"
  shows "uint (snd (abs_deadline d s)) = now_abs (ts s) + ahead (ts s) d"
    "now_abs (ts s) + ahead (ts s) d < now_abs (ts s) + 2 ^ 31" "snd (abs_deadline d s) \<noteq> - 1"
proof -
  let ?n = "ts_tick_abs (look_ts (ts s))" and ?a = "ahead (ts s) d"
  note n = look_abs [OF assms(2)]
  have a: "?a < 2 ^ 31" unfolding ahead_def using sint_lt [of "d - ts_tick (ts s)"] by simp
  have "0 \<le> uint ?n + ?a"
  proof (cases "?n = 0")
    case True
    then have "ts_tick (ts s) = 0" using look_seen [OF assms(1)] by simp
    then have "?a = sint d" by (simp add: ahead_def)
    moreover have "sint d \<noteq> - 1" using assms(4) by (metis NEVER_def sint_n1 signed_word_eqI)
    ultimately show ?thesis using assms(3) True by simp
  next
    case False
    then have "0 < uint ?n" by (metis less_le uint_0_iff uint_ge_0)
    with assms(3) show ?thesis by simp
  qed
  then have "0 \<le> now_abs (ts s) + ?a" "now_abs (ts s) + ?a < 18446744073709551615" using n(1,3) a by simp_all
  then show v: "uint (snd (abs_deadline d s)) = now_abs (ts s) + ahead (ts s) d"
    by (simp add: abs_deadline_eq sat_add_signed_def n(1) uint_word_of_int del: of_int_add)
  show "now_abs (ts s) + ?a < now_abs (ts s) + 2 ^ 31" using a by simp
  show "snd (abs_deadline d s) \<noteq> - 1"
  proof
    assume "snd (abs_deadline d s) = - 1"
    then have "uint (snd (abs_deadline d s)) = 18446744073709551615" by (simp add: uint_word_ariths)
    with v \<open>now_abs (ts s) + ?a < 18446744073709551615\<close> show False by simp
  qed
qed

section \<open>Indexing a task\<close>

definition index_on :: "(obj_id \<Rightarrow> bool) \<Rightarrow> 'x tvm \<Rightarrow> bool" where
  "index_on B s \<longleftrightarrow> sd_inv (ts_sleepers (ts s)) \<and> sd_inv (ts_waiters (ts s)) \<and>
     (\<forall>k o'. map_of (ts_sleepers (ts s)) k = Some o' \<longleftrightarrow> (\<exists>t. td s o' = Some t \<and> place_sleep_key (tk_place t) = Some k)) \<and>
     (\<forall>k o'. map_of (ts_waiters (ts s)) k = Some o' \<longleftrightarrow> (\<exists>t. td s o' = Some t \<and> place_wait_key (tk_place t) = Some k)) \<and>
     (\<forall>o' t. td s o' = Some t \<longrightarrow> entry_ok (B o') t)"

lemma index_on_all: "indexes_ok s \<longleftrightarrow> index_on (\<lambda>_. ts_indexed (ts s)) s"
  by (simp add: indexes_ok_def index_on_def)

lemma index_onD:
  assumes "index_on B s"
  shows "sd_inv (ts_sleepers (ts s))" "sd_inv (ts_waiters (ts s))"
    "map_of (ts_sleepers (ts s)) k = Some o' \<longleftrightarrow> (\<exists>t. td s o' = Some t \<and> place_sleep_key (tk_place t) = Some k)"
    "map_of (ts_waiters (ts s)) w = Some o' \<longleftrightarrow> (\<exists>t. td s o' = Some t \<and> place_wait_key (tk_place t) = Some w)"
    "td s o' = Some t \<Longrightarrow> entry_ok (B o') t"
  using assms unfolding index_on_def by blast+

definition index_ts :: "obj_id \<Rightarrow> u64 \<Rightarrow> task_data \<Rightarrow> u64 \<Rightarrow> task_state \<Rightarrow> task_state" where
  "index_ts o' seq t d x =
     (let y = (if has_deadline t then (look_ts x)\<lparr>ts_sleepers := sd_insert (ts_sleepers x) (d, seq) o'\<rparr> else x)
      in case wait_target t of None \<Rightarrow> y | Some w \<Rightarrow> y\<lparr>ts_waiters := sd_insert (ts_waiters y) (w, seq) o'\<rparr>)"

definition index_place :: "u8 \<Rightarrow> u64 \<Rightarrow> task_data \<Rightarrow> u64 \<Rightarrow> task_place" where
  "index_place pri seq t d = place_set Q_WAITING (pri, seq)
     (if has_deadline t then Some (d, seq) else None) (map_option (\<lambda>w. (w, seq)) (wait_target t))"

lemma ts_mod_same: "f (ts s) = ts s \<Longrightarrow> s = ts_mod f s"
  by (simp add: ts_mod_def mc_mod_def ts_def mc_def)

lemma index_one_eq:
  "index_one o' seq (tk_reason t) (tk_wakeup_tick t) (wait_target t) s =
     (let d = snd (abs_deadline (tk_wakeup_tick t) s)
      in (ts_mod (index_ts o' seq t d) s, (if has_deadline t then Some (d, seq) else None),
          map_option (\<lambda>w. (w, seq)) (wait_target t)))"
  by (auto simp: index_one_def has_deadline_def abs_deadline_eq ts_mod_mod Let_def index_ts_def look_ts_def
      intro!: ts_mod_cong ts_mod_same split: option.split)

lemma index_step:
  assumes io: "index_on B s" and ck: "clock_ok s" "young s" and t: "td s o' = Some t"
    and un: "place_sleep_key (tk_place t) = None" "place_wait_key (tk_place t) = None"
    and fresh: "\<forall>p t'. td s p = Some t' \<longrightarrow> p \<noteq> o' \<longrightarrow> in_waiting t' \<longrightarrow> tp_seq (tk_place t') \<noteq> seq"
    and dl: "has_deadline t \<longrightarrow> - 1 \<le> ahead (ts s) (tk_wakeup_tick t)"
    and d: "d = snd (abs_deadline (tk_wakeup_tick t) s)"
    and s2: "s2 = td_put o' (t\<lparr>tk_place := index_place pri seq t d\<rparr>) (ts_mod (index_ts o' seq t d) s)"
  shows "td s2 = (td s)(o' \<mapsto> t\<lparr>tk_place := index_place pri seq t d\<rparr>)"
    "index_on (B(o' := True)) s2" "clock_ok s2"
proof -
  let ?t = "t\<lparr>tk_place := index_place pri seq t d\<rparr>"
  show td2: "td s2 = (td s)(o' \<mapsto> ?t)" unfolding s2 using td_put_td [of "ts_mod (index_ts o' seq t d) s"] t by simp
  have hd: "has_deadline ?t = has_deadline t" "wait_target ?t = wait_target t" by (simp_all add: has_deadline_def wait_target_def)
  have n: "has_deadline t \<Longrightarrow> d \<noteq> - 1" "has_deadline t \<Longrightarrow> uint d = now_abs (ts s) + ahead (ts s) (tk_wakeup_tick t)"
    "has_deadline t \<Longrightarrow> uint d < now_abs (ts s) + 2 ^ 31"
    using deadline_value [OF ck, of "tk_wakeup_tick t"] dl unfolding d has_deadline_def by auto
  have sk: "place_sleep_key (index_place pri seq t d) = (if has_deadline t then Some (d, seq) else None)"
    "place_wait_key (index_place pri seq t d) = map_option (\<lambda>w. (w, seq)) (wait_target t)"
    using n(1) by (cases "wait_target t"; simp add: index_place_def)+
  have tg: "tp_target (index_place pri seq t d) = wait_target t" by (cases "wait_target t") (simp_all add: index_place_def place_set_def)
  have pq: "place_queued (index_place pri seq t d) = Some (Q_WAITING, pri, seq)" by (simp add: index_place_def queue_ids)
  note i = index_onD [OF io]
  have waits: "in_waiting t'" if "td s p = Some t'" "place_sleep_key (tk_place t') \<noteq> None \<or> place_wait_key (tk_place t') \<noteq> None" for p t'
    using i(5) [OF that(1)] that(2) unfolding entry_ok_def place_wait_key_def by (auto split: if_splits)
  have fr: "map_of (ts_sleepers (ts s)) (k, seq) = None" "map_of (ts_waiters (ts s)) (w, seq) = None" for k w
  proof -
    have "False" if "td s p = Some t'" "place_sleep_key (tk_place t') = Some (k, seq) \<or> place_wait_key (tk_place t') = Some (w, seq)" for p t'
    proof -
      have "p \<noteq> o'" using that t un by auto
      moreover have "tp_seq (tk_place t') = seq" using that(2) by (auto simp: place_sleep_key_def place_wait_key_def split: if_splits)
      moreover have "in_waiting t'" using waits [OF that(1)] that(2) by auto
      ultimately show False using fresh that(1) by blast
    qed
    then show "map_of (ts_sleepers (ts s)) (k, seq) = None" "map_of (ts_waiters (ts s)) (w, seq) = None"
      using i(3,4) by (metis not_None_eq)+
  qed
  have ms: "sd_inv (ts_sleepers (ts s2)) \<and> map_of (ts_sleepers (ts s2)) =
      (if has_deadline t then (map_of (ts_sleepers (ts s)))((d, seq) \<mapsto> o') else map_of (ts_sleepers (ts s)))"
    using deque.inv_ins [OF i(1) fr(1)] i(1) by (auto simp: s2 index_ts_def Let_def look_ts_def split: option.splits)
  have mw: "sd_inv (ts_waiters (ts s2)) \<and> map_of (ts_waiters (ts s2)) =
      (case wait_target t of None \<Rightarrow> map_of (ts_waiters (ts s)) | Some w \<Rightarrow> (map_of (ts_waiters (ts s)))((w, seq) \<mapsto> o'))"
    using deque.inv_ins [OF i(2) fr(2)] i(2) by (auto simp: s2 index_ts_def Let_def look_ts_def split: option.splits)
  have "map_of (ts_sleepers (ts s2)) k = Some p \<longleftrightarrow> (\<exists>t'. td s2 p = Some t' \<and> place_sleep_key (tk_place t') = Some k)" for k p
    unfolding td2 using ms i(3) [of k p] i(3) [of k o'] un t fr(1) sk by (auto split: if_splits)
  moreover have "map_of (ts_waiters (ts s2)) k = Some p \<longleftrightarrow> (\<exists>t'. td s2 p = Some t' \<and> place_wait_key (tk_place t') = Some k)" for k p
    unfolding td2 using mw i(4) [of k p] i(4) [of k o'] un t fr(2) sk by (auto split: if_splits option.splits)
  moreover have "entry_ok ((B(o' := True)) p) t'" if "td s2 p = Some t'" for p t'
  proof (cases "p = o'")
    case True
    with that have "t' = ?t" unfolding td2 by simp
    then show ?thesis using True sk tg pq hd by (cases "has_deadline t") (simp_all add: entry_ok_def in_waiting_def)
  next
    case False
    with that i(5) [of p t'] show ?thesis unfolding td2 by simp
  qed
  ultimately show "index_on (B(o' := True)) s2" unfolding index_on_def using ms mw by blast
  have tk: "ts_tick (ts s2) = ts_tick (ts s)" "now_abs (ts s2) = now_abs (ts s)" "ahead (ts s2) = ahead (ts s)"
    "uint (ts_tick_abs (ts s)) \<le> uint (ts_tick_abs (ts s2))"
    "has_deadline t \<Longrightarrow> uint (ts_tick_abs (ts s2)) = now_abs (ts s)" "ucast (ts_tick_abs (ts s2)) = ts_tick_seen (ts s2)"
    using look_abs [OF ck(2)] look_seen [OF ck(1)] ck(1)
    by (auto simp: s2 index_ts_def Let_def look_ts_def now_abs_def ahead_def fun_eq_iff clock_ok_def split: option.splits)
  show "clock_ok s2" unfolding clock_ok_def
  proof (intro conjI allI impI)
    show "ucast (ts_tick_abs (ts s2)) = ts_tick_seen (ts s2)" by (rule tk(6))
    fix p t' d' q assume a: "td s2 p = Some t'" "place_sleep_key (tk_place t') = Some (d', q)"
    have "uint d' = now_abs (ts s) + ahead (ts s) (tk_wakeup_tick t') \<and> uint d' < uint (ts_tick_abs (ts s2)) + 2 ^ 31"
    proof (cases "p = o'")
      case True
      with a n tk(5) sk show ?thesis unfolding td2 by (auto split: if_splits)
    next
      case False
      with a(1) have "td s p = Some t'" unfolding td2 by simp
      then have "uint d' = now_abs (ts s) + ahead (ts s) (tk_wakeup_tick t')" "uint d' < uint (ts_tick_abs (ts s)) + 2 ^ 31"
        using ck(1) a(2) unfolding clock_ok_def by blast+
      with tk(4) show ?thesis by linarith
    qed
    then show "uint d' = now_abs (ts s2) + ahead (ts s2) (tk_wakeup_tick t')"
      "uint d' < uint (ts_tick_abs (ts s2)) + 2 ^ 31" unfolding tk by auto
  qed
qed

section \<open>What the view determines\<close>

lemma placed_strip:
  assumes "place_queued p = Some (q, key)"
  shows "place_unindex p = place_set q key None None" "snd key = tp_seq p"
  using assms by (auto simp: place_queued_def place_unindex_def place_set_def split: if_splits)

lemma viewD:
  assumes "view s = view s'" "td s o' = Some t"
  shows "\<exists>t'. td s' o' = Some t' \<and> strip t = strip t'"
  using fun_cong [OF arg_cong [OF assms(1), of sc_tasks], of o'] assms(2)
  by (cases "td s' o'") (simp_all add: view_def)

lemma stripD:
  assumes "strip t = strip t'"
  shows "place_queued (tk_place t) = place_queued (tk_place t')" "tk_status t = tk_status t'" "tk_priority t = tk_priority t'"
    "has_deadline t = has_deadline t'" "wait_target t = wait_target t'" "tk_wakeup_tick t = tk_wakeup_tick t'"
    "in_waiting t = in_waiting t'"
proof -
  have "place_unindex (tk_place t) = place_unindex (tk_place t')" using arg_cong [OF assms, of tk_place] by (simp add: strip_def)
  from arg_cong [OF this, of place_queued] show p: "place_queued (tk_place t) = place_queued (tk_place t')" by simp
  show "in_waiting t = in_waiting t'" by (simp add: in_waiting_def p)
  have "tk_reason t = tk_reason t'" "tk_queue t = tk_queue t'" "tk_join t = tk_join t'" "tk_wakeup_tick t = tk_wakeup_tick t'"
    using arg_cong [OF assms, of tk_reason] arg_cong [OF assms, of tk_queue] arg_cong [OF assms, of tk_join]
      arg_cong [OF assms, of tk_wakeup_tick] by (simp_all add: strip_def)
  then show "has_deadline t = has_deadline t'" "wait_target t = wait_target t'" "tk_wakeup_tick t = tk_wakeup_tick t'"
    by (simp_all add: has_deadline_def wait_target_def)
  show "tk_status t = tk_status t'" "tk_priority t = tk_priority t'"
    using arg_cong [OF assms, of tk_status] arg_cong [OF assms, of tk_priority] by (simp_all add: strip_def)
qed

lemma view_queues: "view s = view s' \<Longrightarrow> queue_at q s = queue_at q s' \<and> ts_queues (ts s) = ts_queues (ts s') \<and> ts_seq (ts s) = ts_seq (ts s')
    \<and> ts_tick (ts s) = ts_tick (ts s')"
  by (simp add: view_def queue_at_def)

lemma queues_ok_view:
  assumes "view s' = view s" "queues_ok s"
  shows "queues_ok s'"
  unfolding queues_ok_def
proof (intro conjI allI impI)
  note q = view_queues [OF assms(1)] and d = queues_okD [OF assms(2)]
  show "length (ts_queues (ts s')) = 4" using q d(1) by simp
  fix j key p assume j: "j < (4 :: nat)"
  show "sd_inv (queue_at j s')" using q d(2) [OF j] by simp
  assume "map_of (queue_at j s') key = Some p"
  then have "map_of (queue_at j s) key = Some p" using q by simp
  from d(3) [OF j this] obtain t where "td s p = Some t" "place_queued (tk_place t) = Some (j, key)" by blast
  with viewD [OF assms(1) [symmetric]] stripD(1) show "\<exists>t. td s' p = Some t \<and> place_queued (tk_place t) = Some (j, key)"
    by metis
next
  note q = view_queues [OF assms(1)] and d = queues_okD [OF assms(2)]
  fix p t' j pri seq assume a: "td s' p = Some t'" "place_queued (tk_place t') = Some (j, pri, seq)"
  obtain t where t: "td s p = Some t" "strip t' = strip t" using viewD [OF assms(1) a(1)] by blast
  have "place_queued (tk_place t) = Some (j, pri, seq)" using a(2) stripD(1) [OF t(2)] by simp
  note w = d(4) [OF t(1) this]
  show "j = q_of (tk_status t')" "pri = (if j = Q_READY then tk_priority t' else 0)"
    using w stripD(2,3) [OF t(2)] by auto
  show "map_of (queue_at j s') (pri, seq) = Some p" "seq < ts_seq (ts s')" using w q by auto
qed

section \<open>Indexing every waiting task\<close>

definition deadlines_near :: "'x tvm \<Rightarrow> bool" where
  "deadlines_near s \<longleftrightarrow> (\<forall>o' t. td s o' = Some t \<longrightarrow> in_waiting t \<longrightarrow> has_deadline t \<longrightarrow> - 1 \<le> ahead (ts s) (tk_wakeup_tick t))"

lemma deadlines_near_view:
  assumes "view s' = view s" "deadlines_near s"
  shows "deadlines_near s'"
  unfolding deadlines_near_def
proof (intro allI impI)
  fix p t' assume a: "td s' p = Some t'" "in_waiting t'" "has_deadline t'"
  obtain t where t: "td s p = Some t" "strip t' = strip t" using viewD [OF assms(1) a(1)] by blast
  have "ts_tick (ts s') = ts_tick (ts s)" using view_queues [OF assms(1)] by blast
  then have "ahead (ts s') = ahead (ts s)" by (simp add: ahead_def fun_eq_iff)
  with assms(2) t a stripD [OF t(2)] show "- 1 \<le> ahead (ts s') (tk_wakeup_tick t')" unfolding deadlines_near_def by metis
qed

lemma index_ts_fields [simp]:
  "ts_queues (index_ts o' seq t d x) = ts_queues x" "ts_seq (index_ts o' seq t d x) = ts_seq x"
  "ts_tick (index_ts o' seq t d x) = ts_tick x" "ts_wakeup_tick (index_ts o' seq t d x) = ts_wakeup_tick x"
  "ts_switching (index_ts o' seq t d x) = ts_switching x" "ts_indexed (index_ts o' seq t d x) = ts_indexed x"
  "ts_due (index_ts o' seq t d x) = ts_due x" "plain_ts (index_ts o' seq t d x) = plain_ts x"
  by (auto simp: index_ts_def Let_def look_ts_def plain_ts_def split: option.split)

lemma index_ts_now: "young s \<Longrightarrow> now_abs (index_ts o' seq t d (ts s)) = now_abs (ts s)"
  using look_abs(2) [of s] by (auto simp: index_ts_def Let_def now_abs_def split: option.split)

lemma view_index:
  assumes "td s o' = Some t" "place_queued (tk_place t) = Some (Q_WAITING, pri, seq)"
  shows "view (td_put o' (t\<lparr>tk_place := index_place pri seq t d\<rparr>) (ts_mod (index_ts o' seq t d) s)) = view s"
proof -
  have "strip (t\<lparr>tk_place := index_place pri seq t d\<rparr>) = strip t"
    using placed_strip(1) [OF assms(2)] by (simp add: strip_def index_place_def)
  then show ?thesis using assms(1) td_put_td [of "ts_mod (index_ts o' seq t d) s"]
    by (auto simp: view_def fun_eq_iff)
qed

text \<open>What holds of two states that differ in their indexes only.\<close>

definition same_view :: "'x tvm \<Rightarrow> 'x tvm \<Rightarrow> bool" where
  "same_view s s' \<longleftrightarrow> view s' = view s \<and> rest s' = rest s \<and> now_abs (ts s') = now_abs (ts s) \<and>
     ts_due (ts s') = ts_due (ts s) \<and> ts_indexed (ts s') = ts_indexed (ts s)"

lemma index_all_ok:
  assumes "queues_ok s" "index_on (\<lambda>p. p \<notin> snd ` set es) s" "clock_ok s" "young s" "deadlines_near s"
    "\<forall>(seq, o') \<in> set es. map_of (queue_at Q_WAITING s) (0, seq) = Some o'" "distinct (map snd es)"
  shows "\<exists>s'. index_all es s = Some s' \<and> index_on (\<lambda>_. True) s' \<and> clock_ok s' \<and> same_view s s'"
  using assms
proof (induction es arbitrary: s)
  case Nil
  then show ?case by (simp add: same_view_def)
next
  case (Cons e es)
  obtain seq o' where e: "e = (seq, o')" by (cases e)
  have m: "map_of (queue_at Q_WAITING s) (0, seq) = Some o'" using Cons.prems(6) e by simp
  obtain t where t: "td s o' = Some t" "place_queued (tk_place t) = Some (Q_WAITING, 0, seq)"
    using queues_okD(3) [OF Cons.prems(1) _ m] by (auto simp: queue_ids)
  have iw: "in_waiting t" using t(2) by (simp add: in_waiting_def)
  have en: "entry_ok False t" using index_onD(5) [OF Cons.prems(2) t(1)] by (simp add: e)
  then have un: "place_sleep_key (tk_place t) = None" "place_wait_key (tk_place t) = None"
    unfolding entry_ok_def place_wait_key_def by auto
  define d where "d = snd (abs_deadline (tk_wakeup_tick t) s)"
  define t1 where "t1 = t\<lparr>tk_place := index_place 0 seq t d\<rparr>"
  define s1 where "s1 = td_put o' t1 (ts_mod (index_ts o' seq t d) s)"
  have fresh: "\<forall>p t'. td s p = Some t' \<longrightarrow> p \<noteq> o' \<longrightarrow> in_waiting t' \<longrightarrow> tp_seq (tk_place t') \<noteq> seq"
  proof (intro allI impI notI)
    fix p t' assume a: "td s p = Some t'" "p \<noteq> o'" "in_waiting t'" "tp_seq (tk_place t') = seq"
    then obtain pri where "place_queued (tk_place t') = Some (Q_WAITING, pri, seq)"
      unfolding in_waiting_def using placed_strip(2) by (metis prod.collapse)
    from queues_okD(4) [OF Cons.prems(1) a(1) this] m a(2) show False by (auto simp: queue_ids)
  qed
  have dl: "has_deadline t \<longrightarrow> - 1 \<le> ahead (ts s) (tk_wakeup_tick t)"
    using Cons.prems(5) t(1) iw unfolding deadlines_near_def by blast
  note st = index_step [OF Cons.prems(2,3,4) t(1) un fresh dl d_def, of s1 0, unfolded s1_def t1_def, OF refl]
  have v: "view s1 = view s" unfolding s1_def t1_def by (rule view_index [OF t])
  have r: "rest s1 = rest s" unfolding s1_def
    using rest_td_put [of "ts_mod (index_ts o' seq t d) s" o' t t1] rest_ts_mod [of "index_ts o' seq t d" s] t(1) by simp
  have n: "now_abs (ts s1) = now_abs (ts s)" unfolding s1_def using index_ts_now [OF Cons.prems(4)] by simp
  have x: "(\<lambda>p. p \<notin> snd ` set (e # es))(o' := True) = (\<lambda>p. p \<notin> snd ` set es)" using Cons.prems(7) by (auto simp: e fun_eq_iff)
  have "\<exists>s'. index_all es s1 = Some s' \<and> index_on (\<lambda>_. True) s' \<and> clock_ok s' \<and> same_view s1 s'"
  proof (rule Cons.IH)
    show "queues_ok s1" "deadlines_near s1"
      using queues_ok_view [OF v Cons.prems(1)] deadlines_near_view [OF v Cons.prems(5)] by auto
    show "index_on (\<lambda>p. p \<notin> snd ` set es) s1" "clock_ok s1" using st(2,3) unfolding x s1_def t1_def by auto
    show "young s1" using Cons.prems(4) n by (simp add: young_def)
    show "\<forall>(seq, o') \<in> set es. map_of (queue_at Q_WAITING s1) (0, seq) = Some o'" "distinct (map snd es)"
      using Cons.prems(6,7) view_queues [OF v] by auto
  qed
  moreover have "index_all (e # es) s = index_all es s1"
    using t by (simp add: e index_one_eq Let_def s1_def t1_def d_def index_place_def)
  moreover have "same_view s s1" using v r n by (simp add: same_view_def) (simp add: s1_def)
  ultimately show ?case unfolding same_view_def by auto
qed

lemma build_index_ok:
  assumes ok: "sched_ok s" and "young s" "deadlines_near s" and ni: "\<not> ts_indexed (ts s)"
  shows "\<exists>s'. build_index s = Some s' \<and> sched_ok s' \<and> view s' = view s \<and> rest s' = rest s \<and> now_abs (ts s') = now_abs (ts s)"
proof -
  have ok': "queues_ok s" "indexes_ok s" "clock_ok s" "ts_due (ts s) = []" using ok by (simp_all add: sched_ok_def)
  let ?s = "ts_mod (\<lambda>x. x\<lparr>ts_indexed := True\<rparr>) s" and ?es = "map (\<lambda>((_, seq), o'). (seq, o')) (queue_at Q_WAITING s)"
  have v: "view ?s = view s" "rest ?s = rest s" "now_abs (ts ?s) = now_abs (ts s)"
    by (simp_all add: view_def rest_ts_mod plain_ts_def now_abs_def)
  have w: "Q_WAITING < 4" by (simp add: queue_ids)
  have inv: "sd_inv (queue_at Q_WAITING s)" using queues_okD(2) [OF ok'(1) w] .
  have mem: "\<exists>t. td s p = Some t \<and> place_queued (tk_place t) = Some (Q_WAITING, k) \<and> fst k = 0"
    if "(k, p) \<in> set (queue_at Q_WAITING s)" for k p
  proof -
    have "map_of (queue_at Q_WAITING s) k = Some p" using that sd_distinct [OF inv] by simp
    from queues_okD(3) [OF ok'(1) w this] obtain t where t: "td s p = Some t" "place_queued (tk_place t) = Some (Q_WAITING, k)" by blast
    have "place_queued (tk_place t) = Some (Q_WAITING, fst k, snd k)" using t(2) by simp
    from queues_okD(4) [OF ok'(1) t(1) this] t show ?thesis by (simp add: queue_ids)
  qed
  have dist: "distinct (map snd (queue_at Q_WAITING s))"
  proof -
    have "inj_on snd (set (queue_at Q_WAITING s))"
    proof (rule inj_onI)
      fix e f assume a: "e \<in> set (queue_at Q_WAITING s)" "f \<in> set (queue_at Q_WAITING s)" "snd e = snd f"
      obtain k p k' where "e = (k, p)" "f = (k', p)" using a(3) by (metis prod.collapse)
      with mem [of k p] mem [of k' p] a show "e = f" by auto
    qed
    moreover have "distinct (queue_at Q_WAITING s)" using sd_distinct [OF inv] by (simp add: distinct_map)
    ultimately show ?thesis by (simp add: distinct_map)
  qed
  have "\<exists>s'. index_all ?es ?s = Some s' \<and> index_on (\<lambda>_. True) s' \<and> clock_ok s' \<and> same_view ?s s'"
  proof (rule index_all_ok)
    show "queues_ok ?s" "deadlines_near ?s" using queues_ok_view [OF v(1) ok'(1)] deadlines_near_view [OF v(1) assms(3)] by auto
    show "clock_ok ?s" by (rule clock_okI [OF ok'(3)]) auto
    show "young ?s" using assms(2) v(3) by (simp add: young_def)
    have "\<not> in_waiting t" if "td s p = Some t" "p \<notin> snd ` set (queue_at Q_WAITING s)" for p t
    proof
      assume "in_waiting t"
      then obtain k where "place_queued (tk_place t) = Some (Q_WAITING, fst k, snd k)" by (auto simp: in_waiting_def)
      from queues_okD(4) [OF ok'(1) that(1) this] have "(k, p) \<in> set (queue_at Q_WAITING s)" by (auto dest: map_of_SomeD)
      with that(2) show False by force
    qed
    then have "entry_ok (p \<notin> snd ` set ?es) t" if "td s p = Some t" for p t
      using that indexes_okD(5) [OF ok'(2) that] ni by (force simp: entry_ok_def)
    then show "index_on (\<lambda>p. p \<notin> snd ` set ?es) ?s" using ok'(2) by (simp add: index_on_def indexes_ok_def)
    show "\<forall>(seq, o') \<in> set ?es. map_of (queue_at Q_WAITING ?s) (0, seq) = Some o'"
    proof
      fix x assume "x \<in> set ?es"
      then obtain k p where x: "x = (snd k, p)" "(k, p) \<in> set (queue_at Q_WAITING s)" by force
      with mem [of k p] have "fst k = 0" by blast
      with x sd_distinct [OF inv] show "case x of (seq, o') \<Rightarrow> map_of (queue_at Q_WAITING ?s) (0, seq) = Some o'"
        by (cases k) (simp add: queue_at_def)
    qed
    show "distinct (map snd ?es)" using dist by (simp add: comp_def case_prod_unfold)
  qed
  then obtain s' where s': "index_all ?es ?s = Some s'" "index_on (\<lambda>_. True) s'" "clock_ok s'" "same_view ?s s'" by blast
  then have "ts_indexed (ts s')" "view s' = view s" "rest s' = rest s" "now_abs (ts s') = now_abs (ts s)" "ts_due (ts s') = []"
    using v ok'(4) by (simp_all add: same_view_def)
  moreover from this have "sched_ok s'" using s' queues_ok_view [OF _ ok'(1), of s'] index_on_all [of s']
    by (simp add: sched_ok_def)
  ultimately show ?thesis using s'(1) by (auto simp: build_index_def)
qed


end
