(* ===== verification/TaskEnter.thy ===== *)
theory TaskEnter
  imports TaskInv
begin

text \<open>
  Joining a queue (the second half of \<open>requeue\<close>) keeps the invariant and does what the reference scheduler does,
  whether the waiting queue is indexed, becomes indexed by it, or is walked.
\<close>

section \<open>Entering a queue\<close>

lemma td_put_put [simp]: "td_put o' t (td_put o' t' s) = td_put o' t s"
proof -
  have "heap_update (heap_update h o' (\<lambda>x. x\<lparr>ho_kind := K_Task t'\<rparr>)) o' (\<lambda>x. x\<lparr>ho_kind := K_Task t\<rparr>) =
      heap_update h o' (\<lambda>x. x\<lparr>ho_kind := K_Task t\<rparr>)" for h
    by (simp add: heap_update_def)
  then show ?thesis by (simp add: td_put_def vm_update_def)
qed

lemma td_put_ts_mod: "td_put o' t (ts_mod f s) = ts_mod f (td_put o' t s)"
  by (simp add: td_put_def vm_update_def ts_mod_def mc_mod_def)

definition enter_key :: "task_data \<Rightarrow> task_state \<Rightarrow> u8 \<times> u64" where
  "enter_key t x = (if q_of (tk_status t) = Q_READY then tk_priority t else 0, ts_seq x)"

definition enter_ts :: "obj_id \<Rightarrow> task_data \<Rightarrow> task_state \<Rightarrow> task_state" where
  "enter_ts o' t x = (let q = q_of (tk_status t)
     in x\<lparr>ts_seq := ts_seq x + 1, ts_queues := (ts_queues x)[q := sd_insert (ts_queues x ! q) (enter_key t x) o']\<rparr>)"

lemma enter_ts_fields [simp]:
  "ts_indexed (enter_ts o' t x) = ts_indexed x" "ts_index_from (enter_ts o' t x) = ts_index_from x"
  "ts_seq (enter_ts o' t x) = ts_seq x + 1" "ts_sleepers (enter_ts o' t x) = ts_sleepers x"
  "ts_waiters (enter_ts o' t x) = ts_waiters x" "ts_due (enter_ts o' t x) = ts_due x" "ts_tick (enter_ts o' t x) = ts_tick x"
  "ts_tick_abs (enter_ts o' t x) = ts_tick_abs x" "ts_tick_seen (enter_ts o' t x) = ts_tick_seen x"
  "ts_wakeup_tick (enter_ts o' t x) = ts_wakeup_tick x" "ts_switching (enter_ts o' t x) = ts_switching x"
  "plain_ts (enter_ts o' t x) = plain_ts x" "now_abs (enter_ts o' t x) = now_abs x"
  by (simp_all add: enter_ts_def Let_def plain_ts_def now_abs_def)

lemma word_less_Suc: "(x :: u64) \<noteq> - 1 \<Longrightarrow> x < x + 1"
  by (metis add.commute eq_neg_iff_add_eq_0 lessI unatSuc word_less_nat_alt)

definition entered :: "obj_id \<Rightarrow> task_data \<Rightarrow> 'x tvm \<Rightarrow> 'x tvm" where
  "entered o' t s = td_put o' (t\<lparr>tk_place := place_set (q_of (tk_status t)) (enter_key t (ts s)) None None\<rparr>)
     (ts_mod (enter_ts o' t) s)"

lemma enter_eq:
  assumes "length (ts_queues (ts s)) = 4" "td s o' = Some t"
  shows "enter o' t s =
     (let q = q_of (tk_status t); key = enter_key t (ts s); s1 = ts_mod (enter_ts o' t) s
      in if q = Q_WAITING \<and> ts_indexed (ts s) then
           (let d = snd (abs_deadline (tk_wakeup_tick t) s1)
            in Some (td_put o' (t\<lparr>tk_place := index_place 0 (ts_seq (ts s)) t d\<rparr>) (ts_mod (index_ts o' (ts_seq (ts s)) t d) s1)))
         else if q = Q_WAITING \<and> length (queue_at Q_WAITING s1) \<ge> ts_index_from (ts s) then build_index (entered o' t s)
         else Some (entered o' t s))"
proof -
  define q where "q = q_of (tk_status t)"
  have q: "q < length (ts_queues (ts s))" using assms(1) by (simp add: q_def)
  have i: "queue_insert q (enter_key t (ts s)) o' (ts_mod (\<lambda>x. x\<lparr>ts_seq := ts_seq (ts s) + 1\<rparr>) s) = Some (ts_mod (enter_ts o' t) s)"
    using q unfolding queue_insert_def queue_set_def
    by (auto simp: ts_mod_mod queue_at_def enter_ts_def q_def Let_def intro!: ts_mod_cong)
  have t: "td (ts_mod (enter_ts o' t) s) o' = Some t" using assms(2) by simp
  have k: "enter_key t (ts s) = (if q = Q_READY then tk_priority t else 0, ts_seq (ts s))" by (simp add: enter_key_def q_def)
  have "q = Q_WAITING \<Longrightarrow> enter_key t (ts s) = (0, ts_seq (ts s))" by (simp add: k queue_ids)
  then show ?thesis
    unfolding enter_def Let_def q_def [symmetric] k [symmetric] i
    using t by (auto simp: index_one_eq Let_def td_mod_def index_place_def entered_def q_def)
qed

lemma entered_queues_ok:
  assumes ok: "queues_ok s" and t: "td s o' = Some t" "place_queued (tk_place t) = None" and room: "ts_seq (ts s) \<noteq> - 1"
  shows "queues_ok (entered o' t s)" (is "queues_ok ?s")
proof -
  let ?q = "q_of (tk_status t)" and ?k = "enter_key t (ts s)"
  let ?t = "t\<lparr>tk_place := place_set ?q ?k None None\<rparr>"
  have d: "td ?s = (td s)(o' \<mapsto> ?t)" unfolding entered_def using td_put_td [of "ts_mod (enter_ts o' t) s"] t(1) by simp
  have l: "length (ts_queues (ts s)) = 4" using queues_okD(1) [OF ok] .
  have q: "queue_at j ?s = (if j = ?q then sd_insert (queue_at ?q s) ?k o' else queue_at j s)" for j
    using l by (simp add: entered_def enter_ts_def queue_at_def Let_def nth_list_update)
  have f: "map_of (queue_at ?q s) ?k = None"
  proof (rule ccontr)
    assume "map_of (queue_at ?q s) ?k \<noteq> None"
    then obtain p where "map_of (queue_at ?q s) ?k = Some p" by (auto simp: not_None_eq)
    from queues_okD(3) [OF ok q_of_less this] obtain t' where "td s p = Some t'" "place_queued (tk_place t') = Some (?q, ?k)" by blast
    from queues_okD(4) [OF ok this(1), of ?q "fst ?k" "snd ?k"] this(2) show False by (simp add: enter_key_def)
  qed
  have m: "sd_inv (sd_insert (queue_at ?q s) ?k o')" "map_of (sd_insert (queue_at ?q s) ?k o') = (map_of (queue_at ?q s))(?k \<mapsto> o')"
    using deque.inv_ins [OF queues_okD(2) [OF ok q_of_less] f] by auto
  have seq: "ts_seq (ts ?s) = ts_seq (ts s) + 1" "length (ts_queues (ts ?s)) = 4" "ts_seq (ts s) < ts_seq (ts s) + 1"
    using l word_less_Suc [OF room] by (simp_all add: entered_def) (simp add: enter_ts_def Let_def)
  show ?thesis unfolding queues_ok_def d
  proof (intro conjI allI impI)
    show "length (ts_queues (ts ?s)) = 4" by (rule seq(2))
    fix j key p assume j: "j < (4 :: nat)"
    show "sd_inv (queue_at j ?s)" unfolding q using j queues_okD(2) [OF ok] m(1) by simp
    assume a: "map_of (queue_at j ?s) key = Some p"
    show "\<exists>t'. ((td s)(o' \<mapsto> ?t)) p = Some t' \<and> place_queued (tk_place t') = Some (j, key)"
    proof (cases "j = ?q \<and> key = ?k")
      case True
      with a have "p = o'" unfolding q using m(2) by simp
      with True show ?thesis by simp
    next
      case False
      with a have "map_of (queue_at j s) key = Some p" unfolding q using m(2) by (auto split: if_splits)
      from queues_okD(3) [OF ok j this] t show ?thesis by (cases "p = o'") auto
    qed
  next
    fix p t' j pri sq
    assume a: "((td s)(o' \<mapsto> ?t)) p = Some t'" "place_queued (tk_place t') = Some (j, pri, sq)"
    have "j = q_of (tk_status t') \<and> map_of (queue_at j ?s) (pri, sq) = Some p \<and>
      pri = (if j = Q_READY then tk_priority t' else 0) \<and> sq < ts_seq (ts ?s)"
    proof (cases "p = o'")
      case True
      with a have "t' = ?t" "j = ?q" "(pri, sq) = ?k" by auto
      then show ?thesis unfolding q using m(2) seq True by (auto simp: enter_key_def)
    next
      case False
      with a(1) have "td s p = Some t'" by simp
      note w = queues_okD(4) [OF ok this a(2)]
      then have "(pri, sq) \<noteq> ?k" by (auto simp: enter_key_def)
      moreover have "sq < ts_seq (ts ?s)" using w seq by (metis order.strict_trans)
      ultimately show ?thesis unfolding q using w m(2) by auto
    qed
    then show "j = q_of (tk_status t')" "map_of (queue_at j ?s) (pri, sq) = Some p"
      "pri = (if j = Q_READY then tk_priority t' else 0)" "sq < ts_seq (ts ?s)" by auto
  qed
qed

lemma enter_key_waiting: "q_of (tk_status t) = Q_WAITING \<Longrightarrow> enter_key t x = (0, ts_seq x)"
  by (simp add: enter_key_def queue_ids)

lemma td_entered:
  "td s o' = Some t \<Longrightarrow> td (entered o' t s) = (td s)(o' \<mapsto> t\<lparr>tk_place := place_set (q_of (tk_status t)) (enter_key t (ts s)) None None\<rparr>)"
  unfolding entered_def using td_put_td [of "ts_mod (enter_ts o' t) s"] by simp

lemma view_entered:
  assumes "td s o' = Some t"
  shows "view (entered o' t s) = ref_enter o' (strip t) (view s)" "rest (entered o' t s) = rest s"
proof -
  have "(\<lambda>p. map_option strip (td (entered o' t s) p)) =
      (\<lambda>p. map_option strip (td s p))(o' \<mapsto> (strip t)\<lparr>tk_place := place_set (q_of (tk_status t)) (enter_key t (ts s)) None None\<rparr>)"
    unfolding td_entered [OF assms] by (auto simp: strip_def)
  then show "view (entered o' t s) = ref_enter o' (strip t) (view s)"
    by (simp add: view_def ref_enter_def Let_def entered_def) (simp add: strip_def enter_key_def enter_ts_def Let_def)
  show "rest (entered o' t s) = rest s"
    unfolding entered_def using rest_td_put [of "ts_mod (enter_ts o' t) s" o' t] rest_ts_mod [of "enter_ts o' t" s] assms by simp
qed

lemma entered_index_on:
  assumes ok: "indexes_ok s" and t: "td s o' = Some t" "unplaced (tk_place t)"
  shows "index_on (\<lambda>p. ts_indexed (ts s) \<and> \<not> (p = o' \<and> q_of (tk_status t) = Q_WAITING)) (entered o' t s)" (is "index_on ?B ?s")
proof -
  note i = indexes_okD [OF ok]
  let ?t = "t\<lparr>tk_place := place_set (q_of (tk_status t)) (enter_key t (ts s)) None None\<rparr>"
  have k: "place_sleep_key (tk_place ?t) = None" "place_wait_key (tk_place ?t) = None" "tp_target (tk_place ?t) = None"
    by simp_all (simp add: place_set_def)
  have "(\<exists>t'. ((td s)(o' \<mapsto> ?t)) p = Some t' \<and> place_sleep_key (tk_place t') = Some key) \<longleftrightarrow>
      (\<exists>t'. td s p = Some t' \<and> place_sleep_key (tk_place t') = Some key)"
    "(\<exists>t'. ((td s)(o' \<mapsto> ?t)) p = Some t' \<and> place_wait_key (tk_place t') = Some w) \<longleftrightarrow>
      (\<exists>t'. td s p = Some t' \<and> place_wait_key (tk_place t') = Some w)" for p key w
    using k t by (auto simp: unplaced_def)
  moreover have "entry_ok (?B p) t'" if "((td s)(o' \<mapsto> ?t)) p = Some t'" for p t'
    using that i(5) k by (cases "p = o'") (auto simp: entry_ok_def in_waiting_def)
  moreover have "ts_sleepers (ts ?s) = ts_sleepers (ts s)" "ts_waiters (ts ?s) = ts_waiters (ts s)" by (simp_all add: entered_def)
  ultimately show ?thesis unfolding index_on_def td_entered [OF t(1)] using i by simp
qed

lemma enter_refines:
  assumes ok: "sched_ok s" and t: "td s o' = Some t" "unplaced (tk_place t)" and room: "ts_seq (ts s) \<noteq> - 1"
    and near: "young s" "q_of (tk_status t) = Q_WAITING \<longrightarrow> deadlines_near s"
      "q_of (tk_status t) = Q_WAITING \<longrightarrow> has_deadline t \<longrightarrow> - 1 \<le> ahead (ts s) (tk_wakeup_tick t)"
  shows "\<exists>s'. enter o' t s = Some s' \<and> sched_ok s' \<and> view s' = ref_enter o' (strip t) (view s) \<and> rest s' = rest s \<and>
    now_abs (ts s') = now_abs (ts s) \<and> (deadlines_near s \<longrightarrow> deadlines_near s')"
proof -
  have ok': "queues_ok s" "indexes_ok s" "clock_ok s" "ts_due (ts s) = []" using ok by (simp_all add: sched_ok_def)
  have pq: "place_queued (tk_place t) = None" using t(2) by (simp add: unplaced_def)
  let ?e = "entered o' t s" and ?q = "q_of (tk_status t)"
  define t' where "t' = t\<lparr>tk_place := place_set ?q (enter_key t (ts s)) None None\<rparr>"
  note td = td_entered [OF t(1), folded t'_def]
  note v = view_entered [OF t(1)] and l = queues_okD(1) [OF ok'(1)]
  have same: "has_deadline t' = has_deadline t" "wait_target t' = wait_target t" "tk_wakeup_tick t' = tk_wakeup_tick t"
    by (simp_all add: t'_def has_deadline_def wait_target_def)
  have e: "queues_ok ?e" by (rule entered_queues_ok [OF ok'(1) t(1) pq room])
  have c: "clock_ok ?e" using td by (intro clock_okI [OF ok'(3)]) (auto simp: entered_def t'_def split: if_splits)
  have y: "young ?e" "now_abs (ts ?e) = now_abs (ts s)" using near(1) by (simp_all add: young_def entered_def)
  have a: "ahead (ts ?e) = ahead (ts s)" by (simp add: ahead_def fun_eq_iff entered_def)
  have iw: "in_waiting t' \<longleftrightarrow> ?q = Q_WAITING" by (auto simp: t'_def in_waiting_def)
  have n: "deadlines_near ?e" if "deadlines_near s" using that near(3) same iw unfolding deadlines_near_def td a by (auto split: if_splits)
  note ix = entered_index_on [OF ok'(2) t]
  have fields: "ts_indexed (ts ?e) = ts_indexed (ts s)" "ts_due (ts ?e) = []" using ok'(4) by (simp_all add: entered_def)
  consider "?q = Q_WAITING" "ts_indexed (ts s)"
    | "?q = Q_WAITING" "\<not> ts_indexed (ts s)" "length (ts_queues (enter_ts o' t (ts s)) ! Q_WAITING) \<ge> ts_index_from (ts s)"
    | "\<not> (?q = Q_WAITING \<and> ts_indexed (ts s))"
      "\<not> (?q = Q_WAITING \<and> length (ts_queues (enter_ts o' t (ts s)) ! Q_WAITING) \<ge> ts_index_from (ts s))" by blast
  then show ?thesis
  proof cases
    case 1
    let ?seq = "ts_seq (ts s)"
    define d where "d = snd (abs_deadline (tk_wakeup_tick t') ?e)"
    define s2 where "s2 = td_put o' (t'\<lparr>tk_place := index_place 0 ?seq t' d\<rparr>) (ts_mod (index_ts o' ?seq t' d) ?e)"
    have "enter o' t s = Some s2"
    proof -
      have "index_place 0 ?seq t' x = index_place 0 ?seq t x" "index_ts o' ?seq t' x = index_ts o' ?seq t x" for x
        by (simp_all add: index_place_def index_ts_def same fun_eq_iff)
      moreover have "d = snd (abs_deadline (tk_wakeup_tick t) (ts_mod (enter_ts o' t) s))"
        by (simp add: d_def abs_deadline_eq same entered_def)
      ultimately show ?thesis using 1
        by (simp add: enter_eq [OF l t(1)] Let_def s2_def entered_def td_put_ts_mod t'_def)
    qed
    moreover
    have te: "td ?e o' = Some t'" using td by simp
    have tq: "place_queued (tk_place t') = Some (Q_WAITING, 0, ?seq)"
      by (simp add: t'_def 1 enter_key_waiting queue_ids)
    have un: "place_sleep_key (tk_place t') = None" "place_wait_key (tk_place t') = None" by (simp_all add: t'_def)
    have fresh: "\<forall>p t''. td ?e p = Some t'' \<longrightarrow> p \<noteq> o' \<longrightarrow> in_waiting t'' \<longrightarrow> tp_seq (tk_place t'') \<noteq> ?seq"
    proof (intro allI impI)
      fix p t'' assume b: "td ?e p = Some t''" "p \<noteq> o'" "in_waiting t''"
      then obtain pri where "place_queued (tk_place t'') = Some (Q_WAITING, pri, tp_seq (tk_place t''))" "td s p = Some t''"
        unfolding in_waiting_def td using placed_strip(2) by (metis fun_upd_other prod.collapse)
      from queues_okD(4) [OF ok'(1) this(2,1)] show "tp_seq (tk_place t'') \<noteq> ?seq" by auto
    qed
    have dl: "has_deadline t' \<longrightarrow> - 1 \<le> ahead (ts ?e) (tk_wakeup_tick t')" using near(3) 1 by (simp add: same a)
    note st = index_step [OF ix c y(1) te un fresh dl d_def s2_def]
    have w: "view s2 = view ?e" unfolding s2_def by (rule view_index [OF te tq])
    have "(\<lambda>p. ts_indexed (ts s) \<and> \<not> (p = o' \<and> ?q = Q_WAITING))(o' := True) = (\<lambda>_. True)" using 1 by auto
    then have "indexes_ok s2" using st(2) 1 unfolding index_on_all by (simp add: s2_def fields)
    then have "sched_ok s2" using queues_ok_view [OF w e] st(3) fields(2) by (simp add: sched_ok_def s2_def)
    moreover have "rest s2 = rest s" unfolding s2_def
      using rest_td_put [of "ts_mod (index_ts o' ?seq t' d) ?e"] rest_ts_mod [of "index_ts o' ?seq t' d" ?e] te v(2) by simp
    moreover have "now_abs (ts s2) = now_abs (ts s)" unfolding s2_def using index_ts_now [OF y(1)] y(2) by simp
    ultimately show ?thesis using w v deadlines_near_view [OF w] n by auto
  next
    case 2
    have "indexes_ok ?e" using ix 2 by (simp add: index_on_all fields)
    then have "sched_ok ?e" using e c fields by (simp add: sched_ok_def)
    from build_index_ok [OF this y(1) n] near(2) 2 fields obtain s' where
      s': "build_index ?e = Some s'" "sched_ok s'" "view s' = view ?e" "rest s' = rest ?e" "now_abs (ts s') = now_abs (ts ?e)" by auto
    moreover have "enter o' t s = build_index ?e" using 2 by (simp add: enter_eq [OF l t(1)] Let_def)
    ultimately show ?thesis using v y deadlines_near_view [OF s'(3)] n by auto
  next
    case 3
    have "(\<lambda>p. ts_indexed (ts s) \<and> \<not> (p = o' \<and> ?q = Q_WAITING)) = (\<lambda>_. ts_indexed (ts s))" using 3 by auto
    then have "indexes_ok ?e" using ix by (simp add: index_on_all fields)
    moreover have "enter o' t s = Some ?e" using 3 by (auto simp: enter_eq [OF l t(1)] Let_def)
    ultimately show ?thesis using e c fields v y n by (simp add: sched_ok_def)
  qed
qed

end
