(* ===== verification/TaskRef.thy ===== *)
theory TaskRef
  imports TaskEnter
begin

text \<open>
  The queue operations refine the reference scheduler: each answers, keeps the invariant, and is, on the view, the
  operation on plain queues. A state is \<open>settled\<close> when the invariant holds and the clock is young.
\<close>

section \<open>Changing a task's status\<close>

definition settled :: "'x tvm \<Rightarrow> bool" where
  "settled s \<longleftrightarrow> sched_ok s \<and> young s"

definition room :: "nat \<Rightarrow> 'x tvm \<Rightarrow> bool" where
  "room n s \<longleftrightarrow> unat (ts_seq (ts s)) + n < 2 ^ 64"

text \<open>What an operation on the queues comes to.\<close>

definition refines :: "'x tvm \<Rightarrow> 'x tvm option \<Rightarrow> (sched \<Rightarrow> sched) \<Rightarrow> bool" where
  "refines s r g \<longleftrightarrow> (\<exists>s'. r = Some s' \<and> settled s' \<and> view s' = g (view s) \<and> rest s' = rest s \<and>
     now_abs (ts s') = now_abs (ts s) \<and> (deadlines_near s \<longrightarrow> deadlines_near s'))"

lemma refinesE:
  assumes "refines s r g"
  obtains s' where "r = Some s'" "settled s'" "view s' = g (view s)" "rest s' = rest s" "now_abs (ts s') = now_abs (ts s)"
    "deadlines_near s \<longrightarrow> deadlines_near s'"
  using assms unfolding refines_def by blast

text \<open>May \<open>t\<close> wait: its deadline, if any, is not behind the clock.\<close>

definition may_wait :: "'x tvm \<Rightarrow> task_data \<Rightarrow> bool" where
  "may_wait s t \<longleftrightarrow> (q_of (tk_status t) = Q_WAITING \<longrightarrow>
     deadlines_near s \<and> (has_deadline t \<longrightarrow> - 1 \<le> ahead (ts s) (tk_wakeup_tick t)))"

lemma leave_refines':
  assumes "settled s" "td s o' = Some t" "unplaced (tk_place t1)"
  shows "refines s (leave (tk_place t) (td_put o' t1 s)) (ref_leave o' (strip t1) (tk_place t))"
    "\<exists>s'. leave (tk_place t) (td_put o' t1 s) = Some s' \<and> td s' = (td s)(o' \<mapsto> t1) \<and> ts_seq (ts s') = ts_seq (ts s)"
proof -
  have ok: "sched_ok s" "young s" using assms(1) by (simp_all add: settled_def)
  obtain s' where s': "leave (tk_place t) (td_put o' t1 s) = Some s'" "sched_ok s'"
    "view s' = ref_leave o' (strip t1) (tk_place t) (view s)" "rest s' = rest s" "td s' = (td s)(o' \<mapsto> t1)"
    "ts_tick_abs (ts s') = ts_tick_abs (ts s)" "ts_tick_seen (ts s') = ts_tick_seen (ts s)"
    using leave_refines [OF ok(1) assms(2,3)] by blast
  have k: "ts_tick (ts s') = ts_tick (ts s)" using rest_tick [OF s'(4)] by blast
  have n: "now_abs (ts s') = now_abs (ts s)" "ahead (ts s') = ahead (ts s)"
    using s'(6,7) k by (simp_all add: now_abs_def ahead_def fun_eq_iff)
  have "\<not> in_waiting t1" using assms(3) by (simp add: in_waiting_def unplaced_def)
  then have "deadlines_near s \<Longrightarrow> deadlines_near s'" unfolding deadlines_near_def s'(5) n by (auto split: if_splits)
  moreover have "settled s'" using s'(2) ok(2) n by (simp add: settled_def young_def)
  ultimately show "refines s (leave (tk_place t) (td_put o' t1 s)) (ref_leave o' (strip t1) (tk_place t))"
    using s' n by (simp add: refines_def)
  have "sc_seq (view s') = sc_seq (view s)" by (simp add: s'(3) ref_leave_def)
  then have "ts_seq (ts s') = ts_seq (ts s)" by (simp add: view_def)
  with s' show "\<exists>s'. leave (tk_place t) (td_put o' t1 s) = Some s' \<and> td s' = (td s)(o' \<mapsto> t1) \<and> ts_seq (ts s') = ts_seq (ts s)"
    by blast
qed

lemma room_seq: "room (Suc n) s \<Longrightarrow> ts_seq (ts s) \<noteq> - 1"
  by (auto simp: room_def unsigned_minus_1_eq_mask mask_eq_exp_minus_1)

lemma room_enter: "room (Suc n) s \<Longrightarrow> view s' = ref_enter o' t v \<Longrightarrow> sc_seq v = ts_seq (ts s) \<Longrightarrow> room n s'"
proof -
  assume a: "room (Suc n) s" "view s' = ref_enter o' t v" "sc_seq v = ts_seq (ts s)"
  have "sc_seq (view s') = sc_seq v + 1" unfolding a(2) by (simp add: ref_enter_def Let_def)
  then have "ts_seq (ts s') = ts_seq (ts s) + 1" by (simp add: view_def a(3))
  moreover have "unat (ts_seq (ts s) + 1) = Suc (unat (ts_seq (ts s)))"
    using room_seq [OF a(1)] by (metis add.commute eq_neg_iff_add_eq_0 unatSuc)
  ultimately show "room n s'" using a(1) by (simp add: room_def)
qed

lemma strip_unplaced: "tk_place t = place_none \<Longrightarrow> strip t = t"
  by (cases t) (simp add: strip_def)

lemma may_wait_mono: "may_wait s t \<Longrightarrow> ts_tick (ts s') = ts_tick (ts s) \<Longrightarrow> (deadlines_near s \<longrightarrow> deadlines_near s') \<Longrightarrow> may_wait s' t"
  by (auto simp: may_wait_def ahead_def)

lemma enter_refines':
  assumes "settled s" "td s o' = Some t" "unplaced (tk_place t)" "room (Suc n) s" "may_wait s t"
  shows "refines s (enter o' t s) (ref_enter o' (strip t))"
proof -
  have "sched_ok s" "young s" using assms(1) by (simp_all add: settled_def)
  from enter_refines [OF this(1) assms(2,3) room_seq [OF assms(4)] this(2)] assms(5)
  obtain s' where "enter o' t s = Some s'" "sched_ok s'" "view s' = ref_enter o' (strip t) (view s)" "rest s' = rest s"
    "now_abs (ts s') = now_abs (ts s)" "deadlines_near s \<Longrightarrow> deadlines_near s'" unfolding may_wait_def by blast
  with \<open>young s\<close> show ?thesis by (simp add: refines_def settled_def young_def)
qed

text \<open>\<open>requeue\<close> with \<open>delete\<close>: the task's final fields decide.\<close>

lemma requeue_refines:
  assumes s: "settled s" and t: "td s o' = Some t" and f: "tk_place (f (t\<lparr>tk_place := place_none\<rparr>)) = place_none"
    and r: "room (Suc n) s" and w: "may_wait s (f (t\<lparr>tk_place := place_none\<rparr>))"
  shows "refines s (requeue o' True f s) (ref_requeue o' (f (t\<lparr>tk_place := place_none\<rparr>)))"
    "\<exists>s'. requeue o' True f s = Some s' \<and> room n s'"
proof -
  let ?t = "f (t\<lparr>tk_place := place_none\<rparr>)"
  have un: "unplaced (tk_place ?t)" by (simp add: f)
  obtain s1 where s1: "leave (tk_place t) (td_put o' ?t s) = Some s1" "settled s1"
    "view s1 = ref_leave o' (strip ?t) (tk_place t) (view s)" "rest s1 = rest s" "now_abs (ts s1) = now_abs (ts s)"
    "deadlines_near s \<longrightarrow> deadlines_near s1"
    by (rule refinesE [OF leave_refines'(1) [OF s t un]])
  have d: "td s1 = (td s)(o' \<mapsto> ?t)" "ts_seq (ts s1) = ts_seq (ts s)" using leave_refines'(2) [OF s t un] s1(1) by auto
  have "td s1 o' = Some ?t" "room (Suc n) s1" "may_wait s1 ?t"
    using d r may_wait_mono [OF w conjunct1 [OF rest_tick [OF s1(4)]] s1(6)] by (simp_all add: room_def)
  from enter_refines' [OF s1(2) this(1) un this(2,3)]
  obtain s2 where s2: "enter o' ?t s1 = Some s2" "settled s2" "view s2 = ref_enter o' (strip ?t) (view s1)" "rest s2 = rest s1"
    "now_abs (ts s2) = now_abs (ts s1)" "deadlines_near s1 \<longrightarrow> deadlines_near s2" by (rule refinesE)
  have rq: "requeue o' True f s = Some s2" using t s1(1) s2(1) by (simp add: requeue_def Let_def)
  have "sc_tasks (view s) o' = Some (strip t)" using t by (simp add: view_def)
  moreover have "strip ?t = ?t" by (rule strip_unplaced [OF f])
  moreover have "?t\<lparr>tk_place := place_none\<rparr> = ?t" using f by (metis task_data.surjective task_data.update_convs(12))
  moreover have "ref_leave o' ?t (tk_place (strip t)) v = ref_leave o' ?t (tk_place t) v" for v by (simp add: ref_leave_def strip_def)
  ultimately have "view s2 = ref_requeue o' ?t (view s)" by (simp add: ref_requeue_def s2(3) s1(3))
  with rq s2 s1 show "refines s (requeue o' True f s) (ref_requeue o' ?t)" by (simp add: refines_def)
  have "room n s2" using room_enter [OF r s2(3)] d(2) by (simp add: view_def)
  with rq show "\<exists>s'. requeue o' True f s = Some s' \<and> room n s'" by blast
qed

lemma q_delete_refines:
  assumes "settled s" "td s o' = Some t"
  shows "refines s (q_delete o' s) (ref_leave o' (t\<lparr>tk_place := place_none\<rparr>) (tk_place t))"
    "\<exists>s'. q_delete o' s = Some s' \<and> td s' = (td s)(o' \<mapsto> t\<lparr>tk_place := place_none\<rparr>) \<and> ts_seq (ts s') = ts_seq (ts s)"
  using leave_refines' [OF assms, of "t\<lparr>tk_place := place_none\<rparr>"] assms(2)
  by (simp_all add: q_delete_def strip_unplaced)

lemma leave_nowhere [simp]: "leave place_none s = Some s"
  by (simp add: leave_def queue_remove_def sleepers_remove_def waiters_remove_def)

lemma q_insert_refines:
  assumes "settled s" "td s o' = Some t" "tk_place t = place_none" "room (Suc n) s" "may_wait s t"
  shows "refines s (q_insert o' s) (ref_enter o' t)"
proof -
  have "td_put o' t s = s"
  proof -
    have "unat o' < length (hp_objs (vm_heap s)) \<and> ho_kind (hp_objs (vm_heap s) ! unat o') = K_Task t"
      using assms(2) by (auto simp: td_def heap_kind_def heap_get_def split: if_splits option.splits obj_kind.splits)
    then have "(hp_objs (vm_heap s))[unat o' := (hp_objs (vm_heap s) ! unat o')\<lparr>ho_kind := K_Task t\<rparr>] = hp_objs (vm_heap s)"
      by (simp add: list_update_same_conv)
    then show ?thesis by (simp add: td_put_def vm_update_def heap_update_def)
  qed
  then have "q_insert o' s = enter o' t s"
    using assms(2) by (simp add: q_insert_def requeue_def Let_def)
  with enter_refines' [OF assms(1,2) _ assms(4,5)] assms(3) show ?thesis by (simp add: strip_unplaced)
qed

text \<open>Taking a task out, changing it and putting it back in is one \<open>requeue\<close>.\<close>

lemma delete_insert_is_requeue:
  assumes s: "settled s" and t: "td s o' = Some t" and f: "tk_place (f (t\<lparr>tk_place := place_none\<rparr>)) = place_none"
  shows "do { s1 \<leftarrow> q_delete o' s; s2 \<leftarrow> td_mod o' f s1; q_insert o' s2 } = requeue o' True f s"
proof -
  let ?u = "t\<lparr>tk_place := place_none\<rparr>" and ?t = "f (t\<lparr>tk_place := place_none\<rparr>)"
  have un: "unplaced (tk_place ?u)" "unplaced (tk_place ?t)" by (simp_all add: f)
  obtain s1 where s1: "leave (tk_place t) (td_put o' ?u s) = Some s1" "td s1 = (td s)(o' \<mapsto> ?u)"
    using leave_refines'(2) [OF s t un(1)] by blast
  have "leave (tk_place t) (td_put o' ?t s) = Some (td_put o' ?t s1)"
  proof (cases "place_queued (tk_place t)")
    case None
    have "indexes_ok s" using s by (simp add: settled_def sched_ok_def)
    then have l: "leave (tk_place t) x = Some x" for x by (rule leave_unqueued [OF _ t None])
    then have "s1 = td_put o' ?u s" using s1(1) by (metis option.inject)
    then show ?thesis by (simp add: l)
  next
    case (Some k)
    have q: "queues_ok s" using s by (simp add: settled_def sched_ok_def)
    obtain q key where k: "k = (q, key)" by (cases k)
    have "q < 4" using queues_okD(4) [OF q t, of q "fst key" "snd key"] Some k by simp
    then have "leave (tk_place t) (td_put o' x s) = Some (ts_mod (leave_ts q key (tk_place t)) (td_put o' x s))" for x
      using queues_okD(1) [OF q] Some k by (intro leave_queued) simp_all
    with s1(1) show ?thesis by (auto simp: td_put_ts_mod)
  qed
  moreover have "td s1 o' = Some ?u" "td (td_put o' ?t s1) o' = Some ?t" using s1(2) td_put_td [of s1 o'] by auto
  ultimately show ?thesis using t s1
    by (simp add: q_delete_def td_mod_def q_insert_def requeue_def f Let_def)
qed

end
