(* ===== verification/TaskWake.thy ===== *)
theory TaskWake
  imports TaskRef
begin

text \<open>
  Finding waiting tasks: the indexes answer what a walk of the waiting queue answers, for the tasks that
  wait for an object and for the sleepers that are due, in the same order.
\<close>

section \<open>Sorted lists with the same entries\<close>

lemma sd_unique:
  assumes "sd_inv p" "sd_inv q" "set p = set q"
  shows "p = q"
proof -
  have "map fst p = map fst q"
    using assms by (intro strict_sorted_equal) (simp_all add: sd_inv_def)
  moreover have "r = map (\<lambda>k. (k, the (map_of p k))) (map fst r)" if "set r \<subseteq> set p" for r
    using that sd_distinct [OF assms(1)] by (induction r) (auto simp: map_of_eq_Some_iff)
  ultimately show ?thesis using assms(3) by (metis order_refl)
qed

lemma sd_inv_filter: "sd_inv q \<Longrightarrow> sd_inv (filter P q)"
  using sd_retain_inv [of q "\<lambda>k v. P (k, v)"] by (simp add: sd_retain_def)

definition by_seq :: "(('k \<times> u64) \<times> obj_id) list \<Rightarrow> (u64 \<times> obj_id) list" where
  "by_seq q = map (\<lambda>((_, seq), o'). (seq, o')) q"

lemma sd_inv_by_seq:
  assumes "sd_inv q" "\<And>e. e \<in> set q \<Longrightarrow> fst (fst e) = (c :: 'k::linorder)"
  shows "sd_inv (by_seq q)"
  using assms
proof (induction q)
  case (Cons e q)
  have "seq < fst x" if "x \<in> set (by_seq q)" "e = ((c', seq), o')" for x c' seq o'
  proof -
    note mem = that(1)
    obtain y where "y \<in> set q" "x = (snd (fst y), snd y)" using mem unfolding by_seq_def case_prod_unfold set_map by blast
    then obtain k where k: "(k, snd x) \<in> set q" "snd k = fst x" by (metis fst_conv prod.collapse snd_conv)
    have "fst k = c" using Cons.prems(2) k(1) by (metis fst_conv list.set_intros(2))
    moreover have "c' = c" using Cons.prems(2) that(2) by (metis fst_conv list.set_intros(1))
    moreover have "fst e < k" using Cons.prems(1) k(1) unfolding sd_inv_Cons by (metis fst_conv image_eqI)
    ultimately show ?thesis using that(2) k(2) by (cases k) (simp add: less_prod_def')
  qed
  moreover obtain c' seq o' where e: "e = ((c', seq), o')" by (metis prod.collapse)
  moreover have "by_seq (e # q) = (seq, o') # by_seq q" by (simp add: e by_seq_def)
  moreover have "sd_inv (by_seq q)" using Cons by (intro Cons.IH) (simp_all add: sd_inv_Cons)
  ultimately show ?case by (simp add: sd_inv_Cons)
qed (simp add: by_seq_def sd_inv_def)

section \<open>The waiting queue\<close>

lemma waiting_entries:
  assumes "queues_ok s"
  shows "(k, o') \<in> set (queue_at Q_WAITING s) \<longleftrightarrow>
    (\<exists>t. td s o' = Some t \<and> place_queued (tk_place t) = Some (Q_WAITING, k))"
    "(k, o') \<in> set (queue_at Q_WAITING s) \<Longrightarrow> fst k = 0"
proof -
  have w: "Q_WAITING < 4" by (simp add: queue_ids)
  note m = map_of_eq_Some_iff [OF sd_distinct [OF queues_okD(2) [OF assms w]]]
  show e: "(k, o') \<in> set (queue_at Q_WAITING s) \<longleftrightarrow>
      (\<exists>t. td s o' = Some t \<and> place_queued (tk_place t) = Some (Q_WAITING, k))"
    using queues_okD(3) [OF assms w, of k o'] queues_okD(4) [OF assms, of o' _ Q_WAITING "fst k" "snd k"] m by auto
  show "fst k = 0" if "(k, o') \<in> set (queue_at Q_WAITING s)"
    using that e queues_okD(4) [OF assms, of o' _ Q_WAITING "fst k" "snd k"] by (force simp: queue_ids)
qed

lemma in_waiting_iff:
  assumes "queues_ok s" "td s o' = Some t"
  shows "in_waiting t \<longleftrightarrow> o' \<in> set (queue_tasks Q_WAITING s)"
  using waiting_entries(1) [OF assms(1)] assms(2) by (force simp: in_waiting_def queue_tasks_def)

lemma waiting_seq_entries:
  assumes "queues_ok s"
  shows "(seq, o') \<in> set (by_seq (filter P (queue_at Q_WAITING s))) \<longleftrightarrow>
    (\<exists>t. td s o' = Some t \<and> place_queued (tk_place t) = Some (Q_WAITING, 0, seq) \<and> P ((0, seq), o'))"
proof -
  have "(seq, o') \<in> set (by_seq (filter P (queue_at Q_WAITING s))) \<longleftrightarrow>
      ((0, seq), o') \<in> set (queue_at Q_WAITING s) \<and> P ((0, seq), o')"
    using waiting_entries(2) [OF assms] by (force simp: by_seq_def)
  then show ?thesis using waiting_entries(1) [OF assms] by auto
qed

lemma waiting_by_seq: "queues_ok s \<Longrightarrow> sd_inv (by_seq (filter P (queue_at Q_WAITING s)))"
  using waiting_entries(2) [of s] queues_okD(2) [of s Q_WAITING]
  by (intro sd_inv_by_seq [where c = 0] sd_inv_filter) (auto simp: queue_ids)

lemma map_snd_by_seq: "map snd (by_seq q) = map snd q"
  by (simp add: by_seq_def case_prod_unfold)

section \<open>Waiting for an object\<close>

definition waits_in :: "'x tvm \<Rightarrow> obj_id \<Rightarrow> obj_id \<Rightarrow> bool" where
  "waits_in s target o' = (case td s o' of Some t \<Rightarrow> waits_for t target | None \<Rightarrow> False)"

text \<open>What the walk of the waiting queue finds.\<close>

definition found_waiting :: "obj_id \<Rightarrow> 'x tvm \<Rightarrow> obj_id list" where
  "found_waiting target s = filter (waits_in s target) (queue_tasks Q_WAITING s)"

lemma waits_for_target: "waits_for t x \<longleftrightarrow> wait_target t = Some x"
  by (simp add: waits_for_def wait_target_def)

lemma walk_waiting_found:
  assumes "\<forall>o' \<in> set os. td s o' \<noteq> None"
  shows "\<exists>n. walk_waiting target all os s =
    Some (if all then filter (waits_in s target) os else take 1 (filter (waits_in s target) os), n)"
  using assms
proof (induction os)
  case (Cons o' os)
  then obtain t n where "td s o' = Some t"
    "walk_waiting target all os s = Some (if all then filter (waits_in s target) os else take 1 (filter (waits_in s target) os), n)"
    by (auto simp: not_None_eq)
  moreover from this(1) have "waits_in s target o' \<longleftrightarrow> waits_for t target" by (simp add: waits_in_def)
  ultimately show ?case by auto
qed simp

lemma takeWhile_target:
  assumes "sd_inv q"
  shows "takeWhile (\<lambda>(k, _). fst k = target) (sd_iter_from q (target, 0)) = filter (\<lambda>(k, _). fst k = (target :: obj_id)) (q :: ((obj_id \<times> u64) \<times> obj_id) list)"
proof -
  have "takeWhile (\<lambda>(k, _). fst k = target) (filter (\<lambda>(k, _). (target, 0) \<le> k) q) = filter (\<lambda>(k, _). fst k = target) q"
    using assms
  proof (induction q)
    case (Cons e q)
    obtain a b v where e: "e = ((a, b), v)" by (metis prod.collapse)
    have later: "a < fst k \<or> a = fst k" if "(k, w) \<in> set q" for k w
      using Cons.prems that unfolding e sd_inv_Cons by (force simp: less_prod_def')
    consider "a < target" | "a = target" | "target < a" by (rule linorder_cases)
    then show ?case
    proof cases
      case 3
      then have "filter (\<lambda>(k, _). fst k = target) q = []" using later by (force simp: filter_empty_conv)
      with 3 show ?thesis by (auto simp: e less_eq_prod_def)
    qed (use Cons in \<open>auto simp: e less_eq_prod_def sd_inv_Cons\<close>)
  qed simp
  then show ?thesis by (simp add: sd_iter_from_set [OF assms])
qed

lemma waiters_found:
  assumes ok: "sched_ok s" "ts_indexed (ts s)"
  shows "map snd (takeWhile (\<lambda>(k, _). fst k = target) (sd_iter_from (ts_waiters (ts s)) (target, 0))) = found_waiting target s"
proof -
  have ok': "queues_ok s" "indexes_ok s" using ok(1) by (simp_all add: sched_ok_def)
  let ?q = "filter (\<lambda>(k, _). fst k = target) (ts_waiters (ts s))"
  let ?w = "filter (\<lambda>(_, o'). waits_in s target o') (queue_at Q_WAITING s)"
  have inv: "sd_inv (by_seq ?q)"
    by (rule sd_inv_by_seq [where c = target]) (auto intro: sd_inv_filter indexes_okD(2) [OF ok'(2)])
  have m: "(k, o') \<in> set (ts_waiters (ts s)) \<longleftrightarrow> (\<exists>t. td s o' = Some t \<and> place_wait_key (tk_place t) = Some k)" for k o'
    using indexes_okD(4) [OF ok'(2), of k o'] map_of_eq_Some_iff [OF sd_distinct [OF indexes_okD(2) [OF ok'(2)]]] by simp
  have "(seq, o') \<in> set (by_seq ?q) \<longleftrightarrow> (seq, o') \<in> set (by_seq ?w)" for seq o'
  proof -
    have "(seq, o') \<in> set (by_seq ?q) \<longleftrightarrow> ((target, seq), o') \<in> set (ts_waiters (ts s))" by (force simp: by_seq_def)
    also have "\<dots> \<longleftrightarrow> (\<exists>t. td s o' = Some t \<and> place_wait_key (tk_place t) = Some (target, seq))" by (rule m)
    also have "\<dots> \<longleftrightarrow> (\<exists>t. td s o' = Some t \<and> place_queued (tk_place t) = Some (Q_WAITING, 0, seq) \<and> waits_in s target o')"
    proof (intro ex_cong1 conj_cong refl)
      fix t assume t: "td s o' = Some t"
      have e: "entry_ok True t" using indexes_okD(5) [OF ok'(2) t] ok(2) by simp
      have "place_wait_key (tk_place t) = Some (target, seq) \<longleftrightarrow> in_waiting t \<and> wait_target t = Some target \<and> tp_seq (tk_place t) = seq"
        using e by (auto simp: entry_ok_def place_wait_key_def)
      moreover have "in_waiting t \<and> tp_seq (tk_place t) = seq \<longleftrightarrow> place_queued (tk_place t) = Some (Q_WAITING, 0, seq)"
        unfolding in_waiting_def using placed_strip(2) waiting_entries [OF ok'(1)] t by (metis prod.collapse snd_conv)
      ultimately show "place_wait_key (tk_place t) = Some (target, seq) \<longleftrightarrow>
          place_queued (tk_place t) = Some (Q_WAITING, 0, seq) \<and> waits_in s target o'"
        using t by (auto simp: waits_in_def waits_for_target)
    qed
    finally show ?thesis using waiting_seq_entries [OF ok'(1)] by simp
  qed
  then have "by_seq ?q = by_seq ?w" by (intro sd_unique inv waiting_by_seq ok'(1)) auto
  then have "map snd ?q = map snd ?w" by (metis map_snd_by_seq)
  then show ?thesis using takeWhile_target [OF indexes_okD(2) [OF ok'(2)]]
    by (simp add: found_waiting_def queue_tasks_def filter_map comp_def case_prod_unfold)
qed

lemma waiting_tasks:
  assumes "queues_ok s" "o' \<in> set (queue_tasks Q_WAITING s)"
  shows "\<exists>t. td s o' = Some t \<and> in_waiting t"
  using assms waiting_entries(1) [OF assms(1)] by (force simp: queue_tasks_def in_waiting_def)

theorem waiting_for_found:
  assumes ok: "sched_ok s"
  shows "\<exists>n. waiting_for target all s = Some (add_walked n s,
    if all then found_waiting target s else take 1 (found_waiting target s))"
proof (cases "ts_indexed (ts s)")
  case True
  then show ?thesis using waiters_found [OF ok True, of target] by (auto simp: waiting_for_def Let_def)
next
  case False
  have "\<forall>o' \<in> set (queue_tasks Q_WAITING s). td s o' \<noteq> None"
    using waiting_tasks [of s] ok by (auto simp: sched_ok_def)
  from walk_waiting_found [OF this, of target all] False show ?thesis by (auto simp: waiting_for_def found_waiting_def)
qed

theorem first_waiting_for_found:
  assumes ok: "sched_ok s"
  shows "\<exists>n. first_waiting_for target s = Some (add_walked n s,
    case found_waiting target s of [] \<Rightarrow> None | o' # _ \<Rightarrow> Some o')"
proof (cases "ts_indexed (ts s)")
  case True
  have z: "add_walked 0 s = s" by (simp add: add_walked_def ts_mod_def mc_mod_def)
  show ?thesis
  proof (cases "sd_iter_from (ts_waiters (ts s)) (target, 0)")
    case Nil
    then show ?thesis using waiters_found [OF ok True, of target] True z by (auto simp: first_waiting_for_def intro!: exI [of _ 0])
  next
    case (Cons e q)
    show ?thesis
    proof (cases "fst (fst e) = target")
      case f: True
      have "found_waiting target s = map snd (takeWhile (\<lambda>(k, _). fst k = target) (e # q))"
        using waiters_found [OF ok True, of target] Cons by simp
      with f show ?thesis using True Cons by (auto simp: first_waiting_for_def case_prod_unfold)
    next
      case False
      then show ?thesis using waiters_found [OF ok True, of target] True Cons z
        by (auto simp: first_waiting_for_def case_prod_unfold intro!: exI [of _ 0])
    qed
  qed
next
  case False
  have "\<forall>o' \<in> set (queue_tasks Q_WAITING s). td s o' \<noteq> None"
    using waiting_tasks [of s] ok by (auto simp: sched_ok_def)
  from walk_waiting_found [OF this, of target False] False show ?thesis
    by (auto simp: first_waiting_for_def found_waiting_def split: list.split)
qed

end
