(* ===== verification/TaskSleep.thy ===== *)
theory TaskSleep
  imports TaskWake
begin

text \<open>
  Waking the sleepers: with or without the index, \<open>wake_sleepers\<close> makes the due tasks ready in the order they
  began to wait and finds the next deadline; it refines the walk of the reference scheduler.
\<close>

section \<open>Taking sleepers out of their index beforehand changes nothing\<close>

definition unsleep :: "obj_id \<Rightarrow> 'x tvm \<Rightarrow> 'x tvm" where
  "unsleep o' s = (case td s o' of None \<Rightarrow> s
    | Some t \<Rightarrow> td_put o' (t\<lparr>tk_place := place_unsleep (tk_place t)\<rparr>) (sleepers_remove (place_sleep_key (tk_place t)) s))"

definition placed_tasks :: "obj_id set \<Rightarrow> 'x tvm \<Rightarrow> bool" where
  "placed_tasks D s \<longleftrightarrow> length (ts_queues (ts s)) = 4 \<and> sd_inv (ts_sleepers (ts s)) \<and>
     (\<forall>o' \<in> D. \<exists>t q key. td s o' = Some t \<and> place_queued (tk_place t) = Some (q, key) \<and> q < 4)"

definition wake_ts :: "obj_id \<Rightarrow> task_data \<Rightarrow> nat \<Rightarrow> u8 \<times> u64 \<Rightarrow> task_place \<Rightarrow> task_state \<Rightarrow> task_state" where
  "wake_ts o' t q key pl x = enter_ts o' (wake t) (leave_ts q key pl x)"

lemma leave_ts_fields [simp]:
  "ts_seq (leave_ts q key pl x) = ts_seq x" "length (ts_queues (leave_ts q key pl x)) = length (ts_queues x)"
  "ts_sleepers (leave_ts q key pl x) = sd_del (ts_sleepers x) (place_sleep_key pl)" "ts_switching (leave_ts q key pl x) = ts_switching x"
  by (simp_all add: leave_ts_def Let_def)

lemma q_of_wake [simp]: "q_of (tk_status (wake t)) = Q_READY" "tk_priority (wake t) = tk_priority t"
  by (simp_all add: wake_def q_of_def)

lemma ready_waiting [simp]: "Q_READY \<noteq> Q_WAITING"
  by (simp add: queue_ids)

lemma wake_place [simp]: "wake (t\<lparr>tk_place := p\<rparr>) = (wake t)\<lparr>tk_place := p\<rparr>"
  by (simp add: wake_def)

lemma requeue_wake_eq:
  assumes "length (ts_queues (ts s)) = 4" "td s o' = Some t" "place_queued (tk_place t) = Some (q, key)" "q < 4"
  shows "requeue o' True wake s =
    Some (td_put o' ((wake t)\<lparr>tk_place := place_set Q_READY (tk_priority t, ts_seq (ts s)) None None\<rparr>)
      (ts_mod (wake_ts o' t q key (tk_place t)) s))"
proof -
  let ?t = "(wake t)\<lparr>tk_place := place_none\<rparr>"
  have l: "leave (tk_place t) (td_put o' ?t s) = Some (ts_mod (leave_ts q key (tk_place t)) (td_put o' ?t s))"
    using assms by (intro leave_queued) simp_all
  have t: "td (ts_mod (leave_ts q key (tk_place t)) (td_put o' ?t s)) o' = Some ?t"
    using td_put_td [OF assms(2)] by simp
  have "enter o' ?t (ts_mod (leave_ts q key (tk_place t)) (td_put o' ?t s)) = Some (entered o' ?t (ts_mod (leave_ts q key (tk_place t)) (td_put o' ?t s)))"
    using assms(1) by (subst enter_eq [OF _ t]) (simp_all add: Let_def)
  moreover have "enter_ts o' ?t = enter_ts o' (wake t)" "enter_key ?t = enter_key (wake t)" by (simp_all add: enter_ts_def enter_key_def fun_eq_iff)
  ultimately show ?thesis using assms(2) l
    by (simp add: requeue_def Let_def entered_def td_put_ts_mod enter_key_def ts_mod_mod wake_ts_def [abs_def])
qed

lemma sd_del_commute:
  assumes "sd_inv q"
  shows "sd_del (sd_del q k) j = sd_del (sd_del q j) k"
proof (rule sd_unique)
  note i = sd_del_inv [OF assms]
  show "sd_inv (sd_del (sd_del q k) j)" "sd_inv (sd_del (sd_del q j) k)" by (rule sd_del_inv(1) [OF i(1)])+
  then have "set r = {(x, y). map_of r x = Some y}" if "r \<in> {sd_del (sd_del q k) j, sd_del (sd_del q j) k}" for r
    using that map_of_eq_Some_iff [OF sd_distinct] by fastforce
  moreover have "map_of (sd_del (sd_del q k) j) = map_of (sd_del (sd_del q j) k)"
    unfolding sd_del_inv(2) [OF i(1)] i(2) by (auto split: option.splits)
  ultimately show "set (sd_del (sd_del q k) j) = set (sd_del (sd_del q j) k)" by simp
qed

lemma sleepers_remove_eq: "sleepers_remove k s = ts_mod (\<lambda>x. x\<lparr>ts_sleepers := sd_del (ts_sleepers x) k\<rparr>) s"
  by (cases k) (simp_all add: sleepers_remove_def sd_del_def ts_mod_same)

lemma unsleep_eq:
  "td s o' = Some t \<Longrightarrow> unsleep o' s = td_put o' (t\<lparr>tk_place := place_unsleep (tk_place t)\<rparr>)
     (ts_mod (\<lambda>x. x\<lparr>ts_sleepers := sd_del (ts_sleepers x) (place_sleep_key (tk_place t))\<rparr>) s)"
  by (simp add: unsleep_def sleepers_remove_eq)

lemma td_unsleep:
  "td s o' = Some t \<Longrightarrow> td (unsleep o' s) = (td s)(o' \<mapsto> t\<lparr>tk_place := place_unsleep (tk_place t)\<rparr>)"
  by (simp add: unsleep_eq) (subst td_put_td, auto)

lemma placed_unsleep:
  assumes "placed_tasks D s" "td s o' = Some t"
  shows "placed_tasks D (unsleep o' s)"
proof -
  have "\<exists>t' q key. td (unsleep o' s) p = Some t' \<and> place_queued (tk_place t') = Some (q, key) \<and> q < 4" if p: "p \<in> D" for p
  proof -
    obtain u q key where "td s p = Some u" "place_queued (tk_place u) = Some (q, key)" "q < 4"
      using assms(1) p unfolding placed_tasks_def by blast
    then show ?thesis using assms(2) by (cases "p = o'") (auto simp: td_unsleep)
  qed
  moreover have "length (ts_queues (ts (unsleep o' s))) = 4" "sd_inv (ts_sleepers (ts (unsleep o' s)))"
    using assms sd_del_inv(1) by (auto simp: unsleep_eq placed_tasks_def)
  ultimately show ?thesis by (simp add: placed_tasks_def)
qed

lemma td_put_commute:
  assumes "o' \<noteq> p"
  shows "td_put o' t (td_put p u s) = td_put p u (td_put o' t s)"
proof -
  have "unat o' \<noteq> unat p" using assms word_unat_eq_iff by metis
  then show ?thesis by (simp add: td_put_def vm_update_def heap_update_def list_update_swap)
qed

lemma wake_unslept:
  assumes s: "placed_tasks D s" and o: "o' \<in> D"
  shows "requeue o' True wake (unsleep o' s) = requeue o' True wake s"
proof -
  obtain t q key where t: "td s o' = Some t" "place_queued (tk_place t) = Some (q, key)" "q < 4"
    using s o unfolding placed_tasks_def by blast
  have l: "length (ts_queues (ts s)) = 4" using s by (simp add: placed_tasks_def)
  let ?t = "t\<lparr>tk_place := place_unsleep (tk_place t)\<rparr>"
  have "td (unsleep o' s) o' = Some ?t" "length (ts_queues (ts (unsleep o' s))) = 4" "ts_seq (ts (unsleep o' s)) = ts_seq (ts s)"
    using t l by (simp_all add: td_unsleep) (simp_all add: unsleep_eq)
  moreover have "wake_ts o' ?t q key (place_unsleep (tk_place t)) (x\<lparr>ts_sleepers := sd_del (ts_sleepers x) (place_sleep_key (tk_place t))\<rparr>) =
      wake_ts o' t q key (tk_place t) x" for x
  proof -
    have "enter_ts o' ((wake t)\<lparr>tk_place := place_unsleep (tk_place t)\<rparr>) = enter_ts o' (wake t)"
      by (simp add: enter_ts_def enter_key_def fun_eq_iff)
    then show ?thesis by (simp add: wake_ts_def leave_ts_def sd_del_def Let_def)
  qed
  ultimately show ?thesis using requeue_wake_eq [OF l t]
    by (simp add: requeue_wake_eq [OF _ _ _ t(3)] t(2)) (simp add: unsleep_eq [OF t(1)] ts_mod_mod td_put_ts_mod)
qed

lemma wake_other_unslept:
  assumes s: "placed_tasks D s" and o: "o' \<in> D" "p \<noteq> o'" and p: "td s p = Some u"
  shows "requeue o' True wake (unsleep p s) = map_option (unsleep p) (requeue o' True wake s)"
proof -
  obtain t q key where t: "td s o' = Some t" "place_queued (tk_place t) = Some (q, key)" "q < 4"
    using s o unfolding placed_tasks_def by blast
  have l: "length (ts_queues (ts s)) = 4" and inv: "sd_inv (ts_sleepers (ts s))" using s by (simp_all add: placed_tasks_def)
  have "td (unsleep p s) o' = Some t" "length (ts_queues (ts (unsleep p s))) = 4" "ts_seq (ts (unsleep p s)) = ts_seq (ts s)"
    using t l p o(2) by (simp_all add: td_unsleep) (simp_all add: unsleep_eq)
  note r = requeue_wake_eq [OF this(2,1) t(2,3)] this(3)
  let ?X = "(wake t)\<lparr>tk_place := place_set Q_READY (tk_priority t, ts_seq (ts s)) None None\<rparr>"
  have tp: "td (td_put o' ?X (ts_mod (wake_ts o' t q key (tk_place t)) s)) p = Some u"
    using td_put_td [of "ts_mod (wake_ts o' t q key (tk_place t)) s" o'] t(1) p o(2) by simp
  have c: "wake_ts o' t q key (tk_place t) ((ts s)\<lparr>ts_sleepers := sd_del (ts_sleepers (ts s)) k\<rparr>) =
      (let x = wake_ts o' t q key (tk_place t) (ts s) in x\<lparr>ts_sleepers := sd_del (ts_sleepers x) k\<rparr>)" for k
    by (simp add: wake_ts_def leave_ts_def enter_ts_def enter_key_def Let_def sd_del_commute [OF inv, of k "place_sleep_key (tk_place t)"])
  let ?W = "wake_ts o' t q key (tk_place t)" and ?K = "\<lambda>x. x\<lparr>ts_sleepers := sd_del (ts_sleepers x) (place_sleep_key (tk_place u))\<rparr>"
  define y where "y = td_put o' ?X (td_put p (u\<lparr>tk_place := place_unsleep (tk_place u)\<rparr>) s)"
  have "td_put o' ?X (ts_mod ?W (unsleep p s)) = ts_mod (\<lambda>x. ?W (?K x)) y"
    by (simp add: unsleep_eq [OF p] td_put_ts_mod ts_mod_mod y_def)
  also have "\<dots> = ts_mod (\<lambda>x. ?K (?W x)) y" using c by (intro ts_mod_cong) (simp add: y_def Let_def)
  also have "\<dots> = unsleep p (td_put o' ?X (ts_mod ?W s))"
    unfolding unsleep_eq [OF tp] y_def by (simp add: td_put_ts_mod ts_mod_mod td_put_commute [OF o(2)])
  finally show ?thesis using r requeue_wake_eq [OF l t] by simp
qed

lemma unsleep_ts_mod:
  assumes "\<And>x k. f (x\<lparr>ts_sleepers := sd_del (ts_sleepers x) k\<rparr>) = (f x)\<lparr>ts_sleepers := sd_del (ts_sleepers (f x)) k\<rparr>"
  shows "unsleep o' (ts_mod f s) = ts_mod f (unsleep o' s)"
proof (cases "td s o'")
  case (Some t)
  then have "td (ts_mod f s) o' = Some t" by simp
  then show ?thesis using Some assms by (simp add: unsleep_eq td_put_ts_mod ts_mod_mod)
qed (simp add: unsleep_def)

lemma placed_requeue:
  assumes s: "placed_tasks D s" and o: "o' \<in> D" and r: "requeue o' True wake s = Some s'"
  shows "placed_tasks (D - {o'}) s'" "p \<noteq> o' \<Longrightarrow> td s' p = td s p"
    "ts_indexed (ts s) \<or> queue_at Q_WAITING s = [] \<Longrightarrow> ts_indexed (ts s') \<or> queue_at Q_WAITING s' = []"
    "ts_indexed (ts s') \<Longrightarrow> ts_indexed (ts s)"
proof -
  obtain t q key where t: "td s o' = Some t" "place_queued (tk_place t) = Some (q, key)" "q < 4"
    using s o unfolding placed_tasks_def by blast
  have l: "length (ts_queues (ts s)) = 4" and inv: "sd_inv (ts_sleepers (ts s))" using s by (simp_all add: placed_tasks_def)
  have s': "s' = td_put o' ((wake t)\<lparr>tk_place := place_set Q_READY (tk_priority t, ts_seq (ts s)) None None\<rparr>)
      (ts_mod (wake_ts o' t q key (tk_place t)) s)" using r requeue_wake_eq [OF l t] by simp
  have d: "td s' = (td s)(o' \<mapsto> (wake t)\<lparr>tk_place := place_set Q_READY (tk_priority t, ts_seq (ts s)) None None\<rparr>)"
    unfolding s' using td_put_td [of "ts_mod (wake_ts o' t q key (tk_place t)) s"] t(1) by simp
  then show "p \<noteq> o' \<Longrightarrow> td s' p = td s p" by simp
  have "length (ts_queues (ts s')) = 4" "sd_inv (ts_sleepers (ts s'))"
    using l sd_del_inv(1) [OF inv] by (simp_all add: s' wake_ts_def) (simp add: enter_ts_def Let_def)
  then show "placed_tasks (D - {o'}) s'" using s unfolding placed_tasks_def d by auto
  show "ts_indexed (ts s') \<Longrightarrow> ts_indexed (ts s)" by (simp add: s' wake_ts_def leave_ts_def Let_def)
  show "ts_indexed (ts s') \<or> queue_at Q_WAITING s' = []" if "ts_indexed (ts s) \<or> queue_at Q_WAITING s = []"
  proof -
    have "queue_at Q_WAITING s' = (if q = Q_WAITING then fst (sd_remove (queue_at Q_WAITING s) key) else queue_at Q_WAITING s)"
      using l t(3) by (simp add: s' wake_ts_def enter_ts_def Let_def leave_ts_def queue_at_def nth_list_update queue_ids)
    moreover have "ts_indexed (ts s') \<longleftrightarrow> ts_indexed (ts s) \<and> \<not> (q = Q_WAITING \<and> ts_index_from (ts s) > 0 \<and>
        fst (sd_remove (queue_at q s) key) = [])"
      by (simp add: s' wake_ts_def leave_ts_def Let_def queue_at_def)
    moreover have "fst (sd_remove ([] :: task_queue) key) = []" by (simp add: sd_remove_def binary_search_def Let_def)
    ultimately show ?thesis using that by auto
  qed
qed

lemma placed_switching [simp]: "placed_tasks D (ts_mod (\<lambda>x. x\<lparr>ts_switching := True\<rparr>) s) = placed_tasks D s"
  by (simp add: placed_tasks_def)

lemma wake_all_unslept:
  assumes "placed_tasks (snd ` set es) s" "distinct (map snd es)" "o' \<in> snd ` set es"
  shows "wake_all es (unsleep o' s) = wake_all es s"
  using assms
proof (induction es arbitrary: s)
  case (Cons e es)
  obtain x p where e: "e = (x, p)" by (cases e)
  let ?sw = "\<lambda>x. x\<lparr>ts_switching := True\<rparr>"
  show ?case
  proof (cases "p = o'")
    case True
    have "requeue o' True wake (unsleep o' s) = requeue o' True wake s"
      by (rule wake_unslept [OF Cons.prems(1)]) (simp add: e True)
    then show ?thesis by (simp add: e True)
  next
    case False
    then have o: "o' \<in> snd ` set es" using Cons.prems(3) e by auto
    obtain u where u: "td s o' = Some u" using Cons.prems(1,3) unfolding placed_tasks_def by blast
    obtain t q key where t: "td s p = Some t" "place_queued (tk_place t) = Some (q, key)" "q < 4"
      using Cons.prems(1) e unfolding placed_tasks_def by force
    have "length (ts_queues (ts s)) = 4" using Cons.prems(1) by (simp add: placed_tasks_def)
    from requeue_wake_eq [OF this t] obtain s1 where s1: "requeue p True wake s = Some s1" by blast
    have "requeue p True wake (unsleep o' s) = Some (unsleep o' s1)"
      using wake_other_unslept [OF Cons.prems(1) _ _ u, of p] False s1 e by simp
    moreover have "ts_mod ?sw (unsleep o' s1) = unsleep o' (ts_mod ?sw s1)" by (rule unsleep_ts_mod [symmetric]) simp
    moreover have "placed_tasks (snd ` set es) (ts_mod ?sw s1)"
      using placed_requeue(1) [OF Cons.prems(1) _ s1] Cons.prems(2) e by (simp add: placed_tasks_def)
    ultimately show ?thesis using Cons.IH [OF _ _ o] Cons.prems(2) s1 by (simp add: e)
  qed
qed simp

fun unsleep_all :: "obj_id list \<Rightarrow> 'x tvm \<Rightarrow> 'x tvm" where
  "unsleep_all [] s = s"
| "unsleep_all (o' # os) s = unsleep_all os (unsleep o' s)"

lemma wake_all_unslept_all:
  assumes "placed_tasks (snd ` set es) s" "distinct (map snd es)" "set os \<subseteq> snd ` set es"
  shows "wake_all es (unsleep_all os s) = wake_all es s"
  using assms
proof (induction os arbitrary: s)
  case (Cons o' os)
  obtain u where u: "td s o' = Some u" using Cons.prems(1,3) unfolding placed_tasks_def by auto
  have "wake_all es (unsleep_all os (unsleep o' s)) = wake_all es (unsleep o' s)"
    using Cons.prems placed_unsleep [OF Cons.prems(1) u] by (intro Cons.IH) auto
  with wake_all_unslept [OF Cons.prems(1,2)] Cons.prems(3) show ?case by simp
qed simp

end
