(* ===== verification/TaskTick.thy ===== *)
theory TaskTick
  imports TaskSleep
begin

text \<open>
  The tick: \<open>wake_sleepers\<close> and \<open>advance_ticks\<close> as operations of the reference scheduler.
\<close>

section \<open>The reference\<close>

definition due_at :: "u32 \<Rightarrow> task_data \<Rightarrow> bool" where
  "due_at now t \<longleftrightarrow> has_deadline t \<and> sint (tk_wakeup_tick t - now) \<le> 0"

definition ref_due :: "sched \<Rightarrow> obj_id \<Rightarrow> bool" where
  "ref_due v o' = (case sc_tasks v o' of None \<Rightarrow> False | Some t \<Rightarrow> due_at (sc_tick v) t)"

definition ref_waiting :: "sched \<Rightarrow> obj_id list" where
  "ref_waiting v = map snd (sc_queues v ! Q_WAITING)"

fun next_deadline :: "u32 \<Rightarrow> task_data list \<Rightarrow> u32 \<Rightarrow> u32" where
  "next_deadline now [] nxt = nxt"
| "next_deadline now (t # us) nxt =
     (if \<not> has_deadline t \<or> due_at now t then next_deadline now us nxt
      else if nxt = NEVER \<or> sint (tk_wakeup_tick t - nxt) < 0 then next_deadline now us (tk_wakeup_tick t)
      else next_deadline now us nxt)"

definition ref_wake_one :: "obj_id \<Rightarrow> sched \<Rightarrow> sched" where
  "ref_wake_one o' v = (case sc_tasks v o' of
      None \<Rightarrow> v
    | Some t \<Rightarrow> (ref_requeue o' (wake (t\<lparr>tk_place := place_none\<rparr>)) v)\<lparr>sc_switching := True\<rparr>)"

definition ref_wake_sleepers :: "sched \<Rightarrow> sched" where
  "ref_wake_sleepers v =
     (if sc_wakeup v = NEVER \<or> sint (sc_wakeup v - sc_tick v) > 0 then v
      else (fold ref_wake_one (filter (ref_due v) (ref_waiting v)) v)
        \<lparr>sc_wakeup := next_deadline (sc_tick v) (List.map_filter (sc_tasks v) (ref_waiting v)) NEVER\<rparr>)"

section \<open>Waking a list of tasks\<close>

lemma view_ts_mod:
  assumes "ts_queues (f (ts s)) = ts_queues (ts s)" "ts_seq (f (ts s)) = ts_seq (ts s)" "ts_tick (f (ts s)) = ts_tick (ts s)"
  shows "view (ts_mod f s) = (view s)\<lparr>sc_wakeup := ts_wakeup_tick (f (ts s)), sc_switching := ts_switching (f (ts s))\<rparr>"
  using assms by (simp add: view_def)

lemma settled_ts_mod:
  assumes "settled s" "ts_queues (f (ts s)) = ts_queues (ts s)" "ts_seq (f (ts s)) = ts_seq (ts s)"
    "ts_sleepers (f (ts s)) = ts_sleepers (ts s)" "ts_waiters (f (ts s)) = ts_waiters (ts s)" "ts_due (f (ts s)) = ts_due (ts s)"
    "ts_indexed (f (ts s)) = ts_indexed (ts s)" "ts_tick (f (ts s)) = ts_tick (ts s)" "ts_tick_abs (f (ts s)) = ts_tick_abs (ts s)"
    "ts_tick_seen (f (ts s)) = ts_tick_seen (ts s)"
  shows "settled (ts_mod f s)"
proof -
  have "clock_ok s" using assms(1) by (simp add: settled_def sched_ok_def)
  then have "clock_ok (ts_mod f s)" by (rule clock_okI) (simp_all add: assms)
  then show ?thesis using assms unfolding settled_def sched_ok_def queues_ok_def indexes_ok_def young_def now_abs_def
    by (simp add: queue_at_def)
qed

lemma settled_placed:
  assumes "settled s" "\<And>o'. o' \<in> D \<Longrightarrow> \<exists>t. td s o' = Some t \<and> place_queued (tk_place t) \<noteq> None"
  shows "placed_tasks D s"
proof -
  have ok: "queues_ok s" "indexes_ok s" using assms(1) by (simp_all add: settled_def sched_ok_def)
  have "\<exists>t q key. td s o' = Some t \<and> place_queued (tk_place t) = Some (q, key) \<and> q < 4" if o: "o' \<in> D" for o'
  proof -
    obtain t k where t: "td s o' = Some t" "place_queued (tk_place t) = Some k" using assms(2) [OF o] by (auto simp: not_None_eq)
    obtain q pri seq where k: "k = (q, pri, seq)" by (metis prod.collapse)
    from queues_okD(4) [OF ok(1) t(1)] t k show ?thesis by blast
  qed
  then show ?thesis using queues_okD(1) [OF ok(1)] indexes_okD(1) [OF ok(2)] by (simp add: placed_tasks_def)
qed

lemma wake_all_refines:
  assumes "settled s" "room (length es) s" "distinct (map snd es)"
    "\<And>o'. o' \<in> snd ` set es \<Longrightarrow> \<exists>t. td s o' = Some t \<and> place_queued (tk_place t) \<noteq> None"
  shows "\<exists>s'. wake_all es s = Some s' \<and> settled s' \<and> view s' = fold ref_wake_one (map snd es) (view s) \<and> rest s' = rest s \<and>
    now_abs (ts s') = now_abs (ts s) \<and>
    (ts_indexed (ts s) \<or> queue_at Q_WAITING s = [] \<longrightarrow> ts_indexed (ts s') \<or> queue_at Q_WAITING s' = []) \<and>
    (ts_indexed (ts s') \<longrightarrow> ts_indexed (ts s))"
  using assms
proof (induction es arbitrary: s)
  case (Cons e es)
  obtain x p where e: "e = (x, p)" by (cases e)
  obtain t where t: "td s p = Some t" using Cons.prems(4) [of p] e by auto
  let ?t = "wake (t\<lparr>tk_place := place_none\<rparr>)"
  have r: "room (Suc (length es)) s" using Cons.prems(2) by simp
  have f: "tk_place ?t = place_none" and w: "may_wait s ?t" by (simp_all add: may_wait_def)
  obtain s1 where s1: "requeue p True wake s = Some s1" "settled s1" "view s1 = ref_requeue p ?t (view s)" "rest s1 = rest s"
    "now_abs (ts s1) = now_abs (ts s)"
    by (rule refinesE [OF requeue_refines(1) [where f = wake, OF Cons.prems(1) t f r w]])
  have r1: "room (length es) s1" using requeue_refines(2) [where f = wake, OF Cons.prems(1) t f r w] s1(1) by auto
  have pl: "placed_tasks (snd ` set (e # es)) s" by (rule settled_placed [OF Cons.prems(1,4)])
  note pr = placed_requeue [OF pl _ s1(1)]
  let ?s = "ts_mod (\<lambda>x. x\<lparr>ts_switching := True\<rparr>) s1"
  have v: "view ?s = ref_wake_one p (view s)"
  proof -
    have "sc_tasks (view s) p = Some (strip t)" using t by (simp add: view_def)
    moreover have "view ?s = (view s1)\<lparr>sc_switching := True\<rparr>" by (subst view_ts_mod) (simp_all add: view_def)
    moreover have "(strip t)\<lparr>tk_place := place_none\<rparr> = t\<lparr>tk_place := place_none\<rparr>" by (simp add: strip_def)
    ultimately show ?thesis by (simp add: ref_wake_one_def s1(3) del: wake_place)
  qed
  have "\<exists>s'. wake_all es ?s = Some s' \<and> settled s' \<and> view s' = fold ref_wake_one (map snd es) (view ?s) \<and> rest s' = rest ?s \<and>
    now_abs (ts s') = now_abs (ts ?s) \<and>
    (ts_indexed (ts ?s) \<or> queue_at Q_WAITING ?s = [] \<longrightarrow> ts_indexed (ts s') \<or> queue_at Q_WAITING s' = []) \<and>
    (ts_indexed (ts s') \<longrightarrow> ts_indexed (ts ?s))"
  proof (rule Cons.IH)
    show "settled ?s" by (rule settled_ts_mod [OF s1(2)]) simp_all
    show "room (length es) ?s" using r1 by (simp add: room_def)
    show "distinct (map snd es)" using Cons.prems(3) by simp
    fix o' assume o: "o' \<in> snd ` set es"
    then have "o' \<noteq> p" using Cons.prems(3) e by auto
    with pr(2) Cons.prems(4) [of o'] o e show "\<exists>t. td ?s o' = Some t \<and> place_queued (tk_place t) \<noteq> None" by simp
  qed
  then obtain s' where s': "wake_all es ?s = Some s'" "settled s'" "view s' = fold ref_wake_one (map snd es) (view ?s)"
    "rest s' = rest ?s" "now_abs (ts s') = now_abs (ts ?s)"
    "ts_indexed (ts s1) \<or> queue_at Q_WAITING s1 = [] \<longrightarrow> ts_indexed (ts s') \<or> queue_at Q_WAITING s' = []"
    "ts_indexed (ts s') \<longrightarrow> ts_indexed (ts s1)"
    by (auto simp: queue_at_def)
  moreover have "rest ?s = rest s" using s1(4) by (simp add: rest_ts_mod plain_ts_def)
  moreover have "now_abs (ts ?s) = now_abs (ts s)" using s1(5) by (simp add: now_abs_def)
  moreover have "ts_indexed (ts s) \<or> queue_at Q_WAITING s = [] \<longrightarrow> ts_indexed (ts s1) \<or> queue_at Q_WAITING s1 = []"
    "ts_indexed (ts s1) \<longrightarrow> ts_indexed (ts s)" using pr(3,4) e by simp_all
  ultimately show ?case using s1(1) v by (auto simp: e)
qed simp

section \<open>The two searches find the same sleepers\<close>

lemma walk_due_eq:
  assumes "\<forall>o' \<in> snd ` set es. td s o' \<noteq> None"
  shows "walk_due now es due nxt s =
    Some (due @ by_seq (filter (\<lambda>(_, o'). case td s o' of None \<Rightarrow> False | Some t \<Rightarrow> due_at now t) es),
          next_deadline now (List.map_filter (td s) (map snd es)) nxt)"
  using assms
proof (induction es arbitrary: due nxt)
  case (Cons e es)
  obtain c seq o' t where e: "e = ((c, seq), o')" "td s o' = Some t"
    using Cons.prems by (metis image_insert insertI1 list.set(2) not_None_eq prod.collapse snd_conv)
  have IH: "walk_due now es d n s =
    Some (d @ by_seq (filter (\<lambda>(_, o'). case td s o' of None \<Rightarrow> False | Some t \<Rightarrow> due_at now t) es),
          next_deadline now (List.map_filter (td s) (map snd es)) n)" for d n
    using Cons by simp
  show ?case by (simp add: e IH due_at_def by_seq_def List.map_filter_simps)
qed (simp add: by_seq_def List.map_filter_simps)

lemma take_due_eq:
  assumes "\<forall>(k, o') \<in> set q. \<exists>t. td s o' = Some t \<and> place_sleep_key (tk_place t) = Some k" "distinct (map snd q)"
  shows "take_due now q due s =
    Some (unsleep_all (map snd (takeWhile (\<lambda>(k, _). fst k \<le> now) q)) s,
          due @ by_seq (takeWhile (\<lambda>(k, _). fst k \<le> now) q))"
  using assms
proof (induction q arbitrary: due s)
  case (Cons e q)
  obtain d seq o' where e1: "e = ((d, seq), o')" by (metis prod.collapse)
  then obtain t where e: "e = ((d, seq), o')" "td s o' = Some t" "place_sleep_key (tk_place t) = Some (d, seq)"
    using Cons.prems(1) by auto
  have "\<forall>(k, p) \<in> set q. \<exists>t. td (unsleep o' s) p = Some t \<and> place_sleep_key (tk_place t) = Some k"
  proof
    fix x assume x: "x \<in> set q"
    then have "snd x \<noteq> o'" using Cons.prems(2) e(1) by auto
    moreover have "case x of (k, p) \<Rightarrow> \<exists>t. td s p = Some t \<and> place_sleep_key (tk_place t) = Some k"
      using Cons.prems(1) x by simp
    ultimately show "case x of (k, p) \<Rightarrow> \<exists>t. td (unsleep o' s) p = Some t \<and> place_sleep_key (tk_place t) = Some k"
      using e(2) by (auto simp: td_unsleep)
  qed
  then have IH: "take_due now q (due @ [(seq, o')]) (unsleep o' s) =
    Some (unsleep_all (map snd (takeWhile (\<lambda>(k, _). fst k \<le> now) q)) (unsleep o' s),
          (due @ [(seq, o')]) @ by_seq (takeWhile (\<lambda>(k, _). fst k \<le> now) q))"
    using Cons.prems(2) by (intro Cons.IH) simp_all
  have "td_mod o' (\<lambda>t. t\<lparr>tk_place := place_unsleep (tk_place t)\<rparr>) (sleepers_remove (Some (d, seq)) s) = Some (unsleep o' s)"
    using e by (simp add: td_mod_def sleepers_remove_eq unsleep_eq)
  then show ?case using IH by (simp add: e(1) by_seq_def linorder_not_less)
qed (simp add: by_seq_def)

lemma takeWhile_due:
  assumes "sd_inv q"
  shows "takeWhile (\<lambda>(k, _). fst k \<le> now) q = filter (\<lambda>(k, _). fst k \<le> now) (q :: ((u64 \<times> u64) \<times> obj_id) list)"
  using assms
proof (induction q)
  case (Cons e q)
  have "fst (fst e) \<le> fst (fst x)" if "x \<in> set q" for x
    using Cons.prems that unfolding sd_inv_Cons by (cases "fst e"; cases "fst x") (force simp: less_prod_def')
  then have "filter (\<lambda>(k, _). fst k \<le> now) q = []" if "\<not> fst (fst e) \<le> now"
    using that by (force simp: filter_empty_conv)
  with Cons show ?case by (auto simp: sd_inv_Cons case_prod_unfold)
qed simp

lemma sd_inv_sort:
  assumes "sd_inv q" "set p = set q" "distinct p"
  shows "sort_key fst p = q"
proof (rule sd_unique [OF _ assms(1)])
  have "inj_on fst (set p)" using sd_distinct [OF assms(1)] assms(2) by (simp add: distinct_map)
  then have "distinct (map fst (sort_key fst p))" using assms(3) by (simp add: distinct_map)
  then show "sd_inv (sort_key fst p)" by (simp add: sd_inv_def strict_sorted_iff)
qed (simp add: assms(2))

lemma distinct_owners:
  assumes "sd_inv q" "\<And>k o'. (k, o') \<in> set q \<Longrightarrow> \<exists>t. td s o' = Some t \<and> f t = Some k"
  shows "distinct (map snd q)"
proof -
  have "inj_on snd (set q)"
  proof (rule inj_onI)
    fix x y assume a: "x \<in> set q" "y \<in> set q" "snd x = snd y"
    have m: "(fst x, snd x) \<in> set q" using a(1) by simp
    have m': "(fst y, snd x) \<in> set q" unfolding a(3) using a(2) by simp
    from assms(2) [OF m] assms(2) [OF m'] have "fst x = fst y" by auto
    with a(3) show "x = y" by (simp add: prod_eq_iff)
  qed
  moreover have "distinct q" using sd_distinct [OF assms(1)] by (simp add: distinct_map)
  ultimately show ?thesis by (simp add: distinct_map)
qed

definition due_entries :: "'x tvm \<Rightarrow> (u64 \<times> obj_id) list" where
  "due_entries s = by_seq (filter (\<lambda>(_, o'). case td s o' of None \<Rightarrow> False | Some t \<Rightarrow> due_at (ts_tick (ts s)) t) (queue_at Q_WAITING s))"

lemma sleepers_due:
  assumes ok: "settled s" "ts_indexed (ts s)" and now: "uint now = now_abs (ts s)"
  shows "sort_key fst (by_seq (takeWhile (\<lambda>(k, _). fst k \<le> now) (ts_sleepers (ts s)))) = due_entries s"
    "distinct (map snd (ts_sleepers (ts s)))"
    "\<forall>(k, o') \<in> set (ts_sleepers (ts s)). \<exists>t. td s o' = Some t \<and> place_sleep_key (tk_place t) = Some k"
proof -
  have ok': "queues_ok s" "indexes_ok s" "clock_ok s" using ok(1) by (simp_all add: settled_def sched_ok_def)
  let ?q = "ts_sleepers (ts s)"
  note inv = indexes_okD(1) [OF ok'(2)]
  have m: "(k, o') \<in> set ?q \<longleftrightarrow> (\<exists>t. td s o' = Some t \<and> place_sleep_key (tk_place t) = Some k)" for k o'
    using indexes_okD(3) [OF ok'(2), of k o'] map_of_eq_Some_iff [OF sd_distinct [OF inv]] by simp
  then show "\<forall>(k, o') \<in> set ?q. \<exists>t. td s o' = Some t \<and> place_sleep_key (tk_place t) = Some k" by auto
  show d: "distinct (map snd ?q)" by (rule distinct_owners [where s = s and f = "\<lambda>t. place_sleep_key (tk_place t)", OF inv]) (use m in blast)
  have eq: "(seq, o') \<in> set (by_seq (takeWhile (\<lambda>(k, _). fst k \<le> now) ?q)) \<longleftrightarrow> (seq, o') \<in> set (due_entries s)" for seq o'
  proof -
    have "(seq, o') \<in> set (by_seq (takeWhile (\<lambda>(k, _). fst k \<le> now) ?q)) \<longleftrightarrow> (\<exists>d. ((d, seq), o') \<in> set ?q \<and> d \<le> now)"
      unfolding takeWhile_due [OF inv] by (force simp: by_seq_def)
    also have "\<dots> \<longleftrightarrow> (\<exists>t. td s o' = Some t \<and> (\<exists>d. place_sleep_key (tk_place t) = Some (d, seq) \<and> d \<le> now))"
      by (auto simp: m)
    also have "\<dots> \<longleftrightarrow> (\<exists>t. td s o' = Some t \<and> place_queued (tk_place t) = Some (Q_WAITING, 0, seq) \<and> due_at (ts_tick (ts s)) t)"
    proof (intro ex_cong1 conj_cong refl)
      fix t assume t: "td s o' = Some t"
      have e: "place_sleep_key (tk_place t) \<noteq> None \<longleftrightarrow> in_waiting t \<and> has_deadline t"
        using indexes_okD(5) [OF ok'(2) t] ok(2) by (simp add: entry_ok_def)
      have w: "in_waiting t \<and> tp_seq (tk_place t) = seq \<longleftrightarrow> place_queued (tk_place t) = Some (Q_WAITING, 0, seq)"
        unfolding in_waiting_def using placed_strip(2) waiting_entries [OF ok'(1)] t by (metis prod.collapse snd_conv)
      have k: "d \<le> now \<longleftrightarrow> sint (tk_wakeup_tick t - ts_tick (ts s)) \<le> 0" "q = tp_seq (tk_place t)"
        if "place_sleep_key (tk_place t) = Some (d, q)" for d q
      proof -
        have "uint d = now_abs (ts s) + ahead (ts s) (tk_wakeup_tick t)" using ok'(3) t that unfolding clock_ok_def by blast
        then show "d \<le> now \<longleftrightarrow> sint (tk_wakeup_tick t - ts_tick (ts s)) \<le> 0" by (simp add: word_le_def now ahead_def)
        show "q = tp_seq (tk_place t)" using that by (auto simp: place_sleep_key_def split: if_splits)
      qed
      show "(\<exists>d. place_sleep_key (tk_place t) = Some (d, seq) \<and> d \<le> now) \<longleftrightarrow>
          place_queued (tk_place t) = Some (Q_WAITING, 0, seq) \<and> due_at (ts_tick (ts s)) t"
      proof
        assume "\<exists>d. place_sleep_key (tk_place t) = Some (d, seq) \<and> d \<le> now"
        with e w k show "place_queued (tk_place t) = Some (Q_WAITING, 0, seq) \<and> due_at (ts_tick (ts s)) t"
          unfolding due_at_def by (metis option.distinct(1))
      next
        assume a: "place_queued (tk_place t) = Some (Q_WAITING, 0, seq) \<and> due_at (ts_tick (ts s)) t"
        then have "in_waiting t" "has_deadline t" "tp_seq (tk_place t) = seq" using w by (auto simp: due_at_def)
        with e obtain d q where "place_sleep_key (tk_place t) = Some (d, q)" by (metis not_None_eq prod.collapse)
        with k [OF this] a \<open>tp_seq (tk_place t) = seq\<close> show "\<exists>d. place_sleep_key (tk_place t) = Some (d, seq) \<and> d \<le> now"
          by (auto simp: due_at_def)
      qed
    qed
    also have "\<dots> \<longleftrightarrow> (seq, o') \<in> set (due_entries s)"
      unfolding due_entries_def waiting_seq_entries [OF ok'(1)] by auto
    finally show ?thesis .
  qed
  show "sort_key fst (by_seq (takeWhile (\<lambda>(k, _). fst k \<le> now) ?q)) = due_entries s"
  proof (rule sd_inv_sort)
    show "sd_inv (due_entries s)" unfolding due_entries_def by (rule waiting_by_seq [OF ok'(1)])
    show "set (by_seq (takeWhile (\<lambda>(k, _). fst k \<le> now) ?q)) = set (due_entries s)" using eq by auto
    have "distinct (map snd (takeWhile (\<lambda>(k, _). fst k \<le> now) ?q))"
      unfolding takeWhile_due [OF inv] using d by (rule distinct_map_filter)
    then have "distinct (map snd (by_seq (takeWhile (\<lambda>(k, _). fst k \<le> now) ?q)))" unfolding map_snd_by_seq .
    then show "distinct (by_seq (takeWhile (\<lambda>(k, _). fst k \<le> now) ?q))" by (simp add: distinct_map)
  qed
qed

section \<open>The next deadline\<close>

lemma sint_diff:
  assumes "- (2 ^ 31) \<le> sint a - sint b" "sint a - sint b < 2 ^ 31"
  shows "sint (a - b :: u32) = sint a - sint b"
  using assms by (simp add: sint_word_ariths signed_take_bit_int_eq_self)

definition live_at :: "u32 \<Rightarrow> task_data \<Rightarrow> bool" where
  "live_at now t \<longleftrightarrow> has_deadline t \<and> \<not> due_at now t"

lemma next_deadline_least:
  assumes "nxt = NEVER \<or> 0 < sint (nxt - now)" "r = next_deadline now us nxt"
  shows "(if nxt = NEVER \<and> (\<forall>t \<in> set us. \<not> live_at now t) then r = NEVER
    else r \<noteq> NEVER \<and> (r = nxt \<or> (\<exists>t \<in> set us. live_at now t \<and> r = tk_wakeup_tick t)) \<and>
      (nxt \<noteq> NEVER \<longrightarrow> sint (r - now) \<le> sint (nxt - now)) \<and>
      (\<forall>t \<in> set us. live_at now t \<longrightarrow> sint (r - now) \<le> sint (tk_wakeup_tick t - now)))"
  using assms
proof (induction us arbitrary: nxt)
  case (Cons t us)
  have hd: "has_deadline t \<Longrightarrow> tk_wakeup_tick t \<noteq> NEVER" by (simp add: has_deadline_def)
  consider "\<not> live_at now t" | "live_at now t" "nxt = NEVER \<or> sint (tk_wakeup_tick t - nxt) < 0"
    | "live_at now t" "nxt \<noteq> NEVER" "\<not> sint (tk_wakeup_tick t - nxt) < 0" by blast
  then show ?case
  proof cases
    case 1
    then have "r = next_deadline now us nxt" using Cons.prems(2) by (auto simp: live_at_def)
    from Cons.IH [OF Cons.prems(1) this] 1 show ?thesis by auto
  next
    case 2
    have n: "tk_wakeup_tick t = NEVER \<or> 0 < sint (tk_wakeup_tick t - now)" "tk_wakeup_tick t \<noteq> NEVER"
      using 2(1) hd by (auto simp: live_at_def due_at_def)
    have lt: "nxt \<noteq> NEVER \<longrightarrow> sint (tk_wakeup_tick t - now) \<le> sint (nxt - now)"
    proof
      assume "nxt \<noteq> NEVER"
      with Cons.prems(1) 2 have a: "0 < sint (nxt - now)" "sint (tk_wakeup_tick t - nxt) < 0" by auto
      have "sint ((tk_wakeup_tick t - now) - (nxt - now)) = sint (tk_wakeup_tick t - now) - sint (nxt - now)"
        using n a(1) sint_lt [of "tk_wakeup_tick t - now"] sint_lt [of "nxt - now"] by (intro sint_diff) auto
      with a(2) show "sint (tk_wakeup_tick t - now) \<le> sint (nxt - now)" by simp
    qed
    have "r = next_deadline now us (tk_wakeup_tick t)" using Cons.prems(2) 2 by (auto simp: live_at_def)
    from Cons.IH [OF n(1) this] n(2) lt 2(1) show ?thesis by auto
  next
    case 3
    have n: "0 < sint (tk_wakeup_tick t - now)" "0 < sint (nxt - now)"
      using 3 hd Cons.prems(1) by (auto simp: live_at_def due_at_def)
    have "sint ((tk_wakeup_tick t - now) - (nxt - now)) = sint (tk_wakeup_tick t - now) - sint (nxt - now)"
      using n sint_lt [of "tk_wakeup_tick t - now"] sint_lt [of "nxt - now"] by (intro sint_diff) auto
    then have le: "sint (nxt - now) \<le> sint (tk_wakeup_tick t - now)" using 3(3) by simp
    have "r = next_deadline now us nxt" using Cons.prems(2) 3 by (auto simp: live_at_def)
    from Cons.IH [OF Cons.prems(1) this] 3(1,2) le show ?thesis by auto
  qed
qed auto

section \<open>The tasks a wake-up leaves\<close>

lemma fold_wake_tasks':
  assumes "distinct os" "\<forall>o' \<in> set os. sc_tasks v o' \<noteq> None"
  shows "if p \<in> set os then (\<exists>t key. sc_tasks (fold ref_wake_one os v) p = Some t \<and> tk_status t = READY \<and>
       place_queued (tk_place t) = Some (Q_READY, key)) else sc_tasks (fold ref_wake_one os v) p = sc_tasks v p"
  using assms
proof (induction os arbitrary: v)
  case (Cons o' os)
  obtain t where t: "sc_tasks v o' = Some t" using Cons.prems by (auto simp: not_None_eq)
  have v: "sc_tasks (ref_wake_one o' v) = (sc_tasks v)(o' \<mapsto> (wake t)\<lparr>tk_place := place_set Q_READY (tk_priority t, sc_seq v) None None\<rparr>)"
    using t by (simp add: ref_wake_one_def ref_requeue_def ref_enter_def ref_leave_def Let_def)
  have "\<forall>p \<in> set os. sc_tasks (ref_wake_one o' v) p \<noteq> None" using Cons.prems by (simp add: v)
  then have IH: "if p \<in> set os then (\<exists>t key. sc_tasks (fold ref_wake_one os (ref_wake_one o' v)) p = Some t \<and> tk_status t = READY \<and>
       place_queued (tk_place t) = Some (Q_READY, key))
     else sc_tasks (fold ref_wake_one os (ref_wake_one o' v)) p = sc_tasks (ref_wake_one o' v) p"
    using Cons.prems(1) by (intro Cons.IH) simp_all
  show ?case
  proof (cases "p = o'")
    case True
    then have "p \<notin> set os" using Cons.prems(1) by simp
    with IH True show ?thesis by (simp add: v) (simp add: wake_def queue_ids)
  next
    case False
    with IH show ?thesis by (auto simp: v split: if_splits)
  qed
qed simp

lemma fold_wake_tasks:
  assumes "distinct os" "\<forall>o' \<in> set os. sc_tasks v o' \<noteq> None"
  shows "p \<notin> set os \<Longrightarrow> sc_tasks (fold ref_wake_one os v) p = sc_tasks v p"
    "p \<in> set os \<Longrightarrow> \<exists>t key. sc_tasks (fold ref_wake_one os v) p = Some t \<and> tk_status t = READY \<and>
       place_queued (tk_place t) = Some (Q_READY, key)"
  using fold_wake_tasks' [OF assms, of p] by auto

lemma due_strip [simp]: "due_at now (strip t) = due_at now t" "has_deadline (strip t) = has_deadline t"
  "tk_wakeup_tick (strip t) = tk_wakeup_tick t"
  by (simp_all add: strip_def due_at_def has_deadline_def)

lemma next_deadline_strip: "next_deadline now (map strip us) nxt = next_deadline now us nxt"
  by (induction us arbitrary: nxt) simp_all

lemma map_filter_strip: "List.map_filter (\<lambda>p. map_option strip (td s p)) os = map strip (List.map_filter (td s) os)"
  by (induction os) (auto simp: List.map_filter_simps split: option.split)

lemma view_due:
  "filter (ref_due (view s)) (ref_waiting (view s)) = map snd (due_entries s)"
proof -
  have "ref_due (view s) = (\<lambda>o'. case td s o' of None \<Rightarrow> False | Some t \<Rightarrow> due_at (ts_tick (ts s)) t)"
    by (auto simp: fun_eq_iff ref_due_def view_def split: option.split)
  then show ?thesis
    by (simp add: due_entries_def map_snd_by_seq ref_waiting_def filter_map comp_def case_prod_unfold)
      (simp add: view_def queue_at_def)
qed

lemma view_next:
  "next_deadline (sc_tick (view s)) (List.map_filter (sc_tasks (view s)) (ref_waiting (view s))) NEVER =
    next_deadline (ts_tick (ts s)) (List.map_filter (td s) (queue_tasks Q_WAITING s)) NEVER"
  by (simp add: view_def ref_waiting_def map_filter_strip next_deadline_strip queue_tasks_def queue_at_def)

lemma unsleep_all_ts_mod:
  assumes "\<And>x k. f (x\<lparr>ts_sleepers := sd_del (ts_sleepers x) k\<rparr>) = (f x)\<lparr>ts_sleepers := sd_del (ts_sleepers (f x)) k\<rparr>"
  shows "unsleep_all os (ts_mod f s) = ts_mod f (unsleep_all os s)"
  by (induction os arbitrary: s) (simp_all add: unsleep_ts_mod [OF assms])

lemma map_filter_tasks:
  assumes "queues_ok s"
  shows "t \<in> set (List.map_filter (td s) (queue_tasks Q_WAITING s)) \<longleftrightarrow> (\<exists>o'. td s o' = Some t \<and> in_waiting t)"
  using in_waiting_iff [OF assms] by (force simp: List.map_filter_def)

text \<open>The deadline in front of the index is the one the walk computes.\<close>

lemma first_sleeper_next:
  assumes s: "settled s" and s2: "settled s2" and tick: "ts_tick (ts s2) = ts_tick (ts s)"
    and v: "view s2 = fold ref_wake_one (map snd (due_entries s)) (view s)"
    and i: "ts_indexed (ts s2) \<or> queue_at Q_WAITING s2 = []"
  shows "(if ts_indexed (ts s2)
      then (case sd_first (ts_sleepers (ts s2)) of Some (_, o') \<Rightarrow> map_option tk_wakeup_tick (td s2 o') | None \<Rightarrow> Some NEVER)
      else Some NEVER) =
    Some (next_deadline (ts_tick (ts s)) (List.map_filter (td s) (queue_tasks Q_WAITING s)) NEVER)" (is "?l = Some ?r")
proof -
  have ok: "queues_ok s" "queues_ok s2" "indexes_ok s2" "clock_ok s2" using s s2 by (simp_all add: settled_def sched_ok_def)
  let ?now = "ts_tick (ts s)" and ?us = "List.map_filter (td s) (queue_tasks Q_WAITING s)"
  have due: "o' \<in> snd ` set (due_entries s) \<longleftrightarrow> (\<exists>t. td s o' = Some t \<and> in_waiting t \<and> due_at ?now t)" for o'
  proof -
    have "o' \<in> snd ` set (due_entries s) \<longleftrightarrow> o' \<in> set (filter (ref_due (view s)) (ref_waiting (view s)))" by (simp add: view_due)
    also have "\<dots> \<longleftrightarrow> o' \<in> set (queue_tasks Q_WAITING s) \<and> ref_due (view s) o'"
      by (auto simp: ref_waiting_def view_def queue_tasks_def queue_at_def)
    finally show ?thesis using in_waiting_iff [OF ok(1)] by (auto simp: ref_due_def view_def split: option.splits)
  qed
  have dist: "distinct (map snd (due_entries s))"
    unfolding due_entries_def map_snd_by_seq
    by (rule distinct_map_filter, rule distinct_owners [where s = s and f = "\<lambda>t. map_option snd (place_queued (tk_place t))"])
      (use queues_okD(2) [OF ok(1), of Q_WAITING] waiting_entries(1) [OF ok(1)] in \<open>auto simp: queue_ids\<close>)
  have some: "\<forall>o' \<in> set (map snd (due_entries s)). sc_tasks (view s) o' \<noteq> None" using due by (auto simp: view_def)
  note fw = fold_wake_tasks [OF dist some, folded v]
  have left: "\<exists>t'. td s o' = Some t' \<and> strip t' = strip t \<and> \<not> due_at ?now t" if "td s2 o' = Some t" "in_waiting t" for o' t
  proof -
    have "o' \<notin> set (map snd (due_entries s))"
    proof
      assume "o' \<in> set (map snd (due_entries s))"
      from fw(2) [OF this] that show False by (auto simp: view_def in_waiting_def strip_def)
    qed
    from fw(1) [OF this] that(1) have "map_option strip (td s o') = Some (strip t)" by (simp add: view_def)
    then obtain t' where t': "td s o' = Some t'" "strip t' = strip t" by (cases "td s o'") auto
    with \<open>o' \<notin> _\<close> due [of o'] stripD [OF t'(2)] that(2) show ?thesis by (metis due_strip(1) set_map)
  qed
  have stay: "\<exists>t'. td s2 o' = Some t' \<and> strip t' = strip t" if "td s o' = Some t" "in_waiting t" "\<not> due_at ?now t" for o' t
  proof -
    have "o' \<notin> set (map snd (due_entries s))" using due [of o'] that by auto
    from fw(1) [OF this] that(1) show ?thesis by (cases "td s2 o'") (auto simp: view_def)
  qed
  note least = next_deadline_least [of NEVER ?now ?r ?us, OF disjI1 [OF refl] refl]
  show ?thesis
  proof (cases "\<exists>o' t. td s2 o' = Some t \<and> in_waiting t \<and> has_deadline t")
    case False
    have "\<not> live_at ?now t" if "t \<in> set ?us" for t
      using that stay False unfolding map_filter_tasks [OF ok(1)] live_at_def by (metis stripD(4,7))
    with least have "?r = NEVER" by auto
    moreover have "ts_sleepers (ts s2) = []"
    proof (rule ccontr)
      assume "ts_sleepers (ts s2) \<noteq> []"
      then obtain k o' where "(k, o') \<in> set (ts_sleepers (ts s2))" by (cases "ts_sleepers (ts s2)") auto
      then have "map_of (ts_sleepers (ts s2)) k = Some o'" using sd_distinct [OF indexes_okD(1) [OF ok(3)]] by simp
      then obtain t where "td s2 o' = Some t" "place_sleep_key (tk_place t) = Some k" using indexes_okD(3) [OF ok(3)] by blast
      with indexes_okD(5) [OF ok(3) this(1)] False show False by (auto simp: entry_ok_def)
    qed
    ultimately show ?thesis by (simp add: sd_first_def)
  next
    case True
    then obtain o1 t1 where t1: "td s2 o1 = Some t1" "in_waiting t1" "has_deadline t1" by blast
    have "queue_at Q_WAITING s2 \<noteq> []" using in_waiting_iff [OF ok(2) t1(1)] t1(2) by (auto simp: queue_tasks_def)
    with i have ix: "ts_indexed (ts s2)" by simp
    have key: "\<exists>d q. place_sleep_key (tk_place t) = Some (d, q) \<and> map_of (ts_sleepers (ts s2)) (d, q) = Some o' \<and>
        uint d = now_abs (ts s2) + ahead (ts s2) (tk_wakeup_tick t)" if t: "td s2 o' = Some t" "in_waiting t" "has_deadline t" for o' t
    proof -
      have "place_sleep_key (tk_place t) \<noteq> None" using indexes_okD(5) [OF ok(3) t(1)] t ix by (simp add: entry_ok_def)
      then obtain d q where k: "place_sleep_key (tk_place t) = Some (d, q)" by (metis not_None_eq prod.collapse)
      with ok(4) t(1) indexes_okD(3) [OF ok(3)] show ?thesis unfolding clock_ok_def by blast
    qed
    obtain d1 q1 where "map_of (ts_sleepers (ts s2)) (d1, q1) = Some o1" using key [OF t1] by blast
    then obtain k o2 where f: "sd_first (ts_sleepers (ts s2)) = Some (k, o2)" by (cases "ts_sleepers (ts s2)") (auto simp: sd_first_def)
    obtain d2 q2 where k: "k = (d2, q2)" by (cases k)
    note lst = deque.least_Some [OF indexes_okD(1) [OF ok(3)] f [unfolded k]]
    obtain t2 where t2: "td s2 o2 = Some t2" "place_sleep_key (tk_place t2) = Some (d2, q2)" using lst indexes_okD(3) [OF ok(3)] by blast
    have w2: "in_waiting t2" "has_deadline t2" using indexes_okD(5) [OF ok(3) t2(1)] t2(2) by (auto simp: entry_ok_def)
    have d2: "uint d2 = now_abs (ts s2) + ahead (ts s2) (tk_wakeup_tick t2)" using ok(4) t2 unfolding clock_ok_def by blast
    have min2: "ahead (ts s2) (tk_wakeup_tick t2) \<le> ahead (ts s2) (tk_wakeup_tick t)"
      if t: "td s2 o' = Some t" "in_waiting t" "has_deadline t" for o' t
    proof -
      obtain d q where dq: "map_of (ts_sleepers (ts s2)) (d, q) = Some o'" "uint d = now_abs (ts s2) + ahead (ts s2) (tk_wakeup_tick t)"
        using key [OF t] by blast
      then have "(d2, q2) \<le> (d, q)" using lst by blast
      then have "uint d2 \<le> uint d" by (auto simp: less_eq_prod_def word_le_def word_less_def)
      with d2 dq(2) show ?thesis by simp
    qed
    have a: "ahead (ts s2) d = sint (d - ?now)" for d by (simp add: ahead_def tick)
    obtain t2' where t2': "td s o2 = Some t2'" "strip t2' = strip t2" "\<not> due_at ?now t2" using left [OF t2(1) w2(1)] by blast
    note st2 = stripD [OF t2'(2)]
    have l2: "t2' \<in> set ?us" "live_at ?now t2'"
      using t2' w2 st2 due_strip(1) [of ?now t2'] due_strip(1) [of ?now t2] unfolding map_filter_tasks [OF ok(1)] live_at_def by auto
    then have r: "?r \<noteq> NEVER" "\<exists>t \<in> set ?us. live_at ?now t \<and> ?r = tk_wakeup_tick t"
      "sint (?r - ?now) \<le> sint (tk_wakeup_tick t2 - ?now)"
      using least st2(6) by (auto split: if_splits)
    then obtain t3 where t3: "t3 \<in> set ?us" "live_at ?now t3" "?r = tk_wakeup_tick t3" by blast
    then obtain o3 where "td s o3 = Some t3" "in_waiting t3" unfolding map_filter_tasks [OF ok(1)] by blast
    with stay [OF this] t3(2) obtain t3' where "td s2 o3 = Some t3'" "strip t3' = strip t3" by (auto simp: live_at_def)
    then have "ahead (ts s2) (tk_wakeup_tick t2) \<le> ahead (ts s2) (tk_wakeup_tick t3')"
      using min2 [of o3 t3'] stripD [of t3' t3] \<open>in_waiting t3\<close> t3(2) by (auto simp: live_at_def)
    then have "sint (tk_wakeup_tick t2 - ?now) = sint (?r - ?now)"
      using r(3) stripD(6) [OF \<open>strip t3' = strip t3\<close>] t3(3) by (simp add: a)
    then have "tk_wakeup_tick t2 = ?r" by (metis diff_add_cancel signed_word_eqI)
    then show ?thesis using ix f k t2(1) by simp
  qed
qed

section \<open>Waking refines the walk\<close>

lemma look_settled:
  assumes "settled s"
  shows "settled (ts_mod look_ts s)" "view (ts_mod look_ts s) = view s" "rest (ts_mod look_ts s) = rest s"
proof -
  have ok: "sched_ok s" "young s" using assms by (simp_all add: settled_def)
  have "clock_ok (ts_mod look_ts s)" using ok by (intro look_clock_ok) (simp_all add: sched_ok_def)
  moreover have "young (ts_mod look_ts s)" using look_abs(2) [OF ok(2)] ok(2) by (simp add: young_def)
  ultimately show "settled (ts_mod look_ts s)"
    using ok(1) unfolding settled_def sched_ok_def queues_ok_def indexes_ok_def by (simp add: look_ts_def queue_at_def)
  show "view (ts_mod look_ts s) = view s" "rest (ts_mod look_ts s) = rest s"
    by (simp_all add: view_def rest_ts_mod look_ts_def plain_ts_def)
qed

lemma due_entries_length: "length (due_entries s) \<le> length (queue_at Q_WAITING s)"
  by (simp add: due_entries_def by_seq_def)

lemma due_entries_tasks:
  assumes "queues_ok s"
  shows "distinct (map snd (due_entries s))"
    "o' \<in> snd ` set (due_entries s) \<Longrightarrow> \<exists>t. td s o' = Some t \<and> place_queued (tk_place t) \<noteq> None"
proof -
  show "distinct (map snd (due_entries s))"
    unfolding due_entries_def map_snd_by_seq
    by (rule distinct_map_filter, rule distinct_owners [where s = s and f = "\<lambda>t. map_option snd (place_queued (tk_place t))"])
      (use queues_okD(2) [OF assms, of Q_WAITING] waiting_entries(1) [OF assms] in \<open>auto simp: queue_ids\<close>)
  assume "o' \<in> snd ` set (due_entries s)"
  then obtain seq where "(seq, o') \<in> set (due_entries s)" by auto
  then show "\<exists>t. td s o' = Some t \<and> place_queued (tk_place t) \<noteq> None"
    unfolding due_entries_def waiting_seq_entries [OF assms] by auto
qed

lemma room_mono: "room n s \<Longrightarrow> m \<le> n \<Longrightarrow> ts_seq (ts s') = ts_seq (ts s) \<Longrightarrow> room m s'"
  by (simp add: room_def)

lemma due_entries_cong: "td s' = td s \<Longrightarrow> ts_queues (ts s') = ts_queues (ts s) \<Longrightarrow> ts_tick (ts s') = ts_tick (ts s) \<Longrightarrow>
    due_entries s' = due_entries s"
  unfolding due_entries_def queue_at_def by (simp only:)

lemma wake_sleepers_search:
  assumes s: "settled s"
  shows "\<exists>s1. settled s1 \<and> view s1 = view s \<and> rest s1 = rest s \<and> now_abs (ts s1) = now_abs (ts s) \<and> td s1 = td s \<and>
    ts_indexed (ts s1) = ts_indexed (ts s) \<and>
    (if ts_wakeup_tick (ts s) = NEVER \<or> 0 < sint (ts_wakeup_tick (ts s) - ts_tick (ts s)) then wake_sleepers s = Some s
     else wake_sleepers s = do {
       s2 \<leftarrow> wake_all (due_entries s) s1;
       wt \<leftarrow> (if ts_indexed (ts s2)
              then (case sd_first (ts_sleepers (ts s2)) of
                  Some (_, o') \<Rightarrow> map_option tk_wakeup_tick (td s2 o')
                | None \<Rightarrow> Some NEVER)
              else Some (if ts_indexed (ts s) then NEVER
                else next_deadline (ts_tick (ts s)) (List.map_filter (td s) (queue_tasks Q_WAITING s)) NEVER));
       Some (ts_mod (\<lambda>x. x\<lparr>ts_due := [], ts_wakeup_tick := wt\<rparr>) s2)
     })"
proof -
  have ok: "queues_ok s" "ts_due (ts s) = []" "young s" using s by (simp_all add: settled_def sched_ok_def)
  have s0: "ts_mod (\<lambda>x. x\<lparr>ts_due := []\<rparr>) s = s" using ok(2) by (intro ts_mod_same [symmetric]) simp
  have walked: "settled (add_walked n s') \<and> view (add_walked n s') = view s' \<and> rest (add_walked n s') = rest s' \<and>
      now_abs (ts (add_walked n s')) = now_abs (ts s') \<and> td (add_walked n s') = td s' \<and> ts_indexed (ts (add_walked n s')) = ts_indexed (ts s')"
    if "settled s'" for n and s' :: "'a tvm"
    using settled_ts_mod [OF that, of "\<lambda>x. x\<lparr>ts_walked := ts_walked x + of_nat n\<rparr>"]
    by (simp add: add_walked_def view_def rest_ts_mod plain_ts_def now_abs_def)
  consider "ts_wakeup_tick (ts s) = NEVER \<or> 0 < sint (ts_wakeup_tick (ts s) - ts_tick (ts s))"
    | "\<not> (ts_wakeup_tick (ts s) = NEVER \<or> 0 < sint (ts_wakeup_tick (ts s) - ts_tick (ts s)))" "ts_indexed (ts s)"
    | "\<not> (ts_wakeup_tick (ts s) = NEVER \<or> 0 < sint (ts_wakeup_tick (ts s) - ts_tick (ts s)))" "\<not> ts_indexed (ts s)" by blast
  then show ?thesis
  proof cases
    case 1
    then have "wake_sleepers s = Some s" by (auto simp: wake_sleepers_def Let_def)
    with 1 s show ?thesis by (intro exI [of _ s]) simp
  next
    case 2
    define l where "l = ts_mod look_ts s"
    define now where "now = ts_tick_abs (look_ts (ts s))"
    have l: "settled l" "view l = view s" "rest l = rest s" using look_settled [OF s] by (simp_all add: l_def)
    have lf: "td l = td s" "ts_sleepers (ts l) = ts_sleepers (ts s)" "ts_indexed (ts l)" "now_abs (ts l) = now_abs (ts s)"
      "ts_queues (ts l) = ts_queues (ts s)" "ts_tick (ts l) = ts_tick (ts s)"
      using 2(2) look_abs(2) [OF ok(3)] by (simp_all add: l_def) (simp_all add: look_ts_def)
    have now: "uint now = now_abs (ts l)" using look_abs(1,2) [OF ok(3)] by (simp add: now_def l_def)
    note sd = sleepers_due [OF l(1) lf(3) now]
    define tw where "tw = takeWhile (\<lambda>(k, _). fst k \<le> now) (ts_sleepers (ts l))"
    have t: "take_due now (ts_sleepers (ts l)) [] l = Some (unsleep_all (map snd tw) l, by_seq tw)"
      using take_due_eq [OF sd(3,2)] by (simp add: tw_def)
    have de: "sort_key fst (by_seq tw) = due_entries s"
      using sd(1) due_entries_cong [OF lf(1,5,6)] by (simp add: tw_def)
    define s1 where "s1 = add_walked (length (by_seq tw)) l"
    have w: "settled s1" "view s1 = view s" "rest s1 = rest s" "now_abs (ts s1) = now_abs (ts s)" "td s1 = td s" "ts_indexed (ts s1)"
      using walked [OF l(1)] l lf by (simp_all add: s1_def)
    have u: "add_walked (length (by_seq tw)) (unsleep_all (map snd tw) l) = unsleep_all (map snd tw) s1"
      unfolding s1_def add_walked_def by (rule unsleep_all_ts_mod [symmetric]) simp
    have "wake_all (due_entries s) (unsleep_all (map snd tw) s1) = wake_all (due_entries s) s1"
    proof (rule wake_all_unslept_all)
      show "placed_tasks (snd ` set (due_entries s)) s1"
        using due_entries_tasks(2) [OF ok(1)] w(5) by (intro settled_placed [OF w(1)]) simp
      show "distinct (map snd (due_entries s))" by (rule due_entries_tasks(1) [OF ok(1)])
      have "set (map snd tw) = snd ` set (by_seq tw)" by (metis map_snd_by_seq set_map)
      also have "set (by_seq tw) = set (due_entries s)" using de by (metis set_sort)
      finally show "set (map snd tw) \<subseteq> snd ` set (due_entries s)" by simp
    qed
    then have "wake_sleepers s = do {
       s2 \<leftarrow> wake_all (due_entries s) s1;
       wt \<leftarrow> (if ts_indexed (ts s2)
              then (case sd_first (ts_sleepers (ts s2)) of
                  Some (_, o') \<Rightarrow> map_option tk_wakeup_tick (td s2 o')
                | None \<Rightarrow> Some NEVER)
              else Some NEVER);
       Some (ts_mod (\<lambda>x. x\<lparr>ts_due := [], ts_wakeup_tick := wt\<rparr>) s2)
     }"
      unfolding wake_sleepers_def Let_def ok(2) s0 abs_tick_eq l_def [symmetric] now_def [symmetric] using 2 t de u by simp
    with 2 w show ?thesis by (intro exI [of _ s1]) simp
  next
    case 3
    have "\<forall>o' \<in> snd ` set (queue_at Q_WAITING s). td s o' \<noteq> None"
      using waiting_entries(1) [OF ok(1)] by auto
    from walk_due_eq [OF this, of "ts_tick (ts s)" "[]" NEVER]
    have wd: "walk_due (ts_tick (ts s)) (queue_at Q_WAITING s) [] NEVER s = Some (due_entries s,
        next_deadline (ts_tick (ts s)) (List.map_filter (td s) (queue_tasks Q_WAITING s)) NEVER)"
      by (simp add: due_entries_def queue_tasks_def)
    let ?s1 = "add_walked (length (queue_at Q_WAITING s)) s"
    have "wake_sleepers s = do {
       s2 \<leftarrow> wake_all (due_entries s) ?s1;
       wt \<leftarrow> (if ts_indexed (ts s2)
              then (case sd_first (ts_sleepers (ts s2)) of
                  Some (_, o') \<Rightarrow> map_option tk_wakeup_tick (td s2 o')
                | None \<Rightarrow> Some NEVER)
              else Some (next_deadline (ts_tick (ts s)) (List.map_filter (td s) (queue_tasks Q_WAITING s)) NEVER));
       Some (ts_mod (\<lambda>x. x\<lparr>ts_due := [], ts_wakeup_tick := wt\<rparr>) s2)
     }"
      unfolding wake_sleepers_def Let_def ok(2) s0 using 3 wd by simp
    with 3 walked [OF s] show ?thesis by (intro exI [of _ ?s1]) simp
  qed
qed

theorem wake_sleepers_refines:
  assumes s: "settled s" and r: "room (length (queue_at Q_WAITING s)) s"
  shows "\<exists>s'. wake_sleepers s = Some s' \<and> settled s' \<and> view s' = ref_wake_sleepers (view s) \<and> rest s' = rest s \<and>
    now_abs (ts s') = now_abs (ts s)"
proof -
  obtain s1 where s1: "settled s1" "view s1 = view s" "rest s1 = rest s" "now_abs (ts s1) = now_abs (ts s)" "td s1 = td s"
    "ts_indexed (ts s1) = ts_indexed (ts s)"
    and ws: "if ts_wakeup_tick (ts s) = NEVER \<or> 0 < sint (ts_wakeup_tick (ts s) - ts_tick (ts s)) then wake_sleepers s = Some s
     else wake_sleepers s = do {
       s2 \<leftarrow> wake_all (due_entries s) s1;
       wt \<leftarrow> (if ts_indexed (ts s2)
              then (case sd_first (ts_sleepers (ts s2)) of
                  Some (_, o') \<Rightarrow> map_option tk_wakeup_tick (td s2 o')
                | None \<Rightarrow> Some NEVER)
              else Some (if ts_indexed (ts s) then NEVER
                else next_deadline (ts_tick (ts s)) (List.map_filter (td s) (queue_tasks Q_WAITING s)) NEVER));
       Some (ts_mod (\<lambda>x. x\<lparr>ts_due := [], ts_wakeup_tick := wt\<rparr>) s2)
     }" using wake_sleepers_search [OF s] by blast
  have vw: "sc_wakeup (view s) = ts_wakeup_tick (ts s)" "sc_tick (view s) = ts_tick (ts s)" by (simp_all add: view_def)
  show ?thesis
  proof (cases "ts_wakeup_tick (ts s) = NEVER \<or> 0 < sint (ts_wakeup_tick (ts s) - ts_tick (ts s))")
    case True
    with ws s show ?thesis by (auto simp: ref_wake_sleepers_def vw)
  next
    case False
    have ok: "queues_ok s" using s by (simp add: settled_def sched_ok_def)
    note q = view_queues [OF s1(2)]
    have "room (length (due_entries s)) s1" using room_mono [OF r due_entries_length] q by blast
    from wake_all_refines [OF s1(1) this due_entries_tasks(1) [OF ok]] due_entries_tasks(2) [OF ok] s1(5)
    obtain s2 where s2: "wake_all (due_entries s) s1 = Some s2" "settled s2" "view s2 = fold ref_wake_one (map snd (due_entries s)) (view s1)"
      "rest s2 = rest s1" "now_abs (ts s2) = now_abs (ts s1)"
      "ts_indexed (ts s1) \<or> queue_at Q_WAITING s1 = [] \<longrightarrow> ts_indexed (ts s2) \<or> queue_at Q_WAITING s2 = []"
      "ts_indexed (ts s2) \<longrightarrow> ts_indexed (ts s1)" by auto
    let ?n = "next_deadline (ts_tick (ts s)) (List.map_filter (td s) (queue_tasks Q_WAITING s)) NEVER"
    have tick: "ts_tick (ts s2) = ts_tick (ts s)" using rest_tick [OF s2(4)] q by simp
    have "(if ts_indexed (ts s2)
        then (case sd_first (ts_sleepers (ts s2)) of Some (_, o') \<Rightarrow> map_option tk_wakeup_tick (td s2 o') | None \<Rightarrow> Some NEVER)
        else Some (if ts_indexed (ts s) then NEVER else ?n)) = Some ?n"
    proof (cases "ts_indexed (ts s)")
      case True
      have "view s2 = fold ref_wake_one (map snd (due_entries s)) (view s)" using s2(3) s1(2) by simp
      moreover have "ts_indexed (ts s2) \<or> queue_at Q_WAITING s2 = []" using s2(6) s1(6) True by simp
      ultimately have "(if ts_indexed (ts s2)
        then (case sd_first (ts_sleepers (ts s2)) of Some (_, o') \<Rightarrow> map_option tk_wakeup_tick (td s2 o') | None \<Rightarrow> Some NEVER)
        else Some NEVER) = Some ?n"
        by (rule first_sleeper_next [OF s s2(2) tick])
      then show ?thesis using True by (simp only: if_True)
    next
      case False
      then show ?thesis using s2(7) s1(6) by simp
    qed
    with ws False s2(1) have w: "wake_sleepers s = Some (ts_mod (\<lambda>x. x\<lparr>ts_due := [], ts_wakeup_tick := ?n\<rparr>) s2)" by simp
    have d: "ts_due (ts s2) = []" using s2(2) by (simp add: settled_def sched_ok_def)
    have "settled (ts_mod (\<lambda>x. x\<lparr>ts_due := [], ts_wakeup_tick := ?n\<rparr>) s2)"
      using d by (intro settled_ts_mod [OF s2(2)]) simp_all
    moreover have "view (ts_mod (\<lambda>x. x\<lparr>ts_due := [], ts_wakeup_tick := ?n\<rparr>) s2) = ref_wake_sleepers (view s)"
    proof -
      have "view (ts_mod (\<lambda>x. x\<lparr>ts_due := [], ts_wakeup_tick := ?n\<rparr>) s2) = (view s2)\<lparr>sc_wakeup := ?n\<rparr>"
        by (simp add: view_def)
      also have "\<dots> = ref_wake_sleepers (view s)"
        using False unfolding ref_wake_sleepers_def view_due view_next s2(3) s1(2) by (simp add: vw)
      finally show ?thesis .
    qed
    moreover have "rest (ts_mod (\<lambda>x. x\<lparr>ts_due := [], ts_wakeup_tick := ?n\<rparr>) s2) = rest s"
      using s2(4) s1(3) by (simp add: rest_ts_mod plain_ts_def)
    ultimately show ?thesis using w s2(5) s1(4) by (simp add: now_abs_def)
  qed
qed

end
