(* ===== verification/Task.thy ===== *)
theory Task
  imports TaskQueues Classes
begin

text \<open>
  The scheduler of \<open>src/builtins/ext_task.rs\<close>: the tick, the limits, handing a task the CPU, the turns of the
  scheduler. What lies outside it is a parameter, \<open>tenv\<close>: the interpreter's loop (\<open>run_loop_ctx\<close>), the collector,
  the clocks and hooks the host lends, the message naming a native frame, the conversion of seconds held as a
  Float. \<open>None\<close> is a panic, or a loop that does not end.
\<close>

type_synonym 'x tworld = "(task_state, 'x) machine"

record 'x tenv =
  te_ruby :: "'x tworld ruby"
  te_core :: core
  te_run :: "nat \<Rightarrow> ('x tworld, rvalue) eff"
  te_gc :: "'x tvm \<Rightarrow> 'x tvm option"
  te_hook :: "'x tvm \<Rightarrow> 'x tvm option"
  te_clock :: "'x \<Rightarrow> 'x \<times> u64"
  te_sleep :: "(u64 \<Rightarrow> 'x \<Rightarrow> 'x) option"
  te_wall :: "('x \<Rightarrow> 'x \<times> i64 \<times> i64) option"
  te_boundary :: "'x tvm \<Rightarrow> 'x tvm \<times> bytes"
  te_secs_micros :: "rvalue \<Rightarrow> ('x tworld, u64) eff"
  te_float_text :: "f64 \<Rightarrow> bytes"
  te_c_exception :: obj_id
  te_c_standard_error :: obj_id
  te_c_range_error :: obj_id
  te_c_proc :: obj_id
  te_c_array :: obj_id
  te_c_rational :: obj_id
  te_c_complex :: obj_id
  te_s_Task :: sym
  te_s_Queue :: sym
  te_s_Error :: sym
  te_s_new :: sym
  te_s_to_i :: sym
  te_s_items :: sym
  te_s_closed :: sym
  te_s_push :: sym
  te_s_shift :: sym
  te_s_retry :: sym
  te_s_timeout :: sym
  te_s_name :: sym
  te_s_priority :: sym

section \<open>Panicking steps as effects\<close>

definition act :: "('w hvm \<Rightarrow> 'w hvm option) \<Rightarrow> ('w, unit) eff" where
  "act f s = map_option (\<lambda>s1. (s1, Inr ())) (f s)"

definition ask :: "('w hvm \<Rightarrow> 'a option) \<Rightarrow> ('w, 'a) eff" where
  "ask f s = map_option (\<lambda>x. (s, Inr x)) (f s)"

definition sat_add :: "u64 \<Rightarrow> u64 \<Rightarrow> u64" where
  "sat_add a b = (if uint a + uint b < 2 ^ 64 then a + b else - 1)"

definition sat_sub :: "'a :: len word \<Rightarrow> 'a word \<Rightarrow> 'a word" where
  "sat_sub a b = (if b \<le> a then a - b else 0)"

section \<open>Limits\<close>

definition update_limits :: "'x tvm \<Rightarrow> 'x tvm" where
  "update_limits s =
     (let t = ts s;
          on_clock = (ts_clock t \<and> (ts_timeslice t \<noteq> Slice_Instructions \<or> ts_run_soft t \<noteq> None \<or> ts_run_hard t \<noteq> None))
      in ts_mod (\<lambda>x. x\<lparr>ts_native_sampling := on_clock,
           ts_limits_active := (on_clock \<or> ts_run_hard_instructions t \<noteq> None),
           ts_forced := (if on_clock then ts_forced t else None)\<rparr>) s)"

definition count_native :: "'x tvm \<Rightarrow> 'x tvm" where
  "count_native s =
     (let left = sat_sub (ts_native_left (ts s)) 1
      in if left \<noteq> 0 then ts_mod (\<lambda>x. x\<lparr>ts_native_left := left\<rparr>) s
         else let s1 = ts_mod (\<lambda>x. x\<lparr>ts_native_left := max (ts_native_every x) 1\<rparr>) s
              in if ts_running (ts s1) \<noteq> None \<and> ts_forced (ts s1) = None \<and> ts_tick_left (ts s1) > 1
                 then ts_mod (\<lambda>x. x\<lparr>ts_forced := Some (ts_tick_left x), ts_tick_left := 1\<rparr>) s1 else s1)"

text \<open>\<open>clock()\<close>\<close>

definition read_clock :: "'x tenv \<Rightarrow> 'x tvm \<Rightarrow> 'x tvm \<times> u64" where
  "read_clock env s =
     (let (x, n) = te_clock env (mc_rest (mc s)) in (mc_mod (\<lambda>m. m\<lparr>mc_rest := x\<rparr>) s, n))"

definition slice_nanos :: "timeslice_kind \<Rightarrow> u64 option" where
  "slice_nanos k = (case k of Slice_Instructions \<Rightarrow> None | Slice_Time n \<Rightarrow> Some n | Slice_Both n \<Rightarrow> Some n)"

definition past :: "u64 option \<Rightarrow> u64 \<Rightarrow> bool" where
  "past limit now = (case limit of Some l \<Rightarrow> now \<ge> l | None \<Rightarrow> False)"

definition check_limits :: "'x tenv \<Rightarrow> 'x tvm \<Rightarrow> 'x tvm" where
  "check_limits env s =
     (let s1 = (if ts_clock (ts s)
          then let (s1, now) = read_clock env s; t = ts s1;
                   slice = (case slice_nanos (ts_timeslice t) of
                       Some nanos \<Rightarrow> sat_sub now (ts_slice_start t) \<ge> nanos | None \<Rightarrow> False)
               in ts_mod (\<lambda>x. x\<lparr>ts_switching := (ts_switching x \<or> slice \<or> past (ts_run_soft t) now),
                    ts_overrun := (ts_overrun x \<or> past (ts_run_hard t) now)\<rparr>) s1
          else s)
      in if past (ts_run_hard_instructions (ts s1)) (mc_instructions (mc s1))
         then ts_mod (\<lambda>x. x\<lparr>ts_overrun := True\<rparr>) s1 else s1)"

section \<open>The tick\<close>

text \<open>The running task's timeslice shrinks.\<close>

definition tick_slice :: "'x tvm \<Rightarrow> 'x tvm option" where
  "tick_slice s = (case ts_running (ts s) of
      None \<Rightarrow> Some s
    | Some r \<Rightarrow> do {
        t \<leftarrow> td s r;
        if tk_status t = RUNNING \<and> tk_timeslice t > 0
        then (let left = tk_timeslice t - 1; s1 = td_put r (t\<lparr>tk_timeslice := left\<rparr>) s
              in Some (if left = 0 then ts_mod (\<lambda>x. x\<lparr>ts_switching := True\<rparr>) s1 else s1))
        else Some s
      })"

text \<open>A tick that is really due.\<close>

definition tick_now :: "'x tenv \<Rightarrow> 'x tvm \<Rightarrow> 'x tvm option" where
  "tick_now env s =
     (let s0 = ts_mod (\<lambda>x. x\<lparr>ts_tick_left := ts_tick_every x\<rparr>) s;
          counted = (case ts_timeslice (ts s0) of Slice_Time _ \<Rightarrow> \<not> ts_clock (ts s0) | _ \<Rightarrow> True)
      in do {
        s1 \<leftarrow> (if counted then tick_slice s0 else Some s0);
        let s2 = (if ts_limits_active (ts s1) then check_limits env s1 else s1);
        if ts_clock_from_instructions (ts s2) then advance_ticks 1 s2 else Some s2
      })"

definition tick :: "'x tenv \<Rightarrow> 'x tvm \<Rightarrow> 'x tvm option" where
  "tick env s =
     (let s0 = ts_mod (\<lambda>x. x\<lparr>ts_forced := None\<rparr>) s
      in case ts_forced (ts s) of
           Some left \<Rightarrow>
             if left > 1 then Some (check_limits env (ts_mod (\<lambda>x. x\<lparr>ts_tick_left := left - 1\<rparr>) s0))
             else tick_now env s0
         | None \<Rightarrow> tick_now env s0)"

text \<open>Whether the running context can be switched out at this boundary.\<close>

definition switchable :: "'x tvm \<Rightarrow> bool option" where
  "switchable s =
     (if mc_cur (mc s) = ROOT_CTX \<or> mc_exc (mc s) \<noteq> None then Some False
      else do {
        n \<leftarrow> fiber_check_native s (mc_cur (mc s));
        if n then Some False else map_option cx_vmexec (ctx_at s (mc_cur (mc s)))
      })"

definition overrun :: "'x tenv \<Rightarrow> ('x tworld, unit) eff" where
  "overrun env s =
     (let s1 = ts_mod (\<lambda>x. x\<lparr>ts_overrun := False, ts_switching := True\<rparr>) s
      in case switchable s1 of
           None \<Rightarrow> None
         | Some True \<Rightarrow> ret () s1
         | Some False \<Rightarrow> raise_exc (te_ruby env)
             (case ts_overrun_class (ts s1) of Some c \<Rightarrow> c | None \<Rightarrow> te_c_exception env)
             (ascii ''the task ran past its time limit inside a call that cannot be switched out'') s1)"

text \<open>What \<open>exec_frames\<close> does for the scheduler before an instruction: \<open>True\<close> where the task is switched out.\<close>

definition boundary_tick :: "'x tenv \<Rightarrow> ('x tworld, unit) eff" where
  "boundary_tick env s =
     (if ts_tick_every (ts s) \<noteq> 0 \<and> ts_running (ts s) \<noteq> None
      then let s1 = ts_mod (\<lambda>x. x\<lparr>ts_tick_left := sat_sub (ts_tick_left x) 1\<rparr>) s
           in if ts_tick_left (ts s1) = 0
              then andthen (act (tick env)) (\<lambda>_ s2. if ts_overrun (ts s2) then overrun env s2 else ret () s2) s1
              else ret () s1
      else ret () s)"

definition switch_out :: "'x tvm \<Rightarrow> 'x tvm option" where
  "switch_out s =
     (let c = mc_cur (mc s); s1 = ts_mod (\<lambda>x. x\<lparr>ts_switching := False\<rparr>) s
      in do {
        x \<leftarrow> ctx_at s1 c;
        s2 \<leftarrow> ctx_mod c (\<lambda>x. x\<lparr>cx_prev := None, cx_status := F_Suspended, cx_vmexec := False\<rparr>) s1;
        switch_context (case cx_prev x of Some p \<Rightarrow> p | None \<Rightarrow> ROOT_CTX) s2
      })"

definition task_boundary :: "'x tenv \<Rightarrow> ('x tworld, bool) eff" where
  "task_boundary env = andthen (boundary_tick env) (\<lambda>_ s.
     if \<not> ts_switching (ts s) then ret False s
     else andthen (ask switchable) (\<lambda>b.
       if b then andthen (act switch_out) (\<lambda>_. ret True) else ret False) s)"

section \<open>Running a task\<close>

definition current_task :: "'x tvm \<Rightarrow> obj_id option option" where
  "current_task s =
     (if mc_cur (mc s) = ROOT_CTX then Some None
      else case ts_running (ts s) of
          None \<Rightarrow> Some None
        | Some r \<Rightarrow> map_option (\<lambda>t. if tk_ctx t = Some (mc_cur (mc s)) then Some r else None) (td s r))"

definition park :: "'x tvm \<Rightarrow> 'x tvm" where
  "park s = ts_mod (\<lambda>x. x\<lparr>ts_switching := True\<rparr>) s"

definition clear_context :: "nat \<Rightarrow> 'x tvm \<Rightarrow> 'x tvm option" where
  "clear_context c s = ctx_mod c (\<lambda>x. x\<lparr>cx_status := F_Terminated, cx_ci := [], cx_stack := []\<rparr>) s"

definition stop_task :: "obj_id \<Rightarrow> 'x tvm \<Rightarrow> 'x tvm option" where
  "stop_task t s = do {
     q \<leftarrow> is_queued s t;
     s1 \<leftarrow> (if q then set_status t DORMANT s else td_mod t (\<lambda>x. x\<lparr>tk_status := DORMANT\<rparr>) s);
     d \<leftarrow> td s1 t;
     s2 \<leftarrow> (case tk_ctx d of
          Some c \<Rightarrow> if c \<noteq> mc_cur (mc s1) then do { s2 \<leftarrow> detach_context_envs c s1; clear_context c s2 } else Some s1
        | None \<Rightarrow> Some s1);
     wake_join_waiters t s2
   }"

text \<open>The task's block on its fresh context.\<close>

definition start_block :: "core \<Rightarrow> nat \<Rightarrow> 'x tvm \<Rightarrow> 'x tvm option" where
  "start_block co ctx s = do {
     c \<leftarrow> ctx_at s ctx;
     (case cx_proc c of
        None \<Rightarrow> Some s
      | Some p \<Rightarrow> do {
          pd \<leftarrow> heap_proc_data (vm_heap s) p;
          slf \<leftarrow> (case pr_env pd of Some e \<Rightarrow> env_get s e 0 | None \<Rightarrow> Some (VObj (mc_top_self (mc s))));
          ir \<leftarrow> (if pr_irep pd < length (mc_ireps (mc s)) then Some (mc_ireps (mc s) ! pr_irep pd) else None);
          let tc = (case pr_target_class pd of Some k \<Rightarrow> k | None \<Rightarrow> co_object co);
          Some (mc_mod (\<lambda>m. m\<lparr>mc_stack := (replicate (max (vi_nregs ir) 4) VNil)[0 := slf],
             mc_ci := [\<lparr>ci_base = 0, ci_pc = 0, ci_irep = pr_irep pd, ci_proc = p, ci_n = 0, ci_kw = False,
               ci_mid = None, ci_target_class = tc, ci_env = None, ci_cci = Cci_None, ci_vis = Public,
               ci_modfunc = False, ci_vis_break = False, ci_method_block = False\<rparr>]\<rparr>) s)
        })
   }"

text \<open>The end of a slice: what the interpreter answered becomes the task's state.\<close>

definition slice_over :: "nat \<Rightarrow> obj_id \<Rightarrow> nat \<Rightarrow> u64 \<Rightarrow> vm_error + rvalue \<Rightarrow> 'x tvm \<Rightarrow> 'x tvm option" where
  "slice_over old t ctx before r s = do {
     s1 \<leftarrow> td_mod t (\<lambda>x. x\<lparr>tk_instructions := tk_instructions x + (mc_instructions (mc s) - before)\<rparr>) s;
     let s2 = ts_mod (\<lambda>x. x\<lparr>ts_running := None, ts_switching := False\<rparr>) (mc_mod (\<lambda>m. m\<lparr>mc_loop_exit := None\<rparr>) s1);
     s3 \<leftarrow> ctx_mod old (\<lambda>x. x\<lparr>cx_status := F_Running\<rparr>) s2;
     s4 \<leftarrow> (if mc_cur (mc s3) \<noteq> old then switch_context old s3 else Some s3);
     c \<leftarrow> ctx_at s4 ctx;
     let done = (cx_status c = F_Terminated);
     (case r of
        Inr v \<Rightarrow> do {
          s5 \<leftarrow> (if done then td_mod t (\<lambda>x. x\<lparr>tk_result := v\<rparr>) s4 else Some s4);
          d \<leftarrow> td s5 t;
          if done then stop_task t s5 else if tk_status d = RUNNING then set_status t READY s5 else Some s5
        }
      | Inl (E_Raise e) \<Rightarrow> do {
          s5 \<leftarrow> td_mod t (\<lambda>x. x\<lparr>tk_result := e\<rparr>) s4;
          s6 \<leftarrow> clear_context ctx (mc_mod (\<lambda>m. m\<lparr>mc_exc := None\<rparr>) s5);
          stop_task t s6
        }
      | Inl _ \<Rightarrow> do {
          s5 \<leftarrow> ctx_mod ctx (\<lambda>x. x\<lparr>cx_status := F_Terminated\<rparr>) s4;
          stop_task t s5
        })
   }"

definition slice_begin :: "obj_id \<Rightarrow> 'x tvm \<Rightarrow> 'x tvm" where
  "slice_begin t s =
     ts_mod (\<lambda>x. x\<lparr>ts_running := Some t, ts_switching := False, ts_tick_left := ts_tick_every x, ts_forced := None\<rparr>) s"

text \<open>The contexts of the two sides, and the switch.\<close>

definition enter_context :: "nat \<Rightarrow> nat \<Rightarrow> nat \<Rightarrow> 'x tvm \<Rightarrow> 'x tvm option" where
  "enter_context old ctx to s = do {
     s1 \<leftarrow> ctx_mod old (\<lambda>x. x\<lparr>cx_status := F_Resumed\<rparr>) s;
     s2 \<leftarrow> ctx_mod ctx (\<lambda>x. x\<lparr>cx_prev := Some old, cx_vmexec := True\<rparr>) s1;
     switch_context to s2
   }"

definition execute_task :: "'x tenv \<Rightarrow> obj_id \<Rightarrow> 'x tvm \<Rightarrow> 'x tvm option" where
  "execute_task env t s = do {
     d \<leftarrow> td s t;
     live \<leftarrow> (case tk_ctx d of None \<Rightarrow> Some None
       | Some c \<Rightarrow> map_option (\<lambda>x. if cx_status x = F_Terminated then None else Some (c, x)) (ctx_at s c));
     (case live of
        None \<Rightarrow> stop_task t s
      | Some (ctx, x) \<Rightarrow> do {
          let old = mc_cur (mc s);
          let s1 = slice_begin t (td_put t (d\<lparr>tk_timeslice := TIMESLICE, tk_status := RUNNING\<rparr>) s);
          let s2 = (if ts_limits_active (ts s1) \<and> ts_clock (ts s1)
               then let (s', now) = read_clock env s1 in ts_mod (\<lambda>x. x\<lparr>ts_slice_start := now\<rparr>) s' else s1);
          s3 \<leftarrow> enter_context old ctx ctx s2;
          s4 \<leftarrow> (if cx_status x = F_Created then start_block (te_core env) ctx s3 else Some s3);
          (s5, r) \<leftarrow> te_run env ctx s4;
          slice_over old t ctx (mc_instructions (mc s4)) r s5
        })
   }"

section \<open>The scheduler\<close>

definition run_hook :: "'x tenv \<Rightarrow> 'x tvm \<Rightarrow> 'x tvm option" where
  "run_hook env s = (if ts_hook (ts s) then te_hook env s else Some s)"

text \<open>The task that ran, if one did.\<close>

definition scheduler_step :: "'x tenv \<Rightarrow> 'x tvm \<Rightarrow> ('x tvm \<times> obj_id option) option" where
  "scheduler_step env s = do {
     s1 \<leftarrow> run_hook env s;
     (case sd_first (queue_at Q_READY s1) of
        None \<Rightarrow> Some (s1, None)
      | Some (_, t) \<Rightarrow> do {
          d \<leftarrow> td s1 t;
          if tk_status d = DORMANT then do { s2 \<leftarrow> q_delete t s1; Some (s2, Some t) }
          else if tk_ctx d = Some (mc_cur (mc s1)) then Some (s1, None)
          else do { s2 \<leftarrow> execute_task env t s1; Some (s2, Some t) }
        })
   }"

definition idle :: "'x tvm \<Rightarrow> ('x tvm \<times> bool) option" where
  "idle s =
     (let target = ts_wakeup_tick (ts s)
      in if target = NEVER then Some (s, False)
         else do {
           s1 \<leftarrow> wake_sleepers (if sint (target - ts_tick (ts s)) > 0 then ts_mod (\<lambda>x. x\<lparr>ts_tick := target\<rparr>) s else s);
           Some (s1, True)
         })"

definition next_wakeup_ticks :: "'x tvm \<Rightarrow> u32 option" where
  "next_wakeup_ticks s =
     (if ts_wakeup_tick (ts s) = NEVER then None
      else let left = ts_wakeup_tick (ts s) - ts_tick (ts s)
           in Some (if sint left > 0 then left else 0))"

fun any_deadline :: "obj_id list \<Rightarrow> 'x tvm \<Rightarrow> bool option" where
  "any_deadline [] s = Some False"
| "any_deadline (o' # os) s = do { t \<leftarrow> td s o'; if has_deadline t then Some True else any_deadline os s }"

definition pending :: "'x tvm \<Rightarrow> bool option" where
  "pending s =
     (if queue_at Q_READY s \<noteq> [] then Some True
      else if ts_indexed (ts s) then Some (ts_sleepers (ts s) \<noteq> [])
      else any_deadline (queue_tasks Q_WAITING s) s)"

partial_function (option) task_loop :: "'x tenv \<Rightarrow> 'x tvm \<Rightarrow> 'x tvm option" where
  "task_loop env s = do {
     s1 \<leftarrow> run_hook env s;
     if queue_at Q_READY s1 = [] then
       (if queue_at Q_WAITING s1 = [] \<and> queue_at Q_SUSPENDED s1 = [] then Some s1
        else do {
          s2 \<leftarrow> (if ts_gc_driven (ts s1) then te_gc env s1 else Some s1);
          (s3, more) \<leftarrow> idle s2;
          if more then task_loop env s3 else Some s3
        })
     else do { (s2, _) \<leftarrow> scheduler_step env s1; task_loop env s2 }
   }"

definition task_run :: "'x tenv \<Rightarrow> 'x tvm \<Rightarrow> 'x tvm option" where
  "task_run env s = do {
     me \<leftarrow> (if ts_loop_running (ts s) then Some (Some 0) else current_task s);
     if me \<noteq> None then Some s
     else do {
       s1 \<leftarrow> task_loop env (ts_mod (\<lambda>x. x\<lparr>ts_loop_running := True\<rparr>) s);
       Some (ts_mod (\<lambda>x. x\<lparr>ts_loop_running := False\<rparr>) s1)
     }
   }"

datatype turn = Ran obj_id | Idled | Stuck

definition task_step :: "'x tenv \<Rightarrow> 'x tvm \<Rightarrow> ('x tvm \<times> turn) option" where
  "task_step env s = do {
     s1 \<leftarrow> run_hook env s;
     if queue_at Q_READY s1 = [] then
       (if \<not> ts_clock_from_instructions (ts s1) then Some (s1, Stuck)
        else if queue_at Q_WAITING s1 = [] then Some (s1, Stuck)
        else do { (s2, moved) \<leftarrow> idle s1; Some (s2, if moved then Idled else Stuck) })
     else do {
       (s2, t) \<leftarrow> scheduler_step env s1;
       Some (s2, case t of Some t \<Rightarrow> Ran t | None \<Rightarrow> Stuck)
     }
   }"

definition task_run_once :: "'x tenv \<Rightarrow> 'x tvm \<Rightarrow> ('x tvm \<times> rvalue) option" where
  "task_run_once env s = do {
     (s1, turn) \<leftarrow> task_step env s;
     (case turn of
        Ran t \<Rightarrow> map_option (\<lambda>d. (s1, if tk_status d = DORMANT then tk_result d else VTrue)) (td s1 t)
      | Idled \<Rightarrow> Some (s1, VTrue)
      | Stuck \<Rightarrow> Some (s1, VNil))
   }"

end
