(* ===== verification/TaskOps.thy ===== *)
theory TaskOps
  imports Task Convert
begin

text \<open>
  What Ruby and the host do with tasks (\<open>src/builtins/ext_task.rs\<close>, the \<open>task_*\<close> methods of \<open>src/vm.rs\<close>): making,
  ending and waiting for them, \<open>Task::Queue\<close>, the sleeps, the bounded run of a host loop. Exceptions carry the texts
  of the source; what only formats (\<open>inspect\<close>, \<open>Task.stat\<close>) is left out.
\<close>

section \<open>Arguments\<close>

definition te_num :: "'x tenv \<Rightarrow> 'x tworld num_env" where
  "te_num env = \<lparr>ne_ruby = te_ruby env, ne_float_text = te_float_text env, ne_c_range_error = te_c_range_error env,
     ne_c_rational = te_c_rational env, ne_c_complex = te_c_complex env, ne_s_to_i = te_s_to_i env\<rparr>"

definition task_id :: "'x tenv \<Rightarrow> rvalue \<Rightarrow> ('x tworld, obj_id) eff" where
  "task_id env v s = (case v of
      VObj o' \<Rightarrow> if td s o' \<noteq> None then ret o' s else raise_type (te_ruby env) (ascii ''not a Task'') s
    | _ \<Rightarrow> raise_type (te_ruby env) (ascii ''not a Task'') s)"

definition task_live :: "'x tenv \<Rightarrow> rvalue \<Rightarrow> ('x tworld, obj_id) eff" where
  "task_live env v = andthen (task_id env v) (\<lambda>o'. andthen (ask (\<lambda>s. is_queued s o')) (\<lambda>q s.
     if \<not> q \<and> ts_main (ts s) \<noteq> Some o' then raise_arg (te_ruby env) (ascii ''task is closed'') s else ret o' s))"

definition is_current :: "obj_id \<Rightarrow> 'x tvm \<Rightarrow> bool option" where
  "is_current o' s = map_option
     (\<lambda>me. me = Some o' \<or> mc_cur (mc s) = ROOT_CTX \<and> ts_main (ts s) = Some o') (current_task s)"

definition boundary_error :: "'x tenv \<Rightarrow> string \<Rightarrow> ('x tworld, 'a) eff" where
  "boundary_error env what s =
     (let (s1, at) = te_boundary env s
      in raise_exc (te_ruby env) (rb_c_runtime_error (te_ruby env))
           (ascii ''can't wait inside '' @ at @ ascii '' ('' @ ascii what @ ascii '')'') s1)"

definition at_boundary :: "'x tvm \<Rightarrow> bool option" where
  "at_boundary s = fiber_check_native s (mc_cur (mc s))"

section \<open>Making tasks\<close>

definition new_task :: "nat option \<Rightarrow> u8 \<Rightarrow> u8 \<Rightarrow> rvalue \<Rightarrow> task_data" where
  "new_task ctx pri status name = \<lparr>tk_ctx = ctx, tk_priority = pri, tk_status = status, tk_reason = REASON_NONE,
     tk_timeslice = TIMESLICE, tk_name = name, tk_result = VNil, tk_wakeup_tick = NEVER, tk_join = None, tk_queue = None,
     tk_instructions = 0, tk_place = place_none\<rparr>"

text \<open>A fresh context for a proc, at the end of the table.\<close>

definition push_context :: "obj_id \<Rightarrow> 'x tvm \<Rightarrow> 'x tvm \<times> nat" where
  "push_context p s =
     (mc_mod (\<lambda>m. m\<lparr>mc_contexts := mc_contexts m @ [(context_new F_Created)\<lparr>cx_proc := Some p\<rparr>]\<rparr>) s,
      length (mc_contexts (mc s)))"

definition create_task :: "obj_id \<Rightarrow> obj_id \<Rightarrow> rvalue \<Rightarrow> u8 \<Rightarrow> 'x tvm \<Rightarrow> ('x tvm \<times> obj_id) option" where
  "create_task cls p name pri s =
     (let (s1, ctx) = push_context p s;
          (s2, o') = vm_alloc cls (K_Task (new_task (Some ctx) pri READY name)) s1
      in map_option (\<lambda>s3. (s3, o')) (q_insert o' s2))"

fun task_args :: "'x tenv \<Rightarrow> (rvalue \<times> rvalue) list \<Rightarrow> rvalue \<times> rvalue \<Rightarrow> (rvalue + rvalue \<times> rvalue)" where
  "task_args env [] np = Inr np"
| "task_args env ((k, v) # es) (name, pri) =
     (if k = VSym (te_s_name env) then task_args env es (v, pri)
      else if k = VSym (te_s_priority env) then task_args env es (name, v)
      else Inl k)"

definition priority_of :: "'x tenv \<Rightarrow> rvalue \<Rightarrow> ('x tworld, u8) eff" where
  "priority_of env v = andthen (expect_int (te_num env) v) (\<lambda>n.
     if 0 \<le> sint n \<and> sint n \<le> 255 then ret (ucast n)
     else raise_arg (te_ruby env) (ascii ''priority must be 0..255''))"

text \<open>\<open>Task.current\<close>: in the root context, the task that stands for the program.\<close>

definition task_current :: "'x tenv \<Rightarrow> rvalue \<Rightarrow> ('x tworld, rvalue) eff" where
  "task_current env slf s = (case current_task s of
      None \<Rightarrow> None
    | Some (Some t) \<Rightarrow> ret (VObj t) s
    | Some None \<Rightarrow> (case ts_main (ts s) of
        Some t \<Rightarrow> ret (VObj t) s
      | None \<Rightarrow>
          (let cls = (case slf of VObj c \<Rightarrow> c | _ \<Rightarrow> co_object (te_core env));
               (s1, name) = str_new (te_ruby env) (ascii ''main'') s;
               (s2, o') = vm_alloc cls (K_Task (new_task (Some ROOT_CTX) 0 RUNNING name)) s1
           in ret (VObj o') (ts_mod (\<lambda>x. x\<lparr>ts_main := Some o'\<rparr>) s2))))"

definition all_tasks :: "'x tvm \<Rightarrow> obj_id list" where
  "all_tasks s = concat (map (\<lambda>q. queue_tasks q s) [0..<4])"

definition task_list :: "'x tenv \<Rightarrow> 'x tvm \<Rightarrow> 'x tvm \<times> rvalue" where
  "task_list env s =
     (let (s1, o') = vm_alloc (te_c_array env) (K_Array (ary_of (map VObj (all_tasks s)))) s in (s1, VObj o'))"

fun find_named :: "bytes \<Rightarrow> obj_id list \<Rightarrow> 'x tvm \<Rightarrow> obj_id option option" where
  "find_named want [] s = Some None"
| "find_named want (o' # os) s = do {
     t \<leftarrow> td s o';
     if (case tk_name t of VObj n \<Rightarrow> heap_string (vm_heap s) n = Some want | _ \<Rightarrow> False) then Some (Some o')
     else find_named want os s
   }"

definition task_get :: "'x tenv \<Rightarrow> rvalue \<Rightarrow> ('x tworld, rvalue) eff" where
  "task_get env name s = (case (case name of VObj n \<Rightarrow> heap_string (vm_heap s) n | _ \<Rightarrow> None) of
      None \<Rightarrow> (let (s1, d) = type_text (te_ruby env) name s
         in raise_type (te_ruby env) (d @ ascii '' cannot be converted to String'') s1)
    | Some want \<Rightarrow> andthen (ask (find_named want (all_tasks s)))
        (\<lambda>r. ret (case r of Some o' \<Rightarrow> VObj o' | None \<Rightarrow> VNil)) s)"

definition task_pass :: "'x tenv \<Rightarrow> ('x tworld, rvalue) eff" where
  "task_pass env = andthen (ask current_task) (\<lambda>me s. case me of
      None \<Rightarrow>
        if mc_cur (mc s) = ROOT_CTX \<and> \<not> ts_loop_running (ts s)
        then map_option (\<lambda>(s1, _). (s1, Inr VNil)) (scheduler_step env s) else ret VNil s
    | Some t \<Rightarrow> andthen (ask at_boundary) (\<lambda>b.
        if b then boundary_error env ''Task.pass''
        else andthen (act (set_status t READY)) (\<lambda>_ s1. ret VNil (park s1))) s)"

definition task_tick_ms :: "'x tvm \<Rightarrow> i64" where
  "task_tick_ms s = ucast (ts_tick (ts s)) * ucast TICK_UNIT_MS"

text \<open>\<open>reinit_context\<close>: a fresh context for the task, and ready again if it was over.\<close>

definition reinit_context :: "obj_id \<Rightarrow> obj_id \<Rightarrow> 'x tvm \<Rightarrow> 'x tvm option" where
  "reinit_context t p s = do {
     d \<leftarrow> td s t;
     s1 \<leftarrow> (case tk_ctx d of
          Some c \<Rightarrow> if c \<noteq> mc_cur (mc s)
            then do { s1 \<leftarrow> detach_context_envs c s; ctx_mod c (\<lambda>_. context_new F_Terminated) s1 } else Some s
        | None \<Rightarrow> Some s);
     let (s2, ctx) = push_context p s1;
     s3 \<leftarrow> td_mod t (\<lambda>x. x\<lparr>tk_ctx := Some ctx, tk_result := VNil\<rparr>) s2;
     d1 \<leftarrow> td s3 t;
     if tk_status d1 = DORMANT then do {
       s4 \<leftarrow> q_delete t s3;
       s5 \<leftarrow> td_mod t (\<lambda>x. x\<lparr>tk_status := READY\<rparr>) s4;
       q_insert t s5
     } else Some s3
   }"

text \<open>The class a constant names, or the class to use where it names none.\<close>

definition const_class :: "'x tenv \<Rightarrow> obj_id \<Rightarrow> sym \<Rightarrow> obj_id \<Rightarrow> 'x tvm \<Rightarrow> obj_id option" where
  "const_class env c name other s = map_option
     (\<lambda>v. case v of Some (VObj k) \<Rightarrow> k | _ \<Rightarrow> other) (const_get (te_core env) (vm_heap s) c name)"

partial_function (option) sync_loop :: "'x tenv \<Rightarrow> obj_id \<Rightarrow> ('x tworld, unit) eff" where
  "sync_loop env t s = (case td s t of
      None \<Rightarrow> None
    | Some d \<Rightarrow>
        if tk_status d = DORMANT \<or> place_queued (tk_place d) = None then ret () s
        else Option.bind (execute_task env t s) (\<lambda>s1. case td s1 t of
            None \<Rightarrow> None
          | Some d1 \<Rightarrow>
              if tk_status d1 = WAITING \<or> tk_status d1 = SUSPENDED
              then raise_exc (te_ruby env) (rb_c_runtime_error (te_ruby env)) (ascii ''synchronous execution cannot block'') s1
              else sync_loop env t s1))"

definition run_sync :: "'x tenv \<Rightarrow> obj_id \<Rightarrow> ('x tworld, rvalue) eff" where
  "run_sync env p =
     andthen (ask (const_class env (co_object (te_core env)) (te_s_Task env) (co_object (te_core env)))) (\<lambda>cls.
     andthen (\<lambda>s. map_option (\<lambda>(s1, t). (s1, Inr t)) (create_task cls p VNil 0 s)) (\<lambda>t.
     andthen (sync_loop env t) (\<lambda>_.
     andthen (ask (\<lambda>s. map_option tk_result (td s t))) (\<lambda>v.
     andthen (act (q_delete t)) (\<lambda>_. ret v)))))"

section \<open>Task::Queue\<close>

definition q_items :: "'x tenv \<Rightarrow> rvalue \<Rightarrow> ('x tworld, rvalue) eff" where
  "q_items env v s = (case v of
      VObj o' \<Rightarrow> (case heap_ivar_get (vm_heap s) o' (te_s_items env) of
          None \<Rightarrow> None
        | Some items \<Rightarrow> (case items of
            VObj i \<Rightarrow> (case heap_kind (vm_heap s) i of
                Some (K_Array _) \<Rightarrow> ret items s
              | Some _ \<Rightarrow> raise_arg (te_ruby env) (ascii ''invalid queue'') s
              | None \<Rightarrow> None)
          | _ \<Rightarrow> raise_arg (te_ruby env) (ascii ''invalid queue'') s))
    | _ \<Rightarrow> raise_arg (te_ruby env) (ascii ''invalid queue'') s)"

definition items_len :: "rvalue \<Rightarrow> 'x tvm \<Rightarrow> nat" where
  "items_len v s = (case v of
      VObj i \<Rightarrow> (case heap_kind (vm_heap s) i of Some (K_Array a) \<Rightarrow> ary_len a | _ \<Rightarrow> 0) | _ \<Rightarrow> 0)"

definition q_closed :: "'x tenv \<Rightarrow> rvalue \<Rightarrow> 'x tvm \<Rightarrow> bool option" where
  "q_closed env v s = (case v of
      VObj o' \<Rightarrow> map_option truthy (heap_ivar_get (vm_heap s) o' (te_s_closed env)) | _ \<Rightarrow> Some False)"

text \<open>\<open>Task::Error\<close>, or \<open>StandardError\<close> where the constants are gone.\<close>

definition task_error :: "'x tenv \<Rightarrow> string \<Rightarrow> ('x tworld, 'a) eff" where
  "task_error env msg =
     andthen (ask (\<lambda>s. const_get (te_core env) (vm_heap s) (co_object (te_core env)) (te_s_Task env))) (\<lambda>t.
     andthen (ask (\<lambda>s. case t of
        Some (VObj k) \<Rightarrow> const_class env k (te_s_Error env) (te_c_standard_error env) s
      | _ \<Rightarrow> Some (te_c_standard_error env))) (\<lambda>cls.
     raise_exc (te_ruby env) cls (ascii msg)))"

definition queue_init :: "'x tenv \<Rightarrow> rvalue \<Rightarrow> ('x tworld, rvalue) eff" where
  "queue_init env v s = (case v of
      VObj o' \<Rightarrow>
        (let (s1, i) = vm_alloc (te_c_array env) (K_Array (ary_of [])) s;
             h1 = heap_ivar_set (vm_heap s1) o' (te_s_items env) (VObj i);
             h2 = heap_ivar_set h1 o' (te_s_closed env) VFalse
         in ret v (s1\<lparr>vm_heap := h2\<rparr>))
    | _ \<Rightarrow> raise_type (te_ruby env) (ascii ''not a Queue'') s)"

definition queue_push :: "'x tenv \<Rightarrow> rvalue \<Rightarrow> rvalue \<Rightarrow> ('x tworld, unit) eff" where
  "queue_push env q v =
     andthen (q_items env q) (\<lambda>items.
     andthen (ask (q_closed env q)) (\<lambda>closed.
     if closed then task_error env ''queue closed''
     else andthen (rb_funcall (te_ruby env) items (te_s_push env) [v]) (\<lambda>_.
       case q of VObj o' \<Rightarrow> act (wake_queue_waiters o' False) | _ \<Rightarrow> ret ())))"

definition queue_len :: "'x tenv \<Rightarrow> rvalue \<Rightarrow> ('x tworld, nat) eff" where
  "queue_len env q = andthen (q_items env q) (\<lambda>items. ask (\<lambda>s. Some (items_len items s)))"

definition queue_try_pop :: "'x tenv \<Rightarrow> rvalue \<Rightarrow> ('x tworld, rvalue option) eff" where
  "queue_try_pop env q = andthen (q_items env q) (\<lambda>items s.
     if items_len items s = 0 then ret None s
     else andthen (rb_funcall (te_ruby env) items (te_s_shift env) []) (\<lambda>v. ret (Some v)) s)"

definition queue_new :: "'x tenv \<Rightarrow> ('x tworld, obj_id) eff" where
  "queue_new env =
     andthen (ask (\<lambda>s. const_get (te_core env) (vm_heap s) (co_object (te_core env)) (te_s_Task env))) (\<lambda>t. case t of
       Some (VObj k) \<Rightarrow>
         andthen (ask (\<lambda>s. const_get (te_core env) (vm_heap s) k (te_s_Queue env))) (\<lambda>q. case q of
           Some (VObj c) \<Rightarrow>
             andthen (rb_funcall (te_ruby env) (VObj c) (te_s_new env) []) (\<lambda>v. case v of
               VObj o' \<Rightarrow> ret o'
             | _ \<Rightarrow> raise_exc (te_ruby env) (rb_c_runtime_error (te_ruby env)) (ascii ''could not create the queue''))
         | _ \<Rightarrow> raise_exc (te_ruby env) (rb_c_runtime_error (te_ruby env)) (ascii ''Task::Queue is not defined''))
     | _ \<Rightarrow> raise_exc (te_ruby env) (rb_c_runtime_error (te_ruby env)) (ascii ''Task is not defined''))"

text \<open>\<open>Queue#__deadline\<close>: the tick a timeout in milliseconds falls on.\<close>

definition queue_deadline :: "'x tenv \<Rightarrow> rvalue \<Rightarrow> ('x tworld, i64) eff" where
  "queue_deadline env v = andthen (expect_int (te_num env) v) (\<lambda>ms s.
     if sint ms < 0 then raise_arg (te_ruby env) (ascii ''timeout_ms must be non-negative'') s
     else let ticks = (unat ms + 3) div 4
          in if ticks > 2 ^ 31 - 1
             then raise_exc (te_ruby env) (te_c_range_error env) (ascii ''timeout_ms is too large'') s
             else ret (ucast (normalize (ts_tick (ts s) + of_nat ticks))) s)"

definition queue_clear :: "'x tenv \<Rightarrow> rvalue \<Rightarrow> ('x tworld, rvalue) eff" where
  "queue_clear env q = andthen (q_items env q) (\<lambda>items s. case items of
      VObj i \<Rightarrow> ret q (vm_update i (\<lambda>x. case ho_kind x of K_Array a \<Rightarrow> x\<lparr>ho_kind := K_Array (ary_clear a)\<rparr> | _ \<Rightarrow> x) s)
    | _ \<Rightarrow> ret q s)"

definition queue_close :: "'x tenv \<Rightarrow> rvalue \<Rightarrow> ('x tworld, rvalue) eff" where
  "queue_close env q =
     andthen (q_items env q) (\<lambda>_.
     andthen (ask (q_closed env q)) (\<lambda>closed s. case q of
       VObj o' \<Rightarrow>
         if closed then ret q s
         else andthen (act (wake_queue_waiters o' True)) (\<lambda>_. ret q)
           (s\<lparr>vm_heap := heap_ivar_set (vm_heap s) o' (te_s_closed env) VTrue\<rparr>)
     | _ \<Rightarrow> ret q s))"

fun count_waiting :: "obj_id \<Rightarrow> obj_id list \<Rightarrow> 'x tvm \<Rightarrow> nat option" where
  "count_waiting me [] s = Some 0"
| "count_waiting me (o' # os) s = do {
     t \<leftarrow> td s o';
     n \<leftarrow> count_waiting me os s;
     Some (if tk_reason t = REASON_QUEUE \<and> tk_queue t = Some me then Suc n else n)
   }"

definition queue_num_waiting :: "'x tenv \<Rightarrow> rvalue \<Rightarrow> ('x tworld, nat) eff" where
  "queue_num_waiting env q = andthen (q_items env q) (\<lambda>_ s. case q of
      VObj me \<Rightarrow> (case waiting_for me True s of
          None \<Rightarrow> None
        | Some (s1, os) \<Rightarrow> ask (count_waiting me os) s1)
    | _ \<Rightarrow> ret 0 s)"

text \<open>One of the two answers of \<open>__pop_try\<close> that are no item.\<close>

definition sentinel :: "'x tenv \<Rightarrow> rvalue \<Rightarrow> sym \<Rightarrow> ('x tworld, rvalue) eff" where
  "sentinel env q name =
     andthen (ask (\<lambda>s. class_of (te_core env) (vm_heap s) q)) (\<lambda>cls.
     andthen (ask (\<lambda>s. const_get (te_core env) (vm_heap s) cls name)) (\<lambda>v.
     ret (case v of Some x \<Rightarrow> x | None \<Rightarrow> VNil)))"

text \<open>A task that waits: its reason and deadline, then its queue.\<close>

definition queue_wait :: "obj_id \<Rightarrow> obj_id option \<Rightarrow> u32 option \<Rightarrow> 'x tvm \<Rightarrow> 'x tvm option" where
  "queue_wait me q deadline s = do {
     s1 \<leftarrow> td_mod me (\<lambda>t. t\<lparr>tk_reason := REASON_QUEUE, tk_queue := q,
       tk_wakeup_tick := (case deadline of Some d \<Rightarrow> d | None \<Rightarrow> NEVER)\<rparr>) s;
     s2 \<leftarrow> set_status me WAITING s1;
     Some (park (case deadline of Some d \<Rightarrow> note_wakeup d s2 | None \<Rightarrow> s2))
   }"

definition queue_block :: "'x tenv \<Rightarrow> rvalue \<Rightarrow> u32 option \<Rightarrow> ('x tworld, rvalue) eff" where
  "queue_block env q deadline = andthen (ask current_task) (\<lambda>me. case me of
      None \<Rightarrow> raise_exc (te_ruby env) (rb_c_runtime_error (te_ruby env))
        (ascii ''blocking pop can only be called from within a task'')
    | Some t \<Rightarrow> andthen (ask at_boundary) (\<lambda>b.
        if b then boundary_error env ''Task::Queue#pop''
        else andthen (act (queue_wait t (value_obj q) deadline)) (\<lambda>_. sentinel env q (te_s_retry env))))"

definition queue_pop_try :: "'x tenv \<Rightarrow> rvalue \<Rightarrow> rvalue \<Rightarrow> rvalue \<Rightarrow> ('x tworld, rvalue) eff" where
  "queue_pop_try env q non_block deadline =
     andthen (q_items env q) (\<lambda>items s.
     if items_len items s > 0 then rb_funcall (te_ruby env) items (te_s_shift env) [] s
     else andthen (ask (q_closed env q)) (\<lambda>closed.
       if closed then ret VNil
       else if truthy non_block then task_error env ''queue empty''
       else if deadline = VNil then queue_block env q None
       else andthen (expect_int (te_num env) deadline) (\<lambda>n s.
         let d = (ucast n :: u32)
         in if sint (d - ts_tick (ts s)) \<le> 0 then sentinel env q (te_s_timeout env) s
            else queue_block env q (Some d) s)) s)"

section \<open>Task instance methods\<close>

definition task_set_priority :: "'x tenv \<Rightarrow> rvalue \<Rightarrow> rvalue \<Rightarrow> ('x tworld, rvalue) eff" where
  "task_set_priority env slf v =
     andthen (task_live env slf) (\<lambda>o'.
     andthen (priority_of env v) (\<lambda>n.
     andthen (act (\<lambda>s. do {
       s1 \<leftarrow> q_delete o' s;
       s2 \<leftarrow> td_mod o' (\<lambda>t. t\<lparr>tk_priority := n\<rparr>) s1;
       q_insert o' s2
     })) (\<lambda>_. ret v)))"

definition task_suspend :: "'x tenv \<Rightarrow> rvalue \<Rightarrow> ('x tworld, rvalue) eff" where
  "task_suspend env slf =
     andthen (task_live env slf) (\<lambda>o'.
     andthen (ask (\<lambda>s. td s o')) (\<lambda>t.
     if tk_status t = DORMANT then ret slf
     else andthen (ask current_task) (\<lambda>me.
       andthen (act (set_status o' SUSPENDED)) (\<lambda>_ s. ret slf (if me = Some o' then park s else s)))))"

definition task_resume :: "'x tenv \<Rightarrow> rvalue \<Rightarrow> ('x tworld, rvalue) eff" where
  "task_resume env slf =
     andthen (task_live env slf) (\<lambda>o'.
     andthen (ask (\<lambda>s. td s o')) (\<lambda>t.
     if tk_status t = SUSPENDED \<or> tk_status t = WAITING \<and> tk_reason t = REASON_SLEEP
     then andthen (act (\<lambda>s. do {
         s1 \<leftarrow> td_mod o' (\<lambda>t. t\<lparr>tk_reason := REASON_NONE, tk_wakeup_tick := NEVER\<rparr>) s;
         set_status o' READY s1
       })) (\<lambda>_. ret slf)
     else ret slf))"

text \<open>The end of a task that ended itself: the scheduler takes over.\<close>

definition leave_context :: "'x tvm \<Rightarrow> 'x tvm option" where
  "leave_context s =
     (let c = mc_cur (mc s)
      in do {
        x \<leftarrow> ctx_at s c;
        s1 \<leftarrow> ctx_mod c (\<lambda>x. x\<lparr>cx_prev := None, cx_status := F_Terminated, cx_vmexec := False\<rparr>) s;
        s2 \<leftarrow> switch_context (case cx_prev x of Some p \<Rightarrow> p | None \<Rightarrow> ROOT_CTX) s1;
        Some (if cx_vmexec x then mc_mod (\<lambda>m. m\<lparr>mc_loop_exit := Some VNil\<rparr>) s2 else s2)
      })"

definition task_terminate :: "'x tenv \<Rightarrow> rvalue \<Rightarrow> ('x tworld, rvalue) eff" where
  "task_terminate env slf =
     andthen (task_live env slf) (\<lambda>o'.
     andthen (ask (\<lambda>s. td s o')) (\<lambda>t.
     if tk_status t = DORMANT then ret slf
     else andthen (ask current_task) (\<lambda>me.
       andthen (act (stop_task o')) (\<lambda>_.
       andthen (if me = Some o' then act leave_context else ret ()) (\<lambda>_. ret slf)))))"

definition close_task :: "obj_id \<Rightarrow> 'x tvm \<Rightarrow> 'x tvm option" where
  "close_task o' s = do {
     s1 \<leftarrow> q_delete o' s;
     d \<leftarrow> td s1 o';
     s2 \<leftarrow> (case tk_ctx d of
          Some c \<Rightarrow>
            if c = mc_cur (mc s1) then Some s1
            else do {
              x \<leftarrow> ctx_at s1 c;
              if cx_status x = F_Terminated then Some s1
              else do { s2 \<leftarrow> detach_context_envs c s1; clear_context c s2 }
            }
        | None \<Rightarrow> Some s1);
     td_mod o' (\<lambda>t. t\<lparr>tk_status := DORMANT\<rparr>) s2
   }"

definition task_close :: "'x tenv \<Rightarrow> rvalue \<Rightarrow> ('x tworld, rvalue) eff" where
  "task_close env slf =
     andthen (task_id env slf) (\<lambda>o'.
     andthen (ask (is_current o')) (\<lambda>me.
     if me then raise_exc (te_ruby env) (rb_c_runtime_error (te_ruby env)) (ascii ''cannot close the current task'')
     else andthen (act (close_task o')) (\<lambda>_. ret VNil)))"

definition task_join :: "'x tenv \<Rightarrow> rvalue \<Rightarrow> ('x tworld, rvalue) eff" where
  "task_join env slf =
     andthen (task_live env slf) (\<lambda>o'.
     andthen (ask current_task) (\<lambda>me. case me of
       None \<Rightarrow> raise_exc (te_ruby env) (rb_c_runtime_error (te_ruby env)) (ascii ''join can only be called from running task'')
     | Some m \<Rightarrow>
         if m = o' then raise_arg (te_ruby env) (ascii ''can't join self'')
         else andthen (ask (\<lambda>s. td s o')) (\<lambda>t.
           if tk_status t = DORMANT then ret (tk_result t)
           else andthen (act (\<lambda>s. do {
               s1 \<leftarrow> td_mod m (\<lambda>x. x\<lparr>tk_reason := REASON_JOIN, tk_join := Some o'\<rparr>) s;
               s2 \<leftarrow> set_status m WAITING s1;
               Some (park s2)
             })) (\<lambda>_. ask (\<lambda>s. map_option tk_result (td s o'))))))"

definition task_value :: "'x tenv \<Rightarrow> rvalue \<Rightarrow> ('x tworld, rvalue) eff" where
  "task_value env slf = andthen (task_id env slf) (\<lambda>o'. ask (\<lambda>s. map_option tk_result (td s o')))"

end
