(* ===== verification/TaskHost.thy ===== *)
theory TaskHost
  imports TaskOps
begin

text \<open>
  The sleeps of \<open>src/builtins/ext_task.rs\<close> and what a host asks the scheduler for (\<open>src/vm.rs\<close>): a bounded run, the
  settings, where a task stands, the slice a checkpoint stopped in.
\<close>

section \<open>Sleeping\<close>

text \<open>Microseconds since the epoch, where the host lends a clock.\<close>

definition wall_micros :: "'x tenv \<Rightarrow> 'x tvm \<Rightarrow> 'x tvm \<times> u64 option" where
  "wall_micros env s = (case te_wall env of
      None \<Rightarrow> (s, None)
    | Some f \<Rightarrow>
        (let (x, secs, ns) = f (mc_rest (mc s))
         in (mc_mod (\<lambda>m. m\<lparr>mc_rest := x\<rparr>) s,
             Some ((if sint secs < 0 then 0 else ucast secs) * 1000000 + (if sint ns < 0 then 0 else ucast ns) div 1000))))"

text \<open>Microseconds to milliseconds, kept in 32 bits, to ticks, each rounded up.\<close>

definition sleep_ticks :: "u64 \<Rightarrow> u32" where
  "sleep_ticks micros =
     (let ms = (of_nat ((unat micros + 999) div 1000) :: u32)
      in of_nat ((unat ms + (unat TICK_UNIT_MS - 1)) div unat TICK_UNIT_MS))"

definition sleep_task :: "obj_id \<Rightarrow> u32 \<Rightarrow> 'x tvm \<Rightarrow> 'x tvm option" where
  "sleep_task t ticks s =
     (let deadline = normalize (ts_tick (ts s) + ticks)
      in do {
        s1 \<leftarrow> td_mod t (\<lambda>d. d\<lparr>tk_reason := REASON_SLEEP, tk_wakeup_tick := deadline\<rparr>) s;
        s2 \<leftarrow> set_status t WAITING s1;
        Some (park (note_wakeup deadline s2))
      })"

definition host_sleep :: "'x tenv \<Rightarrow> u64 \<Rightarrow> 'x tvm \<Rightarrow> 'x tvm" where
  "host_sleep env micros s = (case te_sleep env of
      None \<Rightarrow> s | Some f \<Rightarrow> mc_mod (\<lambda>m. m\<lparr>mc_rest := f micros (mc_rest m)\<rparr>) s)"

definition sleep_us :: "'x tenv \<Rightarrow> u64 \<Rightarrow> string \<Rightarrow> ('x tworld, rvalue) eff" where
  "sleep_us env micros what =
     andthen (ask current_task) (\<lambda>me.
     andthen (if me \<noteq> None then ask at_boundary else ret False) (\<lambda>b.
     if b then boundary_error env what
     else case me of
         None \<Rightarrow> andthen (act (\<lambda>s. advance_ticks (sleep_ticks micros) (host_sleep env micros s))) (\<lambda>_. ret VNil)
       | Some t \<Rightarrow> andthen (act (sleep_task t (sleep_ticks micros))) (\<lambda>_. ret VNil)))"

text \<open>What a wait answers: the time the wall clock says went by, or the time asked for.\<close>

definition waited :: "u64 option \<Rightarrow> u64 option \<Rightarrow> u64 \<Rightarrow> i64 \<Rightarrow> i64" where
  "waited before after unit other = (case (before, after) of
      (Some b, Some e) \<Rightarrow> if e \<ge> b then ucast ((e - b) div unit) else other
    | _ \<Rightarrow> other)"

definition timed_sleep :: "'x tenv \<Rightarrow> u64 \<Rightarrow> string \<Rightarrow> u64 \<Rightarrow> i64 \<Rightarrow> ('x tworld, rvalue) eff" where
  "timed_sleep env micros what unit other s =
     (let (s1, before) = wall_micros env s
      in andthen (sleep_us env micros what) (\<lambda>_ s2.
           let (s3, after) = wall_micros env s2 in ret (VInt (waited before after unit other)) s3) s1)"

definition kernel_sleep :: "'x tenv \<Rightarrow> rvalue option \<Rightarrow> ('x tworld, rvalue) eff" where
  "kernel_sleep env arg = (case arg of
      None \<Rightarrow> andthen (ask current_task) (\<lambda>me. case me of
          None \<Rightarrow> ret VNil
        | Some t \<Rightarrow> andthen (ask at_boundary) (\<lambda>b.
            if b then boundary_error env ''sleep''
            else andthen (act (set_status t SUSPENDED)) (\<lambda>_ s. ret VNil (park s))))
    | Some v \<Rightarrow> andthen (te_secs_micros env v) (\<lambda>micros.
        timed_sleep env micros ''sleep'' 1000000 (ucast (micros div 1000000))))"

definition kernel_sleep_ms :: "'x tenv \<Rightarrow> rvalue \<Rightarrow> ('x tworld, rvalue) eff" where
  "kernel_sleep_ms env v = andthen (expect_int (te_num env) v) (\<lambda>ms.
     if sint ms < 0 then raise_arg (te_ruby env) (ascii ''time interval must be positive'')
     else andthen (sleep_us env (if unat ms * 1000 < 2 ^ 64 then ucast ms * 1000 else - 1) ''sleep_ms'') (\<lambda>_. ret VNil))"

definition kernel_usleep :: "'x tenv \<Rightarrow> rvalue \<Rightarrow> ('x tworld, rvalue) eff" where
  "kernel_usleep env v = andthen (expect_int (te_num env) v) (\<lambda>us.
     if sint us < 0 then raise_arg (te_ruby env) (ascii ''time interval must be positive'')
     else timed_sleep env (ucast us) ''usleep'' 1 us)"

section \<open>Settings\<close>

definition task_set_clock :: "bool \<Rightarrow> 'x tvm \<Rightarrow> 'x tvm" where
  "task_set_clock clock s = update_limits (ts_mod (\<lambda>x. x\<lparr>ts_clock := clock\<rparr>) s)"

definition task_set_native_sample :: "u32 \<Rightarrow> 'x tvm \<Rightarrow> 'x tvm" where
  "task_set_native_sample every s =
     ts_mod (\<lambda>x. x\<lparr>ts_native_every := max every 1, ts_native_left := min (ts_native_left x) (max every 1)\<rparr>) s"

definition task_set_timeslice :: "timeslice_kind \<Rightarrow> 'x tvm \<Rightarrow> 'x tvm" where
  "task_set_timeslice k s = update_limits (ts_mod (\<lambda>x. x\<lparr>ts_timeslice := k\<rparr>) s)"

definition task_external_clock :: "bool \<Rightarrow> 'x tvm \<Rightarrow> 'x tvm" where
  "task_external_clock yes s = ts_mod (\<lambda>x. x\<lparr>ts_clock_from_instructions := \<not> yes\<rparr>) s"

definition task_running :: "'x tvm \<Rightarrow> obj_id option" where
  "task_running s = ts_running (ts s)"

section \<open>A bounded run\<close>

record run_limits =
  rl_instructions :: "u64 option"
  rl_time_ns :: "u64 option"
  rl_overrun_ns :: "u64 option"
  rl_overrun_instructions :: "u64 option"

text \<open>Whether the run is over before another turn; a clock is read only where a limit is kept on it.\<close>

definition time_up :: "'x tenv \<Rightarrow> 'x tvm \<Rightarrow> 'x tvm \<times> bool" where
  "time_up env s =
     (if ts_clock (ts s) \<and> (ts_run_soft (ts s) \<noteq> None \<or> ts_run_hard (ts s) \<noteq> None)
      then let (s1, now) = read_clock env s
           in (s1, past (ts_run_soft (ts s1)) now \<or> past (ts_run_hard (ts s1)) now)
      else (s, False))"

partial_function (option) task_run_limited :: "'x tenv \<Rightarrow> u64 \<Rightarrow> u64 option \<Rightarrow> 'x tvm \<Rightarrow> ('x tvm \<times> u64) option" where
  "task_run_limited env start budget s =
     (let spent = mc_instructions (mc s) - start
      in if (case budget of Some b \<Rightarrow> spent \<ge> b | None \<Rightarrow> False) then Some (s, spent)
         else let (s1, up) = time_up env s
              in if up \<or> past (ts_run_hard_instructions (ts s1)) (mc_instructions (mc s1)) then Some (s1, spent)
                 else do {
                   (s2, turn) \<leftarrow> task_step env s1;
                   if turn = Stuck then Some (s2, mc_instructions (mc s2) - start)
                   else task_run_limited env start budget s2
                 })"

definition clock_limit :: "u64 option \<Rightarrow> u64 option \<Rightarrow> u64 option" where
  "clock_limit now d = (case (now, d) of (Some n, Some k) \<Rightarrow> Some (sat_add n k) | _ \<Rightarrow> None)"

definition task_run_limits :: "'x tenv \<Rightarrow> run_limits \<Rightarrow> 'x tvm \<Rightarrow> ('x tvm \<times> u64) option" where
  "task_run_limits env l s =
     (let start = mc_instructions (mc s);
          (s1, now) = (if ts_clock (ts s) then (let (s1, n) = read_clock env s in (s1, Some n)) else (s, None));
          s2 = update_limits (ts_mod (\<lambda>x. x\<lparr>ts_run_soft := clock_limit now (rl_time_ns l),
            ts_run_hard := clock_limit now (rl_overrun_ns l),
            ts_run_hard_instructions := map_option (sat_add start) (rl_overrun_instructions l),
            ts_overrun := False, ts_native_left := max (ts_native_every x) 1\<rparr>) s1)
      in map_option (\<lambda>(s3, spent). (update_limits (ts_mod (\<lambda>x. x\<lparr>ts_run_soft := None, ts_run_hard := None,
             ts_run_hard_instructions := None, ts_overrun := False\<rparr>) s3), spent))
           (task_run_limited env start (rl_instructions l) s2))"

definition task_run_budget :: "'x tenv \<Rightarrow> u64 \<Rightarrow> 'x tvm \<Rightarrow> ('x tvm \<times> u64) option" where
  "task_run_budget env budget =
     task_run_limits env \<lparr>rl_instructions = Some budget, rl_time_ns = None, rl_overrun_ns = None, rl_overrun_instructions = None\<rparr>"

section \<open>Looking at a task\<close>

definition the_task :: "'x tvm \<Rightarrow> obj_id \<Rightarrow> 'a \<Rightarrow> (task_data \<Rightarrow> 'a) \<Rightarrow> 'a option" where
  "the_task s t other f = map_option (\<lambda>k. case k of K_Task d \<Rightarrow> f d | _ \<Rightarrow> other) (heap_kind (vm_heap s) t)"

definition task_instructions :: "'x tvm \<Rightarrow> obj_id \<Rightarrow> u64 option" where
  "task_instructions s t = the_task s t 0 tk_instructions"

definition task_result :: "'x tvm \<Rightarrow> obj_id \<Rightarrow> rvalue option" where
  "task_result s t = the_task s t VNil tk_result"

definition task_context :: "'x tvm \<Rightarrow> obj_id \<Rightarrow> nat option option" where
  "task_context s t = the_task s t None tk_ctx"

definition task_is_dormant :: "'x tvm \<Rightarrow> obj_id \<Rightarrow> bool option" where
  "task_is_dormant s t = the_task s t False (\<lambda>d. tk_status d = DORMANT)"

text \<open>The frames of a task with debug information, innermost first.\<close>

definition frame_location :: "vm_irep list \<Rightarrow> call_info \<Rightarrow> (bytes \<times> u32) option" where
  "frame_location irs f =
     (if ci_irep f < length irs
      then let ir = irs ! ci_irep f
           in if vi_lines ir = [] then None
              else Some (case vi_filename ir of Some n \<Rightarrow> n | None \<Rightarrow> ascii ''(unknown)'',
                case vi_line_of ir (ci_pc f - 1) of Some l \<Rightarrow> l | None \<Rightarrow> 0)
      else None)"

definition frames_of :: "'x tvm \<Rightarrow> nat \<Rightarrow> call_info list option" where
  "frames_of s c = (if c = mc_cur (mc s) then Some (mc_ci (mc s)) else map_option cx_ci (ctx_at s c))"

definition task_frames :: "'x tvm \<Rightarrow> obj_id \<Rightarrow> (bytes \<times> u32) list option" where
  "task_frames s t = map_option
     (\<lambda>c. case c of None \<Rightarrow> []
       | Some n \<Rightarrow> (case frames_of s n of
           None \<Rightarrow> [] | Some fs \<Rightarrow> List.map_filter (frame_location (mc_ireps (mc s))) (rev fs)))
     (task_context s t)"

definition task_location :: "'x tvm \<Rightarrow> obj_id \<Rightarrow> (bytes \<times> u32) option option" where
  "task_location s t = map_option
     (\<lambda>c. case c of None \<Rightarrow> None
       | Some n \<Rightarrow> (case frames_of s n of
           None \<Rightarrow> None
         | Some fs \<Rightarrow> (case List.map_filter (frame_location (mc_ireps (mc s))) (rev fs) of [] \<Rightarrow> None | x # _ \<Rightarrow> Some x)))
     (task_context s t)"

section \<open>Programs and checkpoints\<close>

definition irep_gone :: "'x tvm \<Rightarrow> nat \<Rightarrow> bool" where
  "irep_gone s i \<longleftrightarrow> \<not> (i < length (mc_ireps (mc s)) \<and> vi_iseq (mc_ireps (mc s) ! i) \<noteq> [])"

definition task_spawn :: "'x tenv \<Rightarrow> nat \<Rightarrow> u8 \<Rightarrow> bytes option \<Rightarrow> ('x tworld, obj_id) eff" where
  "task_spawn env irep pri name s =
     (if irep_gone s irep then raise_arg (te_ruby env) (ascii ''the program was unloaded'') s
      else let (s1, p) = vm_alloc (te_c_proc env) (K_Proc \<lparr>pr_irep = irep, pr_upper = None, pr_env = None,
                 pr_target_class = Some (co_object (te_core env)), pr_strict = False, pr_scope = True, pr_orphan = False,
                 pr_mid = None\<rparr>) s
           in andthen (ask (const_class env (co_object (te_core env)) (te_s_Task env) (co_object (te_core env)))) (\<lambda>cls s2.
                let (s3, v) = (case name of Some n \<Rightarrow> str_new (te_ruby env) n s2 | None \<Rightarrow> (s2, VNil))
                in map_option (\<lambda>(s4, t). (s4, Inr t)) (create_task cls p v pri s3)) s1)"

definition checkpoint_enqueue :: "obj_id \<Rightarrow> 'x tvm \<Rightarrow> 'x tvm option" where
  "checkpoint_enqueue o' s = q_insert o' s"

definition checkpoint_slice :: "'x tenv \<Rightarrow> obj_id \<Rightarrow> nat \<Rightarrow> bool \<Rightarrow> 'x tvm \<Rightarrow> 'x tvm option" where
  "checkpoint_slice env t start ended s = do {
     d \<leftarrow> td s t;
     ctx \<leftarrow> tk_ctx d;
     if ended then do {
       x \<leftarrow> ctx_at s ctx;
       if cx_status x = F_Terminated \<or> tk_status d = DORMANT then stop_task t s
       else if tk_status d = RUNNING then set_status t READY s
       else Some s
     }
     else do {
       let old = mc_cur (mc s);
       let s1 = slice_begin t (td_put t (d\<lparr>tk_status := RUNNING\<rparr>) s);
       s2 \<leftarrow> enter_context old ctx start s1;
       (s3, r) \<leftarrow> te_run env ctx s2;
       slice_over old t ctx (mc_instructions (mc s2)) r s3
     }
   }"

end
