(* ===== verification/TaskLive.thy ===== *)
theory TaskLive
  imports TaskTick TaskHost
begin

text \<open>
  The scheduler never loses a wake-up: the tick it is to wake at is never later than the deadline of a task that
  waits, whatever tasks do, so moving the clock wakes exactly the tasks that are due, and a host loop is stuck only
  when nothing is pending.
\<close>

section \<open>No deadline is missed\<close>

definition v_ahead :: "sched \<Rightarrow> u32 \<Rightarrow> int" where
  "v_ahead v d = sint (d - sc_tick v)"

definition sleeping :: "task_data \<Rightarrow> bool" where
  "sleeping t \<longleftrightarrow> in_waiting t \<and> has_deadline t"

definition v_timely :: "sched \<Rightarrow> bool" where
  "v_timely v \<longleftrightarrow> (sc_wakeup v \<noteq> NEVER \<longrightarrow> - 1 \<le> v_ahead v (sc_wakeup v)) \<and>
     (\<forall>o' t. sc_tasks v o' = Some t \<longrightarrow> sleeping t \<longrightarrow>
        sc_wakeup v \<noteq> NEVER \<and> v_ahead v (sc_wakeup v) \<le> v_ahead v (tk_wakeup_tick t))"

definition sched_good :: "'x tvm \<Rightarrow> bool" where
  "sched_good s \<longleftrightarrow> settled s \<and> v_timely (view s)"

lemma sleeping_strip [simp]: "sleeping (strip t) = sleeping t"
  by (simp add: sleeping_def strip_def in_waiting_def has_deadline_def)

lemma in_waiting_strip [simp]: "in_waiting (strip t) = in_waiting t"
  by (simp add: in_waiting_def strip_def)

lemma strip_fields [simp]: "tk_status (strip t) = tk_status t" "place_queued (tk_place (strip t)) = place_queued (tk_place t)"
  by (simp_all add: strip_def place_unindex_def place_queued_def)

lemma v_timelyD:
  assumes "v_timely (view s)" "td s o' = Some t" "sleeping t"
  shows "ts_wakeup_tick (ts s) \<noteq> NEVER" "- 1 \<le> ahead (ts s) (ts_wakeup_tick (ts s))"
    "ahead (ts s) (ts_wakeup_tick (ts s)) \<le> ahead (ts s) (tk_wakeup_tick t)"
proof -
  have "sc_tasks (view s) o' = Some (strip t)" "sleeping (strip t)" using assms(2,3) by (simp_all add: view_def)
  with assms(1) have "sc_wakeup (view s) \<noteq> NEVER \<and> - 1 \<le> v_ahead (view s) (sc_wakeup (view s)) \<and>
      v_ahead (view s) (sc_wakeup (view s)) \<le> v_ahead (view s) (tk_wakeup_tick (strip t))"
    unfolding v_timely_def by blast
  then show "ts_wakeup_tick (ts s) \<noteq> NEVER" "- 1 \<le> ahead (ts s) (ts_wakeup_tick (ts s))"
    "ahead (ts s) (ts_wakeup_tick (ts s)) \<le> ahead (ts s) (tk_wakeup_tick t)"
    by (simp_all add: view_def v_ahead_def ahead_def)
qed

lemma good_near: "sched_good s \<Longrightarrow> deadlines_near s"
  unfolding deadlines_near_def sched_good_def using v_timelyD(2,3) sleeping_def by (metis order_trans)

section \<open>Moving tasks between queues\<close>

lemma ref_leave_tasks: "sc_tasks (ref_leave o' t pl v) = (sc_tasks v)(o' \<mapsto> t)" "sc_tick (ref_leave o' t pl v) = sc_tick v"
  "sc_wakeup (ref_leave o' t pl v) = sc_wakeup v"
  by (simp_all add: ref_leave_def)

lemma ref_requeue_timely:
  assumes "v_timely v" "\<not> (q_of (tk_status t) = Q_WAITING \<and> has_deadline t)"
  shows "v_timely (ref_requeue o' t v)"
proof -
  have "\<not> sleeping (t\<lparr>tk_place := place_set (q_of (tk_status t)) key None None\<rparr>)" for key
    using assms(2) by (auto simp: sleeping_def in_waiting_def has_deadline_def)
  with assms(1) show ?thesis
    by (auto simp: v_timely_def v_ahead_def ref_requeue_def ref_enter_def ref_leave_tasks Let_def split: option.splits)
qed

lemma ref_leave_timely: "v_timely v \<Longrightarrow> \<not> sleeping t \<Longrightarrow> v_timely (ref_leave o' t pl v)"
  by (auto simp: v_timely_def v_ahead_def ref_leave_tasks)

definition noted :: "u32 \<Rightarrow> u32 \<Rightarrow> u32" where
  "noted d w = (if w = NEVER \<or> sint (d - w) < 0 then d else w)"

lemma note_wakeup_eq: "note_wakeup d s = ts_mod (\<lambda>x. x\<lparr>ts_wakeup_tick := noted d (ts_wakeup_tick x)\<rparr>) s"
  unfolding note_wakeup_def noted_def by (auto intro: ts_mod_cong ts_mod_same)

lemma noted_least:
  assumes "d \<noteq> NEVER" "- 1 \<le> sint (d - now)" "sint (d - now) < 2 ^ 31 - 1" "w \<noteq> NEVER \<longrightarrow> - 1 \<le> sint (w - now)"
  shows "noted d w \<noteq> NEVER" "- 1 \<le> sint (noted d w - now)" "sint (noted d w - now) \<le> sint (d - now)"
    "w \<noteq> NEVER \<Longrightarrow> sint (noted d w - now) \<le> sint (w - now)"
proof -
  have "sint (d - w) = sint (d - now) - sint (w - now)" if "w \<noteq> NEVER"
  proof -
    have b: "sint x < 2 ^ 31" for x :: u32 using sint_lt [of x] by simp
    have "sint ((d - now) - (w - now)) = sint (d - now) - sint (w - now)"
      using assms that b [of "d - now"] b [of "w - now"] by (intro sint_diff; simp; linarith?)
    then show ?thesis by simp
  qed
  with assms show "noted d w \<noteq> NEVER" "- 1 \<le> sint (noted d w - now)" "sint (noted d w - now) \<le> sint (d - now)"
    "w \<noteq> NEVER \<Longrightarrow> sint (noted d w - now) \<le> sint (w - now)" by (auto simp: noted_def)
qed

lemma ref_sleep_timely:
  assumes "v_timely v" "sc_tasks v o' \<noteq> None" "has_deadline t" "- 1 \<le> v_ahead v (tk_wakeup_tick t)"
    "v_ahead v (tk_wakeup_tick t) < 2 ^ 31 - 1"
  shows "v_timely ((ref_requeue o' t v)\<lparr>sc_wakeup := noted (tk_wakeup_tick t) (sc_wakeup v)\<rparr>)"
proof -
  have d: "tk_wakeup_tick t \<noteq> NEVER" using assms(3) by (simp add: has_deadline_def)
  note n = noted_least [OF d, of "sc_tick v" "sc_wakeup v"]
  have a: "- 1 \<le> sint (tk_wakeup_tick t - sc_tick v)" "sint (tk_wakeup_tick t - sc_tick v) < 2 ^ 31 - 1" "sc_wakeup v \<noteq> NEVER \<longrightarrow> - 1 \<le> sint (sc_wakeup v - sc_tick v)"
    using assms(1,4,5) by (simp_all add: v_timely_def v_ahead_def)
  have r: "sc_tasks (ref_requeue o' t v) = (sc_tasks v)(o' \<mapsto> t\<lparr>tk_place := place_set (q_of (tk_status t))
      (if q_of (tk_status t) = Q_READY then tk_priority t else 0, sc_seq v) None None\<rparr>)" "sc_tick (ref_requeue o' t v) = sc_tick v"
    using assms(2) by (auto simp: ref_requeue_def ref_enter_def ref_leave_tasks Let_def ref_leave_def split: option.splits)
  have least: "noted (tk_wakeup_tick t) (sc_wakeup v) \<noteq> NEVER \<and>
      sint (noted (tk_wakeup_tick t) (sc_wakeup v) - sc_tick v) \<le> sint (tk_wakeup_tick u - sc_tick v)"
    if u: "((sc_tasks v)(o' \<mapsto> t\<lparr>tk_place := place_set (q_of (tk_status t))
      (if q_of (tk_status t) = Q_READY then tk_priority t else 0, sc_seq v) None None\<rparr>)) p = Some u" "sleeping u" for p u
  proof (cases "p = o'")
    case True
    then show ?thesis using u(1) n(1,3) [OF a] by auto
  next
    case False
    then have "sc_wakeup v \<noteq> NEVER \<and> sint (sc_wakeup v - sc_tick v) \<le> sint (tk_wakeup_tick u - sc_tick v)"
      using assms(1) u by (auto simp: v_timely_def v_ahead_def)
    with n(1,4) [OF a] show ?thesis by linarith
  qed
  then show ?thesis using n(2) [OF a] by (simp add: v_timely_def v_ahead_def r)
qed

section \<open>Moving the clock\<close>

definition clock_room :: "'x tvm \<Rightarrow> bool" where
  "clock_room s \<longleftrightarrow> uint (ts_tick_abs (ts s)) + 2 ^ 32 < 2 ^ 63"

lemma sint_small: "uint (n :: u32) < 2 ^ 31 \<Longrightarrow> sint n = uint n"
  unfolding sint_uint by (intro signed_take_bit_int_eq_self; simp; insert uint_ge_0 [of n]; linarith)

lemma uint_of_sint: "0 \<le> sint (x :: u32) \<Longrightarrow> uint x = sint x"
  using sint_lt [of x] by (subst uint_sint, intro take_bit_int_eq_self) simp_all

lemma ahead_moved:
  assumes "- 1 \<le> sint (d - now)" "uint (n :: u32) < 2 ^ 31"
  shows "sint (d - (now + n)) = sint (d - now) - uint n"
proof -
  have "sint n = uint n" using assms(2) by (intro sint_small) simp
  moreover have "d - (now + n) = (d - now) - n" by simp
  moreover have "sint (d - now - n) = sint (d - now) - sint n"
    using assms \<open>sint n = uint n\<close> sint_lt [of "d - now"] by (intro sint_diff; simp; insert uint_ge_0 [of n]; linarith)
  ultimately show ?thesis by (simp only:)
qed

lemma advance_settled:
  assumes s: "sched_good s" "clock_room s" and n: "uint n < 2 ^ 31"
  shows "settled (ts_mod (\<lambda>x. x\<lparr>ts_tick := ts_tick x + n\<rparr>) s)"
proof -
  let ?s = "ts_mod (\<lambda>x. x\<lparr>ts_tick := ts_tick x + n\<rparr>) s"
  have ok: "queues_ok s" "indexes_ok s" "clock_ok s" "ts_due (ts s) = []" "v_timely (view s)"
    using s(1) by (simp_all add: sched_good_def settled_def sched_ok_def)
  have sleepers: "uint d = now_abs (ts ?s) + ahead (ts ?s) (tk_wakeup_tick t) \<and> uint d < uint (ts_tick_abs (ts ?s)) + 2 ^ 31"
    if t: "td s o' = Some t" "place_sleep_key (tk_place t) = Some (d, seq)" for o' t d seq
  proof -
    have "entry_ok (ts_indexed (ts s)) t" using ok(2) t(1) unfolding indexes_ok_def by blast
    then have "sleeping t" using t(2) by (simp add: entry_ok_def sleeping_def)
    then have a: "- 1 \<le> sint (tk_wakeup_tick t - ts_tick (ts s))" using v_timelyD(2,3) [OF ok(5) t(1)] by (simp add: ahead_def)
    have d: "uint d = now_abs (ts s) + ahead (ts s) (tk_wakeup_tick t)" "uint d < uint (ts_tick_abs (ts s)) + 2 ^ 31"
      using ok(3) t unfolding clock_ok_def by blast+
    have e: "ts_tick (ts s) + n - ts_tick_seen (ts s) = (ts_tick (ts s) - ts_tick_seen (ts s)) + n" by simp
    have "uint (ts_tick (ts s) - ts_tick_seen (ts s)) \<le> 2 ^ 31" using d a by (simp add: now_abs_def ahead_def)
    then have "uint (ts_tick (ts s) + n - ts_tick_seen (ts s)) = uint (ts_tick (ts s) - ts_tick_seen (ts s)) + uint n"
      unfolding e using n by (subst uint_add_lem [THEN iffD1]) simp_all
    then show ?thesis using d ahead_moved [OF a n] by (simp add: now_abs_def ahead_def)
  qed
  have "clock_ok ?s" unfolding clock_ok_def
  proof (intro conjI allI impI)
    show "ucast (ts_tick_abs (ts ?s)) = ts_tick_seen (ts ?s)" using ok(3) by (simp add: clock_ok_def)
    fix o' t d seq assume "td ?s o' = Some t" "place_sleep_key (tk_place t) = Some (d, seq)"
    then have "td s o' = Some t" "place_sleep_key (tk_place t) = Some (d, seq)" by simp_all
    from sleepers [OF this] show "uint d = now_abs (ts ?s) + ahead (ts ?s) (tk_wakeup_tick t)"
      "uint d < uint (ts_tick_abs (ts ?s)) + 2 ^ 31" by blast+
  qed
  moreover have "young ?s"
    using s(2) uint_u32_less [of "ts_tick (ts s) + n - ts_tick_seen (ts s)"] by (simp add: young_def now_abs_def clock_room_def)
  ultimately show ?thesis using ok unfolding settled_def sched_ok_def queues_ok_def indexes_ok_def by (simp add: queue_at_def)
qed

lemma fold_wake_clock: "sc_tick (fold ref_wake_one os v) = sc_tick v"
proof (induction os arbitrary: v)
  case (Cons o' os)
  have "sc_tick (ref_wake_one o' v) = sc_tick v"
    by (simp add: ref_wake_one_def ref_requeue_def ref_enter_def ref_leave_def Let_def split: option.split)
  with Cons show ?case by simp
qed simp

text \<open>What the tick does, on tasks and queues without indexes.\<close>

definition rings :: "sched \<Rightarrow> int \<Rightarrow> task_data \<Rightarrow> bool" where
  "rings v n t \<longleftrightarrow> sleeping t \<and> v_ahead v (tk_wakeup_tick t) \<le> n"

definition v_exact :: "sched \<Rightarrow> bool" where
  "v_exact v \<longleftrightarrow> sc_wakeup v = NEVER \<or> (\<exists>o' t. sc_tasks v o' = Some t \<and> sleeping t \<and> tk_wakeup_tick t = sc_wakeup v)"

definition ticked :: "sched \<Rightarrow> u32 \<Rightarrow> sched \<Rightarrow> bool" where
  "ticked v n r \<longleftrightarrow> v_timely r \<and> sc_tick r = sc_tick v + n \<and>
     (sc_wakeup v \<noteq> NEVER \<longrightarrow> v_ahead v (sc_wakeup v) \<le> uint n \<longrightarrow> v_exact r) \<and>
     (\<forall>o'. case sc_tasks v o' of
        None \<Rightarrow> sc_tasks r o' = None
      | Some t \<Rightarrow> if rings v (uint n) t
          then \<exists>u key. sc_tasks r o' = Some u \<and> tk_status u = READY \<and> place_queued (tk_place u) = Some (Q_READY, key)
          else sc_tasks r o' = Some t)"

lemma ref_advance:
  assumes w: "w = v\<lparr>sc_tick := sc_tick v + n\<rparr>" and v: "v_timely v" and n: "uint n < 2 ^ 31"
    and q: "distinct (ref_waiting v)" "\<And>o'. o' \<in> set (ref_waiting v) \<longleftrightarrow> (\<exists>t. sc_tasks v o' = Some t \<and> in_waiting t)"
  shows "ticked v n (ref_wake_sleepers w)"
proof -
  have wv: "sc_tasks w = sc_tasks v" "sc_wakeup w = sc_wakeup v" "ref_waiting w = ref_waiting v" "sc_tick w = sc_tick v + n"
    by (simp_all add: w ref_waiting_def)
  have mv: "v_ahead w d = v_ahead v d - uint n" if "- 1 \<le> v_ahead v d" for d
    using ahead_moved [OF _ n] that by (simp add: v_ahead_def w)
  have sl: "sc_wakeup v \<noteq> NEVER" "- 1 \<le> v_ahead v (sc_wakeup v)" "v_ahead v (sc_wakeup v) \<le> v_ahead v (tk_wakeup_tick t)"
    if "sc_tasks v o' = Some t" "sleeping t" for o' t
    using v that by (auto simp: v_timely_def)
  have rings: "rings v (uint n) t \<longleftrightarrow> v_ahead w (tk_wakeup_tick t) \<le> 0" if "sc_tasks v o' = Some t" "sleeping t" for o' t
    using sl [OF that] mv [of "tk_wakeup_tick t"] that by (simp add: rings_def)
  show ?thesis
  proof (cases "sc_wakeup w = NEVER \<or> 0 < sint (sc_wakeup w - sc_tick w)")
    case True
    have late: "\<not> rings v (uint n) t \<and> v_ahead w (sc_wakeup v) \<le> v_ahead w (tk_wakeup_tick t)" if "sc_tasks v o' = Some t" "sleeping t" for o' t
    proof -
      have "0 < v_ahead w (sc_wakeup v)" using True sl(1) [OF that] by (simp add: wv v_ahead_def)
      with sl [OF that] mv [of "sc_wakeup v"] mv [of "tk_wakeup_tick t"] rings [OF that] show ?thesis by simp
    qed
    have "ref_wake_sleepers w = w" using True by (simp only: ref_wake_sleepers_def if_True)
    moreover have "v_timely w" using True late sl(1) by (auto simp: v_timely_def wv v_ahead_def)
    moreover have "\<not> rings v (uint n) t" if "sc_tasks v o' = Some t" for o' t
      using late [OF that] by (auto simp: rings_def)
    moreover have "\<not> (sc_wakeup v \<noteq> NEVER \<and> v_ahead v (sc_wakeup v) \<le> uint n)"
      using True v mv [of "sc_wakeup v"] by (auto simp: v_timely_def wv v_ahead_def)
    ultimately show ?thesis by (auto simp: ticked_def wv split: option.split)
  next
    case False
    let ?os = "filter (ref_due w) (ref_waiting w)" and ?us = "List.map_filter (sc_tasks w) (ref_waiting w)"
    let ?nd = "next_deadline (sc_tick w) ?us NEVER"
    have r: "ref_wake_sleepers w = (fold ref_wake_one ?os w)\<lparr>sc_wakeup := ?nd\<rparr>"
      using False by (simp only: ref_wake_sleepers_def if_False)
    have os: "distinct ?os" "\<forall>o' \<in> set ?os. sc_tasks w o' \<noteq> None" using q by (auto simp: wv)
    have due: "o' \<in> set ?os \<longleftrightarrow> rings v (uint n) t" if t: "sc_tasks v o' = Some t" for o' t
    proof -
      have "o' \<in> set ?os \<longleftrightarrow> in_waiting t \<and> due_at (sc_tick w) t" using q(2) [of o'] t by (auto simp: wv ref_due_def)
      also have "\<dots> \<longleftrightarrow> rings v (uint n) t"
        using rings [OF t] by (auto simp: rings_def sleeping_def due_at_def v_ahead_def)
      finally show ?thesis .
    qed
    have us: "t \<in> set ?us \<longleftrightarrow> (\<exists>o'. sc_tasks v o' = Some t \<and> in_waiting t)" for t
      using q(2) by (force simp: List.map_filter_def wv)
    have "NEVER = NEVER \<or> 0 < sint (NEVER - sc_tick w)" by simp
    note least = next_deadline_least [OF this refl, of ?us]
    have task: "case sc_tasks v o' of
        None \<Rightarrow> sc_tasks (ref_wake_sleepers w) o' = None
      | Some t \<Rightarrow> if rings v (uint n) t
          then \<exists>u key. sc_tasks (ref_wake_sleepers w) o' = Some u \<and> tk_status u = READY \<and> place_queued (tk_place u) = Some (Q_READY, key)
          else sc_tasks (ref_wake_sleepers w) o' = Some t" for o'
    proof (cases "sc_tasks v o'")
      case None
      then have "o' \<notin> set ?os" using os(2) by (auto simp: wv)
      from fold_wake_tasks(1) [OF os this] None show ?thesis by (simp add: r wv)
    next
      case (Some t)
      show ?thesis
      proof (cases "rings v (uint n) t")
        case True
        then have "o' \<in> set ?os" using due [OF Some] by blast
        from fold_wake_tasks(2) [OF os this] True Some show ?thesis by (simp add: r)
      next
        case False
        then have "o' \<notin> set ?os" using due [OF Some] by blast
        from fold_wake_tasks(1) [OF os this] False Some show ?thesis by (simp add: r wv)
      qed
    qed
    have left: "?nd \<noteq> NEVER \<and> v_ahead w ?nd \<le> v_ahead w (tk_wakeup_tick t)"
      if t: "sc_tasks (ref_wake_sleepers w) o' = Some t" "sleeping t" for o' t
    proof -
      obtain t0 where t0: "sc_tasks v o' = Some t0" using task [of o'] t(1) by (cases "sc_tasks v o'") auto
      have nr: "\<not> rings v (uint n) t0"
      proof
        assume "rings v (uint n) t0"
        then obtain key where "place_queued (tk_place t) = Some (Q_READY, key)" using task [of o'] t0 t(1) by auto
        then show False using t(2) by (simp add: sleeping_def in_waiting_def)
      qed
      then have "t0 = t" using task [of o'] t0 t(1) by simp
      then have tv: "sc_tasks v o' = Some t" "\<not> rings v (uint n) t" using t0 nr by simp_all
      then have "t \<in> set ?us" "live_at (sc_tick w) t"
        using us t(2) rings [OF tv(1) t(2)] by (auto simp: sleeping_def live_at_def due_at_def v_ahead_def)
      then show ?thesis using least by (auto simp: v_ahead_def split: if_splits)
    qed
    have "?nd \<noteq> NEVER \<longrightarrow> - 1 \<le> v_ahead w ?nd"
    proof
      assume "?nd \<noteq> NEVER"
      then obtain t where "live_at (sc_tick w) t" "?nd = tk_wakeup_tick t" using least by (auto split: if_splits)
      then show "- 1 \<le> v_ahead w ?nd" by (auto simp: live_at_def due_at_def v_ahead_def)
    qed
    moreover have exact: "v_exact (ref_wake_sleepers w)"
    proof (cases "?nd = NEVER")
      case False
      then obtain t where t: "t \<in> set ?us" "live_at (sc_tick w) t" "?nd = tk_wakeup_tick t" using least by (auto split: if_splits)
      then obtain o' where o': "sc_tasks v o' = Some t" "in_waiting t" using us by blast
      then have "sleeping t" "\<not> rings v (uint n) t"
        using t(2) rings [OF o'(1)] by (auto simp: sleeping_def live_at_def due_at_def v_ahead_def)
      then show ?thesis using task [of o'] o'(1) t(3) by (auto simp: v_exact_def r)
    qed (simp add: v_exact_def r)
    moreover have "sc_tick (ref_wake_sleepers w) = sc_tick w" by (simp add: r fold_wake_clock)
    ultimately have "v_timely (ref_wake_sleepers w)" using left by (simp add: v_timely_def v_ahead_def r)
    with task exact \<open>sc_tick (ref_wake_sleepers w) = sc_tick w\<close> show ?thesis by (simp add: ticked_def wv)
  qed
qed

text \<open>What it does on the queues and indexes of the code.\<close>

lemma ref_waiting_view: "ref_waiting (view s) = queue_tasks Q_WAITING s"
  by (simp add: ref_waiting_def view_def queue_tasks_def queue_at_def)

lemma waiting_distinct:
  assumes "queues_ok s"
  shows "distinct (queue_tasks Q_WAITING s)"
  unfolding queue_tasks_def
proof (rule distinct_owners [where f = "\<lambda>t. case place_queued (tk_place t) of Some (q, k) \<Rightarrow> if q = Q_WAITING then Some k else None | None \<Rightarrow> None"])
  show "sd_inv (queue_at Q_WAITING s)" using queues_okD(2) [OF assms, of Q_WAITING] by (simp add: queue_ids)
  fix k o' assume "(k, o') \<in> set (queue_at Q_WAITING s)"
  then obtain t where "td s o' = Some t" "place_queued (tk_place t) = Some (Q_WAITING, k)" using waiting_entries(1) [OF assms] by blast
  then show "\<exists>t. td s o' = Some t \<and>
    (case place_queued (tk_place t) of Some (q, k) \<Rightarrow> if q = Q_WAITING then Some k else None | None \<Rightarrow> None) = Some k" by simp
qed

definition due_within :: "'x tvm \<Rightarrow> int \<Rightarrow> task_data \<Rightarrow> bool" where
  "due_within s n t \<longleftrightarrow> sleeping t \<and> ahead (ts s) (tk_wakeup_tick t) \<le> n"

lemma rings_view: "rings (view s) n (strip t) = due_within s n t"
  by (simp add: rings_def due_within_def v_ahead_def ahead_def view_def)

lemma advance_ticked:
  assumes s: "sched_good s" "clock_room s" "room (length (queue_at Q_WAITING s)) s" and n: "uint n < 2 ^ 31"
  shows "\<exists>s'. advance_ticks n s = Some s' \<and> sched_good s' \<and> ticked (view s) n (view s')"
proof -
  let ?s = "ts_mod (\<lambda>x. x\<lparr>ts_tick := ts_tick x + n\<rparr>) s"
  have ok: "queues_ok s" "v_timely (view s)" using s(1) by (simp_all add: sched_good_def settled_def sched_ok_def)
  have "room (length (queue_at Q_WAITING ?s)) ?s" using s(3) by (simp add: room_def queue_at_def)
  from wake_sleepers_refines [OF advance_settled [OF s(1,2) n] this]
  obtain s' where s': "wake_sleepers ?s = Some s'" "settled s'" "view s' = ref_wake_sleepers (view ?s)" by blast
  have "view ?s = (view s)\<lparr>sc_tick := sc_tick (view s) + n\<rparr>" by (simp add: view_def)
  moreover have "distinct (ref_waiting (view s))" by (simp add: ref_waiting_view waiting_distinct [OF ok(1)])
  moreover have "o' \<in> set (ref_waiting (view s)) \<longleftrightarrow> (\<exists>t. sc_tasks (view s) o' = Some t \<and> in_waiting t)" for o'
    using in_waiting_iff [OF ok(1), of o'] waiting_tasks [OF ok(1), of o'] by (auto simp: ref_waiting_view) (auto simp: view_def)
  ultimately have "ticked (view s) n (view s')" using ref_advance [OF _ ok(2) n] s'(3) by simp
  moreover from this have "v_timely (view s')" unfolding ticked_def by blast
  ultimately show ?thesis using s' by (auto simp: advance_ticks_def sched_good_def)
qed

theorem advance_wakes_due:
  assumes s: "sched_good s" "clock_room s" "room (length (queue_at Q_WAITING s)) s" and n: "uint n < 2 ^ 31"
  shows "\<exists>s'. advance_ticks n s = Some s' \<and> sched_good s' \<and> ts_tick (ts s') = ts_tick (ts s) + n \<and>
    (\<forall>o'. case td s o' of
       None \<Rightarrow> td s' o' = None
     | Some t \<Rightarrow> if due_within s (uint n) t
         then \<exists>u key. td s' o' = Some u \<and> tk_status u = READY \<and> place_queued (tk_place u) = Some (Q_READY, key)
         else map_option strip (td s' o') = Some (strip t))"
proof -
  obtain s' where s': "advance_ticks n s = Some s'" "sched_good s'" and t: "ticked (view s) n (view s')"
    using advance_ticked [OF s n] by blast
  from t have "ts_tick (ts s') = ts_tick (ts s) + n" unfolding ticked_def by (simp add: view_def)
  moreover have "case td s o' of
       None \<Rightarrow> td s' o' = None
     | Some t \<Rightarrow> if due_within s (uint n) t
         then \<exists>u key. td s' o' = Some u \<and> tk_status u = READY \<and> place_queued (tk_place u) = Some (Q_READY, key)
         else map_option strip (td s' o') = Some (strip t)" for o'
  proof -
    have v: "sc_tasks (view x) o' = map_option strip (td x o')" for x :: "'a tvm" by (simp add: view_def)
    have r: "case sc_tasks (view s) o' of
        None \<Rightarrow> sc_tasks (view s') o' = None
      | Some t \<Rightarrow> if rings (view s) (uint n) t
          then \<exists>u key. sc_tasks (view s') o' = Some u \<and> tk_status u = READY \<and> place_queued (tk_place u) = Some (Q_READY, key)
          else sc_tasks (view s') o' = Some t"
      using t unfolding ticked_def by blast
    show ?thesis
    proof (cases "td s o'")
      case None
      then show ?thesis using r by (simp add: v)
    next
      case (Some t0)
      show ?thesis
      proof (cases "due_within s (uint n) t0")
        case True
        then obtain u key where "sc_tasks (view s') o' = Some u" "tk_status u = READY" "place_queued (tk_place u) = Some (Q_READY, key)"
          using r Some by (auto simp: v rings_view)
        then obtain u' where "td s' o' = Some u'" "u = strip u'" by (auto simp: v)
        then show ?thesis using Some True \<open>tk_status u = READY\<close> \<open>place_queued (tk_place u) = Some (Q_READY, key)\<close> by simp
      next
        case False
        then show ?thesis using r Some by (simp add: v rings_view)
      qed
    qed
  qed
  ultimately show ?thesis using s' by (intro exI [of _ s']) blast
qed

section \<open>What tasks do keeps it so\<close>

lemma good_requeue:
  assumes s: "sched_good s" and t: "td s o' = Some t" and f: "tk_place (f (t\<lparr>tk_place := place_none\<rparr>)) = place_none"
    and r: "room (Suc n) s" and q: "\<not> (q_of (tk_status (f (t\<lparr>tk_place := place_none\<rparr>))) = Q_WAITING \<and> has_deadline (f (t\<lparr>tk_place := place_none\<rparr>)))"
  shows "\<exists>s'. requeue o' True f s = Some s' \<and> sched_good s' \<and> room n s'"
proof -
  let ?t = "f (t\<lparr>tk_place := place_none\<rparr>)"
  have w: "may_wait s ?t" using good_near [OF s] q by (simp add: may_wait_def)
  have st: "settled s" "v_timely (view s)" using s by (simp_all add: sched_good_def)
  obtain s' where s': "requeue o' True f s = Some s'" "settled s'" "view s' = ref_requeue o' ?t (view s)"
    by (rule refinesE [OF requeue_refines(1) [where f = f, OF st(1) t f r w]])
  have "v_timely (view s')" unfolding s'(3) by (rule ref_requeue_timely [OF st(2) q])
  with s' requeue_refines(2) [where f = f, OF st(1) t f r w] show ?thesis by (auto simp: sched_good_def)
qed

lemma good_delete:
  assumes s: "sched_good s" and t: "td s o' = Some t"
  shows "\<exists>s'. q_delete o' s = Some s' \<and> sched_good s'"
proof -
  have st: "settled s" "v_timely (view s)" using s by (simp_all add: sched_good_def)
  obtain s' where s': "q_delete o' s = Some s'" "settled s'" "view s' = ref_leave o' (t\<lparr>tk_place := place_none\<rparr>) (tk_place t) (view s)"
    by (rule refinesE [OF q_delete_refines(1) [OF st(1) t]])
  have "v_timely (view s')" unfolding s'(3) by (rule ref_leave_timely [OF st(2)]) (simp add: sleeping_def in_waiting_def)
  with s' show ?thesis by (auto simp: sched_good_def)
qed

text \<open>A change of a task in its place and the requeueing are one requeueing.\<close>

lemma mod_requeue:
  assumes t: "td s o' = Some t" and f: "\<And>x p. f (x\<lparr>tk_place := p\<rparr>) = (f x)\<lparr>tk_place := p\<rparr>" "tk_place (f t) = tk_place t"
  shows "do { s1 \<leftarrow> td_mod o' f s; requeue o' True g s1 } = requeue o' True (\<lambda>x. g (f x)) s"
  using t f by (simp add: td_mod_def requeue_def td_put_td Let_def)

text \<open>Falling asleep.\<close>

lemma normalize_ahead:
  assumes "uint ticks < 2 ^ 31 - 1"
  shows "normalize (now + ticks) \<noteq> NEVER" "- 1 \<le> sint (normalize (now + ticks) - now)"
    "sint (normalize (now + ticks) - now) < 2 ^ 31 - 1" "sint (normalize (now + ticks) - now) \<le> uint ticks"
proof -
  have t: "sint ticks = uint ticks" using assms by (intro sint_small) simp
  have "sint (ticks - 1) = sint ticks - sint (1 :: u32)" using assms t uint_ge_0 [of ticks] by (intro sint_diff; simp; linarith)
  moreover have "sint (NEVER - 1 - now) = sint (ticks - 1)" if "now + ticks = NEVER"
  proof -
    have "NEVER - 1 - now = (now + ticks) - 1 - now" by (simp only: that)
    also have "\<dots> = ticks - 1" by simp
    finally show ?thesis by (rule arg_cong)
  qed
  ultimately have "sint (normalize (now + ticks) - now) = (if now + ticks = NEVER then uint ticks - 1 else uint ticks)"
    using t by (cases "now + ticks = NEVER") (simp_all add: normalize_def)
  moreover have "normalize (now + ticks) \<noteq> NEVER" by (simp add: normalize_def)
  ultimately show "normalize (now + ticks) \<noteq> NEVER" "- 1 \<le> sint (normalize (now + ticks) - now)"
    "sint (normalize (now + ticks) - now) < 2 ^ 31 - 1" "sint (normalize (now + ticks) - now) \<le> uint ticks"
    using assms by (simp_all split: if_splits) (insert uint_ge_0 [of ticks], linarith)+
qed

lemma v_timely_switching [simp]: "v_timely (v\<lparr>sc_switching := b\<rparr>) = v_timely v"
  by (simp add: v_timely_def v_ahead_def)

theorem sleep_keeps_good:
  assumes s: "sched_good s" and t: "td s o' = Some t" and r: "room (Suc n) s" and k: "uint ticks < 2 ^ 31 - 1"
  shows "\<exists>s' t'. sleep_task o' ticks s = Some s' \<and> sched_good s' \<and> room n s' \<and> td s' o' = Some t' \<and> due_within s' (uint ticks) t'"
proof -
  let ?d = "normalize (ts_tick (ts s) + ticks)"
  let ?f = "\<lambda>d. d\<lparr>tk_reason := REASON_SLEEP, tk_wakeup_tick := ?d\<rparr>" and ?g = "\<lambda>t. t\<lparr>tk_status := WAITING\<rparr>"
  let ?t = "?g (?f (t\<lparr>tk_place := place_none\<rparr>))"
  note d = normalize_ahead [OF k, of "ts_tick (ts s)"]
  have st: "settled s" "v_timely (view s)" using s by (simp_all add: sched_good_def)
  have hd: "has_deadline ?t" using d(1) by (simp add: has_deadline_def)
  have f: "tk_place ?t = place_none" by simp
  have w: "may_wait s ?t" using good_near [OF s] d(2) by (simp add: may_wait_def ahead_def)
  note ref = requeue_refines [where f = "\<lambda>x. ?g (?f x)", OF st(1) t f r w]
  obtain s2 where s2: "requeue o' True (\<lambda>x. ?g (?f x)) s = Some s2" "settled s2" "view s2 = ref_requeue o' ?t (view s)"
    by (rule refinesE [OF ref(1)])
  have r2: "room n s2" using ref(2) s2(1) by auto
  let ?s = "park (note_wakeup ?d s2)"
  have "do { s1 \<leftarrow> td_mod o' ?f s; requeue o' True ?g s1 } = requeue o' True (\<lambda>x. ?g (?f x)) s"
    by (rule mod_requeue [OF t]) simp_all
  then have "sleep_task o' ticks s = Some ?s" using s2(1) t by (simp add: sleep_task_def set_status_def Let_def td_mod_def)
  moreover have eq: "?s = ts_mod (\<lambda>x. x\<lparr>ts_wakeup_tick := noted ?d (ts_wakeup_tick x), ts_switching := True\<rparr>) s2"
    by (simp add: park_def note_wakeup_eq ts_mod_mod)
  moreover have "settled ?s" unfolding eq by (rule settled_ts_mod [OF s2(2)]) simp_all
  moreover have tv: "sc_tasks (view s) o' \<noteq> None" using t by (simp add: view_def)
  have k2: "sc_wakeup (view s2) = sc_wakeup (view s)" "sc_tick (view s2) = sc_tick (view s)"
    using tv by (auto simp: s2(3) ref_requeue_def ref_enter_def ref_leave_def Let_def)
  have v: "view ?s = (ref_requeue o' ?t (view s))\<lparr>sc_wakeup := noted (tk_wakeup_tick ?t) (sc_wakeup (view s)), sc_switching := True\<rparr>"
    unfolding eq by (subst view_ts_mod) (simp_all add: s2(3) [symmetric] k2(1) [symmetric], simp add: view_def)
  moreover have "v_timely (view ?s)" unfolding v v_timely_switching
    using d(2,3) by (intro ref_sleep_timely [OF st(2) tv hd]) (simp_all add: v_ahead_def, simp_all add: view_def)
  moreover have "room n ?s" using r2 by (simp add: eq room_def)
  moreover have "\<exists>t'. td ?s o' = Some t' \<and> due_within ?s (uint ticks) t'"
  proof -
    let ?x = "?t\<lparr>tk_place := place_set Q_WAITING (0, sc_seq (view s)) None None\<rparr>"
    have q: "q_of WAITING = Q_WAITING" by (simp add: q_of_def WAITING_def READY_def RUNNING_def queue_ids)
    have "sc_tasks (view ?s) o' = Some ?x"
      using tv unfolding v by (auto simp: ref_requeue_def ref_enter_def ref_leave_def Let_def q queue_ids)
    then obtain t' where t': "td ?s o' = Some t'" "strip t' = ?x" by (auto simp: view_def)
    have "ts_tick (ts s2) = ts_tick (ts s)" using k2(2) by (simp add: view_def)
    then have "sc_tick (view ?s) = ts_tick (ts s)" by (simp add: eq view_def)
    then have "rings (view ?s) (uint ticks) ?x"
      using d(4) hd by (simp add: rings_def sleeping_def in_waiting_def has_deadline_def v_ahead_def queue_ids)
    then show ?thesis using t' rings_view [of ?s "uint ticks" t'] by simp
  qed
  ultimately show ?thesis by (auto simp: sched_good_def)
qed

section \<open>No step is idle for nothing\<close>

definition asleep :: "'x tvm \<Rightarrow> bool" where
  "asleep s \<longleftrightarrow> (\<exists>o' t. td s o' = Some t \<and> sleeping t)"

definition wakeup_exact :: "'x tvm \<Rightarrow> bool" where
  "wakeup_exact s \<longleftrightarrow> v_exact (view s)"

lemma any_deadline_some: "any_deadline os s = Some True \<Longrightarrow> \<exists>o' t. o' \<in> set os \<and> td s o' = Some t \<and> has_deadline t"
  by (induction os) (auto simp: bind_eq_Some_conv split: if_splits)

lemma pending_asleep:
  assumes s: "settled s" and p: "pending s = Some True" "queue_at Q_READY s = []"
  shows "asleep s"
proof (cases "ts_indexed (ts s)")
  case True
  have ix: "indexes_ok s" using s by (simp add: settled_def sched_ok_def)
  obtain k o' where "(k, o') \<in> set (ts_sleepers (ts s))" using p True by (cases "ts_sleepers (ts s)") (auto simp: pending_def)
  moreover have "distinct (map fst (ts_sleepers (ts s)))" using ix by (simp add: indexes_ok_def sd_distinct)
  ultimately obtain t where t: "td s o' = Some t" "place_sleep_key (tk_place t) = Some k"
    using ix unfolding indexes_ok_def by (metis map_of_eq_Some_iff)
  have "entry_ok (ts_indexed (ts s)) t" using ix t(1) unfolding indexes_ok_def by blast
  with t show ?thesis by (auto simp: entry_ok_def asleep_def sleeping_def)
next
  case False
  then have "any_deadline (queue_tasks Q_WAITING s) s = Some True" using p by (simp add: pending_def)
  from any_deadline_some [OF this] obtain o' t where t: "o' \<in> set (queue_tasks Q_WAITING s)" "td s o' = Some t" "has_deadline t" by blast
  have "queues_ok s" using s by (simp add: settled_def sched_ok_def)
  from in_waiting_iff [OF this t(2)] t show ?thesis by (auto simp: asleep_def sleeping_def)
qed

lemma tickedD:
  assumes "ticked v n r" "sc_tasks v o' = Some t"
  shows "rings v (uint n) t \<Longrightarrow>
      \<exists>u key. sc_tasks r o' = Some u \<and> tk_status u = READY \<and> place_queued (tk_place u) = Some (Q_READY, key)"
    "\<not> rings v (uint n) t \<Longrightarrow> sc_tasks r o' = Some t"
proof -
  have "if rings v (uint n) t
      then \<exists>u key. sc_tasks r o' = Some u \<and> tk_status u = READY \<and> place_queued (tk_place u) = Some (Q_READY, key)
      else sc_tasks r o' = Some t"
    using assms unfolding ticked_def by (auto dest!: spec [of _ o'])
  then show "rings v (uint n) t \<Longrightarrow>
      \<exists>u key. sc_tasks r o' = Some u \<and> tk_status u = READY \<and> place_queued (tk_place u) = Some (Q_READY, key)"
    "\<not> rings v (uint n) t \<Longrightarrow> sc_tasks r o' = Some t" by simp_all
qed

lemma asleep_view: "asleep s \<longleftrightarrow> (\<exists>o' t. sc_tasks (view s) o' = Some t \<and> sleeping t)"
  by (fastforce simp: asleep_def view_def)

lemma ready_view:
  assumes "queues_ok s" "sc_tasks (view s) o' = Some u" "place_queued (tk_place u) = Some (Q_READY, key)"
  shows "queue_at Q_READY s \<noteq> []"
proof -
  obtain t where t: "td s o' = Some t" "u = strip t" using assms(2) by (auto simp: view_def)
  obtain pri seq where "key = (pri, seq)" by (cases key)
  then have "map_of (queue_at Q_READY s) key = Some o'"
    using queues_okD(4) [OF assms(1) t(1), of Q_READY pri seq] assms(3) t(2) by auto
  then show ?thesis by auto
qed

lemma idle_is_advance:
  assumes "ts_wakeup_tick (ts s) \<noteq> NEVER"
  shows "idle s = map_option (\<lambda>s'. (s', True))
    (advance_ticks (if 0 < ahead (ts s) (ts_wakeup_tick (ts s)) then ts_wakeup_tick (ts s) - ts_tick (ts s) else 0) s)"
proof -
  have "ts_mod (\<lambda>x. x\<lparr>ts_tick := ts_tick x\<rparr>) s = s" by (rule ts_mod_same [symmetric]) simp
  moreover have "ts_mod (\<lambda>x. x\<lparr>ts_tick := ts_tick x + (ts_wakeup_tick (ts s) - ts_tick (ts s))\<rparr>) s =
      ts_mod (\<lambda>x. x\<lparr>ts_tick := ts_wakeup_tick (ts s)\<rparr>) s" by (rule ts_mod_cong) simp
  ultimately show ?thesis using assms
    by (simp add: idle_def Let_def advance_ticks_def ahead_def map_option_case bind_eq_None_conv split: option.split)
qed

theorem idle_progress:
  assumes s: "sched_good s" "clock_room s" "room (length (queue_at Q_WAITING s)) s" and a: "asleep s"
  shows "\<exists>s'. idle s = Some (s', True) \<and> sched_good s' \<and> wakeup_exact s' \<and>
    (wakeup_exact s \<longrightarrow> queue_at Q_READY s' \<noteq> []) \<and> (asleep s' \<or> queue_at Q_READY s' \<noteq> [])"
proof -
  let ?w = "ts_wakeup_tick (ts s)"
  let ?n = "if 0 < ahead (ts s) ?w then ?w - ts_tick (ts s) else 0"
  have tm: "v_timely (view s)" using s(1) by (simp add: sched_good_def)
  have w: "?w \<noteq> NEVER" "- 1 \<le> ahead (ts s) ?w" using a v_timelyD [OF tm] by (auto simp: asleep_def)
  have n: "uint ?n < 2 ^ 31" "ahead (ts s) ?w \<le> uint ?n"
    using uint_of_sint [of "?w - ts_tick (ts s)"] sint_lt [of "?w - ts_tick (ts s)"]
    by (cases "0 < ahead (ts s) ?w"; simp add: ahead_def)+
  obtain s' where s': "advance_ticks ?n s = Some s'" "sched_good s'" and t: "ticked (view s) ?n (view s')"
    using advance_ticked [OF s n(1)] by blast
  have vw: "sc_wakeup (view s) = ?w" "v_ahead (view s) ?w = ahead (ts s) ?w" by (simp_all add: view_def v_ahead_def ahead_def)
  have "wakeup_exact s'" using t w n vw by (simp add: ticked_def wakeup_exact_def)
  have q: "queues_ok s'" using s'(2) by (simp add: sched_good_def settled_def sched_ok_def)
  have rung: "queue_at Q_READY s' \<noteq> []" if h: "sc_tasks (view s) o' = Some t0" "rings (view s) (uint ?n) t0" for o' t0
  proof -
    obtain u key where "sc_tasks (view s') o' = Some u" "place_queued (tk_place u) = Some (Q_READY, key)"
      using tickedD(1) [OF t h] by blast
    then show ?thesis by (rule ready_view [OF q])
  qed
  have "queue_at Q_READY s' \<noteq> []" if e: "wakeup_exact s"
  proof -
    obtain o' t0 where "sc_tasks (view s) o' = Some t0" "sleeping t0" "tk_wakeup_tick t0 = ?w"
      using e w(1) by (auto simp: wakeup_exact_def v_exact_def vw)
    then show ?thesis using rung n(2) vw by (simp add: rings_def)
  qed
  moreover have "asleep s' \<or> queue_at Q_READY s' \<noteq> []"
  proof -
    obtain o' t0 where o': "sc_tasks (view s) o' = Some t0" "sleeping t0" using a asleep_view by blast
    show ?thesis
    proof (cases "rings (view s) (uint ?n) t0")
      case True
      then show ?thesis using rung o' by blast
    next
      case False
      then have "sc_tasks (view s') o' = Some t0" by (rule tickedD(2) [OF t o'(1)])
      then show ?thesis using o'(2) asleep_view by blast
    qed
  qed
  ultimately show ?thesis using s' \<open>wakeup_exact s'\<close> idle_is_advance [OF w(1)] by auto
qed

theorem step_progress:
  assumes s: "sched_good s" "clock_room s" "room (length (queue_at Q_WAITING s)) s"
    and p: "pending s = Some True" "queue_at Q_READY s = []" and h: "\<not> ts_hook (ts s)" "ts_clock_from_instructions (ts s)"
  shows "\<exists>s'. task_step env s = Some (s', Idled) \<and> sched_good s' \<and> wakeup_exact s' \<and>
    (wakeup_exact s \<longrightarrow> queue_at Q_READY s' \<noteq> []) \<and> (asleep s' \<or> queue_at Q_READY s' \<noteq> [])"
proof -
  have st: "settled s" "queues_ok s" using s(1) by (simp_all add: sched_good_def settled_def sched_ok_def)
  have a: "asleep s" by (rule pending_asleep [OF st(1) p])
  then have "queue_at Q_WAITING s \<noteq> []" using in_waiting_iff [OF st(2)] by (auto simp: asleep_def sleeping_def queue_tasks_def)
  with idle_progress [OF s a] p(2) h show ?thesis by (auto simp: task_step_def run_hook_def)
qed

section \<open>A scheduler with one sleeper\<close>

definition sleeper :: task_data where
  "sleeper = (new_task None 0 WAITING VNil)\<lparr>tk_reason := REASON_SLEEP, tk_wakeup_tick := 5,
     tk_place := place_set Q_WAITING (0, 0) None None\<rparr>"

definition one_sleeper :: "unit tvm" where
  "one_sleeper = \<lparr>vm_heap = heap_new\<lparr>hp_objs := [new_object 0 (K_Task sleeper)], hp_flags := [0]\<rparr>, vm_native_active = 0,
     vm_world = \<lparr>mc_task = task_state_new\<lparr>ts_queues := [[], [], [], []][Q_WAITING := [((0, 0), 0)]], ts_seq := 1, ts_wakeup_tick := 5\<rparr>,
       mc_cur = 0, mc_stack = [], mc_ci = [], mc_contexts = [], mc_ireps = [], mc_top_self = 0, mc_exc = None, mc_loop_exit = None,
       mc_instructions = 0, mc_rest = ()\<rparr>\<rparr>"

lemma one_sleeper_td: "td one_sleeper o' = (if o' = 0 then Some sleeper else None)"
  by (auto simp: td_def one_sleeper_def heap_kind_def heap_get_def heap_new_def new_object_def B32_def unat_eq_zero
      heap_is_free_def slot_free_def)

lemma one_sleeper_ts: "ts one_sleeper = task_state_new\<lparr>ts_queues := [[], [], [], []][Q_WAITING := [((0, 0), 0)]], ts_seq := 1, ts_wakeup_tick := 5\<rparr>"
  by (simp add: ts_def mc_def one_sleeper_def)

lemma sleeper_facts: "sleeping sleeper" "tk_wakeup_tick sleeper = 5" "place_queued (tk_place sleeper) = Some (Q_WAITING, 0, 0)"
  "place_sleep_key (tk_place sleeper) = None" "place_wait_key (tk_place sleeper) = None" "q_of (tk_status sleeper) = Q_WAITING"
  by (simp_all add: sleeper_def sleeping_def in_waiting_def has_deadline_def place_queued_def place_set_def queue_ids NEVER_def REASON_SLEEP_def
      place_sleep_key_def place_wait_key_def q_of_def new_task_def WAITING_def READY_def RUNNING_def)

lemma one_sleeper_queue: "q < 4 \<Longrightarrow> queue_at q one_sleeper = (if q = Q_WAITING then [((0, 0), 0)] else [])"
proof -
  assume "q < 4"
  then consider "q = 0" | "q = 1" | "q = 2" | "q = 3" by linarith
  then show ?thesis by cases (simp_all add: queue_at_def one_sleeper_ts task_state_new_def queue_ids)
qed

lemma one_sleeper_good: "sched_good one_sleeper"
proof -
  have "queues_ok one_sleeper" unfolding queues_ok_def
    by (auto simp: one_sleeper_td one_sleeper_ts one_sleeper_queue sd_inv_def task_state_new_def sleeper_facts queue_ids split: if_splits)
  moreover have "indexes_ok one_sleeper"
    by (auto simp: indexes_ok_def one_sleeper_td one_sleeper_ts sd_inv_def task_state_new_def sleeper_facts entry_ok_def wait_target_def
        sleeper_def new_task_def REASON_SLEEP_def place_set_def place_sleep_key_def place_wait_key_def)
  moreover have "clock_ok one_sleeper"
    by (auto simp: clock_ok_def one_sleeper_td one_sleeper_ts sleeper_facts task_state_new_def split: if_splits)
  moreover have "v_timely (view one_sleeper)"
    by (auto simp: v_timely_def view_def one_sleeper_td one_sleeper_ts task_state_new_def v_ahead_def NEVER_def sleeper_facts strip_def split: if_splits)
  ultimately show ?thesis
    by (simp add: sched_good_def settled_def sched_ok_def young_def now_abs_def one_sleeper_ts task_state_new_def)
qed

lemma one_sleeper_room: "clock_room one_sleeper" "room (length (queue_at Q_WAITING one_sleeper)) one_sleeper" "room (Suc 0) one_sleeper"
  by (simp_all add: clock_room_def room_def one_sleeper_ts one_sleeper_queue task_state_new_def queue_ids)

lemma one_sleeper_waits: "pending one_sleeper = Some True" "queue_at Q_READY one_sleeper = []" "wakeup_exact one_sleeper"
  "\<not> ts_hook (ts one_sleeper)" "ts_clock_from_instructions (ts one_sleeper)" "due_within one_sleeper 5 sleeper"
proof -
  have "has_deadline sleeper" using sleeper_facts(1) by (simp add: sleeping_def)
  then show "pending one_sleeper = Some True"
    by (simp add: pending_def one_sleeper_queue queue_tasks_def one_sleeper_td queue_ids) (simp add: one_sleeper_ts task_state_new_def)
  have "sc_tasks (view one_sleeper) 0 = Some (strip sleeper)" "sc_wakeup (view one_sleeper) = 5"
    by (simp_all add: view_def one_sleeper_td one_sleeper_ts)
  then show "wakeup_exact one_sleeper" using sleeper_facts(1,2) unfolding wakeup_exact_def v_exact_def by fastforce
qed (simp_all add: one_sleeper_queue one_sleeper_ts task_state_new_def queue_ids due_within_def sleeper_facts ahead_def)

end
