(* ===== verification/Spec2Isabelle.thy ===== *)
theory Spec2Isabelle
  imports BigBits CharIndex ClassChain ClassHistory HashSet HostStore ImageRound PackWhole RiteLookup RiteRound RiteSafe Symbol TaskLive
begin

text \<open>
  Theories about the core of SabiRuby, a Ruby virtual machine in Rust (\<open>src/src/\<close>).

  Parts and how they interact. Every Ruby value is an immediate or the number of an object on the
  heap (\<open>value.rs\<close>, \<open>object.rs\<close>). Objects refer to one another through classes, instance
  variables and what their kind holds: arrays, hash tables, big integers, procs, environments. The
  garbage collector marks from the roots and sweeps the heap. Names are interned as symbols
  (\<open>symbol.rs\<close>). Integers past 64 bits are \<open>bigint.rs\<close>. Hashes and Sets (\<open>hashtable.rs\<close>) look
  keys up natively where no Ruby method is involved and otherwise send \<open>hash\<close> and \<open>eql?\<close> between their steps.

  Theories.
  \<^item> \<open>Prelude\<close>: machine integers, orders, lemmas on words and lists.
  \<^item> \<open>BigMag\<close>, \<open>BigDiv\<close>, \<open>BigInt\<close>, \<open>BigConv\<close>, \<open>BigBits\<close> (\<open>bigint.rs\<close>): magnitudes as lists of
    32-bit limbs with \<open>lval\<close> their value; Knuth's division; the signed integers with \<open>bval\<close>; texts,
    bytes and doubles; the bitwise operations. The loops that end by a measure are functions, the ones
    whose end needs an argument about values (\<open>sqrt_loop\<close>, \<open>gcd_loop\<close>, \<open>digits_loop\<close>) are partial functions,
    proved to return.
  \<^item> \<open>Value\<close>, \<open>Symbol\<close>, \<open>SortedDeque\<close>, \<open>Aspec\<close>, \<open>ArrayData\<close>: the data of the files of the same names
    and of \<open>object.rs\<close>. A panic of the source is \<open>None\<close>.
  \<^item> \<open>HashData\<close>, \<open>HashIndex\<close> (\<open>hashtable.rs\<close>): a table without its callbacks, its index and the native searches.
  \<^item> \<open>Opcode\<close> (\<open>opcode.rs\<close>): the instruction set, its bytes and operand layouts. \<open>Reader\<close>, \<open>Rite\<close>
    (\<open>rite.rs\<close>): the byte cursor and the loader. Records nest, so \<open>read_record\<close> and \<open>walk\<close> carry fuel:
    the length of the input and the number of records, which \<open>RiteSafe\<close> proves to be enough on every
    input, together with the well-formedness of what is loaded. \<open>RiteRound\<close> has the writer and the round
    trip, \<open>RiteLookup\<close> the lookups on a loaded record (\<open>line_of\<close>, \<open>decode\<close>).
  \<^item> \<open>HostStore\<close> (\<open>host_store.rs\<close>): the host's values behind handles, and the loan protocol.
  \<^item> \<open>Object\<close>, \<open>GC\<close> (\<open>object.rs\<close>): object kinds, allocation and access, mark and sweep.
  \<^item> \<open>VmCore\<close>, \<open>HashTable\<close> (\<open>vm.rs\<close>, \<open>hashtable.rs\<close>): effects, errors, exception objects; the table
    operations that can run Ruby. Running a method is a parameter, \<open>rb_funcall\<close>, of which nothing is
    assumed but that it keeps the tables of the heap in order (\<open>ruby_keeps\<close>); it may raise, not return, or edit the
    table that is being searched. \<open>HashWalk\<close> and \<open>HashSet\<close> have the walks over a table and the operations of a
    Set. \<open>HashSafe\<close> states and proves what the operations keep whatever that code does, \<open>HashNative\<close> that with
    keys no Ruby code answers for a Hash is an insertion-ordered map.

  \<^item> \<open>Context\<close> (\<open>vm.rs\<close>): the register and frame stacks of fibers and tasks and the switch between them.
  \<^item> \<open>Classes\<close> (\<open>vm.rs\<close>): method lookup, definition, visibility, include and prepend, singleton classes,
    constants, class variables, the method cache, the guards of the operators the interpreter answers itself.
    Walks of a superclass chain are partial functions: on a chain that does not end they are \<open>None\<close>, as the code
    does not return. \<open>ClassCache\<close> shows that every operation leaves the answers of lookups alone or moves the
    serial number on, \<open>ClassHistory\<close> that the caches are right after any history of operations and
    collections, \<open>ClassChain\<close> what a lookup finds and what an include changes.
  \<^item> \<open>TaskQueues\<close>, \<open>Task\<close>, \<open>TaskOps\<close>, \<open>TaskHost\<close> (\<open>builtins/ext_task.rs\<close>, \<open>vm.rs\<close>): the scheduler's state, queues and
    indexes; the tick, time slices, switching and the loop; what Ruby does with tasks and queues; sleeps and what a host
    calls. What runs inside a slice is the parameter \<open>te_run\<close>. \<open>TaskInv\<close> states the invariant and a reference
    scheduler without indexes (\<open>view\<close>, \<open>ref_requeue\<close>, \<open>ref_wake_sleepers\<close>); \<open>TaskEnter\<close>, \<open>TaskRef\<close>, \<open>TaskWake\<close>,
    \<open>TaskSleep\<close> and \<open>TaskTick\<close> prove that the code refines it; \<open>TaskLive\<close> that no deadline is missed and that a
    scheduler with sleepers makes progress. The clock that does not wrap is assumed to be below \<open>2 ^ 63\<close> and the sequence
    number below \<open>2 ^ 64\<close> (\<open>young\<close>, \<open>clock_room\<close>, \<open>room\<close>), which no run reaches.

  \<^item> \<open>Convert\<close> (\<open>vm.rs\<close>, \<open>builtins/numeric.rs\<close>, \<open>bigint.rs\<close>): \<open>expect_int\<close> and numbers as doubles; rounding to nearest is
    \<open>float_encode\<close>, on exact integers.
  \<^item> \<open>PackCodec\<close>, \<open>Pack\<close> (\<open>builtins/ext_pack.rs\<close>): the encodings of \<open>Array#pack\<close> and \<open>String#unpack\<close>; the template reader and
    the two methods. \<open>PackRound\<close> and \<open>PackText\<close> prove the round trips of the encodings, \<open>PackWhole\<close> those of templates.
    The positions are unbounded integers: a string is never as long as \<open>2 ^ 63\<close> bytes.

  \<^item> \<open>Chars\<close> (\<open>builtins/string.rs\<close>): a string of bytes read as characters. \<open>CharIndex\<close> proves the positions against the
    list of characters and the searches against the set of places, \<open>Utf8\<close> has the standard library's UTF-8 and that the two
    readings agree.
  \<^item> \<open>Image\<close> (\<open>checkpoint/image.rs\<close>): the reader of checkpoint images, over the cursor of \<open>Reader\<close> with errors of its own.
    \<open>ImageSafe\<close> proves that what follows an item does not matter to it, so an image is accepted only whole; \<open>ImageRound\<close> has
    the writer of the format and that every image is read back.

  Interfaces. \<open>symbol_table\<close> (interpreted as \<open>syms\<close>), \<open>ordered_index\<close> (\<open>deque\<close>), \<open>fifo\<close>
  (\<open>array_queue\<close>), \<open>item_format\<close> (one item of a binary: \<open>catch_item\<close>, \<open>pool_item\<close>, \<open>sym_item\<close>) and \<open>image_item\<close>, which extends it to the
  counted lists of an image (\<open>u32_item\<close> to \<open>lines_item\<close>),
  \<open>handle_store\<close> (\<open>store\<close>), \<open>limb_op\<close> (\<open>land\<close>, \<open>lor\<close>, \<open>lxor\<close>),
  \<open>serial_memo\<close> (what is remembered under a serial number: \<open>lines\<close>, \<open>guards\<close>),
  \<open>number_directive\<close> (what a pack directive stores and reads: \<open>ints\<close>, \<open>doubles\<close>) and \<open>hash_keys\<close> (\<open>native\<close>) are locales that
  state what a client relies on; each is interpreted on the definitions of the code.

  Not modelled. The interpreter loop and most builtin methods, hooks and names of classes, the regular expressions,
  restoring a checkpoint image into the VM, the compiler bindings and the command line. Doubles are their bit patterns; arithmetic on
  them is left out. Capacities of vectors are not state.
\<close>

unbundle bit_operations_syntax





text \<open>C3. Whatever happened before (definitions, includes, new classes and objects, collections), a lookup through the method cache answers the method, owner and visibility the walk of the superclass chain finds now.\<close>

theorem method_cache_is_transparent:
  assumes "history co on (h, ls, g)" "live_class h c"
  shows "map_option snd (find_method_cached_vis h ls c mid) = resolve h c mid"
  by (rule cached_is_resolve [OF history_ok [OF assms(1)] assms(2)])

theorem method_cache_is_transparent_witness:
  "map_option snd (find_method_cached_vis one_class (replicate METHOD_CACHE_LEN line_default) 0 7) =
    Some (Some (R_Native 1 0, 0), Public)"
  using method_cache_is_transparent [OF one_class_history, of 0 7] one_class_live(1) [of 0] one_class_lookup(4) by simp

text \<open>C4. A Hash whose keys are Integers, Symbols, Floats and Strings is an insertion-ordered map whatever its size and however its table is kept: reading answers the value of the equal key, storing overwrites it in place or appends the key (an unfrozen String as a frozen copy), deleting takes it out, and no other object changes.\<close>

theorem native_hash_is_an_ordered_map:
  assumes "native_hash s ob h" "Suc (length (hp_objs (vm_heap s))) < B32" "native_key (vm_string s) key" "live s key"
    "h_len h < 2 ^ 30" "\<not> frozen_at s ob"
  shows "hash_get rb (VObj ob) key s = Some (s, Inr (pairs_get (vm_string s) key (h_entries h))) \<and>
    (\<exists>s' h'. hash_set rb (VObj ob) key v s = Some (s', Inr ()) \<and> native_hash s' ob h' \<and> rest_same ob s s' \<and>
      (case position (keq (vm_string s) key) (entry_keys h) of
         Some p \<Rightarrow> h_entries h' = (h_entries h)[p := (fst (h_entries h ! p), v)]
       | None \<Rightarrow> \<exists>k. stored_key s key s' k \<and> h_entries h' = h_entries h @ [(k, v)])) \<and>
    (\<exists>s' h'. hash_delete rb (VObj ob) key s = Some (s', Inr (pairs_get (vm_string s) key (h_entries h))) \<and>
      native_hash s' ob h' \<and> rest_same ob s s' \<and> h_entries h' = pairs_delete (vm_string s) key (h_entries h))"
  using hash_get_native [OF assms(1,3), of rb] hash_delete_native [OF assms(1,3), of rb]
    hash_set_native [OF assms, of v rb] unfolding set_result_def by blast

theorem native_hash_is_an_ordered_map_witness:
  "\<exists>s' h'. hash_set (quiet (\<lambda>_ _ _. ret VNil)) (VObj 0) (VInt 7) VTrue
      \<lparr>vm_heap = heap_new\<lparr>hp_objs := [new_object 0 (K_Hash h_new)], hp_flags := [0]\<rparr>, vm_native_active = 0, vm_world = ()\<rparr> =
    Some (s', Inr ()) \<and> native_hash s' 0 h' \<and> h_entries h' = [(VInt 7, VTrue)]"
proof -
  let ?s = "\<lparr>vm_heap = heap_new\<lparr>hp_objs := [new_object 0 (K_Hash h_new)], hp_flags := [0]\<rparr>, vm_native_active = 0, vm_world = ()\<rparr>"
  have n: "native_hash ?s 0 h_new"
    by (auto simp: native_hash_def heap_inv_def heap_new_def heap_is_free_def slot_free_def B32_def hd_of_def heap_kind_def heap_get_def
      new_object_def native_ok_def keys_ok_def entry_keys_def h_new_def h_len_def h_is_ht_def native.unique_def)
  have k: "native_key (vm_string ?s) (VInt 7)" by (simp add: native_key_def native_code_def)
  have "position (keq (vm_string ?s) (VInt 7)) (entry_keys h_new) = None"
    by (simp add: position_def entry_keys_def h_new_def)
  with native_hash_is_an_ordered_map [OF n _ k, of "quiet (\<lambda>_ _ _. ret VNil)" VTrue] show ?thesis
    by (auto simp: heap_new_def B32_def live_def h_len_def h_new_def frozen_at_def heap_get_def new_object_def stored_key_def)
qed

text \<open>C5. Whatever Ruby code the hash and eql? of keys run (raising, never returning, editing the same Hash), searching, storing, deleting, shifting, rehashing, merging, comparing and Set insertion and removal leave every table of the heap in order, and a position the search answers is one of the table at that moment.\<close>

theorem hash_operations_survive_ruby:
  assumes "ruby_keeps tables_ok rb"
  shows "secures tables_ok (h_find rb ob key) (found_in_table ob) \<and> secures tables_ok (hash_get rb v key) any \<and>
    secures tables_ok (hash_set rb v key x) any \<and> secures tables_ok (hash_delete rb v key) any \<and>
    secures tables_ok (h_shift rb ob) any \<and> secures tables_ok (h_rehash rb ob) any \<and>
    secures tables_ok (h_merge rb v w) any \<and> secures tables_ok (h_assoc rb v x b) any \<and>
    secures tables_ok (h_equal rb v w b) any \<and> secures tables_ok (h_except rb v w) any \<and>
    secures tables_ok (set_contains rb v key) any \<and> secures tables_ok (set_insert rb v key) any \<and>
    secures tables_ok (set_remove rb v key) any"
  by (intro conjI find_secures get_secures set_secures hash_delete_secures shift_secures rehash_secures merge_secures
    assoc_secures equal_loop_secures except_secures contains_secures insert_secures remove_secures assms)

theorem hash_operations_survive_ruby_witness:
  "secures tables_ok (h_rehash (quiet (\<lambda>recv mid args. andthen (hash_delete (quiet (\<lambda>_ _ _. ret VNil)) (VObj 0) (VInt 1))
    (\<lambda>_. ret VTrue))) 0) any"
proof -
  have "ruby_keeps tables_ok (quiet (\<lambda>_ _ _. ret VNil))" by (intro quiet_keeps ret_secures)
  from hash_delete_secures [OF this, of "VObj 0" "VInt 1"]
  have "ruby_keeps tables_ok (quiet (\<lambda>recv mid args. andthen (hash_delete (quiet (\<lambda>_ _ _. ret VNil)) (VObj 0) (VInt 1)) (\<lambda>_. ret VTrue)))"
    by (intro quiet_keeps then_secures ret_secures)
  from hash_operations_survive_ruby [OF this] show ?thesis by simp
qed







text \<open>C9. Loading a RITE binary ends on every byte string, and what it accepts is a well-formed program: the root exists, every child of a record exists and comes after it (so there is no cycle), and no record has more locals than registers.\<close>

theorem rite_loading_ends_well_formed:
  "\<exists>res. parse bin = Some res \<and> (case res of Inl _ \<Rightarrow> True | Inr r \<Rightarrow> loaded_ok (rt_ireps r) (Some (rt_root r)))"
proof -
  obtain res where r: "parse bin = Some res" "\<forall>r. res = Inr r \<longrightarrow> loaded_ok (rt_ireps r) (Some (rt_root r))"
    using parse_ok [of bin] by blast
  then show ?thesis by (cases res) auto
qed

text \<open>C10. A binary written from a tree of records (any nesting, every kind of constant, catch handlers, unset symbols) is read back as exactly these records in pre-order, children linked by their numbers.\<close>

theorem rite_binary_round_trips:
  assumes "tree_ok t" "length nm = 4" "length v = 4" "length rv = 4" "length (put_binary nm v rv t) < 2 ^ 32"
  shows "parse (put_binary nm v rv t) = Some (Inr
    \<lparr>rt_compiler_name = nm, rt_compiler_version = v, rt_ireps = flat 0 t, rt_root = 0\<rparr>)"
  by (rule parse_put [OF assms])

theorem rite_binary_round_trips_witness:
  "\<exists>r. parse (put_binary [77, 65, 84, 90] [48, 48, 48, 48] [48, 51, 48, 48] (RNode
      \<lparr>ir_nlocals = 1, ir_nregs = 3, ir_iseq = [17, 1, 56, 1, 105], ir_catch = [],
       ir_pool = [Pool_Int 5, Pool_Str [104, 105]], ir_syms = [Some [112], None], ir_reps = [], ir_lv = [],
       ir_lines = [], ir_filename = None\<rparr> [])) = Some (Inr r) \<and> length (rt_ireps r) = 1"
  by (subst rite_binary_round_trips)
    (simp_all add: head_ok_def put_binary_def put_sections_def put_section_def put_head_def head_body_def
      put16_def put32_def tag_def)



text \<open>C12. An image that parse accepts ends exactly where its bytes end: every proper part of it is refused, and with bytes after it it is refused for just those bytes.\<close>

theorem accepted_images_are_whole:
  assumes "parse_image b = Inr img"
  shows "(\<forall>k<length b. \<exists>e. parse_image (take k b) = Inl e) \<and>
    (\<forall>t. t \<noteq> [] \<longrightarrow> parse_image (b @ t) = Inl (Bytes_Left (length t)))"
  using parse_image_shorter [OF assms] parse_image_longer [OF assms] by simp

theorem accepted_images_are_whole_witness:
  "let b = put_image 8 [] \<lparr>im_version = 1, im_writer = [], im_syms = [], im_ireps = [], im_objs = [], im_patches = [], im_ctxs = [],
      im_current = 0, im_sched = \<lparr>sr_switch_pending = False, sr_loop_running = False, sr_unit = 4, sr_tick = 0, sr_wakeup = None,
        sr_tasks = [], sr_running = 0, sr_host = 0\<rparr>, im_lines = []\<rparr>
   in parse_image (b @ [0]) = Inl (Bytes_Left 1) \<and> (\<exists>e. parse_image (take 5 b) = Inl e)"
proof -
  let ?img = "\<lparr>im_version = 1, im_writer = [], im_syms = [], im_ireps = [], im_objs = [], im_patches = [], im_ctxs = [],
      im_current = 0, im_sched = \<lparr>sr_switch_pending = False, sr_loop_running = False, sr_unit = 4, sr_tick = 0, sr_wakeup = None,
        sr_tasks = [], sr_running = 0, sr_host = 0\<rparr>, im_lines = []\<rparr>"
  have "parse_image (put_image 8 [] ?img) = Inr ?img" by (intro parse_put_image) (simp_all add: image_oks utf8_valid.simps [of "[]"])
  from accepted_images_are_whole [OF this]
  have w: "\<forall>k<length (put_image 8 [] ?img). \<exists>e. parse_image (take k (put_image 8 [] ?img)) = Inl e"
    "parse_image (put_image 8 [] ?img @ [0]) = Inl (Bytes_Left (length [0 :: u8]))" by blast+
  have "5 < length (put_image 8 [] ?img)" by (simp add: put_image_def ascii_def put_bytes_def)
  then show ?thesis using w by (simp add: Let_def)
qed


text \<open>C14. A template of one integer directive with a star packs numbers it holds into a string from which the same template unpacks them, each cut to the width and sign of the directive, in either byte order; BER and UTF-8 numbers come back as they are.\<close>

theorem packed_numbers_round_trip:
  assumes "read_tmpl tmpl = Inr (sp, [])" "sp_ty sp = T_Integer" "sp_count sp = - 1" "ns \<noteq> []" "\<forall>n \<in> set ns. num_fits sp n"
    and "vm_string s t = Some tmpl" "heap_array (vm_heap s) a = Some (map VInt ns)"
  shows "pack env (VObj a) (VObj t) s = Some (map_prod id Inr (str_new (pe_ruby env) (concat (map (num_bytes sp) ns)) s)) \<and>
    (\<forall>s' o' t'. vm_string s' o' = Some (concat (map (num_bytes sp) ns)) \<longrightarrow> vm_string s' t' = Some tmpl \<longrightarrow>
      unpack env False (VObj o') (VObj t') s' =
        Some (map_prod id Inr (vm_ary_new (pe_c_array env) (map (\<lambda>n. VInt (num_wrap sp n)) ns) s')))"
proof -
  have ok: "list_all (\<lambda>n. int_spec sp \<and> num_fits sp n) ns" using read_tmpl_int_spec [OF assms(1,2)] assms(5) by (simp add: list_all_iff)
  have ne: "tmpl \<noteq> []" using assms(1,2) by (auto simp: no_spec_def)
  note whole = ints.pack_whole [OF ok assms(4,1,3) ne] ints.unpack_whole [OF ok assms(4,1,3) ne]
  have "pack env (VObj a) (VObj t) s = Some (map_prod id Inr (str_new (pe_ruby env) (concat (map (num_bytes sp) ns)) s))"
    using assms(6,7) by (simp add: whole(1) pack_def tmpl_arg_def andthen_def ret_def split_beta map_prod_def)
  moreover have "unpack env False (VObj o') (VObj t') s' =
      Some (map_prod id Inr (vm_ary_new (pe_c_array env) (map (\<lambda>n. VInt (num_wrap sp n)) ns) s'))"
    if "vm_string s' o' = Some (concat (map (num_bytes sp) ns))" "vm_string s' t' = Some tmpl" for s' o' t'
    using that by (simp add: whole(2) unpack_def tmpl_arg_def andthen_def ret_def split_beta map_prod_def)
  ultimately show ?thesis by blast
qed

theorem packed_numbers_round_trip_witness:
  "let h0 = heap_alloc heap_new 0 (K_String (ascii ''n*''));
       h1 = heap_alloc (fst h0) 0 (K_Array (ary_of (map VInt [1, 0x12345])));
       s = \<lparr>vm_heap = fst h1, vm_native_active = 0, vm_world = ()\<rparr>
   in \<forall>env. pack env (VObj (snd h1)) (VObj (snd h0)) s =
     Some (map_prod id Inr (str_new (pe_ruby env) [0, 1, 0x23, 0x45] s))"
proof -
  define h0 where "h0 = heap_alloc heap_new 0 (K_String (ascii ''n*''))"
  define h1 where "h1 = heap_alloc (fst h0) 0 (K_Array (ary_of (map VInt [1, 0x12345])))"
  define s where "s = \<lparr>vm_heap = fst h1, vm_native_active = 0, vm_world = ()\<rparr>"
  let ?sp = "\<lparr>sp_dir = D_Short, sp_ty = T_Integer, sp_size = 2, sp_count = - 1, sp_flags = F_GT\<rparr>"
  have t: "read_tmpl (ascii ''n*'') = Inr (?sp, [])" by code_simp
  have e: "concat (map (num_bytes ?sp) [1, 0x12345]) = [0, 1, 0x23, 0x45]" by code_simp
  have "vm_string s (snd h0) = Some (ascii ''n*'')" "heap_array (vm_heap s) (snd h1) = Some (map VInt [1, 0x12345])"
    unfolding s_def h1_def h0_def vm_string_def
    by (simp_all add: heap_alloc_def heap_new_def Let_def heap_string_def heap_array_def heap_kind_def heap_get_def
        new_object_def ary_of_def ary_elems_def slot_free_def)
  from packed_numbers_round_trip [OF t _ _ _ _ this, unfolded e]
  have "pack env (VObj (snd h1)) (VObj (snd h0)) s = Some (map_prod id Inr (str_new (pe_ruby env) [0, 1, 0x23, 0x45] s))" for env
    by (simp add: num_fits_def)
  then show ?thesis by (simp only: Let_def s_def h1_def h0_def simp_thms)
qed

text \<open>C15. A string read as characters is the list of its characters: length, the offset of a character, the character of an offset and the bytes of a span are those of the list, whichever way of reading and whether or not the shortcut for ASCII is taken.\<close>

theorem strings_index_by_characters:
  "concat (chars_of b m) = b \<and>
   char_len b m = length (chars_of b m) \<and>
   char_to_byte b ci m = length (concat (take ci (chars_of b m))) \<and>
   byte_to_char b (char_to_byte b ci m) m = min ci (length (chars_of b m)) \<and>
   take (snd (char_span b ci n m)) (drop (fst (char_span b ci n m)) b) = concat (take n (drop ci (chars_of b m)))"
proof (intro conjI)
  have "char_start b m ci = char_start b m (min ci (length (chars_of b m)))" by (simp add: char_start_def min_def)
  then show "byte_to_char b (char_to_byte b ci m) m = min ci (length (chars_of b m))"
    using byte_to_char_start [of "min ci (length (chars_of b m))" b m] by (simp add: char_to_byte_eq)
  show "take (snd (char_span b ci n m)) (drop (fst (char_span b ci n m)) b) = concat (take n (drop ci (chars_of b m)))"
    by (rule char_span_slice) simp
qed (simp_all add: char_len_eq char_to_byte_eq char_start_def)

text \<open>C16. A forward search answers the first place at or after the start where the needle is, a backward one the last at or before it; the backward search by characters answers the last of them that starts a character, never one inside a character.\<close>

theorem string_searches_are_exact:
  assumes "needle \<noteq> []"
  shows "first_in {q. from \<le> q \<and> q \<le> length hay \<and> matches_at hay needle q} (str_find hay needle from) \<and>
    last_in {q. q \<le> pos \<and> matches_at hay needle q} (str_rfind hay needle pos) \<and>
    last_in {q. q \<le> pos \<and> starts_char hay m q \<and> matches_at hay needle q} (char_rfind hay needle pos m)"
  using str_find_first str_rfind_last [OF assms] char_rfind_last [OF assms] by blast

theorem string_searches_are_exact_witness:
  "last_in {q. q \<le> 3 \<and> starts_char [0xC3, 0xA9, 0x61, 0xA9] True q \<and> matches_at [0xC3, 0xA9, 0x61, 0xA9] [0xA9] q} (Some 3) \<and>
   last_in {q. q \<le> 2 \<and> starts_char [0xC3, 0xA9, 0x61, 0xA9] True q \<and> matches_at [0xC3, 0xA9, 0x61, 0xA9] [0xA9] q} None"
proof -
  have "char_rfind [0xC3, 0xA9, 0x61, 0xA9] [0xA9] 3 True = Some 3" "char_rfind [0xC3, 0xA9, 0x61, 0xA9] [0xA9] 2 True = None"
    by code_simp+
  then show ?thesis
    using string_searches_are_exact [of "[0xA9]" 0 "[0xC3, 0xA9, 0x61, 0xA9]" 3 True]
      string_searches_are_exact [of "[0xA9]" 0 "[0xC3, 0xA9, 0x61, 0xA9]" 2 True] by simp
qed

text \<open>C17. The characters of a string are the well-formed sequences of the Unicode table: a string counts as valid exactly when it is UTF-8, and the length of a character is that of the sequence there, 1 for a byte that starts none.\<close>

theorem characters_are_utf8:
  "(valid_chars b True \<longleftrightarrow> utf8_valid b) \<and>
   utf8len (c # r) True = (if snd (utf8_seq (c # r)) then fst (utf8_seq (c # r)) else 1)"
  by (simp add: valid_chars_utf8 utf8len_seq)

text \<open>C18. For a key no Ruby code answers for, the lookup of a Hash (linear in a small table, probing the index past 16 entries) answers the position of the entry with that key in insertion order, and nothing when there is none.\<close>

theorem native_lookup_finds_the_key:
  assumes "keys_ok str h" "native_key str key"
  shows "find_native str h key = Some (position (keq str key) (entry_keys h))"
  by (rule find_native_spec [OF assms])

theorem native_lookup_finds_the_key_witness:
  "find_native (\<lambda>_. None) (h_new\<lparr>h_entries := [(VInt 4, VNil), (VSym 9, VTrue)]\<rparr>) (VSym 9) = Some (Some 1)"
  by (subst native_lookup_finds_the_key)
    (auto simp: keys_ok_def entry_keys_def h_new_def h_is_ht_def native_key_def native_code_def native.unique_def
      less_Suc_eq keq_def key_bytes_def native_eql_def position_def)

text \<open>C19. Placing the codes of all entries into a fresh index makes it an index in which every entry is met by the probe from its code before an empty bucket is.\<close>

theorem index_rebuild_is_complete:
  assumes "b \<le> 31" "0 < b" "length cs \<le> 2 ^ b"
  shows "index_ok (place_all (h_set_n_used (ht_reset h b) (length cs)) 0 cs) cs"
  by (rule rebuild_ok [OF assms])

theorem index_rebuild_is_complete_witness:
  "index_ok (place_all (h_set_n_used (ht_reset h_new 2) (length [7, 7, 11 :: u32])) 0 [7, 7, 11]) [7, 7, 11]"
  by (rule index_rebuild_is_complete) simp_all

text \<open>C20. Division of arbitrary precision integers (Knuth D on 32-bit limbs, estimated quotient digits, add-back, then the sign rule) is floor division, and its modulus takes the sign of the divisor.\<close>

theorem bigint_division_is_floor_division:
  assumes "big_wf x" "big_wf y" "bval y \<noteq> 0"
  shows "bval (big_div_floor x y) = bval x div bval y \<and> bval (big_mod_floor x y) = bval x mod bval y"
  using divmod_floor_val [OF assms] by blast

theorem bigint_division_is_floor_division_witness:
  "bval (big_div_floor \<lparr>bneg = True, bmag = [0, 0, 1]\<rparr> \<lparr>bneg = False, bmag = [5, 3]\<rparr>) = - (2 ^ 64) div (3 * 2 ^ 32 + 5)"
  by (subst bigint_division_is_floor_division [THEN conjunct1]) (simp_all add: big_wf_def trimmed_def bval_def B32_def)

text \<open>C21. Addition, subtraction and multiplication of arbitrary precision integers are the integer operations.\<close>

theorem bigint_arithmetic_is_exact:
  assumes "big_wf x" "big_wf y"
  shows "bval (big_add x y) = bval x + bval y \<and> bval (big_sub x y) = bval x - bval y \<and>
    bval (big_mul x y) = bval x * bval y"
  using bval_add [OF assms] bval_sub [OF assms] by simp_all

theorem bigint_arithmetic_is_exact_witness:
  "bval (big_add \<lparr>bneg = False, bmag = [0xFFFFFFFF]\<rparr> \<lparr>bneg = False, bmag = [1]\<rparr>) = 2 ^ 32"
  by (subst bigint_arithmetic_is_exact [THEN conjunct1]) (simp_all add: big_wf_def trimmed_def bval_def)

text \<open>C22. Narrowing to i64 answers exactly the values an i64 has and None for the others, at both ends of the range.\<close>

theorem bigint_narrowing_is_exact:
  assumes "big_wf x"
  shows "big_to_i64 x =
    (if - (2 ^ 63) \<le> bval x \<and> bval x < 2 ^ 63 then Some (word_of_int (bval x)) else None)"
  by (rule to_i64_spec [OF assms])

theorem bigint_narrowing_is_exact_witness:
  "big_to_i64 \<lparr>bneg = False, bmag = [0, 0x80000000]\<rparr> = None"
  by (subst bigint_narrowing_is_exact) (simp_all add: big_wf_def trimmed_def bval_def B32_def)

text \<open>C23. Printing an arbitrary precision integer in any base from 2 to 36 always ends, and reading the text back gives the same integer.\<close>

theorem bigint_text_round_trips:
  assumes "big_wf x" "2 \<le> base" "base \<le> 36"
  shows "\<exists>s. big_to_string_radix x base = Some s \<and> big_from_str s base = Some x"
  by (rule string_round_trip [OF assms])

theorem bigint_text_round_trips_witness:
  "\<exists>s. big_to_string_radix \<lparr>bneg = True, bmag = [1, 1]\<rparr> 16 = Some s \<and>
    big_from_str s 16 = Some \<lparr>bneg = True, bmag = [1, 1]\<rparr>"
  by (rule bigint_text_round_trips) (simp_all add: big_wf_def trimmed_def)

text \<open>C24. Including a module puts include classes for the modules it brings along, those not yet above the class, right above it and in their order, changes no method table, and every lookup from then on is a search of the chains so extended.\<close>

theorem include_puts_modules_above_the_class:
  assumes "class_graph_ok h" "live_class h cls" "chain h (Some cls) (cls # xs)"
    "def_target h cls = Some at" "at \<in> set (cls # xs)" "module_chain h module = Some mods" "distinct mods"
    "\<forall>m \<in> set mods. live_class h m" "length (hp_objs h) + length mods \<le> B32"
  shows "\<exists>h' ics. include_module co h cls module = Some h' \<and> class_graph_ok h' \<and> same_tables h h' \<and>
    map (iclass_at h') ics = map Some (filter (\<lambda>m. m \<notin> incs h xs) mods) \<and>
    (\<forall>c ys. live_class h c \<longrightarrow> chain h (Some c) ys \<longrightarrow> chain h' (Some c) (put_after at ics ys) \<and>
       (\<forall>mid. find_method_entry h' c mid = Some (first_method h' (put_after at ics ys) mid)))"
proof -
  obtain h' ics where r: "include_all co cls mods at h = Some h'" "class_graph_ok h'" "same_tables h h'"
    "\<forall>c ys. live_class h c \<longrightarrow> chain h (Some c) ys \<longrightarrow> chain h' (Some c) (put_after at ics ys)"
    "map (iclass_at h') ics = map Some (filter (\<lambda>m. m \<notin> incs h xs) mods)"
    using include_all_spec [OF assms(1-3,5,7-9)] by blast
  have "find_method_entry h' c mid = Some (first_method h' (put_after at ics ys) mid)"
    if "live_class h c" "chain h (Some c) ys" for c ys mid
    using find_method_walk_chain [of h' "Some c" "put_after at ics ys" mid] r(2-4) that
    by (auto simp: find_method_entry_def class_graph_ok_def same_tables_def)
  with r assms(4,6) show ?thesis by (auto simp: include_module_def)
qed

theorem include_puts_modules_above_the_class_witness:
  "\<exists>h' ic. include_module one_core two_classes 0 1 = Some h' \<and> iclass_at h' ic = Some 1 \<and> chain h' (Some 0) [0, ic]"
proof -
  have ch: "chain two_classes (Some 0) [0]"
    by (auto intro!: chain.intros two_classes_lookup simp: class_default_def)
  have "module_chain two_classes 1 = Some [1]"
    unfolding module_chain_def by (subst module_walk.simps, simp add: two_classes_lookup class_default_def) (simp add: module_walk.simps)
  moreover have "def_target two_classes 0 = Some 0" by (simp add: def_target_def two_classes_lookup class_default_def)
  moreover have "0 \<in> set [0 :: obj_id]" "distinct [1 :: obj_id]" "\<forall>m \<in> set [1]. live_class two_classes m" "live_class two_classes 0"
    "length (hp_objs two_classes) + length [1 :: obj_id] \<le> B32"
    by (simp_all add: two_classes_live) (simp add: two_classes_def heap_new_def B32_def)
  ultimately obtain h' ics where h': "include_module one_core two_classes 0 1 = Some h'"
    "map (iclass_at h') ics = map Some (filter (\<lambda>m. m \<notin> incs two_classes []) [1])"
    "\<forall>c ys. live_class two_classes c \<longrightarrow> chain two_classes (Some c) ys \<longrightarrow> chain h' (Some c) (put_after 0 ics ys)"
    using include_puts_modules_above_the_class [OF two_classes_graph _ ch, of 0 1 "[1]" one_core] by blast
  have "map (iclass_at h') ics = [Some 1]" using h'(2) by (simp add: incs_def)
  moreover have "chain h' (Some 0) (put_after 0 ics [0])" using h'(3) ch two_classes_live by blast
  ultimately show ?thesis using h'(1) by auto
qed

text \<open>C25. Looking up who waits for an object, all of them or the first, answers what a walk of the waiting queue finds, in its order, whether the queue is indexed or not.\<close>

theorem waiting_tasks_are_found:
  assumes "sched_ok s"
  shows "\<exists>n m. waiting_for target True s = Some (add_walked n s, found_waiting target s) \<and>
    first_waiting_for target s = Some (add_walked m s, case found_waiting target s of [] \<Rightarrow> None | o' # _ \<Rightarrow> Some o')"
  using waiting_for_found [OF assms, of target True] first_waiting_for_found [OF assms, of target] by auto

theorem waiting_tasks_are_found_witness:
  "\<exists>n. waiting_for 0 True one_sleeper = Some (add_walked n one_sleeper, [])"
proof -
  have ok: "sched_ok one_sleeper" using one_sleeper_good by (simp add: sched_good_def settled_def)
  have "found_waiting 0 one_sleeper = []"
    by (simp add: found_waiting_def queue_tasks_def one_sleeper_queue waits_in_def one_sleeper_td sleeper_def waits_for_def new_task_def
        REASON_SLEEP_def REASON_QUEUE_def REASON_JOIN_def queue_ids)
  with waiting_tasks_are_found [OF ok, of 0] show ?thesis by auto
qed

text \<open>C26. A module that includes itself is accepted, and from then on the list of modules it brings along has no end: including it anywhere does not return.\<close>

theorem self_include_has_no_end:
  assumes "class_graph_ok h" "length (hp_objs h) < B32" "live_class h m" "heap_class h m = Some md"
    "cl_iclass_of md = None" "cl_origin md = None" "cl_origin_of md = None" "cl_superclass md = None"
  shows "\<exists>h'. include_module co h m m = Some h' \<and> module_chain h' m = None \<and> (\<forall>cls. include_module co h' cls m = None)"
proof -
  have ch: "chain h (Some m) [m]" using assms(4,8) by (auto intro: chain.intros)
  have "module_chain h m = Some [m]"
    unfolding module_chain_def by (subst module_walk.simps, simp add: assms(4-8)) (simp add: module_walk.simps)
  moreover have "def_target h m = Some m" by (simp add: def_target_def assms(4,6))
  moreover have pre: "m \<in> set [m]" "distinct [m]" "\<forall>x \<in> set [m]. live_class h x" "length (hp_objs h) + length [m] \<le> B32"
    using assms(2,3) by simp_all
  obtain h' ics where r: "include_all co m [m] m h = Some h'" "class_graph_ok h'" "same_tables h h'"
    "\<forall>c ys. live_class h c \<longrightarrow> chain h (Some c) ys \<longrightarrow> chain h' (Some c) (put_after m ics ys)"
    "map (iclass_at h') ics = map Some (filter (\<lambda>x. x \<notin> incs h []) [m])"
    using include_all_spec [OF assms(1,3) ch pre, of co] by blast
  have r: "include_all co m [m] m h = Some h'" "class_graph_ok h'" "same_tables h h'"
    "chain h' (Some m) (put_after m ics [m])" "map (iclass_at h') ics = [Some m]"
    using r ch assms(3) by (simp_all only: incs_def) auto
  ultimately have i: "include_module co h m m = Some h'" by (simp only: include_module_def bind.bind_lunit)
  obtain md' where md: "heap_class h' m = Some md'" "cl_iclass_of md' = None"
    using r(3) assms(3,4,5) superclass_other unfolding same_tables_def by (metis option.inject)
  obtain ic where ic: "ics = [ic]" "iclass_at h' ic = Some m" using r(5) by auto
  then have "cl_superclass md' = Some ic" using r(4) md(1) by (auto simp: chain_Some elim: chain.cases)
  moreover obtain icd where "heap_class h' ic = Some icd" "cl_iclass_of icd = Some m"
    using ic(2) by (auto simp: iclass_at_def bind_eq_Some_conv)
  ultimately have "module_chain h' m = None"
    unfolding module_chain_def using module_walk_cyclic(1) [OF md] by blast
  then show ?thesis using i by (auto simp: include_module_def)
qed

theorem self_include_has_no_end_witness:
  "\<exists>h'. include_module one_core two_classes 1 1 = Some h' \<and> module_chain h' 1 = None"
  using self_include_has_no_end [OF two_classes_graph _ _ two_classes_lookup(2), of one_core] two_classes_live [of 1]
  by (auto simp: class_default_def B32_def two_classes_def heap_new_def)

text \<open>C27. An instruction written at any position with any EXT prefix is decoded as itself: opcode, operands at the widths the prefix gives, and the position right after it.\<close>

theorem instruction_decoding_round_trips:
  assumes "x = Opcode n" "n < OP_COUNT" "\<not> is_ext x" "e \<le> 3"
    "operands_fit (op_operands x) (e = 1 \<or> e = 3) (e = 2 \<or> e = 3) a b c"
    "ir_iseq ir = pre @ put_instr e x a b c @ post"
  shows "decode ir (length pre) = Some (x, a, b, c, length pre + length (put_instr e x a b c))"
  by (rule decode_put [OF assms])

theorem instruction_decoding_round_trips_witness:
  "decode \<lparr>ir_nlocals = 1, ir_nregs = 3, ir_iseq = [0] @ put_instr 1 (Opcode 1) 0x102 7 0 @ [], ir_catch = [],
     ir_pool = [], ir_syms = [], ir_reps = [], ir_lv = [], ir_lines = [], ir_filename = None\<rparr> (length [0 :: u8]) =
   Some (Opcode 1, 0x102, 7, 0, length [0 :: u8] + length (put_instr 1 (Opcode 1) 0x102 7 0))"
  by (rule instruction_decoding_round_trips [where n = 1])
    (simp_all add: OP_COUNT_def is_ext_def operands_fit_def op_operands_def OP_OPERANDS_def fits_def take_bit_eq_mask mask_numeral)

text \<open>C28. The sorted deque behind the scheduler is a finite map kept in key order: insertion and removal are the map operations, the first entry is the least key, and a range scan answers the entries from the bound on, in order.\<close>

theorem sorted_deque_is_an_ordered_map:
  assumes "sd_inv q"
  shows "(map_of q k = None \<longrightarrow> sd_inv (sd_insert q k v) \<and> map_of (sd_insert q k v) = (map_of q)(k \<mapsto> v)) \<and>
    sd_inv (fst (sd_remove q k)) \<and> snd (sd_remove q k) = map_of q k \<and>
    map_of (fst (sd_remove q k)) = (map_of q)(k := None) \<and>
    (sd_first q = Some (k, v) \<longrightarrow> map_of q k = Some v \<and> (\<forall>k' \<in> dom (map_of q). k \<le> k')) \<and>
    sd_iter_from q lo = filter (\<lambda>(k, _). lo \<le> k) q"
  using deque.inv_ins [OF assms, of k v] deque.inv_del [OF assms surjective_pairing, of k]
    deque.least_Some [OF assms, of k v] sd_iter_from_set [OF assms, of lo] by blast

theorem sorted_deque_is_an_ordered_map_witness:
  "sd_inv (sd_insert [(1 :: nat, 10 :: nat), (5, 50)] 3 30) \<and> sd_first [(1 :: nat, 10 :: nat), (5, 50)] = Some (1, 10)"
  using sorted_deque_is_an_ordered_map [of "[(1 :: nat, 10 :: nat), (5, 50)]" 3 30]
  by (simp add: sd_inv_def sd_first_def)

text \<open>C29. A value lent out of a host store can be put back under its handle whatever other inserts, removals, loans and returns happened meanwhile: the handle is never given to anything else.\<close>

theorem host_loan_comes_back:
  assumes "hst_inv st" "hst_get st h = Some v" "\<forall>w. Inr (Inr (Inr (h, w))) \<notin> set ops"
  shows "hst_get (hst_restore (foldl store.step (fst (hst_take st h)) ops) h w) h = Some w"
  by (rule store.lend_back [OF assms])

theorem host_loan_comes_back_witness:
  "hst_get (hst_restore (foldl store.step (fst (hst_take (fst (hst_insert hst_new (7 :: nat))) 0)) [Inl 8, Inr (Inl 0)]) 0 9) 0 = Some 9"
proof (rule host_loan_comes_back)
  show "hst_inv (fst (hst_insert hst_new (7 :: nat)))"
    using store.ins_law [OF hst_new_inv surjective_pairing, of 7] by blast
qed (simp_all add: hst_insert_def hst_new_def hst_get_def hst_cell_def)

text \<open>C30. In any sequence of interned names two symbols are equal exactly when the names are, and every symbol still answers its own name at the end.\<close>

theorem interned_symbols_equal_iff_names_equal:
  assumes "interner_inv t" "length (sym_names t) + length ns \<le> B32"
    "syms.adds t ns = (t', ss)" "i < length ns" "j < length ns"
  shows "interner_inv t' \<and> (ss ! i = ss ! j \<longleftrightarrow> ns ! i = ns ! j) \<and> sym_name t' (ss ! i) = Some (ns ! i)"
  using syms.adds_eq_iff [OF assms] syms.adds_keeps [OF assms(1,2,3)] assms(4) by blast

theorem interned_symbols_equal_iff_names_equal_witness:
  "snd (syms.adds interner_new [[1], [2], [1]]) ! 0 = snd (syms.adds interner_new [[1], [2], [1]]) ! 2"
  using interned_symbols_equal_iff_names_equal
    [OF interner_new_inv _ surjective_pairing, of "[[1], [2], [1]]" 0 2]
  by (simp add: interner_new_def B32_def)

text \<open>C31. An Array with its shifted-out prefix behaves as the plain list of its elements under shift, unshift, insert, remove and splice, out-of-range insert and remove panicking exactly past the end.\<close>

theorem array_edits_refine_list_edits:
  assumes "ary_rep a xs"
  shows "ary_rep (ary_unshift a vs) (vs @ xs) \<and>
    (case xs of [] \<Rightarrow> ary_shift a = (a, None)
      | v # us \<Rightarrow> snd (ary_shift a) = Some v \<and> ary_rep (fst (ary_shift a)) us) \<and>
    (if i \<le> length xs then \<exists>a'. ary_insert a i v = Some a' \<and> ary_rep a' (take i xs @ v # drop i xs)
      else ary_insert a i v = None) \<and>
    (if i < length xs then \<exists>a'. ary_remove a i = Some (a', xs ! i) \<and> ary_rep a' (take i xs @ drop (Suc i) xs)
      else ary_remove a i = None) \<and>
    (f \<le> t \<and> t \<le> length xs \<longrightarrow>
      (\<exists>a'. ary_splice_range a f t vs = Some a' \<and> ary_rep a' (take f xs @ vs @ drop t xs)))"
  using rep_unshift [OF assms] rep_shift [OF assms] rep_insert [OF assms] rep_remove [OF assms]
    rep_splice [OF assms] by blast

theorem array_edits_refine_list_edits_witness:
  "ary_rep (ary_unshift (ary_of [VTrue]) [VNil]) [VNil, VTrue]"
  using array_edits_refine_list_edits [OF rep_new(2), of "[VTrue]" "[VNil]"] by simp

text \<open>C32. Allocation hands out a slot no live object has, the slot then holds exactly the new object, every live object stays what and where it was, and the heap invariant is kept.\<close>

theorem heap_alloc_disturbs_nothing:
  assumes "heap_inv h" "length (hp_objs h) < B32" "heap_alloc h c k = (h', i)"
  shows "heap_inv h' \<and> heap_is_free h i \<and> heap_get h' i = Some (new_object c k) \<and> \<not> heap_is_free h' i \<and>
    (\<forall>j. j \<noteq> i \<and> \<not> heap_is_free h j \<longrightarrow> heap_get h' j = heap_get h j \<and> \<not> heap_is_free h' j)"
  using heap_alloc_fresh [OF assms] by blast

theorem heap_alloc_disturbs_nothing_witness:
  "heap_inv (fst (heap_alloc heap_new 0 K_Object)) \<and> heap_is_free heap_new (snd (heap_alloc heap_new 0 K_Object))"
  using heap_alloc_disturbs_nothing [of heap_new 0 K_Object, OF heap_new_inv _ surjective_pairing]
  by (simp add: heap_new_def B32_def)



text \<open>C34. The bitwise operations on sign-magnitude integers are those of infinite two's complement.\<close>

theorem bigint_bits_are_twos_complement:
  assumes "big_wf x" "big_wf y"
  shows "bval (big_and x y) = bval x AND bval y \<and> bval (big_or x y) = bval x OR bval y \<and>
    bval (big_xor x y) = bval x XOR bval y \<and> bval (big_not x) = NOT (bval x)"
  using bval_and [OF assms] bval_or [OF assms] bval_xor [OF assms] bval_not by blast

theorem bigint_bits_are_twos_complement_witness:
  "bval (big_and \<lparr>bneg = True, bmag = [1, 1]\<rparr> \<lparr>bneg = False, bmag = [6]\<rparr>) = (- (2 ^ 32 + 1)) AND 6"
  by (subst bigint_bits_are_twos_complement [THEN conjunct1]) (simp_all add: big_wf_def trimmed_def bval_def B32_def)

text \<open>C35. The integer square root of a nonnegative integer ends and is the largest integer whose square does not exceed it.\<close>

theorem bigint_root_is_the_floor:
  assumes "big_wf x" "0 \<le> bval x"
  shows "\<exists>r. big_sqrt x = Some r \<and> 0 \<le> bval r \<and> (bval r)\<^sup>2 \<le> bval x \<and> bval x < (bval r + 1)\<^sup>2"
  using sqrt_val [OF assms] by blast

theorem bigint_root_is_the_floor_witness:
  "\<exists>r. big_sqrt \<lparr>bneg = False, bmag = [0, 0, 1]\<rparr> = Some r \<and> (bval r)\<^sup>2 \<le> 2 ^ 64"
proof -
  have "big_wf \<lparr>bneg = False, bmag = [0, 0, 1]\<rparr>" "bval \<lparr>bneg = False, bmag = [0, 0, 1]\<rparr> = 2 ^ 64"
    by (simp_all add: big_wf_def trimmed_def bval_def B32_def)
  then show ?thesis using bigint_root_is_the_floor [of "\<lparr>bneg = False, bmag = [0, 0, 1]\<rparr>"] by auto
qed

text \<open>C36. Euclid's loop ends on every pair of integers and gives their greatest common divisor; the least common multiple follows.\<close>

theorem bigint_gcd_lcm:
  assumes "big_wf x" "big_wf y"
  shows "\<exists>g l. big_gcd x y = Some g \<and> bval g = gcd (bval x) (bval y) \<and>
    big_lcm x y = Some l \<and> bval l = lcm (bval x) (bval y)"
  using gcd_val [OF assms] lcm_val [OF assms] by blast

theorem bigint_gcd_lcm_witness:
  "\<exists>g. big_gcd \<lparr>bneg = True, bmag = [0, 1]\<rparr> \<lparr>bneg = False, bmag = [6]\<rparr> = Some g \<and> bval g = gcd (- (2 ^ 32)) 6"
  using bigint_gcd_lcm [of "\<lparr>bneg = True, bmag = [0, 1]\<rparr>" "\<lparr>bneg = False, bmag = [6]\<rparr>"]
  by (auto simp: big_wf_def trimmed_def bval_def B32_def)

text \<open>C37. Modular exponentiation by squaring gives the power reduced as the truncated remainder.\<close>

theorem bigint_modular_power:
  assumes "big_wf x" "big_wf e" "big_wf m" "bval m \<noteq> 0" "0 \<le> bval e"
  shows "bval (big_powm x e m) = trem (bval x ^ nat (bval e)) (bval m)"
  using powm_val [OF assms] by blast

theorem bigint_modular_power_witness:
  "bval (big_powm \<lparr>bneg = False, bmag = [7]\<rparr> \<lparr>bneg = False, bmag = [10]\<rparr> \<lparr>bneg = False, bmag = [0, 1]\<rparr>) =
    trem (7 ^ 10) (2 ^ 32)"
  by (subst bigint_modular_power) (simp_all add: big_wf_def trimmed_def bval_def B32_def)

text \<open>C38. Shifting left multiplies by a power of two, shifting right divides by it towards minus infinity, negative values included.\<close>

theorem bigint_shifts:
  assumes "big_wf x"
  shows "bval (big_shl x n) = bval x * 2 ^ n \<and> bval (big_shr x n) = bval x div 2 ^ n"
  using bval_shr [OF assms] by simp_all

theorem bigint_shifts_witness: "bval (big_shr \<lparr>bneg = True, bmag = [1, 1]\<rparr> 1) = - (2 ^ 32 + 1) div 2"
  by (subst bigint_shifts [THEN conjunct2]) (simp_all add: big_wf_def trimmed_def bval_def B32_def)



text \<open>C40. The debug and local variable sections, complete or broken off anywhere, end and change nothing of a loaded program but its lines, file name and variable names.\<close>

theorem rite_optional_sections_keep_code:
  assumes "ireps_ok irs" "root < length irs"
  shows "(\<exists>irs' res. read_debug (Suc (length irs)) c irs root = Some (irs', res) \<and> same_code irs irs') \<and>
    (\<exists>irs' res. read_lvar (Suc (length irs)) c irs root = Some (irs', res) \<and> same_code irs irs')"
  using debug_code [OF assms] lvar_code [OF assms] by blast

theorem rite_optional_sections_keep_code_witness:
  "\<exists>irs' res. read_lvar 2 \<lparr>cb = [0, 0, 0, 9], cp = 0\<rparr>
     [\<lparr>ir_nlocals = 1, ir_nregs = 3, ir_iseq = [105], ir_catch = [], ir_pool = [], ir_syms = [], ir_reps = [],
       ir_lv = [], ir_lines = [], ir_filename = None\<rparr>] 0 = Some (irs', res) \<and> length irs' = 1"
proof -
  let ?irs = "[\<lparr>ir_nlocals = 1, ir_nregs = 3, ir_iseq = [105], ir_catch = [], ir_pool = [], ir_syms = [], ir_reps = [],
       ir_lv = [], ir_lines = [], ir_filename = None\<rparr>]"
  have "ireps_ok ?irs" "0 < length ?irs" by (simp_all add: ireps_ok_def irep_ok_def)
  from rite_optional_sections_keep_code [OF this, of "\<lparr>cb = [0, 0, 0, 9], cp = 0\<rparr>"]
  show ?thesis by (auto dest!: same_code_length simp: numeral_2_eq_2)
qed

section \<open>Further theorems\<close>

text \<open>Reading an instance variable answers the last value written to it, writing one leaves every other variable of every object alone.\<close>

theorem ivar_reads_last_write:
  assumes "heap_get h i \<noteq> None"
  shows "heap_ivar_get (heap_ivar_set h i name v) j m =
    (if j = i \<and> m = name then Some v else heap_ivar_get h j m)"
  by (rule ivar_get_set [OF assms])

theorem ivar_reads_last_write_witness:
  "heap_ivar_get (heap_ivar_set (heap_new\<lparr>hp_objs := [new_object 0 K_Object]\<rparr>) 0 7 VTrue) 0 7 = Some VTrue"
  by (subst ivar_reads_last_write) (simp_all add: heap_get_def)

text \<open>The triangular probe sequence visits every bucket exactly once in one round, for every table width up to 31 bits, although n*n+n wraps around in 32 bits.\<close>

theorem probe_visits_every_bucket:
  assumes "b \<le> 31"
  shows "bij_betw (\<lambda>n. probe_at code (of_nat n) (mask b)) {0..<2 ^ b} {0..<2 ^ b}"
  by (rule probe_covers [OF assms])

theorem probe_visits_every_bucket_witness:
  "bij_betw (\<lambda>n. probe_at 123 (of_nat n) (mask 31)) {0..<2 ^ 31} {0..<2 ^ 31}"
  by (rule probe_visits_every_bucket) simp

text \<open>Comparison of arbitrary precision integers is the order of the integers they stand for, and two well-formed ones are equal when their values are.\<close>

theorem bigint_order_is_integer_order:
  assumes "big_wf x" "big_wf y"
  shows "big_cmp x y = ord_cmp (bval x) (bval y) \<and> (bval x = bval y \<longleftrightarrow> x = y)"
  using big_cmp_val [OF assms] bval_inj [OF assms] by auto

theorem bigint_order_is_integer_order_witness:
  "big_cmp \<lparr>bneg = True, bmag = [1, 2]\<rparr> \<lparr>bneg = False, bmag = [3]\<rparr> = ord_cmp (- (2 * 2 ^ 32 + 1)) (3 :: int)"
  using bigint_order_is_integer_order [of "\<lparr>bneg = True, bmag = [1, 2]\<rparr>" "\<lparr>bneg = False, bmag = [3]\<rparr>"]
  by (simp add: big_wf_def trimmed_def bval_def B32_def)

text \<open>Converting a normal double takes its value towards zero, from the sign, exponent and fraction bits.\<close>

theorem bigint_from_float_truncates:
  fixes f :: u64
  assumes "0 < unat (drop_bit 52 f AND 0x7FF)" "unat (drop_bit 52 f AND 0x7FF) < 0x7FF"
  shows "bval (big_from_f64 f) = (if bit f 63 then -1 else 1) *
    int (if 1075 \<le> unat (drop_bit 52 f AND 0x7FF)
         then (2 ^ 52 + unat (f AND 0x000FFFFFFFFFFFFF)) * 2 ^ (unat (drop_bit 52 f AND 0x7FF) - 1075)
         else (2 ^ 52 + unat (f AND 0x000FFFFFFFFFFFFF)) div 2 ^ (1075 - unat (drop_bit 52 f AND 0x7FF)))"
  using from_f64_val [of f] assms by blast

theorem bigint_from_float_truncates_witness: "bval (big_from_f64 0x4010000000000000) = 4"
  by (subst bigint_from_float_truncates) (simp_all add: bit_numeral_rec)

text \<open>The bytes an integer is hashed by determine it: two different integers never hash the same bytes.\<close>

theorem bigint_hash_bytes_injective: "big_hash_bytes x = big_hash_bytes y \<longleftrightarrow> x = y"
  using hash_bytes_inj by blast

text \<open>While a call has an object's host value out, a second call on the same object is refused as in use (not as stale), and after the value is given back the object answers with it.\<close>

theorem host_object_in_use_is_refused:
  assumes "host_inv vm" "entry_of vm ty = Some (g, ty, st)" "hst_get st h = Some v"
  shows "\<exists>vm1. take_out vm ty (Some (g, h)) own = (vm1, Inr (h, v)) \<and> host_inv vm1 \<and>
    snd (take_out vm1 ty (Some (g, h)) own) = Inl In_Use \<and> snd (borrow vm1 ty (Some (g, h)) own) = Inl In_Use \<and>
    snd (borrow (give_back vm1 ty h w) ty (Some (g, h)) own) = Inr (Some w)"
  using take_out_loans [OF assms] by metis

theorem host_object_in_use_is_refused_witness:
  "\<exists>vm1. take_out \<lparr>hv_next_tag = 2, hv_stores = [(1, True, fst (hst_insert hst_new CHR ''x''))]\<rparr> True (Some (1, 0)) False =
    (vm1, Inr (0, CHR ''x''))"
proof -
  have i: "hst_inv (fst (hst_insert hst_new CHR ''x''))"
    using store.ins_law [OF hst_new_inv surjective_pairing, of "CHR ''x''"] by blast
  have "host_inv \<lparr>hv_next_tag = 2, hv_stores = [(1, True, fst (hst_insert hst_new CHR ''x''))]\<rparr>"
    using i by (simp add: host_inv_def)
  note r = host_object_in_use_is_refused [OF this, of True 1 "fst (hst_insert hst_new CHR ''x'')" 0 "CHR ''x''" False undefined]
  have "hst_get (fst (hst_insert hst_new CHR ''x'')) 0 = Some CHR ''x''"
    by (simp add: hst_insert_def hst_new_def hst_get_def hst_cell_def)
  then show ?thesis using r by (auto simp: entry_of_def)
qed

text \<open>After h[k] = v, h[j] answers v when j is the same key as k and what it answered before otherwise, for all keys no Ruby code compares.\<close>

theorem hash_reads_last_write:
  assumes "native_hash s ob h" "Suc (length (hp_objs (vm_heap s))) < B32" "native_key (vm_string s) key" "live s key"
    "native_key (vm_string s) j" "live s j" "h_len h < 2 ^ 30" "\<not> frozen_at s ob"
  shows "\<exists>s'. hash_set rb (VObj ob) key v s = Some (s', Inr ()) \<and>
    hash_get rb (VObj ob) j s' = Some (s', Inr (if keq (vm_string s) j key then Some v
      else pairs_get (vm_string s) j (h_entries h)))"
  by (rule get_after_set [OF assms])

theorem hash_reads_last_write_witness:
  "\<exists>s'. hash_set (quiet (\<lambda>_ _ _. ret VNil)) (VObj 0) (VInt 7) VTrue
      \<lparr>vm_heap = heap_new\<lparr>hp_objs := [new_object 0 (K_Hash h_new)], hp_flags := [0]\<rparr>, vm_native_active = 0, vm_world = ()\<rparr> =
    Some (s', Inr ()) \<and> hash_get (quiet (\<lambda>_ _ _. ret VNil)) (VObj 0) (VInt 7) s' = Some (s', Inr (Some VTrue))"
proof -
  let ?s = "\<lparr>vm_heap = heap_new\<lparr>hp_objs := [new_object 0 (K_Hash h_new)], hp_flags := [0]\<rparr>, vm_native_active = 0, vm_world = ()\<rparr>"
  have n: "native_hash ?s 0 h_new"
    by (auto simp: native_hash_def heap_inv_def heap_new_def heap_is_free_def slot_free_def B32_def hd_of_def heap_kind_def heap_get_def
      new_object_def native_ok_def keys_ok_def entry_keys_def h_new_def h_len_def h_is_ht_def native.unique_def)
  have k: "native_key (vm_string ?s) (VInt 7)" by (simp add: native_key_def native_code_def)
  have e: "keq (vm_string ?s) (VInt 7) (VInt 7)" by (simp add: keq_def key_bytes_def native_eql_def)
  show ?thesis using hash_reads_last_write [OF n _ k _ k, of "quiet (\<lambda>_ _ _. ret VNil)" VTrue] e
    by (simp add: heap_new_def B32_def live_def h_len_def h_new_def frozen_at_def heap_get_def new_object_def)
qed

end
